(* ===== verification/Prelude.thy ===== *)
theory Prelude
  imports Main "HOL-Library.Word"
begin

text \<open>
  Shared vocabulary of the development. The model follows the 32-bit x86 build of the kernel
  (the only one whose \<^verbatim>\<open>DriverApi.cpp\<close> compiles as it stands): \<^verbatim>\<open>size_t\<close>, \<^verbatim>\<open>UPtr\<close>, \<^verbatim>\<open>unsigned\<close>
  and \<^verbatim>\<open>Reg\<close> are 32 bits wide and a page is 4096 bytes. Machine integers are either words of
  HOL-Library.Word or natural numbers with the wrap-around of this theory written out; a C++
  expression whose behaviour is undefined is the value \<open>None\<close> of an option type, and a
  \<^verbatim>\<open>Try<T>\<close> is a sum whose left side carries the failure message.
\<close>

named_theorems wrap_simps "wrap-around arithmetic that does not wrap"
named_theorems seq_simps "effect of the container operations on their abstract sequences"

type_synonym u8 = "8 word"
type_synonym u16 = "16 word"
type_synonym u32 = "32 word"
type_synonym u64 = "64 word"

type_synonym 'a attempt = "string + 'a"

section \<open>Unsigned 32-bit arithmetic on natural numbers\<close>

abbreviation (input) two32 :: nat where
  "two32 \<equiv> 4294967296"

definition add32 :: "nat \<Rightarrow> nat \<Rightarrow> nat" where
  "add32 a b = (a + b) mod two32"

definition sub32 :: "nat \<Rightarrow> nat \<Rightarrow> nat" where
  "sub32 a b = (a + (two32 - b mod two32)) mod two32"

definition mul32 :: "nat \<Rightarrow> nat \<Rightarrow> nat" where
  "mul32 a b = (a * b) mod two32"

lemma add32_exact [wrap_simps]: "a + b < two32 \<Longrightarrow> add32 a b = a + b"
  by (simp add: add32_def)

lemma mul32_exact [wrap_simps]: "a * b < two32 \<Longrightarrow> mul32 a b = a * b"
  by (simp add: mul32_def)

lemma sub32_exact [wrap_simps]: "b \<le> a \<Longrightarrow> a < two32 \<Longrightarrow> sub32 a b = a - b"
proof -
  assume "b \<le> a" and "a < two32"
  then have "a + (two32 - b mod two32) = (a - b) + two32" by simp
  then have "sub32 a b = (a - b + two32) mod two32" by (simp only: sub32_def)
  also have "\<dots> = (a - b) mod two32" by (rule mod_add_self2)
  also have "\<dots> = a - b" using \<open>a < two32\<close> by simp
  finally show ?thesis .
qed

lemma add32_less [simp]: "add32 a b < two32"
  by (simp add: add32_def)

lemma sub32_less [simp]: "sub32 a b < two32"
  by (simp add: sub32_def)

lemma mul32_less [simp]: "mul32 a b < two32"
  by (simp add: mul32_def)

section \<open>First and last elements\<close>

definition first_or :: "'a list \<Rightarrow> 'a option \<Rightarrow> 'a option" where
  "first_or xs d = (case xs of [] \<Rightarrow> d | x # _ \<Rightarrow> Some x)"

definition last_or :: "'a option \<Rightarrow> 'a list \<Rightarrow> 'a option" where
  "last_or d xs = (if xs = [] then d else Some (last xs))"

lemma first_or_simps [simp]:
  "first_or [] d = d"
  "first_or (x # xs) d = Some x"
  by (simp_all add: first_or_def)

lemma first_or_append [simp]: "first_or (xs @ ys) d = first_or xs (first_or ys d)"
  by (cases xs) simp_all

lemma last_or_simps [simp]:
  "last_or d [] = d"
  "last_or d (x # xs) = last_or (Some x) xs"
  "last_or d (xs @ [y]) = Some y"
  by (simp_all add: last_or_def)

lemma last_or_append [simp]: "last_or d (xs @ ys) = last_or (last_or d xs) ys"
  by (induction xs arbitrary: d) simp_all

lemma first_or_in: "first_or xs None = Some x \<Longrightarrow> x \<in> set xs"
  by (cases xs) simp_all

lemma last_or_in: "last_or None xs = Some x \<Longrightarrow> x \<in> set xs"
  by (auto simp: last_or_def split: if_splits)

lemma first_or_None [simp]: "first_or xs None = None \<longleftrightarrow> xs = []"
  by (cases xs) simp_all

lemma last_or_None [simp]: "last_or None xs = None \<longleftrightarrow> xs = []"
  by (simp add: last_or_def)

lemma last_or_Some_not_None [simp]: "last_or (Some x) xs \<noteq> None"
  by (simp add: last_or_def)

section \<open>Lists\<close>

lemma remove1_split: "x \<notin> set xs \<Longrightarrow> remove1 x (xs @ x # ys) = xs @ ys"
  by (simp add: remove1_append)

lemma split_at_elem:
  assumes "x \<in> set xs" and "distinct xs"
  obtains as bs where "xs = as @ x # bs" and "x \<notin> set as" and "x \<notin> set bs"
    and "remove1 x xs = as @ bs"
proof -
  from split_list[OF assms(1)] obtain as bs where s: "xs = as @ x # bs" by blast
  with assms(2) have "x \<notin> set as" "x \<notin> set bs" by auto
  with s show thesis using that by (simp add: remove1_split)
qed

lemma find_append: "find P (xs @ ys) = (case find P xs of None \<Rightarrow> find P ys | Some x \<Rightarrow> Some x)"
  by (induction xs) auto

lemma find_SomeD: "find P xs = Some x \<Longrightarrow> x \<in> set xs \<and> P x"
  by (auto simp: find_Some_iff)

end
