(* ===== verification/CString.thy ===== *)
theory CString
  imports Prelude
begin

text \<open>
  The memory and C-string routines of \<^verbatim>\<open>common/stdlib.cpp\<close> (the generic versions: the target has no
  unaligned-access or 128-bit variants). Memory is a map from addresses to bytes, a plain \<^verbatim>\<open>char\<close> is signed.
  Pointer arithmetic that leaves the address space is undefined behaviour in C++ and is not given a meaning:
  addresses are natural numbers. A loop that finds no terminator does not end: that is \<open>None\<close>.
\<close>

type_synonym memory = "nat \<Rightarrow> u8"

section \<open>Copying\<close>

text \<open>\<^verbatim>\<open>while(bytes--) *d++ = *s++;\<close>\<close>

fun copy_up :: "nat \<Rightarrow> nat \<Rightarrow> nat \<Rightarrow> memory \<Rightarrow> memory" where
  "copy_up d s 0 m = m"
| "copy_up d s (Suc n) m = copy_up (d + 1) (s + 1) n (m(d := m s))"

text \<open>\<^verbatim>\<open>while(bytes--) *--d = *--s;\<close> with \<^verbatim>\<open>d\<close> and \<^verbatim>\<open>s\<close> one past the ends.\<close>

fun copy_down :: "nat \<Rightarrow> nat \<Rightarrow> nat \<Rightarrow> memory \<Rightarrow> memory" where
  "copy_down d s 0 m = m"
| "copy_down d s (Suc n) m = copy_down d s n (m(d + n := m (s + n)))"

text \<open>One 64-bit load and store.\<close>

definition copy8 :: "nat \<Rightarrow> nat \<Rightarrow> memory \<Rightarrow> memory" where
  "copy8 d s m = (\<lambda>a. if d \<le> a \<and> a < d + 8 then m (s + (a - d)) else m a)"

text \<open>\<^verbatim>\<open>bytes>=8&&(UPtr)s&7==(UPtr)d&7\<close>: comparison binds tighter than \<^verbatim>\<open>&\<close>.\<close>

definition wide_test :: "nat \<Rightarrow> nat \<Rightarrow> nat \<Rightarrow> bool" where
  "wide_test d s bytes \<longleftrightarrow> bytes \<ge> 8 \<and> (s mod 2) * (if 7 = d then 1 else 0) \<noteq> 0"

fun align_loop :: "nat \<Rightarrow> nat \<Rightarrow> nat \<Rightarrow> memory \<Rightarrow> nat \<times> nat \<times> nat \<times> memory" where
  "align_loop d s 0 m = (d, s, 0, m)"
| "align_loop d s (Suc n) m =
     (if s mod 8 \<noteq> 0 then align_loop (d + 1) (s + 1) n (m(d := m s)) else (d, s, Suc n, m))"

function wide_loop :: "nat \<Rightarrow> nat \<Rightarrow> nat \<Rightarrow> memory \<Rightarrow> nat \<times> nat \<times> nat \<times> memory" where
  "wide_loop d s n m = (if n \<ge> 8 then wide_loop (d + 8) (s + 8) (n - 8) (copy8 d s m) else (d, s, n, m))"
  by pat_completeness auto
termination by (relation "measure (\<lambda>(d, s, n, m). n)") auto

declare wide_loop.simps [simp del]

definition memcpy_forwards_aligned :: "nat \<Rightarrow> nat \<Rightarrow> nat \<Rightarrow> memory \<Rightarrow> memory" where
  "memcpy_forwards_aligned d s bytes m =
     (case (if wide_test d s bytes then
              (case align_loop d s bytes m of (d, s, n, m) \<Rightarrow> wide_loop d s n m)
            else (d, s, bytes, m)) of
        (d, s, n, m) \<Rightarrow> copy_up d s n m)"

definition memcpy_backwards_aligned :: "nat \<Rightarrow> nat \<Rightarrow> nat \<Rightarrow> memory \<Rightarrow> memory" where
  "memcpy_backwards_aligned d s bytes m = copy_down d s bytes m"

definition memcpy_aligned :: "nat \<Rightarrow> nat \<Rightarrow> nat \<Rightarrow> memory \<Rightarrow> memory" where
  "memcpy_aligned d s bytes m = (if d = s then m else memcpy_forwards_aligned d s bytes m)"

definition memcpy :: "nat \<Rightarrow> nat \<Rightarrow> nat \<Rightarrow> memory \<Rightarrow> memory" where
  "memcpy d s bytes m = memcpy_aligned d s bytes m"

definition memmove :: "nat \<Rightarrow> nat \<Rightarrow> nat \<Rightarrow> memory \<Rightarrow> memory" where
  "memmove d s bytes m = (if d \<ge> s then copy_down d s bytes m else copy_up d s bytes m)"

fun bzero :: "nat \<Rightarrow> nat \<Rightarrow> memory \<Rightarrow> memory" where
  "bzero d 0 m = m"
| "bzero d (Suc n) m = bzero (d + 1) n (m(d := 0))"

text \<open>The difference of two signed characters, as \<^verbatim>\<open>int\<close>.\<close>

definition char_diff :: "u8 \<Rightarrow> u8 \<Rightarrow> int" where
  "char_diff x y = sint x - sint y"

fun memcmp :: "memory \<Rightarrow> nat \<Rightarrow> nat \<Rightarrow> nat \<Rightarrow> int" where
  "memcmp m a b 0 = 0"
| "memcmp m a b (Suc n) =
     (if char_diff (m a) (m b) \<noteq> 0 then char_diff (m a) (m b) else memcmp m (a + 1) (b + 1) n)"

section \<open>Strings\<close>

partial_function (option) strlen_from :: "memory \<Rightarrow> nat \<Rightarrow> u64 \<Rightarrow> u64 option" where
  "strlen_from m str n = (if m str \<noteq> 0 then strlen_from m (str + 1) (n + 1) else Some n)"

text \<open>The 64-bit count is returned as a 32-bit \<^verbatim>\<open>size_t\<close>.\<close>

definition strlen :: "memory \<Rightarrow> nat \<Rightarrow> nat option" where
  "strlen m str = map_option (\<lambda>n. unat n mod two32) (strlen_from m str 0)"

partial_function (option) strcpy_from :: "nat \<Rightarrow> nat \<Rightarrow> memory \<Rightarrow> memory option" where
  "strcpy_from x source m =
     (if m source \<noteq> 0 then strcpy_from (x + 1) (source + 1) (m(x := m source)) else Some (m(x := 0)))"

definition strcpy :: "nat \<Rightarrow> nat \<Rightarrow> memory \<Rightarrow> memory option" where
  "strcpy destination source m = strcpy_from destination source m"

definition strcat :: "nat \<Rightarrow> nat \<Rightarrow> memory \<Rightarrow> memory option" where
  "strcat destination source m =
     (case strlen m destination of None \<Rightarrow> None | Some n \<Rightarrow> strcpy (destination + n) source m)"

partial_function (option) strcmp :: "memory \<Rightarrow> nat \<Rightarrow> nat \<Rightarrow> int option" where
  "strcmp m a b =
     (if m a \<noteq> 0 \<and> m b \<noteq> 0 then
        (if char_diff (m a) (m b) \<noteq> 0 then Some (char_diff (m a) (m b)) else strcmp m (a + 1) (b + 1))
      else Some (if m a \<noteq> 0 then 1 else if m b \<noteq> 0 then - 1 else 0))"

fun strncmp :: "memory \<Rightarrow> nat \<Rightarrow> nat \<Rightarrow> nat \<Rightarrow> int" where
  "strncmp m a b 0 = 0"
| "strncmp m a b (Suc n) =
     (if m a \<noteq> 0 \<and> m b \<noteq> 0 then
        (if char_diff (m a) (m b) \<noteq> 0 then char_diff (m a) (m b) else strncmp m (a + 1) (b + 1) n)
      else 0)"

text \<open>Outer \<open>None\<close>: no end; inner \<open>None\<close>: the null pointer.\<close>

partial_function (option) strchr :: "memory \<Rightarrow> nat \<Rightarrow> u8 \<Rightarrow> nat option option" where
  "strchr m str c =
     (if m str \<noteq> 0 then (if m str = c then Some (Some str) else strchr m (str + 1) c) else Some None)"

partial_function (option) strstr_from :: "memory \<Rightarrow> nat \<Rightarrow> nat \<Rightarrow> nat \<Rightarrow> nat option option" where
  "strstr_from m search needle n =
     (case strchr m search (m needle) of
        None \<Rightarrow> None
      | Some None \<Rightarrow> Some None
      | Some (Some p) \<Rightarrow>
          (if strncmp m p needle n = 0 then Some (Some p) else strstr_from m (p + 1) needle n))"

definition strstr :: "memory \<Rightarrow> nat \<Rightarrow> nat \<Rightarrow> nat option option" where
  "strstr m haystack needle =
     (case strlen m needle of
        None \<Rightarrow> None
      | Some n \<Rightarrow> if n = 0 then Some (Some haystack) else strstr_from m haystack needle n)"

section \<open>Copying is copying\<close>

text \<open>The specification: the bytes of the source block, as they were, in the destination block.\<close>

definition copied :: "nat \<Rightarrow> nat \<Rightarrow> nat \<Rightarrow> memory \<Rightarrow> memory" where
  "copied d s n m = (\<lambda>a. if d \<le> a \<and> a < d + n then m (s + (a - d)) else m a)"

lemma copied_0 [simp]: "copied d s 0 m = m"
  by (rule ext) (auto simp: copied_def)

lemma copied_compose:
  assumes "d + k \<le> s \<or> s + k + n \<le> d \<or> d \<le> s"
  shows "copied (d + k) (s + k) n (copied d s k m) = copied d s (k + n) m"
proof
  fix a
  consider "a < d" | "d \<le> a" "a < d + k" | "d + k \<le> a" "a < d + k + n" | "d + k + n \<le> a" by linarith
  then show "copied (d + k) (s + k) n (copied d s k m) a = copied d s (k + n) m a"
  proof cases
    case 3
    then have e: "s + k + (a - (d + k)) = s + (a - d)" by simp
    have "\<not> (d \<le> s + (a - d) \<and> s + (a - d) < d + k)" using 3 assms by linarith
    then have "copied d s k m (s + (a - d)) = m (s + (a - d))" unfolding copied_def by (rule if_not_P)
    with 3 e show ?thesis by (subst copied_def, subst (2) copied_def) simp
  qed (auto simp: copied_def)
qed

lemma copied_1: "m(d := m s) = copied d s 1 m"
  by (rule ext) (auto simp: copied_def)

lemma copy_up_copied: "d \<le> s \<or> s + n \<le> d \<Longrightarrow> copy_up d s n m = copied d s n m"
proof (induction n arbitrary: d s m)
  case (Suc n)
  have "copy_up d s (Suc n) m = copied (d + 1) (s + 1) n (copied d s 1 m)"
    unfolding copy_up.simps copied_1 by (rule Suc.IH) (use Suc.prems in linarith)
  also have "\<dots> = copied d s (1 + n) m"
    by (rule copied_compose) (use Suc.prems in linarith)
  finally show ?case by simp
qed simp

lemma copy_down_copied: "s \<le> d \<Longrightarrow> copy_down d s n m = copied d s n m"
proof (induction n arbitrary: m)
  case (Suc n)
  have "copy_down d s (Suc n) m = copied d s n (m(d + n := m (s + n)))" using Suc by simp
  also have "\<dots> = copied d s (Suc n) m"
    using Suc.prems by (auto simp: copied_def fun_eq_iff less_Suc_eq)
  finally show ?case .
qed simp

lemma copy8_copied: "copy8 d s m = copied d s 8 m"
  by (simp add: copy8_def copied_def)

lemma align_loop_copied:
  assumes "align_loop d s n m = (d', s', n', m')" and "d + n \<le> s \<or> s + n \<le> d"
  shows "\<exists>k \<le> n. d' = d + k \<and> s' = s + k \<and> n' = n - k \<and> m' = copied d s k m"
  using assms
proof (induction n arbitrary: d s m)
  case 0
  then show ?case by auto
next
  case (Suc n)
  show ?case
  proof (cases "s mod 8 \<noteq> 0")
    case True
    with Suc.prems(1) have "align_loop (d + 1) (s + 1) n (m(d := m s)) = (d', s', n', m')" by simp
    from Suc.IH[OF this] Suc.prems(2) obtain k where k: "k \<le> n" "d' = d + 1 + k" "s' = s + 1 + k"
      "n' = n - k" "m' = copied (d + 1) (s + 1) k (copied d s 1 m)" unfolding copied_1 by force
    have "copied (d + 1) (s + 1) k (copied d s 1 m) = copied d s (1 + k) m"
      by (rule copied_compose) (use Suc.prems(2) k(1) in linarith)
    then have "m' = copied d s (Suc k) m" using k(5) by simp
    with k show ?thesis by (intro exI[of _ "Suc k"]) auto
  next
    case False
    with Suc.prems show ?thesis by (intro exI[of _ 0]) auto
  qed
qed

lemma wide_loop_copied:
  "wide_loop d s n m = (d', s', n', m') \<Longrightarrow> d + n \<le> s \<or> s + n \<le> d \<Longrightarrow>
    \<exists>k \<le> n. d' = d + k \<and> s' = s + k \<and> n' = n - k \<and> m' = copied d s k m"
proof (induction d s n m rule: wide_loop.induct)
  case (1 d s n m)
  show ?case
  proof (cases "n \<ge> 8")
    case True
    with "1.prems"(1) have "wide_loop (d + 8) (s + 8) (n - 8) (copy8 d s m) = (d', s', n', m')"
      by (simp add: wide_loop.simps[of d])
    from "1.IH"[OF True this] "1.prems"(2) True obtain k where k: "k \<le> n - 8" "d' = d + 8 + k"
      "s' = s + 8 + k" "n' = n - 8 - k" "m' = copied (d + 8) (s + 8) k (copied d s 8 m)"
      by (auto simp: copy8_copied)
    have "m' = copied d s (8 + k) m"
      using copied_compose[of d 8 s k m] "1.prems"(2) k(1,5) True by auto
    with k True show ?thesis by (intro exI[of _ "8 + k"]) auto
  next
    case False
    with "1.prems" show ?thesis by (intro exI[of _ 0]) (auto simp: wide_loop.simps[of d])
  qed
qed

lemma memcpy_forwards_copied:
  assumes "d + n \<le> s \<or> s + n \<le> d"
  shows "memcpy_forwards_aligned d s n m = copied d s n m"
proof (cases "wide_test d s n")
  case False
  with assms show ?thesis by (auto simp: memcpy_forwards_aligned_def copy_up_copied)
next
  case True
  obtain d1 s1 n1 m1 where a: "align_loop d s n m = (d1, s1, n1, m1)" by (metis prod_cases4)
  obtain d2 s2 n2 m2 where w: "wide_loop d1 s1 n1 m1 = (d2, s2, n2, m2)" by (metis prod_cases4)
  from align_loop_copied[OF a assms] obtain k where k: "k \<le> n" "d1 = d + k" "s1 = s + k" "n1 = n - k"
    "m1 = copied d s k m" by blast
  from wide_loop_copied[OF w] k assms obtain j where j: "j \<le> n1" "d2 = d1 + j" "s2 = s1 + j"
    "n2 = n1 - j" "m2 = copied d1 s1 j m1" by force
  have "memcpy_forwards_aligned d s n m = copy_up d2 s2 n2 m2"
    using True a w by (simp add: memcpy_forwards_aligned_def)
  also have "\<dots> = copied d2 s2 n2 m2" using assms j k by (intro copy_up_copied) auto
  also have "m2 = copied d s (k + j) m" using j k assms by (auto intro: copied_compose)
  also have "copied d2 s2 n2 (copied d s (k + j) m) = copied d s (k + j + n2) m"
    using j k assms copied_compose[of d "k + j" s n2 m] by (auto simp: add.assoc)
  also have "k + j + n2 = n" using j k by simp
  finally show ?thesis .
qed

lemma memcpy_copied: "d + n \<le> s \<or> s + n \<le> d \<Longrightarrow> memcpy d s n m = copied d s n m"
  by (auto simp: memcpy_def memcpy_aligned_def memcpy_forwards_copied copied_def fun_eq_iff)

lemma memmove_copied: "memmove d s n m = copied d s n m"
  by (simp add: memmove_def copy_down_copied copy_up_copied)

text \<open>C30. \<^verbatim>\<open>memmove\<close> copies the source block as it was before the call, however the two blocks overlap, and
  touches nothing else; \<^verbatim>\<open>memcpy\<close>, through its 64-bit path or not, does the same for disjoint blocks.\<close>

theorem memmove_memcpy_copy:
  "memmove d s n m = (\<lambda>a. if d \<le> a \<and> a < d + n then m (s + (a - d)) else m a) \<and>
    (d + n \<le> s \<or> s + n \<le> d \<longrightarrow> memcpy d s n m = memmove d s n m)"
  by (simp add: memmove_copied memcpy_copied copied_def)

theorem memmove_memcpy_copy_witness:
  "memcpy 7 101 16 (\<lambda>a. of_nat a) = memmove 7 101 16 (\<lambda>a. of_nat a)"
  using memmove_memcpy_copy[of 7 101 16] by simp

lemma bzero_zeroes: "bzero d n m = (\<lambda>a. if d \<le> a \<and> a < d + n then 0 else m a)"
proof (induction n arbitrary: d m)
  case (Suc n)
  have "bzero d (Suc n) m = (\<lambda>a. if d + 1 \<le> a \<and> a < d + 1 + n then 0 else (m(d := 0)) a)"
    unfolding bzero.simps by (rule Suc.IH)
  then show ?case by (auto simp: fun_eq_iff)
qed (auto simp: fun_eq_iff)

section \<open>Strings in memory\<close>

text \<open>\<open>cstr m p xs\<close>: the bytes \<open>xs\<close>, none of them zero, are at \<open>p\<close>, and a zero follows.\<close>

fun cstr :: "memory \<Rightarrow> nat \<Rightarrow> u8 list \<Rightarrow> bool" where
  "cstr m p [] \<longleftrightarrow> m p = 0"
| "cstr m p (x # xs) \<longleftrightarrow> m p = x \<and> x \<noteq> 0 \<and> cstr m (p + 1) xs"

lemma char_diff_0 [simp]: "char_diff x y = 0 \<longleftrightarrow> x = y"
  by (auto simp: char_diff_def signed_word_eqI)

lemma cstr_drop: "cstr m p xs \<Longrightarrow> i \<le> length xs \<Longrightarrow> cstr m (p + i) (drop i xs)"
proof (induction xs arbitrary: p i)
  case (Cons x xs)
  then show ?case by (cases i) (auto dest!: Cons.IH[of "Suc p"])
qed simp

lemma cstr_cong: "(\<And>a. p \<le> a \<Longrightarrow> a \<le> p + length xs \<Longrightarrow> m' a = m a) \<Longrightarrow> cstr m' p xs = cstr m p xs"
proof (induction xs arbitrary: p)
  case (Cons x xs)
  have "cstr m' (p + 1) xs = cstr m (p + 1) xs" by (rule Cons.IH) (use Cons.prems in simp)
  with Cons.prems[of p] show ?case by simp
qed simp

lemma cstr_append: "cstr m p (xs @ ys) \<longleftrightarrow>
    (\<forall>i < length xs. m (p + i) = xs ! i \<and> xs ! i \<noteq> 0) \<and> cstr m (p + length xs) ys"
proof (induction xs arbitrary: p)
  case (Cons x xs)
  show ?case unfolding append_Cons cstr.simps Cons.IH by (auto simp: less_Suc_eq_0_disj)
qed simp

lemma strlen_from_cstr:
  "cstr m p xs \<Longrightarrow> strlen_from m p n = Some (n + of_nat (length xs))"
proof (induction xs arbitrary: p n)
  case (Cons x xs)
  then show ?case by (subst strlen_from.simps) (simp add: add.assoc)
qed (subst strlen_from.simps, simp)

lemma strlen_cstr: "cstr m p xs \<Longrightarrow> length xs < two32 \<Longrightarrow> strlen m p = Some (length xs)"
  by (simp add: strlen_def strlen_from_cstr unat_of_nat take_bit_eq_mod)

lemma strcpy_from_cstr:
  "cstr m s xs \<Longrightarrow> x + length xs < s \<or> s + length xs < x \<Longrightarrow>
    strcpy_from x s m = Some (copied x s (length xs + 1) m)"
proof (induction xs arbitrary: x s m)
  case Nil
  then have "m(x := 0) = copied x s (length [] + 1) m" by (auto simp: copied_def fun_eq_iff)
  with Nil show ?case by (subst strcpy_from.simps) simp
next
  case (Cons c xs)
  let ?m = "m(x := m s)"
  have c: "cstr ?m (s + 1) xs"
    using Cons.prems by (subst cstr_cong[where m = m]) auto
  have "strcpy_from (x + 1) (s + 1) ?m = Some (copied (x + 1) (s + 1) (length xs + 1) ?m)"
    by (rule Cons.IH[OF c]) (use Cons.prems(2) in auto)
  also have "copied (x + 1) (s + 1) (length xs + 1) ?m = copied x s (1 + (length xs + 1)) m"
    unfolding copied_1 by (rule copied_compose) (use Cons.prems(2) in auto)
  finally show ?case using Cons.prems(1) by (subst strcpy_from.simps) (simp del: fun_upd_apply)
qed

lemma cstr_copied:
  assumes "cstr m s xs"
  shows "cstr (copied x s (length xs + 1) m) x xs"
  using assms
proof -
  have at: "m (s + i) = (xs @ [0]) ! i" if "i \<le> length xs" for i
    using assms that cstr_drop[OF assms that] by (cases "drop i xs") (auto simp: nth_append
        dest: arg_cong[where f = "\<lambda>l. l ! 0"])
  have nz: "xs ! i \<noteq> 0" if "i < length xs" for i
    using cstr_append[of m s xs "[]"] assms that by simp
  have "copied x s (length xs + 1) m (x + i) = (xs @ [0]) ! i" if "i \<le> length xs" for i
    using at[OF that] that by (simp add: copied_def)
  with nz have "\<forall>i < length xs. copied x s (length xs + 1) m (x + i) = xs ! i \<and> xs ! i \<noteq> 0"
    and "copied x s (length xs + 1) m (x + length xs) = 0" by (auto simp: nth_append)
  then show ?thesis using cstr_append[of "copied x s (length xs + 1) m" x xs "[]"] by simp
qed

lemma strcpy_cstr:
  assumes "cstr m s xs" and "x + length xs < s \<or> s + length xs < x"
  shows "strcpy x s m = Some (copied x s (length xs + 1) m)" "cstr (copied x s (length xs + 1) m) x xs"
  using strcpy_from_cstr[OF assms] cstr_copied[OF assms(1)] by (simp_all add: strcpy_def)

lemma strcat_cstr:
  assumes "cstr m d ys" and "cstr m s xs" and "length ys < two32"
    and "d + length ys + length xs < s \<or> s + length xs < d"
  shows "\<exists>m'. strcat d s m = Some m' \<and> cstr m' d (ys @ xs)"
proof -
  have dj: "d + length ys + length xs < s \<or> s + length xs < d + length ys" using assms(4) by linarith
  let ?m = "copied (d + length ys) s (length xs + 1) m"
  have "strcat d s m = Some ?m"
    using strcpy_cstr(1)[OF assms(2) dj] strlen_cstr[OF assms(1,3)] by (simp add: strcat_def)
  moreover have "cstr ?m d (ys @ xs)"
    using strcpy_cstr(2)[OF assms(2) dj] cstr_append[of m d ys "[]"] assms(1)
    by (simp add: cstr_append) (simp add: copied_def)
  ultimately show ?thesis by blast
qed

text \<open>The order \<^verbatim>\<open>strcmp\<close> is meant to compute: by the first differing signed character, a proper prefix first.\<close>

fun str_order :: "u8 list \<Rightarrow> u8 list \<Rightarrow> int" where
  "str_order [] [] = 0"
| "str_order [] (y # ys) = - 1"
| "str_order (x # xs) [] = 1"
| "str_order (x # xs) (y # ys) = (if x = y then str_order xs ys else char_diff x y)"

lemma strcmp_cstr: "cstr m a xs \<Longrightarrow> cstr m b ys \<Longrightarrow> strcmp m a b = Some (str_order xs ys)"
  by (induction xs ys arbitrary: a b rule: str_order.induct) (subst strcmp.simps, simp)+

lemma str_order_0: "str_order xs ys = 0 \<longleftrightarrow> xs = ys"
  by (induction xs ys rule: str_order.induct) auto

text \<open>Two strings agree as far as both of them go, up to \<open>n\<close> characters.\<close>

definition agree :: "nat \<Rightarrow> u8 list \<Rightarrow> u8 list \<Rightarrow> bool" where
  "agree n xs ys \<longleftrightarrow> (\<forall>i < min n (min (length xs) (length ys)). xs ! i = ys ! i)"

lemma agree_simps [simp]:
  "agree 0 xs ys" "agree n [] ys" "agree n xs []"
  "agree (Suc n) (x # xs) (y # ys) \<longleftrightarrow> x = y \<and> agree n xs ys"
  by (auto simp: agree_def less_Suc_eq_0_disj)

lemma strncmp_cstr: "cstr m a xs \<Longrightarrow> cstr m b ys \<Longrightarrow> strncmp m a b n = 0 \<longleftrightarrow> agree n xs ys"
proof (induction n arbitrary: a b xs ys)
  case (Suc n)
  then show ?case by (cases xs; cases ys) auto
qed simp

text \<open>\<^verbatim>\<open>strcmp\<close> returns for any two terminated strings, zero exactly for equal ones. \<^verbatim>\<open>strncmp\<close> does not
  tell a string from a longer one: it answers zero exactly when the two agree on the characters both
  have (up to the limit), so every prefix compares equal.\<close>

theorem string_comparison:
  assumes "cstr m a xs" and "cstr m b ys"
  shows "strcmp m a b = Some (str_order xs ys) \<and> (strcmp m a b = Some 0 \<longleftrightarrow> xs = ys) \<and>
    (strncmp m a b n = 0 \<longleftrightarrow> agree n xs ys)"
  using strcmp_cstr[OF assms] strncmp_cstr[OF assms] by (simp add: str_order_0)

definition put :: "nat \<Rightarrow> u8 list \<Rightarrow> memory \<Rightarrow> memory" where
  "put p xs m = (\<lambda>a. if p \<le> a \<and> a < p + length xs then xs ! (a - p) else m a)"

definition demo_memory :: memory where
  "demo_memory = put 200 [98, 99, 0] (put 100 [97, 98, 0] (\<lambda>_. 0))"

lemma demo_strings: "cstr demo_memory 100 [97, 98]" "cstr demo_memory 200 [98, 99]"
  "cstr demo_memory 101 [98]"
  by (simp_all add: demo_memory_def put_def)

theorem string_comparison_witness:
  "strcmp demo_memory 100 200 = Some (- 1) \<and> (strcmp demo_memory 100 200 = Some 0 \<longleftrightarrow> False) \<and>
    (strncmp demo_memory 101 200 5 = 0 \<longleftrightarrow> True)"
  using string_comparison[OF demo_strings(1,2), of 5]
    string_comparison[OF demo_strings(3,2), of 5]
  by (simp add: char_diff_def agree_def)

section \<open>Searching\<close>

lemma strchr_cstr:
  "cstr m p xs \<Longrightarrow> strchr m p c = Some (if c \<in> set xs
     then Some (p + (LEAST i. i < length xs \<and> xs ! i = c)) else None)"
proof (induction xs arbitrary: p)
  case Nil
  then show ?case by (subst strchr.simps) simp
next
  case (Cons x xs)
  show ?case
  proof (cases "x = c")
    case True
    have "(LEAST i. i < length (x # xs) \<and> (x # xs) ! i = c) = 0"
      by (rule Least_eq_0) (simp add: True)
    with True Cons.prems show ?thesis by (subst strchr.simps) simp
  next
    case False
    have IH: "strchr m (p + 1) c = Some (if c \<in> set xs
        then Some (p + 1 + (LEAST i. i < length xs \<and> xs ! i = c)) else None)"
      by (rule Cons.IH) (use Cons.prems in simp)
    have "(LEAST i. i < length (x # xs) \<and> (x # xs) ! i = c) = Suc (LEAST i. i < length xs \<and> xs ! i = c)"
      if c: "c \<in> set xs"
    proof -
      obtain j where "j < length xs" "xs ! j = c" using c by (auto simp: in_set_conv_nth)
      then have "Suc j < length (x # xs) \<and> (x # xs) ! Suc j = c" by simp
      from Least_Suc[where P = "\<lambda>i. i < length (x # xs) \<and> (x # xs) ! i = c", OF this]
      show ?thesis using False by simp
    qed
    with IH False Cons.prems show ?thesis by (subst strchr.simps) auto
  qed
qed

text \<open>Where \<^verbatim>\<open>strstr\<close> stops: the needle's first character is there, and haystack and needle agree from there on
  as far as both go.\<close>

definition stops :: "u8 list \<Rightarrow> u8 list \<Rightarrow> nat \<Rightarrow> bool" where
  "stops hay ne i \<longleftrightarrow> i < length hay \<and> hay ! i = hd ne \<and> agree (length ne) (drop i hay) ne"

fun first_stop :: "u8 list \<Rightarrow> u8 list \<Rightarrow> nat option" where
  "first_stop [] ne = None"
| "first_stop (h # hs) ne =
     (if h = hd ne \<and> agree (length ne) (h # hs) ne then Some 0 else map_option Suc (first_stop hs ne))"

lemma strchr_step:
  assumes "cstr m p (h # hs)"
  shows "strchr m p c = (if h = c then Some (Some p) else strchr m (p + 1) c)"
  using assms by (subst strchr.simps) simp

lemma strstr_from_first:
  assumes "cstr m q ne" and "ne \<noteq> []"
  shows "cstr m p hay \<Longrightarrow>
    strstr_from m p q (length ne) = Some (map_option (\<lambda>i. p + i) (first_stop hay ne))"
proof (induction hay arbitrary: p)
  case Nil
  then show ?case by (subst strstr_from.simps, subst strchr.simps) simp
next
  case (Cons h hs)
  have q: "m q = hd ne" using assms by (cases ne) auto
  have IH: "strstr_from m (p + 1) q (length ne) = Some (map_option (\<lambda>i. p + 1 + i) (first_stop hs ne))"
    by (rule Cons.IH) (use Cons.prems in simp)
  show ?case
  proof (cases "h = hd ne")
    case True
    then have "strstr_from m p q (length ne) =
        (if strncmp m p q (length ne) = 0 then Some (Some p) else strstr_from m (p + 1) q (length ne))"
      using Cons.prems q by (subst strstr_from.simps) (simp add: strchr_step[OF Cons.prems])
    also have "\<dots> = Some (map_option (\<lambda>i. p + i) (first_stop (h # hs) ne))"
      using True IH strncmp_cstr[OF Cons.prems assms(1)]
      by (auto simp: option.map_comp comp_def)
    finally show ?thesis .
  next
    case False
    then have "strstr_from m p q (length ne) = strstr_from m (p + 1) q (length ne)"
      using q by (subst (1 2) strstr_from.simps) (simp add: strchr_step[OF Cons.prems])
    with False IH show ?thesis by (auto simp: option.map_comp comp_def)
  qed
qed

lemma first_stop_Some: "first_stop hay ne = Some i \<Longrightarrow> stops hay ne i \<and> (\<forall>j < i. \<not> stops hay ne j)"
proof (induction hay arbitrary: i)
  case (Cons h hs)
  show ?case
  proof (cases "h = hd ne \<and> agree (length ne) (h # hs) ne")
    case True
    with Cons.prems show ?thesis by (auto simp: stops_def)
  next
    case False
    with Cons.prems obtain k where k: "i = Suc k" "first_stop hs ne = Some k" by auto
    from Cons.IH[OF k(2)] k(1) False show ?thesis
      by (auto simp: stops_def less_Suc_eq_0_disj)
  qed
qed simp

lemma first_stop_None: "first_stop hay ne = None \<Longrightarrow> \<not> stops hay ne i"
proof (induction hay arbitrary: i)
  case (Cons h hs)
  then show ?case
    by (cases i) (auto simp: stops_def split: if_splits)
qed (simp add: stops_def)

text \<open>\<^verbatim>\<open>strstr\<close> always returns for terminated strings, inside the haystack, and never misses an
  occurrence: it stops at the first position where needle and rest of the haystack agree as far as both
  go. It therefore also stops at the end of a haystack that ends in the middle of the needle: a
  non-null answer is an occurrence only when the rest of the haystack is long enough.\<close>

theorem strstr_effect:
  assumes "cstr m p hay" and "cstr m q ne" and "ne \<noteq> []" and "length ne < two32"
  shows "\<exists>r. strstr m p q = Some r \<and>
    (case r of
       None \<Rightarrow> \<forall>i. \<not> (i + length ne \<le> length hay \<and> take (length ne) (drop i hay) = ne)
     | Some a \<Rightarrow> \<exists>i. a = p + i \<and> stops hay ne i \<and>
         (\<forall>j < i. \<not> (j + length ne \<le> length hay \<and> take (length ne) (drop j hay) = ne)) \<and>
         (i + length ne \<le> length hay \<longrightarrow> take (length ne) (drop i hay) = ne))"
proof -
  have occ: "stops hay ne i" if "i + length ne \<le> length hay" "take (length ne) (drop i hay) = ne" for i
  proof -
    obtain x xs where ne: "ne = x # xs" using assms(3) by (cases ne) auto
    have "i < length hay" using that(1) ne by simp
    moreover have "drop i hay ! j = ne ! j" if "j < length ne" for j
      using \<open>take (length ne) (drop i hay) = ne\<close> that by (metis nth_take)
    moreover from this[of 0] have "hay ! i = hd ne" using ne \<open>i < length hay\<close> by simp
    ultimately show ?thesis by (simp add: stops_def agree_def)
  qed
  have full: "take (length ne) (drop i hay) = ne" if "stops hay ne i" "i + length ne \<le> length hay" for i
    using that by (auto simp: stops_def agree_def intro!: nth_equalityI)
  have s: "strstr m p q = Some (map_option (\<lambda>i. p + i) (first_stop hay ne))"
    using strstr_from_first[OF assms(2,3,1)] strlen_cstr[OF assms(2,4)] assms(3) by (simp add: strstr_def)
  show ?thesis
  proof (cases "first_stop hay ne")
    case None
    with s occ first_stop_None[OF None] show ?thesis by auto
  next
    case (Some i)
    with s occ full first_stop_Some[OF Some] show ?thesis by auto
  qed
qed

theorem strstr_effect_witness:
  "(\<exists>r. strstr demo_memory 100 200 = Some r \<and>
    (case r of
       None \<Rightarrow> \<forall>i. \<not> (i + length [98, 99 :: u8] \<le> length [97, 98 :: u8] \<and> take (length [98, 99 :: u8]) (drop i [97, 98 :: u8]) = [98, 99 :: u8])
     | Some a \<Rightarrow> \<exists>i. a = 100 + i \<and> stops [97, 98 :: u8] [98, 99 :: u8] i \<and>
         (\<forall>j < i. \<not> (j + length [98, 99 :: u8] \<le> length [97, 98 :: u8] \<and> take (length [98, 99 :: u8]) (drop j [97, 98 :: u8]) = [98, 99 :: u8])) \<and>
         (i + length [98, 99 :: u8] \<le> length [97, 98 :: u8] \<longrightarrow> take (length [98, 99 :: u8]) (drop i [97, 98 :: u8]) = [98, 99 :: u8]))) \<and>
    strstr demo_memory 100 200 = Some (Some 101)"
proof
  have "strstr demo_memory 100 200 = Some (map_option (\<lambda>i. 100 + i) (first_stop [97, 98] [98, 99]))"
    using strstr_from_first[OF demo_strings(2) _ demo_strings(1)] strlen_cstr[OF demo_strings(2)]
    by (simp add: strstr_def)
  then show "strstr demo_memory 100 200 = Some (Some 101)" by (simp add: agree_def)
qed (rule strstr_effect[OF demo_strings(1,2)], simp_all)

end
