(* ===== verification/Digits.thy ===== *)
theory Digits
  imports Prelude
begin

text \<open>
  Number formatting of \<^verbatim>\<open>common/stdlib.cpp\<close>: \<^verbatim>\<open>_utoa\<close>, \<^verbatim>\<open>_utoahex\<close>, \<^verbatim>\<open>_utoahextrim\<close> and \<^verbatim>\<open>_itoa\<close>. Each fills a
  static buffer backwards and returns a pointer into it; the model takes the buffer's old contents, keeps
  the write position as an integer, and a write outside the buffer is \<open>None\<close>. The parameter \<open>sz\<close> is
  \<^verbatim>\<open>sizeof(Type)\<close>. \<^verbatim>\<open>_ftoa\<close> works on floating point and is not modelled.
\<close>

section \<open>Buffer sizes\<close>

definition digits_binary :: "nat \<Rightarrow> bool \<Rightarrow> nat" where
  "digits_binary bits isSigned = bits * 8 - (if isSigned then 1 else 0)"

definition digits_decimal :: "nat \<Rightarrow> bool \<Rightarrow> nat" where
  "digits_decimal bits isSigned = digits_binary bits isSigned * 643 div 2136 + 1"

definition digits_hex :: "nat \<Rightarrow> bool \<Rightarrow> nat" where
  "digits_hex bits isSigned = (digits_binary bits isSigned + 3) div 4"

section \<open>The routines\<close>

type_synonym buffer = "u8 list"

definition store :: "int \<Rightarrow> u8 \<Rightarrow> buffer \<Rightarrow> buffer option" where
  "store i c b = (if 0 \<le> i \<and> i < int (length b) then Some (b[nat i := c]) else None)"

definition dec_digit :: "nat \<Rightarrow> u8" where
  "dec_digit d = of_nat (d + 48)"

definition hex_digit :: "nat \<Rightarrow> u8" where
  "hex_digit d = [48, 49, 50, 51, 52, 53, 54, 55, 56, 57, 65, 66, 67, 68, 69, 70] ! d"

text \<open>\<^verbatim>\<open>do { *character-- = digit(number%base); number /= base; } while(number>0);\<close>\<close>

function emit :: "nat \<Rightarrow> (nat \<Rightarrow> u8) \<Rightarrow> nat \<Rightarrow> int \<Rightarrow> buffer \<Rightarrow> (buffer \<times> int) option" where
  "emit base digit number character b =
     (case store character (digit (number mod base)) b of
        None \<Rightarrow> None
      | Some b' \<Rightarrow>
          (if number div base > 0 \<and> base > 1 then emit base digit (number div base) (character - 1) b'
           else Some (b', character - 1)))"
  by pat_completeness auto
termination
  by (relation "measure (\<lambda>(base, digit, number, character, b). number)")
     (auto simp: div_less_dividend div_greater_zero_iff)

declare emit.simps [simp del]

definition utoa :: "nat \<Rightarrow> nat \<Rightarrow> buffer \<Rightarrow> (buffer \<times> int) option" where
  "utoa sz number b =
     (let size = int (digits_decimal sz False + 1) in
      case store (size - 1) 0 b of
        None \<Rightarrow> None
      | Some b \<Rightarrow>
          (case emit 10 dec_digit number (size - 2) b of
             None \<Rightarrow> None
           | Some (b, character) \<Rightarrow> Some (b, character + 1)))"

function pad :: "int \<Rightarrow> buffer \<Rightarrow> buffer option" where
  "pad character b =
     (if character > 1 then
        (case store character 48 b of None \<Rightarrow> None | Some b' \<Rightarrow> pad (character - 1) b')
      else Some b)"
  by pat_completeness auto
termination by (relation "measure (\<lambda>(character, b). nat character)") auto

declare pad.simps [simp del]

definition utoahex :: "nat \<Rightarrow> nat \<Rightarrow> buffer \<Rightarrow> (buffer \<times> int) option" where
  "utoahex sz number b =
     (let size = int (2 + digits_hex sz False + 1) in
      case store 0 48 b of
        None \<Rightarrow> None
      | Some b \<Rightarrow>
      (case store 1 120 b of
        None \<Rightarrow> None
      | Some b \<Rightarrow>
      (case store (size - 1) 0 b of
        None \<Rightarrow> None
      | Some b \<Rightarrow>
      (case emit 16 hex_digit number (size - 2) b of
        None \<Rightarrow> None
      | Some (b, character) \<Rightarrow> map_option (\<lambda>b. (b, 0)) (pad character b)))))"

definition utoahextrim :: "nat \<Rightarrow> nat \<Rightarrow> buffer \<Rightarrow> (buffer \<times> int) option" where
  "utoahextrim sz number b =
     (let size = int (2 + digits_hex sz False + 1) in
      case store (size - 1) 0 b of
        None \<Rightarrow> None
      | Some b \<Rightarrow>
      (case emit 16 hex_digit number (size - 2) b of
        None \<Rightarrow> None
      | Some (b, character) \<Rightarrow>
      (case store character 120 b of
        None \<Rightarrow> None
      | Some b \<Rightarrow>
      (case store (character - 1) 48 b of
        None \<Rightarrow> None
      | Some b \<Rightarrow> Some (b, character - 2 + 1)))))"

text \<open>\<^verbatim>\<open>numberAbs\<close> is \<^verbatim>\<open>unsigned\<close>, 32 bits, for every \<^verbatim>\<open>Type\<close>.\<close>

definition itoa :: "nat \<Rightarrow> int \<Rightarrow> buffer \<Rightarrow> (buffer \<times> int) option" where
  "itoa sz number b =
     (let size = int (digits_decimal sz False + 1) in
      case store (size - 1) 0 b of
        None \<Rightarrow> None
      | Some b \<Rightarrow>
      (let isNegative = number < 0;
           numberAbs = nat ((if isNegative then - number else number) mod 4294967296) in
       case emit 10 dec_digit numberAbs (size - 2) b of
         None \<Rightarrow> None
       | Some (b, character) \<Rightarrow>
           (if isNegative then
              (case store character 45 b of
                 None \<Rightarrow> None
               | Some b \<Rightarrow> Some (b, character - 1 + 1))
            else Some (b, character + 1))))"

section \<open>Numerals\<close>

text \<open>The digits of a number, most significant first.\<close>

function numeral_of :: "nat \<Rightarrow> nat \<Rightarrow> nat list" where
  "numeral_of base n = (if base > 1 \<and> n div base > 0 then numeral_of base (n div base) @ [n mod base] else [n mod base])"
  by pat_completeness auto
termination
  by (relation "measure (\<lambda>(base, n). n)") (auto simp: div_less_dividend div_greater_zero_iff)

declare numeral_of.simps [simp del]

fun value_of :: "nat \<Rightarrow> nat list \<Rightarrow> nat" where
  "value_of base ds = foldl (\<lambda>acc d. acc * base + d) 0 ds"

lemma value_numeral: "1 < base \<Longrightarrow> value_of base (numeral_of base n) = n"
proof (induction base n rule: numeral_of.induct)
  case (1 base n)
  show ?case
  proof (cases "n div base > 0")
    case True
    with 1 show ?thesis by (subst numeral_of.simps) (simp add: div_mult_mod_eq)
  next
    case False
    with "1.prems" show ?thesis by (subst numeral_of.simps) (simp add: div_eq_0_iff)
  qed
qed

lemma numeral_digits: "1 < base \<Longrightarrow> \<forall>d \<in> set (numeral_of base n). d < base"
proof (induction base n rule: numeral_of.induct)
  case (1 base n)
  then show ?case by (cases "n div base > 0") (subst numeral_of.simps, simp)+
qed

lemma numeral_length: "1 < base \<Longrightarrow> n < base ^ k \<Longrightarrow> 0 < k \<Longrightarrow> length (numeral_of base n) \<le> k"
proof (induction base n arbitrary: k rule: numeral_of.induct)
  case (1 base n)
  show ?case
  proof (cases "n div base > 0")
    case True
    then have "base \<le> n" using div_greater_zero_iff by blast
    with "1.prems" have "k \<noteq> 1" by auto
    with "1.prems"(3) obtain j where j: "k = Suc j" "0 < j" by (cases k) auto
    have "n div base < base ^ j"
      using "1.prems"(1,2) j by (auto intro!: less_mult_imp_div_less simp: mult.commute)
    with 1 True j show ?thesis by (subst numeral_of.simps) simp
  next
    case False
    with "1.prems" show ?thesis by (subst numeral_of.simps) simp
  qed
qed

lemma numeral_length_ge:
  "1 < base \<Longrightarrow> base ^ k \<le> n \<Longrightarrow> k < length (numeral_of base n)"
proof (induction base n arbitrary: k rule: numeral_of.induct)
  case (1 base n)
  show ?case
  proof (cases k)
    case 0
    then show ?thesis by (subst numeral_of.simps) simp
  next
    case (Suc j)
    then have m: "base ^ j * base \<le> n" using "1.prems"(2) by (simp add: mult.commute)
    have "base ^ j * base div base \<le> n div base" by (rule div_le_mono[OF m])
    then have le: "base ^ j \<le> n div base" using "1.prems"(1) by simp
    moreover have "0 < base ^ j" using "1.prems"(1) by simp
    ultimately have "0 < n div base" by linarith
    with 1 le Suc show ?thesis by (subst numeral_of.simps) simp
  qed
qed

section \<open>What the loop writes\<close>

text \<open>The buffer with \<open>cs\<close> written so that the last of them is at index \<open>i\<close>.\<close>

definition placed :: "nat \<Rightarrow> u8 list \<Rightarrow> buffer \<Rightarrow> buffer" where
  "placed e cs b = take (e - length cs) b @ cs @ drop e b"

lemma length_placed: "length cs \<le> e \<Longrightarrow> e \<le> length b \<Longrightarrow> length (placed e cs b) = length b"
  by (simp add: placed_def)

lemma store_nat: "i < length b \<Longrightarrow> store (int i) c b = Some (b[i := c])"
  by (simp add: store_def)

lemma placed_snoc:
  assumes "length cs < e" and "e \<le> length b"
  shows "placed (e - 1) cs (b[e - 1 := c]) = placed e (cs @ [c]) b"
proof -
  obtain k where k: "e = Suc k" using assms(1) by (cases e) auto
  have d: "drop k (b[k := c]) = c # drop (Suc k) b"
    using assms(2) k by (simp add: Cons_nth_drop_Suc[symmetric] drop_update_cancel)
  show ?thesis using assms by (simp add: placed_def k d)
qed

lemma emit_correct:
  "1 < base \<Longrightarrow> e \<le> length b \<Longrightarrow>
    emit base digit n (int e - 1) b =
      (let cs = map digit (numeral_of base n) in
       if length cs \<le> e then Some (placed e cs b, int e - int (length cs) - 1) else None)"
proof (induction base n arbitrary: e b rule: numeral_of.induct)
  case (1 base n)
  show ?case
  proof (cases e)
    case 0
    then show ?thesis
      by (subst emit.simps) (simp add: store_def Let_def numeral_of.simps[of base n])
  next
    case (Suc k)
    have st: "store (int e - 1) c b = Some (b[k := c])" "store (int k) c b = Some (b[k := c])" for c
      using Suc "1.prems"(2) by (simp_all add: store_nat)
    show ?thesis
    proof (cases "n div base > 0")
      case False
      then have "numeral_of base n = [n mod base]" by (subst numeral_of.simps) simp
      moreover have "placed e [digit (n mod base)] b = b[k := digit (n mod base)]"
        using Suc "1.prems"(2) by (simp add: placed_def upd_conv_take_nth_drop)
      ultimately show ?thesis
        using False Suc by (subst emit.simps) (simp add: st Let_def)
    next
      case True
      let ?cs = "map digit (numeral_of base (n div base))"
      have num: "map digit (numeral_of base n) = ?cs @ [digit (n mod base)]"
        using True "1.prems"(1) by (subst numeral_of.simps) simp
      have "emit base digit n (int e - 1) b = emit base digit (n div base) (int k - 1) (b[k := digit (n mod base)])"
        using True "1.prems"(1) Suc by (subst emit.simps) (simp add: st)
      also have "\<dots> = (if length ?cs \<le> k then Some (placed k ?cs (b[k := digit (n mod base)]),
          int k - int (length ?cs) - 1) else None)"
        using "1.IH"[of k "b[k := digit (n mod base)]"] True "1.prems" Suc by (simp add: Let_def)
      also have "\<dots> = (if length ?cs \<le> k then Some (placed e (?cs @ [digit (n mod base)]) b,
          int k - int (length ?cs) - 1) else None)"
        using placed_snoc[of ?cs e b] Suc "1.prems"(2) by auto
      finally show ?thesis unfolding num Let_def using Suc by simp
    qed
  qed
qed

section \<open>The routines are right\<close>

text \<open>The text a returned pointer denotes.\<close>

definition text_at :: "buffer \<times> int \<Rightarrow> u8 list" where
  "text_at r = takeWhile (\<lambda>c. c \<noteq> 0) (drop (nat (snd r)) (fst r))"

lemma text_placed:
  assumes "length cs \<le> e" and "e < length b" and "b ! e = 0" and "0 \<notin> set cs"
  shows "text_at (placed e cs b, int e - int (length cs)) = cs"
proof -
  have "drop e b = 0 # drop (Suc e) b" using assms(2,3) by (simp add: Cons_nth_drop_Suc[symmetric])
  moreover have "takeWhile (\<lambda>c. c \<noteq> 0) (cs @ 0 # drop (Suc e) b) = cs"
    using assms(4) by (subst takeWhile_append2) auto
  moreover have "nat (int e - int (length cs)) = e - length cs" by (simp add: nat_diff_distrib)
  ultimately show ?thesis using assms(1,2) by (simp add: text_at_def placed_def)
qed

lemma dec_digit_nz: "d < 10 \<Longrightarrow> dec_digit d \<noteq> 0"
  by (simp add: dec_digit_def less_Suc_eq numeral_eq_Suc) (auto simp: word_eq_iff_unsigned)

lemma dec_text_nz: "0 \<notin> set (map dec_digit (numeral_of 10 n))"
  using numeral_digits[of 10 n] dec_digit_nz by auto

lemma digits_decimal_sizes [simp]:
  "digits_decimal 2 False = 5" "digits_decimal 4 False = 10" "digits_decimal 8 False = 20"
  by (simp_all add: digits_decimal_def digits_binary_def)

lemma digits_hex_even: "digits_hex sz False = 2 * sz"
  by (simp add: digits_hex_def digits_binary_def)

lemma utoa_correct:
  assumes "length b = digits_decimal sz False + 1" and "n < 10 ^ digits_decimal sz False"
  shows "\<exists>r. utoa sz n b = Some r \<and> text_at r = map dec_digit (numeral_of 10 n)"
proof -
  let ?L = "digits_decimal sz False" and ?cs = "map dec_digit (numeral_of 10 n)"
  have L: "0 < ?L" by (simp add: digits_decimal_def)
  have len: "length ?cs \<le> ?L" using numeral_length[of 10 n ?L] assms(2) L by simp
  have st: "store (int (?L + 1) - 1) 0 b = Some (b[?L := 0])" using assms(1) by (simp add: store_nat)
  have "emit 10 dec_digit n (int (?L + 1) - 2) (b[?L := 0]) =
      Some (placed ?L ?cs (b[?L := 0]), int ?L - int (length ?cs) - 1)"
    using emit_correct[of 10 ?L "b[?L := 0]" dec_digit n] assms(1) len by (simp add: Let_def)
  with st have u: "utoa sz n b = Some (placed ?L ?cs (b[?L := 0]), int ?L - int (length ?cs))"
    by (simp add: utoa_def Let_def)
  moreover have "text_at (placed ?L ?cs (b[?L := 0]), int ?L - int (length ?cs)) = ?cs"
    using assms(1) len dec_text_nz by (intro text_placed) auto
  ultimately show ?thesis by blast
qed

lemma hex_digit_nz: "d < 16 \<Longrightarrow> hex_digit d \<noteq> 0"
proof -
  assume "d < 16"
  then have "hex_digit d \<in> set [48, 49, 50, 51, 52, 53, 54, 55, 56, 57, 65, 66, 67, 68, 69, 70]"
    unfolding hex_digit_def by (intro nth_mem) simp
  then show "hex_digit d \<noteq> 0" by (auto simp del: nth_mem)
qed

lemma hex_text_nz: "0 \<notin> set (map hex_digit (numeral_of 16 n))"
  using numeral_digits[of 16 n] hex_digit_nz by auto

lemma hex_length: "0 < sz \<Longrightarrow> n < 256 ^ sz \<Longrightarrow> length (numeral_of 16 n) \<le> 2 * sz"
  using numeral_length[of 16 n "2 * sz"] by (simp add: power_mult)

lemma hex_emit:
  assumes "0 < sz" and "length b = 2 * sz + 3" and "n < 256 ^ sz"
  shows "emit 16 hex_digit n (2 * int sz + 1) b =
    Some (placed (2 * sz + 2) (map hex_digit (numeral_of 16 n)) b,
      2 * int sz + 1 - int (length (numeral_of 16 n)))"
proof -
  have e: "int (2 * sz + 2) - 1 = 2 * int sz + 1" by simp
  show ?thesis
    using emit_correct[of 16 "2 * sz + 2" b hex_digit n, unfolded e] hex_length[OF assms(1,3)] assms(2)
    by (simp add: Let_def algebra_simps)
qed

lemma utoahextrim_correct:
  assumes "0 < sz" and "length b = 2 * sz + 3" and "n < 256 ^ sz"
  shows "\<exists>r. utoahextrim sz n b = Some r \<and>
    text_at r = [48, 120] @ map hex_digit (numeral_of 16 n)"
proof -
  let ?e = "2 * sz + 2" and ?cs = "map hex_digit (numeral_of 16 n)"
  let ?b = "b[?e := 0]" and ?k = "length (numeral_of 16 n)"
  have k: "?k \<le> 2 * sz" "0 < ?k"
    using hex_length[OF assms(1,3)] numeral_length_ge[of 16 0 n]
    by simp_all (subst numeral_of.simps, simp)
  have st: "store (2 * int sz + 2) 0 b = Some ?b"
    using store_nat[of ?e b 0] assms(2) by (simp add: algebra_simps)
  have em: "emit 16 hex_digit n (2 * int sz + 1) ?b = Some (placed ?e ?cs ?b, 2 * int sz + 1 - int ?k)"
    using hex_emit[of sz ?b n] assms by simp
  obtain j where j: "?e = ?k + 2 + j" using k(1) le_Suc_ex[of "?k + 2" ?e] by auto
  have p1: "(placed ?e ?cs ?b)[j + 1 := 120] = placed ?e (120 # ?cs) ?b"
    using assms(2) j by (simp add: placed_def list_update_append upd_conv_take_nth_drop)
  have p2: "(placed ?e (120 # ?cs) ?b)[j := 48] = placed ?e (48 # 120 # ?cs) ?b"
    using assms(2) j by (simp add: placed_def list_update_append upd_conv_take_nth_drop)
  have pos: "2 * int sz + 1 - int ?k = int (j + 1)" using j by linarith
  have lens: "length (placed ?e ?cs ?b) = 2 * sz + 3" "length (placed ?e (120 # ?cs) ?b) = 2 * sz + 3"
    using assms(2) j by (simp_all add: placed_def)
  have s1: "store (int (j + 1)) 120 (placed ?e ?cs ?b) = Some (placed ?e (120 # ?cs) ?b)"
    using store_nat[of "j + 1" "placed ?e ?cs ?b" 120] lens(1) j p1 by simp
  have s2: "store (int j) 48 (placed ?e (120 # ?cs) ?b) = Some (placed ?e (48 # 120 # ?cs) ?b)"
    using store_nat[of j "placed ?e (120 # ?cs) ?b" 48] lens(2) j p2 by simp
  have "utoahextrim sz n b = Some (placed ?e (48 # 120 # ?cs) ?b, int j)"
    using st em s1 s2 unfolding pos by (simp add: utoahextrim_def digits_hex_even Let_def add.commute)
  moreover have "text_at (placed ?e (48 # 120 # ?cs) ?b, int ?e - int (length (48 # 120 # ?cs))) = 48 # 120 # ?cs"
    using assms(2) j hex_text_nz by (intro text_placed) auto
  moreover have "int ?e - int (length (48 # 120 # ?cs)) = int j" using j by simp
  ultimately show ?thesis by auto
qed

lemma pad_correct:
  "0 < c \<Longrightarrow> c < length b \<Longrightarrow> pad (int c) b = Some (take 2 b @ replicate (c - 1) 48 @ drop (c + 1) b)"
proof (induction c arbitrary: b)
  case (Suc k)
  show ?case
  proof (cases "k = 0")
    case True
    then show ?thesis by (subst pad.simps) (simp add: numeral_2_eq_2)
  next
    case False
    have "pad (int (Suc k)) b = pad (int k) (b[Suc k := 48])"
      using False Suc.prems store_nat[of "Suc k" b 48] by (subst pad.simps) simp
    also have "\<dots> = Some (take 2 (b[Suc k := 48]) @ replicate (k - 1) 48 @ drop (k + 1) (b[Suc k := 48]))"
      using False Suc.prems by (intro Suc.IH) auto
    also have "take 2 (b[Suc k := 48]) = take 2 b" using False by (simp add: take_update_swap list_update_beyond)
    also have "drop (k + 1) (b[Suc k := 48]) = 48 # drop (k + 2) b"
      using Suc.prems(2) by (simp add: upd_conv_take_nth_drop)
    also have "replicate (k - 1) 48 @ 48 # drop (k + 2) b = replicate (Suc k - 1) 48 @ drop (Suc k + 1) b"
      using False by (cases k) (simp_all add: replicate_append_same[symmetric])
    finally show ?thesis .
  qed
qed simp

lemma utoahex_correct:
  assumes "0 < sz" and "length b = 2 * sz + 3" and "n < 256 ^ sz"
  shows "\<exists>r. utoahex sz n b = Some r \<and>
    text_at r = [48, 120] @ replicate (2 * sz - length (numeral_of 16 n)) 48 @ map hex_digit (numeral_of 16 n)"
proof -
  let ?e = "2 * sz + 2" and ?cs = "map hex_digit (numeral_of 16 n)"
  let ?hd = "b[0 := 48, 1 := 120]" let ?b = "?hd[?e := 0]" and ?k = "length (numeral_of 16 n)"
  have k: "?k \<le> 2 * sz" "0 < ?k"
    using hex_length[OF assms(1,3)] by simp_all (subst numeral_of.simps, simp)
  have st: "store 0 48 b = Some (b[0 := 48])" "store 1 120 (b[0 := 48]) = Some ?hd"
    "store (2 * int sz + 2) 0 ?hd = Some ?b"
    using store_nat[of 0 b 48] store_nat[of 1 "b[0 := 48]" 120] assms(2)
      store_nat[of ?e ?hd 0] by (simp_all add: algebra_simps)
  have em: "emit 16 hex_digit n (2 * int sz + 1) ?b = Some (placed ?e ?cs ?b, 2 * int sz + 1 - int ?k)"
    using hex_emit[of sz ?b n] assms by simp
  let ?c = "2 * sz + 1 - ?k"
  have pos: "2 * int sz + 1 - int ?k = int ?c" using k by simp
  have p: "pad (int ?c) (placed ?e ?cs ?b) =
      Some (take 2 (placed ?e ?cs ?b) @ replicate (?c - 1) 48 @ drop (?c + 1) (placed ?e ?cs ?b))"
    using k assms(2) by (intro pad_correct) (auto simp: placed_def)
  have t2: "take 2 (placed ?e ?cs ?b) = [48, 120]"
  proof -
    obtain x y bs where b: "b = x # y # bs" using assms(1,2) by (cases b; cases "tl b") auto
    have "take 2 (placed ?e ?cs ?b) = take 2 (take (?e - ?k) ?b)" using k assms(2) by (simp add: placed_def)
    also have "\<dots> = take 2 ?b"
    proof -
      have "min 2 (?e - ?k) = 2" using k by linarith
      then show ?thesis by (simp only: take_take)
    qed
    also have "\<dots> = [48, 120]" by (simp add: b numeral_2_eq_2)
    finally show ?thesis .
  qed
  have d: "drop (?c + 1) (placed ?e ?cs ?b) = ?cs @ drop ?e ?b"
    using k assms(2) by (simp add: placed_def)
  have "utoahex sz n b = Some ([48, 120] @ replicate (2 * sz - ?k) 48 @ ?cs @ drop ?e ?b, 0)"
    using st em p t2 d unfolding pos by (simp add: utoahex_def digits_hex_even Let_def add.commute)
  moreover have "text_at ([48, 120] @ replicate (2 * sz - ?k) 48 @ ?cs @ drop ?e ?b, 0) =
      [48, 120] @ replicate (2 * sz - ?k) 48 @ ?cs"
  proof -
    have "drop ?e ?b = [0]" using assms(2) by (simp add: upd_conv_take_nth_drop)
    moreover have "takeWhile (\<lambda>c. c \<noteq> 0) (([48, 120] @ replicate (2 * sz - ?k) 48 @ ?cs) @ [0]) =
        [48, 120] @ replicate (2 * sz - ?k) 48 @ ?cs"
      using hex_text_nz[of n] by (subst takeWhile_append2) auto
    ultimately show ?thesis by (simp add: text_at_def)
  qed
  ultimately show ?thesis by blast
qed

lemma itoa_general:
  assumes "length b = digits_decimal sz False + 1"
    and a: "a = nat (\<bar>n\<bar> mod 4294967296)" "length (numeral_of 10 a) \<le> digits_decimal sz False"
  shows "if n < 0 \<and> length (numeral_of 10 a) = digits_decimal sz False then itoa sz n b = None
    else \<exists>r. itoa sz n b = Some r \<and>
      text_at r = (if n < 0 then [45] else []) @ map dec_digit (numeral_of 10 a)"
proof -
  let ?L = "digits_decimal sz False" and ?cs = "map dec_digit (numeral_of 10 a)"
  let ?b = "b[?L := 0]" and ?k = "length (numeral_of 10 a)"
  have st: "store (int (?L + 1) - 1) 0 b = Some ?b" using assms(1) by (simp add: store_nat)
  have em: "emit 10 dec_digit a (int (?L + 1) - 2) ?b = Some (placed ?L ?cs ?b, int ?L - int ?k - 1)"
    using emit_correct[of 10 ?L ?b dec_digit a] assms(1) a(2) by (simp add: Let_def)
  have abs: "(if n < 0 then - n else n) = \<bar>n\<bar>" by simp
  have len: "length (placed ?L ?cs ?b) = ?L + 1" using assms(1) a(2) by (simp add: placed_def)
  have shown: "text_at (placed ?L cs ?b, int ?L - int (length cs)) = cs"
    if "0 \<notin> set cs" "length cs \<le> ?L" for cs
    using assms(1) that by (intro text_placed) auto
  consider "\<not> n < 0" | "n < 0" "?k = ?L" | "n < 0" "?k < ?L" using a(2) by linarith
  then show ?thesis
  proof cases
    case 1
    then show ?thesis
      using st em shown[of ?cs] dec_text_nz[of a] a by (simp add: itoa_def Let_def abs)
  next
    case 2
    then show ?thesis
      using st em a(1) by (simp add: itoa_def Let_def abs store_def)
  next
    case 3
    then obtain j where j: "?L = ?k + Suc j" using less_imp_Suc_add[of ?k ?L] by auto
    have s: "store (int j) 45 (placed ?L ?cs ?b) = Some (placed ?L (45 # ?cs) ?b)"
      using store_nat[of j "placed ?L ?cs ?b" 45] len j assms(1)
      by (simp add: placed_def list_update_append upd_conv_take_nth_drop)
    have pos: "int ?L - int ?k - 1 = int j" using j by simp
    have "itoa sz n b = Some (placed ?L (45 # ?cs) ?b, int j)"
      using 3 st em s a(1) unfolding pos by (simp add: itoa_def Let_def abs)
    moreover have "text_at (placed ?L (45 # ?cs) ?b, int j) = 45 # ?cs"
      using shown[of "45 # ?cs"] dec_text_nz[of a] j by simp
    ultimately show ?thesis using 3 by auto
  qed
qed

section \<open>Properties\<close>

definition dec_value :: "u8 list \<Rightarrow> nat" where
  "dec_value cs = value_of 10 (map (\<lambda>c. unat c - 48) cs)"

lemma dec_digit_value: "d < 10 \<Longrightarrow> unat (dec_digit d) - 48 = d"
  unfolding dec_digit_def unat_of_nat by (simp add: take_bit_eq_mod)

lemma dec_value_text: "dec_value (map dec_digit (numeral_of 10 n)) = n"
proof -
  have "map (\<lambda>c. unat c - 48) (map dec_digit (numeral_of 10 n)) = numeral_of 10 n"
    using numeral_digits[of 10 n] by (simp add: map_idI dec_digit_value)
  then show ?thesis using value_numeral[of 10 n] unfolding dec_value_def by simp
qed

text \<open>Unsigned formatting round-trips: for 16-, 32- and 64-bit numbers the buffers are large enough (no
  write leaves them), the returned text reads back as the number in decimal, and the trimmed hexadecimal
  text is \<^verbatim>\<open>0x\<close> followed by hexadecimal digits that read back as the number.\<close>

theorem unsigned_format_roundtrip:
  assumes "sz \<in> {2, 4, 8}" and "n < 256 ^ sz" and "length b = digits_decimal sz False + 1"
    and "length h = 2 + digits_hex sz False + 1"
  shows "(\<exists>r. utoa sz n b = Some r \<and> dec_value (text_at r) = n) \<and>
    (\<exists>r ds. utoahextrim sz n h = Some r \<and> text_at r = [48, 120] @ map hex_digit ds \<and> value_of 16 ds = n) \<and>
    (\<exists>r ds. utoahex sz n h = Some r \<and> text_at r = [48, 120] @ map hex_digit ds \<and> value_of 16 ds = n \<and>
      length ds = 2 * sz)"
proof -
  have sz: "0 < sz" using assms(1) by auto
  have "n < 10 ^ digits_decimal sz False" using assms(1,2) by auto
  from utoa_correct[OF assms(3) this] have u: "\<exists>r. utoa sz n b = Some r \<and> dec_value (text_at r) = n"
    using dec_value_text by metis
  have lh: "length h = 2 * sz + 3" using assms(4) by (simp add: digits_hex_even)
  let ?ds = "numeral_of 16 n" and ?z = "2 * sz - length (numeral_of 16 n)"
  have v: "value_of 16 ?ds = n" by (simp del: value_of.simps add: value_numeral)
  have z: "value_of 16 (replicate k 0 @ ?ds) = value_of 16 ?ds" for k by (induction k) simp_all
  have m: "map hex_digit (replicate ?z 0 @ ?ds) = replicate ?z 48 @ map hex_digit ?ds"
    by (simp add: hex_digit_def)
  have "length (replicate ?z 0 @ ?ds) = 2 * sz" using hex_length[OF sz assms(2)] by simp
  with utoahex_correct[OF sz lh assms(2)] v z m
  have x: "\<exists>r ds. utoahex sz n h = Some r \<and> text_at r = [48, 120] @ map hex_digit ds \<and> value_of 16 ds = n \<and>
      length ds = 2 * sz" by metis
  from u x utoahextrim_correct[OF sz lh assms(2)] v show ?thesis by blast
qed

theorem unsigned_format_roundtrip_witness:
  "(\<exists>r. utoa 2 65535 (replicate 6 0) = Some r \<and> dec_value (text_at r) = 65535) \<and>
    (\<exists>r ds. utoahextrim 2 65535 (replicate 7 0) = Some r \<and> text_at r = [48, 120] @ map hex_digit ds \<and>
      value_of 16 ds = 65535) \<and>
    (\<exists>r ds. utoahex 2 65535 (replicate 7 0) = Some r \<and> text_at r = [48, 120] @ map hex_digit ds \<and>
      value_of 16 ds = 65535 \<and> length ds = 2 * 2)"
  by (rule unsigned_format_roundtrip) (simp_all add: digits_hex_even)

text \<open>Signed formatting of 32-bit numbers: correct text (a minus sign and the decimal digits) for every
  number above -1000000000; from there down the sign does not fit the 11-byte buffer and is written before its
  first byte. The 64-bit variant never leaves its buffer but prints the magnitude modulo 2^32.\<close>

theorem itoa_limits:
  assumes "- (2 ^ 31) \<le> n" and "n < 2 ^ 31" and "length b = 11" and "length c = 21"
  shows "(if n \<le> - 1000000000 then itoa 4 n b = None
     else \<exists>r. itoa 4 n b = Some r \<and>
       (\<exists>cs. text_at r = (if n < 0 then [45] else []) @ cs \<and> int (dec_value cs) = \<bar>n\<bar>)) \<and>
    (\<exists>r. itoa 8 k c = Some r \<and>
       (\<exists>cs. text_at r = (if k < 0 then [45] else []) @ cs \<and> int (dec_value cs) = \<bar>k\<bar> mod 2 ^ 32))"
proof
  define a where "a = nat (\<bar>n\<bar> mod 4294967296)"
  have abs: "int a = \<bar>n\<bar>" using assms(1,2) by (simp add: a_def)
  have "length (numeral_of 10 a) \<le> 10"
    using assms(1,2) abs by (intro numeral_length) auto
  moreover have "length (numeral_of 10 a) = 10 \<longleftrightarrow> 10 ^ 9 \<le> a"
    using numeral_length[of 10 a 9] numeral_length_ge[of 10 9 a] calculation by (cases "a < 10 ^ 9") auto
  moreover have "n < 0 \<Longrightarrow> 10 ^ 9 \<le> a \<longleftrightarrow> n \<le> - 1000000000" using abs by auto
  ultimately show "if n \<le> - 1000000000 then itoa 4 n b = None
     else \<exists>r. itoa 4 n b = Some r \<and>
       (\<exists>cs. text_at r = (if n < 0 then [45] else []) @ cs \<and> int (dec_value cs) = \<bar>n\<bar>)"
    using itoa_general[of b 4 a n] assms(3) a_def dec_value_text[of a] abs
    by (cases "n < 0") (auto simp del: dec_value_def)
next
  define a where "a = nat (\<bar>k\<bar> mod 4294967296)"
  have abs: "int a = \<bar>k\<bar> mod 2 ^ 32" by (simp add: a_def)
  have "\<bar>k\<bar> mod 4294967296 < 4294967296" by simp
  then have "a < 10 ^ 10" by (simp add: a_def nat_less_iff)
  then have "length (numeral_of 10 a) \<le> 10" by (intro numeral_length) auto
  then show "\<exists>r. itoa 8 k c = Some r \<and>
       (\<exists>cs. text_at r = (if k < 0 then [45] else []) @ cs \<and> int (dec_value cs) = \<bar>k\<bar> mod 2 ^ 32)"
    using itoa_general[of c 8 a k] assms(4) a_def dec_value_text[of a] abs by auto
qed

theorem itoa_limits_witness:
  "itoa 4 (- 1234567890) (replicate 11 0) = None \<and>
    (\<exists>r. itoa 8 (2 ^ 32 + 5) (replicate 21 0) = Some r \<and>
       (\<exists>cs. text_at r = cs \<and> int (dec_value cs) = 5))"
  using itoa_limits[of "- 1234567890" "replicate 11 0" "replicate 21 0" "2 ^ 32 + 5"] by simp

end
