(* ===== verification/Bits.thy ===== *)
theory Bits
  imports Prelude
begin

text \<open>
  Bit sets (\<^verbatim>\<open>common/Bitmask.hpp\<close>) and the bit helpers of \<^verbatim>\<open>common/stdlib.hpp\<close>, on machine words. \<^verbatim>\<open>1<<i\<close> is an
  \<^verbatim>\<open>int\<close>: it is undefined (\<open>None\<close>) from \<^verbatim>\<open>i\<close> = 32 on, and for \<^verbatim>\<open>i\<close> = 31 it is negative, so that it sign-extends
  when combined with a 64-bit mask.
\<close>

unbundle bit_operations_syntax

section \<open>Bit sets\<close>

definition shl32 :: "nat \<Rightarrow> u32 option" where
  "shl32 i = (if i < 32 then Some (push_bit i 1) else None)"

definition shl64 :: "nat \<Rightarrow> u64 option" where
  "shl64 i = (if i < 64 then Some (push_bit i 1) else None)"

text \<open>\<^verbatim>\<open>1<<i\<close> as \<^verbatim>\<open>int\<close>, converted to the other operand's type.\<close>

definition int_shl32 :: "nat \<Rightarrow> u32 option" where
  "int_shl32 i = (if i < 32 then Some (push_bit i 1) else None)"

definition int_shl64 :: "nat \<Rightarrow> u64 option" where
  "int_shl64 i = (if i < 32 then Some (scast (push_bit i 1 :: u32)) else None)"

definition bm32_get :: "u32 \<Rightarrow> nat \<Rightarrow> bool option" where
  "bm32_get m n = map_option (\<lambda>b. m AND b \<noteq> 0) (shl32 n)"

text \<open>The assignment goes to the local variable \<^verbatim>\<open>mask\<close>, which hides the member.\<close>

definition bm32_set :: "nat \<Rightarrow> bool \<Rightarrow> u32 \<Rightarrow> u32 option" where
  "bm32_set n value m =
     (case shl64 n of
        None \<Rightarrow> None
      | Some l \<Rightarrow> let l = (l AND NOT l) OR (if value then l else 0) in Some m)"

definition bm32_clear :: "u32 \<Rightarrow> u32" where
  "bm32_clear m = 0"

definition bm32_has_any :: "u32 \<Rightarrow> bool" where
  "bm32_has_any m \<longleftrightarrow> m \<noteq> 0"

text \<open>The searches: test bits \<open>i\<close>, \<open>i + 1\<close>, ... and answer \<^verbatim>\<open>(U8)~0\<close> when none of \<open>k\<close> satisfies the test.\<close>

fun scan :: "(nat \<Rightarrow> bool option) \<Rightarrow> nat \<Rightarrow> nat \<Rightarrow> nat option" where
  "scan t i 0 = Some 255"
| "scan t i (Suc k) =
     (case t i of None \<Rightarrow> None | Some b \<Rightarrow> if b then Some i else scan t (i + 1) k)"

definition bm32_first_false :: "u32 \<Rightarrow> nat option" where
  "bm32_first_false m = scan (\<lambda>i. map_option (\<lambda>b. \<not> m AND b \<noteq> 0) (int_shl32 i)) 0 32"

definition bm32_first_true :: "u32 \<Rightarrow> nat option" where
  "bm32_first_true m = scan (\<lambda>i. map_option (\<lambda>b. m AND b \<noteq> 0) (int_shl32 i)) 0 32"

definition bm64_get :: "u64 \<Rightarrow> nat \<Rightarrow> bool option" where
  "bm64_get m n = map_option (\<lambda>b. m AND b \<noteq> 0) (shl64 n)"

definition bm64_set :: "nat \<Rightarrow> bool \<Rightarrow> u64 \<Rightarrow> u64 option" where
  "bm64_set n value m =
     (case shl64 n of
        None \<Rightarrow> None
      | Some l \<Rightarrow> let l = (l AND NOT l) OR (if value then l else 0) in Some m)"

definition bm64_clear :: "u64 \<Rightarrow> u64" where
  "bm64_clear m = 0"

definition bm64_has_any :: "u64 \<Rightarrow> bool" where
  "bm64_has_any m \<longleftrightarrow> m \<noteq> 0"

definition bm64_first_false :: "u64 \<Rightarrow> nat option" where
  "bm64_first_false m = scan (\<lambda>i. map_option (\<lambda>b. \<not> m AND b \<noteq> 0) (int_shl64 i)) 0 64"

definition bm64_first_true :: "u64 \<Rightarrow> nat option" where
  "bm64_first_true m = scan (\<lambda>i. map_option (\<lambda>b. m AND b \<noteq> 0) (int_shl64 i)) 0 64"

type_synonym mask256 = "nat \<Rightarrow> u64"

definition bm256_get :: "mask256 \<Rightarrow> nat \<Rightarrow> bool option" where
  "bm256_get m n = map_option (\<lambda>b. m (n div 64) AND b \<noteq> 0) (shl64 (n mod 64))"

definition bm256_set :: "nat \<Rightarrow> bool \<Rightarrow> mask256 \<Rightarrow> mask256 option" where
  "bm256_set n value m =
     (let bucket = n div 64 in
      case shl64 (n mod 64) of
        None \<Rightarrow> None
      | Some bucketMask \<Rightarrow>
          Some (m(bucket := (m bucket AND NOT bucketMask) OR (if value then bucketMask else 0))))"

definition bm256_clear :: "mask256 \<Rightarrow> mask256" where
  "bm256_clear m = m(0 := 0, 1 := 0, 2 := 0, 3 := 0)"

definition bm256_has_any :: "mask256 \<Rightarrow> bool" where
  "bm256_has_any m \<longleftrightarrow> m 0 \<noteq> 0 \<or> m 1 \<noteq> 0 \<or> m 2 \<noteq> 0 \<or> m 3 \<noteq> 0"

definition bm256_first_false :: "mask256 \<Rightarrow> nat option" where
  "bm256_first_false m =
     scan (\<lambda>i. map_option (\<lambda>b. \<not> m (i div 64) AND b \<noteq> 0) (int_shl64 (i mod 64))) 0 256"

definition bm256_first_true :: "mask256 \<Rightarrow> nat option" where
  "bm256_first_true m =
     scan (\<lambda>i. map_option (\<lambda>b. m (i div 64) AND b \<noteq> 0) (int_shl64 (i mod 64))) 0 256"

section \<open>Bit helpers\<close>

definition bits32 :: "u32 \<Rightarrow> nat \<Rightarrow> nat \<Rightarrow> u32 option" where
  "bits32 data start stop =
     (let width = int stop - int start + 1 in
      if 0 \<le> width \<and> width < 32 \<and> start < 32
      then Some (drop_bit start (data AND push_bit start (push_bit (nat width) 1 - 1))) else None)"

definition bits64 :: "u64 \<Rightarrow> nat \<Rightarrow> nat \<Rightarrow> u64 option" where
  "bits64 data start stop =
     (let width = int stop - int start + 1 in
      if 0 \<le> width \<and> width < 64 \<and> start < 64
      then Some (drop_bit start (data AND push_bit start (push_bit (nat width) 1 - 1))) else None)"

text \<open>\<^verbatim>\<open>(1ll<<n)-1\<close> in a signed type: 63 and more bits overflow it.\<close>

definition bitmask :: "nat \<Rightarrow> nat \<Rightarrow> u64 option" where
  "bitmask lo hi =
     (let width = int hi - int lo + 1 in
      if 0 \<le> width \<and> width < 63 \<and> lo < 64 then Some (push_bit lo (push_bit (nat width) 1 - 1)) else None)"

function bit_count_loop :: "u64 \<Rightarrow> nat \<Rightarrow> nat" where
  "bit_count_loop i n = (if i = 0 then n else bit_count_loop (i AND (i - 1)) (n + 1))"
  by pat_completeness auto

definition bit_rightmost :: "u64 \<Rightarrow> u64" where
  "bit_rightmost i = i XOR (i AND (i - 1))"

definition sign_extend32 :: "u32 \<Rightarrow> nat \<Rightarrow> u32 option" where
  "sign_extend32 number numbits =
     (if 1 \<le> numbits \<and> numbits < 32 then
        Some (if number AND push_bit (numbits - 1) 1 \<noteq> 0 then number OR NOT (push_bit numbits 1 - 1) else number)
      else None)"

section \<open>Removing the lowest bit\<close>

lemma and_minus_less:
  fixes i :: "'a :: len word"
  assumes "i \<noteq> 0"
  shows "unat (i AND (i - 1)) < unat i"
proof -
  have "unat (i AND (i - 1)) \<le> unat (i - 1)" by (simp add: word_and_le1 flip: word_le_nat_alt)
  also have "unat (i - 1) < unat i" using assms by (simp add: unat_minus_one unat_gt_0)
  finally show ?thesis .
qed

termination bit_count_loop
  by (relation "measure (\<lambda>(i, n). unat i)") (auto simp: and_minus_less)

declare bit_count_loop.simps [simp del]

definition bit_count :: "u64 \<Rightarrow> nat" where
  "bit_count i = bit_count_loop i 0"

definition bit_rightmost_position :: "u64 \<Rightarrow> nat" where
  "bit_rightmost_position i = (if i = 0 then 0 else bit_count (bit_rightmost i - 1))"

section \<open>Population count\<close>

text \<open>The sum of the binary digits.\<close>

fun digit_sum :: "nat \<Rightarrow> nat" where
  "digit_sum n = (if n = 0 then 0 else n mod 2 + digit_sum (n div 2))"

declare digit_sum.simps [simp del]

lemma digit_sum_clear_lowest: "0 < n \<Longrightarrow> digit_sum n = Suc (digit_sum (n AND (n - 1)))"
proof (induction n rule: less_induct)
  case (less n)
  show ?case
  proof (cases "even n")
    case True
    then obtain j where j: "n = 2 * j" by blast
    then have "0 < j" "j < n" using less.prems by auto
    have "2 * j - 1 = Suc (2 * (j - 1))" using \<open>0 < j\<close> by simp
    then have "n AND (n - 1) = 2 * (j AND (j - 1))"
      unfolding j by (subst and_nat_rec) simp
    moreover have "digit_sum (2 * k) = digit_sum k" for k by (subst digit_sum.simps) (auto simp: digit_sum.simps[of 0])
    ultimately show ?thesis using less.IH[OF \<open>j < n\<close> \<open>0 < j\<close>] j by simp
  next
    case False
    then obtain j where j: "n = 2 * j + 1" by (metis oddE)
    have "n AND (n - 1) = 2 * j" unfolding j by (subst and_nat_rec) simp
    then show ?thesis unfolding j by (subst (1 2) digit_sum.simps) (auto simp: digit_sum.simps[of 0])
  qed
qed

lemma bit_count_loop_sum: "bit_count_loop i n = n + digit_sum (unat i)"
proof (induction i n rule: bit_count_loop.induct)
  case (1 i n)
  show ?case
  proof (cases "i = 0")
    case True
    then show ?thesis by (subst bit_count_loop.simps) (simp add: digit_sum.simps[of 0])
  next
    case False
    have "unat (i AND (i - 1)) = unat i AND (unat i - 1)"
      using False by (simp add: unsigned_and_eq unat_minus_one)
    with 1 False show ?thesis
      by (subst bit_count_loop.simps) (simp add: digit_sum_clear_lowest[of "unat i"] unat_gt_0)
  qed
qed

text \<open>\<^verbatim>\<open>bit_count\<close> ends after one round per set bit and answers the number of set bits.\<close>

lemma bit_count_correct: "bit_count i = digit_sum (unat i)"
  by (simp add: bit_count_def bit_count_loop_sum)

section \<open>Bit sets behave as sets\<close>

lemma test_bit_mask: "m AND push_bit n 1 \<noteq> 0 \<longleftrightarrow> bit m n" for m :: "'a :: len word"
  by (simp add: bit_iff_and_push_bit_not_eq_0)

lemma bm256_get_bit: "bm256_get m k = Some (bit (m (k div 64)) (k mod 64))"
  using test_bit_mask[of "m (k div 64)" "k mod 64"] by (simp add: bm256_get_def shl64_def)

lemma bm256_set_get:
  "\<exists>m'. bm256_set n v m = Some m' \<and> (\<forall>k. bm256_get m' k = (if k = n then Some v else bm256_get m k))"
proof -
  define b :: u64 where "b = push_bit (n mod 64) 1"
  have set: "bm256_set n v m = Some (m(n div 64 := (m (n div 64) AND NOT b) OR (if v then b else 0)))"
    by (simp add: bm256_set_def shl64_def b_def Let_def)
  have eq: "k = n \<longleftrightarrow> k div 64 = n div 64 \<and> k mod 64 = n mod 64" for k
    by (metis div_mult_mod_eq)
  have "bit ((m (n div 64) AND NOT b) OR (if v then b else 0)) (k mod 64) =
      (if k mod 64 = n mod 64 then v else bit (m (n div 64)) (k mod 64))" for k
    by (auto simp: b_def bit_simps)
  with set eq show ?thesis by (auto simp: bm256_get_bit)
qed

text \<open>\<^verbatim>\<open>Bitmask256\<close> is a set of bytes: after \<^verbatim>\<open>set\<close>, \<^verbatim>\<open>get\<close> answers the new value for that bit and the old one
  for every other bit. The 32- and 64-bit classes are not: their \<^verbatim>\<open>set\<close> changes nothing.\<close>

theorem bitmask_set_get:
  assumes "n < 256" and "k < 256" and "j < 32"
  shows "(\<exists>m'. bm256_set n v m = Some m' \<and> bm256_get m' k = (if k = n then Some v else bm256_get m k)) \<and>
    bm32_set j v w = Some w \<and> bm64_set j v x = Some x"
  using bm256_set_get[of n v m] assms(3) by (auto simp: bm32_set_def bm64_set_def shl64_def)

theorem bitmask_set_get_witness:
  "(\<exists>m'. bm256_set 70 True (\<lambda>_. 0) = Some m' \<and> bm256_get m' 70 = Some True) \<and>
    bm32_set 3 True 0 = Some 0 \<and> bm64_set 3 True 0 = Some 0"
  using bitmask_set_get[of 70 70 3 True "\<lambda>_. 0" 0 0] by simp

lemma scan_found:
  "(\<And>j. i \<le> j \<Longrightarrow> j < n \<Longrightarrow> t j = Some False) \<Longrightarrow> t n = Some True \<Longrightarrow> i \<le> n \<Longrightarrow> n < i + k \<Longrightarrow>
    scan t i k = Some n"
proof (induction k arbitrary: i)
  case (Suc k)
  show ?case
  proof (cases "i = n")
    case False
    with Suc.prems have "t i = Some False" "scan t (i + 1) k = Some n"
      by (auto intro!: Suc.IH)
    then show ?thesis by simp
  qed (use Suc.prems in simp)
qed simp

lemma scan_stuck:
  "(\<And>j. i \<le> j \<Longrightarrow> j < n \<Longrightarrow> t j = Some False) \<Longrightarrow> t n = None \<Longrightarrow> i \<le> n \<Longrightarrow> n < i + k \<Longrightarrow>
    scan t i k = None"
proof (induction k arbitrary: i)
  case (Suc k)
  show ?case
  proof (cases "i = n")
    case False
    with Suc.prems have "t i = Some False" "scan t (i + 1) k = None"
      by (auto intro!: Suc.IH)
    then show ?thesis by simp
  qed (use Suc.prems in simp)
qed simp

lemma scan_none: "(\<And>j. i \<le> j \<Longrightarrow> j < i + k \<Longrightarrow> t j = Some False) \<Longrightarrow> scan t i k = Some 255"
  by (induction k arbitrary: i) auto

lemma bit_scast_shl: "i < 32 \<Longrightarrow> bit (scast (push_bit i 1 :: u32) :: u64) j \<longleftrightarrow> j < 64 \<and> min 31 j = i"
  by (auto simp: bit_signed_iff bit_push_bit_iff bit_1_iff min_def simp del: push_bit_of_1)

lemma test64: "map_option (\<lambda>b. m AND b \<noteq> 0) (int_shl64 i) =
    (if i < 31 then Some (bit m i) else if i = 31 then Some (\<exists>j \<ge> 31. bit m j) else None)" for m :: u64
proof (cases "i < 32")
  case True
  have "m AND scast (push_bit i 1 :: u32) \<noteq> 0 \<longleftrightarrow> (\<exists>j < 64. min 31 j = i \<and> bit m j)"
    unfolding bit_eq_iff[of "m AND _" 0]
    by (auto simp: bit_and_iff bit_scast_shl[OF True] simp del: push_bit_of_1)
  also have "\<dots> \<longleftrightarrow> (if i < 31 then bit m i else \<exists>j \<ge> 31. bit m j)"
  proof (cases "i < 31")
    case True
    then have "min 31 j = i \<longleftrightarrow> j = i" for j by (auto simp: min_def)
    with True show ?thesis by auto
  next
    case False
    with True have "i = 31" by simp
    then show ?thesis using bit_imp_le_length[of m] by (auto simp: min_def)
  qed
  finally show ?thesis using True by (auto simp: int_shl64_def simp del: push_bit_of_1)
qed (simp add: int_shl64_def)

text \<open>\<^verbatim>\<open>Bitmask64::get_first_true\<close> finds the lowest set bit only below bit 31: the test for bit 31 sees all
  higher bits (sign extension of \<^verbatim>\<open>1<<31\<close>), so any mask without a set bit below 31 answers 31; for the empty
  mask the search goes on to the undefined \<^verbatim>\<open>1<<32\<close> instead of answering 255.\<close>

theorem bm64_first_true_effect:
  "bm64_first_true m = (if m = 0 then None else Some (min 31 (LEAST n. bit m n)))"
proof (cases "m = 0")
  case True
  then have "bm64_first_true m = None"
    unfolding bm64_first_true_def test64 by (intro scan_stuck[where n = 32]) auto
  with True show ?thesis by simp
next
  case False
  then obtain b where b: "bit m b" by (auto simp: bit_eq_iff)
  define l where "l = (LEAST n. bit m n)"
  have l: "bit m l" unfolding l_def using b by (rule LeastI)
  have low: "\<not> bit m j" if "j < l" for j using not_less_Least[of j "bit m"] that unfolding l_def by blast
  have "bm64_first_true m = Some (min 31 l)"
    unfolding bm64_first_true_def
  proof (intro scan_found)
    fix j assume "j < min 31 l"
    then have "\<not> bit m j" and "j < 31" using low by simp_all
    then show "map_option (\<lambda>b. m AND b \<noteq> 0) (int_shl64 j) = Some False"
      unfolding test64 by simp
  next
    show "map_option (\<lambda>b. m AND b \<noteq> 0) (int_shl64 (min 31 l)) = Some True"
    proof (cases "l < 31")
      case True
      then have "min 31 l = l" by simp
      with True l show ?thesis unfolding test64 by simp
    next
      case False
      then have "min 31 l = 31" and "\<exists>j \<ge> 31. bit m j" using l by (auto intro: exI[of _ l])
      then show ?thesis unfolding test64 by simp
    qed
  qed simp_all
  then have "bm64_first_true m = Some (min 31 (LEAST n. bit m n))" unfolding l_def .
  with False show ?thesis by simp
qed

end
