(* ===== verification/Maths.thy ===== *)
theory Maths
  imports Prelude "HOL-Library.Signed_Division"
begin

text \<open>
  Integer arithmetic of \<^verbatim>\<open>common/maths.hpp\<close>, 24.8 fixed point (\<^verbatim>\<open>common/maths/Fixed.hpp\<close> at \<^verbatim>\<open>FixedI32\<close>) and
  rectangles (\<^verbatim>\<open>common/graphics2d/Rect.hpp\<close>). Signed 32-bit overflow is undefined in C++: \<open>ck\<close> makes it
  \<open>None\<close>. Unsigned arithmetic wraps.
\<close>

section \<open>maths.hpp\<close>

definition ck :: "int \<Rightarrow> int option" where
  "ck x = (if - 2147483648 \<le> x \<and> x \<le> 2147483647 then Some x else None)"

definition maths_min :: "int \<Rightarrow> int \<Rightarrow> int" where
  "maths_min x y = (if x \<le> y then x else y)"

definition maths_max :: "int \<Rightarrow> int \<Rightarrow> int" where
  "maths_max x y = (if x \<ge> y then x else y)"

definition maths_sign :: "int \<Rightarrow> int" where
  "maths_sign x = (if x > 0 then 1 else if x < 0 then - 1 else 0)"

definition abs_i32 :: "int \<Rightarrow> int option" where
  "abs_i32 x = (if x \<ge> 0 then Some x else ck (- x))"

definition clamp :: "int \<Rightarrow> int \<Rightarrow> int \<Rightarrow> int" where
  "clamp x a b = maths_min (maths_max x a) b"

text \<open>\<^verbatim>\<open>sqrt<U32>\<close>: \<open>None\<close> is the division by zero.\<close>

function sqrt_loop :: "nat \<Rightarrow> nat \<Rightarrow> nat \<Rightarrow> nat option" where
  "sqrt_loop x result y =
     (if y < result then
        (if y = 0 then None else sqrt_loop x y (add32 y (x div y) div 2))
      else Some result)"
  by pat_completeness auto
termination by (relation "measure (\<lambda>(x, result, y). result)") auto

declare sqrt_loop.simps [simp del]

definition sqrt_u32 :: "nat \<Rightarrow> nat option" where
  "sqrt_u32 x = sqrt_loop x x (add32 x 1 div 2)"

definition add_safe_u32 :: "nat \<Rightarrow> nat \<Rightarrow> nat" where
  "add_safe_u32 a b = (if a < 4294967295 - b then add32 a b else 4294967295)"

definition add_safe_i32 :: "int \<Rightarrow> int \<Rightarrow> int option" where
  "add_safe_i32 a b =
     (if b > 0 \<and> a > 2147483647 - b then Some 2147483647
      else if b < 0 \<and> a < - 2147483648 - b then Some (- 2147483648)
      else ck (a + b))"

section \<open>Square roots\<close>

lemma newton_ge:
  fixes s x y :: nat
  assumes "s * s \<le> x" and "0 < y"
  shows "s \<le> (y + x div y) div 2"
proof (cases "2 * s \<le> y")
  case True
  then show ?thesis by simp
next
  case False
  have "(int s - int y) * (int s - int y) \<ge> 0" by simp
  then have "(2 * int s - int y) * int y \<le> int s * int s" by (simp add: algebra_simps)
  then have "int ((2 * s - y) * y) \<le> int (s * s)" using False by (simp add: of_nat_diff)
  then have "(2 * s - y) * y \<le> s * s" by (simp only: of_nat_le_iff)
  with assms have "(2 * s - y) * y \<le> x" by linarith
  then have "2 * s - y \<le> x div y" using assms(2) by (simp add: less_eq_div_iff_mult_less_eq)
  then show ?thesis by linarith
qed

lemma newton_stop:
  fixes r x :: nat
  assumes "0 < r" and "r \<le> (r + x div r) div 2"
  shows "r * r \<le> x"
proof -
  have "r \<le> x div r" using assms(2) by linarith
  then show ?thesis using assms(1) by (simp add: less_eq_div_iff_mult_less_eq)
qed

lemma newton_sum: "0 < y \<Longrightarrow> y \<le> x \<Longrightarrow> y + x div y \<le> x + 1" for x y :: nat
proof -
  assume y: "0 < y" "y \<le> x"
  define q where "q = x div y"
  have "0 < q" using y by (simp add: q_def div_greater_zero_iff)
  then obtain a where a: "q = Suc a" by (cases q) auto
  from y obtain b where b: "y = Suc b" by (cases y) auto
  have "y * q \<le> x" by (simp add: q_def)
  then have "y + q \<le> x + 1" unfolding a b by simp
  then show ?thesis by (simp add: q_def)
qed

lemma sqrt_loop_correct:
  assumes "x + 1 < two32" and "y \<le> result \<or> result * result \<le> x" and "result \<le> x"
    and "\<forall>s. s * s \<le> x \<longrightarrow> s \<le> y" and "\<forall>s. s * s \<le> x \<longrightarrow> s \<le> result" and "0 < x"
    and "result \<le> y \<longrightarrow> result * result \<le> x"
  shows "\<exists>r. sqrt_loop x result y = Some r \<and> r * r \<le> x \<and> x < (r + 1) * (r + 1)"
  using assms
proof (induction x result y rule: sqrt_loop.induct)
  case (1 x result y)
  show ?case
  proof (cases "y < result")
    case False
    then have r: "result * result \<le> x" using "1.prems"(7) by simp
    have "\<not> (result + 1) * (result + 1) \<le> x" using "1.prems"(5) by (metis add_leE not_one_le_zero
        add_le_same_cancel1)
    with False r show ?thesis by (subst sqrt_loop.simps) simp
  next
    case True
    have "1 \<le> y" using "1.prems"(4,6) by (metis mult_1 One_nat_def Suc_leI)
    then have y: "0 < y" "y \<le> x" using True "1.prems"(3) by auto
    have e: "add32 y (x div y) = y + x div y"
      using newton_sum[OF y] "1.prems"(1) by (intro add32_exact) linarith
    let ?n = "(y + x div y) div 2"
    have "\<exists>r. sqrt_loop x y (add32 y (x div y) div 2) = Some r \<and> r * r \<le> x \<and> x < (r + 1) * (r + 1)"
    proof (rule "1.IH")
      show "\<forall>s. s * s \<le> x \<longrightarrow> s \<le> add32 y (x div y) div 2" unfolding e using newton_ge y(1) by blast
      show "y \<le> add32 y (x div y) div 2 \<longrightarrow> y * y \<le> x" unfolding e using newton_stop y(1) by blast
      then show "add32 y (x div y) div 2 \<le> y \<or> y * y \<le> x" by linarith
    qed (use True y "1.prems" in auto)
    with True y show ?thesis by (subst sqrt_loop.simps) simp
  qed
qed

text \<open>\<^verbatim>\<open>sqrt<U32>\<close> returns the integer square root for every argument below 2^32 - 1; for 2^32 - 1
  itself the first estimate wraps to zero and the loop divides by it.\<close>

theorem sqrt_u32_correct:
  assumes "x < 4294967295"
  shows "(\<exists>r. sqrt_u32 x = Some r \<and> r * r \<le> x \<and> x < (r + 1) * (r + 1)) \<and> sqrt_u32 4294967295 = None"
proof
  have e: "add32 x 1 = x + 1" using assms by (simp add: add32_exact)
  have ge: "\<forall>s. s * s \<le> x \<longrightarrow> s \<le> (x + 1) div 2" using newton_ge[of _ x 1] by (simp add: add.commute)
  have le: "\<forall>s. s * s \<le> x \<longrightarrow> s \<le> x" by (metis le_square order_trans)
  show "\<exists>r. sqrt_u32 x = Some r \<and> r * r \<le> x \<and> x < (r + 1) * (r + 1)"
  proof (cases "x = 0")
    case True
    then show ?thesis by (simp add: sqrt_u32_def add32_def) (subst sqrt_loop.simps, simp)
  next
    case False
    have "x \<le> (x + 1) div 2 \<longrightarrow> x * x \<le> x" using False by (cases "x = 1") auto
    moreover have "(x + 1) div 2 \<le> x \<or> x * x \<le> x" using False by (intro disjI1) simp
    moreover have "x + 1 < two32" "0 < x" using assms False by simp_all
    ultimately show ?thesis
      unfolding sqrt_u32_def e by (intro sqrt_loop_correct[OF _ _ le_refl ge le])
  qed
  show "sqrt_u32 4294967295 = None"
    by (simp add: sqrt_u32_def add32_def) (subst sqrt_loop.simps, simp)
qed

theorem sqrt_u32_correct_witness:
  "(\<exists>r. sqrt_u32 1000000 = Some r \<and> r * r \<le> 1000000 \<and> 1000000 < (r + 1) * (r + 1)) \<and>
    sqrt_u32 4294967295 = None"
  by (rule sqrt_u32_correct) simp

lemma add_safe_saturates:
  "a < two32 \<Longrightarrow> b < two32 \<Longrightarrow> add_safe_u32 a b = min (a + b) 4294967295"
  by (auto simp: add_safe_u32_def add32_def)

lemma add_safe_i32_saturates:
  "ck a = Some a \<Longrightarrow> ck b = Some b \<Longrightarrow>
    add_safe_i32 a b = Some (max (- 2147483648) (min (a + b) 2147483647))"
  by (auto simp: add_safe_i32_def ck_def split: if_splits)

section \<open>Fixed point\<close>

text \<open>A \<^verbatim>\<open>FixedI32\<close> is its \<^verbatim>\<open>value\<close>, in 256ths. C++ division truncates: \<open>sdiv\<close>.\<close>

definition fx_whole :: "int \<Rightarrow> int option" where
  "fx_whole a = ck (a * 256)"

definition fx_fraction :: "int \<Rightarrow> int" where
  "fx_fraction a = a"

definition fx_round :: "int \<Rightarrow> int option" where
  "fx_round value = map_option (\<lambda>v. v sdiv 256) (ck (value + 255 * maths_sign value))"

definition fx_round_zero :: "int \<Rightarrow> int" where
  "fx_round_zero value = value sdiv 256"

definition fx_round_down :: "int \<Rightarrow> int option" where
  "fx_round_down value = map_option (\<lambda>v. v sdiv 256) (ck (value - (if value \<ge> 0 then 0 else 255)))"

definition fx_round_up :: "int \<Rightarrow> int option" where
  "fx_round_up value = map_option (\<lambda>v. v sdiv 256) (ck (value + (if value \<ge> 0 then 255 else 0)))"

definition fx_negate :: "int \<Rightarrow> int option" where
  "fx_negate value = ck (- value)"

definition fx_fract :: "int \<Rightarrow> int" where
  "fx_fract value = value - fx_round_zero value * 256"

definition fx_add :: "int \<Rightarrow> int \<Rightarrow> int option" where
  "fx_add a b = ck (a + b)"

definition fx_subtract :: "int \<Rightarrow> int \<Rightarrow> int option" where
  "fx_subtract a b = ck (a - b)"

definition fx_multiply :: "int \<Rightarrow> int \<Rightarrow> int option" where
  "fx_multiply a b = map_option (\<lambda>v. v sdiv 256) (ck (a * b))"

definition fx_divide :: "int \<Rightarrow> int \<Rightarrow> int option" where
  "fx_divide a b = (if b = 0 then None else case ck (a * 256) of None \<Rightarrow> None | Some v \<Rightarrow> ck (v sdiv b))"

lemma sdiv_256: "v sdiv 256 = (if 0 \<le> v then v div 256 else - ((- v) div 256))" for v :: int
  by (auto simp: signed_divide_int_def sgn_if)

lemma ceil_256: "(v + 255) div 256 = - ((- v) div 256)" for v :: int
proof -
  have "- v = 256 * ((- v) div 256) + (- v) mod 256" by simp
  then have "v + 255 = 256 * (- ((- v) div 256)) + (255 - (- v) mod 256)" by linarith
  then have "(v + 255) div 256 = (255 - (- v) mod 256) div 256 + - ((- v) div 256)"
    by (simp only: mult.commute[of 256] div_mult_self3)
  moreover have "0 \<le> (- v) mod 256" "(- v) mod 256 < 256" by simp_all
  then have "(255 - (- v) mod 256) div 256 = 0" by (intro div_pos_pos_trivial) linarith+
  ultimately show ?thesis by simp
qed

lemma rem_256: "\<bar>v - v sdiv 256 * 256\<bar> < 256" for v :: int
proof (cases "0 \<le> v")
  case True
  have "v - v div 256 * 256 = v mod 256" by (simp add: minus_div_mult_eq_mod)
  with True show ?thesis by (simp add: sdiv_256)
next
  case False
  have "v + (- v) div 256 * 256 = - ((- v) mod 256)" using mult_div_mod_eq[of 256 "- v"] by linarith
  with False show ?thesis by (simp add: sdiv_256)
qed

text \<open>Rounding a fixed-point number: down is the floor, up is the ceiling, and plain \<^verbatim>\<open>round\<close> goes away from
  zero (so any positive fraction rounds up, a quarter included); the fraction and the part rounded to zero add up
  to the number.\<close>

theorem fixed_rounding:
  assumes "- 2147483393 \<le> v" and "v \<le> 2147483392"
  shows "fx_round_down v = Some (v div 256) \<and> fx_round_up v = Some (- ((- v) div 256)) \<and>
    fx_round v = Some (if v \<ge> 0 then - ((- v) div 256) else v div 256) \<and>
    fx_round_zero v * 256 + fx_fract v = v \<and> \<bar>fx_fract v\<bar> < 256"
proof -
  have d: "fx_round_down v = Some (v div 256)"
  proof (cases "v \<ge> 0")
    case False
    then have "fx_round_down v = Some (- ((- v + 255) div 256))"
      using assms by (simp add: fx_round_down_def ck_def sdiv_256)
    also have "- ((- v + 255) div 256) = v div 256" using ceil_256[of "- v"] by simp
    finally show ?thesis .
  qed (use assms in \<open>simp add: fx_round_down_def ck_def sdiv_256\<close>)
  have u: "fx_round_up v = Some (- ((- v) div 256))"
  proof (cases "v \<ge> 0")
    case True
    then have "fx_round_up v = Some ((v + 255) div 256)"
      using assms by (simp add: fx_round_up_def ck_def sdiv_256)
    also have "(v + 255) div 256 = - ((- v) div 256)" by (rule ceil_256)
    finally show ?thesis .
  qed (use assms in \<open>simp add: fx_round_up_def ck_def sdiv_256\<close>)
  have r: "fx_round v = (if v \<ge> 0 then fx_round_up v else fx_round_down v)"
    by (cases "v = 0") (auto simp: fx_round_def fx_round_up_def fx_round_down_def maths_sign_def ck_def sdiv_256)
  have "\<bar>fx_fract v\<bar> < 256"
    unfolding fx_fract_def fx_round_zero_def by (rule rem_256)
  moreover have "fx_round_zero v * 256 + fx_fract v = v" by (simp add: fx_fract_def)
  ultimately show ?thesis using d u r by simp
qed

theorem fixed_rounding_witness:
  "fx_round_down 64 = Some 0 \<and> fx_round_up 64 = Some 1 \<and> fx_round 64 = Some 1"
  using fixed_rounding[of 64] by simp

section \<open>Rectangles\<close>

record rect =
  x1 :: int
  y1 :: int
  x2 :: int
  y2 :: int

definition mk_rect :: "int \<Rightarrow> int \<Rightarrow> int \<Rightarrow> int \<Rightarrow> rect" where
  "mk_rect a b c d = \<lparr>x1 = a, y1 = b, x2 = c, y2 = d\<rparr>"

definition ck_rect :: "int \<Rightarrow> int \<Rightarrow> int \<Rightarrow> int \<Rightarrow> rect option" where
  "ck_rect a b c d =
     (if ck a \<noteq> None \<and> ck b \<noteq> None \<and> ck c \<noteq> None \<and> ck d \<noteq> None then Some (mk_rect a b c d) else None)"

definition rect_offset :: "rect \<Rightarrow> int \<Rightarrow> int \<Rightarrow> rect option" where
  "rect_offset r x y = ck_rect (x1 r + x) (y1 r + y) (x2 r + x) (y2 r + y)"

definition squash :: "rect \<Rightarrow> rect" where
  "squash r =
     (let r = (if x2 r \<le> x1 r then r\<lparr>x1 := 0, x2 := 0\<rparr> else r)
      in if y2 r \<le> y1 r then r\<lparr>y1 := 0, y2 := 0\<rparr> else r)"

definition rect_intersect :: "rect \<Rightarrow> rect \<Rightarrow> rect" where
  "rect_intersect a b = squash (mk_rect (max (x1 a) (x1 b)) (max (y1 a) (y1 b)) (min (x2 a) (x2 b)) (min (y2 a) (y2 b)))"

definition rect_cropped :: "rect \<Rightarrow> int \<Rightarrow> int \<Rightarrow> int \<Rightarrow> int \<Rightarrow> rect option" where
  "rect_cropped r l t r' b =
     map_option squash (ck_rect (x1 r + l) (y1 r + t) (x2 r - r') (y2 r - b))"

definition rect_contains :: "rect \<Rightarrow> int \<Rightarrow> int \<Rightarrow> bool" where
  "rect_contains r x y \<longleftrightarrow> x \<ge> x1 r \<and> x < x2 r \<and> y \<ge> y1 r \<and> y < y2 r"

definition rect_isNonzero :: "rect \<Rightarrow> bool" where
  "rect_isNonzero r \<longleftrightarrow> x1 r \<noteq> 0 \<or> y1 r \<noteq> 0 \<or> x2 r \<noteq> 0 \<or> y2 r \<noteq> 0"

definition rect_include :: "rect \<Rightarrow> rect \<Rightarrow> rect" where
  "rect_include r w =
     (if rect_isNonzero r then mk_rect (min (x1 r) (x1 w)) (min (y1 r) (y1 w)) (max (x2 r) (x2 w)) (max (y2 r) (y2 w))
      else w)"

definition rect_clear :: "rect \<Rightarrow> rect" where
  "rect_clear r = mk_rect 0 0 0 0"

definition rect_width :: "rect \<Rightarrow> int option" where
  "rect_width r = ck (x2 r - x1 r)"

definition rect_height :: "rect \<Rightarrow> int option" where
  "rect_height r = ck (y2 r - y1 r)"

definition rect_eq :: "rect \<Rightarrow> rect \<Rightarrow> bool" where
  "rect_eq a b \<longleftrightarrow> x1 a = x1 b \<and> y1 a = y1 b \<and> x2 a = x2 b \<and> y2 a = y2 b"

lemma squash_contains: "rect_contains (squash r) x y \<longleftrightarrow> rect_contains r x y"
  by (auto simp: squash_def rect_contains_def Let_def)

text \<open>Rectangles as sets of pixels: a point is in the intersection exactly when it is in both, \<^verbatim>\<open>include\<close> covers
  both rectangles, shifting a rectangle shifts its points, and cropping only removes points.\<close>

theorem rect_pixels:
  "(rect_contains (rect_intersect a b) x y \<longleftrightarrow> rect_contains a x y \<and> rect_contains b x y) \<and>
    (rect_contains a x y \<or> rect_contains b x y \<longrightarrow> rect_contains (rect_include a b) x y) \<and>
    (rect_offset a dx dy = Some c \<longrightarrow> rect_contains c (x + dx) (y + dy) = rect_contains a x y) \<and>
    (rect_cropped a l t r w = Some d \<and> 0 \<le> l \<and> 0 \<le> t \<and> 0 \<le> r \<and> 0 \<le> w \<and> rect_contains d x y \<longrightarrow>
      rect_contains a x y)"
proof (intro conjI)
  show "rect_contains (rect_intersect a b) x y \<longleftrightarrow> rect_contains a x y \<and> rect_contains b x y"
    unfolding rect_intersect_def squash_contains by (auto simp: rect_contains_def mk_rect_def)
  show "rect_contains a x y \<or> rect_contains b x y \<longrightarrow> rect_contains (rect_include a b) x y"
    by (auto simp: rect_include_def rect_isNonzero_def rect_contains_def mk_rect_def)
  show "rect_offset a dx dy = Some c \<longrightarrow> rect_contains c (x + dx) (y + dy) = rect_contains a x y"
    by (auto simp: rect_offset_def ck_rect_def rect_contains_def mk_rect_def split: if_splits)
  show "rect_cropped a l t r w = Some d \<and> 0 \<le> l \<and> 0 \<le> t \<and> 0 \<le> r \<and> 0 \<le> w \<and> rect_contains d x y \<longrightarrow>
      rect_contains a x y"
    by (auto simp: rect_cropped_def squash_contains) (auto simp: ck_rect_def rect_contains_def mk_rect_def split: if_splits)
qed

theorem rect_pixels_witness:
  "rect_contains (rect_intersect (mk_rect 0 0 10 10) (mk_rect 5 5 20 20)) 7 8 \<and>
    rect_contains (rect_include (mk_rect 0 0 10 10) (mk_rect 5 5 20 20)) 7 8 \<and>
    rect_contains (mk_rect 1 2 11 12) (7 + 1) (8 + 2)"
  using rect_pixels[of "mk_rect 0 0 10 10" "mk_rect 5 5 20 20" 7 8 1 2 "mk_rect 1 2 11 12" 0 0 0 0 "mk_rect 0 0 10 10"]
  by (simp add: rect_offset_def ck_rect_def ck_def) (simp add: rect_contains_def mk_rect_def)

end
