(* ===== verification/LinkedList.thy ===== *)
theory LinkedList
  imports Prelude
begin

text \<open>
  The intrusive doubly linked list of \<^verbatim>\<open>common/LList.hpp\<close>. The items live in a store that maps an
  address to its \<^verbatim>\<open>next\<close> and \<^verbatim>\<open>prev\<close> fields; a list is its \<^verbatim>\<open>head\<close>, \<^verbatim>\<open>tail\<close> and \<^verbatim>\<open>size\<close>. Every
  operation of the template is translated on that store. \<open>repr\<close> relates a store and a list header
  to the sequence of addresses it stands for, and the lemmas of this theory show that the pointer
  operations implement the sequence operations, that they leave other lists of the same store
  alone, and what \<^verbatim>\<open>clear\<close> really leaves behind. \<^verbatim>\<open>pop_back\<close> is not modelled: it assigns a member
  \<^verbatim>\<open>list\<close> that no item type has, so it can never be instantiated.
\<close>

section \<open>State\<close>

record 'p store =
  nextp :: "'p \<Rightarrow> 'p option"
  prevp :: "'p \<Rightarrow> 'p option"

record 'p llist =
  head :: "'p option"
  tail :: "'p option"
  lsize :: u32

type_synonym 'p lstate = "'p store \<times> 'p llist"

definition empty_llist :: "'p llist" where
  "empty_llist = \<lparr>head = None, tail = None, lsize = 0\<rparr>"

definition set_next :: "'p \<Rightarrow> 'p option \<Rightarrow> 'p store \<Rightarrow> 'p store" where
  "set_next x v h = h\<lparr>nextp := (nextp h)(x := v)\<rparr>"

definition set_prev :: "'p \<Rightarrow> 'p option \<Rightarrow> 'p store \<Rightarrow> 'p store" where
  "set_prev x v h = h\<lparr>prevp := (prevp h)(x := v)\<rparr>"

text \<open>Assignment through a pointer that has just been tested against null.\<close>

definition set_next_opt :: "'p option \<Rightarrow> 'p option \<Rightarrow> 'p store \<Rightarrow> 'p store" where
  "set_next_opt p v h = (case p of None \<Rightarrow> h | Some x \<Rightarrow> set_next x v h)"

definition set_prev_opt :: "'p option \<Rightarrow> 'p option \<Rightarrow> 'p store \<Rightarrow> 'p store" where
  "set_prev_opt p v h = (case p of None \<Rightarrow> h | Some x \<Rightarrow> set_prev x v h)"

section \<open>Operations\<close>

definition push_front :: "'p \<Rightarrow> 'p lstate \<Rightarrow> 'p lstate" where
  "push_front item s = (let (h, l) = s;
     h1 = set_prev_opt (head l) (Some item) h;
     h2 = set_prev item None h1;
     h3 = set_next item (head l) h2
   in (h3, l\<lparr>head := Some item,
             tail := (if tail l = None then Some item else tail l),
             lsize := lsize l + 1\<rparr>))"

definition push_back :: "'p \<Rightarrow> 'p lstate \<Rightarrow> 'p lstate" where
  "push_back item s = (let (h, l) = s;
     h1 = set_next_opt (tail l) (Some item) h;
     h2 = set_prev item (tail l) h1;
     h3 = set_next item None h2
   in (h3, l\<lparr>tail := Some item,
             head := (if head l = None then Some item else head l),
             lsize := lsize l + 1\<rparr>))"

definition pop_front :: "'p lstate \<Rightarrow> 'p option \<times> 'p lstate" where
  "pop_front s = (let (h, l) = s in
     case head l of
       None \<Rightarrow> (None, s)
     | Some item \<Rightarrow>
         (let hd' = nextp h item in
          (Some item,
           case hd' of
             Some n \<Rightarrow> (set_prev n None h, l\<lparr>head := hd', lsize := lsize l - 1\<rparr>)
           | None \<Rightarrow> (h, l\<lparr>head := None,
                          tail := (if tail l = Some item then None else tail l),
                          lsize := lsize l - 1\<rparr>))))"

definition pop :: "'p \<Rightarrow> 'p lstate \<Rightarrow> 'p lstate" where
  "pop item s = (let (h, l) = s;
     (h1, l1) = (case prevp h item of
                   Some p \<Rightarrow> (set_next p (nextp h item) h, l)
                 | None \<Rightarrow> (h, l\<lparr>head := nextp h item\<rparr>));
     (h2, l2) = (case nextp h1 item of
                   Some n \<Rightarrow> (set_prev n (prevp h1 item) h1, l1)
                 | None \<Rightarrow> (h1, l1\<lparr>tail := prevp h1 item\<rparr>))
   in (h2, l2\<lparr>lsize := lsize l2 - 1\<rparr>))"

definition insert_before :: "'p \<Rightarrow> 'p \<Rightarrow> 'p lstate \<Rightarrow> 'p lstate" where
  "insert_before after item s = (let (h, l) = s;
     h1 = set_next item (Some after) h;
     h2 = set_prev item (prevp h1 after) h1;
     h3 = set_prev after (Some item) h2;
     (h4, l4) = (case prevp h3 item of
                   Some p \<Rightarrow> (set_next p (Some item) h3, l)
                 | None \<Rightarrow> (h3, l\<lparr>head := Some item\<rparr>))
   in (h4, l4\<lparr>lsize := lsize l4 + 1\<rparr>))"

definition insert_after :: "'p \<Rightarrow> 'p \<Rightarrow> 'p lstate \<Rightarrow> 'p lstate" where
  "insert_after before item s = (let (h, l) = s;
     h1 = set_prev item (Some before) h;
     h2 = set_next item (nextp h1 before) h1;
     h3 = set_next before (Some item) h2;
     (h4, l4) = (case nextp h3 item of
                   Some n \<Rightarrow> (set_prev n (Some item) h3, l)
                 | None \<Rightarrow> (h3, l\<lparr>tail := Some item\<rparr>))
   in (h4, l4\<lparr>lsize := lsize l4 + 1\<rparr>))"

text \<open>The traversals follow \<^verbatim>\<open>next\<close> until it is null; on a cyclic store they do not return, which
  is the value \<open>None\<close>.\<close>

partial_function (option) contains_from :: "'p store \<Rightarrow> 'p option \<Rightarrow> 'p \<Rightarrow> bool option" where
  "contains_from h item object =
     (case item of
        None \<Rightarrow> Some False
      | Some x \<Rightarrow> if x = object then Some True else contains_from h (nextp h x) object)"

definition contains :: "'p \<Rightarrow> 'p lstate \<Rightarrow> bool option" where
  "contains object s = contains_from (fst s) (head (snd s)) object"

partial_function (option) length_from :: "'p store \<Rightarrow> 'p option \<Rightarrow> u32 \<Rightarrow> u32 option" where
  "length_from h item acc =
     (case item of
        None \<Rightarrow> Some acc
      | Some x \<Rightarrow> length_from h (nextp h x) (acc + 1))"

definition llength :: "'p lstate \<Rightarrow> u32 option" where
  "llength s = length_from (fst s) (head (snd s)) 0"

partial_function (option) clear_from :: "'p store \<Rightarrow> 'p option \<Rightarrow> 'p store option" where
  "clear_from h item =
     (case item of
        None \<Rightarrow> Some h
      | Some x \<Rightarrow>
          (let h1 = set_next_opt (prevp h x) None h;
               h2 = set_prev x None h1
           in clear_from h2 (nextp h2 x)))"

definition clear :: "'p lstate \<Rightarrow> 'p lstate option" where
  "clear s = (let (h, l) = s in
     case head l of
       None \<Rightarrow> Some s
     | Some item \<Rightarrow>
         (case clear_from h (nextp h item) of
            None \<Rightarrow> None
          | Some h' \<Rightarrow> Some (h', l\<lparr>lsize := 0\<rparr>)))"


section \<open>Representation\<close>

fun linked :: "'p store \<Rightarrow> 'p option \<Rightarrow> 'p list \<Rightarrow> 'p option \<Rightarrow> bool" where
  "linked h pv [] nx \<longleftrightarrow> True"
| "linked h pv (x # xs) nx \<longleftrightarrow>
     prevp h x = pv \<and> nextp h x = first_or xs nx \<and> linked h (Some x) xs nx"

definition repr :: "'p lstate \<Rightarrow> 'p list \<Rightarrow> bool" where
  "repr s xs \<longleftrightarrow> distinct xs \<and> linked (fst s) None xs None \<and>
     head (snd s) = first_or xs None \<and> tail (snd s) = last_or None xs \<and>
     lsize (snd s) = of_nat (length xs)"

lemma store_simps [simp]:
  "nextp (set_next x v h) = (nextp h)(x := v)"
  "prevp (set_next x v h) = prevp h"
  "prevp (set_prev x v h) = (prevp h)(x := v)"
  "nextp (set_prev x v h) = nextp h"
  by (simp_all add: set_next_def set_prev_def)

lemma store_opt_simps [simp]:
  "set_next_opt None v h = h"
  "set_next_opt (Some x) v h = set_next x v h"
  "set_prev_opt None v h = h"
  "set_prev_opt (Some x) v h = set_prev x v h"
  by (simp_all add: set_next_opt_def set_prev_opt_def)

lemma linked_append [simp]:
  "linked h pv (xs @ ys) nx \<longleftrightarrow>
     linked h pv xs (first_or ys nx) \<and> linked h (last_or pv xs) ys nx"
  by (induction xs arbitrary: pv) auto

lemma linked_cong:
  "(\<And>x. x \<in> set xs \<Longrightarrow> nextp h' x = nextp h x \<and> prevp h' x = prevp h x) \<Longrightarrow>
   linked h' pv xs nx = linked h pv xs nx"
  by (induction xs arbitrary: pv) auto

lemma linked_frame [simp]:
  "x \<notin> set xs \<Longrightarrow> linked (set_next x v h) pv xs nx = linked h pv xs nx"
  "x \<notin> set xs \<Longrightarrow> linked (set_prev x v h) pv xs nx = linked h pv xs nx"
  by (rule linked_cong; fastforce)+

lemma linked_new_next:
  "linked h pv xs nx \<Longrightarrow> distinct xs \<Longrightarrow> xs \<noteq> [] \<Longrightarrow>
   linked (set_next (last xs) nx' h) pv xs nx'"
proof (induction xs arbitrary: pv)
  case Nil
  then show ?case by simp
next
  case (Cons x xs)
  show ?case
  proof (cases "xs = []")
    case True
    with Cons.prems show ?thesis by simp
  next
    case False
    with Cons.prems have "last xs \<noteq> x" by auto
    moreover from Cons False have "linked (set_next (last xs) nx' h) (Some x) xs nx'" by simp
    ultimately show ?thesis using Cons.prems False by (cases xs) auto
  qed
qed

lemma linked_new_prev:
  "linked h pv (x # xs) nx \<Longrightarrow> x \<notin> set xs \<Longrightarrow> linked (set_prev x pv' h) pv' (x # xs) nx"
  by simp

lemma linked_set_next_last:
  assumes "linked h pv xs nx" and "distinct xs"
  shows "linked (set_next_opt (last_or None xs) nx' h) pv xs nx'"
proof (cases "xs = []")
  case False
  with assms linked_new_next[OF assms] show ?thesis by (simp add: last_or_def)
qed simp

lemma linked_set_prev_first:
  assumes "linked h pv xs nx" and "distinct xs"
  shows "linked (set_prev_opt (first_or xs None) pv' h) pv' xs nx"
  using assms by (cases xs) simp_all

lemma repr_empty: "repr (h, empty_llist) []"
  by (simp add: repr_def empty_llist_def)

lemma reprI:
  assumes "distinct xs" "linked h None xs None" "head l = first_or xs None"
    "tail l = last_or None xs" "lsize l = of_nat (length xs)"
  shows "repr (h, l) xs"
  using assms by (simp add: repr_def)

lemma reprD:
  assumes "repr (h, l) xs"
  shows "distinct xs" "linked h None xs None" "head l = first_or xs None"
    "tail l = last_or None xs" "lsize l = of_nat (length xs)"
  using assms by (simp_all add: repr_def)

lemma repr_unique: "repr s xs \<Longrightarrow> repr s ys \<Longrightarrow> xs = ys"
proof -
  have "linked h pv xs None \<Longrightarrow> linked h pv ys None \<Longrightarrow>
      first_or xs None = first_or ys None \<Longrightarrow> xs = ys" for h pv and xs ys :: "'a list"
  proof (induction xs arbitrary: pv ys)
    case Nil
    then show ?case by (cases ys) simp_all
  next
    case (Cons x xs)
    then show ?case by (cases ys) auto
  qed
  then show "repr s xs \<Longrightarrow> repr s ys \<Longrightarrow> xs = ys"
    unfolding repr_def by metis
qed

section \<open>The pointer operations implement the sequence operations\<close>

lemma push_back_repr [seq_simps]:
  assumes "repr s xs" and "x \<notin> set xs"
  shows "repr (push_back x s) (xs @ [x])"
proof -
  obtain h l where s: "s = (h, l)" by (cases s)
  note r = reprD[OF assms(1)[unfolded s]]
  let ?h = "set_next_opt (tail l) (Some x) h"
  have "linked ?h None xs (Some x)"
    using linked_set_next_last[OF r(2,1)] r(4) by simp
  then show ?thesis
    using assms(2) r unfolding s push_back_def
    by (cases xs) (auto intro!: reprI simp: Let_def)
qed

lemma push_front_repr [seq_simps]:
  assumes "repr s xs" and "x \<notin> set xs"
  shows "repr (push_front x s) (x # xs)"
proof -
  obtain h l where s: "s = (h, l)" by (cases s)
  note r = reprD[OF assms(1)[unfolded s]]
  let ?h = "set_prev_opt (head l) (Some x) h"
  have "linked ?h (Some x) xs None"
    using linked_set_prev_first[OF r(2,1)] r(3) by simp
  then show ?thesis
    using assms(2) r unfolding s push_front_def
    by (cases xs) (auto intro!: reprI simp: Let_def)
qed

lemma pop_repr [seq_simps]:
  assumes "repr s (xs @ x # ys)"
  shows "repr (pop x s) (xs @ ys)"
proof -
  obtain h l where s: "s = (h, l)" by (cases s)
  note r = reprD[OF assms[unfolded s]]
  let ?h1 = "set_next_opt (last_or None xs) (first_or ys None) h"
  let ?h2 = "set_prev_opt (first_or ys None) (last_or None xs) ?h1"
  from r(1) have d: "distinct xs" "distinct ys" "x \<notin> set xs" "x \<notin> set ys" "set xs \<inter> set ys = {}"
    by auto
  from r(2) have lx: "linked h None xs (Some x)" and ly: "linked h (Some x) ys None"
    and x: "prevp h x = last_or None xs" "nextp h x = first_or ys None"
    by auto
  have "linked ?h1 None xs (first_or ys None)"
    by (rule linked_set_next_last[OF lx d(1)])
  then have 1: "linked ?h2 None xs (first_or ys None)"
    using d(5) by (cases ys) auto
  have "linked ?h1 (Some x) ys None"
    using ly d(5) by (cases xs rule: rev_cases) auto
  then have 2: "linked ?h2 (last_or None xs) ys None"
    by (rule linked_set_prev_first[OF _ d(2)])
  have xn: "nextp ?h1 x = first_or ys None" "prevp ?h1 x = last_or None xs"
    using x d(3) by (auto simp: last_or_def)
  have "pop x s = (?h2, l\<lparr>head := first_or (xs @ ys) None, tail := last_or None (xs @ ys),
      lsize := lsize l - 1\<rparr>)"
    using r(3,4) x xn unfolding s pop_def
    by (cases xs rule: rev_cases; cases ys) (auto simp: Let_def)
  then show ?thesis
    using 1 2 d r(5) by (auto intro!: reprI)
qed

lemma pop_front_repr [seq_simps]:
  assumes "repr s xs"
  shows "pop_front s = (None, s) \<and> xs = [] \<or>
    (\<exists>x ys. xs = x # ys \<and> fst (pop_front s) = Some x \<and> repr (snd (pop_front s)) ys)"
proof -
  obtain h l where s: "s = (h, l)" by (cases s)
  note r = reprD[OF assms[unfolded s]]
  show ?thesis
  proof (cases xs)
    case Nil
    with r show ?thesis by (simp add: s pop_front_def)
  next
    case (Cons x ys)
    have "repr (snd (pop_front s)) ys"
      using r unfolding s Cons pop_front_def
      by (cases ys) (auto intro!: reprI)
    with r Cons show ?thesis by (simp add: s pop_front_def Let_def split: option.splits)
  qed
qed

lemma insert_before_repr [seq_simps]:
  assumes "repr s (xs @ a # ys)" and "x \<notin> set (xs @ a # ys)"
  shows "repr (insert_before a x s) (xs @ x # a # ys)"
proof -
  obtain h l where s: "s = (h, l)" by (cases s)
  note r = reprD[OF assms(1)[unfolded s]]
  let ?h3 = "set_prev a (Some x) (set_prev x (prevp h a) (set_next x (Some a) h))"
  let ?h4 = "set_next_opt (last_or None xs) (Some x) ?h3"
  from r have d: "distinct xs" and ax: "a \<notin> set xs" "a \<notin> set ys" "a \<noteq> x"
    and dj: "set xs \<inter> set ys = {}" and dy: "distinct ys"
    and xx: "x \<notin> set xs" "x \<notin> set ys" using assms(2) by auto
  from r(2) have lx: "linked h None xs (Some a)" and pa: "prevp h a = last_or None xs"
    and na: "nextp h a = first_or ys None" and ly: "linked h (Some a) ys None" by auto
  have "linked ?h3 None xs (Some a)" using lx ax xx by simp
  then have 1: "linked ?h4 None xs (Some x)"
    by (rule linked_set_next_last[OF _ d])
  have 2: "linked ?h4 (Some a) ys None"
    using ly ax xx dj by (cases xs rule: rev_cases) auto
  have "insert_before a x s = (?h4, l\<lparr>head := first_or xs (Some x), lsize := lsize l + 1\<rparr>)"
    using r(3) pa ax xx unfolding s insert_before_def
    by (cases xs rule: rev_cases) (auto simp: Let_def fun_upd_def)
  moreover have "prevp ?h4 x = last_or None xs" "nextp ?h4 x = Some a"
    "prevp ?h4 a = Some x" "nextp ?h4 a = first_or ys None"
    using pa na ax xx by (auto simp: last_or_def)
  ultimately show ?thesis
    using 1 2 r(4,5) d dy ax xx dj by (auto intro!: reprI)
qed

lemma insert_after_repr [seq_simps]:
  assumes "repr s (xs @ a # ys)" and "x \<notin> set (xs @ a # ys)"
  shows "repr (insert_after a x s) (xs @ a # x # ys)"
proof -
  obtain h l where s: "s = (h, l)" by (cases s)
  note r = reprD[OF assms(1)[unfolded s]]
  let ?h3 = "set_next a (Some x) (set_next x (nextp h a) (set_prev x (Some a) h))"
  let ?h4 = "set_prev_opt (first_or ys None) (Some x) ?h3"
  from r have d: "distinct xs" and ax: "a \<notin> set xs" "a \<notin> set ys" "a \<noteq> x"
    and dj: "set xs \<inter> set ys = {}" and dy: "distinct ys"
    and xx: "x \<notin> set xs" "x \<notin> set ys" using assms(2) by auto
  from r(2) have lx: "linked h None xs (Some a)" and pa: "prevp h a = last_or None xs"
    and na: "nextp h a = first_or ys None" and ly: "linked h (Some a) ys None" by auto
  have "linked ?h3 (Some a) ys None" using ly ax xx by simp
  then have 1: "linked ?h4 (Some x) ys None"
    by (rule linked_set_prev_first[OF _ dy])
  have 2: "linked ?h4 None xs (Some a)"
    using lx ax xx dj by (cases ys) auto
  have "insert_after a x s = (?h4, l\<lparr>tail := last_or (Some x) ys, lsize := lsize l + 1\<rparr>)"
    using r(4) na ax xx unfolding s insert_after_def
    by (cases ys) (auto simp: Let_def fun_upd_def)
  moreover have "prevp ?h4 x = Some a" "nextp ?h4 x = first_or ys None"
    "prevp ?h4 a = last_or None xs" "nextp ?h4 a = Some x"
    using pa na ax xx by (cases ys; auto)+
  ultimately show ?thesis
    using 1 2 r(3,5) d dy ax xx dj by (auto intro!: reprI)
qed


section \<open>Traversals\<close>

lemma contains_from_linked:
  "linked h pv xs None \<Longrightarrow> contains_from h (first_or xs None) x = Some (x \<in> set xs)"
proof (induction xs arbitrary: pv)
  case Nil
  then show ?case by (simp add: contains_from.simps)
next
  case (Cons y ys)
  then show ?case by (subst contains_from.simps) auto
qed

lemma contains_repr [seq_simps]: "repr s xs \<Longrightarrow> contains x s = Some (x \<in> set xs)"
  unfolding repr_def contains_def by (metis contains_from_linked)

lemma length_from_linked:
  "linked h pv xs None \<Longrightarrow> length_from h (first_or xs None) n = Some (n + of_nat (length xs))"
proof (induction xs arbitrary: pv n)
  case Nil
  then show ?case by (simp add: length_from.simps)
next
  case (Cons y ys)
  then show ?case by (subst length_from.simps) (auto simp: algebra_simps)
qed

lemma llength_repr [seq_simps]: "repr s xs \<Longrightarrow> llength s = Some (of_nat (length xs))"
  unfolding repr_def llength_def by (metis add_0 length_from_linked)

text \<open>\<^verbatim>\<open>clear\<close> unlinks every item but resets neither \<^verbatim>\<open>head\<close> nor \<^verbatim>\<open>tail\<close>.\<close>

lemma clear_from_linked:
  assumes "linked h (Some p) xs None" and "nextp h p = first_or xs None" and "distinct (p # xs)"
  shows "\<exists>h'. clear_from h (first_or xs None) = Some h' \<and> nextp h' p = None \<and>
    (\<forall>y \<in> set xs. nextp h' y = None \<and> prevp h' y = None) \<and>
    (\<forall>y. y \<notin> set (p # xs) \<longrightarrow> nextp h' y = nextp h y) \<and>
    (\<forall>y. y \<notin> set xs \<longrightarrow> prevp h' y = prevp h y)"
  using assms
proof (induction xs arbitrary: h p)
  case Nil
  then show ?case by (subst clear_from.simps) simp
next
  case (Cons x xs)
  let ?h = "set_prev x None (set_next p None h)"
  from Cons.prems have px: "prevp h x = Some p" "nextp h x = first_or xs None" "p \<noteq> x" by auto
  have l: "linked ?h (Some x) xs None" using Cons.prems by simp
  have n: "nextp ?h x = first_or xs None" using px by auto
  have "distinct (x # xs)" using Cons.prems by simp
  from Cons.IH[OF l n this] obtain h' where h':
    "clear_from ?h (first_or xs None) = Some h'" "nextp h' x = None"
    "\<forall>y \<in> set xs. nextp h' y = None \<and> prevp h' y = None"
    "\<forall>y. y \<notin> set (x # xs) \<longrightarrow> nextp h' y = nextp ?h y"
    "\<forall>y. y \<notin> set xs \<longrightarrow> prevp h' y = prevp ?h y" by blast
  have "clear_from h (first_or (x # xs) None) = clear_from ?h (first_or xs None)"
    using px by (subst clear_from.simps) (simp add: Let_def)
  with h' Cons.prems show ?case by auto
qed

lemma clear_repr:
  assumes "repr s (x # xs)"
  shows "\<exists>s'. clear s = Some s' \<and> lsize (snd s') = 0 \<and> head (snd s') = Some x \<and>
    tail (snd s') = Some (last (x # xs)) \<and> contains x s' = Some True \<and> llength s' = Some 1"
proof -
  obtain h l where s: "s = (h, l)" by (cases s)
  note r = reprD[OF assms[unfolded s]]
  have "\<exists>h'. clear_from h (first_or xs None) = Some h' \<and> nextp h' x = None"
    using clear_from_linked[of h x xs] r by auto
  then obtain h' where h': "clear_from h (first_or xs None) = Some h'" "nextp h' x = None" by blast
  then have "clear s = Some (h', l\<lparr>lsize := 0\<rparr>)"
    using r by (simp add: s clear_def)
  moreover have "tail l = Some (last (x # xs))"
    using r(4) by (simp add: last_or_def)
  ultimately show ?thesis
    using r(3) h'(2)
    by (simp add: contains_def llength_def contains_from.simps length_from.simps)
qed

section \<open>Frame: the operations touch only their own items\<close>

definition same_outside :: "'p set \<Rightarrow> 'p store \<Rightarrow> 'p store \<Rightarrow> bool" where
  "same_outside A h h' \<longleftrightarrow> (\<forall>y. y \<notin> A \<longrightarrow> nextp h' y = nextp h y \<and> prevp h' y = prevp h y)"

lemma same_outside_repr:
  assumes "repr (h, l) ys" and "same_outside A h h'" and "A \<inter> set ys = {}"
  shows "repr (h', l) ys"
proof -
  have "linked h' None ys None = linked h None ys None"
    by (rule linked_cong) (use assms(2,3) in \<open>auto simp: same_outside_def\<close>)
  with assms(1) show ?thesis by (simp add: repr_def)
qed

lemma push_back_frame:
  assumes "repr s xs"
  shows "same_outside (insert x (set xs)) (fst s) (fst (push_back x s))"
  using assms last_or_in[of xs]
  by (cases s) (auto simp: repr_def push_back_def same_outside_def Let_def set_next_opt_def
      split: option.splits)

lemma pop_frame:
  assumes "repr s (xs @ x # ys)"
  shows "same_outside (set (xs @ x # ys)) (fst s) (fst (pop x s))"
  using assms last_or_in[of xs] first_or_in[of ys]
  by (cases s) (auto simp: repr_def pop_def same_outside_def Let_def
      split: option.splits if_splits)

section \<open>The interface other components use\<close>

text \<open>The sequence operations the clients of the list are written with.\<close>

definition seq_push_back :: "'p \<Rightarrow> 'p list \<Rightarrow> 'p list" where
  "seq_push_back x xs = xs @ [x]"

definition seq_push_front :: "'p \<Rightarrow> 'p list \<Rightarrow> 'p list" where
  "seq_push_front x xs = x # xs"

definition seq_pop :: "'p \<Rightarrow> 'p list \<Rightarrow> 'p list" where
  "seq_pop x xs = remove1 x xs"

fun seq_insert_before :: "'p \<Rightarrow> 'p \<Rightarrow> 'p list \<Rightarrow> 'p list" where
  "seq_insert_before a x [] = []"
| "seq_insert_before a x (y # ys) = (if y = a then x # y # ys else y # seq_insert_before a x ys)"

fun seq_insert_after :: "'p \<Rightarrow> 'p \<Rightarrow> 'p list \<Rightarrow> 'p list" where
  "seq_insert_after a x [] = []"
| "seq_insert_after a x (y # ys) = (if y = a then y # x # ys else y # seq_insert_after a x ys)"

lemma seq_insert_split [simp]:
  "a \<notin> set xs \<Longrightarrow> seq_insert_before a x (xs @ a # ys) = xs @ x # a # ys"
  "a \<notin> set xs \<Longrightarrow> seq_insert_after a x (xs @ a # ys) = xs @ a # x # ys"
  by (induction xs) auto

locale item_list =
  fixes rep :: "'s \<Rightarrow> 'p list \<Rightarrow> bool"
    and snoc :: "'p \<Rightarrow> 's \<Rightarrow> 's"
    and consf :: "'p \<Rightarrow> 's \<Rightarrow> 's"
    and remove :: "'p \<Rightarrow> 's \<Rightarrow> 's"
    and before :: "'p \<Rightarrow> 'p \<Rightarrow> 's \<Rightarrow> 's"
    and after :: "'p \<Rightarrow> 'p \<Rightarrow> 's \<Rightarrow> 's"
  assumes rep_distinct: "rep s xs \<Longrightarrow> distinct xs"
    and rep_back: "rep s xs \<Longrightarrow> x \<notin> set xs \<Longrightarrow> rep (snoc x s) (xs @ [x])"
    and rep_front: "rep s xs \<Longrightarrow> x \<notin> set xs \<Longrightarrow> rep (consf x s) (x # xs)"
    and rep_remove: "rep s (xs @ x # ys) \<Longrightarrow> rep (remove x s) (xs @ ys)"
    and rep_before: "rep s (xs @ a # ys) \<Longrightarrow> x \<notin> set (xs @ a # ys) \<Longrightarrow>
          rep (before a x s) (xs @ x # a # ys)"
    and rep_after: "rep s (xs @ a # ys) \<Longrightarrow> x \<notin> set (xs @ a # ys) \<Longrightarrow>
          rep (after a x s) (xs @ a # x # ys)"
begin

lemma rep_seq_pop:
  assumes "rep s xs" and "x \<in> set xs"
  shows "rep (remove x s) (seq_pop x xs)"
proof -
  obtain as bs where "xs = as @ x # bs" "remove1 x xs = as @ bs"
    using split_at_elem[OF assms(2) rep_distinct[OF assms(1)]] by blast
  with rep_remove[of s as x bs] assms(1) show ?thesis by (simp add: seq_pop_def)
qed

lemma rep_seq_before:
  assumes "rep s xs" and "a \<in> set xs" and "x \<notin> set xs"
  shows "rep (before a x s) (seq_insert_before a x xs)"
proof -
  obtain as bs where "xs = as @ a # bs" "a \<notin> set as"
    using split_at_elem[OF assms(2) rep_distinct[OF assms(1)]] by metis
  with rep_before[of s as a bs x] assms(1,3) show ?thesis by simp
qed

lemma rep_seq_after:
  assumes "rep s xs" and "a \<in> set xs" and "x \<notin> set xs"
  shows "rep (after a x s) (seq_insert_after a x xs)"
proof -
  obtain as bs where "xs = as @ a # bs" "a \<notin> set as"
    using split_at_elem[OF assms(2) rep_distinct[OF assms(1)]] by metis
  with rep_after[of s as a bs x] assms(1,3) show ?thesis by simp
qed

lemma rep_requeue:
  assumes "rep s xs" and "x \<in> set xs"
  shows "rep (snoc x (remove x s)) (seq_push_back x (seq_pop x xs))"
  using rep_back[OF rep_seq_pop[OF assms], of x] rep_distinct[OF assms(1)]
  by (simp add: seq_push_back_def seq_pop_def)

end

interpretation ll: item_list repr push_back push_front pop insert_before insert_after
  by unfold_locales (auto simp: repr_def[THEN iffD1] intro: seq_simps dest: repr_def[THEN iffD1])

section \<open>Refinement of whole runs\<close>

datatype 'p llop = PushBack 'p | PushFront 'p | PopFront | Pop 'p | InsertBefore 'p 'p | InsertAfter 'p 'p

fun llop_step :: "'p lstate \<Rightarrow> 'p llop \<Rightarrow> 'p lstate" where
  "llop_step s (PushBack x) = push_back x s"
| "llop_step s (PushFront x) = push_front x s"
| "llop_step s PopFront = snd (pop_front s)"
| "llop_step s (Pop x) = pop x s"
| "llop_step s (InsertBefore a x) = insert_before a x s"
| "llop_step s (InsertAfter a x) = insert_after a x s"

text \<open>The abstract step, \<open>None\<close> where the caller breaks the contract of the operation: it adds an
  item that is in the list, or removes or names one that is not.\<close>

fun seq_step :: "'p list \<Rightarrow> 'p llop \<Rightarrow> 'p list option" where
  "seq_step xs (PushBack x) = (if x \<in> set xs then None else Some (seq_push_back x xs))"
| "seq_step xs (PushFront x) = (if x \<in> set xs then None else Some (seq_push_front x xs))"
| "seq_step xs PopFront = Some (tl xs)"
| "seq_step xs (Pop x) = (if x \<in> set xs then Some (seq_pop x xs) else None)"
| "seq_step xs (InsertBefore a x) =
     (if a \<in> set xs \<and> x \<notin> set xs then Some (seq_insert_before a x xs) else None)"
| "seq_step xs (InsertAfter a x) =
     (if a \<in> set xs \<and> x \<notin> set xs then Some (seq_insert_after a x xs) else None)"

fun seq_run :: "'p list \<Rightarrow> 'p llop list \<Rightarrow> 'p list option" where
  "seq_run xs [] = Some xs"
| "seq_run xs (p # ps) = (case seq_step xs p of None \<Rightarrow> None | Some ys \<Rightarrow> seq_run ys ps)"

lemma llop_step_refines:
  assumes "repr s xs" and "seq_step xs p = Some ys"
  shows "repr (llop_step s p) ys"
proof (cases p)
  case PopFront
  with assms pop_front_repr[OF assms(1)] show ?thesis by auto
qed (use assms in \<open>auto simp: seq_push_back_def seq_push_front_def split: if_splits
      intro: ll.rep_back ll.rep_front ll.rep_seq_pop ll.rep_seq_before ll.rep_seq_after\<close>)

text \<open>C4. The intrusive list of \<^verbatim>\<open>LList.hpp\<close> implements a sequence: every run of its operations, as
  long as callers respect their contract, keeps head, tail, size and the next/prev links of the
  store in agreement with the sequence obtained by running the abstract operations.\<close>

theorem llist_run_refines:
  assumes "repr s xs" and "seq_run xs ops = Some ys"
  shows "repr (foldl llop_step s ops) ys"
  using assms
proof (induction ops arbitrary: s xs)
  case Nil
  then show ?case by simp
next
  case (Cons p ops)
  then obtain zs where "seq_step xs p = Some zs" "seq_run zs ops = Some ys"
    by (auto split: option.splits)
  with Cons.IH[OF llop_step_refines[OF Cons.prems(1)]] show ?case by auto
qed

theorem llist_run_refines_witness:
  "repr (foldl llop_step (\<lparr>nextp = \<lambda>_. None, prevp = \<lambda>_. None\<rparr>, empty_llist)
      [PushBack (1::nat), PushBack 2, InsertBefore 2 3, InsertAfter 1 4, Pop 3, PopFront, PushFront 5])
     [5, 4, 2]"
  by (rule llist_run_refines[OF repr_empty])
     (simp add: seq_push_back_def seq_push_front_def seq_pop_def)

text \<open>\<^verbatim>\<open>LList::clear\<close> does not empty the list. It returns (the loop ends) and sets the size to 0,
  but head and tail keep their old values: a traversal afterwards still finds the first item, and
  \<^verbatim>\<open>length()\<close> answers 1 while the \<^verbatim>\<open>size\<close> member is 0.\<close>

theorem llist_clear_keeps_head:
  assumes "repr s (x # xs)"
  shows "\<exists>s'. clear s = Some s' \<and> lsize (snd s') = 0 \<and> head (snd s') = Some x \<and>
    tail (snd s') = Some (last (x # xs)) \<and> contains x s' = Some True \<and> llength s' = Some 1"
  using assms by (rule clear_repr)

theorem llist_clear_keeps_head_witness:
  "\<exists>s'. clear (push_back 2 (push_back (1::nat)
        (\<lparr>nextp = \<lambda>_. None, prevp = \<lambda>_. None\<rparr>, empty_llist))) = Some s' \<and>
     lsize (snd s') = 0 \<and> head (snd s') = Some 1 \<and> tail (snd s') = Some (last [1, 2]) \<and>
     contains 1 s' = Some True \<and> llength s' = Some 1"
proof -
  have "repr (push_back (1::nat) (\<lparr>nextp = \<lambda>_. None, prevp = \<lambda>_. None\<rparr>, empty_llist)) ([] @ [1])"
    by (rule ll.rep_back[OF repr_empty]) simp
  then have "repr (push_back 2 (push_back (1::nat)
      (\<lparr>nextp = \<lambda>_. None, prevp = \<lambda>_. None\<rparr>, empty_llist))) (([] @ [1]) @ [2])"
    by (rule ll.rep_back) simp
  then show ?thesis using llist_clear_keeps_head[of _ "1::nat" "[2]"] by simp
qed

end
