(* ===== verification/Pool.thy ===== *)
theory Pool
  imports LinkedList
begin

text \<open>
  The heap allocator of \<^verbatim>\<open>common/MemoryPool.hpp\<close>. A block is a header (\<^verbatim>\<open>next\<close>, \<^verbatim>\<open>prev\<close>, \<^verbatim>\<open>size\<close>: 12
  bytes on the 32-bit target) followed by \<^verbatim>\<open>size\<close> bytes; free blocks are kept in a list ordered by
  size. The list operations are the sequence operations that theory LinkedList shows the intrusive
  list to implement; the \<^verbatim>\<open>size\<close> member of the header at an address is \<open>bsize\<close>. A failed
  \<^verbatim>\<open>debug::assert\<close> halts the kernel: that is the outer \<open>None\<close>. The parameter \<open>al\<close> is the template's
  \<^verbatim>\<open>alignment\<close>. The logging under \<^verbatim>\<open>MEMORY_CHECKS\<close> is left out.
\<close>

section \<open>State\<close>

record pool =
  available :: nat
  used :: nat
  needsCompacting :: bool
  availableBlocks :: "nat list"
  bsize :: "nat \<Rightarrow> nat"

definition headerSize :: nat where
  "headerSize = 12"

definition pageSize :: nat where
  "pageSize = 4096"

definition align :: "nat \<Rightarrow> nat \<Rightarrow> nat" where
  "align x al = add32 x (if x mod al \<noteq> 0 then al - x mod al else 0)"

text \<open>Placement new of a block header: the constructor stores the size less the header.\<close>

definition new_block :: "nat \<Rightarrow> nat \<Rightarrow> pool \<Rightarrow> pool" where
  "new_block addr sz p = p\<lparr>bsize := (bsize p)(addr := sub32 sz headerSize)\<rparr>"

definition init_pool :: "nat option \<Rightarrow> nat \<Rightarrow> (nat \<Rightarrow> nat) \<Rightarrow> pool" where
  "init_pool address sz mem =
     (let p = \<lparr>available = sz, used = 0, needsCompacting = False, availableBlocks = [], bsize = mem\<rparr>
      in case address of
           None \<Rightarrow> p
         | Some a \<Rightarrow> (new_block a sz p)\<lparr>availableBlocks := seq_push_back a []\<rparr>)"

section \<open>Returning a block\<close>

definition insert_by_size :: "(nat \<Rightarrow> nat) \<Rightarrow> nat \<Rightarrow> nat list \<Rightarrow> nat list" where
  "insert_by_size sz reclaim bs =
     (if bs = [] then seq_push_back reclaim bs
      else if sz reclaim < pageSize then
        (case find (\<lambda>b. sz b \<ge> sz reclaim) bs of
           Some b \<Rightarrow> seq_insert_before b reclaim bs
         | None \<Rightarrow> seq_push_back reclaim bs)
      else
        (case find (\<lambda>b. sz b \<le> sz reclaim) (rev bs) of
           Some b \<Rightarrow> seq_insert_after b reclaim bs
         | None \<Rightarrow> seq_push_front reclaim bs))"

definition claim_block :: "nat \<Rightarrow> pool \<Rightarrow> pool option" where
  "claim_block reclaim p =
     (if reclaim \<in> set (availableBlocks p) then None
      else Some (p\<lparr>available := add32 (available p) (bsize p reclaim),
                   availableBlocks := insert_by_size (bsize p) reclaim (availableBlocks p)\<rparr>))"

definition get_block :: "nat \<Rightarrow> nat" where
  "get_block address = sub32 address headerSize"

definition free :: "nat \<Rightarrow> pool \<Rightarrow> pool option" where
  "free address p =
     (let block = get_block address; sz = bsize p block in
      case claim_block block p of
        None \<Rightarrow> None
      | Some p' \<Rightarrow> Some (p'\<lparr>used := sub32 (used p') sz, needsCompacting := True\<rparr>))"

section \<open>Compaction\<close>

text \<open>The loops walk the list with a cursor: \<open>vis\<close> are the blocks before the current one, \<open>rest\<close>
  those after it. The inner loop: while some other free block starts where \<open>cur\<close> ends, absorb it
  and search again.\<close>

definition block_end :: "(nat \<Rightarrow> nat) \<Rightarrow> nat \<Rightarrow> nat" where
  "block_end sz b = add32 (add32 b headerSize) (sz b)"

definition grow :: "nat \<Rightarrow> nat \<Rightarrow> (nat \<Rightarrow> nat) \<Rightarrow> (nat \<Rightarrow> nat)" where
  "grow b n sz = sz(b := add32 (sz b) n)"

definition neighbour :: "nat \<Rightarrow> nat list \<Rightarrow> (nat \<Rightarrow> nat) \<Rightarrow> nat option" where
  "neighbour b bs sz = find (\<lambda>other. other \<noteq> b \<and> other = block_end sz b) bs"

lemma neighbour_iff:
  "neighbour b bs sz = (if block_end sz b \<noteq> b \<and> block_end sz b \<in> set bs
     then Some (block_end sz b) else None)"
  unfolding neighbour_def by (induction bs) auto

function absorb :: "nat \<Rightarrow> nat list \<Rightarrow> nat list \<Rightarrow> (nat \<Rightarrow> nat) \<Rightarrow> nat list \<times> nat list \<times> (nat \<Rightarrow> nat)" where
  "absorb cur vis rest sz =
     (case neighbour cur (vis @ cur # rest) sz of
        None \<Rightarrow> (vis, rest, sz)
      | Some other \<Rightarrow>
          absorb cur (seq_pop other vis) (if other \<in> set vis then rest else seq_pop other rest)
            (grow cur (add32 headerSize (sz other)) sz))"
  by pat_completeness auto
termination
proof (relation "measure (\<lambda>(cur, vis, rest, sz). length vis + length rest)")
  fix cur :: nat and vis rest :: "nat list" and sz :: "nat \<Rightarrow> nat" and other :: nat
  assume "neighbour cur (vis @ cur # rest) sz = Some other"
  then have "other \<in> set vis \<or> other \<in> set rest"
    by (auto simp: neighbour_iff split: if_splits)
  then have "length (seq_pop other vis) +
      length (if other \<in> set vis then rest else seq_pop other rest) < length vis + length rest"
    using length_pos_if_in_set[of other vis] length_pos_if_in_set[of other rest]
    by (auto simp: seq_pop_def length_remove1)
  then show "((cur, seq_pop other vis, if other \<in> set vis then rest else seq_pop other rest,
      grow cur (add32 headerSize (sz other)) sz), cur, vis, rest, sz)
      \<in> measure (\<lambda>(cur, vis, rest, sz). length vis + length rest)"
    by simp
qed simp

declare absorb.simps [simp del]

lemma absorb_step:
  "neighbour cur (vis @ cur # rest) sz = None \<Longrightarrow> absorb cur vis rest sz = (vis, rest, sz)"
  "neighbour cur (vis @ cur # rest) sz = Some other \<Longrightarrow> absorb cur vis rest sz =
     absorb cur (seq_pop other vis) (if other \<in> set vis then rest else seq_pop other rest)
            (grow cur (add32 headerSize (sz other)) sz)"
  by (subst absorb.simps, simp)+

lemma absorb_length: "absorb cur vis rest sz = (vis', rest', sz') \<Longrightarrow> length rest' \<le> length rest"
proof (induction cur vis rest sz rule: absorb.induct)
  case (1 cur vis rest sz)
  show ?case
  proof (cases "neighbour cur (vis @ cur # rest) sz")
    case None
    with "1.prems" show ?thesis by (simp add: absorb_step)
  next
    case (Some other)
    have "length rest' \<le> length (if other \<in> set vis then rest else seq_pop other rest)"
      by (rule "1.IH"[OF Some]) (use "1.prems" absorb_step(2)[OF Some] in simp)
    also have "\<dots> \<le> length rest" by (simp add: seq_pop_def length_remove1)
    finally show ?thesis .
  qed
qed

function merge_pass :: "nat list \<Rightarrow> nat \<Rightarrow> nat list \<Rightarrow> (nat \<Rightarrow> nat) \<Rightarrow> nat list \<times> (nat \<Rightarrow> nat)" where
  "merge_pass vis cur rest sz =
     (case absorb cur vis rest sz of
        (vis', rest', sz') \<Rightarrow>
          (case rest' of
             [] \<Rightarrow> (vis' @ [cur], sz')
           | n # ns \<Rightarrow> merge_pass (vis' @ [cur]) n ns sz'))"
  by pat_completeness auto
termination
  by (relation "measure (\<lambda>(vis, cur, rest, sz). length rest)")
     (auto dest!: sym[of _ "absorb _ _ _ _"] absorb_length)

declare merge_pass.simps [simp del]

definition merge_adjacent :: "nat list \<Rightarrow> (nat \<Rightarrow> nat) \<Rightarrow> nat list \<times> (nat \<Rightarrow> nat)" where
  "merge_adjacent bs sz = (case bs of [] \<Rightarrow> ([], sz) | b # rest \<Rightarrow> merge_pass [] b rest sz)"

text \<open>The second half: an insertion sort by size into a fresh list.\<close>

definition sort_insert :: "(nat \<Rightarrow> nat) \<Rightarrow> nat list \<Rightarrow> nat \<Rightarrow> nat list" where
  "sort_insert sz srt b =
     (case find (\<lambda>other. sz other \<ge> sz b) srt of
        Some other \<Rightarrow> seq_insert_before other b srt
      | None \<Rightarrow> seq_push_back b srt)"

definition compact :: "pool \<Rightarrow> bool \<times> pool" where
  "compact p =
     (let (bs, sz) = merge_adjacent (availableBlocks p) (bsize p)
      in (False, p\<lparr>availableBlocks := foldl (sort_insert sz) [] bs, bsize := sz,
                   needsCompacting := False\<rparr>))"

section \<open>Allocation\<close>

text \<open>The backwards search keeps going until the previous block is too small.\<close>

fun search_back :: "(nat \<Rightarrow> nat) \<Rightarrow> nat \<Rightarrow> nat list \<Rightarrow> nat option" where
  "search_back sz req [] = None"
| "search_back sz req (b # prevs) =
     (if sz b \<ge> req \<and> (case prevs of [] \<Rightarrow> True | q # _ \<Rightarrow> sz q < req) then Some b
      else search_back sz req prevs)"

definition search_block :: "pool \<Rightarrow> nat \<Rightarrow> nat option" where
  "search_block p req =
     (if req < pageSize then find (\<lambda>b. bsize p b \<ge> req) (availableBlocks p)
      else search_back (bsize p) req (rev (availableBlocks p)))"

definition take_block :: "nat \<Rightarrow> nat \<Rightarrow> nat \<Rightarrow> pool \<Rightarrow> (nat \<times> pool) option" where
  "take_block al req block p =
     (let p1 = p\<lparr>availableBlocks := seq_pop block (availableBlocks p),
                 available := sub32 (available p) (bsize p block)\<rparr>;
          remaining = sub32 (bsize p1 block) req;
          p2 = (if remaining > headerSize \<and> remaining \<ge> al then
                  (let p3 = p1\<lparr>bsize := (bsize p1)(block := req)\<rparr>;
                       slot = add32 (add32 block headerSize) req
                   in claim_block slot (new_block slot remaining p3))
                else Some p1)
      in case p2 of
           None \<Rightarrow> None
         | Some p4 \<Rightarrow> Some (add32 block headerSize, p4\<lparr>used := add32 (used p4) (bsize p4 block)\<rparr>))"

function malloc :: "nat \<Rightarrow> nat \<Rightarrow> pool \<Rightarrow> (nat option \<times> pool) option" where
  "malloc al sz p =
     (let req = align sz al in
      case search_block p req of
        Some block \<Rightarrow>
          (case take_block al req block p of
             None \<Rightarrow> None
           | Some (addr, p') \<Rightarrow> Some (Some addr, p'))
      | None \<Rightarrow>
          (if needsCompacting p \<and> available p \<ge> req then
             (case compact p of
                (ok, p') \<Rightarrow> if ok then malloc al sz p' else Some (None, p'))
           else Some (None, p)))"
  by pat_completeness auto
termination
  by (relation "measure (\<lambda>(al, sz, p). if needsCompacting p then 1 else 0)")
     (auto simp: compact_def split: prod.splits)

declare malloc.simps [simp del]


section \<open>Well-formed pools\<close>

definition extent :: "(nat \<Rightarrow> nat) \<Rightarrow> nat \<Rightarrow> nat set" where
  "extent sz b = {b ..< b + headerSize + sz b}"

definition bytes :: "nat set \<Rightarrow> (nat \<Rightarrow> nat) \<Rightarrow> nat set" where
  "bytes B sz = (\<Union>b \<in> B. extent sz b)"

text \<open>No block reaches the end of the address space, and no two overlap.\<close>

definition wf_set :: "nat set \<Rightarrow> (nat \<Rightarrow> nat) \<Rightarrow> bool" where
  "wf_set B sz \<longleftrightarrow> (\<forall>b \<in> B. b + headerSize + sz b < two32) \<and>
     (\<forall>a \<in> B. \<forall>b \<in> B. a \<noteq> b \<longrightarrow> extent sz a \<inter> extent sz b = {})"

definition sorted_by :: "(nat \<Rightarrow> nat) \<Rightarrow> nat list \<Rightarrow> bool" where
  "sorted_by sz bs \<longleftrightarrow> sorted (map sz bs)"

definition wf_pool :: "pool \<Rightarrow> bool" where
  "wf_pool p \<longleftrightarrow> distinct (availableBlocks p) \<and> wf_set (set (availableBlocks p)) (bsize p) \<and>
     sorted_by (bsize p) (availableBlocks p)"

definition free_bytes :: "pool \<Rightarrow> nat set" where
  "free_bytes p = bytes (set (availableBlocks p)) (bsize p)"

definition accounted :: "pool \<Rightarrow> bool" where
  "accounted p \<longleftrightarrow> available p = (\<Sum>b\<leftarrow>availableBlocks p. bsize p b) mod two32"

lemma headerSize_pos [simp]: "0 < headerSize" "headerSize \<noteq> 0"
  by (simp_all add: headerSize_def)

lemma extent_nonempty: "b \<in> extent sz b"
  by (simp add: extent_def)

lemma wf_setD:
  assumes "wf_set B sz"
  shows "b \<in> B \<Longrightarrow> b + headerSize + sz b < two32"
    and "a \<in> B \<Longrightarrow> b \<in> B \<Longrightarrow> a \<noteq> b \<Longrightarrow> extent sz a \<inter> extent sz b = {}"
  using assms by (auto simp: wf_set_def)

lemma wf_set_subset: "wf_set B sz \<Longrightarrow> A \<subseteq> B \<Longrightarrow> wf_set A sz"
  unfolding wf_set_def by blast

lemma extent_cong: "sz' b = sz b \<Longrightarrow> extent sz' b = extent sz b"
  by (simp add: extent_def)

lemma bytes_cong: "(\<And>b. b \<in> B \<Longrightarrow> sz' b = sz b) \<Longrightarrow> bytes B sz' = bytes B sz"
  by (simp add: bytes_def extent_def)

lemma wf_set_cong: "(\<And>b. b \<in> B \<Longrightarrow> sz' b = sz b) \<Longrightarrow> wf_set B sz' = wf_set B sz"
  by (simp add: wf_set_def extent_def)

lemma wf_set_insert:
  "wf_set (insert b B) sz \<longleftrightarrow> b + headerSize + sz b < two32 \<and> wf_set B sz \<and>
     (\<forall>a \<in> B - {b}. extent sz a \<inter> extent sz b = {})"
  unfolding wf_set_def by blast

lemma bytes_insert: "bytes (insert b B) sz = extent sz b \<union> bytes B sz"
  by (simp add: bytes_def)

lemma block_end_exact: "b + headerSize + sz b < two32 \<Longrightarrow> block_end sz b = b + headerSize + sz b"
  by (simp add: block_end_def add32_exact)

lemma wf_set_disjoint:
  assumes "wf_set (insert b B) sz" and "b \<notin> B"
  shows "extent sz b \<inter> bytes B sz = {}"
  using assms by (fastforce simp: wf_set_def bytes_def)

section \<open>Merging keeps the free bytes\<close>

lemma merge_step:
  assumes wf: "wf_set B sz" and cur: "cur \<in> B" and other: "other \<in> B" "other \<noteq> cur"
    and adj: "other = block_end sz cur"
  defines "sz' \<equiv> grow cur (add32 headerSize (sz other)) sz"
  shows "wf_set (B - {other}) sz'" and "bytes (B - {other}) sz' = bytes B sz"
    and "sz' cur = sz cur + headerSize + sz other"
proof -
  have o: "other = cur + headerSize + sz cur"
    using adj wf_setD(1)[OF wf cur] by (simp add: block_end_exact)
  have lt: "other + headerSize + sz other < two32" by (rule wf_setD(1)[OF wf other(1)])
  with o have "sz cur + (headerSize + sz other) < two32" by linarith
  then show c: "sz' cur = sz cur + headerSize + sz other"
    by (simp add: sz'_def grow_def add32_exact)
  have ext: "extent sz' cur = extent sz cur \<union> extent sz other"
    unfolding extent_def c using o by auto
  have rest: "b \<noteq> cur \<Longrightarrow> extent sz' b = extent sz b" for b
    by (simp add: sz'_def grow_def extent_def)
  show "bytes (B - {other}) sz' = bytes B sz"
  proof -
    have "bytes (B - {other}) sz' = extent sz' cur \<union> bytes (B - {other} - {cur}) sz'"
      using cur other(2) by (simp add: bytes_insert[symmetric] insert_absorb)
    also have "bytes (B - {other} - {cur}) sz' = bytes (B - {other} - {cur}) sz"
      by (rule bytes_cong) (simp add: sz'_def grow_def)
    also have "extent sz' cur \<union> bytes (B - {other} - {cur}) sz = bytes B sz"
      using cur other(1) unfolding ext bytes_def by blast
    finally show ?thesis .
  qed
  show "wf_set (B - {other}) sz'"
    unfolding wf_set_def
  proof (intro conjI ballI impI)
    fix b assume "b \<in> B - {other}"
    then show "b + headerSize + sz' b < two32"
      using c lt o wf_setD(1)[OF wf, of b] by (cases "b = cur") (auto simp: sz'_def grow_def)
  next
    fix a b assume ab: "a \<in> B - {other}" "b \<in> B - {other}" "a \<noteq> b"
    have D: "extent sz x \<inter> extent sz y = {}" if "x \<in> B" "y \<in> B" "x \<noteq> y" for x y
      using that by (rule wf_setD(2)[OF wf])
    show "extent sz' a \<inter> extent sz' b = {}"
      using ab D[of a b] D[of a other] D[of other b] cur other ext rest[of a] rest[of b]
      by (cases "a = cur"; cases "b = cur") (auto simp: Int_Un_distrib Int_Un_distrib2)
  qed
qed

lemma absorb_correct:
  assumes "absorb cur vis rest sz = (vis', rest', sz')"
    and "distinct (vis @ cur # rest)" and "wf_set (set (vis @ cur # rest)) sz"
  shows "distinct (vis' @ cur # rest')" "wf_set (set (vis' @ cur # rest')) sz'"
    "bytes (set (vis' @ cur # rest')) sz' = bytes (set (vis @ cur # rest)) sz"
    "neighbour cur (vis' @ cur # rest') sz' = None"
    "set vis' \<subseteq> set vis" "set rest' \<subseteq> set rest" "\<And>b. b \<noteq> cur \<Longrightarrow> sz' b = sz b"
proof -
  have "distinct (vis' @ cur # rest') \<and> wf_set (set (vis' @ cur # rest')) sz' \<and>
    bytes (set (vis' @ cur # rest')) sz' = bytes (set (vis @ cur # rest)) sz \<and>
    neighbour cur (vis' @ cur # rest') sz' = None \<and>
    set vis' \<subseteq> set vis \<and> set rest' \<subseteq> set rest \<and> (\<forall>b. b \<noteq> cur \<longrightarrow> sz' b = sz b)"
    using assms
  proof (induction cur vis rest sz rule: absorb.induct)
    case (1 cur vis rest sz)
    show ?case
    proof (cases "neighbour cur (vis @ cur # rest) sz")
      case None
      with "1.prems" show ?thesis by (simp add: absorb_step)
    next
      case (Some other)
      let ?vis = "seq_pop other vis"
      let ?rest = "if other \<in> set vis then rest else seq_pop other rest"
      let ?sz = "grow cur (add32 headerSize (sz other)) sz"
      let ?B = "set (vis @ cur # rest)"
      from Some have o: "other = block_end sz cur" "other \<noteq> cur" "other \<in> ?B"
        by (auto simp: neighbour_iff split: if_splits)
      have set_eq: "set (?vis @ cur # ?rest) = ?B - {other}"
        using "1.prems"(2) o(2) by (auto simp: seq_pop_def)
      have dist: "distinct (?vis @ cur # ?rest)"
        using "1.prems"(2) by (auto simp: seq_pop_def dest: notin_set_remove1 in_set_remove1[THEN iffD1]
            intro: distinct_remove1)
      note ms = merge_step[OF "1.prems"(3) _ o(3,2,1)]
      have "absorb cur ?vis ?rest ?sz = (vis', rest', sz')"
        using "1.prems"(1) absorb_step(2)[OF Some] by simp
      note IH = "1.IH"[OF Some this dist]
      have "wf_set (set (?vis @ cur # ?rest)) ?sz" unfolding set_eq by (rule ms) simp
      note IH = IH[OF this]
      have "bytes (set (?vis @ cur # ?rest)) ?sz = bytes ?B sz" unfolding set_eq by (rule ms) simp
      moreover have "set ?vis \<subseteq> set vis" "set ?rest \<subseteq> set rest"
        using set_remove1_subset[of other] by (auto simp: seq_pop_def)
      moreover have "b \<noteq> cur \<Longrightarrow> ?sz b = sz b" for b by (simp add: grow_def)
      ultimately show ?thesis using IH by (metis order_trans)
    qed
  qed
  then show "distinct (vis' @ cur # rest')" "wf_set (set (vis' @ cur # rest')) sz'"
    "bytes (set (vis' @ cur # rest')) sz' = bytes (set (vis @ cur # rest)) sz"
    "neighbour cur (vis' @ cur # rest') sz' = None"
    "set vis' \<subseteq> set vis" "set rest' \<subseteq> set rest" "\<And>b. b \<noteq> cur \<Longrightarrow> sz' b = sz b"
    by blast+
qed


lemma merge_pass_correct:
  assumes "merge_pass vis cur rest sz = (bs', sz')"
    and "distinct (vis @ cur # rest)" and "wf_set (set (vis @ cur # rest)) sz"
    and "\<forall>v \<in> set vis. neighbour v (vis @ cur # rest) sz = None"
  shows "distinct bs' \<and> wf_set (set bs') sz' \<and>
    bytes (set bs') sz' = bytes (set (vis @ cur # rest)) sz \<and>
    (\<forall>b \<in> set bs'. neighbour b bs' sz' = None) \<and> set bs' \<subseteq> set (vis @ cur # rest)"
  using assms
proof (induction vis cur rest sz rule: merge_pass.induct)
  case (1 vis cur rest sz)
  obtain vis1 rest1 sz1 where a: "absorb cur vis rest sz = (vis1, rest1, sz1)"
    by (metis prod_cases3)
  note A = absorb_correct[OF a "1.prems"(2,3)]
  have sub: "set (vis1 @ cur # rest1) \<subseteq> set (vis @ cur # rest)"
    using A(5,6) by auto
  have no: "neighbour v (vis1 @ cur # rest1) sz1 = None" if "v \<in> set (vis1 @ [cur])" for v
  proof (cases "v = cur")
    case True
    with A(4) show ?thesis by simp
  next
    case False
    with that A(5) have "v \<in> set vis" by auto
    with "1.prems"(4) have "neighbour v (vis @ cur # rest) sz = None" by simp
    moreover have "block_end sz1 v = block_end sz v"
      using A(7)[OF False] by (simp add: block_end_def)
    ultimately show ?thesis using sub unfolding neighbour_iff by (auto split: if_splits)
  qed
  show ?case
  proof (cases rest1)
    case Nil
    with "1.prems"(1) a have "bs' = vis1 @ [cur]" "sz' = sz1"
      by (simp_all add: merge_pass.simps[of vis])
    with A(1-3) no sub Nil show ?thesis by simp
  next
    case (Cons n ns)
    have m: "merge_pass (vis1 @ [cur]) n ns sz1 = (bs', sz')"
      using "1.prems"(1) a Cons by (simp add: merge_pass.simps[of vis])
    have eq: "(vis1 @ [cur]) @ n # ns = vis1 @ cur # rest1" using Cons by simp
    have "\<forall>v \<in> set (vis1 @ [cur]). neighbour v (vis1 @ cur # rest1) sz1 = None"
      using no by blast
    from "1.IH"[OF a[symmetric] refl Cons m, unfolded eq, OF A(1,2) this]
    show ?thesis using A(3) sub by auto
  qed
qed

lemma merge_adjacent_correct:
  assumes "merge_adjacent bs sz = (bs', sz')" and "distinct bs" and "wf_set (set bs) sz"
  shows "distinct bs'" "wf_set (set bs') sz'" "bytes (set bs') sz' = bytes (set bs) sz"
    "\<forall>b \<in> set bs'. neighbour b bs' sz' = None" "set bs' \<subseteq> set bs"
proof -
  have "distinct bs' \<and> wf_set (set bs') sz' \<and> bytes (set bs') sz' = bytes (set bs) sz \<and>
    (\<forall>b \<in> set bs'. neighbour b bs' sz' = None) \<and> set bs' \<subseteq> set bs"
  proof (cases bs)
    case Nil
    with assms show ?thesis by (simp add: merge_adjacent_def)
  next
    case (Cons b rest)
    then show ?thesis
      using merge_pass_correct[of "[]" b rest sz bs' sz'] assms by (simp add: merge_adjacent_def)
  qed
  then show "distinct bs'" "wf_set (set bs') sz'" "bytes (set bs') sz' = bytes (set bs) sz"
    "\<forall>b \<in> set bs'. neighbour b bs' sz' = None" "set bs' \<subseteq> set bs" by blast+
qed

section \<open>Keeping the list ordered\<close>

lemma find_split:
  assumes "find P xs = Some x"
  obtains as bs where "xs = as @ x # bs" "\<forall>a \<in> set as. \<not> P a" "P x"
  using assms
proof (induction xs arbitrary: thesis)
  case Nil
  then show ?case by simp
next
  case (Cons y ys)
  show ?case
  proof (cases "P y")
    case True
    with Cons.prems show ?thesis by (auto intro: Cons.prems(1)[of "[]"])
  next
    case False
    with Cons.prems(2) have "find P ys = Some x" by simp
    then obtain as bs where "ys = as @ x # bs" "\<forall>a \<in> set as. \<not> P a" "P x"
      using Cons.IH by blast
    with False Cons.prems(1)[of "y # as" bs] show ?thesis by simp
  qed
qed

lemma find_rev_split:
  assumes "find P (rev xs) = Some x"
  obtains as bs where "xs = as @ x # bs" "\<forall>b \<in> set bs. \<not> P b" "P x"
proof -
  from assms obtain as bs where "rev xs = as @ x # bs" "\<forall>a \<in> set as. \<not> P a" "P x"
    by (rule find_split)
  then have "xs = rev bs @ x # rev as" by (metis append.assoc append_Cons append_Nil rev.simps(2) rev_append rev_rev_ident)
  with \<open>\<forall>a \<in> set as. \<not> P a\<close> \<open>P x\<close> show thesis using that by simp
qed

lemma find_None_all: "find P xs = None \<longleftrightarrow> (\<forall>x \<in> set xs. \<not> P x)"
  by (auto simp: find_None_iff)

lemma sorted_by_append:
  "sorted_by sz (xs @ ys) \<longleftrightarrow> sorted_by sz xs \<and> sorted_by sz ys \<and>
     (\<forall>x \<in> set xs. \<forall>y \<in> set ys. sz x \<le> sz y)"
  by (simp add: sorted_by_def sorted_append)

lemma sorted_by_Cons:
  "sorted_by sz (x # ys) \<longleftrightarrow> sorted_by sz ys \<and> (\<forall>y \<in> set ys. sz x \<le> sz y)"
  by (auto simp: sorted_by_def)

lemma sorted_by_Nil [simp]: "sorted_by sz []"
  by (simp add: sorted_by_def)

text \<open>What every way of placing a block guarantees: the new block is added once and the order by
  size is kept.\<close>

lemma place_before:
  assumes "sorted_by sz bs" and "find (\<lambda>b. sz b \<ge> sz r) bs = Some b" and "distinct bs" and "r \<notin> set bs"
  shows "\<exists>as cs. bs = as @ cs \<and> seq_insert_before b r bs = as @ r # cs \<and>
    sorted_by sz (as @ r # cs)"
proof -
  from assms(2) obtain as cs where s: "bs = as @ b # cs" "\<forall>a \<in> set as. \<not> sz a \<ge> sz r" "sz b \<ge> sz r"
    by (rule find_split)
  then have "seq_insert_before b r bs = as @ r # b # cs" using assms(3) by simp
  moreover have "sorted_by sz (as @ r # b # cs)"
    using s assms(1) by (fastforce simp: sorted_by_append sorted_by_Cons)
  ultimately show ?thesis using s(1) by blast
qed

lemma place_last:
  assumes "sorted_by sz bs" and "find (\<lambda>b. sz b \<ge> sz r) bs = None"
  shows "sorted_by sz (bs @ [r])"
  using assms by (fastforce simp: sorted_by_append sorted_by_Cons find_None_all)

lemma place_after:
  assumes "sorted_by sz bs" and "find (\<lambda>b. sz b \<le> sz r) (rev bs) = Some b" and "distinct bs" and "r \<notin> set bs"
  shows "\<exists>as cs. bs = as @ cs \<and> seq_insert_after b r bs = as @ r # cs \<and>
    sorted_by sz (as @ r # cs)"
proof -
  from assms(2) obtain as cs where s: "bs = as @ b # cs" "\<forall>c \<in> set cs. \<not> sz c \<le> sz r" "sz b \<le> sz r"
    by (rule find_rev_split)
  then have "seq_insert_after b r bs = (as @ [b]) @ r # cs" using assms(3) by simp
  moreover have "sorted_by sz ((as @ [b]) @ r # cs)"
    using s assms(1) by (fastforce simp: sorted_by_append sorted_by_Cons)
  ultimately show ?thesis using s(1) by (metis append.assoc append_Cons append_Nil)
qed

lemma place_first:
  assumes "sorted_by sz bs" and "find (\<lambda>b. sz b \<le> sz r) (rev bs) = None"
  shows "sorted_by sz (r # bs)"
  using assms by (fastforce simp: sorted_by_append sorted_by_Cons find_None_all)

lemma insert_by_size_place:
  assumes "sorted_by sz bs" and "distinct bs" and "r \<notin> set bs"
  obtains as cs where "bs = as @ cs" "insert_by_size sz r bs = as @ r # cs"
    "sorted_by sz (as @ r # cs)"
proof (cases "bs = []")
  case True
  then show ?thesis
    using that[of "[]" "[]"] by (simp add: insert_by_size_def seq_push_back_def sorted_by_Cons)
next
  case ne: False
  show ?thesis
  proof (cases "sz r < pageSize")
    case True
    show ?thesis
    proof (cases "find (\<lambda>b. sz b \<ge> sz r) bs")
      case None
      then have "insert_by_size sz r bs = bs @ r # []"
        using True ne by (simp add: insert_by_size_def seq_push_back_def)
      with place_last[OF assms(1) None] show ?thesis using that[of bs "[]"] by simp
    next
      case (Some b)
      then have "insert_by_size sz r bs = seq_insert_before b r bs"
        using True ne by (simp add: insert_by_size_def)
      with place_before[OF assms(1) Some assms(2,3)] that show ?thesis by metis
    qed
  next
    case False
    show ?thesis
    proof (cases "find (\<lambda>b. sz b \<le> sz r) (rev bs)")
      case None
      then have "insert_by_size sz r bs = [] @ r # bs"
        using False ne by (simp add: insert_by_size_def seq_push_front_def)
      with place_first[OF assms(1) None] show ?thesis using that[of "[]" bs] by simp
    next
      case (Some b)
      then have "insert_by_size sz r bs = seq_insert_after b r bs"
        using False ne by (simp add: insert_by_size_def)
      with place_after[OF assms(1) Some assms(2,3)] that show ?thesis by metis
    qed
  qed
qed

lemma sort_insert_place:
  assumes "sorted_by sz bs" and "distinct bs" and "r \<notin> set bs"
  obtains as cs where "bs = as @ cs" "sort_insert sz bs r = as @ r # cs"
    "sorted_by sz (as @ r # cs)"
proof (cases "find (\<lambda>b. sz b \<ge> sz r) bs")
  case None
  then have "sort_insert sz bs r = bs @ r # []" by (simp add: sort_insert_def seq_push_back_def)
  with place_last[OF assms(1) None] show ?thesis using that[of bs "[]"] by simp
next
  case (Some b)
  then have "sort_insert sz bs r = seq_insert_before b r bs" by (simp add: sort_insert_def)
  with place_before[OF assms(1) Some assms(2,3)] that show ?thesis by metis
qed

lemma sort_blocks:
  assumes "distinct (srt @ bs)" and "sorted_by sz srt"
  shows "distinct (foldl (sort_insert sz) srt bs) \<and> sorted_by sz (foldl (sort_insert sz) srt bs) \<and>
    set (foldl (sort_insert sz) srt bs) = set srt \<union> set bs"
  using assms
proof (induction bs arbitrary: srt)
  case Nil
  then show ?case by simp
next
  case (Cons b bs)
  obtain as cs where s: "srt = as @ cs" "sort_insert sz srt b = as @ b # cs"
    "sorted_by sz (as @ b # cs)"
    using sort_insert_place[of sz srt b] Cons.prems by auto
  have "distinct ((as @ b # cs) @ bs)" using Cons.prems(1) s(1) by auto
  from Cons.IH[OF this s(3)] s show ?case by auto
qed


section \<open>Claiming and taking blocks\<close>

lemma wf_poolD:
  assumes "wf_pool p"
  shows "distinct (availableBlocks p)" "wf_set (set (availableBlocks p)) (bsize p)"
    "sorted_by (bsize p) (availableBlocks p)"
  using assms by (simp_all add: wf_pool_def)

lemma claim_block_correct:
  assumes wf: "wf_pool p" and lt: "r + headerSize + bsize p r < two32"
    and dj: "extent (bsize p) r \<inter> free_bytes p = {}"
  obtains p' where "claim_block r p = Some p'" "wf_pool p'" "bsize p' = bsize p"
    "set (availableBlocks p') = insert r (set (availableBlocks p))"
    "free_bytes p' = extent (bsize p) r \<union> free_bytes p" "used p' = used p"
    "needsCompacting p' = needsCompacting p" "accounted p \<Longrightarrow> accounted p'"
proof -
  let ?B = "set (availableBlocks p)"
  have r: "r \<notin> ?B"
    using dj extent_nonempty[of r] by (auto simp: free_bytes_def bytes_def)
  note W = wf_poolD[OF wf]
  obtain as cs where i: "availableBlocks p = as @ cs"
    "insert_by_size (bsize p) r (availableBlocks p) = as @ r # cs" "sorted_by (bsize p) (as @ r # cs)"
    using insert_by_size_place[OF W(3,1) r] by blast
  define p' where "p' = p\<lparr>available := add32 (available p) (bsize p r), availableBlocks := as @ r # cs\<rparr>"
  have "claim_block r p = Some p'"
    using r i(2) by (simp add: claim_block_def p'_def)
  moreover have set_eq: "set (availableBlocks p') = insert r ?B"
    using i(1) by (auto simp: p'_def)
  moreover have "wf_set (insert r ?B) (bsize p)"
    using W(2) lt dj unfolding wf_set_insert free_bytes_def bytes_def by blast
  then have "wf_pool p'"
    using W(1) r i(1,3) set_eq by (auto simp: wf_pool_def p'_def)
  moreover have "free_bytes p' = extent (bsize p) r \<union> free_bytes p"
    unfolding free_bytes_def set_eq bytes_insert by (simp add: p'_def)
  moreover have "accounted p'" if "accounted p"
  proof -
    have "available p' = ((\<Sum>b\<leftarrow>availableBlocks p. bsize p b) mod two32 + bsize p r) mod two32"
      using that by (simp add: accounted_def p'_def add32_def)
    also have "\<dots> = (\<Sum>b\<leftarrow>as @ r # cs. bsize p b) mod two32"
      by (simp add: i(1) mod_simps ac_simps)
    finally show ?thesis by (simp add: accounted_def p'_def)
  qed
  ultimately show thesis using that by (simp add: p'_def)
qed

lemma sum_list_remove1_nat:
  "b \<in> set bs \<Longrightarrow> (\<Sum>x\<leftarrow>bs. f x) = f b + (\<Sum>x\<leftarrow>remove1 b bs. (f x :: nat))"
  by (induction bs) auto

lemma mod_sub_add: "(((x + y) mod two32 + (two32 - y mod two32)) mod two32 :: nat) = x mod two32"
proof -
  obtain q r where y: "y = two32 * q + r" "y mod two32 = r" "r < two32"
    by (metis mult_div_mod_eq mod_less_divisor zero_less_numeral)
  then have "x + y + (two32 - y mod two32) = x + two32 * (q + 1)" by simp
  moreover have "((x + y) mod two32 + (two32 - y mod two32)) mod two32 =
      (x + y + (two32 - y mod two32)) mod two32" by (rule mod_add_left_eq)
  ultimately show ?thesis by (simp only: mod_mult_self2)
qed

lemma take_block_correct:
  assumes wf: "wf_pool p" and b: "block \<in> set (availableBlocks p)" and ge: "req \<le> bsize p block"
  obtains addr p' where "take_block al req block p = Some (addr, p')" "addr = block + headerSize"
    "wf_pool p'" "req \<le> bsize p' block" "block + headerSize + bsize p' block < two32"
    "extent (bsize p') block \<inter> free_bytes p' = {}"
    "extent (bsize p') block \<union> free_bytes p' = free_bytes p"
    "used p' = add32 (used p) (bsize p' block)" "accounted p \<Longrightarrow> accounted p'"
    "\<And>x. x \<notin> free_bytes p \<Longrightarrow> bsize p' x = bsize p x"
proof -
  note W = wf_poolD[OF wf]
  let ?B = "set (availableBlocks p)" and ?sz = "bsize p"
  have lt: "block + headerSize + ?sz block < two32" by (rule wf_setD(1)[OF W(2) b])
  have lt': "?sz block < two32" "block + headerSize < two32" using lt by auto
  define p1 where "p1 = p\<lparr>availableBlocks := seq_pop block (availableBlocks p),
      available := sub32 (available p) (?sz block)\<rparr>"
  have set1: "set (availableBlocks p1) = ?B - {block}"
    using W(1) by (simp add: p1_def seq_pop_def)
  have dist1: "distinct (availableBlocks p1)"
    using W(1) by (simp add: p1_def seq_pop_def)
  have wf1: "wf_pool p1"
    using W(3) dist1 wf_set_subset[OF W(2), of "?B - {block}"] set1
    by (simp add: wf_pool_def p1_def seq_pop_def sorted_by_def sorted_map_remove1)
  have free1: "extent ?sz block \<inter> free_bytes p1 = {}" "extent ?sz block \<union> free_bytes p1 = free_bytes p"
    using b wf_setD(2)[OF W(2) b] unfolding free_bytes_def set1 bytes_def by (auto simp: p1_def)
  have acc1: "available p1 = (\<Sum>x\<leftarrow>availableBlocks p1. ?sz x) mod two32" if "accounted p"
  proof -
    have "available p1 = sub32 ((\<Sum>x\<leftarrow>availableBlocks p. ?sz x) mod two32) (?sz block)"
      using that by (simp add: accounted_def p1_def)
    also have "\<dots> = sub32 (((\<Sum>x\<leftarrow>availableBlocks p1. ?sz x) + ?sz block) mod two32) (?sz block)"
      using sum_list_remove1_nat[OF b, of ?sz] by (simp add: p1_def seq_pop_def add.commute)
    finally show ?thesis unfolding sub32_def mod_sub_add .
  qed
  have rem: "sub32 (bsize p1 block) req = ?sz block - req"
    using ge lt' by (simp add: p1_def sub32_exact)
  have addr: "add32 block headerSize = block + headerSize" using lt' by (simp add: add32_exact)
  show thesis
  proof (cases "headerSize < ?sz block - req \<and> al \<le> ?sz block - req")
    case False
    have t: "take_block al req block p = Some (block + headerSize, p1\<lparr>used := add32 (used p1) (bsize p1 block)\<rparr>)"
      using False rem addr unfolding take_block_def by (auto simp: p1_def[symmetric] Let_def)
    show thesis
      by (rule that[OF t refl])
         (use wf1 lt ge free1 acc1 in \<open>simp_all add: wf_pool_def free_bytes_def accounted_def p1_def\<close>)
  next
    case True
    let ?slot = "block + headerSize + req"
    have sl: "add32 (add32 block headerSize) req = ?slot"
      using lt ge addr by (simp add: add32_exact)
    have ns: "sub32 (?sz block - req) headerSize = ?sz block - req - headerSize"
      using True lt' by (intro sub32_exact) auto
    define p3 where "p3 = new_block ?slot (?sz block - req) (p1\<lparr>bsize := (bsize p1)(block := req)\<rparr>)"
    have slot_in: "?slot \<in> extent ?sz block" using True by (auto simp: extent_def)
    have B1: "bsize p3 x = ?sz x" if "x \<in> ?B - {block}" for x
    proof -
      have "x \<noteq> ?slot" using that wf_setD(2)[OF W(2), of x block] b slot_in extent_nonempty[of x ?sz]
        by blast
      with that show ?thesis by (simp add: p3_def new_block_def p1_def)
    qed
    have sz3: "bsize p3 block = req" "bsize p3 ?slot = ?sz block - req - headerSize"
      using ns by (auto simp: p3_def new_block_def p1_def)
    have blocks3: "availableBlocks p3 = availableBlocks p1" "used p3 = used p"
      "needsCompacting p3 = needsCompacting p" "available p3 = available p1"
      by (simp_all add: p3_def new_block_def p1_def)
    have map3: "map (bsize p3) (availableBlocks p1) = map ?sz (availableBlocks p1)"
      using B1 set1 by (intro map_cong) auto
    then have sort3: "sorted_by (bsize p3) (availableBlocks p1)"
      using wf1 unfolding sorted_by_def by (simp only: wf_pool_def sorted_by_def) (simp add: p1_def)
    have "wf_set (?B - {block}) (bsize p3) = wf_set (?B - {block}) ?sz"
      by (rule wf_set_cong) (rule B1)
    then have wf3: "wf_pool p3"
      using dist1 wf_set_subset[OF W(2), of "?B - {block}"] sort3 unfolding wf_pool_def blocks3 set1
      by simp
    have free3: "free_bytes p3 = free_bytes p1"
      unfolding free_bytes_def blocks3 set1 by (subst bytes_cong[OF B1]) (simp_all add: p1_def)
    have split: "extent (bsize p3) ?slot \<union> extent (bsize p3) block = extent ?sz block"
      "extent (bsize p3) ?slot \<inter> extent (bsize p3) block = {}"
      using True unfolding extent_def sz3 by auto
    have slot_dj: "extent (bsize p3) ?slot \<inter> free_bytes p3 = {}"
      using free1(1) split(1) unfolding free3 by blast
    have slot_lt: "?slot + headerSize + bsize p3 ?slot < two32"
      using True lt unfolding sz3 by auto
    from claim_block_correct[OF wf3 slot_lt slot_dj] obtain p4 where p4:
      "claim_block ?slot p3 = Some p4" "wf_pool p4" "bsize p4 = bsize p3"
      "free_bytes p4 = extent (bsize p3) ?slot \<union> free_bytes p3" "used p4 = used p3"
      "accounted p3 \<Longrightarrow> accounted p4" by metis
    have t: "take_block al req block p = Some (block + headerSize, p4\<lparr>used := add32 (used p4) (bsize p4 block)\<rparr>)"
      using True rem addr sl p4(1) unfolding take_block_def
      by (simp add: p1_def[symmetric] Let_def p3_def)
    have acc: "accounted p4" if "accounted p"
      using acc1[OF that] by (intro p4(6)) (simp only: accounted_def blocks3 map3)
    have frame: "bsize p4 x = bsize p x" if "x \<notin> free_bytes p" for x
    proof -
      have "block \<in> free_bytes p" "?slot \<in> free_bytes p"
        using b slot_in extent_nonempty by (auto simp: free_bytes_def bytes_def)
      with that have "x \<noteq> block" "x \<noteq> ?slot" by blast+
      then show ?thesis unfolding p4(3) by (simp add: p3_def new_block_def p1_def)
    qed
    have dj: "extent (bsize p4) block \<inter> free_bytes p4 = {}"
      using split free1(1) unfolding p4(3,4) free3 by blast
    have un: "extent (bsize p4) block \<union> free_bytes p4 = free_bytes p"
      using split(1) free1(2) unfolding p4(3,4) free3 by blast
    show thesis
      by (rule that[OF t refl])
         (use p4(2,3,5) sz3 lt ge dj un acc blocks3 frame in
           \<open>simp_all add: wf_pool_def free_bytes_def accounted_def\<close>)
  qed
qed

section \<open>Searching\<close>

lemma search_back_first_fit:
  "sorted_by sz bs \<Longrightarrow> search_back sz req (rev bs) = find (\<lambda>b. sz b \<ge> req) bs"
proof (induction bs rule: rev_induct)
  case Nil
  then show ?case by simp
next
  case (snoc b bs)
  then have IH: "search_back sz req (rev bs) = find (\<lambda>b. sz b \<ge> req) bs"
    and le: "\<forall>x \<in> set bs. sz x \<le> sz b" and srt: "sorted_by sz bs"
    by (auto simp: sorted_by_append)
  show ?case
  proof (cases bs rule: rev_cases)
    case Nil
    then show ?thesis by simp
  next
    case (snoc cs c)
    with srt have "\<forall>x \<in> set bs. sz x \<le> sz c" by (auto simp: sorted_by_append)
    then show ?thesis
      using IH le snoc
      by (fastforce simp: find_append find_None_all split: option.splits dest: find_SomeD)
  qed
qed

lemma search_block_Some:
  assumes "search_block p req = Some b"
  shows "b \<in> set (availableBlocks p)" "req \<le> bsize p b"
proof -
  have sback: "search_back sz req bs = Some b \<Longrightarrow> b \<in> set bs \<and> req \<le> sz b" for sz bs
    by (induction bs) (auto split: if_splits)
  from assms have "b \<in> set (availableBlocks p) \<and> req \<le> bsize p b"
    by (auto simp: search_block_def split: if_splits dest: find_SomeD sback)
  then show "b \<in> set (availableBlocks p)" "req \<le> bsize p b" by simp_all
qed

lemma search_block_first_fit:
  assumes "wf_pool p"
  shows "search_block p req = find (\<lambda>b. bsize p b \<ge> req) (availableBlocks p)"
  by (simp add: search_block_def search_back_first_fit[OF wf_poolD(3)[OF assms]])

section \<open>Compaction keeps the pool\<close>

lemma merge_pass_frame:
  "merge_pass vis cur rest sz = (bs', sz') \<Longrightarrow> distinct (vis @ cur # rest) \<Longrightarrow>
    wf_set (set (vis @ cur # rest)) sz \<Longrightarrow> x \<notin> set (cur # rest) \<Longrightarrow> sz' x = sz x"
proof (induction vis cur rest sz rule: merge_pass.induct)
  case (1 vis cur rest sz)
  obtain vis1 rest1 sz1 where a: "absorb cur vis rest sz = (vis1, rest1, sz1)"
    by (metis prod_cases3)
  note A = absorb_correct[OF a "1.prems"(2,3)]
  have x: "sz1 x = sz x" using "1.prems"(4) by (intro A(7)) auto
  show ?case
  proof (cases rest1)
    case Nil
    with "1.prems"(1) a x show ?thesis by (simp add: merge_pass.simps[of vis])
  next
    case (Cons n ns)
    have m: "merge_pass (vis1 @ [cur]) n ns sz1 = (bs', sz')"
      using "1.prems"(1) a Cons by (simp add: merge_pass.simps[of vis])
    have eq: "(vis1 @ [cur]) @ n # ns = vis1 @ cur # rest1" using Cons by simp
    from "1.IH"[OF a[symmetric] refl Cons m, unfolded eq, OF A(1,2)]
    show ?thesis using A(6) "1.prems"(4) Cons x by auto
  qed
qed

lemma compact_correct:
  assumes wf: "wf_pool p"
  obtains p' where "compact p = (False, p')" "wf_pool p'" "free_bytes p' = free_bytes p"
    "\<forall>a \<in> set (availableBlocks p'). \<forall>b \<in> set (availableBlocks p'). b \<noteq> block_end (bsize p') a"
    "used p' = used p" "available p' = available p" "\<not> needsCompacting p'"
    "set (availableBlocks p') \<subseteq> set (availableBlocks p)"
    "\<And>x. x \<notin> free_bytes p \<Longrightarrow> bsize p' x = bsize p x"
proof -
  note W = wf_poolD[OF wf]
  obtain bs sz where m: "merge_adjacent (availableBlocks p) (bsize p) = (bs, sz)" by fastforce
  note M = merge_adjacent_correct[OF m W(1,2)]
  let ?bs = "foldl (sort_insert sz) [] bs"
  define p' where "p' = p\<lparr>availableBlocks := ?bs, bsize := sz, needsCompacting := False\<rparr>"
  have S: "distinct ?bs" "sorted_by sz ?bs" "set ?bs = set bs"
    using sort_blocks[of "[]" bs sz] M(1) by simp_all
  have "compact p = (False, p')" by (simp add: compact_def m p'_def)
  moreover have "wf_pool p'" using S M(2) by (simp add: wf_pool_def p'_def)
  moreover have "free_bytes p' = free_bytes p"
    using M(3) S(3) by (simp add: free_bytes_def p'_def)
  moreover have "\<forall>a \<in> set bs. \<forall>b \<in> set bs. b \<noteq> block_end sz a"
  proof (intro ballI notI)
    fix a b assume ab: "a \<in> set bs" "b \<in> set bs" "b = block_end sz a"
    have "a + headerSize + sz a < two32" using wf_setD(1)[OF M(2) ab(1)] .
    then have "b \<noteq> a" using ab(3) by (simp add: block_end_exact)
    with M(4) ab show False by (auto simp: neighbour_iff split: if_splits)
  qed
  moreover have "sz x = bsize p x" if "x \<notin> free_bytes p" for x
  proof (cases "availableBlocks p")
    case Nil
    with m show ?thesis by (simp add: merge_adjacent_def)
  next
    case (Cons b rest)
    have "x \<notin> set (availableBlocks p)"
      using that extent_nonempty by (auto simp: free_bytes_def bytes_def)
    with merge_pass_frame[of "[]" b rest "bsize p" bs sz x] m W(1,2) Cons show ?thesis
      by (simp add: merge_adjacent_def)
  qed
  ultimately show thesis using that[of p'] S(3) M(5) by (simp add: p'_def)
qed

end
