(* ===== verification/Heap.thy ===== *)
theory Heap
  imports Pool
begin

text \<open>
  The contract of the allocator: what \<^verbatim>\<open>malloc\<close> and \<^verbatim>\<open>free\<close> of \<^verbatim>\<open>common/MemoryPool.hpp\<close> promise to
  the kernel. The interface is the locale \<open>block_allocator\<close> (allocation hands out pairwise disjoint
  footprints and a released block may be reused); theory Pool's model is an interpretation of it,
  with the heap invariant \<open>heap_inv\<close>: the bytes of the free blocks and of the live blocks partition
  the memory the pool was given.
\<close>

section \<open>One allocation\<close>

definition malloc_post :: "nat \<Rightarrow> pool \<Rightarrow> nat option \<Rightarrow> pool \<Rightarrow> bool" where
  "malloc_post req p r p' \<longleftrightarrow> wf_pool p' \<and>
     (\<forall>x. x \<notin> free_bytes p \<longrightarrow> bsize p' x = bsize p x) \<and>
     (case r of
        None \<Rightarrow> free_bytes p' = free_bytes p \<and> used p' = used p \<and>
          (\<forall>b \<in> set (availableBlocks p). bsize p b < req)
      | Some a \<Rightarrow> headerSize \<le> a \<and> req \<le> bsize p' (get_block a) \<and>
          a + bsize p' (get_block a) < two32 \<and>
          extent (bsize p') (get_block a) \<inter> free_bytes p' = {} \<and>
          extent (bsize p') (get_block a) \<union> free_bytes p' = free_bytes p \<and>
          used p' = add32 (used p) (bsize p' (get_block a)))"

lemma get_block_add: "b + headerSize < two32 \<Longrightarrow> get_block (b + headerSize) = b"
  by (simp add: get_block_def sub32_exact)

lemma malloc_found:
  assumes "search_block p (align sz al) = Some b" and "wf_pool p"
  shows "\<exists>a p'. malloc al sz p = Some (Some a, p') \<and> malloc_post (align sz al) p (Some a) p'"
proof -
  from take_block_correct[OF assms(2) search_block_Some[OF assms(1)]] obtain addr p' where t:
    "take_block al (align sz al) b p = Some (addr, p')" "addr = b + headerSize"
    "wf_pool p'" "align sz al \<le> bsize p' b" "b + headerSize + bsize p' b < two32"
    "extent (bsize p') b \<inter> free_bytes p' = {}"
    "extent (bsize p') b \<union> free_bytes p' = free_bytes p"
    "used p' = add32 (used p) (bsize p' b)"
    "\<And>x. x \<notin> free_bytes p \<Longrightarrow> bsize p' x = bsize p x" by metis
  from t(5) have g: "get_block (b + headerSize) = b" by (intro get_block_add) linarith
  have "malloc al sz p = Some (Some addr, p')"
    using assms(1) t(1) by (subst malloc.simps) simp
  moreover have "malloc_post (align sz al) p (Some addr) p'"
    using t(2-9) g by (simp add: malloc_post_def)
  ultimately show ?thesis by blast
qed

lemma malloc_not_found:
  assumes "search_block p (align sz al) = None" and "wf_pool p"
  shows "\<exists>p'. malloc al sz p = Some (None, p') \<and> malloc_post (align sz al) p None p'"
proof -
  have small: "\<forall>b \<in> set (availableBlocks p). bsize p b < align sz al"
    using assms by (auto simp: search_block_first_fit find_None_iff)
  obtain p' where c: "compact p = (False, p')" "wf_pool p'" "free_bytes p' = free_bytes p"
    "used p' = used p" "\<And>x. x \<notin> free_bytes p \<Longrightarrow> bsize p' x = bsize p x"
    using compact_correct[OF assms(2)] by metis
  show ?thesis
  proof (cases "needsCompacting p \<and> available p \<ge> align sz al")
    case True
    then have "malloc al sz p = Some (None, p')"
      using assms(1) c(1) by (subst malloc.simps) simp
    with c small show ?thesis by (auto simp: malloc_post_def)
  next
    case False
    then have "malloc al sz p = Some (None, p)"
      using assms(1) by (subst malloc.simps) auto
    with small assms(2) show ?thesis by (auto simp: malloc_post_def)
  qed
qed

lemma malloc_total:
  assumes "wf_pool p"
  obtains r p' where "malloc al sz p = Some (r, p')" "malloc_post (align sz al) p r p'"
  using malloc_found[of p sz al] malloc_not_found[of p sz al] assms
  by (cases "search_block p (align sz al)") blast+

lemma align_correct:
  assumes "0 < al" and "x + al \<le> two32"
  shows "x \<le> align x al" "align x al mod al = 0" "align x al < x + al"
proof -
  have "x mod al < al" using assms(1) by simp
  then have e: "align x al = x + (if x mod al \<noteq> 0 then al - x mod al else 0)"
    using assms(2) by (simp add: align_def add32_exact)
  show "x \<le> align x al" "align x al < x + al"
    using e \<open>x mod al < al\<close> by auto
  show "align x al mod al = 0"
  proof (cases "x mod al = 0")
    case True
    then show ?thesis using e by simp
  next
    case False
    have "x + (al - x mod al) = al * (x div al) + al"
      using mult_div_mod_eq[of al x] \<open>x mod al < al\<close> by linarith
    with e False show ?thesis by simp
  qed
qed

text \<open>C2. \<^verbatim>\<open>MemoryPool::malloc\<close> always returns. Rounding the request up to the alignment never shrinks
  it; when some free block is large enough the result is a block that lies inside the free bytes,
  has at least the requested size, is taken out of the free bytes exactly, and is added to
  \<^verbatim>\<open>used\<close>; null is returned only when no free block is large enough, and then no free byte is lost.\<close>

theorem malloc_correct:
  assumes "wf_pool p" and "0 < al" and "sz + al \<le> two32"
  shows "\<exists>r p'. malloc al sz p = Some (r, p') \<and> malloc_post (align sz al) p r p' \<and>
    sz \<le> align sz al \<and> align sz al mod al = 0"
  using malloc_total[OF assms(1), of al sz] align_correct[OF assms(2,3)] by metis

lemma wf_init_pool:
  "headerSize \<le> sz \<Longrightarrow> a + sz < two32 \<Longrightarrow> wf_pool (init_pool (Some a) sz mem)"
  by (auto simp: init_pool_def wf_pool_def wf_set_def sorted_by_def new_block_def seq_push_back_def
      Let_def sub32_exact headerSize_def)

theorem malloc_correct_witness:
  "\<exists>r p'. malloc 4 30 (init_pool (Some 1024) 512 (\<lambda>_. 0)) = Some (r, p') \<and>
    malloc_post (align 30 4) (init_pool (Some 1024) 512 (\<lambda>_. 0)) r p' \<and>
    30 \<le> align 30 4 \<and> align 30 4 mod 4 = 0"
  by (rule malloc_correct) (simp_all add: wf_init_pool headerSize_def)

section \<open>The interface\<close>

text \<open>\<open>inv s live\<close>: state \<open>s\<close> is sound and \<open>live\<close> are the addresses handed out and not yet released.\<close>

locale block_allocator =
  fixes inv :: "'s \<Rightarrow> nat list \<Rightarrow> bool"
    and footprint :: "'s \<Rightarrow> nat \<Rightarrow> nat set"
    and alloc :: "nat \<Rightarrow> 's \<Rightarrow> (nat option \<times> 's) option"
    and release :: "nat \<Rightarrow> 's \<Rightarrow> 's option"
  assumes alloc_inv: "inv s live \<Longrightarrow>
      \<exists>r s'. alloc n s = Some (r, s') \<and> inv s' (case r of None \<Rightarrow> live | Some a \<Rightarrow> a # live)"
    and alloc_keeps: "inv s live \<Longrightarrow> alloc n s = Some (r, s') \<Longrightarrow> a \<in> set live \<Longrightarrow>
      footprint s' a = footprint s a"
    and release_inv: "inv s live \<Longrightarrow> a \<in> set live \<Longrightarrow>
      \<exists>s'. release a s = Some s' \<and> inv s' (remove1 a live)"
    and release_keeps: "inv s live \<Longrightarrow> release a s = Some s' \<Longrightarrow> footprint s' = footprint s"
    and live_distinct: "inv s live \<Longrightarrow> distinct live"
    and disjoint: "inv s live \<Longrightarrow> a \<in> set live \<Longrightarrow> b \<in> set live \<Longrightarrow> a \<noteq> b \<Longrightarrow>
      footprint s a \<inter> footprint s b = {}"

text \<open>A client: it allocates, and it releases the \<open>k\<close>-th of the blocks it holds.\<close>

datatype heap_op = Malloc nat | Free nat

fun client_step :: "(nat \<Rightarrow> 's \<Rightarrow> (nat option \<times> 's) option) \<Rightarrow> (nat \<Rightarrow> 's \<Rightarrow> 's option) \<Rightarrow>
    's \<times> nat list \<Rightarrow> heap_op \<Rightarrow> ('s \<times> nat list) option" where
  "client_step alloc release (s, live) (Malloc n) =
     (case alloc n s of
        None \<Rightarrow> None
      | Some (None, s') \<Rightarrow> Some (s', live)
      | Some (Some a, s') \<Rightarrow> Some (s', a # live))"
| "client_step alloc release (s, live) (Free k) =
     (if k < length live then
        (case release (live ! k) s of
           None \<Rightarrow> None
         | Some s' \<Rightarrow> Some (s', remove1 (live ! k) live))
      else Some (s, live))"

fun client_run :: "(nat \<Rightarrow> 's \<Rightarrow> (nat option \<times> 's) option) \<Rightarrow> (nat \<Rightarrow> 's \<Rightarrow> 's option) \<Rightarrow>
    's \<times> nat list \<Rightarrow> heap_op list \<Rightarrow> ('s \<times> nat list) option" where
  "client_run alloc release c [] = Some c"
| "client_run alloc release c (p # ps) =
     (case client_step alloc release c p of
        None \<Rightarrow> None
      | Some c' \<Rightarrow> client_run alloc release c' ps)"

context block_allocator begin

lemma client_step_inv:
  assumes "inv s live"
  shows "\<exists>s' live'. client_step alloc release (s, live) p = Some (s', live') \<and> inv s' live' \<and>
    (\<forall>a \<in> set live \<inter> set live'. footprint s' a = footprint s a)"
proof (cases p)
  case (Malloc n)
  obtain r s' where a: "alloc n s = Some (r, s')"
    "inv s' (case r of None \<Rightarrow> live | Some a \<Rightarrow> a # live)"
    using alloc_inv[OF assms] by blast
  with alloc_keeps[OF assms a(1)] show ?thesis
    by (cases r) (auto simp: Malloc)
next
  case (Free k)
  show ?thesis
  proof (cases "k < length live")
    case True
    then obtain s' where "release (live ! k) s = Some s'" "inv s' (remove1 (live ! k) live)"
      using release_inv[OF assms nth_mem[OF True]] by blast
    with True release_keeps[OF assms] show ?thesis by (auto simp: Free)
  next
    case False
    with assms show ?thesis by (auto simp: Free)
  qed
qed

lemma client_run_inv:
  "inv s live \<Longrightarrow> \<exists>s' live'. client_run alloc release (s, live) ps = Some (s', live') \<and> inv s' live'"
proof (induction ps arbitrary: s live)
  case Nil
  then show ?case by simp
next
  case (Cons p ps)
  from client_step_inv[OF Cons.prems, of p] obtain s1 live1
    where "client_step alloc release (s, live) p = Some (s1, live1)" "inv s1 live1" by blast
  with Cons.IH[OF this(2)] show ?case by simp
qed

lemma client_run_disjoint:
  assumes "inv s live" and "client_run alloc release (s, live) ps = Some (s', live')"
    and "i < length live'" and "j < length live'" and "i \<noteq> j"
  shows "footprint s' (live' ! i) \<inter> footprint s' (live' ! j) = {}"
proof -
  have inv: "inv s' live'" using client_run_inv[OF assms(1), of ps] assms(2) by auto
  moreover have "live' ! i \<noteq> live' ! j"
    using live_distinct[OF inv] assms(3-5) by (simp add: nth_eq_iff_index_eq)
  ultimately show ?thesis using assms(3,4) by (intro disjoint) auto
qed

end

section \<open>The pool provides it\<close>

definition footprint_of :: "pool \<Rightarrow> nat \<Rightarrow> nat set" where
  "footprint_of p a = extent (bsize p) (get_block a)"

definition live_used :: "pool \<Rightarrow> nat list \<Rightarrow> nat" where
  "live_used p live = (\<Sum>a\<leftarrow>live. bsize p (get_block a)) mod two32"

definition heap_inv :: "nat set \<Rightarrow> pool \<Rightarrow> nat list \<Rightarrow> bool" where
  "heap_inv H p live \<longleftrightarrow> wf_pool p \<and> distinct live \<and>
     (\<forall>a \<in> set live. headerSize \<le> a \<and> a + bsize p (get_block a) < two32) \<and>
     (\<forall>a \<in> set live. \<forall>b \<in> set live. a \<noteq> b \<longrightarrow> footprint_of p a \<inter> footprint_of p b = {}) \<and>
     (\<forall>a \<in> set live. footprint_of p a \<inter> free_bytes p = {}) \<and>
     (\<Union>a \<in> set live. footprint_of p a) \<union> free_bytes p = H \<and>
     used p = live_used p live"

lemma footprint_cong: "bsize p' (get_block a) = bsize p (get_block a) \<Longrightarrow>
    footprint_of p' a = footprint_of p a"
  by (simp add: footprint_of_def extent_def)

lemma footprint_start: "get_block a \<in> footprint_of p a"
  by (simp add: footprint_of_def extent_nonempty)

lemma live_used_cong: "(\<And>a. a \<in> set live \<Longrightarrow> bsize p' (get_block a) = bsize p (get_block a)) \<Longrightarrow>
    live_used p' live = live_used p live"
  unfolding live_used_def by (rule arg_cong[where f = "\<lambda>xs. sum_list xs mod two32"]) (rule map_cong; simp)

lemma heap_inv_keeps_header:
  assumes "heap_inv H p live" and "malloc_post req p r p'" and "a \<in> set live"
  shows "bsize p' (get_block a) = bsize p (get_block a)"
proof -
  have "footprint_of p a \<inter> free_bytes p = {}" using assms(1,3) by (simp add: heap_inv_def)
  with footprint_start[of a p] have "get_block a \<notin> free_bytes p" by blast
  with assms(2) show ?thesis by (simp add: malloc_post_def)
qed

lemma heap_inv_malloc_None:
  assumes "heap_inv H p live" and "malloc_post req p None p'"
  shows "heap_inv H p' live"
proof -
  have k: "bsize p' (get_block a) = bsize p (get_block a)" if "a \<in> set live" for a
    by (rule heap_inv_keeps_header[OF assms that])
  note [simp] = footprint_cong[OF k] live_used_cong[OF k]
  from assms show ?thesis by (simp add: heap_inv_def malloc_post_def k)
qed

lemma heap_inv_malloc_Some:
  assumes inv: "heap_inv H p live" and post: "malloc_post req p (Some x) p'"
  shows "heap_inv H p' (x # live)"
proof -
  have k: "bsize p' (get_block a) = bsize p (get_block a)" if "a \<in> set live" for a
    by (rule heap_inv_keeps_header[OF assms that])
  have f: "footprint_of p' a = footprint_of p a" if "a \<in> set live" for a
    by (rule footprint_cong) (rule k[OF that])
  have P: "wf_pool p'" "headerSize \<le> x" "x + bsize p' (get_block x) < two32"
    "footprint_of p' x \<inter> free_bytes p' = {}" "footprint_of p' x \<union> free_bytes p' = free_bytes p"
    "used p' = add32 (used p) (bsize p' (get_block x))"
    using post by (simp_all add: malloc_post_def footprint_of_def)
  have I: "distinct live" "\<And>a. a \<in> set live \<Longrightarrow> footprint_of p a \<inter> free_bytes p = {}"
    "(\<Union>a \<in> set live. footprint_of p a) \<union> free_bytes p = H" "used p = live_used p live"
    using inv by (simp_all add: heap_inv_def)
  have x: "x \<notin> set live"
    using I(2)[of x] P(5) f[of x] footprint_start[of x p] by blast
  have new: "footprint_of p' x \<inter> footprint_of p' a = {}" if "a \<in> set live" for a
    using I(2)[OF that] P(5) f[OF that] by blast
  have map_k: "map (\<lambda>a. bsize p' (get_block a)) live = map (\<lambda>a. bsize p (get_block a)) live"
    using k by simp
  have "used p' = live_used p' (x # live)"
    using P(6) I(4) by (simp add: live_used_def map_k add32_def mod_simps ac_simps)
  moreover have "(\<Union>a \<in> set (x # live). footprint_of p' a) \<union> free_bytes p' = H"
    using I(3) P(5) f by auto
  moreover have "\<forall>a \<in> set live. footprint_of p' a \<inter> free_bytes p' = {}"
    using I(2) P(5) f by blast
  moreover have "\<forall>a \<in> set (x # live). \<forall>b \<in> set (x # live). a \<noteq> b \<longrightarrow>
      footprint_of p' a \<inter> footprint_of p' b = {}"
    using inv new f by (auto simp: heap_inv_def)
  ultimately show ?thesis
    using P(1-4) x I(1) inv k unfolding heap_inv_def by simp
qed

lemma heap_inv_free:
  assumes inv: "heap_inv H p live" and a: "a \<in> set live"
  shows "\<exists>p'. free a p = Some p' \<and> heap_inv H p' (remove1 a live) \<and> bsize p' = bsize p \<and>
    free_bytes p' = footprint_of p a \<union> free_bytes p"
proof -
  let ?b = "get_block a"
  have I: "wf_pool p" "distinct live" "headerSize \<le> a" "a + bsize p ?b < two32"
    "\<And>x. x \<in> set live \<Longrightarrow> footprint_of p x \<inter> free_bytes p = {}"
    "(\<Union>a \<in> set live. footprint_of p a) \<union> free_bytes p = H" "used p = live_used p live"
    "\<And>x y. x \<in> set live \<Longrightarrow> y \<in> set live \<Longrightarrow> x \<noteq> y \<Longrightarrow> footprint_of p x \<inter> footprint_of p y = {}"
    using inv a by (simp_all add: heap_inv_def)
  have b: "?b + headerSize = a" using I(3,4) by (simp add: get_block_def sub32_exact)
  with I(4) have lt: "?b + headerSize + bsize p ?b < two32" by simp
  have dj: "extent (bsize p) ?b \<inter> free_bytes p = {}"
    using I(5)[OF a] by (simp add: footprint_of_def)
  from claim_block_correct[OF I(1) lt dj] obtain p1 where p1: "claim_block ?b p = Some p1"
    "wf_pool p1" "bsize p1 = bsize p" "free_bytes p1 = extent (bsize p) ?b \<union> free_bytes p"
    "used p1 = used p" by metis
  define p' where "p' = p1\<lparr>used := sub32 (used p1) (bsize p ?b), needsCompacting := True\<rparr>"
  have f: "free a p = Some p'" using p1(1) by (simp add: free_def Let_def p'_def)
  have s: "bsize p' = bsize p" "footprint_of p' = footprint_of p"
    using p1(3) by (simp_all add: p'_def footprint_of_def[abs_def])
  have fb: "free_bytes p' = footprint_of p a \<union> free_bytes p"
    using p1(4) by (simp add: p'_def free_bytes_def footprint_of_def)
  have "used p' = live_used p' (remove1 a live)"
    using I(7) sum_list_remove1_nat[OF a, of "\<lambda>x. bsize p (get_block x)"] p1(5) s(1)
      mod_sub_add[of "\<Sum>x\<leftarrow>remove1 a live. bsize p (get_block x)" "bsize p ?b"]
    by (simp add: p'_def live_used_def sub32_def add.commute)
  moreover have "(\<Union>x \<in> set live - {a}. footprint_of p x) \<union> free_bytes p' = H"
    using I(6) fb a by blast
  moreover have "wf_pool p'" using p1(2) by (simp add: p'_def wf_pool_def)
  moreover have "\<forall>x \<in> set live - {a}. footprint_of p x \<inter> free_bytes p' = {}"
    using I(5) I(8)[OF _ a] fb by blast
  ultimately have "heap_inv H p' (remove1 a live)"
    using inv I(2) by (simp add: heap_inv_def s)
  with f s fb show ?thesis by blast
qed

interpretation kheap: block_allocator "heap_inv H" footprint_of "malloc al" free
proof
  fix p live n
  assume inv: "heap_inv H p live"
  then have "wf_pool p" by (simp add: heap_inv_def)
  from malloc_total[OF this] obtain r p' where m: "malloc al n p = Some (r, p')"
    "malloc_post (align n al) p r p'" .
  show "\<exists>r s'. malloc al n p = Some (r, s') \<and>
      heap_inv H s' (case r of None \<Rightarrow> live | Some a \<Rightarrow> a # live)"
    using m inv heap_inv_malloc_None heap_inv_malloc_Some by (cases r) auto
next
  fix p live n r p' a
  assume inv: "heap_inv H p live" and m: "malloc al n p = Some (r, p')" and a: "a \<in> set live"
  from inv have "wf_pool p" by (simp add: heap_inv_def)
  from malloc_total[OF this, of al n] m have "malloc_post (align n al) p r p'" by force
  then show "footprint_of p' a = footprint_of p a"
    by (intro footprint_cong heap_inv_keeps_header[OF inv _ a])
next
  fix p live a
  assume "heap_inv H p live" and "a \<in> set live"
  then show "\<exists>p'. free a p = Some p' \<and> heap_inv H p' (remove1 a live)"
    using heap_inv_free by blast
next
  fix p :: pool and a p'
  assume "free a p = Some p'"
  then show "footprint_of p' = footprint_of p"
    by (auto simp: free_def claim_block_def Let_def footprint_of_def fun_eq_iff split: if_splits)
qed (auto simp: heap_inv_def)

lemma heap_inv_init:
  assumes "headerSize \<le> sz" and "a + sz < two32"
  shows "heap_inv {a ..< a + sz} (init_pool (Some a) sz mem) []"
proof -
  have "free_bytes (init_pool (Some a) sz mem) = {a ..< a + sz}"
    using assms by (auto simp: free_bytes_def bytes_def extent_def init_pool_def new_block_def
        seq_push_back_def Let_def sub32_exact)
  with wf_init_pool[OF assms] show ?thesis
    by (simp add: heap_inv_def live_used_def) (simp add: init_pool_def Let_def new_block_def)
qed

text \<open>C1. Memory safety of the heap: however a client mixes \<^verbatim>\<open>malloc\<close> calls of any sizes with frees of
  blocks it holds, starting from a freshly constructed pool over \<^verbatim>\<open>sz\<close> bytes, every call returns (no
  assertion fails, nothing wraps), free and live bytes partition the pool's memory, \<^verbatim>\<open>used\<close> is the sum of
  the live sizes, and the headers and data of any two live blocks are disjoint.\<close>

theorem heap_run_safe:
  assumes "headerSize \<le> sz" and "a + sz < two32"
  shows "\<exists>p live. client_run (malloc al) free (init_pool (Some a) sz mem, []) ops = Some (p, live) \<and>
    heap_inv {a ..< a + sz} p live \<and>
    (\<forall>i < length live. \<forall>j < length live. i \<noteq> j \<longrightarrow>
      footprint_of p (live ! i) \<inter> footprint_of p (live ! j) = {})"
proof -
  note init = heap_inv_init[OF assms, of mem]
  from kheap.client_run_inv[OF init, of al ops] kheap.client_run_disjoint[OF init, of al ops]
  show ?thesis by blast
qed

theorem heap_run_safe_witness:
  "\<exists>p live. client_run (malloc 4) free (init_pool (Some 1024) 512 (\<lambda>_. 0), [])
      [Malloc 30, Malloc 50, Free 1, Malloc 8] = Some (p, live) \<and>
    heap_inv {1024 ..< 1024 + 512} p live \<and>
    (\<forall>i < length live. \<forall>j < length live. i \<noteq> j \<longrightarrow>
      footprint_of p (live ! i) \<inter> footprint_of p (live ! j) = {})"
  by (rule heap_run_safe) (simp_all add: headerSize_def)

text \<open>C3. Freeing a block right after allocating it gives the free bytes and the \<^verbatim>\<open>used\<close> count back, keeps
  every other live block, and marks the pool as needing compaction.\<close>

theorem malloc_free_roundtrip:
  assumes "heap_inv H p live" and "malloc al n p = Some (Some a, p1)"
  shows "\<exists>p2. free a p1 = Some p2 \<and> heap_inv H p2 live \<and> free_bytes p2 = free_bytes p \<and>
    used p2 = used p \<and> needsCompacting p2"
proof -
  from assms(1) have "wf_pool p" by (simp add: heap_inv_def)
  from malloc_total[OF this, of al n] assms(2)
  have m: "malloc_post (align n al) p (Some a) p1" by force
  note i1 = heap_inv_malloc_Some[OF assms(1) m]
  from heap_inv_free[OF i1, of a] obtain p2 where p2: "free a p1 = Some p2"
    "heap_inv H p2 live" "bsize p2 = bsize p1" "free_bytes p2 = footprint_of p1 a \<union> free_bytes p1"
    by auto
  have "live_used p2 live = live_used p live"
    by (rule live_used_cong) (use heap_inv_keeps_header[OF assms(1) m] p2(3) in simp)
  then have "used p2 = used p"
    using assms(1) p2(2) by (simp add: heap_inv_def)
  moreover have "free_bytes p2 = free_bytes p"
    using m p2(4) by (simp add: malloc_post_def footprint_of_def)
  moreover have "needsCompacting p2"
    using p2(1) by (auto simp: free_def Let_def split: option.splits)
  ultimately show ?thesis using p2(1,2) by blast
qed

lemma malloc_example:
  "\<exists>p1. malloc 4 30 (init_pool (Some 1024) 512 (\<lambda>_. 0)) = Some (Some 1036, p1)"
proof -
  have "search_block (init_pool (Some 1024) 512 (\<lambda>_. 0)) (align 30 4) = Some 1024"
    by (simp add: search_block_def init_pool_def new_block_def Let_def align_def add32_def sub32_def
        headerSize_def pageSize_def seq_push_back_def)
  then show ?thesis
    by (subst malloc.simps)
      (simp add: take_block_def claim_block_def insert_by_size_def init_pool_def new_block_def Let_def
        align_def add32_def sub32_def headerSize_def pageSize_def seq_push_back_def seq_pop_def)
qed

theorem malloc_free_roundtrip_witness:
  "\<exists>p1 p2. malloc 4 30 (init_pool (Some 1024) 512 (\<lambda>_. 0)) = Some (Some 1036, p1) \<and>
    free 1036 p1 = Some p2 \<and> heap_inv {1024 ..< 1024 + 512} p2 [] \<and>
    free_bytes p2 = free_bytes (init_pool (Some 1024) 512 (\<lambda>_. 0)) \<and>
    used p2 = used (init_pool (Some 1024) 512 (\<lambda>_. 0)) \<and> needsCompacting p2"
proof -
  obtain p1 where m: "malloc 4 30 (init_pool (Some 1024) 512 (\<lambda>_. 0)) = Some (Some 1036, p1)"
    using malloc_example by blast
  have "heap_inv {1024 ..< 1024 + 512} (init_pool (Some 1024) 512 (\<lambda>_. 0)) []"
    by (rule heap_inv_init) (simp_all add: headerSize_def)
  from malloc_free_roundtrip[OF this m] m show ?thesis by blast
qed

section \<open>Compaction and its accounting\<close>

lemma card_bytes:
  "distinct bs \<Longrightarrow> wf_set (set bs) sz \<Longrightarrow>
    card (bytes (set bs) sz) = (\<Sum>b\<leftarrow>bs. headerSize + sz b) \<and> finite (bytes (set bs) sz)"
proof (induction bs)
  case Nil
  then show ?case by (simp add: bytes_def)
next
  case (Cons b bs)
  have "wf_set (set bs) sz" using wf_set_subset[OF Cons.prems(2)] by auto
  with Cons have IH: "card (bytes (set bs) sz) = (\<Sum>b\<leftarrow>bs. headerSize + sz b)"
    "finite (bytes (set bs) sz)" by auto
  have "extent sz b \<inter> bytes (set bs) sz = {}"
    using wf_set_disjoint[of b "set bs" sz] Cons.prems by simp
  then have "card (extent sz b \<union> bytes (set bs) sz) = card (extent sz b) + card (bytes (set bs) sz)"
    using IH(2) by (intro card_Un_disjoint) (auto simp: extent_def)
  with IH show ?case by (simp add: bytes_insert extent_def)
qed

lemma wf_pool_total:
  assumes "wf_pool p"
  shows "(\<Sum>b\<leftarrow>availableBlocks p. headerSize + bsize p b) < two32"
proof -
  note W = wf_poolD[OF assms]
  have "bytes (set (availableBlocks p)) (bsize p) \<subseteq> {..< two32 - 1}"
  proof
    fix x assume "x \<in> bytes (set (availableBlocks p)) (bsize p)"
    then obtain b where "b \<in> set (availableBlocks p)" "x < b + headerSize + bsize p b"
      by (auto simp: bytes_def extent_def)
    with wf_setD(1)[OF W(2)] show "x \<in> {..< two32 - 1}" by fastforce
  qed
  then have "card (bytes (set (availableBlocks p)) (bsize p)) \<le> card {..< two32 - 1}"
    by (intro card_mono) simp_all
  with card_bytes[OF W(1,2)] show ?thesis by simp
qed

lemma sum_header: "(\<Sum>b\<leftarrow>bs. headerSize + sz b) = headerSize * length bs + (\<Sum>b\<leftarrow>bs. sz b)"
  by (induction bs) auto

text \<open>\<^verbatim>\<open>compact\<close> keeps the pool well formed and its free bytes exactly, and leaves no free block that
  starts where another ends. The header bytes of absorbed blocks become payload, and \<^verbatim>\<open>available\<close> is
  not told: after it the free payload exceeds \<^verbatim>\<open>available\<close> by twelve bytes per block merged away.\<close>

theorem compact_merges:
  assumes "wf_pool p" and "accounted p"
  shows "\<exists>p'. compact p = (False, p') \<and> wf_pool p' \<and> free_bytes p' = free_bytes p \<and>
    (\<forall>a \<in> set (availableBlocks p'). \<forall>b \<in> set (availableBlocks p'). b \<noteq> block_end (bsize p') a) \<and>
    length (availableBlocks p') \<le> length (availableBlocks p) \<and>
    (\<Sum>b\<leftarrow>availableBlocks p'. bsize p' b) =
      available p' + headerSize * (length (availableBlocks p) - length (availableBlocks p'))"
proof -
  obtain p' where c: "compact p = (False, p')" "wf_pool p'" "free_bytes p' = free_bytes p"
    "\<forall>a \<in> set (availableBlocks p'). \<forall>b \<in> set (availableBlocks p'). b \<noteq> block_end (bsize p') a"
    "available p' = available p" "set (availableBlocks p') \<subseteq> set (availableBlocks p)"
    using compact_correct[OF assms(1)] by metis
  have eq: "(\<Sum>b\<leftarrow>availableBlocks p'. headerSize + bsize p' b) =
      (\<Sum>b\<leftarrow>availableBlocks p. headerSize + bsize p b)"
    using c(3) card_bytes[OF wf_poolD(1,2)[OF c(2)]] card_bytes[OF wf_poolD(1,2)[OF assms(1)]]
    by (simp add: free_bytes_def)
  have av: "available p = (\<Sum>b\<leftarrow>availableBlocks p. bsize p b)"
    using assms(2) wf_pool_total[OF assms(1)] by (simp add: accounted_def sum_header)
  have len: "length (availableBlocks p') \<le> length (availableBlocks p)"
  proof -
    have "set (availableBlocks p') \<subseteq> set (availableBlocks p)" by (rule c(6))
    then have "card (set (availableBlocks p')) \<le> card (set (availableBlocks p))"
      by (intro card_mono) simp_all
    then show ?thesis
      unfolding distinct_card[OF wf_poolD(1)[OF c(2)]] distinct_card[OF wf_poolD(1)[OF assms(1)]] .
  qed
  then have "headerSize * length (availableBlocks p') \<le> headerSize * length (availableBlocks p)"
    by simp
  then show ?thesis
    using c len eq av unfolding sum_header diff_mult_distrib2 by simp
qed

definition two_free :: pool where
  "two_free = \<lparr>available = 176, used = 0, needsCompacting = True, availableBlocks = [1000, 1100],
     bsize = (\<lambda>_. 0)(1000 := 88, 1100 := 88)\<rparr>"

lemma wf_two_free: "wf_pool two_free"
  by (auto simp: two_free_def wf_pool_def wf_set_def sorted_by_def extent_def headerSize_def)

lemma compact_two_free:
  "availableBlocks (snd (compact two_free)) = [1000]" "bsize (snd (compact two_free)) 1000 = 188"
proof -
  have a: "absorb 1000 [] [1100] ((\<lambda>_. 0)(1000 := 88, 1100 := 88)) =
      ([], [], grow 1000 100 ((\<lambda>_. 0)(1000 := 88, 1100 := 88)))"
    by (simp add: absorb.simps neighbour_def block_end_def add32_def headerSize_def seq_pop_def grow_def)
  show "availableBlocks (snd (compact two_free)) = [1000]" "bsize (snd (compact two_free)) 1000 = 188"
    by (simp_all add: compact_def merge_adjacent_def merge_pass.simps two_free_def a sort_insert_def
        seq_push_back_def grow_def add32_def)
qed

theorem compact_merges_witness:
  "\<exists>p'. compact two_free = (False, p') \<and> wf_pool p' \<and> free_bytes p' = free_bytes two_free \<and>
    (\<forall>a \<in> set (availableBlocks p'). \<forall>b \<in> set (availableBlocks p'). b \<noteq> block_end (bsize p') a) \<and>
    length (availableBlocks p') \<le> length (availableBlocks two_free) \<and>
    (\<Sum>b\<leftarrow>availableBlocks p'. bsize p' b) =
      available p' + headerSize * (length (availableBlocks two_free) - length (availableBlocks p'))"
  by (rule compact_merges[OF wf_two_free]) (simp add: accounted_def two_free_def)

text \<open>\<^verbatim>\<open>malloc\<close>'s retry after compaction is dead code: \<^verbatim>\<open>compact\<close> always answers false. When no block
  is large enough but enough bytes are available, the call compacts the pool and still returns null,
  whatever the compaction achieved.\<close>

theorem malloc_drops_compaction:
  assumes "wf_pool p" and "needsCompacting p" and "align sz al \<le> available p"
    and "\<forall>b \<in> set (availableBlocks p). bsize p b < align sz al"
  shows "malloc al sz p = Some (None, snd (compact p))"
proof -
  have "search_block p (align sz al) = None"
    using assms(1,4) by (auto simp: search_block_first_fit find_None_iff)
  with assms(2,3) show ?thesis
    by (subst malloc.simps) (simp add: compact_def split: prod.split)
qed

theorem malloc_drops_compaction_witness:
  "malloc 4 150 two_free = Some (None, snd (compact two_free)) \<and>
    (\<exists>a p'. malloc 4 150 (snd (compact two_free)) = Some (Some a, p'))"
proof -
  obtain p' where c: "compact two_free = (False, p')" "wf_pool p'"
    using compact_correct[OF wf_two_free] by metis
  have "search_block p' (align 150 4) = Some 1000"
    using compact_two_free c(1)
    by (simp add: search_block_def align_def add32_def pageSize_def)
  from malloc_found[OF this c(2)] have "\<exists>a p'. malloc 4 150 (snd (compact two_free)) = Some (Some a, p')"
    using c(1) by auto
  moreover have "malloc 4 150 two_free = Some (None, snd (compact two_free))"
    by (rule malloc_drops_compaction[OF wf_two_free])
      (simp_all add: two_free_def align_def add32_def)
  ultimately show ?thesis by blast
qed

end
