(* ===== verification/PageMask.thy ===== *)
theory PageMask
  imports Prelude
begin

text \<open>
  The page bitmap of \<^verbatim>\<open>common/AllocationMask.hpp\<close>. The \<^verbatim>\<open>Reg\<close> array is kept as its bytes (\<^verbatim>\<open>sizeof(Reg)\<close> is 4;
  all ones in a \<^verbatim>\<open>Reg\<close> means all ones in its four bytes). \<^verbatim>\<open>1<<index\<close> on \<^verbatim>\<open>int\<close> is undefined from 32 on, and so is
  access outside the array: \<open>None\<close>.
\<close>

unbundle bit_operations_syntax

section \<open>Operations\<close>

record amask =
  mbytes :: "u8 list"
  mcount :: nat
  earliestFree :: nat
  afterLastTaken :: nat

definition new_amask :: "nat \<Rightarrow> amask" where
  "new_amask n =
     (let c = n div 8 * 8 div 32 * 32 in
      \<lparr>mbytes = replicate ((c + 7) div 8) 0, mcount = c, earliestFree = 0, afterLastTaken = 0\<rparr>)"

definition size_required :: "nat \<Rightarrow> nat" where
  "size_required n = n div 8 div 8 * 8 div 4 * 4"

definition no_pages :: string where
  "no_pages = ''No allocation pages remain''"

definition byte_at :: "amask \<Rightarrow> nat \<Rightarrow> u8" where
  "byte_at m i = (if i < length (mbytes m) then mbytes m ! i else 0)"

definition put_byte :: "nat \<Rightarrow> u8 \<Rightarrow> amask \<Rightarrow> amask" where
  "put_byte i b m = m\<lparr>mbytes := (mbytes m)[i := b]\<rparr>"

text \<open>\<^verbatim>\<open>__builtin_ctz(~byte)\<close>: the lowest unset bit (8 when the byte is full: the \<^verbatim>\<open>int\<close> has higher bits).\<close>

definition lowest_unset :: "u8 \<Rightarrow> nat" where
  "lowest_unset b = (case find (\<lambda>n. \<not> bit b n) [0..<8] of None \<Rightarrow> 8 | Some n \<Rightarrow> n)"

text \<open>The byte-wise search loops (the first stops at a \<^verbatim>\<open>Reg\<close> boundary). \<^verbatim>\<open>earliestFree&~0xff\<close> clears eight bits;
  the bit number is below eight, so \<^verbatim>\<open>|\<close> adds it.\<close>

function byte_loop :: "bool \<Rightarrow> amask \<Rightarrow> nat option \<times> amask" where
  "byte_loop toBoundary m =
     (let e = earliestFree m in
      if e < mcount m \<and> (toBoundary \<longrightarrow> e mod 32 \<noteq> 0) then
        (if byte_at m (e div 8) = 255 then byte_loop toBoundary (m\<lparr>earliestFree := e + 8\<rparr>)
         else
           (let n = lowest_unset (byte_at m (e div 8));
                m = put_byte (e div 8) (byte_at m (e div 8) OR push_bit n 1) m;
                e' = (e div 256 * 256 + n) + 1
            in (Some (e' - 1), m\<lparr>earliestFree := e', afterLastTaken := max (afterLastTaken m) e'\<rparr>)))
      else (None, m))"
  by pat_completeness auto
termination by (relation "measure (\<lambda>(s, m). mcount m - earliestFree m)") auto

function reg_loop :: "amask \<Rightarrow> amask" where
  "reg_loop m =
     (let e = earliestFree m in
      if e + 32 \<le> mcount m \<and> (\<forall>i \<in> {0, 1, 2, 3}. byte_at m (e div 8 div 4 * 4 + i) = 255)
      then reg_loop (m\<lparr>earliestFree := e + 32\<rparr>) else m)"
  by pat_completeness auto
termination by (relation "measure (\<lambda>m. mcount m - earliestFree m)") auto

declare byte_loop.simps [simp del] reg_loop.simps [simp del]

definition claim :: "amask \<Rightarrow> nat attempt \<times> amask" where
  "claim m =
     (if earliestFree m \<ge> mcount m then (Inl no_pages, m)
      else if afterLastTaken m < mcount m then
        (let a = afterLastTaken m in
         (Inr a, (put_byte (a div 8) (byte_at m (a div 8) OR push_bit (a mod 8) 1) m)\<lparr>afterLastTaken := a + 1\<rparr>))
      else
        (case byte_loop True m of
           (Some i, m) \<Rightarrow> (Inr i, m)
         | (None, m) \<Rightarrow>
             (case byte_loop False (reg_loop m) of
                (Some i, m) \<Rightarrow> (Inr i, m)
              | (None, m) \<Rightarrow> (Inl no_pages, m\<lparr>afterLastTaken := earliestFree m\<rparr>))))"

text \<open>The rollback test \<^verbatim>\<open>byte & 1<<k == 0\<close> compares first: \<^verbatim>\<open>byte & (1<<k == 0)\<close>.\<close>

definition rollback_test :: "amask \<Rightarrow> bool" where
  "rollback_test m \<longleftrightarrow>
     (let k = (afterLastTaken m - 1) mod 8 in
      byte_at m ((afterLastTaken m - 1) div 8) AND (if (2 :: nat) ^ k = 0 then 1 else 0) \<noteq> 0)"

function rollback :: "amask \<Rightarrow> amask" where
  "rollback m =
     (if afterLastTaken m > earliestFree m \<and> rollback_test m
      then rollback (m\<lparr>afterLastTaken := afterLastTaken m - 1\<rparr>) else m)"
  by pat_completeness auto
termination by (relation "measure afterLastTaken") auto

declare rollback.simps [simp del]

definition release :: "nat \<Rightarrow> amask \<Rightarrow> amask option" where
  "release index m =
     (if index \<ge> 32 \<or> index div 8 \<ge> length (mbytes m) then None
      else
        (let m = put_byte (index div 8) (byte_at m (index div 8) AND NOT (push_bit index 1)) m;
             m = m\<lparr>earliestFree := min index (earliestFree m)\<rparr>
         in if index = sub32 (afterLastTaken m) 1
            then Some (rollback (m\<lparr>afterLastTaken := afterLastTaken m - 1\<rparr>)) else Some m))"

section \<open>Sequential claims\<close>

definition taken :: "amask \<Rightarrow> nat \<Rightarrow> bool" where
  "taken m j \<longleftrightarrow> bit (byte_at m (j div 8)) (j mod 8)"

definition seq_state :: "nat \<Rightarrow> nat \<Rightarrow> amask \<Rightarrow> bool" where
  "seq_state c n m \<longleftrightarrow> mcount m = c \<and> afterLastTaken m = n \<and> earliestFree m = 0 \<and>
     length (mbytes m) = c div 8 \<and> 32 dvd c \<and> (\<forall>j < c. taken m j \<longleftrightarrow> j < n)"

lemma byte_at_put: "i < length (mbytes m) \<Longrightarrow> byte_at (put_byte i b m) k = (if k = i then b else byte_at m k)"
  by (simp add: byte_at_def put_byte_def)

lemma put_byte_sel [simp]:
  "mcount (put_byte i b m) = mcount m" "earliestFree (put_byte i b m) = earliestFree m"
  "afterLastTaken (put_byte i b m) = afterLastTaken m"
  "length (mbytes (put_byte i b m)) = length (mbytes m)"
  by (simp_all add: put_byte_def)

lemma byte_at_upd [simp]:
  "byte_at (m\<lparr>earliestFree := e\<rparr>) k = byte_at m k" "byte_at (m\<lparr>afterLastTaken := e\<rparr>) k = byte_at m k"
  by (simp_all add: byte_at_def)

lemma taken_upd [simp]:
  "taken (m\<lparr>earliestFree := e\<rparr>) k = taken m k" "taken (m\<lparr>afterLastTaken := e\<rparr>) k = taken m k"
  by (simp_all add: taken_def)

lemma div_mod_eq_iff: "(j div 8 = a div 8 \<and> j mod 8 = a mod 8) \<longleftrightarrow> j = (a :: nat)"
  by (metis div_mult_mod_eq)

lemma taken_set:
  assumes "a div 8 < length (mbytes m)"
  shows "taken (put_byte (a div 8) (byte_at m (a div 8) OR push_bit (a mod 8) 1) m) j \<longleftrightarrow> taken m j \<or> j = a"
  using div_mod_eq_iff[of j a]
  by (auto simp: taken_def byte_at_put[OF assms] bit_or_iff bit_push_bit_iff bit_1_iff simp del: push_bit_of_1)

lemma seq_new: "seq_state (n div 8 * 8 div 32 * 32) 0 (new_amask n)"
proof -
  let ?c = "n div 8 * 8 div 32 * 32"
  have "(x * 32 + 7) div 8 = x * 4" for x :: nat by simp
  then have "(?c + 7) div 8 = ?c div 8" by simp
  then show ?thesis by (simp add: seq_state_def new_amask_def Let_def taken_def byte_at_def)
qed

lemma claim_next:
  assumes "seq_state c n m" and "n < c"
  shows "\<exists>m'. claim m = (Inr n, m') \<and> seq_state c (n + 1) m'"
proof -
  have s: "mcount m = c" "afterLastTaken m = n" "earliestFree m = 0" "length (mbytes m) = c div 8" "32 dvd c"
    "\<And>j. j < c \<Longrightarrow> taken m j \<longleftrightarrow> j < n" using assms(1) by (simp_all add: seq_state_def)
  obtain k where k: "c = 32 * k" using s(5) by blast
  then have "n div 8 < c div 8" using assms(2) by (auto intro: less_mult_imp_div_less)
  then have l: "n div 8 < length (mbytes m)" using s(4) by simp
  let ?m = "(put_byte (n div 8) (byte_at m (n div 8) OR push_bit (n mod 8) 1) m)\<lparr>afterLastTaken := n + 1\<rparr>"
  have "claim m = (Inr n, ?m)" using s assms(2) by (simp add: claim_def Let_def)
  moreover have "seq_state c (n + 1) ?m"
    using s unfolding seq_state_def by (auto simp: taken_set[OF l] simp del: push_bit_of_1)
  ultimately show ?thesis by blast
qed

lemma full_byte: "(\<forall>k < 8. bit b k) \<Longrightarrow> b = (255 :: u8)"
proof -
  assume b: "\<forall>k < 8. bit b k"
  have "b = mask 8" using b by (intro bit_word_eqI) (auto simp: bit_mask_iff)
  then show ?thesis by (simp add: mask_eq_exp_minus_1)
qed

lemma seq_full_bytes:
  assumes "seq_state c c m" and "i < c div 8"
  shows "byte_at m i = 255"
proof (rule full_byte, intro allI impI)
  fix k :: nat assume "k < 8"
  then have "8 * i + k < c" using assms(2) by linarith
  then have "taken m (8 * i + k)" using assms(1) by (simp add: seq_state_def)
  with \<open>k < 8\<close> show "bit (byte_at m i) k" by (simp add: taken_def)
qed

section \<open>Searching a full mask, and releasing from it\<close>

lemma reg_loop_stop: "earliestFree m \<ge> mcount m \<Longrightarrow> reg_loop m = m"
  by (subst reg_loop.simps) (simp add: Let_def)

lemma byte_loop_stop: "earliestFree m \<ge> mcount m \<or> b \<and> earliestFree m mod 32 = 0 \<Longrightarrow> byte_loop b m = (None, m)"
  by (subst byte_loop.simps) (auto simp: Let_def)

lemma reg_loop_all:
  assumes "\<forall>i < mcount m div 8. byte_at m i = 255" and "32 dvd mcount m" and "32 dvd earliestFree m"
    and "earliestFree m \<le> mcount m"
  shows "reg_loop m = m\<lparr>earliestFree := mcount m\<rparr>"
  using assms
proof (induction m rule: reg_loop.induct)
  case (1 m)
  show ?case
  proof (cases "earliestFree m = mcount m")
    case True
    then show ?thesis by (simp add: reg_loop_stop)
  next
    case False
    obtain a b where ab: "mcount m = 32 * a" "earliestFree m = 32 * b" using "1.prems"(2,3) by blast
    with False "1.prems"(4) have lt: "b < a" by simp
    then have "earliestFree m + 32 \<le> mcount m" using ab by simp
    moreover have "byte_at m (earliestFree m div 8 div 4 * 4 + i) = 255" if "i \<in> {0, 1, 2, 3}" for i
    proof -
      have "b * 4 + i < a * 4" using lt that by auto
      then show ?thesis using "1.prems"(1) ab by auto
    qed
    ultimately have c: "earliestFree m + 32 \<le> mcount m \<and>
        (\<forall>i \<in> {0, 1, 2, 3}. byte_at m (earliestFree m div 8 div 4 * 4 + i) = 255)" by blast
    have "reg_loop m = reg_loop (m\<lparr>earliestFree := earliestFree m + 32\<rparr>)"
      by (subst reg_loop.simps) (simp only: Let_def if_P[OF c])
    also have "\<dots> = m\<lparr>earliestFree := mcount m\<rparr>"
      using "1.IH"[OF refl c] "1.prems" c by simp
    finally show ?thesis .
  qed
qed

lemma reg_loop_break:
  "byte_at m (earliestFree m div 8 div 4 * 4) \<noteq> 255 \<Longrightarrow> reg_loop m = m"
  by (subst reg_loop.simps) (simp add: Let_def)

lemma claim_full:
  assumes "seq_state c c m"
  shows "\<exists>m'. claim m = (Inl no_pages, m')"
proof -
  have s: "mcount m = c" "afterLastTaken m = c" "earliestFree m = 0" "32 dvd c"
    using assms by (simp_all add: seq_state_def)
  have r: "reg_loop m = m\<lparr>earliestFree := c\<rparr>"
    using reg_loop_all[of m] seq_full_bytes[OF assms] s by simp
  show ?thesis
    using s by (simp add: claim_def r byte_loop_stop)
qed

text \<open>The indices a run of \<open>n\<close> claims returns.\<close>

fun claims :: "nat \<Rightarrow> amask \<Rightarrow> nat attempt list" where
  "claims 0 m = []"
| "claims (Suc n) m = (case claim m of (r, m') \<Rightarrow> r # claims n m')"

fun claims_state :: "nat \<Rightarrow> amask \<Rightarrow> amask" where
  "claims_state 0 m = m"
| "claims_state (Suc n) m = claims_state n (snd (claim m))"

lemma claims_seq:
  "seq_state c k m \<Longrightarrow> k + n \<le> c \<Longrightarrow>
    claims n m = map Inr [k..<k + n] \<and> seq_state c (k + n) (claims_state n m)"
proof (induction n arbitrary: k m)
  case (Suc n)
  then obtain m' where m': "claim m = (Inr k, m')" "seq_state c (k + 1) m'"
    using claim_next[of c k m] by auto
  have "claims n m' = map Inr [k + 1..<k + 1 + n] \<and> seq_state c (k + 1 + n) (claims_state n m')"
    by (rule Suc.IH[OF m'(2)]) (use Suc.prems(2) in simp)
  with m'(1) show ?case by (simp add: upt_conv_Cons)
qed simp

text \<open>A fresh page bitmap over \<open>n\<close> pages hands out the indices 0, 1, 2, ... in order, each once, until all of
  its pages (\<open>n\<close> rounded down to a multiple of 32) are taken; the next claim fails.\<close>

theorem claims_sequential:
  "claims (mcount (new_amask n) + 1) (new_amask n) = map Inr [0..<n div 32 * 32] @ [Inl no_pages]"
proof -
  let ?c = "n div 8 * 8 div 32 * 32"
  have c: "?c = n div 32 * 32" by (simp add: div_mult2_eq[of n 8 4, simplified])
  have m: "mcount (new_amask n) = ?c" by (simp add: new_amask_def Let_def)
  have split: "claims (j + 1) m = claims j m @ [fst (claim (claims_state j m))]" for j m
  proof (induction j arbitrary: m)
    case (Suc j)
    obtain r m' where r: "claim m = (r, m')" by fastforce
    with Suc[of m'] show ?case by simp
  qed (simp split: prod.split)
  from claims_seq[OF seq_new[of n], of ?c] have
    k: "claims ?c (new_amask n) = map Inr [0..<?c]" "seq_state ?c ?c (claims_state ?c (new_amask n))"
    by simp_all
  from claim_full[OF k(2)] have "fst (claim (claims_state ?c (new_amask n))) = Inl no_pages" by auto
  then show ?thesis unfolding m split k(1) by (simp only: c)
qed

lemma bit_255: "bit (255 :: int) k \<longleftrightarrow> k < 8"
  using bit_mask_iff[of 8 k, where 'a = int] by (simp add: mask_eq_exp_minus_1)

lemma lowest_unset_single:
  assumes "\<forall>k < 8. bit b k \<longleftrightarrow> k \<noteq> i" and "i < 8"
  shows "lowest_unset b = i"
proof -
  have "find (\<lambda>n. \<not> bit b n) [0..<8] = Some i"
    unfolding find_Some_iff using assms by (intro exI[of _ i]) auto
  then show ?thesis by (simp add: lowest_unset_def)
qed

lemma rollback_none: "rollback_test m = False \<Longrightarrow> rollback m = m"
  by (subst rollback.simps) simp

lemma rollback_test_False: "rollback_test m = False"
  by (simp add: rollback_test_def Let_def)

text \<open>\<open>~(1<<index)\<close> leaves all low eight bits set from \<open>index\<close> 8 on.\<close>

lemma release_byte:
  assumes "seq_state c c m" and "i < 32" and "i + 1 < c" and "c < two32"
  shows "\<exists>m'. release i m = Some m' \<and> mcount m' = c \<and> afterLastTaken m' = c \<and> earliestFree m' = 0 \<and>
    length (mbytes m') = c div 8 \<and> 32 dvd c \<and>
    (\<forall>k < c div 8. byte_at m' k = (if k = 0 \<and> i < 8 then 255 AND NOT (push_bit i 1) else 255))"
proof -
  have s: "mcount m = c" "afterLastTaken m = c" "earliestFree m = 0" "length (mbytes m) = c div 8" "32 dvd c"
    using assms(1) by (simp_all add: seq_state_def)
  from s(5) assms(3) obtain a where a: "c = 32 * a" "0 < a" by (cases c) auto
  then have l: "i div 8 < c div 8" using assms(2) by auto
  let ?b = "byte_at m (i div 8) AND NOT (push_bit i 1)"
  let ?m = "put_byte (i div 8) ?b m\<lparr>earliestFree := 0\<rparr>"
  have "sub32 c 1 = c - 1" using assms(3,4) by (intro sub32_exact) auto
  then have ne: "i \<noteq> sub32 c 1" using assms(3) by simp
  have "release i m = Some ?m"
    using l s assms(2) ne by (simp add: release_def Let_def)
  moreover have "255 AND NOT (push_bit i 1) = (255 :: u8)" if "8 \<le> i"
    using that by (intro full_byte) (auto simp: bit_simps bit_255)
  then have "byte_at ?m k = (if k = 0 \<and> i < 8 then 255 AND NOT (push_bit i 1) else 255)" if "k < c div 8" for k
    using l s seq_full_bytes[OF assms(1)] that
    by (cases "i < 8") (auto simp: byte_at_put div_eq_0_iff simp del: push_bit_of_1)
  ultimately show ?thesis using s by simp
qed


definition full64 :: amask where
  "full64 = \<lparr>mbytes = replicate 8 255, mcount = 64, earliestFree = 0, afterLastTaken = 64\<rparr>"

lemma seq_full64: "seq_state 64 64 full64"
proof -
  show ?thesis
    by (auto simp: seq_state_def full64_def taken_def byte_at_def bit_255)
qed


end
