(* ===== verification/X86Mmu.thy ===== *)
theory X86Mmu
  imports Prelude
begin

text \<open>
  Two-level paging of \<^verbatim>\<open>kernel/arch/x86/mmu.cpp\<close>. A \<^verbatim>\<open>Mapping\<close> is its page directory and the two cursors from
  which low (ascending) and high (descending) addresses are handed out; page tables come from a pool of
  \<open>tablesCount\<close> tables at physical \<open>tablesPhysical\<close>. Addresses are 32 bits wide. A failed assertion, an index past
  the directory and an exhausted pool are \<open>None\<close>. Only the 4KB form of a directory entry is modelled (the code
  never sets \<^verbatim>\<open>is4Mb\<close>); cache and TLB instructions have no effect on this state.
\<close>

section \<open>State\<close>

datatype caching = Uncached | WriteBack | WriteThrough | WriteCombining

record map_options =
  isUserspace :: bool
  isWritable :: bool
  isExecutable :: bool
  caching :: caching

record table_entry =
  t_present :: bool
  t_writable :: bool
  t_user :: bool
  t_writeThrough :: bool
  t_disableCache :: bool
  t_accessed :: bool
  t_dirty :: bool
  t_pat :: bool
  t_global :: bool
  t_address :: nat

record directory_entry =
  d_present :: bool
  d_writable :: bool
  d_user :: bool
  d_writeThrough :: bool
  d_disableCache :: bool
  d_accessed :: bool
  d_dirty :: bool
  d_is4Mb :: bool
  d_address :: nat

record mapping =
  directory :: "nat \<Rightarrow> directory_entry"
  nextLowDirectory :: nat
  nextHighDirectory :: nat
  nextLowTable :: nat
  nextHighTable :: nat
  tables :: "nat \<Rightarrow> nat \<Rightarrow> table_entry"
  nextTable :: nat
  tablesCount :: nat
  tablesPhysical :: nat

definition get_address :: "table_entry \<Rightarrow> nat" where
  "get_address e = t_address e * 4096 mod two32"

definition set_address :: "nat \<Rightarrow> table_entry \<Rightarrow> table_entry option" where
  "set_address a e = (if a mod 4096 \<noteq> 0 then None else Some (e\<lparr>t_address := a div 4096 mod 1048576\<rparr>))"

definition get_table :: "directory_entry \<Rightarrow> nat" where
  "get_table e = (if d_address e \<noteq> 0 then d_address e * 4096 mod two32 else 0)"

definition set_table :: "nat \<Rightarrow> directory_entry \<Rightarrow> directory_entry option" where
  "set_table a e = (if a mod 4096 \<noteq> 0 then None else Some (e\<lparr>d_address := a div 4096 mod 1048576\<rparr>))"

definition to_virtual :: "mapping \<Rightarrow> nat \<Rightarrow> nat option" where
  "to_virtual m a =
     (let offset = a - tablesPhysical m in
      if a \<ge> tablesPhysical m \<and> offset mod 4096 = 0 \<and> offset div 4096 < tablesCount m
      then Some (offset div 4096) else None)"

definition to_physical :: "mapping \<Rightarrow> nat \<Rightarrow> nat option" where
  "to_physical m i = (if i < tablesCount m then Some (add32 (tablesPhysical m) (i * 4096)) else None)"

definition create_table :: "mapping \<Rightarrow> (nat \<times> mapping) option" where
  "create_table m =
     (if nextTable m < tablesCount m then Some (nextTable m, m\<lparr>nextTable := nextTable m + 1\<rparr>) else None)"

section \<open>Mapping one page\<close>

definition clear_table :: "nat \<Rightarrow> mapping \<Rightarrow> mapping" where
  "clear_table i m = m\<lparr>tables := (tables m)(i :=
     (\<lambda>t. if t < 1024 then (tables m i t)\<lparr>t_present := False\<rparr> else tables m i t))\<rparr>"

definition fresh_directory :: "directory_entry \<Rightarrow> directory_entry" where
  "fresh_directory e = e\<lparr>d_present := True, d_writable := False, d_user := False, d_writeThrough := False,
     d_disableCache := False, d_accessed := False, d_dirty := False, d_is4Mb := False\<rparr>"

text \<open>The first page of a directory entry gets a table of its own.\<close>

definition open_directory :: "nat \<Rightarrow> mapping \<Rightarrow> mapping option" where
  "open_directory d m =
     (if d_present (directory m d) then None
      else
        (case create_table m of
           None \<Rightarrow> None
         | Some (i, m1) \<Rightarrow>
             (case to_physical m1 i of
                None \<Rightarrow> None
              | Some a \<Rightarrow>
                  (case set_table a (fresh_directory (directory m1 d)) of
                     None \<Rightarrow> None
                   | Some e \<Rightarrow> Some ((clear_table i m1)\<lparr>directory := (directory m1)(d := e)\<rparr>)))))"

definition option_flags :: "map_options \<Rightarrow> table_entry \<Rightarrow> table_entry" where
  "option_flags opts e = e\<lparr>t_writable := isWritable opts, t_user := isUserspace opts,
     t_writeThrough := (caching opts = WriteThrough \<or> caching opts = WriteCombining),
     t_disableCache := (caching opts = Uncached \<or> caching opts = WriteCombining)\<rparr>"

definition fill_entry :: "map_options \<Rightarrow> nat \<Rightarrow> table_entry \<Rightarrow> table_entry option" where
  "fill_entry opts page e =
     set_address page ((option_flags opts (e\<lparr>t_present := True\<rparr>))
       \<lparr>t_accessed := False, t_dirty := True, t_pat := False, t_global := False\<rparr>)"

definition widen_directory :: "table_entry \<Rightarrow> directory_entry \<Rightarrow> directory_entry" where
  "widen_directory te e =
     (let e = (if t_writable te \<and> \<not> d_writable e then e\<lparr>d_writable := True\<rparr> else e)
      in if t_user te \<and> \<not> d_user e then e\<lparr>d_user := True\<rparr> else e)"

text \<open>The common body: \<open>first\<close> is \<^verbatim>\<open>isFirstTable\<close>; only the low variant asserts that the entry is free.\<close>

definition map_page :: "bool \<Rightarrow> bool \<Rightarrow> nat \<Rightarrow> nat \<Rightarrow> nat \<Rightarrow> map_options \<Rightarrow> mapping \<Rightarrow> mapping option" where
  "map_page assertFree first d t page opts m =
     (if \<not> d < 1024 then None
      else
        (case (if first then open_directory d m else Some m) of
           None \<Rightarrow> None
         | Some m1 \<Rightarrow>
             (case to_virtual m1 (get_table (directory m1 d)) of
                None \<Rightarrow> None
              | Some i \<Rightarrow>
                  (if assertFree \<and> t_present (tables m1 i t) then None
                   else
                     (case fill_entry opts page (tables m1 i t) of
                        None \<Rightarrow> None
                      | Some te \<Rightarrow>
                          Some (m1\<lparr>tables := (tables m1)(i := (tables m1 i)(t := te)),
                            directory := (directory m1)(d := widen_directory te (directory m1 d))\<rparr>))))))"

definition prep_directory :: "directory_entry \<Rightarrow> directory_entry" where
  "prep_directory e = e\<lparr>d_present := False, d_writable := False, d_user := False, d_writeThrough := False,
     d_disableCache := False, d_accessed := False, d_is4Mb := False\<rparr>"

definition virtual_address :: "nat \<Rightarrow> nat \<Rightarrow> nat \<Rightarrow> nat" where
  "virtual_address d t off = (d * 4194304 + t * 4096 + off) mod two32"

definition map_low :: "nat \<Rightarrow> map_options \<Rightarrow> mapping \<Rightarrow> (nat \<times> mapping) option" where
  "map_low physical opts m =
     (let off = physical mod 4096; page = physical - off;
          d = nextLowDirectory m; t = nextLowTable m in
      case map_page True (t = 0) d t page opts m of
        None \<Rightarrow> None
      | Some m1 \<Rightarrow>
          (if nextLowTable m1 = 1023 then
             (if nextLowDirectory m1 + 1 < 1024 then
                Some (virtual_address d t off, m1\<lparr>nextLowTable := 0, nextLowDirectory := nextLowDirectory m1 + 1,
                  directory := (directory m1)(nextLowDirectory m1 + 1 :=
                    prep_directory (directory m1 (nextLowDirectory m1 + 1)))\<rparr>)
              else None)
           else Some (virtual_address d t off, m1\<lparr>nextLowTable := nextLowTable m1 + 1\<rparr>)))"

definition map_high :: "nat \<Rightarrow> map_options \<Rightarrow> mapping \<Rightarrow> (nat \<times> mapping) option" where
  "map_high physical opts m =
     (let off = physical mod 4096; page = physical - off;
          d = nextHighDirectory m; t = nextHighTable m in
      case map_page False (t = 1023 \<or> d = 1023 \<and> t = 1022) d t page opts m of
        None \<Rightarrow> None
      | Some m1 \<Rightarrow>
          (if nextHighTable m1 = 0 then
             (if nextHighDirectory m1 \<ge> 1 then
                Some (virtual_address d t off, m1\<lparr>nextHighTable := 1023, nextHighDirectory := nextHighDirectory m1 - 1,
                  directory := (directory m1)(nextHighDirectory m1 - 1 :=
                    prep_directory (directory m1 (nextHighDirectory m1 - 1)))\<rparr>)
              else None)
           else Some (virtual_address d t off, m1\<lparr>nextHighTable := nextHighTable m1 - 1\<rparr>)))"

section \<open>Ranges, targets and options\<close>

text \<open>\<^verbatim>\<open>while(size>4096)\<close>: \<open>n\<close> further pages.\<close>

fun map_low_more :: "nat \<Rightarrow> nat \<Rightarrow> map_options \<Rightarrow> mapping \<Rightarrow> mapping option" where
  "map_low_more 0 physical opts m = Some m"
| "map_low_more (Suc n) physical opts m =
     (case map_low (add32 physical 4096) opts m of
        None \<Rightarrow> None
      | Some (_, m1) \<Rightarrow> map_low_more n (add32 physical 4096) opts m1)"

definition map_low_range :: "nat \<Rightarrow> nat \<Rightarrow> map_options \<Rightarrow> mapping \<Rightarrow> (nat \<times> mapping) option" where
  "map_low_range physical sz opts m =
     (case map_low physical opts m of
        None \<Rightarrow> None
      | Some (v, m1) \<Rightarrow>
          map_option (\<lambda>m2. (v, m2)) (map_low_more (if sz > 4096 then (sz - 1) div 4096 else 0) physical opts m1))"

fun map_high_pages :: "nat \<Rightarrow> nat \<Rightarrow> map_options \<Rightarrow> nat \<times> mapping \<Rightarrow> (nat \<times> mapping) option" where
  "map_high_pages 0 physical opts (v, m) = Some (v, m)"
| "map_high_pages (Suc n) physical opts (v, m) =
     (case map_high physical opts m of
        None \<Rightarrow> None
      | Some (v', m1) \<Rightarrow> map_high_pages n (sub32 physical 4096) opts (v', m1))"

definition map_high_range :: "nat \<Rightarrow> nat \<Rightarrow> map_options \<Rightarrow> mapping \<Rightarrow> (nat \<times> mapping) option" where
  "map_high_range physical sz opts m =
     (let sz = max sz 1; pages = add32 sz 4095 div 4096 in
      map_high_pages pages (add32 physical (mul32 (sub32 pages 1) 4096)) opts (0, m))"

definition directory_index :: "nat \<Rightarrow> nat" where
  "directory_index v = v div 4194304 mod 1024"

definition table_index :: "nat \<Rightarrow> nat" where
  "table_index v = v div 4096 mod 1024"

definition update_entry :: "nat \<Rightarrow> (table_entry \<Rightarrow> table_entry option) \<Rightarrow> mapping \<Rightarrow> mapping option" where
  "update_entry v f m =
     (case to_virtual m (get_table (directory m (directory_index v))) of
        None \<Rightarrow> None
      | Some i \<Rightarrow>
          (case f (tables m i (table_index v)) of
             None \<Rightarrow> None
           | Some te \<Rightarrow> Some (m\<lparr>tables := (tables m)(i := (tables m i)(table_index v := te))\<rparr>)))"

text \<open>The loops over the pages of a range: \<open>stop\<close> is \<^verbatim>\<open>address+size\<close>; \<open>fuel\<close> bounds a loop whose cursor would wrap.\<close>

fun set_target_loop :: "nat \<Rightarrow> nat \<Rightarrow> nat \<Rightarrow> nat \<Rightarrow> mapping \<Rightarrow> mapping option" where
  "set_target_loop 0 v stop physical m = (if v < stop then None else Some m)"
| "set_target_loop (Suc fuel) v stop physical m =
     (if v < stop then
        (case update_entry v (set_address physical) m of
           None \<Rightarrow> None
         | Some m1 \<Rightarrow> set_target_loop fuel (add32 v 4096) stop (add32 physical 4096) m1)
      else Some m)"

definition set_virtual_target :: "nat \<Rightarrow> nat \<Rightarrow> nat \<Rightarrow> mapping \<Rightarrow> mapping option" where
  "set_virtual_target address physical sz m =
     set_target_loop 1048576 (address div 4096 * 4096) (add32 address sz) physical m"

definition set_virtual_options :: "nat \<Rightarrow> map_options \<Rightarrow> mapping \<Rightarrow> mapping option" where
  "set_virtual_options v opts m = update_entry v (\<lambda>e. Some (option_flags opts e)) m"

fun set_options_loop :: "nat \<Rightarrow> nat \<Rightarrow> nat \<Rightarrow> map_options \<Rightarrow> mapping \<Rightarrow> mapping option" where
  "set_options_loop 0 v stop opts m = (if v < stop then None else Some m)"
| "set_options_loop (Suc fuel) v stop opts m =
     (if v < stop then
        (case set_virtual_options v opts m of
           None \<Rightarrow> None
         | Some m1 \<Rightarrow> set_options_loop fuel (add32 v 4096) stop opts m1)
      else Some m)"

definition set_virtual_options_range :: "nat \<Rightarrow> nat \<Rightarrow> map_options \<Rightarrow> mapping \<Rightarrow> mapping option" where
  "set_virtual_options_range address sz opts m =
     set_options_loop 1048576 (address div 4096 * 4096) (add32 address sz) opts m"

definition entry_caching :: "table_entry \<Rightarrow> caching" where
  "entry_caching e =
     (if t_writeThrough e then (if t_disableCache e then WriteCombining else WriteThrough)
      else if t_disableCache e then Uncached else WriteBack)"

definition get_virtual_options :: "nat \<Rightarrow> mapping \<Rightarrow> map_options attempt option" where
  "get_virtual_options v m =
     (let table = get_table (directory m (directory_index v)) in
      if table = 0 then Some (Inl ''Page does not exist'')
      else
        (case to_virtual m table of
           None \<Rightarrow> None
         | Some i \<Rightarrow>
             (let e = tables m i (table_index v) in
              if \<not> t_present e then Some (Inl ''Page does not exist'')
              else Some (Inr \<lparr>isUserspace = t_user e, isWritable = t_writable e, isExecutable = True,
                caching = entry_caching e\<rparr>))))"

definition get_physical :: "nat \<Rightarrow> mapping \<Rightarrow> nat option" where
  "get_physical v m =
     (case to_virtual m (get_table (directory m (directory_index v))) of
        None \<Rightarrow> None
      | Some i \<Rightarrow> Some (add32 (get_address (tables m i (table_index v))) (v mod 4096)))"

text \<open>A fresh mapping: the constructor clears the directory's present bits; memory is zero before that.\<close>

definition new_mapping :: "nat \<Rightarrow> nat \<Rightarrow> mapping" where
  "new_mapping base n = \<lparr>directory = (\<lambda>_. \<lparr>d_present = False, d_writable = False, d_user = False,
       d_writeThrough = False, d_disableCache = False, d_accessed = False, d_dirty = False, d_is4Mb = False,
       d_address = 0\<rparr>),
     nextLowDirectory = 0, nextHighDirectory = 1023, nextLowTable = 0, nextHighTable = 1022,
     tables = (\<lambda>_ _. \<lparr>t_present = False, t_writable = False, t_user = False, t_writeThrough = False,
       t_disableCache = False, t_accessed = False, t_dirty = False, t_pat = False, t_global = False,
       t_address = 0\<rparr>),
     nextTable = 0, tablesCount = n, tablesPhysical = base\<rparr>"

section \<open>Tables in use\<close>

definition tab_index :: "mapping \<Rightarrow> nat \<Rightarrow> nat" where
  "tab_index m d = d_address (directory m d) - tablesPhysical m div 4096"

text \<open>The directory entries \<open>D\<close> are present, each with a table of its own from the pool.\<close>

definition core :: "nat set \<Rightarrow> mapping \<Rightarrow> bool" where
  "core D m \<longleftrightarrow> 0 < tablesPhysical m \<and> tablesPhysical m mod 4096 = 0 \<and>
     tablesPhysical m + tablesCount m * 4096 \<le> two32 \<and> nextTable m \<le> tablesCount m \<and> D \<subseteq> {..<1024} \<and>
     (\<forall>d < 1024. d_present (directory m d) \<longleftrightarrow> d \<in> D) \<and>
     (\<forall>d \<in> D. tablesPhysical m div 4096 \<le> d_address (directory m d) \<and> tab_index m d < nextTable m) \<and>
     inj_on (tab_index m) D"

definition pt :: "mapping \<Rightarrow> nat \<Rightarrow> nat \<Rightarrow> table_entry" where
  "pt m d t = tables m (tab_index m d) t"

lemma table_frame:
  assumes "0 < b" "b mod 4096 = 0" "b + n * 4096 \<le> two32" "k < n" "a = b div 4096 + k"
  shows "0 < a" "a < 1048576" "a * 4096 mod two32 = b + k * 4096"
proof -
  obtain q where q: "b = 4096 * q" using mod_0_imp_dvd[OF assms(2)] by blast
  with assms show "0 < a" "a < 1048576" by auto
  show "a * 4096 mod two32 = b + k * 4096" using q assms(3-5) by simp
qed

lemma to_virtual_open:
  assumes "core D m" and "d \<in> D"
  shows "to_virtual m (get_table (directory m d)) = Some (tab_index m d)"
proof -
  have c: "0 < tablesPhysical m" "tablesPhysical m mod 4096 = 0" "tablesPhysical m + tablesCount m * 4096 \<le> two32"
    "tablesPhysical m div 4096 \<le> d_address (directory m d)" "tab_index m d < tablesCount m"
    using assms by (auto simp: core_def)
  have a: "d_address (directory m d) = tablesPhysical m div 4096 + tab_index m d"
    using c(4) by (simp add: tab_index_def)
  note f = table_frame[OF c(1-3,5) a]
  from f(1,3) have "get_table (directory m d) = tablesPhysical m + tab_index m d * 4096"
    by (simp add: get_table_def)
  with c(5) show ?thesis by (simp add: to_virtual_def)
qed

lemma open_directory_correct:
  assumes "core D m" and "d \<notin> D" and "d < 1024" and "nextTable m < tablesCount m"
  obtains m1 where "open_directory d m = Some m1" "core (insert d D) m1"
    "\<And>e t. e \<in> D \<Longrightarrow> pt m1 e t = pt m e t" "\<And>t. t < 1024 \<Longrightarrow> \<not> t_present (pt m1 d t)"
    "nextTable m1 = nextTable m + 1" "tablesCount m1 = tablesCount m"
    "nextLowDirectory m1 = nextLowDirectory m" "nextHighDirectory m1 = nextHighDirectory m"
    "nextLowTable m1 = nextLowTable m" "nextHighTable m1 = nextHighTable m"
proof -
  let ?i = "nextTable m" and ?b = "tablesPhysical m"
  have c: "0 < ?b" "?b mod 4096 = 0" "?b + tablesCount m * 4096 \<le> two32" "D \<subseteq> {..<1024}"
    "\<And>e. e < 1024 \<Longrightarrow> d_present (directory m e) \<longleftrightarrow> e \<in> D"
    "\<And>e. e \<in> D \<Longrightarrow> ?b div 4096 \<le> d_address (directory m e) \<and> tab_index m e < ?i" "inj_on (tab_index m) D"
    using assms(1) by (auto simp: core_def)
  note f = table_frame[OF c(1-3) assms(4) refl]
  have aligned: "(?b + ?i * 4096) mod 4096 = 0" and frame: "(?b + ?i * 4096) div 4096 = ?b div 4096 + ?i"
    using c(2) by auto
  have lt: "?b + ?i * 4096 < two32" using assms(4) c(3) by linarith
  define e where "e = (fresh_directory (directory m d))\<lparr>d_address := ?b div 4096 + ?i\<rparr>"
  define m1 where "m1 = (clear_table ?i (m\<lparr>nextTable := ?i + 1\<rparr>))\<lparr>directory := (directory m)(d := e)\<rparr>"
  have ph: "to_physical (m\<lparr>nextTable := ?i + 1\<rparr>) ?i = Some (?b + ?i * 4096)"
    using assms(4) lt by (simp add: to_physical_def add32_exact)
  have st: "set_table (?b + ?i * 4096) (fresh_directory (directory m d)) = Some e"
    using aligned frame f(2) by (simp add: set_table_def e_def)
  have "\<not> d_present (directory m d)" using c(5)[OF assms(3)] assms(2) by simp
  then have o: "open_directory d m = Some m1"
    using assms(4) ph st by (simp add: open_directory_def create_table_def m1_def)
  have ti: "tab_index m1 d = ?i" "\<And>x. x \<noteq> d \<Longrightarrow> tab_index m1 x = tab_index m x"
    by (simp_all add: m1_def tab_index_def clear_table_def e_def)
  have dirs: "\<And>x. x \<noteq> d \<Longrightarrow> directory m1 x = directory m x" "directory m1 d = e"
    by (simp_all add: m1_def)
  have inj: "inj_on (tab_index m1) (insert d D)"
    using c(7) c(6) assms(2) ti by (auto simp: inj_on_def) (metis less_irrefl)+
  have "core (insert d D) m1"
    unfolding core_def
  proof (intro conjI ballI allI impI)
    fix x :: nat assume "x < 1024"
    then show "d_present (directory m1 x) \<longleftrightarrow> x \<in> insert d D"
      using c(5) dirs by (cases "x = d") (auto simp: e_def fresh_directory_def)
  next
    fix x :: nat assume x: "x \<in> insert d D"
    show "tablesPhysical m1 div 4096 \<le> d_address (directory m1 x)"
      using x c(6) dirs by (cases "x = d") (auto simp: e_def m1_def clear_table_def)
    show "tab_index m1 x < nextTable m1"
      using x c(6) ti by (cases "x = d") (auto simp: m1_def clear_table_def less_Suc_eq)
  qed (use c assms(3,4) inj in \<open>auto simp: m1_def clear_table_def\<close>)
  moreover have "pt m1 x t = pt m x t" if "x \<in> D" for x t
  proof -
    have "x \<noteq> d" using that assms(2) by auto
    then show ?thesis using ti(2) c(6)[OF that] by (simp add: pt_def) (simp add: m1_def clear_table_def)
  qed
  moreover have "\<not> t_present (pt m1 d t)" if "t < 1024" for t
    using that by (simp add: pt_def ti(1)) (simp add: m1_def clear_table_def)
  moreover have "nextTable m1 = nextTable m + 1" "tablesCount m1 = tablesCount m"
    "nextLowDirectory m1 = nextLowDirectory m" "nextHighDirectory m1 = nextHighDirectory m"
    "nextLowTable m1 = nextLowTable m" "nextHighTable m1 = nextHighTable m"
    by (simp_all add: m1_def clear_table_def)
  ultimately show thesis using o that by blast
qed

text \<open>What mapping a page leaves in its entry.\<close>

definition entry_is :: "map_options \<Rightarrow> nat \<Rightarrow> table_entry \<Rightarrow> bool" where
  "entry_is opts page e \<longleftrightarrow> t_present e \<and> get_address e = page \<and> t_writable e = isWritable opts \<and>
     t_user e = isUserspace opts \<and> entry_caching e = caching opts"

lemma fill_entry_is:
  assumes "page mod 4096 = 0" and "page < two32"
  shows "\<exists>te. fill_entry opts page e = Some te \<and> entry_is opts page te"
proof -
  obtain k where k: "page = k * 4096" "k < 1048576"
    using mod_0_imp_dvd[OF assms(1)] assms(2) by (auto elim!: dvdE)
  have "entry_caching (option_flags opts e') = caching opts" for e'
    by (cases "caching opts") (simp_all add: entry_caching_def option_flags_def)
  with k show ?thesis
    by (auto simp: fill_entry_def set_address_def entry_is_def get_address_def option_flags_def entry_caching_def)
qed

lemma widen_keeps [simp]:
  "d_present (widen_directory te e) = d_present e" "d_address (widen_directory te e) = d_address e"
  by (simp_all add: widen_directory_def Let_def)

lemma map_page_correct:
  assumes core: "core D m" and d: "d < 1024" and first: "first \<longleftrightarrow> d \<notin> D"
    and room: "first \<Longrightarrow> nextTable m < tablesCount m"
    and page: "page mod 4096 = 0" "page < two32"
    and free: "assertFree \<Longrightarrow> \<not> first \<Longrightarrow> \<not> t_present (pt m d t)" and t: "t < 1024"
  obtains m1 where "map_page assertFree first d t page opts m = Some m1" "core (insert d D) m1"
    "entry_is opts page (pt m1 d t)" "\<And>e u. e \<in> D \<Longrightarrow> (e, u) \<noteq> (d, t) \<Longrightarrow> pt m1 e u = pt m e u"
    "\<And>u. first \<Longrightarrow> u < 1024 \<Longrightarrow> u \<noteq> t \<Longrightarrow> \<not> t_present (pt m1 d u)"
    "nextTable m1 = (if first then nextTable m + 1 else nextTable m)" "tablesCount m1 = tablesCount m"
    "nextLowDirectory m1 = nextLowDirectory m" "nextHighDirectory m1 = nextHighDirectory m"
    "nextLowTable m1 = nextLowTable m" "nextHighTable m1 = nextHighTable m"
proof -
  obtain m1 where m1: "(if first then open_directory d m else Some m) = Some m1" "core (insert d D) m1"
    "\<And>e u. e \<in> D \<Longrightarrow> pt m1 e u = pt m e u" "\<And>u. first \<Longrightarrow> u < 1024 \<Longrightarrow> \<not> t_present (pt m1 d u)"
    "nextTable m1 = (if first then nextTable m + 1 else nextTable m)" "tablesCount m1 = tablesCount m"
    "nextLowDirectory m1 = nextLowDirectory m" "nextHighDirectory m1 = nextHighDirectory m"
    "nextLowTable m1 = nextLowTable m" "nextHighTable m1 = nextHighTable m"
  proof (cases first)
    case True
    then have nd: "d \<notin> D" "nextTable m < tablesCount m" using first room by simp_all
    show thesis
    proof (rule open_directory_correct[OF core nd(1) d nd(2)], goal_cases)
      case (1 m1)
      then show thesis by (intro that[of m1]) (simp_all add: True)
    qed
  next
    case False
    then have "insert d D = D" using first by blast
    then show thesis using False core that[of m] by simp
  qed
  let ?i = "tab_index m1 d"
  have v: "to_virtual m1 (get_table (directory m1 d)) = Some ?i"
    by (rule to_virtual_open[OF m1(2)]) simp
  obtain te where te: "fill_entry opts page (tables m1 ?i t) = Some te" "entry_is opts page te"
    using fill_entry_is[OF page] by blast
  define m2 where "m2 = m1\<lparr>tables := (tables m1)(?i := (tables m1 ?i)(t := te)),
      directory := (directory m1)(d := widen_directory te (directory m1 d))\<rparr>"
  have nf: "\<not> (assertFree \<and> t_present (tables m1 ?i t))"
    using free m1(3,4) t first by (cases first) (auto simp: pt_def)
  have mp: "map_page assertFree first d t page opts m = Some m2"
    using d m1(1) v nf te(1) by (simp add: map_page_def m2_def)
  have ti: "tab_index m2 = tab_index m1" by (auto simp: m2_def tab_index_def fun_eq_iff)
  have core2: "core (insert d D) m2"
    using m1(2) unfolding core_def ti by (auto simp: m2_def)
  have ptd: "pt m2 d t = te" by (simp add: pt_def ti) (simp add: m2_def)
  have inj: "inj_on (tab_index m1) (insert d D)" using m1(2) by (simp add: core_def)
  have frame: "pt m2 e u = pt m1 e u" if "e \<in> insert d D" "(e, u) \<noteq> (d, t)" for e u
  proof -
    have "tab_index m1 e = ?i \<longleftrightarrow> e = d" using inj that(1) by (auto simp: inj_on_def)
    with that(2) show ?thesis by (simp add: pt_def ti) (auto simp: m2_def)
  qed
  have sel: "nextTable m2 = nextTable m1" "tablesCount m2 = tablesCount m1"
    "nextLowDirectory m2 = nextLowDirectory m1" "nextHighDirectory m2 = nextHighDirectory m1"
    "nextLowTable m2 = nextLowTable m1" "nextHighTable m2 = nextHighTable m1"
    by (simp_all add: m2_def)
  show thesis
  proof (rule that[OF mp core2])
    show "entry_is opts page (pt m2 d t)" using te(2) ptd by simp
    show "pt m2 e u = pt m e u" if "e \<in> D" "(e, u) \<noteq> (d, t)" for e u
      using frame[of e u] m1(3)[of e u] that by simp
    show "\<not> t_present (pt m2 d u)" if "first" "u < 1024" "u \<noteq> t" for u
      using frame[of d u] m1(4)[of u] that by simp
  qed (simp_all add: sel m1)
qed

section \<open>The cursors\<close>

definition high_top :: "nat \<Rightarrow> nat" where
  "high_top d = (if d = 1023 then 1022 else 1023)"

text \<open>The directories handed out so far, from either end.\<close>

definition opened :: "mapping \<Rightarrow> nat set" where
  "opened m = {d. d < 1024 \<and>
     (d < nextLowDirectory m \<or> d = nextLowDirectory m \<and> nextLowTable m \<noteq> 0 \<or>
      nextHighDirectory m < d \<or> d = nextHighDirectory m \<and> nextHighTable m \<noteq> high_top d)}"

definition mmu_inv :: "mapping \<Rightarrow> bool" where
  "mmu_inv m \<longleftrightarrow> core (opened m) m \<and> nextLowTable m < 1024 \<and> nextHighDirectory m \<le> 1023 \<and>
     nextHighTable m \<le> high_top (nextHighDirectory m) \<and> nextLowDirectory m < nextHighDirectory m \<and>
     (nextLowTable m \<noteq> 0 \<longrightarrow>
       (\<forall>t. nextLowTable m \<le> t \<and> t < 1024 \<longrightarrow> \<not> t_present (pt m (nextLowDirectory m) t)))"

lemma mmu_invD:
  assumes "mmu_inv m"
  shows "core (opened m) m" "nextLowTable m < 1024" "nextHighDirectory m \<le> 1023"
    "nextHighTable m \<le> high_top (nextHighDirectory m)" "nextLowDirectory m < nextHighDirectory m"
    "nextLowTable m \<noteq> 0 \<Longrightarrow> nextLowTable m \<le> t \<Longrightarrow> t < 1024 \<Longrightarrow> \<not> t_present (pt m (nextLowDirectory m) t)"
  using assms by (auto simp: mmu_inv_def)

lemma high_top_less: "t \<le> high_top d \<Longrightarrow> t < 1024"
  by (auto simp: high_top_def split: if_splits)

lemma high_in_opened: "mmu_inv m \<Longrightarrow>
    nextHighDirectory m \<in> opened m \<longleftrightarrow> nextHighTable m \<noteq> high_top (nextHighDirectory m)"
  by (auto simp: opened_def mmu_inv_def)

lemma low_in_opened: "mmu_inv m \<Longrightarrow> nextLowDirectory m \<in> opened m \<longleftrightarrow> nextLowTable m \<noteq> 0"
  by (auto simp: opened_def mmu_inv_def)

text \<open>Preparing a directory that is not in use changes nothing that matters.\<close>

lemma prep_core:
  assumes "core D m" and "d \<notin> D"
  shows "core D (m\<lparr>directory := (directory m)(d := prep_directory (directory m d))\<rparr>)"
proof -
  let ?m = "m\<lparr>directory := (directory m)(d := prep_directory (directory m d))\<rparr>"
  have ti: "tab_index ?m = tab_index m" by (auto simp: tab_index_def prep_directory_def fun_eq_iff)
  show ?thesis
    using assms unfolding core_def ti by (auto simp: prep_directory_def)
qed

lemma core_cursors [simp]:
  "core D (m\<lparr>nextLowTable := a\<rparr>) = core D m" "core D (m\<lparr>nextHighTable := a\<rparr>) = core D m"
  "core D (m\<lparr>nextLowDirectory := a\<rparr>) = core D m" "core D (m\<lparr>nextHighDirectory := a\<rparr>) = core D m"
  by (simp_all add: core_def tab_index_def[abs_def])

lemma pt_cursors [simp]:
  "pt (m\<lparr>nextLowTable := a\<rparr>) = pt m" "pt (m\<lparr>nextHighTable := a\<rparr>) = pt m"
  "pt (m\<lparr>nextLowDirectory := a\<rparr>) = pt m" "pt (m\<lparr>nextHighDirectory := a\<rparr>) = pt m"
  by (simp_all add: pt_def[abs_def] tab_index_def)

lemma pt_prep [simp]: "pt (m\<lparr>directory := (directory m)(d := prep_directory (directory m d))\<rparr>) = pt m"
  by (auto simp: pt_def tab_index_def prep_directory_def fun_eq_iff)

lemma virtual_address_exact:
  assumes "d < 1024" "t < 1024" "off < 4096"
  shows "virtual_address d t off = d * 4194304 + t * 4096 + off"
    and "directory_index (virtual_address d t off) = d" and "table_index (virtual_address d t off) = t"
    and "virtual_address d t off mod 4096 = off" and "virtual_address d t off div 4096 = d * 1024 + t"
proof -
  have lt: "t * 4096 + off < 4194304" "d * 4194304 + t * 4096 + off < two32" using assms by simp_all
  then show v: "virtual_address d t off = d * 4194304 + t * 4096 + off" by (simp add: virtual_address_def)
  have "(d * 4194304 + (t * 4096 + off)) div 4194304 = d" using lt(1) by simp
  then show "directory_index (virtual_address d t off) = d" using assms(1) v by (simp add: directory_index_def add.assoc)
  have e: "d * 4194304 + t * 4096 + off = (d * 1024 + t) * 4096 + off" by simp
  show p: "virtual_address d t off div 4096 = d * 1024 + t"
    unfolding v e using assms(3) by (simp only: div_mult_self3 div_less add_0_right)
  show "virtual_address d t off mod 4096 = off"
    unfolding v e using assms(3) by (simp only: mod_mult_self3 mod_less)
  show "table_index (virtual_address d t off) = t" using p assms(2) by (simp add: table_index_def)
qed

lemma get_physical_open:
  assumes "core D m" and "directory_index v \<in> D"
  shows "get_physical v m = Some (add32 (get_address (pt m (directory_index v) (table_index v))) (v mod 4096))"
  using to_virtual_open[OF assms] by (simp add: get_physical_def pt_def)

lemma get_virtual_options_open:
  assumes "core D m" and "directory_index v \<in> D"
  shows "get_virtual_options v m =
    (let e = pt m (directory_index v) (table_index v) in
     Some (if t_present e then Inr \<lparr>isUserspace = t_user e, isWritable = t_writable e, isExecutable = True,
             caching = entry_caching e\<rparr> else Inl ''Page does not exist''))"
proof -
  let ?a = "get_table (directory m (directory_index v))"
  have v: "to_virtual m ?a = Some (tab_index m (directory_index v))" by (rule to_virtual_open[OF assms])
  have "0 < tablesPhysical m" using assms(1) by (simp add: core_def)
  then have "?a \<noteq> 0" using v by (auto simp: to_virtual_def Let_def split: if_splits)
  with v show ?thesis by (simp add: get_virtual_options_def pt_def Let_def)
qed

section \<open>Mapping from either end\<close>

definition high_pos :: "mapping \<Rightarrow> nat" where
  "high_pos m = nextHighDirectory m * 1024 + nextHighTable m"

definition low_pos :: "mapping \<Rightarrow> nat" where
  "low_pos m = nextLowDirectory m * 1024 + nextLowTable m"

text \<open>What both ends promise for the page at \<open>(d, t)\<close>.\<close>

definition mapped_at :: "nat \<Rightarrow> nat \<Rightarrow> nat \<Rightarrow> map_options \<Rightarrow> mapping \<Rightarrow> mapping \<Rightarrow> bool" where
  "mapped_at d t physical opts m m' \<longleftrightarrow> mmu_inv m' \<and> opened m' = insert d (opened m) \<and>
     entry_is opts (physical - physical mod 4096) (pt m' d t) \<and>
     (\<forall>e u. e \<in> opened m \<and> (e, u) \<noteq> (d, t) \<longrightarrow> pt m' e u = pt m e u) \<and>
     nextTable m' = (if d \<in> opened m then nextTable m else nextTable m + 1) \<and> tablesCount m' = tablesCount m"

definition same_cursors :: "mapping \<Rightarrow> mapping \<Rightarrow> bool" where
  "same_cursors m m1 \<longleftrightarrow> nextLowDirectory m1 = nextLowDirectory m \<and> nextHighDirectory m1 = nextHighDirectory m \<and>
     nextLowTable m1 = nextLowTable m \<and> nextHighTable m1 = nextHighTable m \<and> tablesCount m1 = tablesCount m"

lemma map_page_ex:
  assumes "core D m" "d < 1024" "first \<longleftrightarrow> d \<notin> D" "d \<notin> D \<Longrightarrow> nextTable m < tablesCount m"
    "physical < two32" "assertFree \<Longrightarrow> d \<in> D \<Longrightarrow> \<not> t_present (pt m d t)" "t < 1024"
  shows "\<exists>m1. map_page assertFree first d t (physical - physical mod 4096) opts m = Some m1 \<and>
    core (insert d D) m1 \<and> entry_is opts (physical - physical mod 4096) (pt m1 d t) \<and>
    (\<forall>e u. e \<in> D \<and> (e, u) \<noteq> (d, t) \<longrightarrow> pt m1 e u = pt m e u) \<and>
    (\<forall>u. d \<notin> D \<and> u < 1024 \<and> u \<noteq> t \<longrightarrow> \<not> t_present (pt m1 d u)) \<and>
    nextTable m1 = (if d \<in> D then nextTable m else nextTable m + 1) \<and> same_cursors m m1"
proof -
  have page: "(physical - physical mod 4096) mod 4096 = 0" "physical - physical mod 4096 < two32"
    using assms(5) by (auto simp: minus_mod_eq_mult_div)
  have a: "first \<Longrightarrow> nextTable m < tablesCount m" "assertFree \<Longrightarrow> \<not> first \<Longrightarrow> \<not> t_present (pt m d t)"
    using assms(3,4,6) by blast+
  show ?thesis
    by (rule map_page_correct[OF assms(1-3) a(1) page a(2) assms(7), where opts = opts])
      (auto simp: same_cursors_def assms(3))
qed

lemma map_high_correct:
  assumes inv: "mmu_inv m" and gap: "nextLowDirectory m + 1 < nextHighDirectory m"
    and tab: "nextHighDirectory m \<notin> opened m \<Longrightarrow> nextTable m < tablesCount m" and ph: "physical < two32"
  shows "\<exists>m'. map_high physical opts m =
      Some (virtual_address (nextHighDirectory m) (nextHighTable m) (physical mod 4096), m') \<and>
    mapped_at (nextHighDirectory m) (nextHighTable m) physical opts m m' \<and>
    high_pos m' + 1 = high_pos m \<and> low_pos m' = low_pos m \<and> nextLowDirectory m' = nextLowDirectory m"
proof -
  let ?d = "nextHighDirectory m" and ?t = "nextHighTable m" and ?page = "physical - physical mod 4096"
  let ?first = "?t = 1023 \<or> ?d = 1023 \<and> ?t = 1022"
  note I = mmu_invD[OF inv]
  have t: "?t < 1024" by (rule high_top_less[OF I(4)])
  have d: "?d < 1024" using I(3) by simp
  have first: "?first \<longleftrightarrow> ?d \<notin> opened m"
    using high_in_opened[OF inv] I(4) by (auto simp: high_top_def split: if_splits)
  from map_page_ex[OF I(1) d first tab ph _ t, where assertFree = False and opts = opts] obtain m1 where
    m1: "map_page False ?first ?d ?t ?page opts m = Some m1" "core (insert ?d (opened m)) m1"
    "entry_is opts ?page (pt m1 ?d ?t)" "\<forall>e u. e \<in> opened m \<and> (e, u) \<noteq> (?d, ?t) \<longrightarrow> pt m1 e u = pt m e u"
    "nextTable m1 = (if ?d \<in> opened m then nextTable m else nextTable m + 1)" "same_cursors m m1" by blast
  note c = m1(6)[unfolded same_cursors_def]
  define m2 where "m2 = (if ?t = 0 then m1\<lparr>nextHighTable := 1023, nextHighDirectory := ?d - 1,
      directory := (directory m1)(?d - 1 := prep_directory (directory m1 (?d - 1)))\<rparr>
      else m1\<lparr>nextHighTable := ?t - 1\<rparr>)"
  have mh: "map_high physical opts m = Some (virtual_address ?d ?t (physical mod 4096), m2)"
    using m1(1) c gap by (simp add: map_high_def Let_def m2_def)
  have op: "opened m2 = insert ?d (opened m)"
    using c I(3-5) gap by (auto simp: opened_def m2_def high_top_def split: if_splits)
  have pt2: "pt m2 = pt m1" unfolding m2_def by (simp add: fun_eq_iff pt_def tab_index_def prep_directory_def)
  have "core (insert ?d (opened m)) m2"
  proof (cases "?t = 0")
    case True
    have "?d - 1 \<notin> insert ?d (opened m)"
      using gap I(3) by (auto simp: opened_def)
    from prep_core[OF m1(2) this] True show ?thesis unfolding m2_def core_def tab_index_def[abs_def] by simp
  next
    case False
    with m1(2) show ?thesis by (simp add: m2_def)
  qed
  moreover have "nextLowTable m2 \<noteq> 0 \<longrightarrow>
      (\<forall>t. nextLowTable m2 \<le> t \<and> t < 1024 \<longrightarrow> \<not> t_present (pt m2 (nextLowDirectory m2) t))"
  proof (intro impI allI)
    fix u assume u: "nextLowTable m2 \<noteq> 0" "nextLowTable m2 \<le> u \<and> u < 1024"
    have lo: "nextLowTable m2 = nextLowTable m" "nextLowDirectory m2 = nextLowDirectory m"
      using c by (simp_all add: m2_def)
    have "nextLowDirectory m \<in> opened m" using low_in_opened[OF inv] u lo by simp
    moreover have "(nextLowDirectory m, u) \<noteq> (?d, ?t)" using I(5) by simp
    ultimately have "pt m1 (nextLowDirectory m) u = pt m (nextLowDirectory m) u" using m1(4) by blast
    then show "\<not> t_present (pt m2 (nextLowDirectory m2) u)" using I(6)[of u] u lo pt2 by simp
  qed
  ultimately have inv2: "mmu_inv m2"
    unfolding mmu_inv_def op using c I gap by (auto simp: m2_def high_top_def split: if_splits)
  have "mapped_at ?d ?t physical opts m m2"
    unfolding mapped_at_def pt2 using inv2 op m1(3,4,5) c by (simp add: m2_def)
  moreover have "high_pos m2 + 1 = high_pos m \<and> low_pos m2 = low_pos m \<and> nextLowDirectory m2 = nextLowDirectory m"
    using c gap by (cases "?d") (auto simp: m2_def high_pos_def low_pos_def)
  ultimately show ?thesis using mh by blast
qed

lemma map_low_correct:
  assumes inv: "mmu_inv m" and gap: "nextLowDirectory m + 1 < nextHighDirectory m"
    and tab: "nextLowDirectory m \<notin> opened m \<Longrightarrow> nextTable m < tablesCount m" and ph: "physical < two32"
  shows "\<exists>m'. map_low physical opts m =
      Some (virtual_address (nextLowDirectory m) (nextLowTable m) (physical mod 4096), m') \<and>
    mapped_at (nextLowDirectory m) (nextLowTable m) physical opts m m' \<and>
    low_pos m' = low_pos m + 1 \<and> high_pos m' = high_pos m \<and> nextHighDirectory m' = nextHighDirectory m"
proof -
  let ?d = "nextLowDirectory m" and ?t = "nextLowTable m" and ?page = "physical - physical mod 4096"
  note I = mmu_invD[OF inv]
  have d: "?d < 1024" using I(3,5) by simp
  have first: "?t = 0 \<longleftrightarrow> ?d \<notin> opened m" using low_in_opened[OF inv] by simp
  have free: "?d \<in> opened m \<Longrightarrow> \<not> t_present (pt m ?d ?t)" using I(2) I(6)[of ?t] first by simp
  from map_page_ex[OF I(1) d first tab ph free I(2), where assertFree = True and opts = opts] obtain m1 where
    m1: "map_page True (?t = 0) ?d ?t ?page opts m = Some m1" "core (insert ?d (opened m)) m1"
    "entry_is opts ?page (pt m1 ?d ?t)" "\<forall>e u. e \<in> opened m \<and> (e, u) \<noteq> (?d, ?t) \<longrightarrow> pt m1 e u = pt m e u"
    "\<forall>u. ?d \<notin> opened m \<and> u < 1024 \<and> u \<noteq> ?t \<longrightarrow> \<not> t_present (pt m1 ?d u)"
    "nextTable m1 = (if ?d \<in> opened m then nextTable m else nextTable m + 1)" "same_cursors m m1" by blast
  note c = m1(7)[unfolded same_cursors_def]
  define m2 where "m2 = (if ?t = 1023 then m1\<lparr>nextLowTable := 0, nextLowDirectory := ?d + 1,
      directory := (directory m1)(?d + 1 := prep_directory (directory m1 (?d + 1)))\<rparr>
      else m1\<lparr>nextLowTable := ?t + 1\<rparr>)"
  have ml: "map_low physical opts m = Some (virtual_address ?d ?t (physical mod 4096), m2)"
    using m1(1) c gap I(3) by (simp add: map_low_def Let_def m2_def)
  have op: "opened m2 = insert ?d (opened m)"
    using c I(3-5) gap d by (auto simp: opened_def m2_def split: if_splits)
  have pt2: "pt m2 = pt m1" unfolding m2_def by (simp add: fun_eq_iff pt_def tab_index_def prep_directory_def)
  have "core (insert ?d (opened m)) m2"
  proof (cases "?t = 1023")
    case True
    have "?d + 1 \<notin> insert ?d (opened m)"
      using gap by (auto simp: opened_def)
    from prep_core[OF m1(2) this] True show ?thesis unfolding m2_def core_def tab_index_def[abs_def] by simp
  next
    case False
    with m1(2) show ?thesis by (simp add: m2_def)
  qed
  moreover have "nextLowTable m2 \<noteq> 0 \<longrightarrow>
      (\<forall>t. nextLowTable m2 \<le> t \<and> t < 1024 \<longrightarrow> \<not> t_present (pt m2 (nextLowDirectory m2) t))"
  proof (intro impI allI)
    fix u assume u: "nextLowTable m2 \<noteq> 0" "nextLowTable m2 \<le> u \<and> u < 1024"
    then have t: "?t \<noteq> 1023" and lo: "nextLowTable m2 = ?t + 1" "nextLowDirectory m2 = ?d"
      using c by (auto simp: m2_def split: if_splits)
    show "\<not> t_present (pt m2 (nextLowDirectory m2) u)"
    proof (cases "?d \<in> opened m")
      case True
      then have "pt m1 ?d u = pt m ?d u" using m1(4) u lo by simp
      moreover have "?t \<noteq> 0" using first True by simp
      ultimately show ?thesis using I(6)[of u] u lo pt2 by simp
    next
      case False
      then show ?thesis using m1(5) u lo pt2 by simp
    qed
  qed
  ultimately have inv2: "mmu_inv m2"
    unfolding mmu_inv_def op using c I gap by (auto simp: m2_def split: if_splits)
  have "mapped_at ?d ?t physical opts m m2"
    unfolding mapped_at_def pt2 using inv2 op m1(3,4,6) c by (simp add: m2_def)
  moreover have "low_pos m2 = low_pos m + 1 \<and> high_pos m2 = high_pos m \<and> nextHighDirectory m2 = nextHighDirectory m"
    using c by (auto simp: m2_def high_pos_def low_pos_def)
  ultimately show ?thesis using ml by blast
qed

section \<open>Translation\<close>

lemma mapped_core:
  assumes "mapped_at d t physical opts m m'"
  shows "mmu_inv m'" "core (opened m') m'" "opened m' = insert d (opened m)"
proof -
  show i: "mmu_inv m'" and "opened m' = insert d (opened m)" using assms by (simp_all only: mapped_at_def)
  show "core (opened m') m'" by (rule mmu_invD(1)[OF i])
qed

lemma mapped_translate:
  assumes m: "mapped_at d t physical opts m m'" and dt: "d < 1024" "t < 1024" and ph: "physical < two32"
  shows "get_physical (virtual_address d t (physical mod 4096)) m' = Some physical"
    and "get_virtual_options (virtual_address d t (physical mod 4096)) m' = Some (Inr (opts\<lparr>isExecutable := True\<rparr>))"
proof -
  let ?v = "virtual_address d t (physical mod 4096)"
  have off: "physical mod 4096 < 4096" by simp
  note va = virtual_address_exact[OF dt off]
  have c: "core (opened m') m'" "directory_index ?v \<in> opened m'"
    using mapped_core[OF m] va(2) by simp_all
  have e: "entry_is opts (physical - physical mod 4096) (pt m' d t)" using m by (simp add: mapped_at_def)
  have "physical - physical mod 4096 + physical mod 4096 = physical" by simp
  then show "get_physical ?v m' = Some physical"
    using get_physical_open[OF c] e va ph by (simp add: entry_is_def add32_exact)
  show "get_virtual_options ?v m' = Some (Inr (opts\<lparr>isExecutable := True\<rparr>))"
    using get_virtual_options_open[OF c] e va by (simp add: entry_is_def Let_def)
qed

lemma mapped_frame:
  assumes m: "mapped_at d t physical opts m m'" and inv: "mmu_inv m" and w: "directory_index w \<in> opened m"
    and ne: "(directory_index w, table_index w) \<noteq> (d, t)"
  shows "get_physical w m' = get_physical w m" "get_virtual_options w m' = get_virtual_options w m"
proof -
  have c: "core (opened m) m" "core (opened m') m'" "directory_index w \<in> opened m'"
    using mapped_core[OF m] mmu_invD(1)[OF inv] w by simp_all
  have "pt m' (directory_index w) (table_index w) = pt m (directory_index w) (table_index w)"
    using m w ne by (simp add: mapped_at_def)
  then show "get_physical w m' = get_physical w m" "get_virtual_options w m' = get_virtual_options w m"
    using get_physical_open[OF c(1) w] get_physical_open[OF c(2,3)]
      get_virtual_options_open[OF c(1) w] get_virtual_options_open[OF c(2,3)] by simp_all
qed

lemma mmu_inv_new:
  assumes "0 < base" "base mod 4096 = 0" "base + n * 4096 \<le> two32"
  shows "mmu_inv (new_mapping base n)" "opened (new_mapping base n) = {}"
proof -
  show o: "opened (new_mapping base n) = {}" by (auto simp: opened_def new_mapping_def high_top_def)
  show "mmu_inv (new_mapping base n)"
    using assms unfolding mmu_inv_def o by (simp add: core_def new_mapping_def high_top_def)
qed

definition map_result :: "nat \<Rightarrow> map_options \<Rightarrow> mapping \<Rightarrow> nat \<Rightarrow> mapping \<Rightarrow> bool" where
  "map_result physical opts m v m' \<longleftrightarrow> mmu_inv m' \<and> get_physical v m' = Some physical \<and>
     get_virtual_options v m' = Some (Inr (opts\<lparr>isExecutable := True\<rparr>)) \<and>
     (\<forall>w. directory_index w \<in> opened m \<and> (directory_index w, table_index w) \<noteq> (directory_index v, table_index v) \<longrightarrow>
       get_physical w m' = get_physical w m \<and> get_virtual_options w m' = get_virtual_options w m)"

lemma mapped_result:
  assumes "mapped_at d t physical opts m m'" "d < 1024" "t < 1024" "physical < two32" "mmu_inv m"
  shows "map_result physical opts m (virtual_address d t (physical mod 4096)) m'"
proof -
  have off: "physical mod 4096 < 4096" by simp
  note va = virtual_address_exact[OF assms(2,3) off]
  show ?thesis
    unfolding map_result_def va(2,3)
    using mapped_core(1)[OF assms(1)] mapped_translate[OF assms(1-4)] mapped_frame[OF assms(1,5)] by blast
qed

text \<open>C5. Mapping a physical page at either end of the address space: as long as the two ends are more than a
  directory apart and a page table is left, the call succeeds and keeps the paging structures sound; the
  returned address translates to exactly the requested physical address, its options read back (executable
  always reads true), and every other page of an opened directory translates as before. Low addresses
  ascend and high addresses descend page by page.\<close>

theorem mmu_map_translate:
  assumes "mmu_inv m" and "nextLowDirectory m + 1 < nextHighDirectory m" and "nextTable m < tablesCount m"
    and "physical < two32"
  shows "(\<exists>v m'. map_high physical opts m = Some (v, m') \<and> map_result physical opts m v m' \<and>
      v div 4096 = high_pos m \<and> high_pos m' + 1 = high_pos m) \<and>
    (\<exists>v m'. map_low physical opts m = Some (v, m') \<and> map_result physical opts m v m' \<and>
      v div 4096 = low_pos m \<and> low_pos m' = low_pos m + 1)"
proof -
  note I = mmu_invD[OF assms(1)]
  have off: "physical mod 4096 < 4096" by simp
  have hi: "nextHighDirectory m < 1024" "nextHighTable m < 1024" using I(3) high_top_less[OF I(4)] by simp_all
  have lo: "nextLowDirectory m < 1024" "nextLowTable m < 1024" using I(2,3,5) by simp_all
  from map_high_correct[OF assms(1,2) assms(3,4), of opts] mapped_result[OF _ hi assms(4,1)]
    virtual_address_exact(5)[OF hi off]
  have "\<exists>v m'. map_high physical opts m = Some (v, m') \<and> map_result physical opts m v m' \<and>
      v div 4096 = high_pos m \<and> high_pos m' + 1 = high_pos m" unfolding high_pos_def by blast
  moreover from map_low_correct[OF assms(1,2) assms(3,4), of opts] mapped_result[OF _ lo assms(4,1)]
    virtual_address_exact(5)[OF lo off]
  have "\<exists>v m'. map_low physical opts m = Some (v, m') \<and> map_result physical opts m v m' \<and>
      v div 4096 = low_pos m \<and> low_pos m' = low_pos m + 1" unfolding low_pos_def by blast
  ultimately show ?thesis by blast
qed

theorem mmu_map_translate_witness:
  "(\<exists>v m'. map_high 12345 \<lparr>isUserspace = False, isWritable = True, isExecutable = False, caching = WriteBack\<rparr>
      (new_mapping 1048576 16) = Some (v, m') \<and>
    map_result 12345 \<lparr>isUserspace = False, isWritable = True, isExecutable = False, caching = WriteBack\<rparr>
      (new_mapping 1048576 16) v m' \<and> v div 4096 = 1023 * 1024 + 1022)"
proof -
  have "mmu_inv (new_mapping 1048576 16)" by (rule mmu_inv_new) simp_all
  from mmu_map_translate[OF this, of 12345] show ?thesis
    by (simp add: new_mapping_def high_pos_def) blast
qed

end
