(* ===== verification/PageMapper.thy ===== *)
theory PageMapper
  imports X86Mmu
begin

text \<open>
  The contract of \<^verbatim>\<open>kernel/mmu.hpp\<close>: "low mappings should ALWAYS return sequential addresses when called
  repeatedly", high ones reverse sequential ones. The locale \<open>page_mapper\<close> states it over the sequence of pages a
  mapper will hand out; its client lemma maps a whole list of physical pages. Both ends of theory X86Mmu are
  interpretations.
\<close>

section \<open>The interface\<close>

locale page_mapper =
  fixes inv :: "'s \<Rightarrow> bool"
    and room :: "nat \<Rightarrow> 's \<Rightarrow> bool"
    and mapp :: "nat \<Rightarrow> 'o \<Rightarrow> 's \<Rightarrow> (nat \<times> 's) option"
    and trans :: "nat \<Rightarrow> 's \<Rightarrow> nat option"
    and pos :: "'s \<Rightarrow> nat \<Rightarrow> nat"
    and held :: "'s \<Rightarrow> nat \<Rightarrow> bool"
  assumes map_ok: "inv s \<Longrightarrow> room (Suc n) s \<Longrightarrow> p < 4294967296 \<Longrightarrow>
      \<exists>v s'. mapp p opts s = Some (v, s') \<and> inv s' \<and> room n s' \<and> v = pos s 0 * 4096 + p mod 4096 \<and>
        trans v s' = Some p \<and> held s' (pos s 0) \<and> (\<forall>k. k < n \<longrightarrow> pos s' k = pos s (Suc k)) \<and>
        (\<forall>w. held s (w div 4096) \<and> w div 4096 \<noteq> pos s 0 \<longrightarrow> held s' (w div 4096) \<and> trans w s' = trans w s)"
    and pos_inj: "inv s \<Longrightarrow> room n s \<Longrightarrow> i < n \<Longrightarrow> j < n \<Longrightarrow> i \<noteq> j \<Longrightarrow> pos s i \<noteq> pos s j"

fun map_all :: "(nat \<Rightarrow> 'o \<Rightarrow> 's \<Rightarrow> (nat \<times> 's) option) \<Rightarrow> 'o \<Rightarrow> nat list \<Rightarrow> 's \<Rightarrow> (nat list \<times> 's) option" where
  "map_all mapp opts [] s = Some ([], s)"
| "map_all mapp opts (p # ps) s =
     (case mapp p opts s of
        None \<Rightarrow> None
      | Some (v, s1) \<Rightarrow>
          (case map_all mapp opts ps s1 of None \<Rightarrow> None | Some (vs, s2) \<Rightarrow> Some (v # vs, s2)))"

context page_mapper begin

lemma map_all_ok:
  "inv s \<Longrightarrow> room (length ps + n) s \<Longrightarrow> \<forall>p \<in> set ps. p < 4294967296 \<Longrightarrow>
    \<exists>vs s'. map_all mapp opts ps s = Some (vs, s') \<and> inv s' \<and> room n s' \<and> length vs = length ps \<and>
      (\<forall>i < length ps. vs ! i = pos s i * 4096 + ps ! i mod 4096 \<and> trans (vs ! i) s' = Some (ps ! i) \<and>
        held s' (pos s i)) \<and>
      (\<forall>w. held s (w div 4096) \<and> (\<forall>i < length ps. w div 4096 \<noteq> pos s i) \<longrightarrow>
        held s' (w div 4096) \<and> trans w s' = trans w s) \<and>
      (\<forall>k < n. pos s' k = pos s (length ps + k))"
proof (induction ps arbitrary: s)
  case Nil
  then show ?case by simp
next
  case (Cons p ps)
  from Cons.prems have r: "room (Suc (length ps + n)) s" by simp
  from map_ok[OF Cons.prems(1) r, of p opts] Cons.prems(3) obtain v s1 where
    m: "mapp p opts s = Some (v, s1)" "inv s1" "room (length ps + n) s1" "v = pos s 0 * 4096 + p mod 4096"
    "trans v s1 = Some p" "held s1 (pos s 0)" "\<And>k. k < length ps + n \<Longrightarrow> pos s1 k = pos s (Suc k)"
    "\<And>w. held s (w div 4096) \<Longrightarrow> w div 4096 \<noteq> pos s 0 \<Longrightarrow> held s1 (w div 4096) \<and> trans w s1 = trans w s"
    by auto
  have "\<forall>p \<in> set ps. p < 4294967296" using Cons.prems(3) by simp
  from Cons.IH[OF m(2,3) this] obtain vs s2 where
    v: "map_all mapp opts ps s1 = Some (vs, s2)" "inv s2" "room n s2" "length vs = length ps"
    "\<forall>i < length ps. vs ! i = pos s1 i * 4096 + ps ! i mod 4096 \<and> trans (vs ! i) s2 = Some (ps ! i) \<and>
      held s2 (pos s1 i)"
    "\<forall>w. held s1 (w div 4096) \<and> (\<forall>i < length ps. w div 4096 \<noteq> pos s1 i) \<longrightarrow>
      held s2 (w div 4096) \<and> trans w s2 = trans w s1"
    "\<forall>k < n. pos s2 k = pos s1 (length ps + k)"
    by blast
  have ne: "pos s 0 \<noteq> pos s1 i" if "i < length ps" for i
    using pos_inj[OF Cons.prems(1) r, of 0 "Suc i"] m(7)[of i] that by simp
  have vp: "v div 4096 = pos s 0" unfolding m(4) by simp
  have first: "trans v s2 = Some p" "held s2 (pos s 0)"
    using v(6)[rule_format, of v] m(5,6,7) ne vp by auto
  have all: "(v # vs) ! i = pos s i * 4096 + (p # ps) ! i mod 4096 \<and> trans ((v # vs) ! i) s2 = Some ((p # ps) ! i) \<and>
      held s2 (pos s i)" if "i < length (p # ps)" for i
    using that first m(4,7) v(5) by (cases i) auto
  have frame: "held s2 (w div 4096) \<and> trans w s2 = trans w s"
    if "held s (w div 4096)" "\<forall>i < length (p # ps). w div 4096 \<noteq> pos s i" for w
  proof -
    have n0: "w div 4096 \<noteq> pos s 0" using that(2) by auto
    have "\<forall>i < length ps. w div 4096 \<noteq> pos s1 i"
    proof (intro allI impI)
      fix i assume "i < length ps"
      with that(2) m(7)[of i] show "w div 4096 \<noteq> pos s1 i" by auto
    qed
    with m(8)[OF that(1) n0] v(6) show ?thesis by simp
  qed
  have "map_all mapp opts (p # ps) s = Some (v # vs, s2)" "length (v # vs) = length (p # ps)"
    using m(1) v(1,4) by simp_all
  moreover have "\<forall>k < n. pos s2 k = pos s (length (p # ps) + k)" using v(7) m(7) by simp
  ultimately show ?case using v(2,3) all frame by blast
qed

end

section \<open>Both ends of the x86 mapping\<close>

definition high_cap :: "mapping \<Rightarrow> nat" where
  "high_cap m = (if nextHighDirectory m \<in> opened m then nextHighTable m + 1 + 1024 * (tablesCount m - nextTable m)
     else 1024 * (tablesCount m - nextTable m) - (if nextHighDirectory m = 1023 then 1 else 0))"

definition high_room :: "nat \<Rightarrow> mapping \<Rightarrow> bool" where
  "high_room n m \<longleftrightarrow> n \<le> high_cap m \<and> (nextLowDirectory m + 2) * 1024 + n \<le> high_pos m + 1"

definition low_cap :: "mapping \<Rightarrow> nat" where
  "low_cap m = (if nextLowDirectory m \<in> opened m then 1024 - nextLowTable m + 1024 * (tablesCount m - nextTable m)
     else 1024 * (tablesCount m - nextTable m))"

definition low_room :: "nat \<Rightarrow> mapping \<Rightarrow> bool" where
  "low_room n m \<longleftrightarrow> n \<le> low_cap m \<and> low_pos m + n + 1024 \<le> nextHighDirectory m * 1024"

definition page_held :: "mapping \<Rightarrow> nat \<Rightarrow> bool" where
  "page_held m q \<longleftrightarrow> q < 1048576 \<and> q div 1024 \<in> opened m"

lemma page_index: "w < two32 \<Longrightarrow> directory_index w = w div 4096 div 1024 \<and> table_index w = w div 4096 mod 1024"
  by (simp add: directory_index_def table_index_def div_mult2_eq[symmetric])

lemma high_pos_parts: "nextHighTable m < 1024 \<Longrightarrow>
    nextHighDirectory m = high_pos m div 1024 \<and> nextHighTable m = high_pos m mod 1024"
  by (simp add: high_pos_def)

lemma low_pos_parts: "nextLowTable m < 1024 \<Longrightarrow>
    nextLowDirectory m = low_pos m div 1024 \<and> nextLowTable m = low_pos m mod 1024"
  by (simp add: low_pos_def)

lemma mapped_page_held:
  assumes "mapped_at d t physical opts m m'" "d < 1024" "t < 1024" "mmu_inv m" "page_held m (w div 4096)"
    "w div 4096 \<noteq> d * 1024 + t"
  shows "page_held m' (w div 4096)" "get_physical w m' = get_physical w m"
proof -
  show "page_held m' (w div 4096)" using assms(5) mapped_core(3)[OF assms(1)] by (simp add: page_held_def)
  have "w < two32" using assms(5) by (simp add: page_held_def less_mult_imp_div_less div_less_iff_less_mult)
  then have i: "directory_index w = w div 4096 div 1024" "table_index w = w div 4096 mod 1024"
    using page_index by blast+
  have "(directory_index w, table_index w) \<noteq> (d, t)"
    using assms(6) div_mult_mod_eq[of "w div 4096" 1024] unfolding i by auto
  moreover have "directory_index w \<in> opened m" using assms(5) i by (simp add: page_held_def)
  ultimately show "get_physical w m' = get_physical w m" by (intro mapped_frame(1)[OF assms(1,4)])
qed

lemma new_page_held: "mapped_at d t physical opts m m' \<Longrightarrow> d < 1024 \<Longrightarrow> t < 1024 \<Longrightarrow> page_held m' (d * 1024 + t)"
  using mapped_core(3)[of d t physical opts m m'] by (auto simp: page_held_def)

lemma virtual_high:
  "mmu_inv m \<Longrightarrow> virtual_address (nextHighDirectory m) (nextHighTable m) (p mod 4096) = high_pos m * 4096 + p mod 4096"
  using virtual_address_exact(1)[of "nextHighDirectory m" "nextHighTable m" "p mod 4096"]
    high_top_less[OF mmu_invD(4)] mmu_invD(3)[of m] by (simp add: high_pos_def)

lemma virtual_low:
  "mmu_inv m \<Longrightarrow> virtual_address (nextLowDirectory m) (nextLowTable m) (p mod 4096) = low_pos m * 4096 + p mod 4096"
  using virtual_address_exact(1)[of "nextLowDirectory m" "nextLowTable m" "p mod 4096"]
    mmu_invD(2,3,5)[of m] by (simp add: low_pos_def)

lemma high_room_step:
  assumes inv: "mmu_inv m" and room: "high_room (Suc n) m"
    and at: "mapped_at (nextHighDirectory m) (nextHighTable m) p opts m m'"
    and pos: "high_pos m' + 1 = high_pos m" "nextLowDirectory m' = nextLowDirectory m"
  shows "high_room n m'"
proof -
  let ?d = "nextHighDirectory m" and ?t = "nextHighTable m"
  note inv' = mapped_core(1)[OF at] and op = mapped_core(3)[OF at]
  note I = mmu_invD[OF inv]
  have t: "?t < 1024" by (rule high_top_less[OF I(4)])
  have t': "nextHighTable m' < 1024" by (rule high_top_less[OF mmu_invD(4)[OF inv']])
  have k: "nextTable m' = (if ?d \<in> opened m then nextTable m else nextTable m + 1)" "tablesCount m' = tablesCount m"
    using at by (simp_all add: mapped_at_def)
  have o: "?d \<in> opened m \<longleftrightarrow> ?t \<noteq> high_top ?d" by (rule high_in_opened[OF inv])
  have o': "nextHighDirectory m' \<in> opened m' \<longleftrightarrow> nextHighTable m' \<noteq> high_top (nextHighDirectory m')"
    by (rule high_in_opened[OF inv'])
  have cur: "nextHighDirectory m' = (high_pos m - 1) div 1024" "nextHighTable m' = (high_pos m - 1) mod 1024"
    using high_pos_parts[OF t'] pos(1)[symmetric] by simp_all
  have r: "Suc n \<le> high_cap m" "(nextLowDirectory m + 2) * 1024 + Suc n \<le> high_pos m + 1"
    using room by (simp_all add: high_room_def)
  have "n \<le> high_cap m'"
  proof (cases "?t = 0")
    case True
    have hp: "high_pos m = ?d * 1024" using True by (simp add: high_pos_def)
    have d: "0 < ?d" using r(2) hp by (cases "?d = 0") auto
    then obtain e where e: "?d = Suc e" by (cases ?d) auto
    have c': "nextHighDirectory m' = e" "nextHighTable m' = 1023" using cur hp e by simp_all
    have "?d \<in> opened m" using o True by (simp add: high_top_def)
    moreover have "e \<notin> opened m'" using o' c' I(3) e by (simp add: high_top_def)
    ultimately show ?thesis using r(1) k True c' e I(3) by (simp add: high_cap_def)
  next
    case False
    have hp: "high_pos m - 1 = ?d * 1024 + (?t - 1)" using False by (simp add: high_pos_def)
    have c': "nextHighDirectory m' = ?d" "nextHighTable m' = ?t - 1" using cur t unfolding hp by simp_all
    have in': "?d \<in> opened m'" using op by simp
    show ?thesis
    proof (cases "?d \<in> opened m")
      case True
      then show ?thesis using r(1) k c' in' False by (simp add: high_cap_def)
    next
      case False': False
      then have "?t = high_top ?d" using o by simp
      then show ?thesis using r(1) k c' in' False' by (auto simp: high_cap_def high_top_def split: if_splits)
    qed
  qed
  with r(2) pos show ?thesis by (simp add: high_room_def)
qed

lemma low_room_step:
  assumes inv: "mmu_inv m" and room: "low_room (Suc n) m"
    and at: "mapped_at (nextLowDirectory m) (nextLowTable m) p opts m m'"
    and pos: "low_pos m' = low_pos m + 1" "nextHighDirectory m' = nextHighDirectory m"
  shows "low_room n m'"
proof -
  let ?d = "nextLowDirectory m" and ?t = "nextLowTable m"
  note inv' = mapped_core(1)[OF at] and op = mapped_core(3)[OF at]
  have t: "?t < 1024" and t': "nextLowTable m' < 1024" using mmu_invD(2) inv inv' by blast+
  have k: "nextTable m' = (if ?d \<in> opened m then nextTable m else nextTable m + 1)" "tablesCount m' = tablesCount m"
    using at by (simp_all add: mapped_at_def)
  note o = low_in_opened[OF inv] and o' = low_in_opened[OF inv']
  have cur: "nextLowDirectory m' = (low_pos m + 1) div 1024" "nextLowTable m' = (low_pos m + 1) mod 1024"
    using low_pos_parts[OF t'] pos(1) by simp_all
  have r: "Suc n \<le> low_cap m" "low_pos m + Suc n + 1024 \<le> nextHighDirectory m * 1024"
    using room by (simp_all add: low_room_def)
  have "n \<le> low_cap m'"
  proof (cases "?t = 1023")
    case True
    have hp: "low_pos m + 1 = (?d + 1) * 1024" using True by (simp add: low_pos_def)
    have c': "nextLowDirectory m' = ?d + 1" "nextLowTable m' = 0" using cur unfolding hp by simp_all
    have "?d \<in> opened m" "nextLowDirectory m' \<notin> opened m'" using o o' True c' by simp_all
    then show ?thesis using r(1) k True by (simp add: low_cap_def)
  next
    case False
    have hp: "low_pos m + 1 = ?d * 1024 + (?t + 1)" by (simp add: low_pos_def)
    have c': "nextLowDirectory m' = ?d" "nextLowTable m' = ?t + 1" using cur t False unfolding hp by simp_all
    have "?d \<in> opened m'" using op by simp
    then show ?thesis using r(1) k c' o False by (auto simp: low_cap_def split: if_splits)
  qed
  with r(2) pos show ?thesis by (simp add: low_room_def)
qed

lemma high_end_ok:
  assumes "mmu_inv m" and "high_room (Suc n) m" and "p < 4294967296"
  shows "\<exists>v m'. map_high p opts m = Some (v, m') \<and> mmu_inv m' \<and> high_room n m' \<and>
    v = (high_pos m - 0) * 4096 + p mod 4096 \<and> get_physical v m' = Some p \<and> page_held m' (high_pos m - 0) \<and>
    (\<forall>k. k < n \<longrightarrow> high_pos m' - k = high_pos m - Suc k) \<and>
    (\<forall>w. page_held m (w div 4096) \<and> w div 4096 \<noteq> high_pos m - 0 \<longrightarrow>
      page_held m' (w div 4096) \<and> get_physical w m' = get_physical w m)"
proof -
  note I = mmu_invD[OF assms(1)]
  have t: "nextHighTable m < 1024" by (rule high_top_less[OF I(4)])
  have d: "nextHighDirectory m < 1024" using I(3) by simp
  have r: "Suc n \<le> high_cap m" "(nextLowDirectory m + 2) * 1024 + Suc n \<le> high_pos m + 1"
    using assms(2) by (simp_all add: high_room_def)
  then have "1024 * nextLowDirectory m + 1024 < 1024 * nextHighDirectory m"
    using t by (simp add: high_pos_def)
  then have gap: "nextLowDirectory m + 1 < nextHighDirectory m" by simp
  have tab: "nextHighDirectory m \<notin> opened m \<Longrightarrow> nextTable m < tablesCount m"
    using r(1) by (auto simp: high_cap_def intro: ccontr)
  from map_high_correct[OF assms(1) gap tab assms(3), of opts] obtain m' where
    m': "map_high p opts m = Some (virtual_address (nextHighDirectory m) (nextHighTable m) (p mod 4096), m')"
    "mapped_at (nextHighDirectory m) (nextHighTable m) p opts m m'" "high_pos m' + 1 = high_pos m"
    "nextLowDirectory m' = nextLowDirectory m" by blast
  have v: "virtual_address (nextHighDirectory m) (nextHighTable m) (p mod 4096) = high_pos m * 4096 + p mod 4096"
    by (rule virtual_high[OF assms(1)])
  note held = new_page_held[OF m'(2) d t, folded high_pos_def]
  note frame = mapped_page_held[OF m'(2) d t assms(1), folded high_pos_def]
  show ?thesis
    using m'(1,3) mapped_core(1)[OF m'(2)] high_room_step[OF assms(1,2) m'(2-4)] v
      mapped_translate(1)[OF m'(2) d t assms(3)] held frame by auto
qed

lemma low_end_ok:
  assumes "mmu_inv m" and "low_room (Suc n) m" and "p < 4294967296"
  shows "\<exists>v m'. map_low p opts m = Some (v, m') \<and> mmu_inv m' \<and> low_room n m' \<and>
    v = (low_pos m + 0) * 4096 + p mod 4096 \<and> get_physical v m' = Some p \<and> page_held m' (low_pos m + 0) \<and>
    (\<forall>k. k < n \<longrightarrow> low_pos m' + k = low_pos m + Suc k) \<and>
    (\<forall>w. page_held m (w div 4096) \<and> w div 4096 \<noteq> low_pos m + 0 \<longrightarrow>
      page_held m' (w div 4096) \<and> get_physical w m' = get_physical w m)"
proof -
  note I = mmu_invD[OF assms(1)]
  have t: "nextLowTable m < 1024" by (rule I(2))
  have d: "nextLowDirectory m < 1024" using I(3,5) by simp
  have r: "Suc n \<le> low_cap m" "low_pos m + Suc n + 1024 \<le> nextHighDirectory m * 1024"
    using assms(2) by (simp_all add: low_room_def)
  then have "1024 * nextLowDirectory m + 1024 < 1024 * nextHighDirectory m"
    by (simp add: low_pos_def)
  then have gap: "nextLowDirectory m + 1 < nextHighDirectory m" by simp
  have tab: "nextLowDirectory m \<notin> opened m \<Longrightarrow> nextTable m < tablesCount m"
    using r(1) by (auto simp: low_cap_def intro: ccontr)
  from map_low_correct[OF assms(1) gap tab assms(3), of opts] obtain m' where
    m': "map_low p opts m = Some (virtual_address (nextLowDirectory m) (nextLowTable m) (p mod 4096), m')"
    "mapped_at (nextLowDirectory m) (nextLowTable m) p opts m m'" "low_pos m' = low_pos m + 1"
    "nextHighDirectory m' = nextHighDirectory m" by blast
  have v: "virtual_address (nextLowDirectory m) (nextLowTable m) (p mod 4096) = low_pos m * 4096 + p mod 4096"
    by (rule virtual_low[OF assms(1)])
  note held = new_page_held[OF m'(2) d t, folded low_pos_def]
  note frame = mapped_page_held[OF m'(2) d t assms(1), folded low_pos_def]
  show ?thesis
    using m'(1,3) mapped_core(1)[OF m'(2)] low_room_step[OF assms(1,2) m'(2-4)] v
      mapped_translate(1)[OF m'(2) d t assms(3)] held frame by auto
qed

interpretation high_end: page_mapper mmu_inv high_room map_high get_physical "\<lambda>m k. high_pos m - k" page_held
proof
  fix m n i j
  assume "high_room n m" "i < n" "j < n" "i \<noteq> j"
  then show "high_pos m - i \<noteq> high_pos m - j" by (auto simp: high_room_def)
qed (rule high_end_ok)

interpretation low_end: page_mapper mmu_inv low_room map_low get_physical "\<lambda>m k. low_pos m + k" page_held
  by unfold_locales (rule low_end_ok, simp_all)

end
