(* ===== verification/Memory.thy ===== *)
theory Memory
  imports Heap PageMask PageMapper
begin

text \<open>
  The kernel memory manager: \<^verbatim>\<open>kernel/memory.cpp\<close> and \<^verbatim>\<open>kernel/memory/PagedPool.hpp\<close>, in the build with an MMU.
  Physical pages come from the bitmap of theory PageMask, they are mapped at the high end of the kernel mapping
  (theory X86Mmu, through the interface of PageMapper), and the heap of theory Pool grows by such pages. \<^verbatim>\<open>ram\<close> is
  the physical memory; a load or store through a virtual address reaches the byte that \<^verbatim>\<open>_get_physical\<close> walks to.
\<close>

section \<open>State\<close>

record kmem =
  kernelHeap :: pool
  pageAllocations :: amask
  kernelMapping :: mapping
  heapStart :: nat
  heapLength :: nat
  scratch :: nat
  page_physical :: "nat \<Rightarrow> nat"
  page_count :: "nat \<Rightarrow> nat"

definition default_options :: map_options where
  "default_options = \<lparr>isUserspace = False, isWritable = True, isExecutable = False, caching = WriteBack\<rparr>"

definition physical_to_index :: "nat \<Rightarrow> kmem \<Rightarrow> nat" where
  "physical_to_index a k = sub32 a (heapStart k) div pageSize"

definition index_to_physical :: "nat \<Rightarrow> kmem \<Rightarrow> nat" where
  "index_to_physical i k = add32 (heapStart k) (mul32 i pageSize)"

section \<open>Allocating and freeing pages\<close>

text \<open>Claim a physical page and map it: its virtual and physical address, or nothing when no page remains.\<close>

definition claim_and_map :: "kmem \<Rightarrow> ((nat \<times> nat) option \<times> kmem) option" where
  "claim_and_map k =
     (case claim (pageAllocations k) of
        (Inl _, a) \<Rightarrow> Some (None, k\<lparr>pageAllocations := a\<rparr>)
      | (Inr i, a) \<Rightarrow>
          (case map_high (index_to_physical i k) default_options (kernelMapping k) of
             None \<Rightarrow> None
           | Some (v, m) \<Rightarrow> Some (Some (v, index_to_physical i k), k\<lparr>pageAllocations := a, kernelMapping := m\<rparr>)))"

fun map_claimed :: "nat \<Rightarrow> kmem \<Rightarrow> (bool \<times> kmem) option" where
  "map_claimed 0 k = Some (True, k)"
| "map_claimed (Suc n) k =
     (case claim_and_map k of
        None \<Rightarrow> None
      | Some (None, k1) \<Rightarrow> Some (False, k1)
      | Some (Some _, k1) \<Rightarrow> map_claimed n k1)"

definition allocate_pages :: "nat \<Rightarrow> kmem \<Rightarrow> (nat option \<times> kmem) option" where
  "allocate_pages n k =
     (if n < 1 then Some (None, k)
      else
        (case map_claimed (n - 1) k of
           None \<Rightarrow> None
         | Some (False, k1) \<Rightarrow> Some (None, k1)
         | Some (True, k1) \<Rightarrow>
             (case claim_and_map k1 of
                None \<Rightarrow> None
              | Some (None, k2) \<Rightarrow> Some (None, k2)
              | Some (Some (v, p), k2) \<Rightarrow>
                  Some (Some v, k2\<lparr>page_physical := (page_physical k2)(v := p), page_count := (page_count k2)(v := n)\<rparr>))))"

text \<open>Only one page is released, whatever the count.\<close>

definition free_pages :: "nat \<Rightarrow> nat \<Rightarrow> kmem \<Rightarrow> kmem option" where
  "free_pages page n k =
     (case get_physical page (kernelMapping k) of
        None \<Rightarrow> None
      | Some p \<Rightarrow>
          map_option (\<lambda>a. k\<lparr>page_physical := (page_physical k)(page := p), pageAllocations := a\<rparr>)
            (release (physical_to_index p k) (pageAllocations k)))"

section \<open>The growing heap\<close>

definition add_pages :: "nat \<Rightarrow> kmem \<Rightarrow> (bool \<times> kmem) option" where
  "add_pages n k =
     (case allocate_pages n k of
        None \<Rightarrow> None
      | Some (None, k1) \<Rightarrow> Some (False, k1)
      | Some (Some v, k1) \<Rightarrow>
          map_option (\<lambda>p. (True, k1\<lparr>kernelHeap := p\<rparr>)) (claim_block v (new_block v (mul32 pageSize n) (kernelHeap k1))))"

definition grow_heap :: "nat \<Rightarrow> kmem \<Rightarrow> (bool \<times> kmem) option" where
  "grow_heap req k =
     (if add32 headerSize req \<ge> pageSize
      then add_pages (add32 (add32 headerSize req) (pageSize - 1) div pageSize) k
      else add_pages 1 k)"

text \<open>\<^verbatim>\<open>do ... while(!result)\<close>: a loop that never ends is \<open>None\<close>.\<close>

partial_function (option) malloc_loop :: "nat \<Rightarrow> kmem \<Rightarrow> (nat option \<times> kmem) option" where
  "malloc_loop req k =
     (case malloc 4 req (kernelHeap k) of
        None \<Rightarrow> None
      | Some (Some a, p) \<Rightarrow> Some (Some a, k\<lparr>kernelHeap := p\<rparr>)
      | Some (None, p) \<Rightarrow>
          (case grow_heap req (k\<lparr>kernelHeap := p\<rparr>) of
             None \<Rightarrow> None
           | Some (grown, k1) \<Rightarrow> if grown then malloc_loop req k1 else Some (None, k1)))"

definition paged_malloc :: "nat \<Rightarrow> kmem \<Rightarrow> (nat option \<times> kmem) option" where
  "paged_malloc sz k =
     (let req = align sz 4 in
      if req > available (kernelHeap k) then
        (case grow_heap req k of
           None \<Rightarrow> None
         | Some (grown, k1) \<Rightarrow> if grown then malloc_loop req k1 else Some (None, k1))
      else malloc_loop req k)"

text \<open>The free blocks \<^verbatim>\<open>_check_dangerous_address\<close> complains about.\<close>

definition check_dangerous_address :: "nat \<Rightarrow> nat \<Rightarrow> kmem \<Rightarrow> nat list" where
  "check_dangerous_address frm til k =
     filter (\<lambda>b. til > b \<and> frm < add32 (add32 b headerSize) (bsize (kernelHeap k) b)) (availableBlocks (kernelHeap k))"

definition kernel_allocate :: "nat \<Rightarrow> kmem \<Rightarrow> (nat option \<times> nat list \<times> kmem) option" where
  "kernel_allocate sz k =
     (case paged_malloc sz k of
        None \<Rightarrow> None
      | Some (r, k1) \<Rightarrow>
          (let a = (case r of None \<Rightarrow> 0 | Some a \<Rightarrow> a)
           in Some (r, check_dangerous_address a (sub32 (add32 a sz) 1) k1, k1)))"

definition kernel_free :: "nat \<Rightarrow> kmem \<Rightarrow> kmem option" where
  "kernel_free a k = (if a = 0 then Some k else map_option (\<lambda>p. k\<lparr>kernelHeap := p\<rparr>) (free a (kernelHeap k)))"

section \<open>Initialisation\<close>

text \<open>The bitmap's memory is mapped with \<^verbatim>\<open>map_physical_high(heap, allocationPagesNeeded, {})\<close>, whose second argument is
  a size in bytes. The result holds the virtual address of the bitmap.\<close>

definition memory_init :: "kmem \<Rightarrow> (nat \<times> kmem) option" where
  "memory_init k =
     (let total = heapLength k div pageSize;
          needed = (size_required total + pageSize - 1) div pageSize
      in if \<not> total > 1 \<or> \<not> needed < total then None
      else
        (case map_high_range (heapStart k) needed default_options (kernelMapping k) of
           None \<Rightarrow> None
         | Some (v, m) \<Rightarrow>
             (case map_high 0 (default_options\<lparr>caching := Uncached\<rparr>) m of
                None \<Rightarrow> None
              | Some (s, m2) \<Rightarrow>
                  Some (v, k\<lparr>heapStart := add32 (heapStart k) (needed * pageSize), heapLength := heapLength k - needed * pageSize,
                    pageAllocations := new_amask (total - needed), kernelMapping := m2, scratch := s\<rparr>))))"

section \<open>Physical reads and writes\<close>

definition load_bytes :: "nat \<Rightarrow> nat \<Rightarrow> mapping \<Rightarrow> (nat \<Rightarrow> u8) \<Rightarrow> u8 list option" where
  "load_bytes v n m ram = those (map (\<lambda>i. map_option ram (get_physical (add32 v i) m)) [0..<n])"

fun store_bytes :: "nat \<Rightarrow> u8 list \<Rightarrow> mapping \<Rightarrow> (nat \<Rightarrow> u8) \<Rightarrow> (nat \<Rightarrow> u8) option" where
  "store_bytes v [] m ram = Some ram"
| "store_bytes v (b # bs) m ram =
     (case get_physical v m of None \<Rightarrow> None | Some p \<Rightarrow> store_bytes (add32 v 1) bs m (ram(p := b)))"

text \<open>Copies into and out of an array of the given contents; outside it the copy is undefined.\<close>

definition put_slice :: "nat \<Rightarrow> u8 list \<Rightarrow> u8 list \<Rightarrow> u8 list option" where
  "put_slice i bs buf =
     (if i + length bs \<le> length buf then Some (take i buf @ bs @ drop (i + length bs) buf) else None)"

definition get_slice :: "nat \<Rightarrow> nat \<Rightarrow> u8 list \<Rightarrow> u8 list option" where
  "get_slice i n data = (if i + n \<le> length data then Some (take n (drop i data)) else None)"

definition read_chunk :: "nat \<Rightarrow> nat \<Rightarrow> nat \<Rightarrow> nat \<Rightarrow> kmem \<Rightarrow> (nat \<Rightarrow> u8) \<Rightarrow> u8 list \<Rightarrow> (u8 list \<times> kmem) option" where
  "read_chunk page off n i k ram buf =
     (case set_virtual_target (scratch k) page pageSize (kernelMapping k) of
        None \<Rightarrow> None
      | Some m \<Rightarrow>
          (case load_bytes (add32 (scratch k) off) n m ram of
             None \<Rightarrow> None
           | Some bs \<Rightarrow> map_option (\<lambda>buf. (buf, k\<lparr>kernelMapping := m\<rparr>)) (put_slice i bs buf)))"

partial_function (option) read_loop ::
    "nat \<Rightarrow> nat \<Rightarrow> nat \<Rightarrow> nat \<Rightarrow> kmem \<Rightarrow> (nat \<Rightarrow> u8) \<Rightarrow> u8 list \<Rightarrow> (u8 list \<times> kmem) option" where
  "read_loop page stop sz i k ram buf =
     (if page < stop then
        (case read_chunk page 0 (min pageSize (sub32 sz i)) i k ram buf of
           None \<Rightarrow> None
         | Some (buf, k) \<Rightarrow> read_loop (add32 page pageSize) stop sz (add32 i pageSize) k ram buf)
      else Some (buf, k))"

definition read_physical :: "nat \<Rightarrow> nat \<Rightarrow> kmem \<Rightarrow> (nat \<Rightarrow> u8) \<Rightarrow> (u8 list \<times> kmem) option" where
  "read_physical a sz k ram =
     (let page = a div pageSize * pageSize; off = a - page; n = min sz (pageSize - off) in
      case read_chunk page off n 0 k ram (replicate sz 0) of
        None \<Rightarrow> None
      | Some (buf, k) \<Rightarrow> read_loop (add32 page pageSize) (add32 a sz) sz n k ram buf)"

definition write_chunk :: "nat \<Rightarrow> nat \<Rightarrow> nat \<Rightarrow> nat \<Rightarrow> u8 list \<Rightarrow> kmem \<Rightarrow> (nat \<Rightarrow> u8) \<Rightarrow> ((nat \<Rightarrow> u8) \<times> kmem) option" where
  "write_chunk page off n i data k ram =
     (case set_virtual_target (scratch k) page pageSize (kernelMapping k) of
        None \<Rightarrow> None
      | Some m \<Rightarrow>
          (case get_slice i n data of
             None \<Rightarrow> None
           | Some bs \<Rightarrow>
               map_option (\<lambda>ram. (ram, k\<lparr>kernelMapping := m\<rparr>)) (store_bytes (add32 (scratch k) off) bs m ram)))"

partial_function (option) write_loop ::
    "nat \<Rightarrow> nat \<Rightarrow> nat \<Rightarrow> nat \<Rightarrow> u8 list \<Rightarrow> kmem \<Rightarrow> (nat \<Rightarrow> u8) \<Rightarrow> ((nat \<Rightarrow> u8) \<times> kmem) option" where
  "write_loop page stop sz i data k ram =
     (if page < stop then
        (case write_chunk page 0 (min pageSize (sub32 sz i)) i data k ram of
           None \<Rightarrow> None
         | Some (ram, k) \<Rightarrow> write_loop (add32 page pageSize) stop sz (add32 i pageSize) data k ram)
      else Some (ram, k))"

definition write_physical :: "nat \<Rightarrow> u8 list \<Rightarrow> nat \<Rightarrow> kmem \<Rightarrow> (nat \<Rightarrow> u8) \<Rightarrow> ((nat \<Rightarrow> u8) \<times> kmem) option" where
  "write_physical a data sz k ram =
     (let page = a div pageSize * pageSize; off = a - page; n = pageSize - off in
      case write_chunk page off n 0 data k ram of
        None \<Rightarrow> None
      | Some (ram, k) \<Rightarrow> write_loop (add32 page pageSize) (add32 a sz) sz n data k ram)"


section \<open>Retargeting a page\<close>

lemma core_tables: "core D (m\<lparr>tables := x\<rparr>) = core D m"
  by (simp add: core_def tab_index_def[abs_def])

lemma page_held_less:
  assumes "page_held m (w div 4096)"
  shows "w < two32"
proof -
  have "w div 4096 < 1048576" using assms by (simp add: page_held_def)
  then show ?thesis by (simp add: div_less_iff_less_mult)
qed

lemma retarget:
  assumes inv: "mmu_inv m" and q: "page_held m q" "q < 1048575" and p: "p mod 4096 = 0" "p < two32"
  shows "\<exists>m'. set_virtual_target (q * 4096) p pageSize m = Some m' \<and> mmu_inv m' \<and> page_held m' = page_held m \<and>
    (\<forall>i < 4096. get_physical (q * 4096 + i) m' = Some (p + i)) \<and>
    (\<forall>w. page_held m (w div 4096) \<and> w div 4096 \<noteq> q \<longrightarrow> get_physical w m' = get_physical w m)"
proof -
  let ?v = "q * 4096"
  have d: "directory_index ?v = q div 1024" "table_index ?v = q mod 1024" "q div 1024 \<in> opened m"
    using q by (simp_all add: page_held_def directory_index_def table_index_def div_mult2_eq[symmetric])
  note I = mmu_invD[OF inv]
  let ?i = "tab_index m (q div 1024)" and ?te = "pt m (q div 1024) (q mod 1024)"
  have tv: "to_virtual m (get_table (directory m (q div 1024))) = Some ?i"
    by (rule to_virtual_open[OF I(1) d(3)])
  define m' where "m' = m\<lparr>tables := (tables m)(?i := (tables m ?i)(q mod 1024 := ?te\<lparr>t_address := p div 4096\<rparr>))\<rparr>"
  have pd: "p div 4096 < 1048576" using p(2) by simp
  have u: "update_entry ?v (set_address p) m = Some m'"
    using tv p(1) pd unfolding update_entry_def d m'_def by (simp add: set_address_def pt_def)
  have "set_target_loop 1048576 ?v (add32 ?v 4096) p m = Some m'"
  proof -
    have e: "(1048576 :: nat) = Suc (Suc 1048574)" by simp
    have a: "add32 ?v 4096 = ?v + 4096" using q(2) by (simp add: add32_def)
    show ?thesis unfolding e a set_target_loop.simps u by (simp add: a)
  qed
  then have s: "set_virtual_target ?v p pageSize m = Some m'"
    by (simp add: set_virtual_target_def pageSize_def)
  have o: "opened m' = opened m" by (simp add: opened_def m'_def)
  have ti: "tab_index m' = tab_index m" by (simp add: tab_index_def[abs_def] m'_def)
  have inj: "inj_on (tab_index m) (opened m)" using I(1) by (simp add: core_def)
  have pt: "pt m' d t = (if d = q div 1024 \<and> t = q mod 1024 then ?te\<lparr>t_address := p div 4096\<rparr> else pt m d t)"
    if "d \<in> opened m" for d t
    using inj_onD[OF inj _ that d(3)] by (auto simp: pt_def ti) (auto simp: m'_def pt_def)
  have c: "core (opened m) m'" using I(1) by (simp add: m'_def core_tables)
  have low: "nextLowTable m \<noteq> 0 \<Longrightarrow> nextLowDirectory m \<in> opened m" using low_in_opened[OF inv] by blast
  have i': "mmu_inv m'"
    using inv c pt[OF low] unfolding mmu_inv_def o by (auto simp: m'_def[THEN arg_cong[where f = nextLowTable]]
      m'_def[THEN arg_cong[where f = nextLowDirectory]] m'_def[THEN arg_cong[where f = nextHighTable]]
      m'_def[THEN arg_cong[where f = nextHighDirectory]])
  have h: "page_held m' = page_held m" by (simp add: page_held_def[abs_def] o)
  have g: "get_physical w m' = Some (add32 (get_address (pt m' (directory_index w) (table_index w))) (w mod 4096))"
    if "directory_index w \<in> opened m" for w
    by (rule get_physical_open[OF c that])
  have t: "get_physical (?v + i) m' = Some (p + i)" if "i < 4096" for i
  proof -
    have "(?v + i) div 4096 = q" "(?v + i) mod 4096 = i" using that by simp_all
    moreover have "?v + i < two32" using that q(2) by simp
    ultimately have x: "directory_index (?v + i) = q div 1024" "table_index (?v + i) = q mod 1024" "(?v + i) mod 4096 = i"
      using page_index[of "?v + i"] by simp_all
    have "p div 4096 * 4096 = p" using p(1) by (metis add.right_neutral div_mult_mod_eq)
    moreover have "p + i < two32"
    proof -
      obtain z where "p = 4096 * z" using mod_0_imp_dvd[OF p(1)] by blast
      with p(2) that show ?thesis by simp
    qed
    ultimately show ?thesis
      using g[of "?v + i"] d(3) p(2) unfolding x by (simp add: pt get_address_def add32_exact)
  qed
  have f: "get_physical w m' = get_physical w m" if "page_held m (w div 4096)" "w div 4096 \<noteq> q" for w
  proof -
    have "w < two32" by (rule page_held_less[OF that(1)])
    note x = page_index[OF this]
    have "w div 4096 div 1024 \<noteq> q div 1024 \<or> w div 4096 mod 1024 \<noteq> q mod 1024"
      using that(2) by (metis div_mult_mod_eq)
    moreover have "directory_index w \<in> opened m" using that(1) x by (simp add: page_held_def)
    ultimately show ?thesis
      using g[of w] get_physical_open[OF I(1), of w] pt[of "directory_index w" "table_index w"] x by auto
  qed
  show ?thesis using s i' h t f by blast
qed


section \<open>Reading physical memory\<close>

lemma those_map_Some: "(\<And>x. x \<in> set xs \<Longrightarrow> f x = Some (g x)) \<Longrightarrow> those (map f xs) = Some (map g xs)"
  by (induction xs) simp_all

text \<open>The state of a scratch page: its virtual page is in use and lies below the skipped last table.\<close>

definition scratch_ok :: "kmem \<Rightarrow> bool" where
  "scratch_ok k \<longleftrightarrow> mmu_inv (kernelMapping k) \<and> scratch k mod 4096 = 0 \<and>
     page_held (kernelMapping k) (scratch k div 4096) \<and> scratch k div 4096 < 1048575"

definition unmoved :: "kmem \<Rightarrow> kmem \<Rightarrow> bool" where
  "unmoved k k' \<longleftrightarrow> scratch_ok k' \<and> scratch k' = scratch k \<and> k' = k\<lparr>kernelMapping := kernelMapping k'\<rparr> \<and>
     page_held (kernelMapping k') = page_held (kernelMapping k) \<and>
     (\<forall>w. page_held (kernelMapping k) (w div 4096) \<and> w div 4096 \<noteq> scratch k div 4096 \<longrightarrow>
       get_physical w (kernelMapping k') = get_physical w (kernelMapping k))"

lemma unmoved_trans: "unmoved k k1 \<Longrightarrow> unmoved k1 k2 \<Longrightarrow> unmoved k k2"
  unfolding unmoved_def by (metis (no_types, lifting) kmem.surjective kmem.update_convs(3))

lemma scratch_target:
  assumes "scratch_ok k" and "page mod 4096 = 0" and "page < two32"
  shows "\<exists>m. set_virtual_target (scratch k) page pageSize (kernelMapping k) = Some m \<and>
    unmoved k (k\<lparr>kernelMapping := m\<rparr>) \<and> (\<forall>i < 4096. get_physical (add32 (scratch k) i) m = Some (page + i))"
proof -
  let ?q = "scratch k div 4096"
  have s: "?q * 4096 = scratch k" using assms(1) by (metis add.right_neutral div_mult_mod_eq scratch_ok_def)
  have o: "mmu_inv (kernelMapping k)" "page_held (kernelMapping k) ?q" "?q < 1048575"
    using assms(1) by (simp_all add: scratch_ok_def)
  from retarget[OF o assms(2,3)] obtain m where m: "set_virtual_target (scratch k) page pageSize (kernelMapping k) = Some m"
    "mmu_inv m" "page_held m = page_held (kernelMapping k)"
    "\<forall>i < 4096. get_physical (?q * 4096 + i) m = Some (page + i)"
    "\<forall>w. page_held (kernelMapping k) (w div 4096) \<and> w div 4096 \<noteq> ?q \<longrightarrow> get_physical w m = get_physical w (kernelMapping k)"
    unfolding s by blast
  have "add32 (scratch k) i = ?q * 4096 + i" if "i < 4096" for i
    using that o(3) s by (simp add: add32_exact)
  with m assms(1) show ?thesis by (auto simp: unmoved_def scratch_ok_def)
qed

lemma read_chunk_ok:
  assumes "scratch_ok k" "page mod 4096 = 0" "page < two32" "off + n \<le> 4096" "i + n \<le> length buf"
  shows "\<exists>k'. read_chunk page off n i k ram buf =
      Some (take i buf @ map ram [page + off ..< page + off + n] @ drop (i + n) buf, k') \<and> unmoved k k'"
proof -
  from scratch_target[OF assms(1-3)] obtain m where m:
    "set_virtual_target (scratch k) page pageSize (kernelMapping k) = Some m" "unmoved k (k\<lparr>kernelMapping := m\<rparr>)"
    "\<And>i. i < 4096 \<Longrightarrow> get_physical (add32 (scratch k) i) m = Some (page + i)" by blast
  have e: "add32 (add32 (scratch k) off) j = add32 (scratch k) (off + j)" for j
    by (simp add: add32_def mod_simps ac_simps)
  have "load_bytes (add32 (scratch k) off) n m ram = Some (map (\<lambda>i. ram (page + (off + i))) [0..<n])"
    unfolding load_bytes_def by (rule those_map_Some) (use m(3) assms(4) in \<open>simp add: e\<close>)
  moreover have "map (\<lambda>i. ram (page + (off + i))) [0..<n] = map ram [page + off ..< page + off + n]"
    by (rule nth_equalityI) (simp_all add: ac_simps)
  ultimately show ?thesis using m(1,2) assms(5) by (simp add: read_chunk_def put_slice_def)
qed


lemma unmoved_scratch: "unmoved k k' \<Longrightarrow> scratch_ok k'"
  by (simp add: unmoved_def)

lemma read_loop_ok:
  assumes "scratch_ok k" "page mod 4096 = 0" "page = a + i" "a + sz + 4096 \<le> two32" "length buf = sz"
    "take i buf = map ram [a ..< a + min i sz]"
  shows "\<exists>k'. read_loop page (a + sz) sz i k ram buf = Some (map ram [a ..< a + sz], k') \<and> (k' = k \<or> unmoved k k')"
  using assms
proof (induction "a + sz - page" arbitrary: page i k buf rule: less_induct)
  case less
  show ?case
  proof (cases "page < a + sz")
    case False
    then have "i \<ge> sz" using less.prems(3) by simp
    with less.prems(5,6) have "buf = map ram [a ..< a + sz]" by simp
    with False show ?thesis by (subst read_loop.simps) simp
  next
    case True
    define n where "n = min 4096 (sz - i)"
    have i: "i < sz" "sub32 sz i = sz - i" "min pageSize (sz - i) = n" "i + n \<le> sz"
      using True less.prems(3,4) by (simp_all add: sub32_exact pageSize_def n_def)
    have a: "add32 page pageSize = page + 4096" "add32 i pageSize = i + 4096"
      using True less.prems(3,4) by (simp_all add: add32_exact pageSize_def)
    have l: "page < two32" "0 + n \<le> 4096" "i + n \<le> length buf" using True less.prems(4,5) i by (simp_all add: n_def)
    let ?buf = "take i buf @ map ram [page ..< page + n] @ drop (i + n) buf"
    from read_chunk_ok[OF less.prems(1,2) l] obtain k1 where
      c: "read_chunk page 0 n i k ram buf = Some (?buf, k1)" "unmoved k k1" by auto
    have m: "min (i + 4096) sz = i + n" using i(1) by (auto simp: n_def min_def)
    have up: "[a ..< a + (i + n)] = [a ..< a + i] @ [a + i ..< a + i + n]" by (metis add.assoc le_add1 upt_add_eq_append)
    have t: "take (i + 4096) ?buf = map ram [a ..< a + min (i + 4096) sz]"
    proof (cases "n = 4096")
      case True
      then show ?thesis using less.prems(3,5,6) i unfolding m up by simp
    next
      case False
      then have "i + n = sz" using i(1) by (simp add: n_def)
      moreover from this have "drop (i + n) buf = []" using less.prems(5) by simp
      moreover have "n \<le> 4096" by (simp add: n_def)
      ultimately show ?thesis using less.prems(3,5,6) i unfolding m up by simp
    qed
    have "\<exists>k'. read_loop (page + 4096) (a + sz) sz (i + 4096) k1 ram ?buf = Some (map ram [a ..< a + sz], k') \<and>
        (k' = k1 \<or> unmoved k1 k')"
      by (rule less.hyps[OF _ unmoved_scratch[OF c(2)]]) (use True less.prems i t in auto)
    then show ?thesis
      using True c unmoved_trans[OF c(2)] by (subst read_loop.simps) (auto simp: i(2,3) a)
  qed
qed



section \<open>Writing physical memory\<close>

definition overlay :: "nat \<Rightarrow> u8 list \<Rightarrow> (nat \<Rightarrow> u8) \<Rightarrow> (nat \<Rightarrow> u8)" where
  "overlay a bs ram = (\<lambda>x. if a \<le> x \<and> x < a + length bs then bs ! (x - a) else ram x)"

lemma overlay_Cons: "overlay (a + 1) bs (ram(a := b)) = overlay a (b # bs) ram"
  by (auto simp: overlay_def fun_eq_iff nth_Cons')

lemma overlay_append: "overlay (a + length bs) cs (overlay a bs ram) = overlay a (bs @ cs) ram"
  by (auto simp: overlay_def fun_eq_iff nth_append)

lemma store_bytes_ok:
  "v < two32 \<Longrightarrow> \<forall>j < length bs. get_physical (add32 v j) m = Some (p + j) \<Longrightarrow>
    store_bytes v bs m ram = Some (overlay p bs ram)"
proof (induction bs arbitrary: v p ram)
  case Nil
  show ?case by (auto simp: overlay_def fun_eq_iff)
next
  case (Cons b bs)
  have "add32 v 0 = v" using Cons.prems(1) by (simp add: add32_def)
  with Cons.prems(2) have g: "get_physical v m = Some p" by (metis add.right_neutral length_greater_0_conv list.discI)
  have "get_physical (add32 (add32 v 1) j) m = Some (p + 1 + j)" if "j < length bs" for j
  proof -
    have "add32 (add32 v 1) j = add32 v (Suc j)" by (simp add: add32_def mod_simps)
    with Cons.prems(2) that show ?thesis by simp
  qed
  with Cons.IH[of "add32 v 1" "p + 1" "ram(p := b)"] show ?case
    using overlay_Cons[of p bs ram b] by (simp add: g del: fun_upd_apply)
qed

lemma write_chunk_ok:
  assumes "scratch_ok k" "page mod 4096 = 0" "page < two32" "off + n \<le> 4096" "i + n \<le> length data"
  shows "\<exists>k'. write_chunk page off n i data k ram = Some (overlay (page + off) (take n (drop i data)) ram, k') \<and> unmoved k k'"
proof -
  from scratch_target[OF assms(1-3)] obtain m where m:
    "set_virtual_target (scratch k) page pageSize (kernelMapping k) = Some m" "unmoved k (k\<lparr>kernelMapping := m\<rparr>)"
    "\<And>i. i < 4096 \<Longrightarrow> get_physical (add32 (scratch k) i) m = Some (page + i)" by blast
  have e: "add32 (add32 (scratch k) off) j = add32 (scratch k) (off + j)" for j
    by (simp add: add32_def mod_simps ac_simps)
  have "store_bytes (add32 (scratch k) off) (take n (drop i data)) m ram =
      Some (overlay (page + off) (take n (drop i data)) ram)"
    by (rule store_bytes_ok) (use m(3) assms(4,5) in \<open>simp_all add: e\<close>)
  then show ?thesis using m(1,2) assms(5) by (simp add: write_chunk_def get_slice_def)
qed

lemma write_loop_ok:
  assumes "scratch_ok k" "page mod 4096 = 0" "page = a + i" "a + sz + 4096 \<le> two32" "max i sz \<le> length data"
  shows "\<exists>k'. write_loop page (a + sz) sz i data k (overlay a (take i data) ram) =
    Some (overlay a (take (max i sz) data) ram, k') \<and> (k' = k \<or> unmoved k k')"
  using assms
proof (induction "a + sz - page" arbitrary: page i k rule: less_induct)
  case less
  show ?case
  proof (cases "page < a + sz")
    case False
    then have "max i sz = i" using less.prems(3) by simp
    with False show ?thesis by (subst write_loop.simps) simp
  next
    case True
    define n where "n = min 4096 (sz - i)"
    have i: "i < sz" "sub32 sz i = sz - i" "min pageSize (sz - i) = n" "i + n \<le> sz" "0 < n"
      using True less.prems(3,4) by (simp_all add: sub32_exact pageSize_def n_def)
    have a: "add32 page pageSize = page + 4096" "add32 i pageSize = i + 4096"
      using True less.prems(3,4) by (simp_all add: add32_exact pageSize_def)
    have l: "page < two32" "0 + n \<le> 4096" "i + n \<le> length data" using True less.prems(4,5) i by (simp_all add: n_def)
    from write_chunk_ok[OF less.prems(1,2) l] obtain k1 where
      c: "write_chunk page 0 n i data k (overlay a (take i data) ram) =
        Some (overlay page (take n (drop i data)) (overlay a (take i data) ram), k1)" "unmoved k k1" by auto
    have "take (i + n) data = take i data @ take n (drop i data)" by (simp add: take_add)
    then have o: "overlay page (take n (drop i data)) (overlay a (take i data) ram) = overlay a (take (i + n) data) ram"
      using overlay_append[of a "take i data" "take n (drop i data)" ram] less.prems(3) l(3) by simp
    have "\<exists>k'. write_loop (page + 4096) (a + sz) sz (i + 4096) data k1 (overlay a (take (i + n) data) ram) =
        Some (overlay a (take sz data) ram, k') \<and> (k' = k1 \<or> unmoved k1 k')"
    proof (cases "page + 4096 < a + sz")
      case True
      then have n: "n = 4096" "i + 4096 < sz" using less.prems(3) by (simp_all add: n_def)
      have "\<exists>k'. write_loop (page + 4096) (a + sz) sz (i + 4096) data k1 (overlay a (take (i + 4096) data) ram) =
          Some (overlay a (take (max (i + 4096) sz) data) ram, k') \<and> (k' = k1 \<or> unmoved k1 k')"
        by (rule less.hyps[OF _ unmoved_scratch[OF c(2)]]) (use True n less.prems in auto)
      then show ?thesis using n by (simp add: max_def)
    next
      case False
      then have "i + n = sz" using less.prems(3) i(1) by (simp add: n_def)
      with False show ?thesis by (subst write_loop.simps) simp
    qed
    moreover have "max i sz = sz" using i(1) by simp
    ultimately show ?thesis
      using True c o unmoved_trans[OF c(2)] by (subst write_loop.simps) (auto simp: i(2,3) a)
  qed
qed

text \<open>\<^verbatim>\<open>memory::write_physical\<close> always fills the rest of the first page: it writes
  \<open>max size (4096 - a mod 4096)\<close> bytes of the array from address \<open>a\<close> on, so a write of at least that many bytes
  changes exactly the bytes of its range, a shorter one reads past its data and overwrites what follows, and it is
  undefined when the array ends before.\<close>

theorem write_physical_extent:
  assumes "scratch_ok k" and "a + sz + 4096 < two32" and "sz \<le> length data"
  shows "if max sz (4096 - a mod 4096) \<le> length data
    then \<exists>k'. write_physical a data sz k ram = Some (overlay a (take (max sz (4096 - a mod 4096)) data) ram, k') \<and> unmoved k k'
    else write_physical a data sz k ram = None"
proof -
  define page off n where "page = a div 4096 * 4096" and "off = a - page" and "n = 4096 - off"
  have p: "page mod 4096 = 0" "page + off = a" "off < 4096" "page < two32" "off = a mod 4096"
    using assms(2) by (auto simp: page_def off_def minus_div_mult_eq_mod intro: le_less_trans[OF div_times_less_eq_dividend])
  have a: "add32 page pageSize = a + n" "add32 a sz = a + sz"
    using p assms(2) by (simp_all add: add32_exact pageSize_def n_def)
  have m: "max sz (4096 - a mod 4096) = max n sz" by (simp add: n_def p(5) max.commute)
  have unfold: "write_physical a data sz k ram = (case write_chunk page off n 0 data k ram of
      None \<Rightarrow> None | Some (ram, k) \<Rightarrow> write_loop (a + n) (a + sz) sz n data k ram)"
    unfolding write_physical_def Let_def page_def[symmetric] off_def[symmetric] a pageSize_def n_def[symmetric]
    by (simp only: a[unfolded pageSize_def])
  show ?thesis
  proof (cases "n \<le> length data")
    case True
    have l: "off + n \<le> 4096" "0 + n \<le> length data" using True p(3) by (simp_all add: n_def)
    from write_chunk_ok[OF assms(1) p(1,4) l, of ram] obtain k1 where
      c: "write_chunk page off n 0 data k ram = Some (overlay a (take n data) ram, k1)" "unmoved k k1"
      unfolding p(2) by auto
    have "(page + 4096) mod 4096 = 0" "page + 4096 = a + n" using p by (simp_all add: n_def)
    then have "(a + n) mod 4096 = 0" by simp
    then have "\<exists>k'. write_loop (a + n) (a + sz) sz n data k1 (overlay a (take n data) ram) =
        Some (overlay a (take (max n sz) data) ram, k') \<and> (k' = k1 \<or> unmoved k1 k')"
      by (rule write_loop_ok[OF unmoved_scratch[OF c(2)]]) (use assms True in simp_all)
    then show ?thesis
      using True assms(3) c unmoved_trans[OF c(2)] unfolding m unfold by auto
  next
    case False
    then show ?thesis
      unfolding m unfold by (auto simp: write_chunk_def get_slice_def split: option.splits)
  qed
qed


section \<open>Allocating pages\<close>

text \<open>\<open>n\<close> of the \<open>c\<close> pages have been claimed, in order; after a failed claim the bitmap stays exhausted.\<close>

definition mask_ok :: "nat \<Rightarrow> nat \<Rightarrow> amask \<Rightarrow> bool" where
  "mask_ok c n m \<longleftrightarrow> n \<le> c \<and> (seq_state c n m \<or> n = c \<and> mcount m = c \<and> c \<le> earliestFree m)"

definition frames_inv :: "nat \<Rightarrow> nat \<Rightarrow> kmem \<Rightarrow> bool" where
  "frames_inv c n k \<longleftrightarrow> mask_ok c n (pageAllocations k) \<and> heapStart k mod 4096 = 0 \<and> heapStart k + c * 4096 \<le> two32"

definition frame :: "kmem \<Rightarrow> nat \<Rightarrow> nat" where
  "frame k i = heapStart k + i * 4096"

lemma frames_inv_upd [simp]:
  "frames_inv c n (k\<lparr>kernelMapping := m\<rparr>) = frames_inv c n k"
  "frames_inv c n (k\<lparr>kernelHeap := p\<rparr>) = frames_inv c n k"
  "frames_inv c n (k\<lparr>page_physical := x, page_count := y\<rparr>) = frames_inv c n k"
  "frames_inv c n (k\<lparr>pageAllocations := a, kernelMapping := m\<rparr>) = frames_inv c n (k\<lparr>pageAllocations := a\<rparr>)"
  "frames_inv c n (k\<lparr>kernelMapping := m, pageAllocations := a\<rparr>) = frames_inv c n (k\<lparr>pageAllocations := a\<rparr>)"
  by (simp_all add: frames_inv_def)

lemma mask_claim:
  assumes "mask_ok c n m"
  shows "n < c \<Longrightarrow> \<exists>m'. claim m = (Inr n, m') \<and> mask_ok c (n + 1) m'"
    and "n = c \<Longrightarrow> \<exists>m'. claim m = (Inl no_pages, m') \<and> mask_ok c c m'"
proof -
  assume "n < c"
  with assms have "seq_state c n m" by (auto simp: mask_ok_def)
  from claim_next[OF this \<open>n < c\<close>] \<open>n < c\<close> show "\<exists>m'. claim m = (Inr n, m') \<and> mask_ok c (n + 1) m'"
    by (auto simp: mask_ok_def)
next
  assume n: "n = c"
  show "\<exists>m'. claim m = (Inl no_pages, m') \<and> mask_ok c c m'"
  proof (cases "mcount m \<le> earliestFree m")
    case True
    then show ?thesis using assms n by (auto simp: claim_def mask_ok_def seq_state_def)
  next
    case False
    then have q: "seq_state c c m" using assms n by (auto simp: mask_ok_def)
    then have s: "mcount m = c" "afterLastTaken m = c" "earliestFree m = 0" "32 dvd c"
      by (simp_all add: seq_state_def)
    have r: "reg_loop m = m\<lparr>earliestFree := c\<rparr>"
      using reg_loop_all[of m] seq_full_bytes[OF q] s by simp
    show ?thesis using s by (simp add: claim_def r byte_loop_stop mask_ok_def)
  qed
qed

lemma frame_index: "frames_inv c n k \<Longrightarrow> i < c \<Longrightarrow> index_to_physical i k = frame k i \<and> frame k i < two32 \<and> frame k i mod 4096 = 0"
proof -
  assume a: "frames_inv c n k" "i < c"
  then have h: "heapStart k + c * 4096 \<le> two32" "heapStart k mod 4096 = 0" by (simp_all add: frames_inv_def)
  have "(i + 1) * 4096 \<le> c * 4096" using a(2) by (intro mult_le_mono1) simp
  with h(1) have l: "heapStart k + i * 4096 + 4096 \<le> two32" by simp
  then have "mul32 i 4096 = i * 4096" by (intro mul32_exact) simp
  moreover have "add32 (heapStart k) (i * 4096) = heapStart k + i * 4096" using l by (intro add32_exact) simp
  ultimately have "index_to_physical i k = frame k i"
    by (simp add: index_to_physical_def frame_def pageSize_def)
  moreover have "frame k i mod 4096 = 0" using h(2) unfolding frame_def mod_mult_self1 .
  ultimately show ?thesis using l by (simp add: frame_def)
qed

lemma claim_and_map_ok:
  assumes "frames_inv c n k" "n < c" "map_high (frame k n) default_options (kernelMapping k) = Some (v, m)"
  shows "\<exists>a. claim_and_map k = Some (Some (v, frame k n), k\<lparr>pageAllocations := a, kernelMapping := m\<rparr>) \<and>
    frames_inv c (n + 1) (k\<lparr>pageAllocations := a\<rparr>)"
proof -
  from mask_claim(1)[OF _ assms(2)] assms(1) obtain a where
    a: "claim (pageAllocations k) = (Inr n, a)" "mask_ok c (n + 1) a" unfolding frames_inv_def by blast
  with assms(3) frame_index[OF assms(1,2)] have
    "claim_and_map k = Some (Some (v, frame k n), k\<lparr>pageAllocations := a, kernelMapping := m\<rparr>)"
    by (simp add: claim_and_map_def)
  with a(2) assms(1) show ?thesis by (auto simp: frames_inv_def)
qed

lemma claim_none:
  assumes "frames_inv c c k"
  shows "\<exists>a. claim_and_map k = Some (None, k\<lparr>pageAllocations := a\<rparr>) \<and> frames_inv c c (k\<lparr>pageAllocations := a\<rparr>)"
proof -
  from mask_claim(2)[of c c "pageAllocations k"] assms obtain a where
    a: "claim (pageAllocations k) = (Inl no_pages, a)" "mask_ok c c a" unfolding frames_inv_def by blast
  then show ?thesis using assms by (auto simp: claim_and_map_def frames_inv_def)
qed

lemma map_claimed_all:
  "frames_inv c n k \<Longrightarrow> n + j \<le> c \<Longrightarrow> map_all map_high default_options (map (frame k) [n..<n + j]) (kernelMapping k) = Some (vs, m) \<Longrightarrow>
    \<exists>a. map_claimed j k = Some (True, k\<lparr>pageAllocations := a, kernelMapping := m\<rparr>) \<and> frames_inv c (n + j) (k\<lparr>pageAllocations := a\<rparr>)"
proof (induction j arbitrary: n k vs m)
  case 0
  then show ?case by (intro exI[of _ "pageAllocations k"]) simp
next
  case (Suc j)
  have l: "[n..<n + Suc j] = n # [n + 1..<n + 1 + j]" by (simp add: upt_rec)
  from Suc.prems(3) obtain v m1 vs' where
    h: "map_high (frame k n) default_options (kernelMapping k) = Some (v, m1)"
    "map_all map_high default_options (map (frame k) [n + 1..<n + 1 + j]) m1 = Some (vs', m)"
    unfolding l by (auto split: option.splits)
  from claim_and_map_ok[OF Suc.prems(1) _ h(1)] Suc.prems(2) obtain a where
    a: "claim_and_map k = Some (Some (v, frame k n), k\<lparr>pageAllocations := a, kernelMapping := m1\<rparr>)"
    "frames_inv c (n + 1) (k\<lparr>pageAllocations := a\<rparr>)" by auto
  let ?k = "k\<lparr>pageAllocations := a, kernelMapping := m1\<rparr>"
  have f: "frame ?k = frame k" by (simp add: frame_def fun_eq_iff)
  have "\<exists>a'. map_claimed j ?k = Some (True, ?k\<lparr>pageAllocations := a', kernelMapping := m\<rparr>) \<and>
      frames_inv c (n + 1 + j) (?k\<lparr>pageAllocations := a'\<rparr>)"
    by (rule Suc.IH[of "n + 1" ?k vs' m]) (use a(2) Suc.prems(2) h(2) in \<open>simp_all add: f del: upt_Suc\<close>)
  with a(1) show ?case by auto
qed

lemma map_claimed_add: "map_claimed (i + j) k =
    (case map_claimed i k of Some (True, k1) \<Rightarrow> map_claimed j k1 | r \<Rightarrow> r)"
proof (induction i arbitrary: k)
  case (Suc i)
  show ?case
    by (cases "claim_and_map k") (auto simp: Suc split: option.splits)
qed simp

lemma map_all_append: "map_all f opts (xs @ ys) s =
    (case map_all f opts xs s of
       None \<Rightarrow> None
     | Some (vs, s1) \<Rightarrow> map_option (\<lambda>(ws, s2). (vs @ ws, s2)) (map_all f opts ys s1))"
  by (induction xs arbitrary: s) (auto split: option.splits prod.splits simp: option.map_comp comp_def option.map_ident id_def[symmetric] option.map_id)


lemma get_physical_page:
  assumes "mmu_inv m" "page_held m q" "get_physical (q * 4096) m = Some p" "p mod 4096 = 0" "i < 4096"
  shows "get_physical (q * 4096 + i) m = Some (p + i)"
proof -
  have w: "q * 4096 + i < two32" "q * 4096 < two32" using assms(2,5) by (simp_all add: page_held_def)
  have x: "(q * 4096 + i) div 4096 = q" "q * 4096 div 4096 = q" "(q * 4096 + i) mod 4096 = i" using assms(5) by simp_all
  note ix = page_index[OF w(1)] page_index[OF w(2)]
  let ?a = "get_address (pt m (q div 1024) (q mod 1024))"
  have o: "q div 1024 \<in> opened m" "q mod 1024 < 1024" using assms(2) by (simp_all add: page_held_def)
  have "get_physical (q * 4096 + i) m = Some (add32 ?a i)" "get_physical (q * 4096) m = Some (add32 ?a 0)"
    using get_physical_open[OF mmu_invD(1)[OF assms(1)], of "q * 4096 + i"]
      get_physical_open[OF mmu_invD(1)[OF assms(1)], of "q * 4096"] o(1) ix x by simp_all
  moreover from this assms(3) have p: "p = ?a" by (simp add: add32_def get_address_def)
  moreover have "p + i < two32"
  proof -
    obtain z where z: "p = 4096 * z" using mod_0_imp_dvd[OF assms(4)] by blast
    have "p < two32" unfolding p by (simp add: get_address_def)
    with z assms(5) show ?thesis by simp
  qed
  ultimately show ?thesis by (simp add: add32_exact)
qed

definition allocated_at :: "nat \<Rightarrow> nat \<Rightarrow> nat \<Rightarrow> nat \<Rightarrow> kmem \<Rightarrow> kmem \<Rightarrow> bool" where
  "allocated_at v n j c k k' \<longleftrightarrow> mmu_inv (kernelMapping k') \<and> frames_inv c (n + j) k' \<and> heapStart k' = heapStart k \<and>
     kernelHeap k' = kernelHeap k \<and> v = (high_pos (kernelMapping k) + 1 - j) * 4096 \<and>
     (\<forall>i < j. page_held (kernelMapping k') (v div 4096 + i)) \<and>
     (\<forall>i < j * 4096. get_physical (v + i) (kernelMapping k') = Some (frame k (n + j - 1 - i div 4096) + i mod 4096)) \<and>
     (\<forall>w. page_held (kernelMapping k) (w div 4096) \<and> \<not> (v \<le> w \<and> w < v + j * 4096) \<longrightarrow>
       page_held (kernelMapping k') (w div 4096) \<and> get_physical w (kernelMapping k') = get_physical w (kernelMapping k))"

lemma allocate_pages_mapped:
  assumes inv: "mmu_inv (kernelMapping k)" "frames_inv c n k" and j: "0 < j" "n + j \<le> c"
    and room: "high_room (j + r) (kernelMapping k)"
  shows "\<exists>v k'. allocate_pages j k = Some (Some v, k') \<and> allocated_at v n j c k k' \<and> high_room r (kernelMapping k') \<and>
    page_physical k' v = frame k (n + j - 1) \<and> page_count k' v = j \<and>
    (0 < r \<longrightarrow> high_pos (kernelMapping k') = high_pos (kernelMapping k) - j)"
proof -
  let ?m = "kernelMapping k" and ?ps = "map (frame k) [n..<n + j]"
  have fi: "frame k (n + i) < two32 \<and> frame k (n + i) mod 4096 = 0" if "i < j" for i
    using frame_index[OF inv(2), of "n + i"] j that by simp
  have small: "\<forall>p \<in> set ?ps. p < two32"
  proof
    fix p assume "p \<in> set ?ps"
    then obtain x where "n \<le> x" "x < n + j" "p = frame k x" by auto
    with fi[of "x - n"] show "p < two32" by simp
  qed
  have room': "high_room (length ?ps + r) ?m" using room by simp
  from high_end.map_all_ok[OF inv(1) room' small, of default_options] obtain vs m where
    m: "map_all map_high default_options ?ps ?m = Some (vs, m)" "mmu_inv m" "high_room r m" "length vs = length ?ps"
    "\<forall>i < length ?ps. vs ! i = (high_pos ?m - i) * 4096 + ?ps ! i mod 4096 \<and> get_physical (vs ! i) m = Some (?ps ! i) \<and>
      page_held m (high_pos ?m - i)"
    "\<forall>w. page_held ?m (w div 4096) \<and> (\<forall>i < length ?ps. w div 4096 \<noteq> high_pos ?m - i) \<longrightarrow>
      page_held m (w div 4096) \<and> get_physical w m = get_physical w ?m"
    "\<forall>q < r. high_pos m - q = high_pos ?m - (length ?ps + q)"
    by blast
  have hp: "j \<le> high_pos ?m + 1" using room by (auto simp: high_room_def)
  have lst: "[n..<n + j] = [n..<n + (j - 1)] @ [n + (j - 1)]" using j(1) by (cases j) simp_all
  from m(1) obtain vs1 m1 v where s: "map_all map_high default_options (map (frame k) [n..<n + (j - 1)]) ?m = Some (vs1, m1)"
    "map_high (frame k (n + (j - 1))) default_options m1 = Some (v, m)" "vs = vs1 @ [v]"
    unfolding lst by (auto simp: map_all_append split: option.splits)
  have j1: "n + (j - 1) \<le> c" "n + (j - 1) < c" using j by simp_all
  from map_claimed_all[OF inv(2) j1(1) s(1)] obtain a where
    a: "map_claimed (j - 1) k = Some (True, k\<lparr>pageAllocations := a, kernelMapping := m1\<rparr>)"
    "frames_inv c (n + (j - 1)) (k\<lparr>pageAllocations := a\<rparr>)" by blast
  let ?k1 = "k\<lparr>pageAllocations := a, kernelMapping := m1\<rparr>"
  have f: "frame ?k1 = frame k" by (simp add: frame_def fun_eq_iff)
  from claim_and_map_ok[of c "n + (j - 1)" ?k1 v m] a(2) j1(2) s(2) obtain b where
    b: "claim_and_map ?k1 = Some (Some (v, frame k (n + (j - 1))), ?k1\<lparr>pageAllocations := b, kernelMapping := m\<rparr>)"
    "frames_inv c (n + (j - 1) + 1) (?k1\<lparr>pageAllocations := b\<rparr>)" unfolding f by auto
  define k' where "k' = (?k1\<lparr>pageAllocations := b, kernelMapping := m\<rparr>)
    \<lparr>page_physical := (page_physical k)(v := frame k (n + (j - 1))), page_count := (page_count k)(v := j)\<rparr>"
  have al: "allocate_pages j k = Some (Some v, k')" using j(1) a(1) b(1) by (simp add: allocate_pages_def k'_def)
  have len: "length vs1 = j - 1" using m(4) s(3) by simp
  have pg: "get_physical ((high_pos ?m - i) * 4096) m = Some (frame k (n + i))" "page_held m (high_pos ?m - i)" if "i < j" for i
    using m(5)[rule_format, of i] that fi[OF that] by auto
  have v: "v = (high_pos ?m + 1 - j) * 4096"
  proof -
    have "vs ! (j - 1) = v" using s(3) len by (simp add: nth_append)
    with m(5)[rule_format, of "j - 1"] fi[of "j - 1"] j(1) show ?thesis by simp
  qed
  have tr: "get_physical (v + i) m = Some (frame k (n + j - 1 - i div 4096) + i mod 4096)" if "i < j * 4096" for i
  proof -
    have d: "i div 4096 < j" using that by (simp add: div_less_iff_less_mult)
    let ?x = "j - 1 - i div 4096"
    have x: "?x < j" "high_pos ?m - ?x = high_pos ?m + 1 - j + i div 4096" "n + ?x = n + j - 1 - i div 4096" using d j(1) hp by simp_all
    have "get_physical ((high_pos ?m - ?x) * 4096 + i mod 4096) m = Some (frame k (n + ?x) + i mod 4096)"
      by (rule get_physical_page[OF m(2) pg(2)[OF x(1)] pg(1)[OF x(1)]]) (use fi[OF x(1)] in simp_all)
    moreover have "(high_pos ?m - ?x) * 4096 + i mod 4096 = v + i"
      unfolding x(2) v add_mult_distrib using div_mult_mod_eq[of i 4096] by linarith
    ultimately show ?thesis unfolding x(3) by simp
  qed
  have vp: "v div 4096 = high_pos ?m + 1 - j" unfolding v by simp
  have hd: "page_held m (v div 4096 + i)" if "i < j" for i
  proof -
    have "high_pos ?m - (j - 1 - i) = v div 4096 + i" using that hp unfolding vp by simp
    with pg(2)[of "j - 1 - i"] that show ?thesis by simp
  qed
  have fr: "page_held m (w div 4096) \<and> get_physical w m = get_physical w ?m"
    if w: "page_held ?m (w div 4096)" "\<not> (v \<le> w \<and> w < v + j * 4096)" for w
  proof -
    have "w div 4096 \<noteq> high_pos ?m - i" if "i < j" for i
    proof
      assume e: "w div 4096 = high_pos ?m - i"
      have "high_pos ?m - i \<ge> high_pos ?m + 1 - j" "high_pos ?m - i < high_pos ?m + 1 - j + j" using that hp by simp_all
      then have "v \<le> (high_pos ?m - i) * 4096" "(high_pos ?m - i) * 4096 + 4096 \<le> v + j * 4096" unfolding v by simp_all
      moreover have "(high_pos ?m - i) * 4096 \<le> w" "w < (high_pos ?m - i) * 4096 + 4096"
        unfolding e[symmetric] using div_mult_mod_eq[of w 4096] mod_less_divisor[of 4096 w] by linarith+
      ultimately show False using w(2) by linarith
    qed
    with m(6) w(1) show ?thesis by simp
  qed
  have hp': "high_pos m = high_pos ?m - j" if "0 < r" using m(7)[rule_format, OF that] by simp
  have "frames_inv c (n + j) k'" using b(2) j(1) by (simp add: k'_def)
  then have "allocated_at v n j c k k'"
    unfolding allocated_at_def using m(2) v hd tr fr by (simp add: k'_def)
  with al m(3) hp' j(1) show ?thesis by (auto simp: k'_def)
qed


lemma allocate_pages_refused:
  assumes inv: "mmu_inv (kernelMapping k)" "frames_inv c n k" and j: "c < n + j"
    and room: "high_room (c - n + r) (kernelMapping k)"
  shows "\<exists>k'. allocate_pages j k = Some (None, k') \<and> mmu_inv (kernelMapping k') \<and> frames_inv c c k' \<and>
    heapStart k' = heapStart k \<and> kernelHeap k' = kernelHeap k \<and>
    (0 < r \<longrightarrow> high_pos (kernelMapping k') = high_pos (kernelMapping k) - (c - n)) \<and>
    (\<forall>w. page_held (kernelMapping k) (w div 4096) \<and> high_pos (kernelMapping k) < w div 4096 \<longrightarrow>
      page_held (kernelMapping k') (w div 4096) \<and> get_physical w (kernelMapping k') = get_physical w (kernelMapping k))"
proof -
  let ?m = "kernelMapping k" and ?ps = "map (frame k) [n..<n + (c - n)]"
  have n: "n \<le> c" using inv(2) by (auto simp: frames_inv_def mask_ok_def)
  have small: "\<forall>p \<in> set ?ps. p < two32" using frame_index[OF inv(2)] n by auto
  have room': "high_room (length ?ps + r) ?m" using room by simp
  from high_end.map_all_ok[OF inv(1) room' small, of default_options] obtain vs m where
    m: "map_all map_high default_options ?ps ?m = Some (vs, m)" "mmu_inv m"
    "\<forall>w. page_held ?m (w div 4096) \<and> (\<forall>i < length ?ps. w div 4096 \<noteq> high_pos ?m - i) \<longrightarrow>
      page_held m (w div 4096) \<and> get_physical w m = get_physical w ?m"
    "\<forall>q < r. high_pos m - q = high_pos ?m - (length ?ps + q)" by blast
  have "n + (c - n) \<le> c" using n by simp
  from map_claimed_all[OF inv(2) this m(1)] n obtain a where
    a: "map_claimed (c - n) k = Some (True, k\<lparr>pageAllocations := a, kernelMapping := m\<rparr>)"
    "frames_inv c c (k\<lparr>pageAllocations := a\<rparr>)" by auto
  let ?k1 = "k\<lparr>pageAllocations := a, kernelMapping := m\<rparr>"
  from claim_none[of c ?k1] a(2) obtain b where b: "claim_and_map ?k1 = Some (None, ?k1\<lparr>pageAllocations := b\<rparr>)"
    "frames_inv c c (?k1\<lparr>pageAllocations := b\<rparr>)" by auto
  have "allocate_pages j k = Some (None, ?k1\<lparr>pageAllocations := b\<rparr>)"
  proof (cases "j - 1 = c - n")
    case True
    then show ?thesis using j n a(1) b(1) by (simp add: allocate_pages_def)
  next
    case False
    then have "c - n < j - 1" using j n by linarith
    then obtain d where d: "j - 1 = c - n + Suc d" using less_imp_Suc_add by fastforce
    have "map_claimed (j - 1) k = Some (False, ?k1\<lparr>pageAllocations := b\<rparr>)"
      unfolding d map_claimed_add by (simp add: a(1) b(1))
    then show ?thesis using j n by (simp add: allocate_pages_def)
  qed
  then show ?thesis
    using m(2,3,4) b(2) by (intro exI[of _ "?k1\<lparr>pageAllocations := b\<rparr>"]) auto
qed

text \<open>C9. \<^verbatim>\<open>memory::_allocate_pages\<close>: while \<open>count\<close> physical pages remain it returns the lowest of \<open>count\<close> consecutive
  virtual pages, each backed by a physical page of its own (the frames \<open>n .. n+count-1\<close> of the heap, highest
  first), records the physical address and the count in the page, and moves no other page. When fewer remain it
  returns null, and the pages it had claimed stay claimed: nothing can be allocated after that.\<close>

theorem allocate_pages_effect:
  assumes "mmu_inv (kernelMapping k)" and "frames_inv c n k" and "0 < j" and "high_room (min j (c - n)) (kernelMapping k)"
  shows "if n + j \<le> c
    then \<exists>v k'. allocate_pages j k = Some (Some v, k') \<and> allocated_at v n j c k k' \<and>
      page_physical k' v = frame k (n + j - 1) \<and> page_count k' v = j
    else \<exists>k' k''. allocate_pages j k = Some (None, k') \<and> allocate_pages 1 k' = Some (None, k'')"
proof (cases "n + j \<le> c")
  case True
  then have "high_room (j + 0) (kernelMapping k)" using assms(4) by (simp add: min_def split: if_splits)
  from allocate_pages_mapped[OF assms(1-3) True this] True show ?thesis by auto
next
  case False
  then have "min j (c - n) = c - n" using assms(3) by linarith
  with assms(4) have "high_room (c - n + 0) (kernelMapping k)" by simp
  from allocate_pages_refused[OF assms(1,2) _ this, of j] False obtain k' where
    k': "allocate_pages j k = Some (None, k')" "frames_inv c c k'" by auto
  from claim_none[OF k'(2)] have "\<exists>k''. allocate_pages 1 k' = Some (None, k'')" by (auto simp: allocate_pages_def)
  with k'(1) False show ?thesis by auto
qed


section \<open>The heap grows by pages\<close>

lemma heap_inv_claim:
  assumes inv: "heap_inv H p live" and new: "{v ..< v + sz} \<inter> H = {}" and sz: "headerSize \<le> sz" "v + sz < two32"
  shows "\<exists>p'. claim_block v (new_block v sz p) = Some p' \<and> heap_inv (H \<union> {v ..< v + sz}) p' live \<and>
    bsize p' = (bsize p)(v := sz - headerSize) \<and> v \<in> set (availableBlocks p')"
proof -
  let ?p = "new_block v sz p"
  have b: "bsize ?p = (bsize p)(v := sz - headerSize)"
    using sz by (simp add: new_block_def sub32_exact)
  have I: "wf_pool p" "(\<Union>a \<in> set live. footprint_of p a) \<union> free_bytes p = H" using inv by (simp_all add: heap_inv_def)
  have v: "v \<notin> H" using new sz(1) headerSize_pos by (auto simp: disjoint_iff headerSize_def)
  have fb: "\<And>x. x \<in> set (availableBlocks p) \<Longrightarrow> x \<in> free_bytes p"
    using extent_nonempty by (auto simp: free_bytes_def bytes_def)
  have vf: "v \<notin> set (availableBlocks p)" using fb I(2) v by blast
  have vl: "\<And>a. a \<in> set live \<Longrightarrow> get_block a \<noteq> v" using footprint_start I(2) v by blast
  have cong: "\<And>x. x \<in> set (availableBlocks p) \<Longrightarrow> bsize ?p x = bsize p x" using vf by (auto simp: b)
  have av: "availableBlocks ?p = availableBlocks p" by (simp add: new_block_def)
  have mp: "map (bsize ?p) (availableBlocks p) = map (bsize p) (availableBlocks p)" using cong by simp
  have wf: "wf_pool ?p"
    using I(1) wf_set_cong[of "set (availableBlocks p)" "bsize ?p" "bsize p", OF cong]
    unfolding wf_pool_def sorted_by_def av mp by blast
  have free: "free_bytes ?p = free_bytes p" unfolding free_bytes_def av by (rule bytes_cong) (rule cong)
  have ext: "extent (bsize ?p) v = {v ..< v + sz}" using sz by (simp add: extent_def b)
  have dj: "extent (bsize ?p) v \<inter> free_bytes ?p = {}" unfolding ext free using new I(2) by blast
  have lt: "v + headerSize + bsize ?p v < two32" using sz by (simp add: b)
  from claim_block_correct[OF wf lt dj] obtain p' where p': "claim_block v ?p = Some p'" "wf_pool p'" "bsize p' = bsize ?p"
    "set (availableBlocks p') = insert v (set (availableBlocks ?p))" "free_bytes p' = extent (bsize ?p) v \<union> free_bytes ?p"
    "used p' = used ?p" by metis
  have keep: "bsize p' (get_block a) = bsize p (get_block a)" if "a \<in> set live" for a
    using vl[OF that] by (simp add: p'(3) b)
  note f = footprint_cong[OF keep] live_used_cong[OF keep]
  have nf: "footprint_of p a \<inter> {v ..< v + sz} = {}" if "a \<in> set live" for a using that I(2) new by blast
  have d: "footprint_of p a \<inter> free_bytes p' = {}" if "a \<in> set live" for a
    using inv that nf[OF that] unfolding p'(5) ext free heap_inv_def by blast
  have "used p' = live_used p' live" using inv f(2) p'(6) by (simp add: heap_inv_def new_block_def)
  moreover have "(\<Union>a \<in> set live. footprint_of p' a) \<union> free_bytes p' = H \<union> {v ..< v + sz}"
    using I(2) f(1) unfolding p'(5) ext free by auto
  ultimately have "heap_inv (H \<union> {v ..< v + sz}) p' live"
    using inv p'(2) d unfolding heap_inv_def by (simp add: f(1) keep)
  with p'(1,3,4) b show ?thesis by auto
qed

text \<open>The state of the memory manager: \<open>n\<close> of the \<open>c\<close> physical pages are claimed, \<open>H\<close> are the virtual addresses
  given to the heap (mapped, above the next high address, below the skipped last table), \<open>live\<close> the allocations.\<close>

definition memory_inv :: "nat \<Rightarrow> nat \<Rightarrow> nat set \<Rightarrow> nat list \<Rightarrow> kmem \<Rightarrow> bool" where
  "memory_inv c n H live k \<longleftrightarrow> mmu_inv (kernelMapping k) \<and> frames_inv c n k \<and> heap_inv H (kernelHeap k) live \<and>
     H \<subseteq> {(high_pos (kernelMapping k) + 1) * 4096 ..< 1048575 * 4096} \<and>
     (\<forall>w \<in> H. page_held (kernelMapping k) (w div 4096))"

text \<open>The pages one request may add.\<close>

definition pages_for :: "nat \<Rightarrow> nat" where
  "pages_for req = (if headerSize + req \<ge> pageSize then (headerSize + req + 4095) div 4096 else 1)"

lemma pages_for_enough: "0 < pages_for req" "req + headerSize \<le> pages_for req * 4096"
proof -
  have "headerSize + req \<le> (headerSize + req + 4095) div 4096 * 4096"
    using div_mult_mod_eq[of "headerSize + req + 4095" 4096] mod_less_divisor[of 4096 "headerSize + req + 4095"]
    by linarith
  then show "req + headerSize \<le> pages_for req * 4096" by (auto simp: pages_for_def pageSize_def)
  show "0 < pages_for req" by (auto simp: pages_for_def pageSize_def div_greater_zero_iff)
qed

lemma high_pos_bound: "mmu_inv m \<Longrightarrow> high_pos m < 1048575"
  using mmu_invD(3,4)[of m] by (auto simp: high_pos_def high_top_def split: if_splits)

lemma add_pages_ok:
  assumes inv: "memory_inv c n H live k" and j: "0 < j" and room: "high_room (min j (c - n) + Suc r) (kernelMapping k)"
  shows "\<exists>k'. if n + j \<le> c
    then \<exists>v. add_pages j k = Some (True, k') \<and> memory_inv c (n + j) (H \<union> {v ..< v + j * 4096}) live k' \<and>
      bsize (kernelHeap k') v = j * 4096 - headerSize \<and> v \<in> set (availableBlocks (kernelHeap k')) \<and>
      (\<forall>a \<in> set live. footprint_of (kernelHeap k') a = footprint_of (kernelHeap k) a)
    else add_pages j k = Some (False, k') \<and> memory_inv c c H live k' \<and> kernelHeap k' = kernelHeap k"
proof -
  let ?m = "kernelMapping k"
  have I: "mmu_inv ?m" "frames_inv c n k" "heap_inv H (kernelHeap k) live"
    "H \<subseteq> {(high_pos ?m + 1) * 4096 ..< 1048575 * 4096}" "\<And>w. w \<in> H \<Longrightarrow> page_held ?m (w div 4096)"
    using inv by (auto simp: memory_inv_def)
  have above: "high_pos ?m < w div 4096" if "w \<in> H" for w
  proof -
    have "(high_pos ?m + 1) * 4096 \<le> w" using I(4) that by auto
    then show ?thesis by (simp add: less_eq_div_iff_mult_less_eq Suc_le_eq[symmetric] del: Suc_le_eq)
  qed
  show ?thesis
  proof (cases "n + j \<le> c")
    case True
    then have "min j (c - n) = j" by simp
    with room have r: "high_room (j + Suc r) ?m" by simp
    from allocate_pages_mapped[OF I(1,2) j True r] obtain v k1 where
      a: "allocate_pages j k = Some (Some v, k1)" "allocated_at v n j c k k1" "high_pos (kernelMapping k1) = high_pos ?m - j"
      by auto
    have A: "mmu_inv (kernelMapping k1)" "frames_inv c (n + j) k1" "kernelHeap k1 = kernelHeap k"
      "v = (high_pos ?m + 1 - j) * 4096" "\<And>i. i < j \<Longrightarrow> page_held (kernelMapping k1) (v div 4096 + i)"
      "\<And>w. page_held ?m (w div 4096) \<Longrightarrow> \<not> (v \<le> w \<and> w < v + j * 4096) \<Longrightarrow> page_held (kernelMapping k1) (w div 4096)"
      using a(2) by (auto simp: allocated_at_def)
    have hp: "j < high_pos ?m + 1" using r by (auto simp: high_room_def)
    have ve: "v + j * 4096 = (high_pos ?m + 1) * 4096"
      using hp unfolding A(4) add_mult_distrib[symmetric] by simp
    then have new: "{v ..< v + j * 4096} \<inter> H = {}" using I(4) by auto
    have hb: "(high_pos ?m + 1) * 4096 \<le> 1048575 * 4096" using high_pos_bound[OF I(1)] by (intro mult_le_mono1) simp
    have jb: "headerSize \<le> j * 4096" "v + j * 4096 < two32" using j ve hb by (simp_all add: headerSize_def)
    have mul: "mul32 pageSize j = j * 4096" using jb(2) by (simp add: mul32_exact pageSize_def mult.commute)
    from heap_inv_claim[OF I(3) new jb] obtain p where
      p: "claim_block v (new_block v (j * 4096) (kernelHeap k)) = Some p" "heap_inv (H \<union> {v ..< v + j * 4096}) p live"
      "bsize p = (bsize (kernelHeap k))(v := j * 4096 - headerSize)" "v \<in> set (availableBlocks p)" by blast
    let ?k = "k1\<lparr>kernelHeap := p\<rparr>"
    have s: "add_pages j k = Some (True, ?k)" using a(1) p(1) by (simp add: add_pages_def mul A(3))
    have vl: "(high_pos ?m - j + 1) * 4096 = v" using hp unfolding A(4) by simp
    have sub: "H \<union> {v ..< v + j * 4096} \<subseteq> {(high_pos ?m - j + 1) * 4096 ..< 1048575 * 4096}"
      unfolding vl using I(4) hb ve by auto
    have heldN: "page_held (kernelMapping k1) (w div 4096)" if "w \<in> {v ..< v + j * 4096}" for w
    proof -
      have "w div 4096 = v div 4096 + (w - v) div 4096"
        using that A(4) by (auto simp: div_mult_self3[symmetric] simp del: div_mult_self3)
      moreover have "(w - v) div 4096 < j" using that by (auto simp: div_less_iff_less_mult)
      ultimately show ?thesis using A(5) by simp
    qed
    have heldH: "page_held (kernelMapping k1) (w div 4096)" if "w \<in> H" for w
      by (rule A(6)[OF I(5)[OF that]]) (use new that in \<open>auto simp: disjoint_iff\<close>)
    have "memory_inv c (n + j) (H \<union> {v ..< v + j * 4096}) live ?k"
      using A(1,2) p(2) sub heldN heldH unfolding memory_inv_def by (auto simp: a(3))
    moreover have "\<forall>a \<in> set live. footprint_of p a = footprint_of (kernelHeap k) a"
    proof
      fix a assume "a \<in> set live"
      then have "get_block a \<in> H" using footprint_start[of a "kernelHeap k"] I(3) by (auto simp: heap_inv_def)
      with new j have "get_block a \<noteq> v" by (auto simp: disjoint_iff)
      then show "footprint_of p a = footprint_of (kernelHeap k) a" by (intro footprint_cong) (simp add: p(3))
    qed
    ultimately show ?thesis using True s p(3,4) by (intro exI[of _ ?k]) auto
  next
    case False
    then have "min j (c - n) = c - n" using j by linarith
    with room have r: "high_room (c - n + Suc r) ?m" by simp
    have "c < n + j" using False by simp
    from allocate_pages_refused[OF I(1,2) this r] obtain k1 where
      a: "allocate_pages j k = Some (None, k1)" "mmu_inv (kernelMapping k1)" "frames_inv c c k1" "kernelHeap k1 = kernelHeap k"
      "high_pos (kernelMapping k1) = high_pos ?m - (c - n)"
      "\<And>w. page_held ?m (w div 4096) \<Longrightarrow> high_pos ?m < w div 4096 \<Longrightarrow> page_held (kernelMapping k1) (w div 4096)" by auto
    have "(high_pos ?m - (c - n) + 1) * 4096 \<le> (high_pos ?m + 1) * 4096" by (intro mult_le_mono1) simp
    then have "H \<subseteq> {(high_pos ?m - (c - n) + 1) * 4096 ..< 1048575 * 4096}"
      by (intro order.trans[OF I(4)] ivl_subset[THEN iffD2]) simp
    then have "memory_inv c c H live k1"
      using a(2,3) I(3) a(6)[OF I(5) above] unfolding memory_inv_def a(4,5) by blast
    with a(1,4) False show ?thesis by (auto simp: add_pages_def)
  qed
qed


lemma align_idem:
  assumes "sz + 4 \<le> two32"
  shows "align (align sz 4) 4 = align sz 4"
proof -
  have "align sz 4 mod 4 = 0" "align sz 4 < two32" using align_correct[of 4 sz] assms by simp_all
  then show ?thesis unfolding align_def[of "align sz 4"] by (simp add: add32_exact)
qed

lemma memory_inv_heap: "memory_inv c n H live k \<Longrightarrow> heap_inv H p live' \<Longrightarrow> memory_inv c n H live' (k\<lparr>kernelHeap := p\<rparr>)"
  by (simp add: memory_inv_def)

lemma memory_inv_heapD: "memory_inv c n H live k \<Longrightarrow> heap_inv H (kernelHeap k) live \<and> wf_pool (kernelHeap k)"
  by (simp add: memory_inv_def heap_inv_def)

definition malloc_result :: "nat \<Rightarrow> nat \<Rightarrow> nat \<Rightarrow> nat set \<Rightarrow> nat list \<Rightarrow> nat option \<Rightarrow> kmem \<Rightarrow> kmem \<Rightarrow> bool" where
  "malloc_result req c n H live r k k' \<longleftrightarrow>
     (case r of
        None \<Rightarrow> memory_inv c c H live k' \<and> c < n + pages_for req
      | Some a \<Rightarrow> \<exists>n' H'. n \<le> n' \<and> H \<subseteq> H' \<and> memory_inv c n' H' (a # live) k' \<and>
          req \<le> bsize (kernelHeap k') (get_block a)) \<and>
     (\<forall>a \<in> set live. footprint_of (kernelHeap k') a = footprint_of (kernelHeap k) a)"

lemma footprint_malloc:
  assumes "heap_inv H p live" "malloc_post req p r p'" "a \<in> set live"
  shows "footprint_of p' a = footprint_of p a"
  by (rule footprint_cong) (rule heap_inv_keeps_header[OF assms])

text \<open>A free block that is large enough ends the loop at once.\<close>

lemma malloc_loop_fits:
  assumes inv: "memory_inv c n H live k" and al: "align req 4 = req"
    and b: "b \<in> set (availableBlocks (kernelHeap k))" "req \<le> bsize (kernelHeap k) b"
  shows "\<exists>a k'. malloc_loop req k = Some (Some a, k') \<and> memory_inv c n H (a # live) k' \<and>
    req \<le> bsize (kernelHeap k') (get_block a) \<and>
    (\<forall>x \<in> set live. footprint_of (kernelHeap k') x = footprint_of (kernelHeap k) x)"
proof -
  note I = memory_inv_heapD[OF inv]
  obtain r p' where m: "malloc 4 req (kernelHeap k) = Some (r, p')" "malloc_post req (kernelHeap k) r p'"
    using malloc_total[of "kernelHeap k" 4 req] I by (metis al)
  obtain a where r: "r = Some a"
    using m(2) b by (cases r) (fastforce simp: malloc_post_def)+
  note post = m(2)[unfolded r]
  have "malloc_loop req k = Some (Some a, k\<lparr>kernelHeap := p'\<rparr>)"
    using m(1) r by (subst malloc_loop.simps) simp
  moreover have "memory_inv c n H (a # live) (k\<lparr>kernelHeap := p'\<rparr>)"
    by (rule memory_inv_heap[OF inv heap_inv_malloc_Some[OF conjunct1[OF I] post]])
  moreover have "req \<le> bsize p' (get_block a)" using post by (simp add: malloc_post_def)
  ultimately show ?thesis using footprint_malloc[OF conjunct1[OF I] post] by auto
qed

text \<open>Growing once is enough.\<close>

lemma grow_then_loop:
  assumes inv: "memory_inv c n H live k" and al: "align req 4 = req" "req + 8192 < two32"
    and room: "high_room (min (pages_for req) (c - n) + 1) (kernelMapping k)"
  shows "\<exists>r k'. (case grow_heap req k of None \<Rightarrow> None | Some (g, k1) \<Rightarrow> if g then malloc_loop req k1 else Some (None, k1)) =
    Some (r, k') \<and> malloc_result req c n H live r k k'"
proof -
  let ?j = "pages_for req"
  have g: "grow_heap req k = add_pages ?j k"
    using al(2) by (simp add: grow_heap_def pages_for_def add32_exact headerSize_def pageSize_def)
  have room': "high_room (min ?j (c - n) + Suc 0) (kernelMapping k)" using room by simp
  from add_pages_ok[OF inv pages_for_enough(1) room'] obtain k1 where
    a: "if n + ?j \<le> c
    then \<exists>v. add_pages ?j k = Some (True, k1) \<and> memory_inv c (n + ?j) (H \<union> {v ..< v + ?j * 4096}) live k1 \<and>
      bsize (kernelHeap k1) v = ?j * 4096 - headerSize \<and> v \<in> set (availableBlocks (kernelHeap k1)) \<and>
      (\<forall>a \<in> set live. footprint_of (kernelHeap k1) a = footprint_of (kernelHeap k) a)
    else add_pages ?j k = Some (False, k1) \<and> memory_inv c c H live k1 \<and> kernelHeap k1 = kernelHeap k" by blast
  show ?thesis
  proof (cases "n + ?j \<le> c")
    case True
    with a obtain v where v: "add_pages ?j k = Some (True, k1)" "memory_inv c (n + ?j) (H \<union> {v ..< v + ?j * 4096}) live k1"
      "bsize (kernelHeap k1) v = ?j * 4096 - headerSize" "v \<in> set (availableBlocks (kernelHeap k1))"
      "\<forall>a \<in> set live. footprint_of (kernelHeap k1) a = footprint_of (kernelHeap k) a" by auto
    have "req \<le> bsize (kernelHeap k1) v" unfolding v(3) using pages_for_enough(2)[of req] by simp
    from malloc_loop_fits[OF v(2) al(1) v(4) this] obtain x k' where
      x: "malloc_loop req k1 = Some (Some x, k')" "memory_inv c (n + ?j) (H \<union> {v ..< v + ?j * 4096}) (x # live) k'"
      "req \<le> bsize (kernelHeap k') (get_block x)"
      "\<forall>a \<in> set live. footprint_of (kernelHeap k') a = footprint_of (kernelHeap k1) a" by blast
    have "\<exists>n' H'. n \<le> n' \<and> H \<subseteq> H' \<and> memory_inv c n' H' (x # live) k' \<and> req \<le> bsize (kernelHeap k') (get_block x)"
      using x(2,3) by (intro exI[of _ "n + ?j"] exI[of _ "H \<union> {v ..< v + ?j * 4096}"]) simp
    then have "malloc_result req c n H live (Some x) k k'"
      using x(4) v(5) by (simp add: malloc_result_def)
    then show ?thesis using v(1) x(1) by (auto simp: g)
  next
    case False
    with a have "add_pages ?j k = Some (False, k1)" "memory_inv c c H live k1" "kernelHeap k1 = kernelHeap k" by auto
    with False show ?thesis by (auto simp: g malloc_result_def)
  qed
qed

text \<open>C8. The kernel heap never gets stuck: in every sound state of the memory manager, a request for \<open>sz\<close> bytes
  returns. The result is either a new allocation of at least \<open>sz\<close> bytes, with the heap grown by mapped pages of its
  own where no free block fitted, or null, and then fewer physical pages were left than the request needs. No live
  allocation is moved or overlapped, and the invariant of heap, bitmap and page tables holds again.\<close>

theorem paged_malloc_correct:
  assumes "memory_inv c n H live k" and "sz + 8196 < two32"
    and "high_room (min (pages_for (align sz 4)) (c - n) + 1) (kernelMapping k)"
  shows "\<exists>r k'. paged_malloc sz k = Some (r, k') \<and> malloc_result (align sz 4) c n H live r k k' \<and> sz \<le> align sz 4"
proof -
  let ?req = "align sz 4"
  have al: "align ?req 4 = ?req" using assms(2) by (intro align_idem) simp
  have sz: "sz \<le> ?req" "?req < sz + 4" using assms(2) align_correct[of 4 sz] by simp_all
  have lt: "?req + 8192 < two32" using sz(2) assms(2) by simp
  note grow = grow_then_loop[OF assms(1) al lt assms(3)]
  show ?thesis
  proof (cases "?req > available (kernelHeap k)")
    case True
    with grow sz(1) show ?thesis by (simp add: paged_malloc_def Let_def)
  next
    case False
    then have e: "paged_malloc sz k = malloc_loop ?req k" by (simp add: paged_malloc_def Let_def)
    note I = memory_inv_heapD[OF assms(1)]
    obtain r p' where m: "malloc 4 ?req (kernelHeap k) = Some (r, p')" "malloc_post ?req (kernelHeap k) r p'"
      using malloc_total[of "kernelHeap k" 4 ?req] I by (metis al)
    note f = footprint_malloc[OF conjunct1[OF I] m(2)]
    show ?thesis
    proof (cases r)
      case None
      let ?k = "k\<lparr>kernelHeap := p'\<rparr>"
      have i: "memory_inv c n H live ?k"
        by (rule memory_inv_heap[OF assms(1)]) (use heap_inv_malloc_None I m(2) None in blast)
      have "high_room (min (pages_for ?req) (c - n) + 1) (kernelMapping ?k)" using assms(3) by simp
      from grow_then_loop[OF i al lt this] obtain r' k' where
        g: "(case grow_heap ?req ?k of None \<Rightarrow> None | Some (g, k1) \<Rightarrow> if g then malloc_loop ?req k1 else Some (None, k1)) =
          Some (r', k')" "malloc_result ?req c n H live r' ?k k'" by blast
      have "malloc_loop ?req k = Some (r', k')" using m(1) None g(1) by (subst malloc_loop.simps) simp
      moreover have "malloc_result ?req c n H live r' k k'" using g(2) f by (simp add: malloc_result_def)
      ultimately show ?thesis using sz(1) e by auto
    next
      case (Some a)
      have "malloc_loop ?req k = Some (Some a, k\<lparr>kernelHeap := p'\<rparr>)"
        using m(1) Some by (subst malloc_loop.simps) simp
      moreover have "memory_inv c n H (a # live) (k\<lparr>kernelHeap := p'\<rparr>)"
        by (rule memory_inv_heap[OF assms(1)]) (use heap_inv_malloc_Some I m(2) Some in blast)
      then have "malloc_result ?req c n H live (Some a) k (k\<lparr>kernelHeap := p'\<rparr>)"
        using f m(2) Some by (auto simp: malloc_result_def malloc_post_def)
      ultimately show ?thesis using sz(1) e by auto
    qed
  qed
qed


section \<open>Initialisation\<close>

lemma one_page_range:
  assumes "n \<le> 4096" "p < two32"
  shows "map_high_range p n opts m = map_high p opts m"
proof -
  have "(max n 1 + 4095) div 4096 = 1" using assms(1) by (intro div_nat_eqI) (auto simp: max_def)
  then have "add32 (max n 1) 4095 div 4096 = 1" using assms(1) by (subst add32_exact) (auto simp: max_def)
  moreover have "sub32 1 1 = 0" "mul32 0 4096 = 0" "add32 p 0 = p" using assms(2) by (simp_all add: sub32_def mul32_def add32_def)
  ultimately show ?thesis
    by (simp add: map_high_range_def Let_def numeral_eq_Suc[of num.One] del: One_nat_def)
      (simp add: map_high_pages.simps split: option.splits)
qed

text \<open>\<^verbatim>\<open>memory::init\<close> succeeds in a sound mapping and leaves every page of the rest of the heap free, a usable scratch
  page, and the bitmap at the start of the heap. But it maps one page for the bitmap however large that is: two
  pages are taken from the high end in all (bitmap and scratch page), while a heap of more than 32768 pages (128MB)
  has a bitmap of more than 4096 bytes.\<close>

theorem memory_init_effect:
  assumes "mmu_inv (kernelMapping k)" and "high_room 3 (kernelMapping k)" and "heapStart k mod 4096 = 0"
    and "heapStart k + heapLength k \<le> two32" and "heapStart k < two32" and "8192 \<le> heapLength k"
  shows "\<exists>v k' c. memory_init k = Some (v, k') \<and> mmu_inv (kernelMapping k') \<and> scratch_ok k' \<and> frames_inv c 0 k' \<and>
    get_physical v (kernelMapping k') = Some (heapStart k) \<and> v div 4096 = high_pos (kernelMapping k) \<and>
    high_pos (kernelMapping k') + 2 = high_pos (kernelMapping k) \<and>
    (4096 < length (mbytes (pageAllocations k')) \<longleftrightarrow> 32768 < c)"
proof -
  let ?m = "kernelMapping k"
  define total where "total = heapLength k div 4096"
  define needed where "needed = (size_required total + 4095) div 4096"
  define c where "c = (total - needed) div 8 * 8 div 32 * 32"
  have hl: "heapLength k \<le> two32" using assms(4) by simp
  then have t: "2 \<le> total" "total \<le> 1048576" using assms(6) unfolding total_def by (simp_all add: div_le_mono[of _ _ 4096, simplified] less_eq_div_iff_mult_less_eq div_le_mono)
  have sr: "size_required total \<le> total div 8"
    unfolding size_required_def using div_times_less_eq_dividend order_trans by metis
  have nt: "needed < total"
  proof -
    have "needed \<le> (total div 8 + 4095) div 4096" unfolding needed_def using sr by (intro div_le_mono) simp
    also have "\<dots> < total"
    proof -
      have "total div 8 + 4095 < total * 4096" using t(1) div_le_dividend[of total 8] by linarith
      then show ?thesis by (simp add: div_less_iff_less_mult)
    qed
    finally show ?thesis .
  qed
  have n4: "needed \<le> 4096"
  proof -
    have "size_required total \<le> 1048576" using sr t(2) div_le_dividend[of total 8] by linarith
    then have "needed \<le> (1048576 + 4095) div 4096" unfolding needed_def by (intro div_le_mono) simp
    then show ?thesis by simp
  qed
  have room: "high_room (Suc (Suc (Suc 0))) ?m" using assms(2) by (simp add: numeral_3_eq_3)
  from high_end.map_ok[OF assms(1) room assms(5), of default_options] obtain v m1 where
    m1: "map_high (heapStart k) default_options ?m = Some (v, m1)" "mmu_inv m1" "high_room (Suc (Suc 0)) m1"
    "v = high_pos ?m * 4096 + heapStart k mod 4096" "get_physical v m1 = Some (heapStart k)" "page_held m1 (high_pos ?m)"
    "\<forall>q < Suc (Suc 0). high_pos m1 - q = high_pos ?m - Suc q" by auto
  have z: "(0 :: nat) < two32" by simp
  from high_end.map_ok[OF m1(2,3) z, of "default_options\<lparr>caching := Uncached\<rparr>"] obtain s m2 where
    m2: "map_high 0 (default_options\<lparr>caching := Uncached\<rparr>) m1 = Some (s, m2)" "mmu_inv m2" "high_room (Suc 0) m2"
    "s = high_pos m1 * 4096" "page_held m2 (high_pos m1)" "\<forall>q < Suc 0. high_pos m2 - q = high_pos m1 - Suc q"
    "\<forall>w. page_held m1 (w div 4096) \<and> w div 4096 \<noteq> high_pos m1 \<longrightarrow> page_held m2 (w div 4096) \<and> get_physical w m2 = get_physical w m1"
    by auto
  have hp: "3 \<le> high_pos ?m" using room by (simp add: high_room_def)
  have p1: "high_pos m1 + 1 = high_pos ?m" "high_pos m2 + 2 = high_pos ?m" using m1(7) m2(6) hp by auto
  have vd: "v div 4096 = high_pos ?m" "v = high_pos ?m * 4096" using m1(4) assms(3) by simp_all
  have tv: "get_physical v m2 = Some (heapStart k)" using m2(7) m1(5,6) vd p1(1) by auto
  have sum: "needed * 4096 + c * 4096 \<le> heapLength k"
  proof -
    have "c \<le> total - needed" unfolding c_def by (meson div_times_less_eq_dividend order_trans div_le_mono mult_le_mono1)
    then have "needed + c \<le> total" using nt by simp
    then have "(needed + c) * 4096 \<le> total * 4096" by simp
    also have "\<dots> \<le> heapLength k" by (simp add: total_def)
    finally show ?thesis by simp
  qed
  define k' where "k' = k\<lparr>heapStart := heapStart k + needed * 4096, heapLength := heapLength k - needed * 4096,
    pageAllocations := new_amask (total - needed), kernelMapping := m2, scratch := s\<rparr>"
  have "needed * 4096 < heapLength k"
  proof -
    have "(needed + 1) * 4096 \<le> total * 4096" using nt by simp
    also have "\<dots> \<le> heapLength k" by (simp add: total_def)
    finally show ?thesis by simp
  qed
  then have hs: "add32 (heapStart k) (needed * 4096) = heapStart k + needed * 4096"
    using assms(4) by (intro add32_exact) simp
  have nd: "(size_required total + 4096 - 1) div 4096 = needed" by (simp add: needed_def)
  have "memory_init k = Some (v, k')"
    unfolding memory_init_def Let_def pageSize_def total_def[symmetric] nd one_page_range[OF n4 assms(5)] m1(1)
    using m2(1) t nt by (simp add: k'_def hs)
  moreover have "scratch_ok k'"
    using m2(2,4,5) high_pos_bound[OF m1(2)] by (simp add: scratch_ok_def k'_def)
  moreover have "frames_inv c 0 k'"
    using seq_new[of "total - needed"] sum assms(3,4) by (simp add: frames_inv_def mask_ok_def k'_def c_def)
  moreover have "4096 < length (mbytes (pageAllocations k')) \<longleftrightarrow> 32768 < c"
  proof -
    have "length (mbytes (pageAllocations k')) = c div 8" using seq_new[of "total - needed"] by (simp add: k'_def seq_state_def c_def)
    moreover obtain y where "c = 32 * y" by (auto simp: c_def mult.commute)
    ultimately show ?thesis by auto
  qed
  ultimately show ?thesis using m2(2) tv vd p1 by (intro exI[of _ v] exI[of _ k'] exI[of _ c]) (simp add: k'_def)
qed


section \<open>Witnesses\<close>

definition boot_memory :: kmem where
  "boot_memory = \<lparr>kernelHeap = init_pool None 0 (\<lambda>_. 0), pageAllocations = new_amask 64, kernelMapping = new_mapping 1048576 16,
     heapStart = 4194304, heapLength = 1048576, scratch = 0, page_physical = (\<lambda>_. 0), page_count = (\<lambda>_. 0)\<rparr>"

lemma boot_mapping: "mmu_inv (kernelMapping boot_memory)" "n \<le> 1000 \<Longrightarrow> high_room n (kernelMapping boot_memory)"
proof -
  have "mmu_inv (new_mapping 1048576 16)" by (rule mmu_inv_new) simp_all
  then show "mmu_inv (kernelMapping boot_memory)" by (simp add: boot_memory_def)
  assume n: "n \<le> 1000"
  have o: "opened (new_mapping 1048576 16) = {}" by (auto simp: opened_def new_mapping_def high_top_def)
  show "high_room n (kernelMapping boot_memory)"
    using n by (simp add: boot_memory_def high_room_def high_cap_def o) (simp add: new_mapping_def high_pos_def)
qed

lemma boot_frames: "frames_inv 64 0 boot_memory"
  using seq_new[of 64] by (simp add: frames_inv_def mask_ok_def boot_memory_def)

lemma boot_inv: "memory_inv 64 0 {} [] boot_memory"
proof -
  have "heap_inv {} (init_pool None 0 (\<lambda>_. 0)) []"
    by (simp add: heap_inv_def init_pool_def wf_pool_def wf_set_def sorted_by_def free_bytes_def bytes_def live_used_def Let_def)
  then show ?thesis using boot_mapping(1) boot_frames by (simp add: memory_inv_def) (simp add: boot_memory_def)
qed

theorem allocate_pages_effect_witness:
  "\<exists>v k'. allocate_pages 3 boot_memory = Some (Some v, k') \<and> allocated_at v 0 3 64 boot_memory k'"
  using allocate_pages_effect[OF boot_mapping(1) boot_frames, of 3] boot_mapping(2)[of 3] by auto

theorem paged_malloc_correct_witness:
  "\<exists>r k'. paged_malloc 100 boot_memory = Some (r, k') \<and> malloc_result (align 100 4) 64 0 {} [] r boot_memory k' \<and> 100 \<le> align 100 4"
proof -
  have a: "align 100 4 = 100" by (simp add: align_def add32_def)
  have "high_room (min (pages_for (align 100 4)) (64 - 0) + 1) (kernelMapping boot_memory)"
    unfolding a by (rule boot_mapping(2)) (simp add: pages_for_def headerSize_def pageSize_def)
  from paged_malloc_correct[OF boot_inv, of 100] this show ?thesis by simp
qed

theorem memory_init_effect_witness:
  "\<exists>v k' c. memory_init boot_memory = Some (v, k') \<and> scratch_ok k' \<and> frames_inv c 0 k'"
  using memory_init_effect[OF boot_mapping(1) boot_mapping(2)[of 3]] by (auto simp: boot_memory_def)

lemma scratch_example: "\<exists>k. scratch_ok k"
proof -
  let ?m = "kernelMapping boot_memory"
  from high_end.map_ok[OF boot_mapping(1) boot_mapping(2)[of "Suc 0"], of 0 default_options] obtain v m where
    m: "map_high 0 default_options ?m = Some (v, m)" "mmu_inv m" "v = high_pos ?m * 4096" "page_held m (high_pos ?m)" by auto
  with high_pos_bound[OF boot_mapping(1)] have "scratch_ok (boot_memory\<lparr>kernelMapping := m, scratch := v\<rparr>)"
    by (simp add: scratch_ok_def)
  then show ?thesis by blast
qed


theorem write_physical_extent_witness:
  "\<exists>k. write_physical 4000 [1, 2, 3] 3 k (\<lambda>_. 0) = None"
proof -
  from scratch_example obtain k where "scratch_ok k" by blast
  from write_physical_extent[OF this, of 4000 3 "[1, 2, 3]" "\<lambda>_. 0"] show ?thesis by (auto simp: max_def)
qed

end
