(* ===== verification/Arrays.thy ===== *)
theory Arrays
  imports Prelude "HOL-Library.Multiset"
begin

text \<open>
  The growable arrays of \<^verbatim>\<open>common/\<close>: \<^verbatim>\<open>PodArray\<close> (over \<^verbatim>\<open>Array\<close>), \<^verbatim>\<open>ListOrdered\<close> and \<^verbatim>\<open>ListUnordered\<close>.
  An array is its \<^verbatim>\<open>length\<close>, its \<^verbatim>\<open>allocated\<close> count and its cells; a cell that was never written holds
  \<open>None\<close>. Sizes are 32-bit. Access outside the allocation and a failed \<^verbatim>\<open>debug::assert\<close> are the outer
  \<open>None\<close>; \<^verbatim>\<open>new\<close> is assumed to succeed.
\<close>

section \<open>Memory blocks of cells\<close>

record 'a arr =
  alen :: nat
  allocated :: nat
  cells :: "'a option list"

text \<open>\<^verbatim>\<open>memmove\<close> inside one block: \<open>n\<close> cells from \<open>src\<close> to \<open>dst\<close>.\<close>

definition move_cells :: "nat \<Rightarrow> nat \<Rightarrow> nat \<Rightarrow> 'b list \<Rightarrow> 'b list option" where
  "move_cells dst src n cs =
     (if src + n \<le> length cs \<and> dst + n \<le> length cs
      then Some (take dst cs @ take n (drop src cs) @ drop (dst + n) cs) else None)"

text \<open>\<^verbatim>\<open>memcpy\<close>/\<^verbatim>\<open>memmove\<close> into another block.\<close>

definition copy_cells :: "nat \<Rightarrow> 'b list \<Rightarrow> nat \<Rightarrow> nat \<Rightarrow> 'b list \<Rightarrow> 'b list option" where
  "copy_cells dst to src n from =
     (if src + n \<le> length from \<and> dst + n \<le> length to
      then Some (take dst to @ take n (drop src from) @ drop (dst + n) to) else None)"

definition write_cell :: "nat \<Rightarrow> 'a \<Rightarrow> 'a option list \<Rightarrow> 'a option list option" where
  "write_cell i v cs = (if i < length cs then Some (cs[i := Some v]) else None)"

definition read_cell :: "nat \<Rightarrow> 'a option list \<Rightarrow> 'a option" where
  "read_cell i cs = (if i < length cs then cs ! i else None)"

definition fresh :: "nat \<Rightarrow> 'a option list" where
  "fresh n = replicate n None"

definition new_array :: "nat \<Rightarrow> 'a arr" where
  "new_array reserveSize = \<lparr>alen = 0, allocated = reserveSize, cells = fresh reserveSize\<rparr>"

definition move_array :: "'a arr \<Rightarrow> 'a arr \<times> 'a arr" where
  "move_array other = (other, other\<lparr>cells := []\<rparr>)"

definition arr_at :: "'a arr \<Rightarrow> nat \<Rightarrow> 'a option" where
  "arr_at a i = read_cell i (cells a)"

section \<open>PodArray\<close>

definition pod_resize :: "nat \<Rightarrow> 'a arr \<Rightarrow> 'a arr option" where
  "pod_resize newSize a =
     (let newSize = max (max (alen a) 1) newSize in
      if newSize = allocated a then Some a
      else
        (let len = min (alen a) newSize in
         case copy_cells 0 (fresh newSize) 0 len (cells a) of
           None \<Rightarrow> None
         | Some newData \<Rightarrow> Some \<lparr>alen = len, allocated = newSize, cells = newData\<rparr>))"

definition pod_push_back :: "'a \<Rightarrow> 'a arr \<Rightarrow> 'a arr option" where
  "pod_push_back v a =
     (case (if add32 (alen a) 1 \<ge> allocated a
            then pod_resize (add32 (add32 (alen a) 1) (alen a div 2)) a else Some a) of
        None \<Rightarrow> None
      | Some a \<Rightarrow>
          (case write_cell (alen a) v (cells a) of
             None \<Rightarrow> None
           | Some cs \<Rightarrow> Some (a\<lparr>cells := cs, alen := add32 (alen a) 1\<rparr>)))"

definition pod_back :: "'a arr \<Rightarrow> 'a option" where
  "pod_back a = read_cell (sub32 (alen a) 1) (cells a)"

definition pod_remove_front :: "'a arr \<Rightarrow> 'a arr option" where
  "pod_remove_front a =
     (if alen a < 1 then Some a
      else
        (case move_cells 1 0 (alen a - 1) (cells a) of
           None \<Rightarrow> None
         | Some cs \<Rightarrow> Some (a\<lparr>alen := alen a - 1, cells := cs\<rparr>)))"

definition pod_remove_back :: "'a arr \<Rightarrow> 'a arr" where
  "pod_remove_back a = a\<lparr>alen := sub32 (alen a) 1\<rparr>"

definition pod_remove :: "nat \<Rightarrow> 'a arr \<Rightarrow> 'a arr option" where
  "pod_remove index a =
     (if index \<ge> alen a then Some a
      else if index = 0 then pod_remove_front a
      else if index = alen a - 1 then Some (pod_remove_back a)
      else
        (case move_cells index (index + 1) (alen a - 1 - index) (cells a) of
           None \<Rightarrow> None
         | Some cs \<Rightarrow> Some (a\<lparr>alen := alen a - 1, cells := cs\<rparr>)))"

text \<open>\<^verbatim>\<open>pop_front\<close> answers null (inner \<open>None\<close>) on an empty array.\<close>

definition pod_pop_front :: "'a arr \<Rightarrow> ('a option \<times> 'a arr) option" where
  "pod_pop_front a =
     (if alen a < 1 then Some (None, a)
      else
        (case read_cell 0 (cells a) of
           None \<Rightarrow> None
         | Some v \<Rightarrow>
             (case move_cells 1 0 (alen a - 1) (cells a) of
                None \<Rightarrow> None
              | Some cs \<Rightarrow> Some (Some v, a\<lparr>alen := alen a - 1, cells := cs\<rparr>))))"

definition pod_pop_back :: "'a arr \<Rightarrow> ('a \<times> 'a arr) option" where
  "pod_pop_back a =
     (let len = sub32 (alen a) 1 in
      case read_cell len (cells a) of
        None \<Rightarrow> None
      | Some v \<Rightarrow> Some (v, a\<lparr>alen := len\<rparr>))"

definition pod_insert :: "nat \<Rightarrow> 'a \<Rightarrow> 'a arr \<Rightarrow> 'a arr option" where
  "pod_insert index v a =
     (case (if add32 (alen a) 1 \<ge> allocated a then
              (let n = add32 (add32 (allocated a) (allocated a div 2)) 1 in
               case copy_cells 0 (fresh n) 0 index (cells a) of
                 None \<Rightarrow> None
               | Some cs \<Rightarrow>
                   (case copy_cells (index + 1) cs index (sub32 (alen a) index) (cells a) of
                      None \<Rightarrow> None
                    | Some cs' \<Rightarrow> Some (a\<lparr>allocated := n, cells := cs'\<rparr>)))
            else
              (case move_cells (index + 1) index (sub32 (alen a) index) (cells a) of
                 None \<Rightarrow> None
               | Some cs \<Rightarrow> Some (a\<lparr>cells := cs\<rparr>))) of
        None \<Rightarrow> None
      | Some a \<Rightarrow>
          (case write_cell index v (cells a) of
             None \<Rightarrow> None
           | Some cs \<Rightarrow> Some (a\<lparr>alen := add32 (alen a) 1, cells := cs\<rparr>)))"

definition pod_shift_left :: "nat \<Rightarrow> 'a arr \<Rightarrow> 'a arr option" where
  "pod_shift_left n a =
     (if n \<ge> alen a then Some (a\<lparr>alen := 0\<rparr>)
      else
        (case move_cells 0 n (alen a - n) (cells a) of
           None \<Rightarrow> None
         | Some cs \<Rightarrow> Some (a\<lparr>alen := alen a - n, cells := cs\<rparr>)))"

definition pod_clear :: "'a arr \<Rightarrow> 'a arr" where
  "pod_clear a = a\<lparr>alen := 0\<rparr>"

section \<open>ListOrdered\<close>

definition lo_copy :: "'a arr \<Rightarrow> 'a arr option" where
  "lo_copy c =
     (if alen c > 0 then
        (case copy_cells 0 (fresh (alen c)) 0 (alen c) (cells c) of
           None \<Rightarrow> None
         | Some cs \<Rightarrow> Some \<lparr>alen = alen c, allocated = alen c, cells = cs\<rparr>)
      else Some \<lparr>alen = alen c, allocated = alen c, cells = []\<rparr>)"

definition lo_resize :: "nat \<Rightarrow> 'a arr \<Rightarrow> 'a arr option" where
  "lo_resize newSize a =
     (let newSize = max (max (alen a) 1) newSize in
      if newSize = allocated a then Some a
      else
        (case copy_cells 0 (fresh newSize) 0 (alen a) (cells a) of
           None \<Rightarrow> None
         | Some newData \<Rightarrow> Some (a\<lparr>allocated := newSize, cells := newData\<rparr>)))"

definition lo_reserve :: "'a arr \<Rightarrow> 'a arr option" where
  "lo_reserve a =
     (if add32 (alen a) 1 \<ge> allocated a
      then lo_resize (add32 (add32 (alen a) 1) (alen a div 2)) a else Some a)"

definition lo_push_back :: "'a \<Rightarrow> 'a arr \<Rightarrow> 'a arr option" where
  "lo_push_back item a =
     (case lo_reserve a of
        None \<Rightarrow> None
      | Some a \<Rightarrow>
          (case write_cell (alen a) item (cells a) of
             None \<Rightarrow> None
           | Some cs \<Rightarrow> Some (a\<lparr>cells := cs, alen := add32 (alen a) 1\<rparr>)))"

definition lo_push_front :: "'a \<Rightarrow> 'a arr \<Rightarrow> 'a arr option" where
  "lo_push_front item a =
     (case lo_reserve a of
        None \<Rightarrow> None
      | Some a \<Rightarrow>
          (case move_cells 1 0 (alen a) (cells a) of
             None \<Rightarrow> None
           | Some cs \<Rightarrow>
               (case write_cell 0 item cs of
                  None \<Rightarrow> None
                | Some cs' \<Rightarrow> Some (a\<lparr>cells := cs', alen := add32 (alen a) 1\<rparr>))))"

definition lo_pop_back :: "'a arr \<Rightarrow> ('a \<times> 'a arr) option" where
  "lo_pop_back a =
     (if \<not> alen a > 0 then None
      else
        (case read_cell (alen a - 1) (cells a) of
           None \<Rightarrow> None
         | Some v \<Rightarrow> Some (v, a\<lparr>alen := alen a - 1\<rparr>)))"

definition lo_pop_front :: "'a arr \<Rightarrow> ('a \<times> 'a arr) option" where
  "lo_pop_front a =
     (if \<not> alen a > 0 then None
      else
        (case read_cell 0 (cells a) of
           None \<Rightarrow> None
         | Some v \<Rightarrow>
             (case move_cells 1 0 (alen a - 1) (cells a) of
                None \<Rightarrow> None
              | Some cs \<Rightarrow> Some (v, a\<lparr>alen := alen a - 1, cells := cs\<rparr>))))"

definition lo_pop :: "nat \<Rightarrow> 'a arr \<Rightarrow> ('a \<times> 'a arr) option" where
  "lo_pop index a =
     (if \<not> index < alen a then None
      else if index = 0 then lo_pop_front a
      else if index = alen a - 1 then lo_pop_back a
      else
        (case read_cell index (cells a) of
           None \<Rightarrow> None
         | Some v \<Rightarrow>
             (case move_cells index (index + 1) (alen a - 1 - index) (cells a) of
                None \<Rightarrow> None
              | Some cs \<Rightarrow> Some (v, a\<lparr>alen := alen a - 1, cells := cs\<rparr>))))"

definition lo_remove :: "nat \<Rightarrow> 'a arr \<Rightarrow> 'a arr option" where
  "lo_remove index a =
     (if \<not> index < alen a then None
      else
        (let len = alen a - 1 in
         if index < len then
           (case move_cells index (index + 1) (len - index) (cells a) of
              None \<Rightarrow> None
            | Some cs \<Rightarrow> Some (a\<lparr>alen := len, cells := cs\<rparr>))
         else Some (a\<lparr>alen := len\<rparr>)))"

text \<open>The body never stores \<^verbatim>\<open>value\<close>.\<close>

definition lo_insert :: "nat \<Rightarrow> 'a \<Rightarrow> 'a arr \<Rightarrow> 'a arr option" where
  "lo_insert index v a =
     (if \<not> index \<le> alen a then None
      else
        (case lo_reserve a of
           None \<Rightarrow> None
         | Some a \<Rightarrow>
             (case move_cells (index + 1) index (alen a - index) (cells a) of
                None \<Rightarrow> None
              | Some cs \<Rightarrow> Some (a\<lparr>cells := cs, alen := add32 (alen a) 1\<rparr>))))"

definition lo_clear :: "'a arr \<Rightarrow> 'a arr" where
  "lo_clear a = a\<lparr>alen := 0\<rparr>"

section \<open>ListUnordered\<close>

definition lu_resize :: "nat \<Rightarrow> 'a arr \<Rightarrow> 'a arr option" where
  "lu_resize newSize a =
     (let newSize = max (max (alen a) 1) newSize in
      if newSize = allocated a then Some a
      else
        (case copy_cells 0 (fresh newSize) 0 (alen a) (cells a) of
           None \<Rightarrow> None
         | Some newData \<Rightarrow> Some (a\<lparr>allocated := newSize, cells := newData\<rparr>)))"

definition lu_push :: "'a \<Rightarrow> 'a arr \<Rightarrow> 'a arr option" where
  "lu_push item a =
     (case (if add32 (alen a) 1 \<ge> allocated a
            then lu_resize (add32 (add32 (alen a) 1) (alen a div 2)) a else Some a) of
        None \<Rightarrow> None
      | Some a \<Rightarrow>
          (case write_cell (alen a) item (cells a) of
             None \<Rightarrow> None
           | Some cs \<Rightarrow> Some (a\<lparr>cells := cs, alen := add32 (alen a) 1\<rparr>)))"

definition lu_pop :: "'a arr \<Rightarrow> ('a \<times> 'a arr) option" where
  "lu_pop a =
     (if \<not> alen a > 0 then None
      else
        (case read_cell (alen a - 1) (cells a) of
           None \<Rightarrow> None
         | Some v \<Rightarrow> Some (v, a\<lparr>alen := alen a - 1\<rparr>)))"

text \<open>Both index-taking removals move the last item into the hole.\<close>

definition lu_remove :: "nat \<Rightarrow> 'a arr \<Rightarrow> 'a arr option" where
  "lu_remove index a =
     (if \<not> index < alen a then None
      else
        (let len = alen a - 1 in
         if index < len then
           (case read_cell len (cells a) of
              None \<Rightarrow> None
            | Some v \<Rightarrow>
                (case write_cell index v (cells a) of
                   None \<Rightarrow> None
                 | Some cs \<Rightarrow> Some (a\<lparr>alen := len, cells := cs\<rparr>)))
         else Some (a\<lparr>alen := len\<rparr>)))"

definition lu_clear :: "'a arr \<Rightarrow> 'a arr" where
  "lu_clear a = a\<lparr>alen := 0\<rparr>"

section \<open>The sequence an array holds\<close>

definition arr_repr :: "'a arr \<Rightarrow> 'a list \<Rightarrow> bool" where
  "arr_repr a xs \<longleftrightarrow> (\<exists>rest. cells a = map Some xs @ rest) \<and> alen a = length xs \<and>
     allocated a = length (cells a) \<and> allocated a < two32"

lemma arr_reprE:
  assumes "arr_repr a xs"
  obtains rest where "cells a = map Some xs @ rest" "alen a = length xs"
    "allocated a = length xs + length rest" "length xs + length rest < two32"
  using assms by (auto simp: arr_repr_def)

lemma arr_reprI:
  "cells a = map Some xs @ rest \<Longrightarrow> alen a = length xs \<Longrightarrow>
    allocated a = length xs + length rest \<Longrightarrow> length xs + length rest < two32 \<Longrightarrow> arr_repr a xs"
  by (auto simp: arr_repr_def)

lemma arr_repr_new: "n < two32 \<Longrightarrow> arr_repr (new_array n) []"
  by (simp add: arr_repr_def new_array_def fresh_def)

lemma arr_at_repr: "arr_repr a xs \<Longrightarrow> i < length xs \<Longrightarrow> arr_at a i = Some (xs ! i)"
  by (auto simp: arr_at_def read_cell_def nth_append elim!: arr_reprE)

text \<open>The largest length from which growing by half still fits 32 bits.\<close>

definition max_elems :: nat where
  "max_elems = 2863311530"

lemma grown_size: "n < max_elems \<Longrightarrow> add32 (add32 n 1) (n div 2) = n + 1 + n div 2"
proof -
  assume "n < max_elems"
  then have "n + 1 + n div 2 < two32" unfolding max_elems_def by linarith
  then show ?thesis by (simp add: add32_exact)
qed

lemma copy_to_fresh:
  "length xs \<le> n \<Longrightarrow> copy_cells 0 (fresh n) 0 (length xs) (map Some xs @ rest) =
    Some (map Some xs @ replicate (n - length xs) None)"
  by (simp add: copy_cells_def fresh_def)

lemma resize_room:
  assumes "arr_repr a xs" and "length xs < max_elems" and "add32 (alen a) 1 \<ge> allocated a"
  shows "\<exists>a'. lo_resize (add32 (add32 (alen a) 1) (alen a div 2)) a = Some a' \<and> arr_repr a' xs \<and>
    length xs < allocated a'"
proof -
  from assms(1) obtain rest where r: "cells a = map Some xs @ rest" "alen a = length xs"
    "allocated a = length xs + length rest" "length xs + length rest < two32" by (rule arr_reprE)
  let ?n = "length xs + 1 + length xs div 2"
  have n: "?n < two32" using assms(2) unfolding max_elems_def by linarith
  have m: "max (max (length xs) 1) ?n = ?n" by simp
  show ?thesis
  proof (cases "?n = allocated a")
    case True
    with assms(1) m show ?thesis
      unfolding r(2) grown_size[OF assms(2)] by (simp add: lo_resize_def Let_def r(2))
  next
    case False
    have "lo_resize ?n a = Some (a\<lparr>allocated := ?n,
        cells := map Some xs @ replicate (?n - length xs) None\<rparr>)"
      using False r m copy_to_fresh[of xs ?n rest] by (simp add: lo_resize_def Let_def del: replicate.simps)
    moreover have "arr_repr (a\<lparr>allocated := ?n,
        cells := map Some xs @ replicate (?n - length xs) None\<rparr>) xs"
      using n r(2) by (intro arr_reprI) auto
    ultimately show ?thesis unfolding r(2) grown_size[OF assms(2)] by simp
  qed
qed

lemma lo_reserve_room:
  assumes "arr_repr a xs" and "length xs < max_elems"
  shows "\<exists>a'. lo_reserve a = Some a' \<and> arr_repr a' xs \<and> length xs < allocated a'"
proof (cases "add32 (alen a) 1 \<ge> allocated a")
  case True
  with resize_room[OF assms True] show ?thesis by (simp add: lo_reserve_def)
next
  case False
  moreover have "add32 (alen a) 1 = length xs + 1"
    using assms by (auto simp: arr_repr_def max_elems_def add32_exact)
  ultimately show ?thesis using assms by (simp add: lo_reserve_def)
qed

lemma write_next:
  assumes "arr_repr a xs" and "length xs < allocated a"
  shows "\<exists>cs. write_cell (alen a) v (cells a) = Some cs \<and>
    arr_repr (a\<lparr>cells := cs, alen := add32 (alen a) 1\<rparr>) (xs @ [v])"
proof -
  from assms(1) obtain rest where r: "cells a = map Some xs @ rest" "alen a = length xs"
    "allocated a = length xs + length rest" "length xs + length rest < two32" by (rule arr_reprE)
  with assms(2) obtain c rest' where c: "rest = c # rest'" by (cases rest) auto
  have "write_cell (alen a) v (cells a) = Some (map Some (xs @ [v]) @ rest')"
    using r c by (simp add: write_cell_def list_update_append)
  moreover have "arr_repr (a\<lparr>cells := map Some (xs @ [v]) @ rest', alen := add32 (alen a) 1\<rparr>) (xs @ [v])"
    using r c by (intro arr_reprI[where rest = rest']) (auto simp: add32_exact)
  ultimately show ?thesis by blast
qed

lemma pod_resize_eq: "pod_resize n a = lo_resize n a"
  by (cases a) (auto simp: pod_resize_def lo_resize_def Let_def split: option.split)

lemma lu_resize_eq: "lu_resize = lo_resize"
  by (simp add: fun_eq_iff lu_resize_def lo_resize_def)

lemma lo_push_back_repr:
  assumes "arr_repr a xs" and "length xs < max_elems"
  shows "\<exists>a'. lo_push_back v a = Some a' \<and> arr_repr a' (xs @ [v])"
proof -
  obtain a1 where a1: "lo_reserve a = Some a1" "arr_repr a1 xs" "length xs < allocated a1"
    using lo_reserve_room[OF assms] by blast
  with write_next[OF a1(2,3), of v] show ?thesis by (auto simp: lo_push_back_def)
qed

lemma push_eqs: "pod_push_back v a = lo_push_back v a" "lu_push v a = lo_push_back v a"
  by (simp_all add: pod_push_back_def lu_push_def lo_push_back_def lo_reserve_def pod_resize_eq lu_resize_eq)

section \<open>The growable-array interface\<close>

locale growable =
  fixes rep :: "'c \<Rightarrow> 'a list \<Rightarrow> bool"
    and push :: "'a \<Rightarrow> 'c \<Rightarrow> 'c option"
    and at :: "'c \<Rightarrow> nat \<Rightarrow> 'a option"
    and cap :: nat
  assumes push_ok: "rep c xs \<Longrightarrow> length xs < cap \<Longrightarrow> \<exists>c'. push v c = Some c' \<and> rep c' (xs @ [v])"
    and at_ok: "rep c xs \<Longrightarrow> i < length xs \<Longrightarrow> at c i = Some (xs ! i)"

fun push_all :: "('a \<Rightarrow> 'c \<Rightarrow> 'c option) \<Rightarrow> 'a list \<Rightarrow> 'c \<Rightarrow> 'c option" where
  "push_all push [] c = Some c"
| "push_all push (v # vs) c = (case push v c of None \<Rightarrow> None | Some c' \<Rightarrow> push_all push vs c')"

context growable begin

lemma push_all_ok:
  "rep c xs \<Longrightarrow> length xs + length vs \<le> cap \<Longrightarrow>
    \<exists>c'. push_all push vs c = Some c' \<and> rep c' (xs @ vs)"
proof (induction vs arbitrary: c xs)
  case Nil
  then show ?case by simp
next
  case (Cons v vs)
  from Cons.prems obtain c1 where c1: "push v c = Some c1" "rep c1 (xs @ [v])"
    using push_ok[of c xs v] by auto
  have "length (xs @ [v]) + length vs \<le> cap" using Cons.prems(2) by simp
  from Cons.IH[OF c1(2) this] show ?case by (auto simp: c1(1))
qed

lemma push_all_at:
  assumes "rep c []" and "length vs \<le> cap" and "push_all push vs c = Some c'" and "i < length vs"
  shows "at c' i = Some (vs ! i)"
  using push_all_ok[OF assms(1), of vs] assms(2-4) at_ok by auto

end

interpretation pod: growable arr_repr pod_push_back arr_at max_elems
  by unfold_locales (simp_all add: push_eqs lo_push_back_repr arr_at_repr)

interpretation lo: growable arr_repr lo_push_back arr_at max_elems
  by unfold_locales (simp_all add: lo_push_back_repr arr_at_repr)

interpretation lu: growable arr_repr lu_push arr_at max_elems
  by unfold_locales (simp_all add: push_eqs lo_push_back_repr arr_at_repr)

section \<open>Removing and inserting\<close>

lemma move_left:
  assumes "i < length xs"
  shows "move_cells i (i + 1) (length xs - 1 - i) (map Some xs @ rest) =
    Some (map Some (take i xs @ drop (Suc i) xs) @ drop (length xs - 1) (map Some xs @ rest))"
  using assms by (simp add: move_cells_def take_map drop_map)

lemma move_right:
  assumes "i \<le> length xs" and "rest \<noteq> []"
  shows "move_cells (i + 1) i (length xs - i) (map Some xs @ rest) =
    Some (take (i + 1) (map Some xs @ rest) @ map Some (drop i xs) @ drop 1 rest)"
  using assms by (cases rest) (simp_all add: move_cells_def take_map drop_map Suc_diff_le)

lemma cut_repr:
  assumes "arr_repr a xs" and "length ys = length xs - 1" and "xs \<noteq> []"
    and "cs = map Some ys @ rest'" and "length cs = length (cells a)"
  shows "arr_repr (a\<lparr>alen := alen a - 1, cells := cs\<rparr>) ys"
proof -
  have "length ys + length rest' = length (cells a)" using assms(4,5) by simp
  with assms show ?thesis
    by (intro arr_reprI[where rest = rest']) (auto simp: arr_repr_def)
qed

lemma move_front_wrong:
  assumes "xs \<noteq> []"
  shows "move_cells 1 0 (length xs - 1) (map Some xs @ rest) =
    Some (map Some (hd xs # butlast xs) @ rest)"
proof -
  obtain ys y where "xs = ys @ [y]" using assms by (cases xs rule: rev_cases) auto
  then show ?thesis by (cases ys) (simp_all add: move_cells_def)
qed

lemma cut_left:
  assumes "arr_repr a xs" and "i < length xs"
  shows "\<exists>cs. move_cells i (i + 1) (alen a - 1 - i) (cells a) = Some cs \<and>
    arr_repr (a\<lparr>alen := alen a - 1, cells := cs\<rparr>) (take i xs @ drop (Suc i) xs)"
proof -
  from assms(1) obtain rest where r: "cells a = map Some xs @ rest" "alen a = length xs"
    by (rule arr_reprE)
  let ?cs = "map Some (take i xs @ drop (Suc i) xs) @ drop (length xs - 1) (map Some xs @ rest)"
  have "move_cells i (i + 1) (alen a - 1 - i) (cells a) = Some ?cs"
    unfolding r using assms(2) by (rule move_left)
  moreover have "arr_repr (a\<lparr>alen := alen a - 1, cells := ?cs\<rparr>) (take i xs @ drop (Suc i) xs)"
    using assms r by (intro cut_repr[OF assms(1) _ _ refl]) auto
  ultimately show ?thesis by blast
qed

lemma cut_back:
  "arr_repr a xs \<Longrightarrow> xs \<noteq> [] \<Longrightarrow> arr_repr (a\<lparr>alen := alen a - 1\<rparr>) (butlast xs)"
  by (cases xs rule: rev_cases) (auto simp: arr_repr_def)

text \<open>What shifting the wrong way leaves of a sequence.\<close>

definition front_dup :: "'a list \<Rightarrow> 'a list" where
  "front_dup xs = butlast (hd xs # butlast xs)"

lemma cut_front_wrong:
  assumes "arr_repr a xs" and "xs \<noteq> []"
  shows "\<exists>cs. move_cells 1 0 (alen a - 1) (cells a) = Some cs \<and>
    arr_repr (a\<lparr>alen := alen a - 1, cells := cs\<rparr>) (front_dup xs)"
proof -
  from assms(1) obtain rest where r: "cells a = map Some xs @ rest" "alen a = length xs"
    by (rule arr_reprE)
  obtain ys y where xs: "xs = ys @ [y]" using assms(2) by (cases xs rule: rev_cases) auto
  let ?cs = "map Some (hd xs # butlast xs) @ rest"
  have "move_cells 1 0 (alen a - 1) (cells a) = Some ?cs"
    unfolding r using assms(2) by (rule move_front_wrong)
  moreover have "?cs = map Some (front_dup xs) @ Some (last (hd xs # butlast xs)) # rest"
    unfolding front_dup_def by (metis append_butlast_last_id append_Cons append_Nil append_assoc
        list.simps(9) map_append list.distinct(1) list.map(1))
  then have "arr_repr (a\<lparr>alen := alen a - 1, cells := ?cs\<rparr>) (front_dup xs)"
    using r xs by (intro cut_repr[OF assms(1)]) (auto simp: front_dup_def)
  ultimately show ?thesis by blast
qed

lemma arr_repr_len: "arr_repr a xs \<Longrightarrow> alen a = length xs"
  by (simp add: arr_repr_def)

lemma pod_remove_repr:
  assumes "arr_repr a xs" and "i < length xs"
  shows "\<exists>a'. pod_remove i a = Some a' \<and>
    arr_repr a' (if i = 0 then front_dup xs else take i xs @ drop (Suc i) xs)"
proof -
  note len = arr_repr_len[OF assms(1)]
  have ne: "xs \<noteq> []" using assms(2) by auto
  consider "i = 0" | "i \<noteq> 0" "i = length xs - 1" | "i \<noteq> 0" "i \<noteq> length xs - 1" by blast
  then show ?thesis
  proof cases
    case 1
    with cut_front_wrong[OF assms(1) ne] assms(2) len show ?thesis
      by (auto simp: pod_remove_def pod_remove_front_def)
  next
    case 2
    have "sub32 (alen a) 1 = alen a - 1"
      using assms len by (intro sub32_exact) (auto simp: arr_repr_def)
    with 2 cut_back[OF assms(1) ne] assms(2) len show ?thesis
      by (simp add: pod_remove_def pod_remove_back_def butlast_conv_take)
  next
    case 3
    with cut_left[OF assms] assms(2) len show ?thesis by (auto simp: pod_remove_def)
  qed
qed

text \<open>\<^verbatim>\<open>PodArray::remove\<close> takes out exactly the addressed item for every index but 0. For index 0
  the \<^verbatim>\<open>memmove\<close> of \<^verbatim>\<open>remove_front\<close> has its arguments swapped: the first item stays, every other item but
  the last two moves up by one, and the last item is lost.\<close>

theorem pod_remove_effect:
  assumes "arr_repr a xs" and "i < length xs"
  shows "\<exists>a'. pod_remove i a = Some a' \<and>
    arr_repr a' (if i = 0 then front_dup xs else take i xs @ drop (Suc i) xs)"
  by (rule pod_remove_repr[OF assms])

lemma arr_repr_example: "arr_repr \<lparr>alen = 3, allocated = 4, cells = [Some 10, Some 20, Some 30, None]\<rparr>
    [10, 20, 30 :: nat]"
  by (rule arr_reprI[where rest = "[None]"]) simp_all

theorem pod_remove_effect_witness:
  "\<exists>a'. pod_remove 0 \<lparr>alen = 3, allocated = 4, cells = [Some 10, Some 20, Some 30, None]\<rparr> = Some a' \<and>
    arr_repr a' [10, 10 :: nat]"
  using pod_remove_effect[OF arr_repr_example, of 0] by (simp add: front_dup_def)

lemma lo_remove_repr:
  assumes "arr_repr a xs" and "i < length xs"
  shows "\<exists>a'. lo_remove i a = Some a' \<and> arr_repr a' (take i xs @ drop (Suc i) xs)"
proof (cases "i < length xs - 1")
  case True
  with cut_left[OF assms] arr_repr_len[OF assms(1)] show ?thesis
    by (auto simp: lo_remove_def Let_def)
next
  case False
  with assms(2) have "i = length xs - 1" "xs \<noteq> []" by auto
  then show ?thesis
    using cut_back[OF assms(1)] arr_repr_len[OF assms(1)]
    by (simp add: lo_remove_def Let_def butlast_conv_take)
qed

lemma grown_size': "n < max_elems \<Longrightarrow> add32 (add32 n (n div 2)) 1 = n + n div 2 + 1"
proof -
  assume "n < max_elems"
  then have "n + n div 2 + 1 < two32" unfolding max_elems_def by linarith
  then show ?thesis by (simp add: add32_exact)
qed

lemma insert_store:
  assumes "cells a = map Some (take i xs) @ c # map Some (drop i xs) @ rest" and "i \<le> length xs"
    and "alen a = length xs" and "allocated a = length (cells a)" and "allocated a < two32"
  shows "\<exists>cs. write_cell i v (cells a) = Some cs \<and>
    arr_repr (a\<lparr>alen := add32 (alen a) 1, cells := cs\<rparr>) (take i xs @ v # drop i xs)"
proof -
  have "write_cell i v (cells a) = Some (map Some (take i xs) @ Some v # map Some (drop i xs) @ rest)"
    using assms(1,2) by (simp add: write_cell_def list_update_append)
  moreover have "arr_repr (a\<lparr>alen := add32 (alen a) 1,
      cells := map Some (take i xs) @ Some v # map Some (drop i xs) @ rest\<rparr>) (take i xs @ v # drop i xs)"
    using assms by (intro arr_reprI[where rest = rest]) (auto simp: add32_exact)
  ultimately show ?thesis by blast
qed

lemma drop_replicate_None: "drop k (replicate n None) = replicate (n - k) None"
  by simp

lemma pod_insert_repr:
  assumes "arr_repr a xs" and "i \<le> length xs" and "allocated a < max_elems"
  shows "\<exists>a'. pod_insert i v a = Some a' \<and> arr_repr a' (take i xs @ v # drop i xs)"
proof -
  from assms(1) obtain rest where r: "cells a = map Some xs @ rest" "alen a = length xs"
    "allocated a = length xs + length rest" "length xs + length rest < two32" by (rule arr_reprE)
  have l1: "add32 (alen a) 1 = length xs + 1"
    using r assms(3) by (intro trans[OF add32_exact]) (auto simp: max_elems_def)
  have sub: "sub32 (alen a) i = length xs - i" using r assms(2) by (simp add: sub32_exact)
  show ?thesis
  proof (cases "length xs + 1 \<ge> allocated a")
    case True
    let ?n = "allocated a + allocated a div 2 + 1"
    let ?k = "?n - length xs - 1"
    have n: "?n < two32" using assms(3) unfolding max_elems_def by linarith
    have nk: "?n = length xs + 1 + ?k" using r(3) by simp
    define k where "k = ?k"
    have c1: "copy_cells 0 (fresh ?n) 0 i (cells a) = Some (map Some (take i xs) @ replicate (?n - i) None)"
      using r(1,3) assms(2) by (simp add: copy_cells_def fresh_def take_map del: replicate.simps)
    have ni: "?n - i = Suc ((length xs - i) + k)" using assms(2) nk unfolding k_def by linarith
    have "replicate (?n - i) None = None # replicate (length xs - i) None @ replicate k (None :: 'a option)"
      unfolding ni by (simp add: replicate_add)
    then have c2: "copy_cells (i + 1) (map Some (take i xs) @ replicate (?n - i) None) i (length xs - i) (cells a) =
        Some (map Some (take i xs) @ None # map Some (drop i xs) @ replicate k None)"
      using r(1) assms(2) by (simp add: copy_cells_def drop_map Suc_diff_le)
    let ?a = "a\<lparr>allocated := ?n, cells := map Some (take i xs) @ None # map Some (drop i xs) @ replicate k None\<rparr>"
    have len: "allocated ?a = length (cells ?a)" using assms(2) nk by (simp add: k_def)
    have "\<exists>cs. write_cell i v (cells ?a) = Some cs \<and>
        arr_repr (?a\<lparr>alen := add32 (alen ?a) 1, cells := cs\<rparr>) (take i xs @ v # drop i xs)"
      by (rule insert_store[OF _ assms(2) _ len]) (use n r(2) in simp_all)
    with True l1 sub c1 c2 show ?thesis
      unfolding pod_insert_def grown_size'[OF assms(3)] by (auto simp: Let_def)
  next
    case False
    then have rest: "rest \<noteq> []" using r(3) by auto
    let ?cs = "take (i + 1) (map Some xs @ rest) @ map Some (drop i xs) @ drop 1 rest"
    have m: "move_cells (i + 1) i (length xs - i) (cells a) = Some ?cs"
      unfolding r(1) by (rule move_right[OF assms(2) rest])
    obtain c where c: "?cs = map Some (take i xs) @ c # map Some (drop i xs) @ drop 1 rest"
      using assms(2) rest by (cases "i = length xs") (auto simp: take_Suc_conv_app_nth take_map neq_Nil_conv)
    have "\<exists>cs. write_cell i v (cells (a\<lparr>cells := ?cs\<rparr>)) = Some cs \<and>
        arr_repr (a\<lparr>cells := ?cs, alen := add32 (alen (a\<lparr>cells := ?cs\<rparr>)) 1, cells := cs\<rparr>) (take i xs @ v # drop i xs)"
      by (rule insert_store[OF _ assms(2)]) (use c r rest assms(2) in \<open>auto simp: neq_Nil_conv\<close>)
    with False l1 sub m show ?thesis unfolding pod_insert_def by auto
  qed
qed

text \<open>\<^verbatim>\<open>PodArray::insert\<close> puts the value at its index and keeps every other item in order, whether or
  not the array has to grow.\<close>

theorem pod_insert_effect:
  assumes "arr_repr a xs" and "i \<le> length xs" and "allocated a < max_elems"
  shows "\<exists>a'. pod_insert i v a = Some a' \<and> arr_repr a' (take i xs @ v # drop i xs)"
  by (rule pod_insert_repr[OF assms])

theorem pod_insert_effect_witness:
  "\<exists>a'. pod_insert 1 99 \<lparr>alen = 3, allocated = 4, cells = [Some 10, Some 20, Some 30, None]\<rparr> = Some a' \<and>
    arr_repr a' (take 1 [10, 20, 30] @ 99 # drop 1 [10, 20, 30 :: nat])"
  by (rule pod_insert_effect[OF arr_repr_example]) (simp_all add: max_elems_def)

text \<open>\<^verbatim>\<open>ListOrdered::insert\<close> makes room at the index but never writes the value: the result does not
  depend on it. The item that was at the index appears twice; inserting at the end exposes whatever the
  cell held before (here: the old cell, possibly never written).\<close>

theorem lo_insert_drops_value:
  assumes "arr_repr a xs" and "i < length xs" and "length xs < max_elems"
  shows "lo_insert i v a = lo_insert i w a \<and>
    (\<exists>a'. lo_insert i v a = Some a' \<and> arr_repr a' (take (Suc i) xs @ drop i xs))"
proof -
  obtain a1 where a1: "lo_reserve a = Some a1" "arr_repr a1 xs" "length xs < allocated a1"
    using lo_reserve_room[OF assms(1,3)] by blast
  from a1(2) obtain rest where r: "cells a1 = map Some xs @ rest" "alen a1 = length xs"
    "allocated a1 = length xs + length rest" "length xs + length rest < two32" by (rule arr_reprE)
  then have rest: "rest \<noteq> []" using a1(3) by auto
  let ?cs = "take (i + 1) (map Some xs @ rest) @ map Some (drop i xs) @ drop 1 rest"
  have m: "move_cells (i + 1) i (length xs - i) (cells a1) = Some ?cs"
    unfolding r(1) using assms(2) rest by (intro move_right) auto
  have cs: "?cs = map Some (take (Suc i) xs @ drop i xs) @ drop 1 rest"
    using assms(2) by (simp add: take_map)
  have "arr_repr (a1\<lparr>cells := ?cs, alen := add32 (alen a1) 1\<rparr>) (take (Suc i) xs @ drop i xs)"
    using r assms(2) rest unfolding cs
    by (intro arr_reprI[where rest = "drop 1 rest"]) (auto simp: add32_exact neq_Nil_conv)
  moreover have "lo_insert i u a = Some (a1\<lparr>cells := ?cs, alen := add32 (alen a1) 1\<rparr>)" for u
    using assms(2) arr_repr_len[OF assms(1)] a1(1) m r(2) by (simp add: lo_insert_def)
  ultimately show ?thesis by simp
qed

theorem lo_insert_drops_value_witness:
  "lo_insert 1 (99 :: nat) \<lparr>alen = 3, allocated = 4, cells = [Some 10, Some 20, Some 30, None]\<rparr> =
    lo_insert 1 77 \<lparr>alen = 3, allocated = 4, cells = [Some 10, Some 20, Some 30, None]\<rparr> \<and>
    (\<exists>a'. lo_insert 1 (99 :: nat) \<lparr>alen = 3, allocated = 4, cells = [Some 10, Some 20, Some 30, None]\<rparr> = Some a' \<and>
      arr_repr a' [10, 20, 20, 30 :: nat])"
proof -
  have t: "take (Suc 1) [10, 20, 30] @ drop 1 [10, 20, 30] = [10, 20, 20, 30 :: nat]" by simp
  show ?thesis
    by (rule lo_insert_drops_value[OF arr_repr_example, of 1 99 77, unfolded t])
      (simp_all add: max_elems_def)
qed

text \<open>Pushing any items into a freshly constructed array of any of the three kinds never touches memory
  outside the allocation, and afterwards the array holds exactly those items in order, up to the
  length from which growing by half would wrap the 32-bit size.\<close>

theorem arrays_push_all:
  assumes "n < two32" and "length vs \<le> max_elems"
  shows "(\<exists>a. push_all pod_push_back vs (new_array n) = Some a \<and> arr_repr a vs) \<and>
    (\<exists>a. push_all lo_push_back vs (new_array n) = Some a \<and> arr_repr a vs) \<and>
    (\<exists>a. push_all lu_push vs (new_array n) = Some a \<and> arr_repr a vs)"
  using pod.push_all_ok[OF arr_repr_new[OF assms(1)], of vs] lo.push_all_ok[OF arr_repr_new[OF assms(1)], of vs]
    lu.push_all_ok[OF arr_repr_new[OF assms(1)], of vs] assms(2) by simp

theorem arrays_push_all_witness:
  "(\<exists>a. push_all pod_push_back [5, 6, 7 :: nat] (new_array 0) = Some a \<and> arr_repr a [5, 6, 7]) \<and>
    (\<exists>a. push_all lo_push_back [5, 6, 7 :: nat] (new_array 0) = Some a \<and> arr_repr a [5, 6, 7]) \<and>
    (\<exists>a. push_all lu_push [5, 6, 7 :: nat] (new_array 0) = Some a \<and> arr_repr a [5, 6, 7])"
  by (rule arrays_push_all) (simp_all add: max_elems_def)

lemma lu_remove_repr:
  assumes "arr_repr a xs" and "i < length xs"
  shows "\<exists>a' ys. lu_remove i a = Some a' \<and> arr_repr a' ys \<and> mset ys = mset xs - {#xs ! i#}"
proof -
  obtain ys y where xs: "xs = ys @ [y]" using assms(2) by (cases xs rule: rev_cases) auto
  from assms(1) obtain rest where r: "cells a = map Some xs @ rest" "alen a = length xs"
    by (rule arr_reprE)
  show ?thesis
  proof (cases "i < length ys")
    case True
    have w: "write_cell i y (cells a) = Some (map Some (ys[i := y]) @ Some y # rest)"
      using True r xs by (simp add: write_cell_def list_update_append map_update)
    have "read_cell (length ys) (cells a) = Some y" using r xs by (simp add: read_cell_def nth_append)
    with w True r xs have "lu_remove i a = Some (a\<lparr>alen := alen a - 1, cells := map Some (ys[i := y]) @ Some y # rest\<rparr>)"
      by (simp add: lu_remove_def Let_def)
    moreover have "arr_repr (a\<lparr>alen := alen a - 1, cells := map Some (ys[i := y]) @ Some y # rest\<rparr>) (ys[i := y])"
      using r xs by (intro cut_repr[OF assms(1) _ _ refl]) auto
    moreover have "mset (ys[i := y]) = mset xs - {#xs ! i#}"
      using True xs by (simp add: mset_update nth_append)
    ultimately show ?thesis by blast
  next
    case False
    with assms(2) xs have "i = length ys" by simp
    then show ?thesis
      using cut_back[OF assms(1)] r xs by (auto simp: lu_remove_def Let_def nth_append)
  qed
qed

lemma pod_shift_left_repr:
  assumes "arr_repr a xs"
  shows "\<exists>a'. pod_shift_left n a = Some a' \<and> arr_repr a' (drop n xs)"
proof -
  from assms obtain rest where r: "cells a = map Some xs @ rest" "alen a = length xs"
    "allocated a = length xs + length rest" "length xs + length rest < two32" by (rule arr_reprE)
  show ?thesis
  proof (cases "n \<ge> length xs")
    case True
    with r show ?thesis by (auto simp: pod_shift_left_def arr_repr_def)
  next
    case False
    then have "move_cells 0 n (length xs - n) (cells a) =
        Some (map Some (drop n xs) @ drop (length xs - n) (cells a))"
      using r(1) by (simp add: move_cells_def drop_map)
    moreover have "arr_repr (a\<lparr>alen := length xs - n, cells := map Some (drop n xs) @ drop (length xs - n) (cells a)\<rparr>) (drop n xs)"
      using r False by (intro arr_reprI[where rest = "drop (length xs - n) (cells a)"]) auto
    ultimately show ?thesis using False r(2) by (simp add: pod_shift_left_def)
  qed
qed

lemma arr_pops:
  assumes "arr_repr a (xs @ [x])"
  shows "\<exists>a'. pod_pop_back a = Some (x, a') \<and> lo_pop_back a = Some (x, a') \<and> lu_pop a = Some (x, a') \<and>
    arr_repr a' xs"
proof -
  have "sub32 (alen a) 1 = length xs" using assms by (intro trans[OF sub32_exact]) (auto simp: arr_repr_def)
  then show ?thesis
    using assms by (auto simp: arr_repr_def pod_pop_back_def lo_pop_back_def lu_pop_def read_cell_def nth_append Let_def)
qed

end
