(* ===== verification/Subscriptions.thy ===== *)
theory Subscriptions
  imports Arrays
begin

text \<open>
  Who gets called: the subscriber tables of \<^verbatim>\<open>kernel/exceptions.cpp\<close> (hardware interrupt lines) and
  \<^verbatim>\<open>kernel/arch/x86/exceptions.cpp\<close> (processor interrupts), and \<^verbatim>\<open>common/EventEmitter.hpp\<close>. Their lists are the
  arrays of theory Arrays. A subscription is the pair of the callback's address and its data. Callbacks are
  parameters. Every operation runs in a critical section (theory Locks) and is one step here.
\<close>

type_synonym subscription = "nat \<times> nat"

text \<open>The search loop \<^verbatim>\<open>for(i<length) if(found) {remove(i); break;}\<close>: the first index that holds \<open>v\<close>, from \<open>i\<close>.\<close>

fun search_from :: "nat \<Rightarrow> nat \<Rightarrow> 'a \<Rightarrow> 'a arr \<Rightarrow> nat option" where
  "search_from 0 i v a = None"
| "search_from (Suc n) i v a = (if arr_at a i = Some v then Some i else search_from n (i + 1) v a)"

definition search_index :: "'a \<Rightarrow> 'a arr \<Rightarrow> nat option" where
  "search_index v a = search_from (alen a) 0 v a"

lemma search_from_repr:
  assumes "arr_repr a xs"
  shows "i + n = length xs \<Longrightarrow> search_from n i v a =
    (case find (\<lambda>k. xs ! k = v) [i..<length xs] of None \<Rightarrow> None | Some k \<Rightarrow> Some k)"
proof (induction n arbitrary: i)
  case (Suc n)
  then have i: "i < length xs" "[i..<length xs] = i # [i + 1..<length xs]" by (simp_all add: upt_conv_Cons)
  have "arr_at a i = Some (xs ! i)" by (rule pod.at_ok[OF assms i(1)])
  with Suc i show ?case by (simp del: upt_Suc)
qed simp

lemma search_index_repr:
  assumes "arr_repr a xs"
  shows "search_index v a = None \<longleftrightarrow> v \<notin> set xs"
    and "search_index v a = Some i \<Longrightarrow> i < length xs \<and> xs ! i = v \<and> (\<forall>j < i. xs ! j \<noteq> v)"
proof -
  have e: "search_index v a = find (\<lambda>k. xs ! k = v) [0..<length xs]"
    using search_from_repr[OF assms, of 0 "length xs" v] arr_repr_len[OF assms]
    by (simp add: search_index_def split: option.splits)
  show "search_index v a = None \<longleftrightarrow> v \<notin> set xs"
    unfolding e by (auto simp: find_None_iff in_set_conv_nth)
  assume "search_index v a = Some i"
  then show "i < length xs \<and> xs ! i = v \<and> (\<forall>j < i. xs ! j \<noteq> v)"
    unfolding e by (auto simp: find_Some_iff)
qed

lemma remove1_first_index:
  "i < length xs \<Longrightarrow> xs ! i = v \<Longrightarrow> (\<forall>j < i. xs ! j \<noteq> v) \<Longrightarrow> take i xs @ drop (Suc i) xs = remove1 v xs"
proof (induction xs arbitrary: i)
  case (Cons x xs)
  show ?case
  proof (cases i)
    case (Suc k)
    then have "x \<noteq> v" using Cons.prems(3) by force
    moreover have "take k xs @ drop (Suc k) xs = remove1 v xs"
      by (rule Cons.IH) (use Cons.prems Suc in auto)
    ultimately show ?thesis using Suc by simp
  qed (use Cons.prems in simp)
qed simp

section \<open>Hardware interrupt lines\<close>

text \<open>The interrupt controllers are those \<^verbatim>\<open>drivers::iterate<driver::Interrupt>()\<close> yields, each with its range of lines;
  \<open>switched\<close> records the calls of \<^verbatim>\<open>enable_irq\<close> and \<^verbatim>\<open>disable_irq\<close>.\<close>

record irq_table =
  irqSubscribers :: "nat \<Rightarrow> subscription arr option"
  controllers :: "(nat \<times> nat) list"
  switched :: "(nat \<times> nat \<times> bool) list"

definition covers :: "nat \<Rightarrow> nat \<times> nat \<Rightarrow> bool" where
  "covers irq c \<longleftrightarrow> irq \<ge> fst c \<and> irq \<le> snd c"

definition irq_subscribe :: "nat \<Rightarrow> subscription \<Rightarrow> irq_table \<Rightarrow> (unit attempt \<times> irq_table) option" where
  "irq_subscribe irq s t =
     (case irqSubscribers t irq of
        Some a \<Rightarrow> map_option (\<lambda>a. (Inr (), t\<lparr>irqSubscribers := (irqSubscribers t)(irq := Some a)\<rparr>)) (pod_push_back s a)
      | None \<Rightarrow>
          (let t = t\<lparr>irqSubscribers := (irqSubscribers t)(irq := Some (new_array 1))\<rparr> in
           case find (\<lambda>i. covers irq (controllers t ! i)) [0..<length (controllers t)] of
             None \<Rightarrow> Some (Inl ''IRQ not available'', t)
           | Some i \<Rightarrow>
               map_option (\<lambda>a. (Inr (), t\<lparr>irqSubscribers := (irqSubscribers t)(irq := Some a),
                 switched := switched t @ [(i, irq, True)]\<rparr>)) (pod_push_back s (new_array 1))))"

definition irq_unsubscribe :: "nat \<Rightarrow> subscription \<Rightarrow> irq_table \<Rightarrow> irq_table option" where
  "irq_unsubscribe irq s t =
     (case irqSubscribers t irq of
        None \<Rightarrow> Some t
      | Some a \<Rightarrow>
          (case (case search_index s a of None \<Rightarrow> Some a | Some i \<Rightarrow> pod_remove i a) of
             None \<Rightarrow> None
           | Some a \<Rightarrow>
               (if alen a < 1 then
                  Some (t\<lparr>irqSubscribers := (irqSubscribers t)(irq := None),
                    switched := switched t @ map (\<lambda>i. (i, irq, False))
                      (filter (\<lambda>i. covers irq (controllers t ! i)) [0..<length (controllers t)])\<rparr>)
                else Some (t\<lparr>irqSubscribers := (irqSubscribers t)(irq := Some a)\<rparr>))))"

text \<open>The callbacks \<^verbatim>\<open>_on_irq\<close> makes, in order, before the drivers' own handlers.\<close>

definition on_irq :: "nat \<Rightarrow> irq_table \<Rightarrow> subscription list option" where
  "on_irq irq t = (case irqSubscribers t irq of None \<Rightarrow> Some [] | Some a \<Rightarrow> those (map (arr_at a) [0..<alen a]))"

definition irq_list :: "irq_table \<Rightarrow> nat \<Rightarrow> subscription list option \<Rightarrow> bool" where
  "irq_list t irq l \<longleftrightarrow>
     (case (irqSubscribers t irq, l) of (None, None) \<Rightarrow> True | (Some a, Some xs) \<Rightarrow> arr_repr a xs | _ \<Rightarrow> False)"

lemma those_at: "arr_repr a xs \<Longrightarrow> those (map (arr_at a) [0..<alen a]) = Some xs"
proof -
  assume r: "arr_repr a xs"
  have "map (arr_at a) [0..<alen a] = map Some xs"
    by (rule nth_equalityI) (use pod.at_ok[OF r] arr_repr_len[OF r] in auto)
  moreover have "those (map Some xs) = Some xs" by (induction xs) simp_all
  ultimately show ?thesis by simp
qed


lemma new_array_repr: "arr_repr (new_array 1) []"
  by (rule arr_reprI[where rest = "[None]"]) (simp_all add: new_array_def fresh_def)

lemma max_elems_pos: "0 < max_elems"
  by (simp add: max_elems_def)

text \<open>Subscribing to an interrupt line: on a line with subscribers the callback joins at the end; on a fresh line
  that some controller covers it becomes the only one and the first such controller enables the line. When no
  controller covers the line the call fails, but it leaves an empty table behind, so that the next subscription to
  that line reports success although no controller ever enables it. Other lines keep their subscribers.\<close>

theorem irq_subscribe_effect:
  assumes "irq_list t irq l" and "\<And>xs. l = Some xs \<Longrightarrow> length xs < max_elems"
  shows "\<exists>r t'. irq_subscribe irq s t = Some (r, t') \<and> (\<forall>k. k \<noteq> irq \<longrightarrow> irqSubscribers t' k = irqSubscribers t k) \<and>
    (case l of
       Some xs \<Rightarrow> r = Inr () \<and> irq_list t' irq (Some (xs @ [s])) \<and> switched t' = switched t
     | None \<Rightarrow>
         (case find (\<lambda>i. covers irq (controllers t ! i)) [0..<length (controllers t)] of
            Some i \<Rightarrow> r = Inr () \<and> irq_list t' irq (Some [s]) \<and> switched t' = switched t @ [(i, irq, True)]
          | None \<Rightarrow> r = Inl ''IRQ not available'' \<and> switched t' = switched t \<and>
              (\<exists>t''. irq_subscribe irq s t' = Some (Inr (), t'') \<and> irq_list t'' irq (Some [s]) \<and> switched t'' = switched t)))"
proof (cases l)
  case None
  then have n: "irqSubscribers t irq = None" using assms(1) by (auto simp: irq_list_def split: option.splits)
  from pod.push_ok[OF new_array_repr, of s] obtain a where
    a: "pod_push_back s (new_array 1) = Some a" "arr_repr a [s]" by (auto simp: max_elems_pos)
  then show ?thesis
    using n None by (auto simp: irq_subscribe_def irq_list_def Let_def split: option.splits)
next
  case (Some xs)
  then obtain a where a: "irqSubscribers t irq = Some a" "arr_repr a xs"
    using assms(1) by (auto simp: irq_list_def split: option.splits)
  from pod.push_ok[OF a(2) assms(2)[OF Some], of s] a(1) Some show ?thesis
    by (auto simp: irq_subscribe_def irq_list_def)
qed

lemma irq_unsubscribe_table:
  assumes "irq_list t irq (Some xs)"
  shows "\<exists>t'. irq_unsubscribe irq s t = Some t' \<and>
    (let ys = (if s \<notin> set xs then xs else if hd xs = s then front_dup xs else remove1 s xs) in
     if ys = [] then irq_list t' irq None \<and>
       switched t' = switched t @ map (\<lambda>i. (i, irq, False)) (filter (\<lambda>i. covers irq (controllers t ! i)) [0..<length (controllers t)])
     else irq_list t' irq (Some ys) \<and> on_irq irq t' = Some ys \<and> switched t' = switched t)"
proof -
  obtain a where a: "irqSubscribers t irq = Some a" "arr_repr a xs"
    using assms by (auto simp: irq_list_def split: option.splits)
  let ?ys = "if s \<notin> set xs then xs else if hd xs = s then front_dup xs else remove1 s xs"
  have "\<exists>b. (case search_index s a of None \<Rightarrow> Some a | Some i \<Rightarrow> pod_remove i a) = Some b \<and> arr_repr b ?ys"
  proof (cases "search_index s a")
    case None
    with search_index_repr(1)[OF a(2), of s] a(2) show ?thesis by auto
  next
    case (Some i)
    note i = search_index_repr(2)[OF a(2) Some]
    then have m: "s \<in> set xs" "xs \<noteq> []" by auto
    have "(if i = 0 then front_dup xs else take i xs @ drop (Suc i) xs) = ?ys"
    proof (cases "i = 0")
      case True
      then have "hd xs = s" using i m(2) by (simp add: hd_conv_nth)
      with True m show ?thesis by simp
    next
      case False
      then have "hd xs \<noteq> s" using i m(2) by (auto simp: hd_conv_nth)
      with False m i remove1_first_index[of i xs s] show ?thesis by auto
    qed
    with pod_remove_repr[OF a(2), of i] i Some show ?thesis by auto
  qed
  then obtain b where b: "(case search_index s a of None \<Rightarrow> Some a | Some i \<Rightarrow> pod_remove i a) = Some b" "arr_repr b ?ys"
    by blast
  have "alen b < 1 \<longleftrightarrow> ?ys = []" using arr_repr_len[OF b(2)] by auto
  with b those_at[OF b(2)] a(1) show ?thesis
    unfolding irq_unsubscribe_def Let_def by (simp add: irq_list_def on_irq_def)
qed

text \<open>Unsubscribing from an interrupt line takes out the first subscription that matches, and nothing when none does;
  with the last subscriber gone the table is dropped and every controller that covers the line disables it. But when
  the match is the first of several, the wrong item goes: the first subscription stays, and the last is lost.\<close>

theorem irq_unsubscribe_effect:
  assumes "irq_list t irq (Some xs)"
  shows "\<exists>t'. irq_unsubscribe irq s t = Some t' \<and>
    (let ys = (if s \<notin> set xs then xs else if hd xs = s then front_dup xs else remove1 s xs) in
     if ys = [] then irq_list t' irq None \<and>
       switched t' = switched t @ map (\<lambda>i. (i, irq, False)) (filter (\<lambda>i. covers irq (controllers t ! i)) [0..<length (controllers t)])
     else irq_list t' irq (Some ys) \<and> on_irq irq t' = Some ys \<and> switched t' = switched t)"
  by (rule irq_unsubscribe_table[OF assms])

section \<open>Processor interrupts\<close>

text \<open>\<^verbatim>\<open>subscribe(vector, callback)\<close> stores \<^verbatim>\<open>&callback\<close>, the address of its parameter: the tables hold stack addresses,
  and \<open>call\<close> is what calling through such an address does when the interrupt comes.\<close>

record int_table =
  interruptSubscribers :: "nat \<Rightarrow> nat arr option"
  allInterruptSubscribers :: "nat arr"

definition int_subscribe :: "nat \<Rightarrow> nat \<Rightarrow> int_table \<Rightarrow> int_table option" where
  "int_subscribe vector slot t =
     map_option (\<lambda>a. t\<lparr>interruptSubscribers := (interruptSubscribers t)(vector := Some a)\<rparr>)
       (pod_push_back slot (case interruptSubscribers t vector of None \<Rightarrow> new_array 1 | Some a \<Rightarrow> a))"

definition int_unsubscribe :: "nat \<Rightarrow> nat \<Rightarrow> int_table \<Rightarrow> int_table option" where
  "int_unsubscribe vector slot t =
     (case interruptSubscribers t vector of
        None \<Rightarrow> Some t
      | Some a \<Rightarrow>
          (case search_index slot a of
             None \<Rightarrow> Some t
           | Some i \<Rightarrow> map_option (\<lambda>a. t\<lparr>interruptSubscribers := (interruptSubscribers t)(vector := Some a)\<rparr>) (pod_remove i a)))"

definition int_subscribe_all :: "nat \<Rightarrow> int_table \<Rightarrow> int_table option" where
  "int_subscribe_all slot t = map_option (\<lambda>a. t\<lparr>allInterruptSubscribers := a\<rparr>) (pod_push_back slot (allInterruptSubscribers t))"

definition int_unsubscribe_all :: "nat \<Rightarrow> int_table \<Rightarrow> int_table option" where
  "int_unsubscribe_all slot t =
     (case search_index slot (allInterruptSubscribers t) of
        None \<Rightarrow> Some t
      | Some i \<Rightarrow> map_option (\<lambda>a. t\<lparr>allInterruptSubscribers := a\<rparr>) (pod_remove i (allInterruptSubscribers t)))"

fun first_answer :: "('c \<Rightarrow> 's \<Rightarrow> 's option) \<Rightarrow> 'c list \<Rightarrow> 's \<Rightarrow> 's option" where
  "first_answer call [] st = None"
| "first_answer call (c # cs) st = (case call c st of None \<Rightarrow> first_answer call cs st | Some r \<Rightarrow> Some r)"

text \<open>\<^verbatim>\<open>_on_interrupt\<close>: the state to resume, and whether an error was reported for an exception nobody handled;
  \<open>drv\<close> is \<^verbatim>\<open>drivers::_on_interrupt\<close>.\<close>

definition on_interrupt :: "(nat \<Rightarrow> 's \<Rightarrow> 's option) \<Rightarrow> (nat \<Rightarrow> 's \<Rightarrow> 's option) \<Rightarrow> int_table \<Rightarrow> nat \<Rightarrow> 's \<Rightarrow> ('s \<times> bool) option" where
  "on_interrupt call drv t vector st =
     (case those (map (arr_at (allInterruptSubscribers t)) [0..<alen (allInterruptSubscribers t)]) of
        None \<Rightarrow> None
      | Some alls \<Rightarrow>
          (case first_answer call alls st of
             Some r \<Rightarrow> Some (r, False)
           | None \<Rightarrow>
               (case (case interruptSubscribers t vector of None \<Rightarrow> Some [] | Some a \<Rightarrow> those (map (arr_at a) [0..<alen a])) of
                  None \<Rightarrow> None
                | Some own \<Rightarrow>
                    (case first_answer call own st of
                       Some r \<Rightarrow> Some (r, False)
                     | None \<Rightarrow>
                         (case drv vector st of
                            Some r \<Rightarrow> Some (r, False)
                          | None \<Rightarrow> Some (st, vector \<le> 20))))))"

lemma first_answer_append: "first_answer call (xs @ ys) st = (case first_answer call xs st of None \<Rightarrow> first_answer call ys st | Some r \<Rightarrow> Some r)"
  by (induction xs) (auto split: option.splits)

text \<open>An interrupt is handled by exactly the first subscriber that answers: the subscribers to all interrupts in the
  order they subscribed, then those of its vector, then the drivers; an exception (vector up to 20) nobody answers
  is reported and the interrupted state resumes. And since what is stored is the address of a parameter, a second
  \<^verbatim>\<open>subscribe\<close> whose parameter has the same address makes an entry that is indistinguishable from the first, and
  \<^verbatim>\<open>unsubscribe\<close> only finds an entry when its own parameter happens to have that address.\<close>

theorem interrupt_dispatch:
  assumes "arr_repr (allInterruptSubscribers t) alls" and "interruptSubscribers t vector = Some a" and "arr_repr a own"
    and "slot \<notin> set own" and "length own < max_elems"
  shows "on_interrupt call drv t vector st =
      Some (case first_answer call (alls @ own) st of
              Some r \<Rightarrow> (r, False)
            | None \<Rightarrow> (case drv vector st of Some r \<Rightarrow> (r, False) | None \<Rightarrow> (st, vector \<le> 20))) \<and>
    int_unsubscribe vector slot t = Some t \<and>
    (\<exists>t' b. int_subscribe vector slot t = Some t' \<and> interruptSubscribers t' vector = Some b \<and> arr_repr b (own @ [slot]))"
proof -
  have "search_index slot a = None" using search_index_repr(1)[OF assms(3)] assms(4) by simp
  then have "int_unsubscribe vector slot t = Some t" using assms(2) by (simp add: int_unsubscribe_def)
  moreover have "\<exists>t' b. int_subscribe vector slot t = Some t' \<and> interruptSubscribers t' vector = Some b \<and> arr_repr b (own @ [slot])"
    using pod.push_ok[OF assms(3,5), of slot] assms(2) by (auto simp: int_subscribe_def)
  ultimately show ?thesis
    using assms(2) by (simp add: on_interrupt_def those_at[OF assms(1)] those_at[OF assms(3)] first_answer_append split: option.split)
qed


section \<open>Witnesses\<close>

definition two_subs :: "subscription arr" where
  "two_subs = \<lparr>alen = 2, allocated = 2, cells = [Some (100, 1), Some (200, 2)]\<rparr>"

lemma two_subs_repr: "arr_repr two_subs [(100, 1), (200, 2)]"
  by (rule arr_reprI[where rest = "[]"]) (simp_all add: two_subs_def)

definition line_table :: irq_table where
  "line_table = \<lparr>irqSubscribers = (\<lambda>k. if k = 1 then Some two_subs else None), controllers = [(0, 15)], switched = [(0, 1, True)]\<rparr>"

lemma line_table_lists: "irq_list line_table 1 (Some [(100, 1), (200, 2)])" "irq_list line_table 40 None"
  using two_subs_repr by (simp_all add: irq_list_def line_table_def)

theorem irq_subscribe_effect_witness:
  "\<exists>t' t''. irq_subscribe 40 (7, 7) line_table = Some (Inl ''IRQ not available'', t') \<and>
    irq_subscribe 40 (7, 7) t' = Some (Inr (), t'') \<and> switched t'' = switched line_table"
  using irq_subscribe_effect[OF line_table_lists(2), of "(7, 7)"] by (auto simp: line_table_def covers_def)

theorem irq_unsubscribe_effect_witness:
  "\<exists>t'. irq_unsubscribe 1 (100, 1) line_table = Some t' \<and> on_irq 1 t' = Some [(100, 1)]"
  using irq_unsubscribe_effect[OF line_table_lists(1), of "(100, 1)"] by (auto simp: Let_def front_dup_def)

theorem interrupt_dispatch_witness:
  "int_unsubscribe 3 500 \<lparr>interruptSubscribers = (\<lambda>_. Some \<lparr>alen = 1, allocated = 1, cells = [Some 400]\<rparr>),
      allInterruptSubscribers = new_array 1\<rparr> =
    Some \<lparr>interruptSubscribers = (\<lambda>_. Some \<lparr>alen = 1, allocated = 1, cells = [Some 400]\<rparr>), allInterruptSubscribers = new_array 1\<rparr>"
proof -
  let ?t = "\<lparr>interruptSubscribers = (\<lambda>_. Some \<lparr>alen = 1, allocated = 1, cells = [Some (400 :: nat)]\<rparr>),
      allInterruptSubscribers = new_array 1\<rparr>"
  have 1: "arr_repr (allInterruptSubscribers ?t) []" using new_array_repr by simp
  have 2: "interruptSubscribers ?t 3 = Some \<lparr>alen = 1, allocated = 1, cells = [Some 400]\<rparr>" by simp
  have 3: "arr_repr \<lparr>alen = 1, allocated = 1, cells = [Some (400 :: nat)]\<rparr> [400]"
    by (rule arr_reprI[where rest = "[]"]) simp_all
  from interrupt_dispatch[OF 1 2 3, of 500 "\<lambda>_ _. None" "\<lambda>_ _. None" "0 :: nat"] show ?thesis
    by (simp add: max_elems_def)
qed

end
