(* ===== verification/Events.thy ===== *)
theory Events
  imports Subscriptions
begin

text \<open>
  \<^verbatim>\<open>common/EventEmitter.hpp\<close>: subscriptions are edited in one list and called from a second one, which is refreshed
  when the generation counters differ; a trigger inside a trigger calls a local copy. Callbacks are a parameter:
  what one does to the emitter, with \<open>None\<close> for a callback that does not come back.
\<close>

section \<open>Operations\<close>

record emitter =
  subscribers :: "subscription arr"
  subscribersGeneration :: nat
  callableSubscribers :: "subscription arr"
  callableSubscribersGeneration :: nat
  isTriggering :: bool

definition new_emitter :: emitter where
  "new_emitter = \<lparr>subscribers = new_array 0, subscribersGeneration = 0, callableSubscribers = new_array 0,
     callableSubscribersGeneration = 0, isTriggering = False\<rparr>"

definition ev_subscribe :: "subscription \<Rightarrow> emitter \<Rightarrow> emitter option" where
  "ev_subscribe s e =
     map_option (\<lambda>a. e\<lparr>subscribers := a, subscribersGeneration := add32 (subscribersGeneration e) 1\<rparr>)
       (lo_push_back s (subscribers e))"

definition ev_unsubscribe :: "subscription \<Rightarrow> emitter \<Rightarrow> emitter option" where
  "ev_unsubscribe s e =
     (case search_index s (subscribers e) of
        None \<Rightarrow> Some e
      | Some i \<Rightarrow>
          map_option (\<lambda>a. e\<lparr>subscribers := a, subscribersGeneration := add32 (subscribersGeneration e) 1\<rparr>)
            (lo_remove i (subscribers e)))"

definition ev_unsubscribe_all :: "emitter \<Rightarrow> emitter" where
  "ev_unsubscribe_all e =
     e\<lparr>subscribers := lo_clear (subscribers e), subscribersGeneration := add32 (subscribersGeneration e) 1\<rparr>"

text \<open>The calls over a local copy, and over \<^verbatim>\<open>callableSubscribers\<close>, whose bounds are read once and whose items are read
  as the loop comes to them. Both also return the calls made.\<close>

fun call_copy :: "(subscription \<Rightarrow> emitter \<Rightarrow> emitter option) \<Rightarrow> subscription list \<Rightarrow> emitter \<Rightarrow> (subscription list \<times> emitter) option" where
  "call_copy cb [] e = Some ([], e)"
| "call_copy cb (s # ss) e =
     (case cb s e of None \<Rightarrow> None | Some e \<Rightarrow> map_option (\<lambda>(l, e). (s # l, e)) (call_copy cb ss e))"

fun call_callable :: "(subscription \<Rightarrow> emitter \<Rightarrow> emitter option) \<Rightarrow> nat \<Rightarrow> nat \<Rightarrow> emitter \<Rightarrow> (subscription list \<times> emitter) option" where
  "call_callable cb 0 i e = Some ([], e)"
| "call_callable cb (Suc n) i e =
     (case arr_at (callableSubscribers e) i of
        None \<Rightarrow> None
      | Some s \<Rightarrow>
          (case cb s e of None \<Rightarrow> None | Some e \<Rightarrow> map_option (\<lambda>(l, e). (s # l, e)) (call_callable cb n (i + 1) e)))"

definition refresh_callable :: "emitter \<Rightarrow> emitter option" where
  "refresh_callable e =
     (if subscribersGeneration e \<noteq> callableSubscribersGeneration e then
        map_option (\<lambda>a. e\<lparr>callableSubscribers := a, callableSubscribersGeneration := subscribersGeneration e\<rparr>)
          (lo_copy (subscribers e))
      else Some e)"

definition ev_trigger :: "(subscription \<Rightarrow> emitter \<Rightarrow> emitter option) \<Rightarrow> emitter \<Rightarrow> (subscription list \<times> emitter) option" where
  "ev_trigger cb e =
     (if isTriggering e then
        (case lo_copy (subscribers e) of
           None \<Rightarrow> None
         | Some c \<Rightarrow>
             (case those (map (arr_at c) [0..<alen c]) of
                None \<Rightarrow> None
              | Some l \<Rightarrow> call_copy cb l e))
      else
        (case refresh_callable (e\<lparr>isTriggering := True\<rparr>) of
           None \<Rightarrow> None
         | Some e \<Rightarrow>
             map_option (\<lambda>(l, e). (l, e\<lparr>isTriggering := False\<rparr>)) (call_callable cb (alen (callableSubscribers e)) 0 e)))"

section \<open>Well-behaved callbacks\<close>

text \<open>While a trigger runs, a callback leaves the called list alone.\<close>

definition keeps_callable :: "emitter \<Rightarrow> emitter \<Rightarrow> bool" where
  "keeps_callable e e' \<longleftrightarrow> isTriggering e' \<and> callableSubscribers e' = callableSubscribers e \<and>
     callableSubscribersGeneration e' = callableSubscribersGeneration e"

definition polite :: "(subscription \<Rightarrow> emitter \<Rightarrow> emitter option) \<Rightarrow> bool" where
  "polite cb \<longleftrightarrow> (\<forall>s e. isTriggering e \<longrightarrow> (\<exists>e'. cb s e = Some e' \<and> keeps_callable e e'))"

definition editable :: "emitter \<Rightarrow> bool" where
  "editable e \<longleftrightarrow> (\<exists>xs. arr_repr (subscribers e) xs \<and> length xs < max_elems)"

text \<open>Whatever the interface offers keeps the called list: edits and triggers inside a trigger.\<close>

lemma keeps_refl: "isTriggering e \<Longrightarrow> keeps_callable e e"
  by (simp add: keeps_callable_def)

lemma keeps_trans: "keeps_callable e e1 \<Longrightarrow> keeps_callable e1 e2 \<Longrightarrow> keeps_callable e e2"
  by (simp add: keeps_callable_def)

lemma edits_keep:
  "isTriggering e \<Longrightarrow> ev_subscribe s e = Some e' \<Longrightarrow> keeps_callable e e'"
  "isTriggering e \<Longrightarrow> ev_unsubscribe s e = Some e' \<Longrightarrow> keeps_callable e e'"
  "isTriggering e \<Longrightarrow> keeps_callable e (ev_unsubscribe_all e)"
  by (auto simp: ev_subscribe_def ev_unsubscribe_def ev_unsubscribe_all_def keeps_callable_def split: option.splits)

lemma politeD: "polite cb \<Longrightarrow> isTriggering e \<Longrightarrow> \<exists>e'. cb s e = Some e' \<and> keeps_callable e e'"
  unfolding polite_def by blast

lemma call_copy_polite:
  assumes "polite cb"
  shows "isTriggering e \<Longrightarrow> \<exists>e'. call_copy cb l e = Some (l, e') \<and> keeps_callable e e'"
proof (induction l arbitrary: e)
  case Nil
  then show ?case by (simp add: keeps_refl)
next
  case (Cons s l)
  from politeD[OF assms Cons.prems] obtain e1 where e1: "cb s e = Some e1" "keeps_callable e e1" by blast
  then have "isTriggering e1" by (simp add: keeps_callable_def)
  from Cons.IH[OF this] e1 show ?case by (auto intro: keeps_trans)
qed

lemma lo_copy_repr: "arr_repr a xs \<Longrightarrow> \<exists>c. lo_copy a = Some c \<and> arr_repr c xs"
  by (auto simp: lo_copy_def arr_repr_def copy_cells_def fresh_def)

lemma nested_trigger_keeps:
  assumes "polite cb" and "isTriggering e" and "arr_repr (subscribers e) xs"
  shows "\<exists>e'. ev_trigger cb e = Some (xs, e') \<and> keeps_callable e e'"
proof -
  obtain c where c: "lo_copy (subscribers e) = Some c" "arr_repr c xs" using lo_copy_repr[OF assms(3)] by blast
  with call_copy_polite[OF assms(1,2), of xs] assms(2) show ?thesis
    by (simp add: ev_trigger_def those_at[OF c(2)])
qed

lemma call_callable_polite:
  assumes "polite cb"
  shows "isTriggering e \<Longrightarrow> arr_repr (callableSubscribers e) xs \<Longrightarrow> i + n = length xs \<Longrightarrow>
    \<exists>e'. call_callable cb n i e = Some (drop i xs, e') \<and> keeps_callable e e'"
proof (induction n arbitrary: i e)
  case 0
  then show ?case by (simp add: keeps_refl)
next
  case (Suc n)
  then have i: "i < length xs" by simp
  from politeD[OF assms Suc.prems(1)] obtain e1 where e1: "cb (xs ! i) e = Some e1" "keeps_callable e e1" by blast
  then have "isTriggering e1" "arr_repr (callableSubscribers e1) xs" using Suc.prems(2) by (simp_all add: keeps_callable_def)
  with Suc.IH[of e1 "i + 1"] Suc.prems(3) obtain e2 where
    e2: "call_callable cb n (i + 1) e1 = Some (drop (i + 1) xs, e2)" "keeps_callable e1 e2" by auto
  with e1 i keeps_trans[OF e1(2) e2(2)] show ?case
    by (simp add: pod.at_ok[OF Suc.prems(2) i] Cons_nth_drop_Suc)
qed

section \<open>Triggering\<close>

text \<open>What an emitter is worth: its edited list holds \<open>xs\<close>, and equal generations mean equal lists.\<close>

definition emitter_ok :: "emitter \<Rightarrow> subscription list \<Rightarrow> bool" where
  "emitter_ok e xs \<longleftrightarrow> arr_repr (subscribers e) xs \<and>
     (subscribersGeneration e = callableSubscribersGeneration e \<longrightarrow> arr_repr (callableSubscribers e) xs)"

lemma new_emitter_ok: "emitter_ok new_emitter []"
proof -
  have "arr_repr (new_array 0) []" by (rule arr_reprI[where rest = "[]"]) (simp_all add: new_array_def fresh_def)
  then show ?thesis by (simp add: emitter_ok_def new_emitter_def)
qed

text \<open>An event reaches exactly the subscribers of the moment it was triggered, once each and in subscription order,
  whatever the callbacks do meanwhile: they may subscribe, unsubscribe and trigger the emitter again (such inner
  triggers reach the subscribers of their own moment), and the edits count from the next trigger on. The trigger
  comes back whenever the callbacks do.\<close>

theorem trigger_snapshot:
  assumes "emitter_ok e xs" and "polite cb"
  shows "\<exists>e'. ev_trigger cb e = Some (xs, e') \<and> isTriggering e' = isTriggering e"
proof (cases "isTriggering e")
  case True
  from nested_trigger_keeps[OF assms(2) True, of xs] assms(1) True show ?thesis
    by (auto simp: emitter_ok_def keeps_callable_def)
next
  case False
  have "\<exists>e1. refresh_callable (e\<lparr>isTriggering := True\<rparr>) = Some e1 \<and> arr_repr (callableSubscribers e1) xs \<and> isTriggering e1"
    using assms(1) lo_copy_repr[of "subscribers e" xs] by (auto simp: refresh_callable_def emitter_ok_def)
  then obtain e1 where e1: "refresh_callable (e\<lparr>isTriggering := True\<rparr>) = Some e1" "arr_repr (callableSubscribers e1) xs"
    "isTriggering e1" by blast
  from call_callable_polite[OF assms(2) e1(3,2), of 0 "length xs"] obtain e2 where
    "call_callable cb (length xs) 0 e1 = Some (xs, e2)" by auto
  with False e1(1) arr_repr_len[OF e1(2)] show ?thesis by (simp add: ev_trigger_def)
qed

text \<open>Subscribing adds a callback at the end and unsubscribing removes the first one that matches; the emitter stays
  ready to trigger the new list as long as fewer than \<open>2^32\<close> edits come between two triggers.\<close>

theorem emitter_edits:
  assumes "emitter_ok e xs" and "length xs < max_elems"
    and "add32 (subscribersGeneration e) 1 \<noteq> callableSubscribersGeneration e"
  shows "(\<exists>e'. ev_subscribe s e = Some e' \<and> emitter_ok e' (xs @ [s])) \<and>
    (\<exists>e'. ev_unsubscribe s e = Some e' \<and> emitter_ok e' (remove1 s xs)) \<and> emitter_ok (ev_unsubscribe_all e) []"
proof -
  have r: "arr_repr (subscribers e) xs" using assms(1) by (simp add: emitter_ok_def)
  from lo.push_ok[OF r assms(2), of s] assms(3) have
    "\<exists>e'. ev_subscribe s e = Some e' \<and> emitter_ok e' (xs @ [s])" by (auto simp: ev_subscribe_def emitter_ok_def)
  moreover have "\<exists>e'. ev_unsubscribe s e = Some e' \<and> emitter_ok e' (remove1 s xs)"
  proof (cases "search_index s (subscribers e)")
    case None
    with search_index_repr(1)[OF r, of s] assms(1) show ?thesis by (simp add: ev_unsubscribe_def remove1_idem)
  next
    case (Some i)
    note i = search_index_repr(2)[OF r Some]
    then have "take i xs @ drop (Suc i) xs = remove1 s xs" by (intro remove1_first_index) auto
    with lo_remove_repr[OF r, of i] i Some assms(3) show ?thesis by (auto simp: ev_unsubscribe_def emitter_ok_def)
  qed
  moreover have "emitter_ok (ev_unsubscribe_all e) []"
    using r assms(3) by (auto simp: ev_unsubscribe_all_def emitter_ok_def lo_clear_def arr_repr_def)
  ultimately show ?thesis by blast
qed

text \<open>A callback that unsubscribes itself.\<close>

lemma self_removing_polite: "polite (\<lambda>s e. case ev_unsubscribe s e of None \<Rightarrow> Some e | Some e' \<Rightarrow> Some e')"
  unfolding polite_def by (auto intro: keeps_refl edits_keep(2) split: option.splits)

theorem trigger_snapshot_witness:
  "\<exists>e e'. ev_subscribe (1, 1) new_emitter = Some e \<and>
    ev_trigger (\<lambda>s e. case ev_unsubscribe s e of None \<Rightarrow> Some e | Some e' \<Rightarrow> Some e') e = Some ([(1, 1)], e')"
proof -
  have "\<exists>e. ev_subscribe (1, 1) new_emitter = Some e \<and> emitter_ok e [(1, 1)]"
    using lo.push_ok[of "subscribers new_emitter" "[]" "(1, 1)"] new_emitter_ok
    by (auto simp: ev_subscribe_def emitter_ok_def max_elems_pos new_emitter_def add32_def)
  then obtain e where "ev_subscribe (1, 1) new_emitter = Some e" "emitter_ok e [(1, 1)]" by blast
  with trigger_snapshot[OF this(2) self_removing_polite] show ?thesis by blast
qed

theorem emitter_edits_witness:
  "\<exists>e'. ev_subscribe (1, 1) new_emitter = Some e' \<and> emitter_ok e' [(1, 1)]"
  using emitter_edits[OF new_emitter_ok, of "(1, 1)"] max_elems_pos by (simp add: new_emitter_def add32_def)

end
