(* ===== verification/Locks.thy ===== *)
theory Locks
  imports Prelude
begin

text \<open>
  Critical sections and locks: \<^verbatim>\<open>kernel/exceptions.inl\<close>, \<^verbatim>\<open>kernel/CriticalSection.inl\<close> and \<^verbatim>\<open>kernel/Lock.inl\<close>. On one
  processor a lock is a critical section, which counts nested interrupt locks. With \<^verbatim>\<open>HAS_SMP\<close> the two kinds of lock
  spin on a shared word; there the processors interleave, one atomic access at a time (a weak compare-exchange may
  also fail without reason). Nesting counters of locks are not bounded to 32 bits.
\<close>

section \<open>Interrupt locking\<close>

text \<open>\<open>active\<close> is the processor's interrupt flag, which \<^verbatim>\<open>_activate\<close> (\<^verbatim>\<open>sti\<close>) sets and \<^verbatim>\<open>_deactivate\<close> (\<^verbatim>\<open>cli\<close>) clears.\<close>

record intr =
  enabled :: bool
  lock_depth :: nat
  active :: bool

definition intr_enable :: "intr \<Rightarrow> intr" where
  "intr_enable s = (let s = s\<lparr>enabled := True\<rparr> in if lock_depth s = 0 then s\<lparr>active := True\<rparr> else s)"

definition intr_disable :: "intr \<Rightarrow> intr" where
  "intr_disable s = s\<lparr>enabled := False, active := False\<rparr>"

definition intr_lock :: "intr \<Rightarrow> intr" where
  "intr_lock s = (let s = s\<lparr>lock_depth := add32 (lock_depth s) 1\<rparr> in if lock_depth s = 1 then s\<lparr>active := False\<rparr> else s)"

definition intr_unlock :: "intr \<Rightarrow> intr" where
  "intr_unlock s = (let s = s\<lparr>lock_depth := sub32 (lock_depth s) 1\<rparr> in if lock_depth s = 0 \<and> enabled s then s\<lparr>active := True\<rparr> else s)"

text \<open>\<^verbatim>\<open>exceptions::init\<close>: the architecture activates interrupts, then they are enabled.\<close>

definition intr_init :: "intr \<Rightarrow> intr" where
  "intr_init s = intr_enable (s\<lparr>active := True\<rparr>)"

text \<open>What running code does: it switches interrupts, and enters and leaves critical sections in a nested way
  (fewer than \<open>2^32 - 1\<close> deep).\<close>

inductive intr_step :: "intr \<Rightarrow> intr \<Rightarrow> bool" where
  Enable: "intr_step s (intr_enable s)"
| Disable: "intr_step s (intr_disable s)"
| Enter: "lock_depth s < 4294967295 \<Longrightarrow> intr_step s (intr_lock s)"
| Leave: "0 < lock_depth s \<Longrightarrow> intr_step s (intr_unlock s)"

inductive intr_reach :: "intr \<Rightarrow> bool" where
  Boot: "intr_reach (intr_init \<lparr>enabled = False, lock_depth = 0, active = False\<rparr>)"
| Step: "intr_reach s \<Longrightarrow> intr_step s s' \<Longrightarrow> intr_reach s'"

inductive_cases intr_stepE: "intr_step s s'"

definition intr_inv :: "intr \<Rightarrow> bool" where
  "intr_inv s \<longleftrightarrow> lock_depth s < two32 \<and> (active s \<longleftrightarrow> enabled s \<and> lock_depth s = 0)"

lemma intr_step_inv:
  assumes "intr_step s s'" and "intr_inv s"
  shows "intr_inv s'"
  using assms by (elim intr_stepE)
    (auto simp: intr_enable_def intr_disable_def intr_lock_def intr_unlock_def intr_inv_def Let_def add32_exact sub32_exact)

text \<open>C31. Interrupts reach the processor only outside every critical section: in all states the kernel reaches after
  \<^verbatim>\<open>exceptions::init\<close>, by enabling, disabling and any nesting of critical sections, the interrupt flag is set exactly
  when interrupts are enabled and no critical section is open. In particular leaving an inner section keeps them
  off, and leaving the outermost restores what \<^verbatim>\<open>enable\<close> or \<^verbatim>\<open>disable\<close> asked for meanwhile.\<close>

theorem critical_section_masks:
  assumes "intr_reach s"
  shows "active s \<longleftrightarrow> enabled s \<and> lock_depth s = 0"
proof -
  have "intr_inv s" using assms
  proof (induction rule: intr_reach.induct)
    case Boot
    then show ?case by (simp add: intr_init_def intr_enable_def intr_inv_def)
  next
    case (Step s s')
    then show ?case using intr_step_inv by blast
  qed
  then show ?thesis by (simp add: intr_inv_def)
qed

theorem critical_section_masks_witness:
  "\<exists>s. intr_reach s \<and> lock_depth s = 1 \<and> enabled s \<and> \<not> active s"
proof -
  let ?s = "intr_lock (intr_init \<lparr>enabled = False, lock_depth = 0, active = False\<rparr>)"
  have r: "intr_reach ?s"
    by (rule Step[OF Boot Enter]) (simp add: intr_init_def intr_enable_def)
  have "lock_depth ?s = 1" "enabled ?s"
    by (simp_all add: intr_init_def intr_enable_def intr_lock_def add32_def)
  with r critical_section_masks[OF r] show ?thesis by (intro exI[of _ ?s]) simp
qed

section \<open>Locks between processors\<close>

text \<open>Where a processor is in \<^verbatim>\<open>Lock<flat>\<close>: outside, before the compare-exchange, in the inner loop, or holding it.\<close>

datatype flat_at = FlatOut | FlatTry | FlatSpin | FlatIn

record flat_lock =
  lockActive :: nat
  flat_pc :: "nat \<Rightarrow> flat_at"

inductive flat_step :: "flat_lock \<Rightarrow> flat_lock \<Rightarrow> bool" where
  FlatLock: "flat_pc s p = FlatOut \<Longrightarrow> flat_step s (s\<lparr>flat_pc := (flat_pc s)(p := FlatTry)\<rparr>)"
| FlatAcquire: "flat_pc s p = FlatTry \<Longrightarrow> lockActive s = 0 \<Longrightarrow>
    flat_step s (s\<lparr>lockActive := 1, flat_pc := (flat_pc s)(p := FlatIn)\<rparr>)"
| FlatFail: "flat_pc s p = FlatTry \<Longrightarrow> flat_step s (s\<lparr>flat_pc := (flat_pc s)(p := FlatSpin)\<rparr>)"
| FlatRetry: "flat_pc s p = FlatSpin \<Longrightarrow> even (lockActive s) \<Longrightarrow> flat_step s (s\<lparr>flat_pc := (flat_pc s)(p := FlatTry)\<rparr>)"
| FlatUnlock: "flat_pc s p = FlatIn \<Longrightarrow> flat_step s (s\<lparr>lockActive := 0, flat_pc := (flat_pc s)(p := FlatOut)\<rparr>)"

inductive flat_reach :: "flat_lock \<Rightarrow> bool" where
  FlatInit: "flat_reach \<lparr>lockActive = 0, flat_pc = (\<lambda>_. FlatOut)\<rparr>"
| FlatNext: "flat_reach s \<Longrightarrow> flat_step s s' \<Longrightarrow> flat_reach s'"

definition flat_inv :: "flat_lock \<Rightarrow> bool" where
  "flat_inv s \<longleftrightarrow> (lockActive s = 0 \<longrightarrow> (\<forall>p. flat_pc s p \<noteq> FlatIn)) \<and>
     (\<forall>p q. flat_pc s p = FlatIn \<longrightarrow> flat_pc s q = FlatIn \<longrightarrow> p = q)"

lemma flat_inv_step: "flat_step s s' \<Longrightarrow> flat_inv s \<Longrightarrow> flat_inv s'"
  unfolding flat_inv_def by (induction rule: flat_step.induct) (simp_all, metis+)

lemma flat_inv_reach: "flat_reach s \<Longrightarrow> flat_inv s"
  by (induction rule: flat_reach.induct) (simp add: flat_inv_def, rule flat_inv_step)

text \<open>Where a processor is in \<^verbatim>\<open>Lock<recursive>\<close>: at none of its steps, before the compare-exchange, in the inner loop,
  before \<^verbatim>\<open>lockDepth++\<close>, or (in \<^verbatim>\<open>unlock\<close>) before the owner is cleared. \<open>nest\<close> counts the locks it has taken.\<close>

datatype rec_at = RecIdle | RecTry | RecSpin | RecGot | RecClear

record rec_lock =
  lockDepth :: nat
  lockProcessor :: "nat option"
  rec_pc :: "nat \<Rightarrow> rec_at"
  nest :: "nat \<Rightarrow> nat"

inductive rec_step :: "rec_lock \<Rightarrow> rec_lock \<Rightarrow> bool" where
  RecLock: "rec_pc s p = RecIdle \<Longrightarrow> rec_step s (s\<lparr>rec_pc := (rec_pc s)(p := RecTry)\<rparr>)"
| RecAcquire: "rec_pc s p = RecTry \<Longrightarrow> lockProcessor s = None \<Longrightarrow>
    rec_step s (s\<lparr>lockProcessor := Some p, rec_pc := (rec_pc s)(p := RecGot)\<rparr>)"
| RecAgain: "rec_pc s p = RecTry \<Longrightarrow> lockProcessor s = Some p \<Longrightarrow> rec_step s (s\<lparr>rec_pc := (rec_pc s)(p := RecGot)\<rparr>)"
| RecFail: "rec_pc s p = RecTry \<Longrightarrow> lockProcessor s \<noteq> Some p \<Longrightarrow> rec_step s (s\<lparr>rec_pc := (rec_pc s)(p := RecSpin)\<rparr>)"
| RecRetry: "rec_pc s p = RecSpin \<Longrightarrow> lockProcessor s = None \<Longrightarrow> rec_step s (s\<lparr>rec_pc := (rec_pc s)(p := RecTry)\<rparr>)"
| RecCount: "rec_pc s p = RecGot \<Longrightarrow>
    rec_step s (s\<lparr>lockDepth := lockDepth s + 1, rec_pc := (rec_pc s)(p := RecIdle), nest := (nest s)(p := nest s p + 1)\<rparr>)"
| RecUnlock: "rec_pc s p = RecIdle \<Longrightarrow> 0 < nest s p \<Longrightarrow>
    rec_step s (s\<lparr>lockDepth := lockDepth s - 1, rec_pc := (rec_pc s)(p := if lockDepth s = 1 then RecClear else RecIdle),
      nest := (nest s)(p := nest s p - 1)\<rparr>)"
| RecRelease: "rec_pc s p = RecClear \<Longrightarrow> rec_step s (s\<lparr>lockProcessor := None, rec_pc := (rec_pc s)(p := RecIdle)\<rparr>)"

inductive rec_reach :: "rec_lock \<Rightarrow> bool" where
  RecInit: "rec_reach \<lparr>lockDepth = 0, lockProcessor = None, rec_pc = (\<lambda>_. RecIdle), nest = (\<lambda>_. 0)\<rparr>"
| RecNext: "rec_reach s \<Longrightarrow> rec_step s s' \<Longrightarrow> rec_reach s'"

definition rec_inv :: "rec_lock \<Rightarrow> bool" where
  "rec_inv s \<longleftrightarrow> (\<forall>p. lockProcessor s \<noteq> Some p \<longrightarrow> nest s p = 0 \<and> rec_pc s p \<noteq> RecGot \<and> rec_pc s p \<noteq> RecClear) \<and>
     (lockProcessor s = None \<longrightarrow> lockDepth s = 0) \<and>
     (\<forall>p. lockProcessor s = Some p \<longrightarrow> lockDepth s = nest s p \<and> rec_pc s p \<noteq> RecSpin \<and>
       (rec_pc s p = RecClear \<longrightarrow> nest s p = 0) \<and> (nest s p = 0 \<longrightarrow> rec_pc s p = RecGot \<or> rec_pc s p = RecClear))"

lemma rec_inv_step: "rec_step s s' \<Longrightarrow> rec_inv s \<Longrightarrow> rec_inv s'"
proof (induction rule: rec_step.induct)
  case (RecLock s p)
  then show ?case by (cases "lockProcessor s = Some p") (auto simp: rec_inv_def)
next
  case (RecAcquire s p)
  then show ?case by (auto simp: rec_inv_def)
next
  case (RecAgain s p)
  then show ?case by (auto simp: rec_inv_def)
next
  case (RecFail s p)
  then show ?case by (auto simp: rec_inv_def)
next
  case (RecRetry s p)
  then show ?case by (auto simp: rec_inv_def)
next
  case (RecCount s p)
  then have "lockProcessor s = Some p" by (auto simp: rec_inv_def)
  with RecCount show ?case by (auto simp: rec_inv_def)
next
  case (RecUnlock s p)
  then have "lockProcessor s = Some p" by (auto simp: rec_inv_def)
  with RecUnlock show ?case by (auto simp: rec_inv_def)
next
  case (RecRelease s p)
  then have "lockProcessor s = Some p" by (auto simp: rec_inv_def)
  with RecRelease show ?case by (auto simp: rec_inv_def)
qed

lemma rec_inv_reach: "rec_reach s \<Longrightarrow> rec_inv s"
  by (induction rule: rec_reach.induct) (simp add: rec_inv_def, rule rec_inv_step)

text \<open>C32. Mutual exclusion, however the processors interleave: two processors never hold the same flat lock, and
  never hold the same recursive lock at any nesting depth; the recursive lock's owner and depth are the processor
  that holds it and its nesting, and a holder that locks again never spins.\<close>

theorem locks_exclusive:
  assumes "flat_reach f" and "rec_reach r"
  shows "(flat_pc f p = FlatIn \<longrightarrow> flat_pc f q = FlatIn \<longrightarrow> p = q) \<and>
    (0 < nest r p \<longrightarrow> lockProcessor r = Some p \<and> lockDepth r = nest r p \<and> rec_pc r p \<noteq> RecSpin \<and> (p \<noteq> q \<longrightarrow> nest r q = 0))"
proof -
  have own: "lockProcessor r = Some p" if "0 < nest r p" for p
    using that rec_inv_reach[OF assms(2)] unfolding rec_inv_def by (metis less_irrefl)
  have "lockDepth r = nest r p \<and> rec_pc r p \<noteq> RecSpin" if "0 < nest r p"
    using own[OF that] rec_inv_reach[OF assms(2)] unfolding rec_inv_def by blast
  moreover have "nest r q = 0" if "0 < nest r p" "p \<noteq> q"
    using own[OF that(1)] own[of q] that(2) by (cases "nest r q") simp_all
  moreover have "flat_pc f p = FlatIn \<Longrightarrow> flat_pc f q = FlatIn \<Longrightarrow> p = q"
    using flat_inv_reach[OF assms(1)] unfolding flat_inv_def by blast
  ultimately show ?thesis using own[of p] by blast
qed

theorem locks_exclusive_witness:
  "\<exists>r. rec_reach r \<and> nest r 3 = 1 \<and> lockProcessor r = Some 3 \<and> lockDepth r = 1"
proof -
  let ?i = "\<lparr>lockDepth = 0, lockProcessor = None, rec_pc = (\<lambda>_. RecIdle), nest = (\<lambda>_. 0)\<rparr>"
  have 1: "rec_reach (?i\<lparr>rec_pc := (\<lambda>_. RecIdle)(3 := RecTry)\<rparr>)" (is "rec_reach ?a")
    using RecNext[OF RecInit RecLock[of ?i 3]] by simp
  have 2: "rec_reach (?a\<lparr>lockProcessor := Some 3, rec_pc := (rec_pc ?a)(3 := RecGot)\<rparr>)" (is "rec_reach ?b")
    by (rule RecNext[OF 1 RecAcquire]) simp_all
  have 3: "rec_reach (?b\<lparr>lockDepth := lockDepth ?b + 1, rec_pc := (rec_pc ?b)(3 := RecIdle), nest := (nest ?b)(3 := nest ?b 3 + 1)\<rparr>)"
    (is "rec_reach ?c") by (rule RecNext[OF 2 RecCount]) simp
  have "nest ?c 3 = 1" by simp
  with 3 locks_exclusive[OF FlatInit 3, of 0 3] locks_exclusive[OF FlatInit 3, of 3 4] show ?thesis
    by (intro exI[of _ ?c]) simp
qed

end
