(* ===== verification/Sched.thy ===== *)
theory Sched
  imports LinkedList
begin

text \<open>
  Threads and the scheduler: \<^verbatim>\<open>kernel/Thread.cpp\<close> and \<^verbatim>\<open>drivers/CpuScheduler.cpp\<close>. A thread is an address; the four
  lists of the scheduler share the \<^verbatim>\<open>next\<close>/\<^verbatim>\<open>prev\<close> fields of the threads, so they are pointer lists of theory
  LinkedList over one store. \<open>attached\<close> tells whether the thread's \<^verbatim>\<open>scheduler\<close> reference is set. Switching to a
  thread is the pair of the threads switched from and to. A null dereference, a division by zero and an overflow of
  \<^verbatim>\<open>int\<close> are \<open>None\<close>. The termination event and the freeing of the stack page are left out.
\<close>

section \<open>State\<close>

datatype thread_state = Active | Sleeping | Paused | Terminated

record sched =
  items :: "nat store"
  activeThreads :: "nat llist"
  sleepingThreads :: "nat llist"
  pausedThreads :: "nat llist"
  terminatedThreads :: "nat llist"
  totalActivePriority :: nat
  currentThread :: "nat option"
  kernelThread :: nat
  tstate :: "nat \<Rightarrow> thread_state"
  tpriority :: "nat \<Rightarrow> nat"
  processPriority :: "nat \<Rightarrow> nat"
  attached :: "nat \<Rightarrow> bool"
  pendingTimer :: "nat \<Rightarrow> nat"
  nextTimerId :: nat
  wakeups :: "(nat \<times> nat \<times> nat) list"
  armed :: "nat option"

definition minInterval :: nat where "minInterval = 1000"
definition averageInterval :: nat where "averageInterval = 30000"
definition maxInterval :: nat where "maxInterval = 100000"

text \<open>One list at a time: the operations run on the shared store and the list's own header.\<close>

definition on_active :: "(nat lstate \<Rightarrow> nat lstate) \<Rightarrow> sched \<Rightarrow> sched" where
  "on_active f s = (case f (items s, activeThreads s) of (h, l) \<Rightarrow> s\<lparr>items := h, activeThreads := l\<rparr>)"

definition on_sleeping :: "(nat lstate \<Rightarrow> nat lstate) \<Rightarrow> sched \<Rightarrow> sched" where
  "on_sleeping f s = (case f (items s, sleepingThreads s) of (h, l) \<Rightarrow> s\<lparr>items := h, sleepingThreads := l\<rparr>)"

definition on_paused :: "(nat lstate \<Rightarrow> nat lstate) \<Rightarrow> sched \<Rightarrow> sched" where
  "on_paused f s = (case f (items s, pausedThreads s) of (h, l) \<Rightarrow> s\<lparr>items := h, pausedThreads := l\<rparr>)"

definition on_terminated :: "(nat lstate \<Rightarrow> nat lstate) \<Rightarrow> sched \<Rightarrow> sched" where
  "on_terminated f s = (case f (items s, terminatedThreads s) of (h, l) \<Rightarrow> s\<lparr>items := h, terminatedThreads := l\<rparr>)"

definition on_list :: "thread_state \<Rightarrow> (nat lstate \<Rightarrow> nat lstate) \<Rightarrow> sched \<Rightarrow> sched" where
  "on_list st f s = (case st of Active \<Rightarrow> on_active f s | Sleeping \<Rightarrow> on_sleeping f s | Paused \<Rightarrow> on_paused f s
     | Terminated \<Rightarrow> on_terminated f s)"

definition header :: "thread_state \<Rightarrow> sched \<Rightarrow> nat llist" where
  "header st s = (case st of Active \<Rightarrow> activeThreads s | Sleeping \<Rightarrow> sleepingThreads s | Paused \<Rightarrow> pausedThreads s
     | Terminated \<Rightarrow> terminatedThreads s)"

text \<open>\<^verbatim>\<open>thread.priority * thread.process.priority\<close>, a product of two \<^verbatim>\<open>U16\<close> in \<^verbatim>\<open>int\<close>.\<close>

definition weight :: "sched \<Rightarrow> nat \<Rightarrow> nat option" where
  "weight s t = (let p = tpriority s t * processPriority s t in if p < 2147483648 then Some p else None)"

section \<open>The scheduler\<close>

definition add_thread :: "nat \<Rightarrow> sched \<Rightarrow> sched option" where
  "add_thread t s =
     (case tstate s t of
        Active \<Rightarrow>
          (case weight s t of
             None \<Rightarrow> None
           | Some w \<Rightarrow> Some (on_active (push_back t) (s\<lparr>totalActivePriority := add32 (totalActivePriority s) w\<rparr>)))
      | st \<Rightarrow> Some (on_list st (push_back t) s))"

definition remove_thread :: "nat \<Rightarrow> sched \<Rightarrow> sched option" where
  "remove_thread t s =
     (case contains t (items s, terminatedThreads s) of
        None \<Rightarrow> None
      | Some True \<Rightarrow> Some (on_terminated (pop t) s)
      | Some False \<Rightarrow>
          (case contains t (items s, activeThreads s) of
             None \<Rightarrow> None
           | Some True \<Rightarrow>
               (case weight s t of
                  None \<Rightarrow> None
                | Some w \<Rightarrow> Some (on_active (pop t) (s\<lparr>totalActivePriority := sub32 (totalActivePriority s) w\<rparr>)))
           | Some False \<Rightarrow>
               (case contains t (items s, sleepingThreads s) of
                  None \<Rightarrow> None
                | Some True \<Rightarrow> Some (on_sleeping (pop t) s)
                | Some False \<Rightarrow>
                    (case contains t (items s, pausedThreads s) of
                       None \<Rightarrow> None
                     | Some True \<Rightarrow> Some (on_paused (pop t) s)
                     | Some False \<Rightarrow> Some s))))"

text \<open>\<^verbatim>\<open>maths::clamp(averageInterval * size * threadPriority / total, minInterval, maxInterval)\<close>, in 32 bits.\<close>

definition time_slice :: "nat \<Rightarrow> nat \<Rightarrow> nat \<Rightarrow> nat option" where
  "time_slice n w tot =
     (if tot = 0 then None
      else Some (min (max (mul32 (mul32 averageInterval n) w div tot) minInterval) maxInterval))"

definition requeue_current :: "sched \<Rightarrow> sched" where
  "requeue_current s =
     (case currentThread s of
        None \<Rightarrow> s
      | Some c \<Rightarrow>
          (if c \<noteq> kernelThread s \<and> tstate s c = Active then on_active (push_back c) (on_active (pop c) s) else s))"

text \<open>\<^verbatim>\<open>_yield\<close>: the switch made, if any.\<close>

definition yield_now :: "sched \<Rightarrow> ((nat \<times> nat) option \<times> sched) option" where
  "yield_now s =
     (let s1 = requeue_current s; old = currentThread s1; s2 = s1\<lparr>currentThread := head (activeThreads s1)\<rparr> in
      if currentThread s2 = old then Some (None, s2\<lparr>armed := Some maxInterval\<rparr>)
      else
        (case old of
           None \<Rightarrow> None
         | Some old \<Rightarrow>
             (case currentThread s2 of
                Some c \<Rightarrow>
                  (case weight s2 c of
                     None \<Rightarrow> None
                   | Some w \<Rightarrow>
                       (case time_slice (unat (lsize (activeThreads s2))) w (totalActivePriority s2) of
                          None \<Rightarrow> None
                        | Some t \<Rightarrow> Some (Some (old, c), s2\<lparr>armed := Some t\<rparr>)))
              | None \<Rightarrow> Some (Some (old, kernelThread s2), s2\<lparr>currentThread := Some (kernelThread s2), armed := Some maxInterval\<rparr>))))"

definition yield_thread :: "sched \<Rightarrow> ((nat \<times> nat) option \<times> sched) option" where
  "yield_thread s = yield_now (s\<lparr>armed := None\<rparr>)"

definition on_thread_sleep :: "nat \<Rightarrow> nat \<Rightarrow> sched \<Rightarrow> sched" where
  "on_thread_sleep t usecs s =
     (let s = on_sleeping (push_back t) (on_active (pop t) s) in
      s\<lparr>wakeups := wakeups s @ [(nextTimerId s, t, usecs)], pendingTimer := (pendingTimer s)(t := nextTimerId s),
        nextTimerId := add32 (nextTimerId s) 1\<rparr>)"

definition on_thread_paused :: "nat \<Rightarrow> sched \<Rightarrow> sched" where
  "on_thread_paused t s = on_paused (push_back t) (on_active (pop t) s)"

definition on_thread_paused_resumed :: "nat \<Rightarrow> sched \<Rightarrow> sched" where
  "on_thread_paused_resumed t s = on_active (push_back t) (on_paused (pop t) s)"

definition on_thread_sleeping_resumed :: "nat \<Rightarrow> sched \<Rightarrow> sched" where
  "on_thread_sleeping_resumed t s = on_active (push_back t) (on_sleeping (pop t) s)"

text \<open>The list is chosen by the state of the current thread.\<close>

definition on_thread_terminated :: "nat \<Rightarrow> sched \<Rightarrow> sched option" where
  "on_thread_terminated t s =
     (case currentThread s of
        None \<Rightarrow> None
      | Some c \<Rightarrow> Some (on_terminated (push_back t) (on_list (tstate s c) (pop t) s)))"

partial_function (option) sum_priorities :: "sched \<Rightarrow> nat option \<Rightarrow> nat \<Rightarrow> nat option" where
  "sum_priorities s p acc =
     (case p of
        None \<Rightarrow> Some acc
      | Some t \<Rightarrow> (case weight s t of None \<Rightarrow> None | Some w \<Rightarrow> sum_priorities s (nextp (items s) t) (add32 acc w)))"

definition on_thread_priorities_changed :: "sched \<Rightarrow> sched option" where
  "on_thread_priorities_changed s =
     map_option (\<lambda>n. s\<lparr>totalActivePriority := n\<rparr>) (sum_priorities s (head (activeThreads s)) 0)"

section \<open>Threads\<close>

definition set_state :: "nat \<Rightarrow> thread_state \<Rightarrow> sched \<Rightarrow> sched" where
  "set_state t st s = s\<lparr>tstate := (tstate s)(t := st)\<rparr>"

definition thread_sleep :: "nat \<Rightarrow> nat \<Rightarrow> sched \<Rightarrow> sched" where
  "thread_sleep t usecs s =
     (if tstate s t \<noteq> Active \<or> \<not> attached s t then s else on_thread_sleep t usecs (set_state t Sleeping s))"

definition thread_pause :: "nat \<Rightarrow> sched \<Rightarrow> sched" where
  "thread_pause t s =
     (if tstate s t \<noteq> Active then s
      else (let s = set_state t Paused s in if attached s t then on_thread_paused t s else s))"

definition thread_resume :: "nat \<Rightarrow> sched \<Rightarrow> sched" where
  "thread_resume t s =
     (case tstate s t of
        Active \<Rightarrow> s
      | Sleeping \<Rightarrow> (let s = set_state t Active s in if attached s t then on_thread_sleeping_resumed t s else s)
      | Paused \<Rightarrow> (let s = set_state t Active s in if attached s t then on_thread_paused_resumed t s else s)
      | Terminated \<Rightarrow> s)"

definition thread_terminate :: "nat \<Rightarrow> sched \<Rightarrow> sched option" where
  "thread_terminate t s =
     (if tstate s t = Terminated then Some s
      else (let s = set_state t Terminated s in if attached s t then on_thread_terminated t s else Some s))"

definition set_priority :: "nat \<Rightarrow> nat \<Rightarrow> sched \<Rightarrow> sched option" where
  "set_priority t p s =
     (if tpriority s t = p then Some s
      else (let s = s\<lparr>tpriority := (tpriority s)(t := p)\<rparr> in if attached s t then on_thread_priorities_changed s else Some s))"

text \<open>The timer callback of \<^verbatim>\<open>_on_thread_sleep\<close>.\<close>

definition wake :: "nat \<Rightarrow> nat \<Rightarrow> sched \<Rightarrow> sched" where
  "wake t timerId s = (if tstate s t \<noteq> Sleeping \<or> timerId \<noteq> pendingTimer s t then s else thread_resume t s)"


section \<open>The lists of the scheduler\<close>

lemma on_list_sel [simp]:
  "items (on_list st f s) = fst (f (items s, header st s))"
  "header st' (on_list st f s) = (if st' = st then snd (f (items s, header st s)) else header st' s)"
  "tstate (on_list st f s) = tstate s" "attached (on_list st f s) = attached s"
  "currentThread (on_list st f s) = currentThread s" "kernelThread (on_list st f s) = kernelThread s"
  "totalActivePriority (on_list st f s) = totalActivePriority s"
  "tpriority (on_list st f s) = tpriority s" "processPriority (on_list st f s) = processPriority s"
  "wakeups (on_list st f s) = wakeups s" "pendingTimer (on_list st f s) = pendingTimer s" "nextTimerId (on_list st f s) = nextTimerId s"
  by (cases st; cases st'; auto simp: on_list_def header_def on_active_def on_sleeping_def on_paused_def on_terminated_def
      split: prod.splits)+

lemma on_list_folds:
  "on_active = on_list Active" "on_sleeping = on_list Sleeping" "on_paused = on_list Paused" "on_terminated = on_list Terminated"
  by (simp_all add: fun_eq_iff on_list_def)

lemma header_folds:
  "activeThreads s = header Active s" "sleepingThreads s = header Sleeping s" "pausedThreads s = header Paused s"
  "terminatedThreads s = header Terminated s"
  by (simp_all add: header_def)

lemma header_upd [simp]:
  "header st (s\<lparr>totalActivePriority := a\<rparr>) = header st s" "header st (s\<lparr>currentThread := b\<rparr>) = header st s"
  "header st (s\<lparr>tstate := c\<rparr>) = header st s" "header st (s\<lparr>armed := d\<rparr>) = header st s"
  "header st (s\<lparr>tpriority := p\<rparr>) = header st s"
  "header st (s\<lparr>wakeups := e, pendingTimer := g, nextTimerId := h\<rparr>) = header st s"
  by (simp_all add: header_def split: thread_state.split)

text \<open>\<open>L\<close> gives the threads of each list.\<close>

definition queues :: "(thread_state \<Rightarrow> nat list) \<Rightarrow> sched \<Rightarrow> bool" where
  "queues L s \<longleftrightarrow> (\<forall>st. repr (items s, header st s) (L st)) \<and> (\<forall>st st'. st \<noteq> st' \<longrightarrow> set (L st) \<inter> set (L st') = {})"

definition filed :: "(thread_state \<Rightarrow> nat list) \<Rightarrow> sched \<Rightarrow> bool" where
  "filed L s \<longleftrightarrow> queues L s \<and> (\<forall>st. \<forall>t \<in> set (L st). tstate s t = st)"

lemma queues_pop:
  assumes "queues L s" and "L st = xs @ t # ys"
  shows "queues (L(st := xs @ ys)) (on_list st (pop t) s)"
proof -
  have r: "repr (items s, header st s) (xs @ t # ys)" using assms by (metis queues_def)
  let ?h = "fst (pop t (items s, header st s))"
  have o: "same_outside (set (L st)) (items s) ?h" using pop_frame[OF r] assms(2) by simp
  have "repr (?h, header st' s) (L st')" if "st' \<noteq> st" for st'
    by (rule same_outside_repr[OF _ o]) (use assms(1) that in \<open>auto simp: queues_def\<close>)
  moreover have "repr (pop t (items s, header st s)) (xs @ ys)" by (rule pop_repr[OF r])
  ultimately have "\<forall>st'. repr (items (on_list st (pop t) s), header st' (on_list st (pop t) s)) ((L(st := xs @ ys)) st')"
    by auto
  moreover have "set (xs @ ys) \<subseteq> set (L st)" using assms(2) by auto
  then have "\<forall>a b. a \<noteq> b \<longrightarrow> set ((L(st := xs @ ys)) a) \<inter> set ((L(st := xs @ ys)) b) = {}"
    using assms(1) unfolding queues_def by (simp, blast)
  ultimately show ?thesis unfolding queues_def by (rule conjI)
qed

lemma queues_push:
  assumes "queues L s" and "\<And>st. t \<notin> set (L st)"
  shows "queues (L(st := L st @ [t])) (on_list st (push_back t) s)"
proof -
  have r: "repr (items s, header st s) (L st)" using assms(1) by (simp add: queues_def)
  let ?h = "fst (push_back t (items s, header st s))"
  have o: "same_outside (insert t (set (L st))) (items s) ?h" using push_back_frame[OF r] by simp
  have "repr (?h, header st' s) (L st')" if "st' \<noteq> st" for st'
    by (rule same_outside_repr[OF _ o]) (use assms that in \<open>auto simp: queues_def\<close>)
  moreover have "repr (push_back t (items s, header st s)) (L st @ [t])" by (rule push_back_repr[OF r assms(2)])
  ultimately have "\<forall>st'. repr (items (on_list st (push_back t) s), header st' (on_list st (push_back t) s)) ((L(st := L st @ [t])) st')"
    by auto
  moreover have "\<forall>a b. a \<noteq> b \<longrightarrow> set ((L(st := L st @ [t])) a) \<inter> set ((L(st := L st @ [t])) b) = {}"
    using assms unfolding queues_def by auto
  ultimately show ?thesis unfolding queues_def by (rule conjI)
qed

lemma queues_fields [simp]:
  "queues L (s\<lparr>totalActivePriority := a\<rparr>) = queues L s" "queues L (s\<lparr>currentThread := b\<rparr>) = queues L s"
  "queues L (s\<lparr>tstate := c\<rparr>) = queues L s" "queues L (s\<lparr>armed := d\<rparr>) = queues L s"
  "queues L (s\<lparr>wakeups := e, pendingTimer := g, nextTimerId := h\<rparr>) = queues L s"
  by (simp_all add: queues_def)

text \<open>Moving a thread between two lists.\<close>

definition moved :: "thread_state \<Rightarrow> thread_state \<Rightarrow> nat \<Rightarrow> (thread_state \<Rightarrow> nat list) \<Rightarrow> (thread_state \<Rightarrow> nat list)" where
  "moved a b t L = (L(a := remove1 t (L a)))(b := (L(a := remove1 t (L a))) b @ [t])"

lemma queues_move:
  assumes "queues L s" and "t \<in> set (L a)"
  shows "queues (moved a b t L) (on_list b (push_back t) (on_list a (pop t) s))"
proof -
  have d: "distinct (L a)" using assms(1) by (auto simp: queues_def repr_def)
  obtain xs ys where s: "L a = xs @ t # ys" "remove1 t (L a) = xs @ ys" "t \<notin> set xs" "t \<notin> set ys"
    using split_at_elem[OF assms(2) d] by metis
  have u: "st = a" if "t \<in> set (L st)" for st
    using assms that unfolding queues_def by blast
  have n: "t \<notin> set ((L(a := xs @ ys)) st)" for st
    using u[of st] s(3,4) by auto
  from queues_push[OF queues_pop[OF assms(1) s(1)] n, of b] show ?thesis unfolding moved_def s(2) .
qed

lemma filed_state: "filed L s \<Longrightarrow> t \<in> set (L st) \<Longrightarrow> tstate s t = st"
  by (auto simp: filed_def)

lemma filed_move:
  assumes "filed L s" and "t \<in> set (L a)"
  shows "filed (moved a b t L) (on_list b (push_back t) (on_list a (pop t) (set_state t b s)))"
proof -
  have "queues L (set_state t b s)" using assms(1) by (simp add: filed_def set_state_def)
  from queues_move[OF this assms(2)] have q: "queues (moved a b t L) (on_list b (push_back t) (on_list a (pop t) (set_state t b s)))" .
  moreover have "distinct (L a)" using assms(1) by (auto simp: filed_def queues_def repr_def)
  moreover have "st = a" if "t \<in> set (L st)" for st using filed_state[OF assms(1)] assms(2) that by metis
  ultimately have "\<forall>st. \<forall>u \<in> set (moved a b t L st). ((tstate s)(t := b)) u = st"
    using assms(1) by (auto simp: filed_def moved_def split: if_splits)
  moreover note q
  ultimately show ?thesis by (simp add: filed_def set_state_def)
qed


text \<open>A list that the ready threads make, the rest empty.\<close>

lemma filed_fields [simp]:
  "filed L (s\<lparr>totalActivePriority := a\<rparr>) = filed L s" "filed L (s\<lparr>currentThread := b\<rparr>) = filed L s"
  "filed L (s\<lparr>armed := d\<rparr>) = filed L s"
  "filed L (s\<lparr>wakeups := e, pendingTimer := g, nextTimerId := h\<rparr>) = filed L s"
  by (simp_all add: filed_def)

lemma filed_tstate:
  assumes "filed L s" and "\<And>st. t \<notin> set (L st)"
  shows "t \<notin> set (L st) \<and> filed L (set_state t st' s)"
  using assms by (auto simp: filed_def set_state_def)

section \<open>Threads change lists\<close>


text \<open>Without the reference, the lists are not told.\<close>

lemma unattached_stays: "\<not> attached s t \<Longrightarrow> thread_pause t s = (if tstate s t = Active then set_state t Paused s else s)"
  by (simp add: thread_pause_def Let_def) (simp add: set_state_def)

section \<open>Yielding\<close>

lemma head_queue: "queues L s \<Longrightarrow> head (activeThreads s) = first_or (L Active) None \<and> lsize (activeThreads s) = of_nat (length (L Active))"
  unfolding header_folds by (auto simp: queues_def repr_def)

lemma requeue_filed:
  assumes "filed L s" and "\<And>c. currentThread s = Some c \<Longrightarrow> c \<noteq> kernelThread s \<Longrightarrow> tstate s c = Active \<Longrightarrow> c \<in> set (L Active)"
  shows "queues (L(Active := case currentThread s of
      Some c \<Rightarrow> if c \<noteq> kernelThread s \<and> tstate s c = Active then remove1 c (L Active) @ [c] else L Active
    | None \<Rightarrow> L Active)) (requeue_current s)"
proof -
  have q: "queues L s" using assms(1) by (simp add: filed_def)
  show ?thesis
  proof (cases "currentThread s")
    case None
    with q show ?thesis by (simp add: requeue_current_def)
  next
    case (Some c)
    show ?thesis
    proof (cases "c \<noteq> kernelThread s \<and> tstate s c = Active")
      case True
      with assms(2) Some have "c \<in> set (L Active)" by blast
      from queues_move[OF q this, of Active] True Some show ?thesis
        by (simp add: requeue_current_def on_list_folds moved_def)
    next
      case False
      with q Some show ?thesis by (auto simp: requeue_current_def)
    qed
  qed
qed

text \<open>C12. \<^verbatim>\<open>yield\<close> is round robin: the running thread goes to the end of the ready list and the thread at its front runs
  next, for a time slice between 1ms and 100ms; it keeps running when it is the only one. But the slice divides by
  \<^verbatim>\<open>totalActivePriority\<close>, which only \<^verbatim>\<open>add_thread\<close>, \<^verbatim>\<open>remove_thread\<close> and \<^verbatim>\<open>set_priority\<close> keep up to date: with that sum
  at zero (threads that were added paused and then resumed) switching to another thread divides by zero.\<close>

theorem yield_round_robin:
  assumes "filed L s" and "currentThread s = Some c" and "c \<noteq> kernelThread s" and "L Active = c # n # ready"
    and "length (L Active) < two32" and "weight s n = Some w"
  shows "if totalActivePriority s = 0 then yield_thread s = None
    else \<exists>s'. yield_thread s = Some (Some (c, n), s') \<and> currentThread s' = Some n \<and>
      queues (L(Active := n # ready @ [c])) s' \<and> (\<exists>t. armed s' = Some t \<and> minInterval \<le> t \<and> t \<le> maxInterval)"
proof -
  let ?s = "s\<lparr>armed := None\<rparr>" and ?L = "L(Active := n # ready @ [c])"
  have c: "tstate s c = Active" by (rule filed_state[OF assms(1), of c]) (simp add: assms(4))
  have "distinct (L Active)" using assms(1) by (auto simp: filed_def queues_def repr_def)
  then have ne: "c \<noteq> n" using assms(4) by simp
  have "queues ?L (requeue_current ?s)"
    using requeue_filed[of L ?s] assms(1-4) c by simp
  note q = this head_queue[OF this]
  have hd: "head (activeThreads (requeue_current ?s)) = Some n" using q(2) by simp
  have rq: "requeue_current ?s = on_active (push_back c) (on_active (pop c) ?s)"
    using assms(2,3) c by (simp add: requeue_current_def)
  have sel: "currentThread (requeue_current ?s) = Some c" "totalActivePriority (requeue_current ?s) = totalActivePriority s"
    "weight (requeue_current ?s) n = Some w"
    using assms(2,6) unfolding rq on_list_folds by (simp_all add: weight_def)
  have len: "unat (lsize (activeThreads (requeue_current ?s))) = length ready + 2"
  proof -
    have "lsize (activeThreads (requeue_current ?s)) = of_nat (length (?L Active))" using q(2) by blast
    moreover have l: "length (?L Active) = length ready + 2" by simp
    ultimately show ?thesis using assms(4,5) unfolding l by (simp only: unat_of_nat) simp
  qed
  let ?r = "(requeue_current ?s)\<lparr>currentThread := Some n\<rparr>"
  have wr: "weight ?r n = Some w" using sel(3) by (simp add: weight_def)
  have e: "yield_thread s = (case time_slice (length ready + 2) w (totalActivePriority s) of None \<Rightarrow> None
      | Some t \<Rightarrow> Some (Some (c, n), ?r\<lparr>armed := Some t\<rparr>))"
    using sel ne wr len unfolding yield_thread_def yield_now_def Let_def hd by simp
  show ?thesis
  proof (cases "totalActivePriority s = 0")
    case True
    then show ?thesis by (simp add: e time_slice_def)
  next
    case False
    then obtain t where t: "time_slice (length ready + 2) w (totalActivePriority s) = Some t" "minInterval \<le> t" "t \<le> maxInterval"
      by (simp add: time_slice_def minInterval_def maxInterval_def)
    with False q(1) show ?thesis by (simp add: e)
  qed
qed


section \<open>Terminating\<close>



section \<open>Witnesses\<close>

definition idle_sched :: sched where
  "idle_sched = \<lparr>items = \<lparr>nextp = (\<lambda>_. None), prevp = (\<lambda>_. None)\<rparr>, activeThreads = empty_llist, sleepingThreads = empty_llist,
     pausedThreads = empty_llist, terminatedThreads = empty_llist, totalActivePriority = 0, currentThread = Some 1,
     kernelThread = 0, tstate = (\<lambda>t. if t = 3 then Paused else Active), tpriority = (\<lambda>_. 100), processPriority = (\<lambda>_. 100),
     attached = (\<lambda>_. True), pendingTimer = (\<lambda>_. 0), nextTimerId = 0, wakeups = [], armed = None\<rparr>"

definition three_threads :: sched where
  "three_threads = on_list Paused (push_back 3) (on_list Active (push_back 2) (on_list Active (push_back 1) idle_sched))"

lemma three_threads_filed:
  "filed ((\<lambda>_. [])(Active := [1, 2], Paused := [3])) three_threads"
proof -
  have 0: "queues (\<lambda>_. []) idle_sched"
    by (simp add: queues_def idle_sched_def header_def repr_empty split: thread_state.split)
  have 1: "queues ((\<lambda>_. [])(Active := [1])) (on_list Active (push_back 1) idle_sched)"
    using queues_push[OF 0, of 1 Active] by simp
  have 2: "queues ((\<lambda>_. [])(Active := [1, 2])) (on_list Active (push_back 2) (on_list Active (push_back 1) idle_sched))"
    using queues_push[OF 1, of 2 Active] by simp
  have "queues ((\<lambda>_. [])(Active := [1, 2], Paused := [3])) three_threads"
    using queues_push[OF 2, of 3 Paused] by (simp add: three_threads_def)
  moreover have "tstate three_threads = (\<lambda>t. if t = 3 then Paused else Active)" by (simp add: three_threads_def) (simp add: idle_sched_def)
  ultimately show ?thesis by (simp add: filed_def)
qed

lemma three_threads_sel: "currentThread three_threads = Some 1" "kernelThread three_threads = 0" "attached three_threads t"
  "totalActivePriority three_threads = 0" "weight three_threads t = Some 10000"
  by (simp_all add: three_threads_def weight_def) (simp_all add: idle_sched_def)


theorem yield_round_robin_witness: "yield_thread three_threads = None"
  using yield_round_robin[OF three_threads_filed three_threads_sel(1), of 2 "[]"] by (simp add: three_threads_sel)


end
