(* ===== verification/Regions.thy ===== *)
theory Regions
  imports Arrays X86Mmu
begin

text \<open>
  The memory a driver holds: \<^verbatim>\<open>subscribe_memory\<close>, \<^verbatim>\<open>unsubscribe_memory\<close> and \<^verbatim>\<open>is_subscribed_to_memory\<close> of
  \<^verbatim>\<open>kernel/DriverApi.cpp\<close>. The regions are a \<^verbatim>\<open>PodArray\<close> (theory Arrays) of start and end addresses; new regions are
  mapped through theory X86Mmu. The list functions below say what the loops do to the sequence of regions.
\<close>

type_synonym region = "nat \<times> nat"

section \<open>Operations\<close>

text \<open>Assignment through \<^verbatim>\<open>subscribedMemory[i]\<close>.\<close>

definition put_at :: "nat \<Rightarrow> 'a \<Rightarrow> 'a arr \<Rightarrow> 'a arr option" where
  "put_at i v a = map_option (\<lambda>cs. a\<lparr>cells := cs\<rparr>) (write_cell i v (cells a))"

function overlaps_from :: "nat \<Rightarrow> nat \<Rightarrow> nat \<Rightarrow> region arr \<Rightarrow> bool option" where
  "overlaps_from i st en a =
     (if i < alen a then
        (case arr_at a i of
           None \<Rightarrow> None
         | Some (s, e) \<Rightarrow> if s \<ge> en then Some False else if e \<le> st then overlaps_from (i + 1) st en a else Some True)
      else Some False)"
  by pat_completeness auto
termination by (relation "measure (\<lambda>(i, st, en, a). alen a - i)") auto

definition is_subscribed_to_memory :: "nat \<Rightarrow> nat \<Rightarrow> region arr \<Rightarrow> bool option" where
  "is_subscribed_to_memory st sz a = overlaps_from 0 st (add32 st sz) a"

text \<open>The inner \<^verbatim>\<open>while\<close>: region \<open>i\<close> takes in the regions after it that start by \<open>en\<close>; each round removes one, so
  \<open>n\<close> is the length of the array.\<close>

fun absorb_regions :: "nat \<Rightarrow> nat \<Rightarrow> nat \<Rightarrow> region arr \<Rightarrow> region arr option" where
  "absorb_regions 0 i en a = Some a"
| "absorb_regions (Suc n) i en a =
     (if i + 1 < alen a then
        (case (arr_at a i, arr_at a (i + 1)) of
           (Some (s, e), Some (s2, e2)) \<Rightarrow>
             (if s2 \<le> en then
                (case put_at i (s, max e e2) a of
                   None \<Rightarrow> None
                 | Some a \<Rightarrow> (case pod_remove (i + 1) a of None \<Rightarrow> None | Some a \<Rightarrow> absorb_regions n i en a))
              else Some a)
         | _ \<Rightarrow> None)
      else Some a)"

text \<open>The result tells whether the region is mapped (the early return for a region before another one does not).\<close>

function subscribe_from :: "nat \<Rightarrow> nat \<Rightarrow> nat \<Rightarrow> region arr \<Rightarrow> (bool \<times> region arr) option" where
  "subscribe_from i st en a =
     (if i < alen a then
        (case arr_at a i of
           None \<Rightarrow> None
         | Some (s, e) \<Rightarrow>
             (if s > en then map_option (\<lambda>a. (False, a)) (pod_insert i (st, en) a)
              else if e < st then subscribe_from (i + 1) st en a
              else
                (case put_at i (if st < s then st else s, e) a of
                   None \<Rightarrow> None
                 | Some a \<Rightarrow>
                     (if en > e then
                        (case put_at i (if st < s then st else s, en) a of
                           None \<Rightarrow> None
                         | Some a \<Rightarrow> map_option (\<lambda>a. (True, a)) (absorb_regions (alen a) i en a))
                      else Some (True, a)))))
      else map_option (\<lambda>a. (True, a)) (pod_push_back (st, en) a))"
  by pat_completeness auto
termination by (relation "measure (\<lambda>(i, st, en, a). alen a - i)") auto

partial_function (option) unsubscribe_from :: "nat \<Rightarrow> nat \<Rightarrow> nat \<Rightarrow> region arr \<Rightarrow> region arr option" where
  "unsubscribe_from i st en a =
     (if i < alen a then
        (case arr_at a i of
           None \<Rightarrow> None
         | Some se \<Rightarrow>
             (let s = fst se; e = snd se in
              if s \<ge> en then Some a
              else if e \<le> st then unsubscribe_from (i + 1) st en a
              else if s \<ge> st \<and> e \<le> en then
                (case pod_remove i a of None \<Rightarrow> None | Some a \<Rightarrow> unsubscribe_from i st en a)
              else if st > s then
                (case put_at i (s, st) a of
                   None \<Rightarrow> None
                 | Some a \<Rightarrow>
                     (case (if e > en then pod_insert (i + 1) (en, e) a else Some a) of
                        None \<Rightarrow> None
                      | Some a \<Rightarrow> unsubscribe_from (i + 1) st en a))
              else if en < e then
                (case put_at i (en, e) a of None \<Rightarrow> None | Some a \<Rightarrow> unsubscribe_from (i + 1) st en a)
              else unsubscribe_from (i + 1) st en a))
      else Some a)"

definition unsubscribe_memory :: "nat \<Rightarrow> nat \<Rightarrow> region arr \<Rightarrow> region arr option" where
  "unsubscribe_memory st sz a = unsubscribe_from 0 st (add32 st sz) a"

definition unsubscribe_all_memory :: "region arr \<Rightarrow> region arr" where
  "unsubscribe_all_memory a = pod_clear a"

text \<open>The regions of the other active drivers, asked in turn.\<close>

fun any_subscribed :: "nat \<Rightarrow> nat \<Rightarrow> region arr list \<Rightarrow> bool option" where
  "any_subscribed st sz [] = Some False"
| "any_subscribed st sz (a # others) =
     (case is_subscribed_to_memory st sz a of
        None \<Rightarrow> None
      | Some b \<Rightarrow> if b then Some True else any_subscribed st sz others)"

text \<open>\<open>others\<close> are the regions of the other active drivers; the answer is an address (virtual, or the physical one after
  the early return).\<close>

definition subscribe_memory ::
    "nat \<Rightarrow> nat \<Rightarrow> region arr list \<Rightarrow> nat \<Rightarrow> nat \<Rightarrow> map_options \<Rightarrow> region arr \<Rightarrow> mapping \<Rightarrow>
     (nat attempt \<times> region arr \<times> mapping) option" where
  "subscribe_memory heap heapSize others st sz opts a m =
     (if st < add32 heap heapSize \<and> add32 st sz > heap then Some (Inl ''Memory not available - Overlaps heap'', a, m)
      else
        (case any_subscribed st sz others of
           None \<Rightarrow> None
         | Some True \<Rightarrow> Some (Inl ''Memory not available - Already in use'', a, m)
         | Some False \<Rightarrow>
             (case subscribe_from 0 st (add32 st sz) a of
                None \<Rightarrow> None
              | Some (mapped, a) \<Rightarrow>
                  (if mapped then map_option (\<lambda>(v, m). (Inr v, a, m)) (map_high_range st sz opts m)
                   else Some (Inr st, a, m)))))"

declare overlaps_from.simps [simp del] subscribe_from.simps [simp del]

section \<open>The loops on the sequence\<close>

fun absorb_list :: "nat \<Rightarrow> nat \<Rightarrow> nat \<Rightarrow> region list \<Rightarrow> region list" where
  "absorb_list en s e [] = [(s, e)]"
| "absorb_list en s e ((s2, e2) # rs) = (if s2 \<le> en then absorb_list en s (max e e2) rs else (s, e) # (s2, e2) # rs)"

fun subscribe_list :: "nat \<Rightarrow> nat \<Rightarrow> region list \<Rightarrow> region list" where
  "subscribe_list st en [] = [(st, en)]"
| "subscribe_list st en ((s, e) # rs) =
     (if s > en then (st, en) # (s, e) # rs
      else if e < st then (s, e) # subscribe_list st en rs
      else if en > e then absorb_list en (min st s) en rs else (min st s, e) # rs)"

fun unsubscribe_list :: "nat \<Rightarrow> nat \<Rightarrow> region list \<Rightarrow> region list" where
  "unsubscribe_list st en [] = []"
| "unsubscribe_list st en ((s, e) # rs) =
     (if s \<ge> en then (s, e) # rs
      else if e \<le> st then (s, e) # unsubscribe_list st en rs
      else if s \<ge> st \<and> e \<le> en then unsubscribe_list st en rs
      else if st > s then (s, st) # (if e > en then (en, e) # rs else unsubscribe_list st en rs)
      else if en < e then (en, e) # unsubscribe_list st en rs
      else (s, e) # unsubscribe_list st en rs)"

lemma put_at_repr:
  assumes "arr_repr a (xs @ x # ys)"
  shows "\<exists>a'. put_at (length xs) v a = Some a' \<and> arr_repr a' (xs @ v # ys) \<and> allocated a' = allocated a"
proof -
  from assms obtain rest where r: "cells a = map Some (xs @ x # ys) @ rest" "alen a = length (xs @ x # ys)"
    "allocated a = length (xs @ x # ys) + length rest" "length (xs @ x # ys) + length rest < two32" by (rule arr_reprE)
  let ?cs = "map Some (xs @ v # ys) @ rest"
  have "write_cell (length xs) v (cells a) = Some ?cs" using r(1) by (simp add: write_cell_def list_update_append)
  moreover have "arr_repr (a\<lparr>cells := ?cs\<rparr>) (xs @ v # ys)" using r by (intro arr_reprI[where rest = rest]) simp_all
  ultimately show ?thesis by (simp add: put_at_def)
qed

lemma arr_repr_fits: "arr_repr a xs \<Longrightarrow> length xs \<le> allocated a"
  by (auto elim: arr_reprE)

lemma arr_at_mid: "arr_repr a (xs @ x # ys) \<Longrightarrow> i = length xs \<Longrightarrow> arr_at a i = Some x"
  using pod.at_ok[of a "xs @ x # ys" i] by (simp add: nth_append)

lemma pod_remove_mid:
  assumes "arr_repr a (xs @ x # ys)" and "xs \<noteq> []" and "i = length xs"
  shows "\<exists>a'. pod_remove i a = Some a' \<and> arr_repr a' (xs @ ys) \<and> allocated a' = allocated a"
proof -
  have "allocated a' = allocated a" if "pod_remove i a = Some a'" for a'
    using that by (auto simp: pod_remove_def pod_remove_front_def pod_remove_back_def split: if_splits option.splits)
  with pod_remove_repr[OF assms(1), of i] assms(2,3) show ?thesis by auto
qed

lemma overlaps_repr:
  "arr_repr a (pre @ rs) \<Longrightarrow> i = length pre \<Longrightarrow>
    overlaps_from i st en a = Some (case find (\<lambda>r. fst r \<ge> en \<or> snd r > st) rs of None \<Rightarrow> False | Some r \<Rightarrow> fst r < en)"
proof (induction rs arbitrary: pre i)
  case Nil
  with arr_repr_len[OF Nil(1)] show ?case by (subst overlaps_from.simps) simp
next
  case (Cons r rs)
  have at: "arr_at a i = Some r" by (rule arr_at_mid[OF Cons.prems])
  have l: "i < alen a" using arr_repr_len[OF Cons.prems(1)] Cons.prems(2) by simp
  obtain s e where r: "r = (s, e)" by fastforce
  have "arr_repr a ((pre @ [r]) @ rs)" using Cons.prems(1) by simp
  from Cons.IH[OF this, of "i + 1"] Cons.prems(2) at l r show ?case
    by (subst overlaps_from.simps) simp
qed


lemma absorb_repr:
  "arr_repr a (pre @ (s, e) # rs) \<Longrightarrow> i = length pre \<Longrightarrow> length rs \<le> n \<Longrightarrow>
    \<exists>a'. absorb_regions n i en a = Some a' \<and> arr_repr a' (pre @ absorb_list en s e rs)"
proof (induction n arbitrary: a e rs)
  case 0
  then show ?case by simp
next
  case (Suc n)
  have at: "arr_at a i = Some (s, e)" by (rule arr_at_mid[OF Suc.prems(1,2)])
  show ?case
  proof (cases rs)
    case Nil
    with Suc.prems arr_repr_len[OF Suc.prems(1)] show ?thesis by auto
  next
    case (Cons r rs')
    obtain s2 e2 where r: "r = (s2, e2)" by fastforce
    have l: "i + 1 < alen a" using arr_repr_len[OF Suc.prems(1)] Suc.prems(2) Cons by simp
    have "arr_repr a ((pre @ [(s, e)]) @ (s2, e2) # rs')" using Suc.prems(1) Cons r by simp
    then have at2: "arr_at a (i + 1) = Some (s2, e2)" by (rule arr_at_mid) (use Suc.prems(2) in simp)
    show ?thesis
    proof (cases "s2 \<le> en")
      case False
      with at at2 l Suc.prems(1) Cons r show ?thesis by auto
    next
      case True
      from put_at_repr[OF Suc.prems(1), of "(s, max e e2)"] obtain a1 where
        a1: "put_at i (s, max e e2) a = Some a1" "arr_repr a1 (pre @ (s, max e e2) # rs)" using Suc.prems(2) by auto
      have "arr_repr a1 ((pre @ [(s, max e e2)]) @ (s2, e2) # rs')" using a1(2) Cons r by simp
      from pod_remove_mid[OF this] Suc.prems(2) obtain a2 where
        a2: "pod_remove (i + 1) a1 = Some a2" "arr_repr a2 (pre @ (s, max e e2) # rs')" by auto
      have "length rs' \<le> n" using Suc.prems(3) Cons by simp
      from Suc.IH[OF a2(2) Suc.prems(2) this] a1(1) a2(1) at at2 l True Cons r show ?thesis by auto
    qed
  qed
qed

lemma subscribe_repr:
  "arr_repr a (pre @ rs) \<Longrightarrow> i = length pre \<Longrightarrow> allocated a < max_elems \<Longrightarrow>
    \<exists>b a'. subscribe_from i st en a = Some (b, a') \<and> arr_repr a' (pre @ subscribe_list st en rs)"
proof (induction rs arbitrary: pre i)
  case Nil
  have "length (pre @ []) < max_elems" using arr_repr_fits[OF Nil(1)] Nil(3) by simp
  from arr_repr_len[OF Nil(1)] pod.push_ok[OF Nil(1) this, of "(st, en)"] Nil(2) show ?case
    by (subst subscribe_from.simps) auto
next
  case (Cons r rs)
  have at: "arr_at a i = Some r" by (rule arr_at_mid[OF Cons.prems(1,2)])
  have l: "i < alen a" using arr_repr_len[OF Cons.prems(1)] Cons.prems(2) by simp
  obtain s e where r: "r = (s, e)" by fastforce
  consider "s > en" | "\<not> s > en" "e < st" | "\<not> s > en" "\<not> e < st" by blast
  then show ?case
  proof cases
    case 1
    from pod_insert_repr[OF Cons.prems(1), of i "(st, en)"] Cons.prems(2,3) obtain a' where
      "pod_insert i (st, en) a = Some a'" "arr_repr a' (pre @ (st, en) # r # rs)" by auto
    with 1 at l r show ?thesis by (subst subscribe_from.simps) (auto intro: exI[of _ False])
  next
    case 2
    have "arr_repr a ((pre @ [r]) @ rs)" using Cons.prems(1) by simp
    from Cons.IH[OF this, of "i + 1"] Cons.prems(2,3) 2 at l r show ?thesis by (subst subscribe_from.simps) simp
  next
    case 3
    let ?s = "if st < s then st else s"
    have m: "?s = min st s" by simp
    from put_at_repr[OF Cons.prems(1), of "(?s, e)"] Cons.prems(2) obtain a1 where
      a1: "put_at i (?s, e) a = Some a1" "arr_repr a1 (pre @ (?s, e) # rs)" by auto
    show ?thesis
    proof (cases "en > e")
      case False
      with 3 a1 at l r m show ?thesis by (subst subscribe_from.simps) auto
    next
      case True
      from put_at_repr[OF a1(2), of "(?s, en)"] Cons.prems(2) obtain a2 where
        a2: "put_at i (?s, en) a1 = Some a2" "arr_repr a2 (pre @ (?s, en) # rs)" by auto
      have "length rs \<le> alen a2" using arr_repr_len[OF a2(2)] by simp
      from absorb_repr[OF a2(2) Cons.prems(2) this] obtain a3 where
        a3: "absorb_regions (alen a2) i en a2 = Some a3" "arr_repr a3 (pre @ absorb_list en ?s en rs)" by blast
      with True 3 a1(1) a2(1) at l r m show ?thesis by (subst subscribe_from.simps) auto
    qed
  qed
qed

text \<open>Taking out regions works as long as the region at index 0 is not taken out whole.\<close>

lemma unsubscribe_repr:
  "arr_repr a (pre @ rs) \<Longrightarrow> i = length pre \<Longrightarrow> allocated a < max_elems \<Longrightarrow> sorted_wrt (\<lambda>r q. snd r < fst q) rs \<Longrightarrow>
    (pre = [] \<longrightarrow> rs \<noteq> [] \<longrightarrow> \<not> (st \<le> fst (hd rs) \<and> fst (hd rs) < en \<and> st < snd (hd rs) \<and> snd (hd rs) \<le> en)) \<Longrightarrow>
    \<exists>a'. unsubscribe_from i st en a = Some a' \<and> arr_repr a' (pre @ unsubscribe_list st en rs)"
proof (induction rs arbitrary: a pre i)
  case Nil
  with arr_repr_len[OF Nil(1)] show ?case by (subst unsubscribe_from.simps) simp
next
  case (Cons r rs)
  have at: "arr_at a i = Some r" by (rule arr_at_mid[OF Cons.prems(1,2)])
  have l: "i < alen a" using arr_repr_len[OF Cons.prems(1)] Cons.prems(2) by simp
  obtain s e where r: "r = (s, e)" by fastforce
  have srt: "sorted_wrt (\<lambda>r q. snd r < fst q) rs" using Cons.prems(4) by simp
  have step: "\<exists>a'. unsubscribe_from (i + 1) st en b = Some a' \<and> arr_repr a' (pre @ v # unsubscribe_list st en rs)"
    if "arr_repr b (pre @ v # rs)" "allocated b < max_elems" for b v
  proof -
    have "arr_repr b ((pre @ [v]) @ rs)" using that(1) by simp
    from Cons.IH[OF this _ that(2) srt, of "i + 1"] Cons.prems(2) show ?thesis by simp
  qed
  consider "s \<ge> en" | "\<not> s \<ge> en" "e \<le> st" | "\<not> s \<ge> en" "\<not> e \<le> st" "s \<ge> st" "e \<le> en"
    | "\<not> s \<ge> en" "\<not> e \<le> st" "s < st" "e > en" | "\<not> s \<ge> en" "\<not> e \<le> st" "s < st" "e \<le> en"
    | "\<not> s \<ge> en" "\<not> e \<le> st" "s \<ge> st" "e > en" by linarith
  then show ?case
  proof cases
    case 1
    with at l r Cons.prems(1) show ?thesis by (subst unsubscribe_from.simps) simp
  next
    case 2
    with at l r step[OF Cons.prems(1,3)] show ?thesis by (subst unsubscribe_from.simps) simp
  next
    case 3
    with Cons.prems(5) r have ne: "pre \<noteq> []" by auto
    from pod_remove_mid[OF Cons.prems(1) ne Cons.prems(2)] obtain a1 where
      a1: "pod_remove i a = Some a1" "arr_repr a1 (pre @ rs)" "allocated a1 < max_elems" using Cons.prems(3) by auto
    from Cons.IH[OF a1(2) Cons.prems(2) a1(3) srt] ne 3 at l r a1(1) show ?thesis
      by (subst unsubscribe_from.simps) simp
  next
    case 4
    from put_at_repr[OF Cons.prems(1), of "(s, st)"] Cons.prems(2) obtain a1 where
      a1: "put_at i (s, st) a = Some a1" "arr_repr a1 (pre @ (s, st) # rs)" "allocated a1 < max_elems"
      using Cons.prems(3) by auto
    from pod_insert_repr[OF a1(2), of "i + 1" "(en, e)"] Cons.prems(2) a1(3) obtain a2 where
      a2: "pod_insert (i + 1) (en, e) a1 = Some a2" "arr_repr a2 (pre @ (s, st) # (en, e) # rs)" by auto
    have "arr_repr a2 ((pre @ [(s, st)]) @ (en, e) # rs)" using a2(2) by simp
    then have "arr_at a2 (i + 1) = Some (en, e)" by (rule arr_at_mid) (use Cons.prems(2) in simp)
    moreover have "i + 1 < alen a2" using arr_repr_len[OF a2(2)] Cons.prems(2) by simp
    ultimately have "unsubscribe_from (i + 1) st en a2 = Some a2" by (subst unsubscribe_from.simps) simp
    with 4 at l r a1(1) a2 show ?thesis by (subst unsubscribe_from.simps) simp
  next
    case 5
    from put_at_repr[OF Cons.prems(1), of "(s, st)"] Cons.prems(2) obtain a1 where
      a1: "put_at i (s, st) a = Some a1" "arr_repr a1 (pre @ (s, st) # rs)" "allocated a1 < max_elems"
      using Cons.prems(3) by auto
    from 5 at l r a1(1) step[OF a1(2,3)] show ?thesis by (subst unsubscribe_from.simps) simp
  next
    case 6
    from put_at_repr[OF Cons.prems(1), of "(en, e)"] Cons.prems(2) obtain a1 where
      a1: "put_at i (en, e) a = Some a1" "arr_repr a1 (pre @ (en, e) # rs)" "allocated a1 < max_elems"
      using Cons.prems(3) by auto
    from 6 at l r a1(1) step[OF a1(2,3)] show ?thesis by (subst unsubscribe_from.simps) simp
  qed
qed

section \<open>Bytes held\<close>

definition held :: "region list \<Rightarrow> nat set" where
  "held rs = (\<Union>r \<in> set rs. {fst r ..< snd r})"

text \<open>Regions in order, none empty, no two touching.\<close>

definition regions_ok :: "region list \<Rightarrow> bool" where
  "regions_ok rs \<longleftrightarrow> sorted_wrt (\<lambda>r q. snd r < fst q) rs \<and> (\<forall>r \<in> set rs. fst r < snd r)"

lemma held_Cons [simp]: "held (r # rs) = {fst r ..< snd r} \<union> held rs" "held [] = {}"
  by (simp_all add: held_def)

lemma regions_ok_Cons [simp]: "regions_ok (r # rs) \<longleftrightarrow> fst r < snd r \<and> (\<forall>q \<in> set rs. snd r < fst q) \<and> regions_ok rs"
  by (auto simp: regions_ok_def)

lemma absorb_list_correct:
  "regions_ok rs \<Longrightarrow> s < e \<Longrightarrow> en \<le> e \<Longrightarrow> \<forall>q \<in> set rs. s < fst q \<Longrightarrow> e = en \<or> (\<forall>q \<in> set rs. e < fst q) \<Longrightarrow>
    regions_ok (absorb_list en s e rs) \<and> held (absorb_list en s e rs) = {s ..< e} \<union> held rs \<and>
    (\<forall>q \<in> set (absorb_list en s e rs). s \<le> fst q)"
proof (induction rs arbitrary: e)
  case (Cons r rs)
  obtain s2 e2 where r: "r = (s2, e2)" by fastforce
  show ?case
  proof (cases "s2 \<le> en")
    case True
    have e: "e = en" using Cons.prems(3,5) True r by auto
    have s2: "s < s2" "s2 < e2" "\<forall>q \<in> set rs. e2 < fst q" using Cons.prems(1,4) r by auto
    have "max e e2 = en \<or> (\<forall>q \<in> set rs. max e e2 < fst q)"
    proof (cases "e2 \<le> en")
      case False
      then show ?thesis using e s2(3) by (simp add: max_def)
    qed (simp add: e)
    then have "regions_ok (absorb_list en s (max e e2) rs) \<and> held (absorb_list en s (max e e2) rs) = {s ..< max e e2} \<union> held rs \<and>
        (\<forall>q \<in> set (absorb_list en s (max e e2) rs). s \<le> fst q)"
      using Cons.prems r s2 e by (intro Cons.IH) (auto simp: max_def)
    moreover have "{s ..< max e e2} = {s ..< e} \<union> {s2 ..< e2}" using s2 True e by (auto simp: max_def)
    ultimately show ?thesis using True r by (simp add: Un_assoc)
  next
    case False
    then have "e < s2" using Cons.prems(3,5) r by auto
    with Cons.prems False r show ?thesis by auto
  qed
qed simp

lemma subscribe_list_correct:
  "regions_ok rs \<Longrightarrow> st < en \<Longrightarrow> regions_ok (subscribe_list st en rs) \<and> held (subscribe_list st en rs) = {st ..< en} \<union> held rs \<and>
    (\<forall>x. (\<forall>q \<in> set rs. x < fst q) \<and> x < st \<longrightarrow> (\<forall>q \<in> set (subscribe_list st en rs). x < fst q))"
proof (induction rs)
  case (Cons r rs)
  obtain s e where r: "r = (s, e)" by fastforce
  have se: "s < e" "\<forall>q \<in> set rs. e < fst q" "regions_ok rs" using Cons.prems(1) r by auto
  consider "s > en" | "\<not> s > en" "e < st" | "\<not> s > en" "\<not> e < st" "en > e" | "\<not> s > en" "\<not> e < st" "\<not> en > e" by blast
  then show ?case
  proof cases
    case 1
    have "\<forall>q \<in> set rs. en < fst q" using 1 se by fastforce
    with 1 Cons.prems se r show ?thesis by auto
  next
    case 2
    with Cons.IH[OF se(3) Cons.prems(2)] se r show ?thesis by auto
  next
    case 3
    have "\<forall>q \<in> set rs. min st s < fst q" using se by (fastforce simp: min_def)
    from absorb_list_correct[OF se(3) _ order_refl this, of en] 3 Cons.prems(2) se(1) have
      A: "regions_ok (absorb_list en (min st s) en rs)" "held (absorb_list en (min st s) en rs) = {min st s ..< en} \<union> held rs"
      "\<forall>q \<in> set (absorb_list en (min st s) en rs). min st s \<le> fst q" by (auto simp: min_def)
    have "{min st s ..< en} = {st ..< en} \<union> {s ..< e}" using 3 Cons.prems(2) se(1) by (auto simp: min_def)
    moreover have "\<forall>q \<in> set (absorb_list en (min st s) en rs). x < fst q" if "x < s" "x < st" for x
    proof -
      have "x < min st s" using that by simp
      with A(3) show ?thesis by (meson less_le_trans)
    qed
    ultimately show ?thesis using A(1,2) 3 r by (auto simp: Un_assoc)
  next
    case 4
    have "{min st s ..< e} = {st ..< en} \<union> {s ..< e}" using 4 Cons.prems(2) se(1) by (auto simp: min_def)
    with 4 se r Cons.prems(2) show ?thesis by (auto simp: Un_assoc min_def)
  qed
qed simp

lemma unsubscribe_list_correct:
  "regions_ok rs \<Longrightarrow> st < en \<Longrightarrow> regions_ok (unsubscribe_list st en rs) \<and> held (unsubscribe_list st en rs) = held rs - {st ..< en} \<and>
    (\<forall>x. (\<forall>q \<in> set rs. x < fst q) \<longrightarrow> (\<forall>q \<in> set (unsubscribe_list st en rs). x < fst q))"
proof (induction rs)
  case (Cons r rs)
  obtain s e where r: "r = (s, e)" by fastforce
  have se: "s < e" "\<forall>q \<in> set rs. e < fst q" "regions_ok rs" using Cons.prems(1) r by auto
  have up: "x \<notin> held rs" if "x \<le> e" for x using se(2) that by (fastforce simp: held_def)
  note IH = Cons.IH[OF se(3) Cons.prems(2)]
  consider "s \<ge> en" | "\<not> s \<ge> en" "e \<le> st" | "\<not> s \<ge> en" "\<not> e \<le> st" "s \<ge> st" "e \<le> en"
    | "\<not> s \<ge> en" "\<not> e \<le> st" "s < st" "e > en" | "\<not> s \<ge> en" "\<not> e \<le> st" "s < st" "e \<le> en"
    | "\<not> s \<ge> en" "\<not> e \<le> st" "s \<ge> st" "e > en" by linarith
  then show ?case
  proof cases
    case 1
    have "held (r # rs) \<inter> {st ..< en} = {}" using 1 se r by (fastforce simp: held_def)
    with 1 Cons.prems r show ?thesis by auto
  next
    case 2
    with IH se r show ?thesis by auto
  next
    case 3
    with IH se r show ?thesis by auto
  next
    case 4
    have "held rs \<inter> {st ..< en} = {}" using up 4 by force
    with 4 se r Cons.prems(2) show ?thesis by auto
  next
    case 5
    have "\<forall>q \<in> set (unsubscribe_list st en rs). st < fst q" using IH se(2) 5 by (meson less_trans not_le)
    with 5 IH se r Cons.prems(2) show ?thesis by auto
  next
    case 6
    have "held (unsubscribe_list st en rs) = held rs" using IH up 6 by force
    with IH 6 se r Cons.prems(2) show ?thesis by auto
  qed
qed simp


lemma overlaps_held:
  assumes "regions_ok rs" and "st < en"
  shows "(case find (\<lambda>r. fst r \<ge> en \<or> snd r > st) rs of None \<Rightarrow> False | Some r \<Rightarrow> fst r < en) \<longleftrightarrow> held rs \<inter> {st ..< en} \<noteq> {}"
  using assms(1)
proof (induction rs)
  case (Cons r rs)
  obtain s e where r: "r = (s, e)" by fastforce
  have se: "s < e" "\<forall>q \<in> set rs. e < fst q" "regions_ok rs" using Cons.prems r by auto
  show ?case
  proof (cases "s \<ge> en \<or> e > st")
    case True
    have 1: "held (r # rs) \<inter> {st ..< en} = {}" if "s \<ge> en" using that se r by (fastforce simp: held_def)
    have 2: "held (r # rs) \<inter> {st ..< en} \<noteq> {}" if "\<not> s \<ge> en"
    proof -
      have "max st s \<in> held (r # rs)" "max st s \<in> {st ..< en}" using that True assms(2) se(1) r by auto
      then show ?thesis by blast
    qed
    have "(case find (\<lambda>r. fst r \<ge> en \<or> snd r > st) (r # rs) of None \<Rightarrow> False | Some r \<Rightarrow> fst r < en) \<longleftrightarrow> s < en"
      using True r by simp
    then show ?thesis using 1 2 by linarith
  next
    case False
    with Cons.IH[OF se(3)] r show ?thesis by auto
  qed
qed simp


lemma front_dup_props: "length (front_dup xs) = length xs - 1" "2 \<le> length xs \<Longrightarrow> hd (front_dup xs) = hd xs"
proof -
  show "length (front_dup xs) = length xs - 1" by (cases xs) (auto simp: front_dup_def)
  assume "2 \<le> length xs"
  then obtain x y ys where "xs = x # y # ys" by (cases xs; cases "tl xs") auto
  then show "hd (front_dup xs) = hd xs" by (simp add: front_dup_def)
qed

lemma unsubscribe_first_rounds:
  assumes "st \<le> s" and "s < e" and "e \<le> en"
  shows "arr_repr a rs \<Longrightarrow> rs = [] \<or> hd rs = (s, e) \<Longrightarrow> \<exists>a'. unsubscribe_from 0 st en a = Some a' \<and> arr_repr a' []"
proof (induction "length rs" arbitrary: a rs)
  case 0
  with arr_repr_len[OF 0(2)] show ?case by (subst unsubscribe_from.simps) simp
next
  case (Suc n)
  then have ne: "rs \<noteq> []" "hd rs = (s, e)" by auto
  have at: "arr_at a 0 = Some (s, e)" using pod.at_ok[OF Suc.prems(1), of 0] ne by (simp add: hd_conv_nth)
  have l: "0 < alen a" using arr_repr_len[OF Suc.prems(1)] ne by simp
  from pod_remove_repr[OF Suc.prems(1), of 0] ne obtain a1 where a1: "pod_remove 0 a = Some a1" "arr_repr a1 (front_dup rs)" by auto
  have "n = length (front_dup rs)" using Suc.hyps(2) by (simp add: front_dup_props(1))
  moreover have "front_dup rs = [] \<or> hd (front_dup rs) = (s, e)"
  proof (cases "2 \<le> length rs")
    case True
    with front_dup_props(2)[OF True] ne show ?thesis by simp
  next
    case False
    then have "length (front_dup rs) = 0" by (simp add: front_dup_props(1))
    then show ?thesis by simp
  qed
  ultimately obtain a' where "unsubscribe_from 0 st en a1 = Some a'" "arr_repr a' []" using Suc.hyps(1)[OF _ a1(2)] by blast
  with at l a1(1) assms show ?case by (subst unsubscribe_from.simps) simp
qed

text \<open>Giving back a range that covers the first region gives back every region the driver holds: the array's
  \<^verbatim>\<open>remove(0)\<close> leaves copies of the first region in place of the others, and the loop takes these out too. The driver
  goes on using memory that other drivers can now subscribe to.\<close>

theorem unsubscribe_first_loses_all:
  assumes "arr_repr a rs" and "rs \<noteq> []" and "fst (hd rs) < snd (hd rs)" and "st \<le> fst (hd rs)" and "snd (hd rs) \<le> st + sz"
    and "st + sz < two32"
  shows "\<exists>a'. unsubscribe_memory st sz a = Some a' \<and> arr_repr a' [] \<and>
    (\<forall>x n. is_subscribed_to_memory x n a' = Some False)"
proof -
  obtain s e where h: "hd rs = (s, e)" by fastforce
  have a: "add32 st sz = st + sz" using assms(6) by (simp add: add32_exact)
  from unsubscribe_first_rounds[OF _ _ _ assms(1), of st s e "st + sz"] assms(3-5) h obtain a' where
    a': "unsubscribe_memory st sz a = Some a'" "arr_repr a' []" unfolding unsubscribe_memory_def a by auto
  have "is_subscribed_to_memory x n a' = Some False" for x n
    using overlaps_repr[of a' "[]" "[]" 0 x "add32 x n"] a'(2) by (simp add: is_subscribed_to_memory_def)
  with a' show ?thesis by blast
qed

section \<open>Witnesses\<close>

definition two_regions :: "region arr" where
  "two_regions = \<lparr>alen = 2, allocated = 4, cells = [Some (4096, 8192), Some (16384, 20480), None, None]\<rparr>"

lemma two_regions_repr: "arr_repr two_regions [(4096, 8192), (16384, 20480)]"
  by (rule arr_reprI[where rest = "[None, None]"]) (simp_all add: two_regions_def)


theorem unsubscribe_first_loses_all_witness:
  "\<exists>a'. unsubscribe_memory 4096 4096 two_regions = Some a' \<and> arr_repr a' [] \<and>
    is_subscribed_to_memory 16384 4096 a' = Some False"
  using unsubscribe_first_loses_all[OF two_regions_repr, of 4096 4096] by auto

end
