(* ===== verification/References.thy ===== *)
theory References
  imports LinkedList
begin

text \<open>
  References to drivers: \<^verbatim>\<open>kernel/DriverReference.cpp\<close>. Every driver keeps an intrusive list (theory LinkedList) of the
  references that point to it, so that it can call them back when it stops; all these lists share one store of
  items. References and drivers are addresses; a callback is the pair of its address and its data, and \<open>call\<close> is what
  calling it does.
\<close>

type_synonym callback = "nat \<times> nat"

record refs =
  ritems :: "nat store"
  rlists :: "nat \<Rightarrow> nat llist"
  rdriver :: "nat \<Rightarrow> nat option"
  onTerminated :: "nat \<Rightarrow> callback"

section \<open>Operations\<close>

text \<open>An operation on \<^verbatim>\<open>driver->references\<close>.\<close>

definition on_refs :: "nat \<Rightarrow> (nat lstate \<Rightarrow> nat lstate) \<Rightarrow> refs \<Rightarrow> refs" where
  "on_refs d f s = (case f (ritems s, rlists s d) of (h, l) \<Rightarrow> s\<lparr>ritems := h, rlists := (rlists s)(d := l)\<rparr>)"

definition leave :: "nat \<Rightarrow> refs \<Rightarrow> refs" where
  "leave r s = (case rdriver s r of None \<Rightarrow> s | Some d \<Rightarrow> on_refs d (pop r) s)"

definition enter :: "nat \<Rightarrow> refs \<Rightarrow> refs" where
  "enter r s = (case rdriver s r of None \<Rightarrow> s | Some d \<Rightarrow> on_refs d (push_back r) s)"

text \<open>A new item has null links.\<close>

definition fresh_item :: "nat \<Rightarrow> refs \<Rightarrow> refs" where
  "fresh_item r s = s\<lparr>ritems := set_prev r None (set_next r None (ritems s))\<rparr>"

definition ref_new :: "nat \<Rightarrow> nat option \<Rightarrow> callback \<Rightarrow> refs \<Rightarrow> refs" where
  "ref_new r d cb s =
     enter r ((fresh_item r s)\<lparr>rdriver := (rdriver s)(r := d), onTerminated := (onTerminated s)(r := cb)\<rparr>)"

text \<open>The copy constructor; it pops the new item.\<close>

definition ref_copy :: "nat \<Rightarrow> nat \<Rightarrow> refs \<Rightarrow> refs" where
  "ref_copy r c s =
     leave r ((fresh_item r s)\<lparr>rdriver := (rdriver s)(r := rdriver s c), onTerminated := (onTerminated s)(r := onTerminated s c)\<rparr>)"

definition ref_delete :: "nat \<Rightarrow> refs \<Rightarrow> refs" where
  "ref_delete r s = leave r s"

definition ref_point :: "nat \<Rightarrow> nat option \<Rightarrow> refs \<Rightarrow> refs" where
  "ref_point r d s =
     (if d = rdriver s r then s else enter r ((leave r s)\<lparr>rdriver := (rdriver s)(r := d)\<rparr>))"

definition ref_assign :: "nat \<Rightarrow> nat \<Rightarrow> refs \<Rightarrow> refs" where
  "ref_assign r c s =
     (let s = (if rdriver s r \<noteq> rdriver s c then enter r ((leave r s)\<lparr>rdriver := (rdriver s)(r := rdriver s c)\<rparr>) else s) in
      s\<lparr>onTerminated := (onTerminated s)(r := onTerminated s c)\<rparr>)"

definition ref_terminate :: "(callback \<Rightarrow> refs \<Rightarrow> refs option) \<Rightarrow> nat \<Rightarrow> refs \<Rightarrow> refs option" where
  "ref_terminate call r s =
     (case rdriver s r of
        None \<Rightarrow> Some s
      | Some d \<Rightarrow> (let s = s\<lparr>rdriver := (rdriver s)(r := None)\<rparr> in call (onTerminated s r) s))"

text \<open>The loop of \<^verbatim>\<open>DriverApi::stop_driver\<close> and the \<^verbatim>\<open>clear\<close> after it; the loop reads \<^verbatim>\<open>next\<close> after the callback.\<close>

partial_function (option) terminate_from :: "(callback \<Rightarrow> refs \<Rightarrow> refs option) \<Rightarrow> nat option \<Rightarrow> refs \<Rightarrow> refs option" where
  "terminate_from call p s =
     (case p of
        None \<Rightarrow> Some s
      | Some r \<Rightarrow>
          (case ref_terminate call r s of
             None \<Rightarrow> None
           | Some s \<Rightarrow> terminate_from call (nextp (ritems s) r) s))"

definition terminate_all :: "(callback \<Rightarrow> refs \<Rightarrow> refs option) \<Rightarrow> nat \<Rightarrow> refs \<Rightarrow> refs option" where
  "terminate_all call d s =
     (case terminate_from call (head (rlists s d)) s of
        None \<Rightarrow> None
      | Some s \<Rightarrow>
          (case clear (ritems s, rlists s d) of
             None \<Rightarrow> None
           | Some (h, l) \<Rightarrow> Some (s\<lparr>ritems := h, rlists := (rlists s)(d := l)\<rparr>)))"

section \<open>Registration\<close>

lemma on_refs_sel [simp]:
  "ritems (on_refs d f s) = fst (f (ritems s, rlists s d))"
  "rlists (on_refs d f s) = (rlists s)(d := snd (f (ritems s, rlists s d)))"
  "rdriver (on_refs d f s) = rdriver s" "onTerminated (on_refs d f s) = onTerminated s"
  by (simp_all add: on_refs_def split: prod.splits)

text \<open>\<open>L\<close> gives the references in each driver's list; a reference that exists is in the list of the driver it points to.\<close>

definition listed :: "(nat \<Rightarrow> nat list) \<Rightarrow> refs \<Rightarrow> bool" where
  "listed L s \<longleftrightarrow> (\<forall>d. repr (ritems s, rlists s d) (L d)) \<and> (\<forall>d e. d \<noteq> e \<longrightarrow> set (L d) \<inter> set (L e) = {})"

definition registered :: "nat set \<Rightarrow> (nat \<Rightarrow> nat list) \<Rightarrow> refs \<Rightarrow> bool" where
  "registered live L s \<longleftrightarrow> listed L s \<and> (\<forall>d. set (L d) = {r \<in> live. rdriver s r = Some d})"

lemma listed_upd [simp]:
  "listed L (s\<lparr>rdriver := a\<rparr>) = listed L s" "listed L (s\<lparr>onTerminated := b\<rparr>) = listed L s"
  by (simp_all add: listed_def)

lemma listed_push:
  assumes "listed L s" and "\<And>e. r \<notin> set (L e)"
  shows "listed (L(d := L d @ [r])) (on_refs d (push_back r) s)"
proof -
  have r: "repr (ritems s, rlists s d) (L d)" using assms(1) by (simp add: listed_def)
  let ?h = "fst (push_back r (ritems s, rlists s d))"
  have o: "same_outside (insert r (set (L d))) (ritems s) ?h" using push_back_frame[OF r] by simp
  have "repr (?h, rlists s e) (L e)" if "e \<noteq> d" for e
    by (rule same_outside_repr[OF _ o]) (use assms that in \<open>auto simp: listed_def\<close>)
  moreover have "repr (push_back r (ritems s, rlists s d)) (L d @ [r])" by (rule push_back_repr[OF r assms(2)])
  ultimately have "\<forall>e. repr (ritems (on_refs d (push_back r) s), rlists (on_refs d (push_back r) s) e) ((L(d := L d @ [r])) e)"
    by auto
  moreover have "\<forall>a b. a \<noteq> b \<longrightarrow> set ((L(d := L d @ [r])) a) \<inter> set ((L(d := L d @ [r])) b) = {}"
    using assms unfolding listed_def by auto
  ultimately show ?thesis unfolding listed_def by (rule conjI)
qed

lemma listed_pop:
  assumes "listed L s" and "r \<in> set (L d)"
  shows "listed (L(d := remove1 r (L d))) (on_refs d (pop r) s)"
proof -
  have "distinct (L d)" using assms(1) by (auto simp: listed_def repr_def)
  then obtain xs ys where s: "L d = xs @ r # ys" "remove1 r (L d) = xs @ ys"
    using split_at_elem[OF assms(2)] by metis
  have r: "repr (ritems s, rlists s d) (xs @ r # ys)" using assms(1) s(1) by (metis listed_def)
  let ?h = "fst (pop r (ritems s, rlists s d))"
  have o: "same_outside (set (L d)) (ritems s) ?h" using pop_frame[OF r] s(1) by simp
  have "repr (?h, rlists s e) (L e)" if "e \<noteq> d" for e
    by (rule same_outside_repr[OF _ o]) (use assms(1) that in \<open>auto simp: listed_def\<close>)
  moreover have "repr (pop r (ritems s, rlists s d)) (xs @ ys)" by (rule pop_repr[OF r])
  ultimately have "\<forall>e. repr (ritems (on_refs d (pop r) s), rlists (on_refs d (pop r) s) e) ((L(d := xs @ ys)) e)"
    by auto
  moreover have "set (xs @ ys) \<subseteq> set (L d)" using s(1) by auto
  then have "\<forall>a b. a \<noteq> b \<longrightarrow> set ((L(d := xs @ ys)) a) \<inter> set ((L(d := xs @ ys)) b) = {}"
    using assms(1) unfolding listed_def by (simp, blast)
  ultimately show ?thesis unfolding listed_def s(2) by (rule conjI)
qed

lemma listed_fresh:
  assumes "listed L s" and "\<And>d. r \<notin> set (L d)"
  shows "listed L (fresh_item r s)"
proof -
  have o: "same_outside {r} (ritems s) (ritems (fresh_item r s))"
    by (simp add: same_outside_def fresh_item_def)
  have "repr (ritems (fresh_item r s), rlists s d) (L d)" for d
    by (rule same_outside_repr[OF _ o]) (use assms in \<open>simp_all add: listed_def\<close>)
  moreover have "rlists (fresh_item r s) = rlists s" by (simp add: fresh_item_def)
  ultimately show ?thesis using assms(1) by (simp add: listed_def)
qed

lemma registered_distinct: "registered live L s \<Longrightarrow> distinct (L d)"
  by (auto simp: registered_def listed_def repr_def)

text \<open>Leaving a list and entering one, with the pointer changed in between.\<close>

lemma leave_sel [simp]: "rdriver (leave r s) = rdriver s" "onTerminated (leave r s) = onTerminated s"
  by (simp_all add: leave_def split: option.splits)

lemma enter_sel [simp]: "rdriver (enter r s) = rdriver s" "onTerminated (enter r s) = onTerminated s"
  by (simp_all add: enter_def split: option.splits)

definition without :: "nat \<Rightarrow> (nat \<Rightarrow> nat list) \<Rightarrow> nat \<Rightarrow> nat list" where
  "without r L = (\<lambda>d. remove1 r (L d))"

definition with_ref :: "nat \<Rightarrow> nat option \<Rightarrow> (nat \<Rightarrow> nat list) \<Rightarrow> nat \<Rightarrow> nat list" where
  "with_ref r d L = (case d of None \<Rightarrow> L | Some d \<Rightarrow> L(d := L d @ [r]))"

lemma leave_listed:
  assumes "registered live L s" and "r \<in> live"
  shows "registered (live - {r}) (without r L) (leave r s)"
proof -
  note l = assms(1)[unfolded registered_def]
  have d: "set (without r L d) = {q \<in> live - {r}. rdriver (leave r s) q = Some d}" for d
    using l registered_distinct[OF assms(1), of d] by (auto simp: without_def)
  have "listed (without r L) (leave r s)"
  proof (cases "rdriver s r")
    case None
    then have "without r L = L" using l by (auto simp: without_def fun_eq_iff intro!: remove1_idem)
    with None l show ?thesis by (simp add: leave_def)
  next
    case (Some e)
    then have "r \<in> set (L e)" using l assms(2) by simp
    moreover have "without r L = L(e := remove1 r (L e))"
      using l Some by (auto simp: without_def fun_eq_iff intro!: remove1_idem)
    ultimately show ?thesis using listed_pop[of L s r e] l Some by (simp add: leave_def)
  qed
  with d show ?thesis unfolding registered_def by blast
qed

lemma enter_listed:
  assumes "registered live L s" and "r \<notin> live"
  shows "registered (insert r live) (with_ref r d L) (enter r (s\<lparr>rdriver := (rdriver s)(r := d)\<rparr>))"
proof -
  note l = assms(1)[unfolded registered_def]
  have n: "r \<notin> set (L e)" for e using l assms(2) by simp
  have "set (with_ref r d L e) = {q \<in> insert r live. ((rdriver s)(r := d)) q = Some e}" for e
    using l assms(2) by (auto simp: with_ref_def split: option.splits)
  moreover have "listed (with_ref r d L) (enter r (s\<lparr>rdriver := (rdriver s)(r := d)\<rparr>))"
  proof (cases d)
    case None
    with l show ?thesis by (simp add: with_ref_def enter_def)
  next
    case (Some e)
    have "listed (L(e := L e @ [r])) (on_refs e (push_back r) (s\<lparr>rdriver := (rdriver s)(r := d)\<rparr>))"
      by (rule listed_push) (use l n in simp_all)
    with Some show ?thesis by (simp add: with_ref_def enter_def)
  qed
  ultimately show ?thesis unfolding registered_def by simp
qed

section \<open>Every operation\<close>

text \<open>What the code does with references, and what it should do to the lists. A copy is made like any other.\<close>

datatype ref_op =
    New nat "nat option" callback
  | Delete nat
  | Point nat "nat option"
  | Assign nat nat

fun ref_step :: "ref_op \<Rightarrow> refs \<Rightarrow> refs" where
  "ref_step (New r d cb) s = ref_new r d cb s"
| "ref_step (Delete r) s = ref_delete r s"
| "ref_step (Point r d) s = ref_point r d s"
| "ref_step (Assign r c) s = ref_assign r c s"

fun legal :: "nat set \<Rightarrow> ref_op \<Rightarrow> bool" where
  "legal live (New r d cb) \<longleftrightarrow> r \<notin> live"
| "legal live (Delete r) \<longleftrightarrow> r \<in> live"
| "legal live (Point r d) \<longleftrightarrow> r \<in> live"
| "legal live (Assign r c) \<longleftrightarrow> r \<in> live"

fun living :: "nat set \<Rightarrow> ref_op \<Rightarrow> nat set" where
  "living live (New r d cb) = insert r live"
| "living live (Delete r) = live - {r}"
| "living live (Point r d) = live"
| "living live (Assign r c) = live"

fun pointing :: "(nat \<Rightarrow> nat option) \<Rightarrow> ref_op \<Rightarrow> nat \<Rightarrow> nat option" where
  "pointing D (New r d cb) = D(r := d)"
| "pointing D (Delete r) = D"
| "pointing D (Point r d) = D(r := d)"
| "pointing D (Assign r c) = D(r := D c)"

lemma registered_onTerminated [simp]: "registered live L (s\<lparr>onTerminated := cb\<rparr>) = registered live L s"
  by (simp add: registered_def)

lemma refs_upd_order: "s\<lparr>rdriver := f, onTerminated := g\<rparr> = s\<lparr>onTerminated := g, rdriver := f\<rparr>"
  by simp

lemma repoint_registered:
  assumes "registered live L s" and "r \<in> live"
  shows "registered live (with_ref r d (without r L)) (enter r ((leave r s)\<lparr>rdriver := (rdriver s)(r := d)\<rparr>))"
  using enter_listed[OF leave_listed[OF assms], of r d] assms(2) by (simp add: insert_absorb)

lemma ref_step_registered:
  assumes "registered live L s" and "legal live op"
  shows "\<exists>L'. registered (living live op) L' (ref_step op s) \<and> rdriver (ref_step op s) = pointing (rdriver s) op"
proof (cases op)
  case (New r d cb)
  then have n: "r \<notin> live" using assms(2) by simp
  have l: "\<And>e. r \<notin> set (L e)" using assms(1) n by (simp add: registered_def)
  have "registered live L ((fresh_item r s)\<lparr>onTerminated := (onTerminated s)(r := cb)\<rparr>)"
    using listed_fresh[of L s r] l assms(1) by (simp add: registered_def) (simp add: fresh_item_def)
  from enter_listed[OF this n, of d] show ?thesis
    unfolding New by (auto simp: ref_new_def fresh_item_def refs_upd_order)
next
  case (Delete r)
  with leave_listed[OF assms(1), of r] assms(2) show ?thesis by (auto simp: ref_delete_def)
next
  case (Point r d)
  with repoint_registered[OF assms(1), of r d] assms show ?thesis
    by (auto simp: ref_point_def fun_eq_iff)
next
  case (Assign r c)
  with repoint_registered[OF assms(1), of r "rdriver s c"] assms show ?thesis
    by (auto simp: ref_assign_def Let_def fun_eq_iff)
qed

text \<open>The states reachable from driver lists that are all empty.\<close>

inductive ref_reach :: "nat set \<Rightarrow> refs \<Rightarrow> bool" where
  start: "(\<And>d. rlists s d = empty_llist) \<Longrightarrow> ref_reach {} s"
| step: "ref_reach live s \<Longrightarrow> legal live op \<Longrightarrow> ref_reach (living live op) (ref_step op s)"

lemma ref_reach_registered: "ref_reach live s \<Longrightarrow> \<exists>L. registered live L s"
proof (induction rule: ref_reach.induct)
  case (start s)
  then have "registered {} (\<lambda>_. []) s" by (simp add: registered_def listed_def repr_empty)
  then show ?case by blast
next
  case (step live s op)
  then show ?case using ref_step_registered by blast
qed

lemma terminate_from_effect:
  assumes "linked (ritems s) pv xs None" and "\<And>cb s. call cb s = Some s" and "distinct xs"
  shows "\<exists>s'. terminate_from call (first_or xs None) s = Some s' \<and> ritems s' = ritems s \<and> rlists s' = rlists s \<and>
    rdriver s' = (\<lambda>r. if r \<in> set xs then None else rdriver s r)"
  using assms
proof (induction xs arbitrary: s pv)
  case Nil
  then show ?case by (subst terminate_from.simps) simp
next
  case (Cons r xs)
  let ?s = "s\<lparr>rdriver := (rdriver s)(r := None)\<rparr>"
  have t: "\<exists>u. ref_terminate call r s = Some u \<and> ritems u = ritems s \<and> rlists u = rlists s \<and>
      rdriver u = (rdriver s)(r := None)"
    using Cons.prems(2) by (auto simp: ref_terminate_def Let_def fun_eq_iff split: option.splits)
  then obtain u where u: "ref_terminate call r s = Some u" "ritems u = ritems s" "rlists u = rlists s"
    "rdriver u = (rdriver s)(r := None)" by blast
  have l: "linked (ritems u) (Some r) xs None" and n: "nextp (ritems u) r = first_or xs None"
    using Cons.prems(1) u(2) by simp_all
  from Cons.IH[OF l Cons.prems(2)] Cons.prems(3) obtain s' where s':
    "terminate_from call (first_or xs None) u = Some s'" "ritems s' = ritems u" "rlists s' = rlists u"
    "rdriver s' = (\<lambda>q. if q \<in> set xs then None else rdriver u q)" by auto
  have "terminate_from call (first_or (r # xs) None) s = Some s'"
    using u(1) n s'(1) by (subst terminate_from.simps) simp
  with s' u Cons.prems(3) show ?case by (auto simp: fun_eq_iff)
qed

lemma clear_head: "repr (h, l) xs \<Longrightarrow> \<exists>h' l'. clear (h, l) = Some (h', l') \<and> head l' = head l \<and> lsize l' = 0"
proof (cases xs)
  case Nil
  assume "repr (h, l) xs"
  with Nil show ?thesis by (simp add: clear_def reprD)
next
  case (Cons x ys)
  assume r: "repr (h, l) xs"
  from clear_repr[OF r[unfolded Cons]] obtain h' l' where
    "clear (h, l) = Some (h', l')" "lsize l' = 0" "head l' = Some x" by auto
  moreover have "head l = Some x" using reprD(3)[OF r] Cons by simp
  ultimately show ?thesis by auto
qed

section \<open>Properties\<close>

lemma terminate_all_told:
  assumes "ref_reach live s" and "\<And>cb s. call cb s = Some s"
  shows "\<exists>xs s'. repr (ritems s, rlists s d) xs \<and> distinct xs \<and> set xs = {r \<in> live. rdriver s r = Some d} \<and>
    terminate_all call d s = Some s' \<and>
    (\<forall>r. rdriver s' r = (if r \<in> live \<and> rdriver s r = Some d then None else rdriver s r)) \<and>
    lsize (rlists s' d) = 0 \<and> head (rlists s' d) = first_or xs None"
proof -
  obtain L where L: "registered live L s" using ref_reach_registered[OF assms(1)] by blast
  then have r: "repr (ritems s, rlists s d) (L d)" and m: "set (L d) = {r \<in> live. rdriver s r = Some d}"
    by (simp_all add: registered_def listed_def)
  from terminate_from_effect[of s None "L d" call] assms(2) reprD[OF r] obtain u where u:
    "terminate_from call (head (rlists s d)) s = Some u" "ritems u = ritems s" "rlists u = rlists s"
    "rdriver u = (\<lambda>q. if q \<in> set (L d) then None else rdriver s q)" by auto
  obtain h l where c: "clear (ritems s, rlists s d) = Some (h, l)" "head l = head (rlists s d)" "lsize l = 0"
    using clear_head[OF r] by blast
  have "terminate_all call d s = Some (u\<lparr>ritems := h, rlists := (rlists u)(d := l)\<rparr>)"
    using u c by (simp add: terminate_all_def)
  with r m u(4) c reprD[OF r] show ?thesis by (intro exI[of _ "L d"]) auto
qed


text \<open>Copying a reference to a driver empties the list of that driver: the copy constructor takes the new item out of a list
  it was never in. Both references keep pointing to the driver, and stopping it tells no reference any more.\<close>

theorem copy_forgets:
  assumes "ref_reach live s" and "c \<in> live" and "rdriver s c = Some d" and "r \<notin> live"
  shows "contains c (ritems s, rlists s d) = Some True \<and>
    (let t = ref_copy r c s in
     rdriver t c = Some d \<and> rdriver t r = Some d \<and> contains c (ritems t, rlists t d) = Some False \<and>
     terminate_all call d t = Some t)"
proof -
  obtain L where L: "registered live L s" using ref_reach_registered[OF assms(1)] by blast
  then have "repr (ritems s, rlists s d) (L d)" and "c \<in> set (L d)"
    using assms(2,3) by (simp_all add: registered_def listed_def)
  then have "contains c (ritems s, rlists s d) = Some True" by (simp add: contains_repr)
  moreover have "head (rlists (ref_copy r c s) d) = None"
    using assms(3) by (simp add: ref_copy_def leave_def fresh_item_def pop_def Let_def)
  moreover have "rdriver (ref_copy r c s) c = Some d" "rdriver (ref_copy r c s) r = Some d"
    using assms(2,3,4) by (auto simp: ref_copy_def)
  ultimately show ?thesis
    unfolding Let_def by (simp add: contains_def contains_from.simps terminate_all_def terminate_from.simps clear_def)
qed

section \<open>Witnesses\<close>

definition no_refs :: refs where
  "no_refs = \<lparr>ritems = \<lparr>nextp = \<lambda>_. None, prevp = \<lambda>_. None\<rparr>, rlists = \<lambda>_. empty_llist, rdriver = \<lambda>_. None,
    onTerminated = \<lambda>_. (0, 0)\<rparr>"

definition one_ref :: refs where
  "one_ref = ref_step (New 1 (Some 7) (100, 0)) no_refs"

lemma one_ref_reach: "ref_reach {1} one_ref" "rdriver one_ref 1 = Some 7"
  using ref_reach.step[OF ref_reach.start[of no_refs], of "New 1 (Some 7) (100, 0)"]
  by (simp_all add: one_ref_def no_refs_def ref_new_def)


theorem copy_forgets_witness:
  "contains 1 (ritems one_ref, rlists one_ref 7) = Some True \<and>
    contains 1 (ritems (ref_copy 2 1 one_ref), rlists (ref_copy 2 1 one_ref) 7) = Some False"
  using copy_forgets[OF one_ref_reach(1), of 1 7 2] one_ref_reach(2) by (simp add: Let_def)

end
