(* ===== verification/Drivers.thy ===== *)
theory Drivers
  imports Subscriptions Regions References Bits
begin

text \<open>
  Drivers and what they hold: \<^verbatim>\<open>kernel/drivers.cpp\<close>, \<^verbatim>\<open>kernel/DriverApi.cpp\<close>, \<^verbatim>\<open>kernel/Driver.hpp\<close> and
  \<^verbatim>\<open>kernel/arch/x86/PciDevice.cpp\<close>. A driver is an address; the installed drivers are an intrusive list (theory
  LinkedList). The subscriptions of a driver are bit sets (theory Bits) and arrays (theory Arrays), the interrupt lines
  are those of theory Subscriptions, the regions those of theory Regions, the references those of theory References.
  What a particular driver does (its virtual functions) is a parameter, the record \<open>hooks\<close>. Logging is left out.
\<close>

section \<open>State\<close>

datatype startup = disabled | onDemand | automatic

datatype drv_state = inactive | active | failed

datatype drv_event = driverInstalled nat | driverStarted nat | driverStopped nat "string option"

text \<open>\<open>dtypes\<close> are the ids of the driver's type and of its parents, nearest first.\<close>

record drv =
  dtypes :: "nat list"
  startup :: startup
  dstate :: drv_state
  subscribedIrqs :: mask256
  subscribedInterrupts :: mask256
  subscribedMemory :: "region arr"
  subscribedPciDevices :: "nat arr"
  subscribedIoPorts :: "nat arr"

text \<open>\<open>told\<close> are the events triggered so far, \<open>pciCommand\<close> the command register of each PCI device, and \<open>onDriverIrq\<close> the
  address of the function that passes an interrupt line on to a driver.\<close>

record sys =
  driverItems :: "nat store"
  driverList :: "nat llist"
  drvs :: "nat \<Rightarrow> drv"
  irqs :: irq_table
  drvInterrupts :: "nat \<Rightarrow> nat arr option"
  refstate :: refs
  pciCommand :: "nat \<Rightarrow> 16 word"
  told :: "drv_event list"
  onDriverIrq :: nat

record hooks =
  on_start :: "nat \<Rightarrow> sys \<Rightarrow> (unit attempt \<times> sys) option"
  on_stop :: "nat \<Rightarrow> sys \<Rightarrow> (unit attempt \<times> sys) option"
  can_stop :: "nat \<Rightarrow> bool"
  can_restart :: "nat \<Rightarrow> bool"
  available_irq :: "nat \<Rightarrow> mask256 \<Rightarrow> sys \<Rightarrow> (nat attempt \<times> sys) option"
  told_gone :: "callback \<Rightarrow> refs \<Rightarrow> refs option"

definition upd_drv :: "nat \<Rightarrow> (drv \<Rightarrow> drv) \<Rightarrow> sys \<Rightarrow> sys" where
  "upd_drv d f s = s\<lparr>drvs := (drvs s)(d := f (drvs s d))\<rparr>"

definition is_active :: "nat \<Rightarrow> sys \<Rightarrow> bool" where
  "is_active d s \<longleftrightarrow> dstate (drvs s d) = active"

definition is_enabled :: "nat \<Rightarrow> sys \<Rightarrow> bool" where
  "is_enabled d s \<longleftrightarrow> startup (drvs s d) \<noteq> disabled"

definition is_disabled :: "nat \<Rightarrow> sys \<Rightarrow> bool" where
  "is_disabled d s \<longleftrightarrow> startup (drvs s d) = disabled"

definition set_dstate :: "nat \<Rightarrow> drv_state \<Rightarrow> sys \<Rightarrow> sys" where
  "set_dstate d st = upd_drv d (\<lambda>x. x\<lparr>dstate := st\<rparr>)"

definition notify :: "drv_event \<Rightarrow> sys \<Rightarrow> sys" where
  "notify e s = s\<lparr>told := told s @ [e]\<rparr>"

section \<open>Types and the list of drivers\<close>

fun is_type_from :: "nat list \<Rightarrow> nat \<Rightarrow> bool" where
  "is_type_from [] typeId = False"
| "is_type_from (t # ts) typeId = (if t = typeId then True else is_type_from ts typeId)"

definition is_type :: "nat \<Rightarrow> nat \<Rightarrow> sys \<Rightarrow> bool" where
  "is_type d typeId s = is_type_from (dtypes (drvs s d)) typeId"

definition module_type :: nat where
  "module_type = 0x1f24f156"

partial_function (option) find_from :: "sys \<Rightarrow> nat \<Rightarrow> nat option \<Rightarrow> nat option option" where
  "find_from s typeId p =
     (case p of
        None \<Rightarrow> Some None
      | Some d \<Rightarrow> if is_type d typeId s then Some (Some d) else find_from s typeId (nextp (driverItems s) d))"

definition find_first :: "nat \<Rightarrow> sys \<Rightarrow> nat option option" where
  "find_first typeId s = find_from s typeId (head (driverList s))"

definition find_next :: "nat \<Rightarrow> nat \<Rightarrow> sys \<Rightarrow> nat option option" where
  "find_next d typeId s = find_from s typeId (nextp (driverItems s) d)"

text \<open>The loops \<^verbatim>\<open>for(auto &driver : iterate<T>()) if(test) return ...\<close> whose bodies change nothing.\<close>

partial_function (option) search_drivers :: "(nat \<Rightarrow> bool option) \<Rightarrow> (nat \<Rightarrow> nat option option) \<Rightarrow> nat option \<Rightarrow> nat option option" where
  "search_drivers test succ p =
     (case p of
        None \<Rightarrow> Some None
      | Some d \<Rightarrow>
          (case test d of
             None \<Rightarrow> None
           | Some hit \<Rightarrow>
               (if hit then Some (Some d)
                else (case succ d of None \<Rightarrow> None | Some q \<Rightarrow> search_drivers test succ q))))"

definition search_all :: "(nat \<Rightarrow> bool option) \<Rightarrow> nat \<Rightarrow> sys \<Rightarrow> nat option option" where
  "search_all test typeId s =
     (case find_first typeId s of None \<Rightarrow> None | Some p \<Rightarrow> search_drivers test (\<lambda>d. find_next d typeId s) p)"

definition install_driver :: "nat \<Rightarrow> sys \<Rightarrow> sys" where
  "install_driver d s =
     (case push_back d (driverItems s, driverList s) of
        (h, l) \<Rightarrow> notify (driverInstalled d) (s\<lparr>driverItems := h, driverList := l\<rparr>))"

definition is_memory_in_use :: "nat \<Rightarrow> nat \<Rightarrow> sys \<Rightarrow> bool option" where
  "is_memory_in_use address sz s =
     map_option (\<lambda>r. r \<noteq> None)
       (search_all (\<lambda>d. if \<not> is_active d s then Some False else is_subscribed_to_memory address sz (subscribedMemory (drvs s d)))
          module_type s)"

definition find_active :: "nat \<Rightarrow> sys \<Rightarrow> nat option option" where
  "find_active typeId s = search_all (\<lambda>d. Some (is_active d s)) typeId s"

section \<open>Interrupts\<close>

definition subscribe_interrupt :: "nat \<Rightarrow> nat \<Rightarrow> sys \<Rightarrow> sys option" where
  "subscribe_interrupt d vector s =
     (case bm256_get (subscribedInterrupts (drvs s d)) vector of
        None \<Rightarrow> None
      | Some b \<Rightarrow>
          (if b then Some s
           else
             (case pod_push_back d (case drvInterrupts s vector of None \<Rightarrow> new_array 1 | Some a \<Rightarrow> a) of
                None \<Rightarrow> None
              | Some a \<Rightarrow>
                  map_option (\<lambda>m. upd_drv d (\<lambda>x. x\<lparr>subscribedInterrupts := m\<rparr>)
                      (s\<lparr>drvInterrupts := (drvInterrupts s)(vector := Some a)\<rparr>))
                    (bm256_set vector True (subscribedInterrupts (drvs s d))))))"

definition drop_subscriber :: "nat \<Rightarrow> nat arr option \<Rightarrow> nat arr option option" where
  "drop_subscriber d subscribers =
     (case subscribers of
        None \<Rightarrow> Some None
      | Some a \<Rightarrow> (case search_index d a of None \<Rightarrow> Some (Some a) | Some i \<Rightarrow> map_option Some (pod_remove i a)))"

definition unsubscribe_interrupt :: "nat \<Rightarrow> nat \<Rightarrow> sys \<Rightarrow> sys option" where
  "unsubscribe_interrupt d vector s =
     (case bm256_get (subscribedInterrupts (drvs s d)) vector of
        None \<Rightarrow> None
      | Some b \<Rightarrow>
          (if \<not> b then Some s
           else
             (case drop_subscriber d (drvInterrupts s vector) of
                None \<Rightarrow> None
              | Some a \<Rightarrow>
                  map_option (\<lambda>m. upd_drv d (\<lambda>x. x\<lparr>subscribedInterrupts := m\<rparr>)
                      (s\<lparr>drvInterrupts := (drvInterrupts s)(vector := a)\<rparr>))
                    (bm256_set vector False (subscribedInterrupts (drvs s d))))))"

text \<open>The loop \<^verbatim>\<open>for(vector=0;vector<256;vector++)\<close> of both \<^verbatim>\<open>unsubscribe_all\<close> functions.\<close>

fun each_vector :: "(nat \<Rightarrow> sys \<Rightarrow> sys option) \<Rightarrow> nat \<Rightarrow> nat \<Rightarrow> sys \<Rightarrow> sys option" where
  "each_vector f i 0 s = Some s"
| "each_vector f i (Suc n) s = (case f i s of None \<Rightarrow> None | Some s \<Rightarrow> each_vector f (i + 1) n s)"

definition unsubscribe_all_interrupts :: "nat \<Rightarrow> sys \<Rightarrow> sys option" where
  "unsubscribe_all_interrupts d s =
     each_vector (\<lambda>v s. case bm256_get (subscribedInterrupts (drvs s d)) v of
         None \<Rightarrow> None | Some b \<Rightarrow> if b then unsubscribe_interrupt d v s else Some s) 0 256 s"

text \<open>\<^verbatim>\<open>drivers::_on_interrupt\<close>: the first active subscriber that answers; \<^verbatim>\<open>drivers::_on_irq\<close>: the drivers it calls.\<close>

definition drivers_on_interrupt :: "(nat \<Rightarrow> 'c \<Rightarrow> 'c option) \<Rightarrow> sys \<Rightarrow> nat \<Rightarrow> 'c \<Rightarrow> 'c option option" where
  "drivers_on_interrupt answer s vector st =
     (case drvInterrupts s vector of
        None \<Rightarrow> Some None
      | Some a \<Rightarrow>
          map_option (\<lambda>ds. first_answer answer (filter (\<lambda>d. is_active d s) ds) st) (those (map (arr_at a) [0..<alen a])))"

section \<open>Interrupt lines\<close>

definition subscribe_irq :: "nat \<Rightarrow> nat \<Rightarrow> sys \<Rightarrow> (unit attempt \<times> sys) option" where
  "subscribe_irq d irq s =
     (case bm256_get (subscribedIrqs (drvs s d)) irq of
        None \<Rightarrow> None
      | Some b \<Rightarrow>
          (if b then Some (Inr (), s)
           else
             (case irq_subscribe irq (onDriverIrq s, d) (irqs s) of
                None \<Rightarrow> None
              | Some (Inl e, t) \<Rightarrow> Some (Inl e, s\<lparr>irqs := t\<rparr>)
              | Some (Inr _, t) \<Rightarrow>
                  map_option (\<lambda>m. (Inr (), upd_drv d (\<lambda>x. x\<lparr>subscribedIrqs := m\<rparr>) (s\<lparr>irqs := t\<rparr>)))
                    (bm256_set irq True (subscribedIrqs (drvs s d))))))"

definition unsubscribe_irq :: "nat \<Rightarrow> nat \<Rightarrow> sys \<Rightarrow> sys option" where
  "unsubscribe_irq d irq s =
     (case bm256_get (subscribedIrqs (drvs s d)) irq of
        None \<Rightarrow> None
      | Some b \<Rightarrow>
          (if \<not> b then Some s
           else
             (case irq_unsubscribe irq (onDriverIrq s, d) (irqs s) of
                None \<Rightarrow> None
              | Some t \<Rightarrow>
                  map_option (\<lambda>m. upd_drv d (\<lambda>x. x\<lparr>subscribedIrqs := m\<rparr>) (s\<lparr>irqs := t\<rparr>))
                    (bm256_set irq False (subscribedIrqs (drvs s d))))))"

definition unsubscribe_all_irqs :: "nat \<Rightarrow> sys \<Rightarrow> sys option" where
  "unsubscribe_all_irqs d s =
     each_vector (\<lambda>v s. case bm256_get (subscribedIrqs (drvs s d)) v of
         None \<Rightarrow> None | Some b \<Rightarrow> if b then unsubscribe_irq d v s else Some s) 0 256 s"

section \<open>PCI devices and I/O ports\<close>

definition set_command :: "nat \<Rightarrow> bool \<Rightarrow> nat \<Rightarrow> sys \<Rightarrow> sys" where
  "set_command i on device s =
     s\<lparr>pciCommand := (pciCommand s)(device :=
        (if on then pciCommand s device OR push_bit i 1 else pciCommand s device AND NOT (push_bit i 1)))\<rparr>"

definition enable_io_space :: "bool \<Rightarrow> nat \<Rightarrow> sys \<Rightarrow> sys" where
  "enable_io_space on = set_command 0 on"

definition enable_memory_space :: "bool \<Rightarrow> nat \<Rightarrow> sys \<Rightarrow> sys" where
  "enable_memory_space on = set_command 1 on"

definition enable_bus_mastering :: "bool \<Rightarrow> nat \<Rightarrow> sys \<Rightarrow> sys" where
  "enable_bus_mastering on = set_command 2 on"

definition enable_interrupts :: "bool \<Rightarrow> nat \<Rightarrow> sys \<Rightarrow> sys" where
  "enable_interrupts on = set_command 10 (\<not> on)"

record pci_options =
  ioSpace :: bool
  memorySpace :: bool
  busMastering :: bool
  interrupts :: bool

definition is_subscribed_to_pci :: "nat \<Rightarrow> nat \<Rightarrow> sys \<Rightarrow> bool" where
  "is_subscribed_to_pci d device s \<longleftrightarrow> search_index device (subscribedPciDevices (drvs s d)) \<noteq> None"

definition subscribe_pci :: "nat \<Rightarrow> nat \<Rightarrow> pci_options \<Rightarrow> sys \<Rightarrow> (unit attempt \<times> sys) option" where
  "subscribe_pci d device opts s =
     (if is_subscribed_to_pci d device s then Some (Inr (), s)
      else
        (case search_all (\<lambda>e. Some (is_subscribed_to_pci e device s)) module_type s of
           None \<Rightarrow> None
         | Some (Some e) \<Rightarrow> Some (Inl ''PCI device not available - already in use'', s)
         | Some None \<Rightarrow>
             map_option (\<lambda>a.
                 (let s = upd_drv d (\<lambda>x. x\<lparr>subscribedPciDevices := a\<rparr>) s;
                      s = enable_memory_space (memorySpace opts) device (enable_io_space (ioSpace opts) device s);
                      s = (if busMastering opts then enable_bus_mastering True device s else s)
                  in (Inr (), if interrupts opts then enable_interrupts True device s else s)))
               (pod_push_back device (subscribedPciDevices (drvs s d)))))"

definition unsubscribe_pci :: "nat \<Rightarrow> nat \<Rightarrow> sys \<Rightarrow> sys option" where
  "unsubscribe_pci d device s =
     (case search_index device (subscribedPciDevices (drvs s d)) of
        None \<Rightarrow> Some s
      | Some i \<Rightarrow>
          map_option (\<lambda>a. upd_drv d (\<lambda>x. x\<lparr>subscribedPciDevices := a\<rparr>) s) (pod_remove i (subscribedPciDevices (drvs s d))))"

definition unsubscribe_all_pci :: "nat \<Rightarrow> sys \<Rightarrow> sys option" where
  "unsubscribe_all_pci d s =
     (let a = subscribedPciDevices (drvs s d) in
      map_option (\<lambda>devices.
          upd_drv d (\<lambda>x. x\<lparr>subscribedPciDevices := pod_clear a\<rparr>)
            (fold (\<lambda>v s. enable_memory_space False v (enable_io_space False v s)) devices s))
        (those (map (arr_at a) [0..<alen a])))"

definition is_subscribed_to_ioPort :: "nat \<Rightarrow> nat \<Rightarrow> sys \<Rightarrow> bool" where
  "is_subscribed_to_ioPort d ioPort s \<longleftrightarrow> search_index ioPort (subscribedIoPorts (drvs s d)) \<noteq> None"

definition subscribe_ioPort :: "nat \<Rightarrow> nat \<Rightarrow> sys \<Rightarrow> (nat attempt \<times> sys) option" where
  "subscribe_ioPort d ioPort s =
     (if is_subscribed_to_ioPort d ioPort s then Some (Inr ioPort, s)
      else
        (case search_all (\<lambda>e. Some (is_subscribed_to_ioPort e ioPort s)) module_type s of
           None \<Rightarrow> None
         | Some (Some e) \<Rightarrow> Some (Inl ''I/O port not available - already in use'', s)
         | Some None \<Rightarrow>
             map_option (\<lambda>a. (Inr ioPort, upd_drv d (\<lambda>x. x\<lparr>subscribedIoPorts := a\<rparr>) s))
               (pod_push_back ioPort (subscribedIoPorts (drvs s d)))))"

definition unsubscribe_ioPort :: "nat \<Rightarrow> nat \<Rightarrow> sys \<Rightarrow> sys option" where
  "unsubscribe_ioPort d ioPort s =
     (case search_index ioPort (subscribedIoPorts (drvs s d)) of
        None \<Rightarrow> Some s
      | Some i \<Rightarrow>
          map_option (\<lambda>a. upd_drv d (\<lambda>x. x\<lparr>subscribedIoPorts := a\<rparr>) s) (pod_remove i (subscribedIoPorts (drvs s d))))"

definition unsubscribe_all_ioPort :: "nat \<Rightarrow> sys \<Rightarrow> sys" where
  "unsubscribe_all_ioPort d s = upd_drv d (\<lambda>x. x\<lparr>subscribedIoPorts := pod_clear (subscribedIoPorts x)\<rparr>) s"

section \<open>Life cycle\<close>

definition release_all :: "nat \<Rightarrow> sys \<Rightarrow> sys option" where
  "release_all d s =
     (let s = upd_drv d (\<lambda>x. x\<lparr>subscribedMemory := unsubscribe_all_memory (subscribedMemory x)\<rparr>) s in
      case unsubscribe_all_interrupts d s of
        None \<Rightarrow> None
      | Some s \<Rightarrow>
          (case unsubscribe_all_irqs d s of
             None \<Rightarrow> None
           | Some s \<Rightarrow> map_option (unsubscribe_all_ioPort d) (unsubscribe_all_pci d s)))"

definition api_start :: "hooks \<Rightarrow> nat \<Rightarrow> sys \<Rightarrow> (unit attempt \<times> sys) option" where
  "api_start hk d s =
     (if is_active d s then Some (Inr (), s)
      else
        (case on_start hk d s of
           None \<Rightarrow> None
         | Some (Inl e, s) \<Rightarrow> map_option (\<lambda>s. (Inl e, s)) (release_all d (set_dstate d failed s))
         | Some (Inr _, s) \<Rightarrow> Some (Inr (), set_dstate d active s)))"

definition api_stop :: "hooks \<Rightarrow> nat \<Rightarrow> sys \<Rightarrow> (unit attempt \<times> sys) option" where
  "api_stop hk d s =
     (if \<not> is_active d s then Some (Inr (), s)
      else
        (case on_stop hk d s of
           None \<Rightarrow> None
         | Some (Inl e, s) \<Rightarrow> Some (Inl e, s)
         | Some (Inr _, s) \<Rightarrow>
             (case release_all d (set_dstate d inactive s) of
                None \<Rightarrow> None
              | Some s \<Rightarrow>
                  map_option (\<lambda>r. (Inr (), s\<lparr>refstate := r\<rparr>)) (terminate_all (told_gone hk) d (refstate s)))))"

definition api_restart :: "hooks \<Rightarrow> nat \<Rightarrow> sys \<Rightarrow> (unit attempt \<times> sys) option" where
  "api_restart hk d s =
     (case api_stop hk d s of
        None \<Rightarrow> None
      | Some (Inl e, s) \<Rightarrow> Some (Inl e, s)
      | Some (Inr _, s) \<Rightarrow> if is_active d s then Some (Inr (), s) else api_start hk d s)"

definition fail_driver :: "nat \<Rightarrow> sys \<Rightarrow> sys option" where
  "fail_driver d s = release_all d (set_dstate d failed s)"

definition start_driver :: "hooks \<Rightarrow> nat \<Rightarrow> sys \<Rightarrow> (unit attempt \<times> sys) option" where
  "start_driver hk d s =
     (if is_active d s then Some (Inr (), s)
      else
        (case api_start hk d s of
           None \<Rightarrow> None
         | Some (r, s) \<Rightarrow>
             (if \<not> is_active d s
              then Some (case r of Inl e \<Rightarrow> Inl e | Inr _ \<Rightarrow> Inl ''Unable to start driver'', s)
              else Some (Inr (), notify (driverStarted d) s))))"

definition stop_driver :: "hooks \<Rightarrow> nat \<Rightarrow> sys \<Rightarrow> (unit attempt \<times> sys) option" where
  "stop_driver hk d s =
     (if \<not> is_active d s then Some (Inr (), s)
      else if \<not> can_stop hk d then Some (Inl ''This driver cannot be stopped'', s)
      else
        (case api_stop hk d s of
           None \<Rightarrow> None
         | Some (Inl e, s) \<Rightarrow> Some (Inl e, s)
         | Some (Inr _, s) \<Rightarrow>
             (if \<not> is_disabled d s then Some (Inl ''Unable to stop driver'', s)
              else Some (Inr (), notify (driverStopped d None) s))))"

definition restart_driver :: "hooks \<Rightarrow> nat \<Rightarrow> sys \<Rightarrow> (unit attempt \<times> sys) option" where
  "restart_driver hk d s =
     (if \<not> is_active d s then start_driver hk d s
      else if \<not> can_restart hk d then Some (Inl ''This driver cannot be restarted'', s)
      else
        (case api_restart hk d s of
           None \<Rightarrow> None
         | Some (r, s) \<Rightarrow>
             (let s = (case r of Inl e \<Rightarrow> notify (driverStopped d (Some e)) s | Inr _ \<Rightarrow> s) in
              if \<not> is_active d s
              then Some (case r of Inl e \<Rightarrow> Inl e | Inr _ \<Rightarrow> Inl ''Unable to restart driver'', s)
              else Some (Inr (), notify (driverStarted d) s))))"

section \<open>Finding a driver\<close>

partial_function (option) activate_from :: "hooks \<Rightarrow> nat \<Rightarrow> nat option \<Rightarrow> sys \<Rightarrow> (nat option \<times> sys) option" where
  "activate_from hk typeId p s =
     (case p of
        None \<Rightarrow> Some (None, s)
      | Some d \<Rightarrow>
          (case (if is_enabled d s then start_driver hk d s else Some (Inl '''', s)) of
             None \<Rightarrow> None
           | Some rs \<Rightarrow>
               (if \<not> isl (fst rs) then Some (Some d, snd rs)
                else
                  (case find_next d typeId (snd rs) of
                     None \<Rightarrow> None
                   | Some p \<Rightarrow> activate_from hk typeId p (snd rs)))))"

definition find_and_activate :: "hooks \<Rightarrow> nat \<Rightarrow> sys \<Rightarrow> (nat option \<times> sys) option" where
  "find_and_activate hk typeId s =
     (case find_active typeId s of
        None \<Rightarrow> None
      | Some (Some d) \<Rightarrow> Some (Some d, s)
      | Some None \<Rightarrow>
          (case find_first typeId s of None \<Rightarrow> None | Some p \<Rightarrow> activate_from hk typeId p s))"

text \<open>The loop of \<^verbatim>\<open>subscribe_available_irq\<close> over the interrupt controllers; it sets the bit of the driver that asks.\<close>

partial_function (option) available_from :: "hooks \<Rightarrow> nat \<Rightarrow> mask256 \<Rightarrow> nat \<Rightarrow> nat option \<Rightarrow> sys \<Rightarrow> (nat attempt \<times> sys) option" where
  "available_from hk interruptType wanted d p s =
     (case p of
        None \<Rightarrow> Some (Inl ''No subscribable IRQs available'', s)
      | Some c \<Rightarrow>
          (case available_irq hk c wanted s of
             None \<Rightarrow> None
           | Some qs \<Rightarrow>
               (case (case fst qs of
                        Inl e \<Rightarrow> Some (None, snd qs)
                      | Inr irq \<Rightarrow>
                          (case irq_subscribe irq (onDriverIrq (snd qs), d) (irqs (snd qs)) of
                             None \<Rightarrow> None
                           | Some rt \<Rightarrow> Some (if isl (fst rt) then None else Some irq, (snd qs)\<lparr>irqs := snd rt\<rparr>))) of
                  None \<Rightarrow> None
                | Some us \<Rightarrow>
                    (case fst us of
                       Some irq \<Rightarrow>
                         map_option (\<lambda>m. (Inr irq, upd_drv d (\<lambda>x. x\<lparr>subscribedIrqs := m\<rparr>) (snd us)))
                           (bm256_set irq True (subscribedIrqs (drvs (snd us) d)))
                     | None \<Rightarrow>
                         (case find_next c interruptType (snd us) of
                            None \<Rightarrow> None
                          | Some p \<Rightarrow> available_from hk interruptType wanted d p (snd us))))))"

definition subscribe_available_irq :: "hooks \<Rightarrow> nat \<Rightarrow> nat \<Rightarrow> mask256 \<Rightarrow> sys \<Rightarrow> (nat attempt \<times> sys) option" where
  "subscribe_available_irq hk interruptType d wanted s =
     (case find_and_activate hk interruptType s of
        None \<Rightarrow> None
      | Some (r, s) \<Rightarrow>
          (case find_first interruptType s of
             None \<Rightarrow> None
           | Some p \<Rightarrow> available_from hk interruptType wanted d p s))"

section \<open>The state is well formed\<close>

definition well_arr :: "'a arr \<Rightarrow> bool" where
  "well_arr a \<longleftrightarrow> (\<exists>xs. arr_repr a xs)"

definition irqs_ok :: "irq_table \<Rightarrow> bool" where
  "irqs_ok t \<longleftrightarrow> (\<forall>k. pred_option well_arr (irqSubscribers t k))"

definition drv_ok :: "drv \<Rightarrow> bool" where
  "drv_ok x \<longleftrightarrow> well_arr (subscribedMemory x) \<and> well_arr (subscribedPciDevices x) \<and> well_arr (subscribedIoPorts x)"

definition sys_ok :: "nat list \<Rightarrow> sys \<Rightarrow> bool" where
  "sys_ok ds s \<longleftrightarrow> repr (driverItems s, driverList s) ds \<and> irqs_ok (irqs s) \<and>
     (\<forall>v. pred_option well_arr (drvInterrupts s v)) \<and> (\<forall>d. drv_ok (drvs s d))"

lemma well_arr_clear: "well_arr a \<Longrightarrow> arr_repr (pod_clear a) []"
  by (auto simp: well_arr_def arr_repr_def pod_clear_def)

lemma drop_subscriber_ok: "pred_option well_arr b \<Longrightarrow> \<exists>c. drop_subscriber d b = Some c \<and> pred_option well_arr c"
proof (cases b)
  case (Some a)
  moreover assume "pred_option well_arr b"
  ultimately obtain xs where a: "arr_repr a xs" by (auto simp: well_arr_def)
  show ?thesis
  proof (cases "search_index d a")
    case None
    with Some a show ?thesis by (auto simp: well_arr_def drop_subscriber_def)
  next
    case (Some i)
    from pod_remove_repr[OF a] search_index_repr(2)[OF a Some] obtain c ys where
      "pod_remove i a = Some c" "arr_repr c ys" by blast
    with Some \<open>b = Some a\<close> show ?thesis by (auto simp: well_arr_def drop_subscriber_def)
  qed
qed (simp add: drop_subscriber_def)

lemma upd_drv_sel [simp]:
  "driverItems (upd_drv d f s) = driverItems s" "driverList (upd_drv d f s) = driverList s"
  "drvs (upd_drv d f s) = (drvs s)(d := f (drvs s d))" "irqs (upd_drv d f s) = irqs s"
  "drvInterrupts (upd_drv d f s) = drvInterrupts s" "refstate (upd_drv d f s) = refstate s"
  "pciCommand (upd_drv d f s) = pciCommand s" "told (upd_drv d f s) = told s" "onDriverIrq (upd_drv d f s) = onDriverIrq s"
  by (simp_all add: upd_drv_def)

lemma set_command_sel [simp]:
  "driverItems (set_command i on v s) = driverItems s" "driverList (set_command i on v s) = driverList s"
  "drvs (set_command i on v s) = drvs s" "irqs (set_command i on v s) = irqs s"
  "drvInterrupts (set_command i on v s) = drvInterrupts s" "refstate (set_command i on v s) = refstate s"
  "told (set_command i on v s) = told s" "onDriverIrq (set_command i on v s) = onDriverIrq s"
  by (simp_all add: set_command_def)

text \<open>What giving up subscriptions of \<open>d\<close> leaves alone.\<close>

definition holds :: "mask256 \<Rightarrow> nat set" where
  "holds m = {k. bm256_get m k = Some True}"

definition gives_up :: "nat \<Rightarrow> sys \<Rightarrow> sys \<Rightarrow> bool" where
  "gives_up d s s' \<longleftrightarrow> driverItems s' = driverItems s \<and> driverList s' = driverList s \<and> refstate s' = refstate s \<and>
     told s' = told s \<and> (\<forall>e. e \<noteq> d \<longrightarrow> drvs s' e = drvs s e) \<and> dtypes (drvs s' d) = dtypes (drvs s d) \<and>
     startup (drvs s' d) = startup (drvs s d) \<and> dstate (drvs s' d) = dstate (drvs s d) \<and>
     holds (subscribedInterrupts (drvs s' d)) \<subseteq> holds (subscribedInterrupts (drvs s d)) \<and>
     holds (subscribedIrqs (drvs s' d)) \<subseteq> holds (subscribedIrqs (drvs s d)) \<and>
     subscribedMemory (drvs s' d) = subscribedMemory (drvs s d)"

lemma gives_up_refl [simp]: "gives_up d s s"
  by (simp add: gives_up_def)

lemma gives_up_trans: "gives_up d s t \<Longrightarrow> gives_up d t u \<Longrightarrow> gives_up d s u"
  by (auto simp: gives_up_def)

lemma unsubscribe_interrupt_effect:
  assumes "sys_ok ds s"
  shows "\<exists>s'. unsubscribe_interrupt d v s = Some s' \<and> sys_ok ds s' \<and> gives_up d s s' \<and>
    holds (subscribedInterrupts (drvs s' d)) = holds (subscribedInterrupts (drvs s d)) - {v} \<and>
    subscribedPciDevices (drvs s' d) = subscribedPciDevices (drvs s d)"
proof (cases "bm256_get (subscribedInterrupts (drvs s d)) v = Some True")
  case False
  then have "bm256_get (subscribedInterrupts (drvs s d)) v = Some False" by (auto simp: bm256_get_bit)
  with assms show ?thesis by (auto simp: unsubscribe_interrupt_def holds_def)
next
  case True
  obtain m where m: "bm256_set v False (subscribedInterrupts (drvs s d)) = Some m"
    "\<forall>k. bm256_get m k = (if k = v then Some False else bm256_get (subscribedInterrupts (drvs s d)) k)"
    using bm256_set_get by blast
  have h: "holds m = holds (subscribedInterrupts (drvs s d)) - {v}" using m(2) by (auto simp: holds_def split: if_splits)
  obtain b where b: "drop_subscriber d (drvInterrupts s v) = Some b" "pred_option well_arr b"
    using drop_subscriber_ok[of "drvInterrupts s v" d] assms unfolding sys_ok_def by blast
  let ?s = "upd_drv d (\<lambda>x. x\<lparr>subscribedInterrupts := m\<rparr>) (s\<lparr>drvInterrupts := (drvInterrupts s)(v := b)\<rparr>)"
  have "unsubscribe_interrupt d v s = Some ?s"
    unfolding unsubscribe_interrupt_def by (simp add: True b(1) m(1))
  moreover have "sys_ok ds ?s" using assms b(2) by (auto simp: sys_ok_def drv_ok_def)
  moreover have "gives_up d s ?s" using h by (auto simp: gives_up_def)
  ultimately show ?thesis using h by auto
qed

lemma irq_unsubscribe_ok:
  assumes "irqs_ok t"
  shows "\<exists>t'. irq_unsubscribe irq c t = Some t' \<and> irqs_ok t'"
proof (cases "irqSubscribers t irq")
  case None
  with assms show ?thesis by (simp add: irq_unsubscribe_def)
next
  case (Some a)
  have "pred_option well_arr (irqSubscribers t irq)" using assms unfolding irqs_ok_def by blast
  with Some obtain xs where a: "arr_repr a xs" by (auto simp: well_arr_def)
  have "\<exists>b. (case search_index c a of None \<Rightarrow> Some a | Some i \<Rightarrow> pod_remove i a) = Some b \<and> well_arr b"
  proof (cases "search_index c a")
    case None
    with a show ?thesis by (auto simp: well_arr_def)
  next
    case (Some i)
    from pod_remove_repr[OF a] search_index_repr(2)[OF a Some] obtain b ys where
      "pod_remove i a = Some b" "arr_repr b ys" by blast
    with Some show ?thesis by (auto simp: well_arr_def)
  qed
  then obtain b where b: "(case search_index c a of None \<Rightarrow> Some a | Some i \<Rightarrow> pod_remove i a) = Some b" "well_arr b"
    by blast
  have o: "pred_option well_arr (irqSubscribers t k)" for k using assms unfolding irqs_ok_def by blast
  show ?thesis
  proof (cases "alen b < 1")
    case True
    with Some b(1) show ?thesis by (simp add: irq_unsubscribe_def irqs_ok_def o Let_def)
  next
    case False
    with Some b show ?thesis by (simp add: irq_unsubscribe_def irqs_ok_def o Let_def)
  qed
qed

lemma unsubscribe_irq_effect:
  assumes "sys_ok ds s"
  shows "\<exists>s'. unsubscribe_irq d v s = Some s' \<and> sys_ok ds s' \<and> gives_up d s s' \<and>
    holds (subscribedIrqs (drvs s' d)) = holds (subscribedIrqs (drvs s d)) - {v} \<and>
    subscribedPciDevices (drvs s' d) = subscribedPciDevices (drvs s d)"
proof (cases "bm256_get (subscribedIrqs (drvs s d)) v = Some True")
  case False
  then have "bm256_get (subscribedIrqs (drvs s d)) v = Some False" by (auto simp: bm256_get_bit)
  with assms show ?thesis by (auto simp: unsubscribe_irq_def holds_def)
next
  case True
  obtain m where m: "bm256_set v False (subscribedIrqs (drvs s d)) = Some m"
    "\<forall>k. bm256_get m k = (if k = v then Some False else bm256_get (subscribedIrqs (drvs s d)) k)"
    using bm256_set_get by blast
  have h: "holds m = holds (subscribedIrqs (drvs s d)) - {v}" using m(2) by (auto simp: holds_def split: if_splits)
  obtain t where t: "irq_unsubscribe v (onDriverIrq s, d) (irqs s) = Some t" "irqs_ok t"
    using irq_unsubscribe_ok[of "irqs s" v "(onDriverIrq s, d)"] assms unfolding sys_ok_def by blast
  let ?s = "upd_drv d (\<lambda>x. x\<lparr>subscribedIrqs := m\<rparr>) (s\<lparr>irqs := t\<rparr>)"
  have "unsubscribe_irq d v s = Some ?s"
    unfolding unsubscribe_irq_def by (simp add: True t(1) m(1))
  moreover have "sys_ok ds ?s" using assms t(2) by (auto simp: sys_ok_def drv_ok_def)
  moreover have "gives_up d s ?s" using h by (auto simp: gives_up_def)
  ultimately show ?thesis using h by auto
qed

text \<open>Both loops over all vectors: \<open>M\<close> reads the bit set the loop goes through.\<close>

lemma each_vector_effect:
  assumes step: "\<And>v s. sys_ok ds s \<Longrightarrow> \<exists>s'. f v s = Some s' \<and> sys_ok ds s' \<and> gives_up d s s' \<and>
      holds (M s') = holds (M s) - {v} \<and> subscribedPciDevices (drvs s' d) = subscribedPciDevices (drvs s d)"
  shows "sys_ok ds s \<Longrightarrow> \<exists>s'. each_vector f i n s = Some s' \<and> sys_ok ds s' \<and> gives_up d s s' \<and>
    holds (M s') = holds (M s) - {i ..< i + n} \<and> subscribedPciDevices (drvs s' d) = subscribedPciDevices (drvs s d)"
proof (induction n arbitrary: i s)
  case (Suc n)
  obtain u where u: "f i s = Some u" "sys_ok ds u" "gives_up d s u" "holds (M u) = holds (M s) - {i}"
    "subscribedPciDevices (drvs u d) = subscribedPciDevices (drvs s d)" using step[OF Suc.prems] by blast
  from Suc.IH[OF u(2), of "i + 1"] obtain s' where s':
    "each_vector f (i + 1) n u = Some s'" "sys_ok ds s'" "gives_up d u s'"
    "holds (M s') = holds (M u) - {i + 1 ..< i + 1 + n}"
    "subscribedPciDevices (drvs s' d) = subscribedPciDevices (drvs u d)" by blast
  have "{i ..< i + Suc n} = insert i {i + 1 ..< i + 1 + n}" by auto
  then have "holds (M s') = holds (M s) - {i ..< i + Suc n}" using s'(4) u(4) by blast
  moreover have "each_vector f i (Suc n) s = Some s'" using u(1) s'(1) by simp
  ultimately show ?case using s' u gives_up_trans[OF u(3) s'(3)] by simp
qed simp

lemma holds_split: "holds (m :: mask256) \<inter> {0 ..< 256} = {} \<longleftrightarrow> (\<forall>k < 256. bm256_get m k = Some False)"
  unfolding holds_def by (auto simp: bm256_get_bit)

lemma guarded_interrupt:
  "(case bm256_get (subscribedInterrupts (drvs s d)) v of None \<Rightarrow> None | Some b \<Rightarrow> if b then unsubscribe_interrupt d v s else Some s) =
    unsubscribe_interrupt d v s"
  by (simp add: unsubscribe_interrupt_def bm256_get_bit)

lemma guarded_irq:
  "(case bm256_get (subscribedIrqs (drvs s d)) v of None \<Rightarrow> None | Some b \<Rightarrow> if b then unsubscribe_irq d v s else Some s) =
    unsubscribe_irq d v s"
  by (simp add: unsubscribe_irq_def bm256_get_bit)

lemma unsubscribe_all_interrupts_effect:
  assumes "sys_ok ds s"
  shows "\<exists>s'. unsubscribe_all_interrupts d s = Some s' \<and> sys_ok ds s' \<and> gives_up d s s' \<and>
    (\<forall>k < 256. bm256_get (subscribedInterrupts (drvs s' d)) k = Some False)"
  using each_vector_effect[OF unsubscribe_interrupt_effect assms, of d 0 256]
  unfolding unsubscribe_all_interrupts_def guarded_interrupt holds_split[symmetric] by fastforce

lemma unsubscribe_all_irqs_effect:
  assumes "sys_ok ds s"
  shows "\<exists>s'. unsubscribe_all_irqs d s = Some s' \<and> sys_ok ds s' \<and> gives_up d s s' \<and>
    (\<forall>k < 256. bm256_get (subscribedIrqs (drvs s' d)) k = Some False)"
  using each_vector_effect[OF unsubscribe_irq_effect assms, of d 0 256]
  unfolding unsubscribe_all_irqs_def guarded_irq holds_split[symmetric] by fastforce

lemma fold_pci_sel:
  "driverItems (fold (\<lambda>v s. enable_memory_space False v (enable_io_space False v s)) vs s) = driverItems s \<and>
   driverList (fold (\<lambda>v s. enable_memory_space False v (enable_io_space False v s)) vs s) = driverList s \<and>
   drvs (fold (\<lambda>v s. enable_memory_space False v (enable_io_space False v s)) vs s) = drvs s \<and>
   irqs (fold (\<lambda>v s. enable_memory_space False v (enable_io_space False v s)) vs s) = irqs s \<and>
   drvInterrupts (fold (\<lambda>v s. enable_memory_space False v (enable_io_space False v s)) vs s) = drvInterrupts s \<and>
   refstate (fold (\<lambda>v s. enable_memory_space False v (enable_io_space False v s)) vs s) = refstate s \<and>
   told (fold (\<lambda>v s. enable_memory_space False v (enable_io_space False v s)) vs s) = told s"
  by (induction vs arbitrary: s) (simp_all add: enable_memory_space_def enable_io_space_def)

lemma unsubscribe_all_pci_effect:
  assumes "sys_ok ds s"
  shows "\<exists>s'. unsubscribe_all_pci d s = Some s' \<and> sys_ok ds s' \<and> gives_up d s s' \<and>
    arr_repr (subscribedPciDevices (drvs s' d)) [] \<and> subscribedInterrupts (drvs s' d) = subscribedInterrupts (drvs s d) \<and>
    subscribedIrqs (drvs s' d) = subscribedIrqs (drvs s d)"
proof -
  let ?a = "subscribedPciDevices (drvs s d)"
  have w: "well_arr ?a" using assms by (simp add: sys_ok_def drv_ok_def)
  then obtain vs where vs: "arr_repr ?a vs" by (auto simp: well_arr_def)
  have c: "arr_repr (pod_clear ?a) []" using w by (rule well_arr_clear)
  let ?s = "upd_drv d (\<lambda>x. x\<lparr>subscribedPciDevices := pod_clear ?a\<rparr>)
      (fold (\<lambda>v s. enable_memory_space False v (enable_io_space False v s)) vs s)"
  have "unsubscribe_all_pci d s = Some ?s"
    by (simp add: unsubscribe_all_pci_def those_at[OF vs] Let_def)
  moreover have "sys_ok ds ?s" using assms c by (auto simp: sys_ok_def drv_ok_def fold_pci_sel well_arr_def)
  moreover have "gives_up d s ?s" by (simp add: gives_up_def fold_pci_sel)
  ultimately show ?thesis using c by (simp add: fold_pci_sel)
qed

text \<open>What a driver holds after \<open>release_all\<close>: nothing.\<close>

definition holds_nothing :: "drv \<Rightarrow> bool" where
  "holds_nothing x \<longleftrightarrow> (\<forall>k < 256. bm256_get (subscribedInterrupts x) k = Some False) \<and>
     (\<forall>k < 256. bm256_get (subscribedIrqs x) k = Some False) \<and> arr_repr (subscribedMemory x) [] \<and>
     arr_repr (subscribedPciDevices x) [] \<and> arr_repr (subscribedIoPorts x) []"

definition same_but :: "nat \<Rightarrow> sys \<Rightarrow> sys \<Rightarrow> bool" where
  "same_but d s s' \<longleftrightarrow> driverItems s' = driverItems s \<and> driverList s' = driverList s \<and> refstate s' = refstate s \<and>
     told s' = told s \<and> (\<forall>e. e \<noteq> d \<longrightarrow> drvs s' e = drvs s e) \<and> dtypes (drvs s' d) = dtypes (drvs s d) \<and>
     startup (drvs s' d) = startup (drvs s d) \<and> dstate (drvs s' d) = dstate (drvs s d)"

lemma holds_none_sub: "(\<forall>k < 256. bm256_get m k = Some False) \<Longrightarrow> holds m' \<subseteq> holds m \<Longrightarrow> (\<forall>k < 256. bm256_get m' k = Some False)"
  unfolding holds_split[symmetric] by blast

lemma release_all_effect:
  assumes "sys_ok ds s"
  shows "\<exists>s'. release_all d s = Some s' \<and> sys_ok ds s' \<and> same_but d s s' \<and> holds_nothing (drvs s' d)"
proof -
  let ?s0 = "upd_drv d (\<lambda>x. x\<lparr>subscribedMemory := unsubscribe_all_memory (subscribedMemory x)\<rparr>) s"
  have w: "well_arr (subscribedMemory (drvs s d))" "well_arr (subscribedIoPorts (drvs s d))"
    using assms by (simp_all add: sys_ok_def drv_ok_def)
  have m0: "arr_repr (subscribedMemory (drvs ?s0 d)) []"
    using well_arr_clear[OF w(1)] by (simp add: unsubscribe_all_memory_def)
  then have 0: "sys_ok ds ?s0" using assms by (auto simp: sys_ok_def drv_ok_def well_arr_def)
  obtain s1 where 1: "unsubscribe_all_interrupts d ?s0 = Some s1" "sys_ok ds s1" "gives_up d ?s0 s1"
    "\<forall>k < 256. bm256_get (subscribedInterrupts (drvs s1 d)) k = Some False"
    using unsubscribe_all_interrupts_effect[OF 0] by blast
  obtain s2 where 2: "unsubscribe_all_irqs d s1 = Some s2" "sys_ok ds s2" "gives_up d s1 s2"
    "\<forall>k < 256. bm256_get (subscribedIrqs (drvs s2 d)) k = Some False"
    using unsubscribe_all_irqs_effect[OF 1(2)] by blast
  obtain s3 where 3: "unsubscribe_all_pci d s2 = Some s3" "sys_ok ds s3" "gives_up d s2 s3"
    "arr_repr (subscribedPciDevices (drvs s3 d)) []" "subscribedInterrupts (drvs s3 d) = subscribedInterrupts (drvs s2 d)"
    "subscribedIrqs (drvs s3 d) = subscribedIrqs (drvs s2 d)"
    using unsubscribe_all_pci_effect[OF 2(2)] by blast
  let ?s4 = "unsubscribe_all_ioPort d s3"
  have r: "release_all d s = Some ?s4" using 1(1) 2(1) 3(1) by (simp add: release_all_def Let_def)
  have io: "arr_repr (subscribedIoPorts (drvs ?s4 d)) []"
    using 3(2) by (simp add: unsubscribe_all_ioPort_def sys_ok_def drv_ok_def well_arr_clear)
  have g: "gives_up d ?s0 s3" using gives_up_trans[OF gives_up_trans[OF 1(3) 2(3)] 3(3)] .
  have "sys_ok ds ?s4" using 3(2) io by (auto simp: unsubscribe_all_ioPort_def sys_ok_def drv_ok_def well_arr_def)
  moreover have "same_but d s ?s4" using g by (simp add: gives_up_def same_but_def unsubscribe_all_ioPort_def)
  moreover have "holds_nothing (drvs ?s4 d)"
  proof -
    have "\<forall>k < 256. bm256_get (subscribedInterrupts (drvs s2 d)) k = Some False"
      using holds_none_sub[OF 1(4)] 2(3) unfolding gives_up_def by blast
    moreover have "arr_repr (subscribedMemory (drvs s3 d)) []" using m0 g by (simp add: gives_up_def)
    ultimately show ?thesis
      using 2(4) 3(4,5,6) io by (simp add: holds_nothing_def unsubscribe_all_ioPort_def)
  qed
  ultimately show ?thesis using r by blast
qed

section \<open>Starting and stopping\<close>

lemma set_dstate_sel [simp]:
  "driverItems (set_dstate d st s) = driverItems s" "driverList (set_dstate d st s) = driverList s"
  "drvs (set_dstate d st s) = (drvs s)(d := (drvs s d)\<lparr>dstate := st\<rparr>)" "irqs (set_dstate d st s) = irqs s"
  "drvInterrupts (set_dstate d st s) = drvInterrupts s" "refstate (set_dstate d st s) = refstate s"
  "told (set_dstate d st s) = told s"
  by (simp_all add: set_dstate_def)

lemma set_dstate_ok [simp]: "sys_ok ds (set_dstate d st s) = sys_ok ds s"
  by (auto simp: sys_ok_def drv_ok_def)

lemma notify_sel [simp]:
  "driverItems (notify e s) = driverItems s" "driverList (notify e s) = driverList s" "drvs (notify e s) = drvs s"
  "irqs (notify e s) = irqs s" "drvInterrupts (notify e s) = drvInterrupts s" "refstate (notify e s) = refstate s"
  "told (notify e s) = told s @ [e]"
  by (simp_all add: notify_def)

lemma notify_ok [simp]: "sys_ok ds (notify e s) = sys_ok ds s"
  by (simp add: sys_ok_def)

lemma api_start_failed:
  assumes "on_start hk d s = Some (Inl e, s1)" and "sys_ok ds s1" and "\<not> is_active d s"
  shows "\<exists>s'. api_start hk d s = Some (Inl e, s') \<and> sys_ok ds s' \<and> same_but d (set_dstate d failed s1) s' \<and>
    dstate (drvs s' d) = failed \<and> holds_nothing (drvs s' d)"
proof -
  have "sys_ok ds (set_dstate d failed s1)" using assms(2) by simp
  from release_all_effect[OF this] obtain s' where
    "release_all d (set_dstate d failed s1) = Some s'" "sys_ok ds s'" "same_but d (set_dstate d failed s1) s'"
    "holds_nothing (drvs s' d)" by blast
  with assms(1,3) show ?thesis by (auto simp: api_start_def same_but_def)
qed

text \<open>What every particular driver keeps when it starts: the lists stay well formed, and no driver changes its type
  or its start-up mode.\<close>

definition same_kind :: "sys \<Rightarrow> sys \<Rightarrow> bool" where
  "same_kind s s' \<longleftrightarrow> (\<forall>e. dtypes (drvs s' e) = dtypes (drvs s e) \<and> startup (drvs s' e) = startup (drvs s e))"

definition starts_ok :: "nat list \<Rightarrow> hooks \<Rightarrow> bool" where
  "starts_ok ds hk \<longleftrightarrow> (\<forall>d s. sys_ok ds s \<longrightarrow> (\<exists>r s'. on_start hk d s = Some (r, s') \<and> sys_ok ds s' \<and> same_kind s s'))"

lemma starts_okD: "starts_ok ds hk \<Longrightarrow> sys_ok ds s \<Longrightarrow> \<exists>r s'. on_start hk d s = Some (r, s') \<and> sys_ok ds s' \<and> same_kind s s'"
  unfolding starts_ok_def by blast

lemma same_kind_trans: "same_kind s t \<Longrightarrow> same_kind t u \<Longrightarrow> same_kind s u"
  by (simp add: same_kind_def)

lemma same_but_kind: "same_but d (set_dstate d st s) s' \<Longrightarrow> same_kind s s'"
  unfolding same_but_def same_kind_def
  by (metis (no_types, lifting) drv.select_convs(1,2) drv.surjective drv.update_convs(3) fun_upd_apply set_dstate_sel(3))

lemma start_driver_outcome:
  assumes "sys_ok ds s" and "starts_ok ds hk"
  shows "\<exists>r s'. start_driver hk d s = Some (r, s') \<and> sys_ok ds s' \<and> same_kind s s' \<and> (isl r \<longleftrightarrow> \<not> is_active d s')"
proof (cases "is_active d s")
  case True
  with assms(1) show ?thesis by (auto simp: start_driver_def same_kind_def)
next
  case False
  obtain r s1 where h: "on_start hk d s = Some (r, s1)" "sys_ok ds s1" "same_kind s s1"
    using starts_okD[OF assms(2,1)] by blast
  show ?thesis
  proof (cases r)
    case (Inl e)
    from api_start_failed[OF h(1)[unfolded Inl] h(2) False] obtain s' where s':
      "api_start hk d s = Some (Inl e, s')" "sys_ok ds s'" "same_but d (set_dstate d failed s1) s'" "dstate (drvs s' d) = failed"
      by blast
    have "same_kind s s'" using same_kind_trans[OF h(3) same_but_kind[OF s'(3)]] .
    moreover have "start_driver hk d s = Some (Inl e, s')"
      using s'(1,4) False by (simp add: start_driver_def is_active_def)
    moreover have "\<not> is_active d s'" using s'(4) by (simp add: is_active_def)
    ultimately show ?thesis using s'(2) by (metis sum.disc(1))
  next
    case (Inr x)
    let ?s = "notify (driverStarted d) (set_dstate d active s1)"
    have "same_kind s ?s" using h(3) by (simp add: same_kind_def)
    moreover have "start_driver hk d s = Some (Inr (), ?s)"
      using h(1) Inr False by (simp add: start_driver_def api_start_def is_active_def)
    moreover have "sys_ok ds ?s" "is_active d ?s" using h(2) by (simp_all add: is_active_def)
    ultimately show ?thesis by (metis sum.disc(2))
  qed
qed

section \<open>Finding\<close>

lemma find_from_linked:
  "linked (driverItems s) pv xs None \<Longrightarrow> find_from s typeId (first_or xs None) = Some (find (\<lambda>d. is_type d typeId s) xs)"
proof (induction xs arbitrary: pv)
  case Nil
  then show ?case by (subst find_from.simps) simp
next
  case (Cons x xs)
  then show ?case by (subst find_from.simps) auto
qed

lemma find_first_repr: "sys_ok ds s \<Longrightarrow> find_first typeId s = Some (find (\<lambda>d. is_type d typeId s) ds)"
  using find_from_linked[of s None ds typeId] by (auto simp: sys_ok_def repr_def find_first_def)

lemma find_next_repr:
  assumes "sys_ok (as @ d # bs) s"
  shows "find_next d typeId s = Some (find (\<lambda>e. is_type e typeId s) bs)"
  using find_from_linked[of s "Some d" bs typeId] assms by (auto simp: sys_ok_def repr_def find_next_def)

lemma search_drivers_repr:
  assumes "sys_ok (as @ xs) s" and "\<And>d. d \<in> set xs \<Longrightarrow> test d = Some (P d)"
  shows "search_drivers test (\<lambda>d. find_next d typeId s) (find (\<lambda>d. is_type d typeId s) xs) =
    Some (find (\<lambda>d. is_type d typeId s \<and> P d) xs)"
  using assms
proof (induction xs arbitrary: as)
  case Nil
  show ?case by (subst search_drivers.simps) simp
next
  case (Cons x xs)
  have IH: "search_drivers test (\<lambda>d. find_next d typeId s) (find (\<lambda>d. is_type d typeId s) xs) =
      Some (find (\<lambda>d. is_type d typeId s \<and> P d) xs)"
    by (rule Cons.IH[of "as @ [x]"]) (use Cons.prems in simp_all)
  show ?case
  proof (cases "is_type x typeId s")
    case True
    with IH Cons.prems(2)[of x] find_next_repr[OF Cons.prems(1)] show ?thesis
      by (subst search_drivers.simps) simp
  next
    case False
    with IH show ?thesis by simp
  qed
qed

lemma search_all_repr:
  assumes "sys_ok ds s" and "\<And>d. d \<in> set ds \<Longrightarrow> test d = Some (P d)"
  shows "search_all test typeId s = Some (find (\<lambda>d. is_type d typeId s \<and> P d) ds)"
  using search_drivers_repr[of "[]" ds s test P typeId] assms find_first_repr[OF assms(1)]
  by (simp add: search_all_def)

lemma find_active_repr: "sys_ok ds s \<Longrightarrow> find_active typeId s = Some (find (\<lambda>d. is_type d typeId s \<and> is_active d s) ds)"
  unfolding find_active_def by (rule search_all_repr) simp_all

lemma same_kind_type: "same_kind s s' \<Longrightarrow> is_type d t s' = is_type d t s" "same_kind s s' \<Longrightarrow> is_enabled d s' = is_enabled d s"
  by (simp_all add: same_kind_def is_type_def is_enabled_def)

text \<open>The candidates are tried in order, each at most once.\<close>

lemma activate_from_repr:
  assumes "sys_ok (as @ xs) s" and "starts_ok (as @ xs) hk"
  shows "\<exists>r s'. activate_from hk typeId (find (\<lambda>d. is_type d typeId s) xs) s = Some (r, s') \<and> sys_ok (as @ xs) s' \<and> same_kind s s' \<and>
    (case r of
       Some d \<Rightarrow> d \<in> set xs \<and> is_type d typeId s \<and> is_enabled d s \<and> is_active d s'
     | None \<Rightarrow> \<forall>d \<in> set xs. is_type d typeId s \<and> is_enabled d s \<longrightarrow> (\<exists>u e u'. start_driver hk d u = Some (Inl e, u')))"
  using assms
proof (induction xs arbitrary: as s)
  case Nil
  then show ?case by (subst activate_from.simps) (simp add: same_kind_def)
next
  case (Cons x xs)
  have IH: "\<exists>r s'. activate_from hk typeId (find (\<lambda>d. is_type d typeId u) xs) u = Some (r, s') \<and> sys_ok (as @ x # xs) s' \<and> same_kind u s' \<and>
    (case r of
       Some d \<Rightarrow> d \<in> set xs \<and> is_type d typeId u \<and> is_enabled d u \<and> is_active d s'
     | None \<Rightarrow> \<forall>d \<in> set xs. is_type d typeId u \<and> is_enabled d u \<longrightarrow> (\<exists>u e u'. start_driver hk d u = Some (Inl e, u')))"
    if "sys_ok (as @ x # xs) u" for u
    using Cons.IH[of "as @ [x]" u] Cons.prems(2) that by simp
  show ?case
  proof (cases "is_type x typeId s \<and> is_enabled x s")
    case True
    obtain r u where u: "start_driver hk x s = Some (r, u)" "sys_ok (as @ x # xs) u" "same_kind s u" "isl r \<longleftrightarrow> \<not> is_active x u"
      using start_driver_outcome[OF Cons.prems] by blast
    show ?thesis
    proof (cases "isl r")
      case False
      with True u show ?thesis by (subst activate_from.simps) auto
    next
      case l: True
      then obtain e where e: "r = Inl e" by (auto simp: isl_def)
      have "activate_from hk typeId (find (\<lambda>d. is_type d typeId s) (x # xs)) s =
          activate_from hk typeId (find (\<lambda>d. is_type d typeId u) xs) u"
        using True u(1) l find_next_repr[OF u(2)] by (subst activate_from.simps) simp
      moreover note IH[OF u(2)]
      ultimately obtain q s' where q: "activate_from hk typeId (find (\<lambda>d. is_type d typeId s) (x # xs)) s = Some (q, s')"
        "sys_ok (as @ x # xs) s'" "same_kind u s'"
        "case q of
           Some d \<Rightarrow> d \<in> set xs \<and> is_type d typeId u \<and> is_enabled d u \<and> is_active d s'
         | None \<Rightarrow> \<forall>d \<in> set xs. is_type d typeId u \<and> is_enabled d u \<longrightarrow> (\<exists>u e u'. start_driver hk d u = Some (Inl e, u'))"
        by auto
      have "same_kind s s'" by (rule same_kind_trans[OF u(3) q(3)])
      moreover have "case q of
           Some d \<Rightarrow> d \<in> set (x # xs) \<and> is_type d typeId s \<and> is_enabled d s \<and> is_active d s'
         | None \<Rightarrow> \<forall>d \<in> set (x # xs). is_type d typeId s \<and> is_enabled d s \<longrightarrow> (\<exists>u e u'. start_driver hk d u = Some (Inl e, u'))"
        using q(4) u(1) e same_kind_type[OF u(3)] by (cases q) auto
      ultimately show ?thesis using q(1,2) by blast
    qed
  next
    case False
    have "activate_from hk typeId (find (\<lambda>d. is_type d typeId s) (x # xs)) s =
        activate_from hk typeId (find (\<lambda>d. is_type d typeId s) xs) s"
    proof (cases "is_type x typeId s")
      case True
      with False have "\<not> is_enabled x s" by simp
      with True find_next_repr[OF Cons.prems(1)] show ?thesis
        by (subst activate_from.simps) simp
    qed simp
    moreover note IH[OF Cons.prems(1)]
    ultimately obtain q s' where q: "activate_from hk typeId (find (\<lambda>d. is_type d typeId s) (x # xs)) s = Some (q, s')"
      "sys_ok (as @ x # xs) s'" "same_kind s s'"
      "case q of
         Some d \<Rightarrow> d \<in> set xs \<and> is_type d typeId s \<and> is_enabled d s \<and> is_active d s'
       | None \<Rightarrow> \<forall>d \<in> set xs. is_type d typeId s \<and> is_enabled d s \<longrightarrow> (\<exists>u e u'. start_driver hk d u = Some (Inl e, u'))"
      by auto
    have "case q of
         Some d \<Rightarrow> d \<in> set (x # xs) \<and> is_type d typeId s \<and> is_enabled d s \<and> is_active d s'
       | None \<Rightarrow> \<forall>d \<in> set (x # xs). is_type d typeId s \<and> is_enabled d s \<longrightarrow> (\<exists>u e u'. start_driver hk d u = Some (Inl e, u'))"
      using q(4) False by (cases q) auto
    with q show ?thesis by blast
  qed
qed

section \<open>Properties\<close>


text \<open>C16. \<^verbatim>\<open>find_and_activate\<close> answers the first active driver of the type, changing nothing, when there is one; else it tries the
  enabled drivers of the type in their order, and what it answers is one of them and active. It always returns, and
  answers null only when each enabled driver of the type has failed to start.\<close>

theorem find_and_activate_sound:
  assumes "sys_ok ds s" and "starts_ok ds hk"
  shows "\<exists>r s'. find_and_activate hk typeId s = Some (r, s') \<and> sys_ok ds s' \<and> same_kind s s' \<and>
    (case find (\<lambda>d. is_type d typeId s \<and> is_active d s) ds of
       Some d \<Rightarrow> r = Some d \<and> s' = s
     | None \<Rightarrow>
         (case r of
            Some d \<Rightarrow> d \<in> set ds \<and> is_type d typeId s \<and> is_enabled d s \<and> is_active d s'
          | None \<Rightarrow> \<forall>d \<in> set ds. is_type d typeId s \<and> is_enabled d s \<longrightarrow> (\<exists>u e u'. start_driver hk d u = Some (Inl e, u'))))"
proof (cases "find (\<lambda>d. is_type d typeId s \<and> is_active d s) ds")
  case (Some d)
  then show ?thesis
    using assms(1) by (simp add: find_and_activate_def find_active_repr[OF assms(1)] same_kind_def)
next
  case None
  have "sys_ok ([] @ ds) s" "starts_ok ([] @ ds) hk" using assms by simp_all
  from activate_from_repr[OF this, of typeId] None show ?thesis
    by (simp add: find_and_activate_def find_active_repr[OF assms(1)] find_first_repr[OF assms(1)])
qed

section \<open>Witnesses\<close>

definition plain_drv :: "drv_state \<Rightarrow> drv" where
  "plain_drv st = \<lparr>dtypes = [5, module_type], startup = onDemand, dstate = st, subscribedIrqs = \<lambda>_. 0,
    subscribedInterrupts = \<lambda>_. 0, subscribedMemory = new_array 1, subscribedPciDevices = new_array 1, subscribedIoPorts = new_array 1\<rparr>"

definition plain_sys :: "drv_state \<Rightarrow> sys" where
  "plain_sys st =
     (case push_back 9 (\<lparr>nextp = \<lambda>_. None, prevp = \<lambda>_. None\<rparr>, empty_llist) of
        (h, l) \<Rightarrow> \<lparr>driverItems = h, driverList = l, drvs = \<lambda>_. plain_drv st, irqs = line_table, drvInterrupts = \<lambda>_. None,
          refstate = ref_step (New 1 (Some 9) (100, 0)) no_refs, pciCommand = \<lambda>_. 0, told = [], onDriverIrq = 77\<rparr>)"

definition plain_hooks :: hooks where
  "plain_hooks = \<lparr>on_start = (\<lambda>d s. Some (Inr (), s)), on_stop = (\<lambda>d s. Some (Inr (), s)), can_stop = (\<lambda>_. True),
    can_restart = (\<lambda>_. True), available_irq = (\<lambda>d m s. Some (Inl ''none'', s)), told_gone = (\<lambda>cb r. Some r)\<rparr>"

lemma well_arr_new: "well_arr (new_array 1)"
  using new_array_repr by (auto simp: well_arr_def)

lemma plain_sys_ok: "sys_ok [9] (plain_sys st)"
proof -
  have "repr (push_back 9 (\<lparr>nextp = \<lambda>_. None, prevp = \<lambda>_. None\<rparr>, empty_llist)) ([] @ [9 :: nat])"
    by (rule push_back_repr) (simp_all add: repr_empty)
  moreover have "irqs_ok line_table"
    using two_subs_repr by (auto simp: irqs_ok_def line_table_def well_arr_def)
  ultimately show ?thesis
    by (auto simp: sys_ok_def plain_sys_def drv_ok_def plain_drv_def well_arr_new[unfolded One_nat_def] split: prod.splits)
qed

lemma plain_sys_sel:
  "drvs (plain_sys st) = (\<lambda>_. plain_drv st)" "refstate (plain_sys st) = ref_step (New 1 (Some 9) (100, 0)) no_refs" "told (plain_sys st) = []"
  by (simp_all add: plain_sys_def split: prod.splits)

lemma plain_refs: "ref_reach {1} (ref_step (New 1 (Some 9) (100, 0)) no_refs)"
  using ref_reach.step[OF ref_reach.start[of no_refs], of "New 1 (Some 9) (100, 0)"] by (simp add: no_refs_def)


theorem find_and_activate_sound_witness:
  "\<exists>s'. find_and_activate plain_hooks 5 (plain_sys active) = Some (Some 9, s') \<and> s' = plain_sys active"
proof -
  have "starts_ok [9] plain_hooks" by (simp add: starts_ok_def plain_hooks_def same_kind_def)
  from find_and_activate_sound[OF plain_sys_ok this, of 5 active] show ?thesis
    by (simp add: is_type_def is_active_def plain_sys_sel plain_drv_def)
qed

end
