(* ===== verification/Timers.thy ===== *)
theory Timers
  imports Arrays Bits
begin

text \<open>
  Timers: the callback queue of \<^verbatim>\<open>drivers/Timer.inl\<close> (\<^verbatim>\<open>TimerQueue\<close>), the claiming of hardware timers, and the clock and
  comparators of \<^verbatim>\<open>drivers/x86/timer/Hpet.cpp\<close> that the queue drives. Times are 64-bit words. A callback is its
  address with its data; what calling it does to the queue is the parameter \<open>call\<close>.
\<close>

section \<open>The clock\<close>

text \<open>\<open>counter\<close> is the main counter register; the callback of a comparator is an address with its data.\<close>

record hpet =
  is64bit :: bool
  clockCount :: nat
  clockPeriod :: u32
  counter :: u64
  comparator :: "nat \<Rightarrow> u64"
  clockCallback :: "nat \<Rightarrow> nat \<times> nat"
  irqEnabled :: "nat \<Rightarrow> bool"

definition low32 :: "u64 \<Rightarrow> u64" where
  "low32 w = ucast (ucast w :: u32)"

definition now :: "hpet \<Rightarrow> u32" where
  "now h = ucast ((low32 (counter h) * ucast (clockPeriod h)) div 1000000000)"

definition now64 :: "hpet \<Rightarrow> u64" where
  "now64 h =
     (if is64bit h then
        (let ticks = counter h in
         ticks div 1000000000 * ucast (clockPeriod h) + ticks mod 1000000000 * ucast (clockPeriod h) div 1000000000)
      else low32 (counter h) * ucast (clockPeriod h) div 1000000000)"

text \<open>On a 32-bit clock only the low half of the comparator is written.\<close>

definition set_timer :: "nat \<Rightarrow> u32 \<Rightarrow> nat \<times> nat \<Rightarrow> hpet \<Rightarrow> hpet" where
  "set_timer index usecs cb h =
     (if index \<ge> clockCount h then h
      else
        (let h = h\<lparr>clockCallback := (clockCallback h)(index := cb)\<rparr>;
             time = now64 h + ucast (max 1 usecs);
             h = (if is64bit h then h\<lparr>comparator := (comparator h)(index := time)\<rparr>
                  else h\<lparr>comparator := (comparator h)(index := (comparator h index AND NOT 0xffffffff) OR low32 time)\<rparr>)
         in h\<lparr>irqEnabled := (irqEnabled h)(index := True)\<rparr>))"

definition stop_timer :: "nat \<Rightarrow> hpet \<Rightarrow> hpet" where
  "stop_timer index h = (if index \<ge> clockCount h then h else h\<lparr>irqEnabled := (irqEnabled h)(index := False)\<rparr>)"

text \<open>\<^verbatim>\<open>_on_irq\<close>: the callback made, if any. \<open>pending\<close> is the interrupt status register, read as an \<^verbatim>\<open>int\<close> mask.\<close>

definition hpet_on_irq :: "(nat \<Rightarrow> nat) \<Rightarrow> u32 \<Rightarrow> nat \<Rightarrow> hpet \<Rightarrow> (nat \<times> nat) option option" where
  "hpet_on_irq irqToClockId pending irq h =
     (let clockId = irqToClockId irq in
      if clockId \<ge> clockCount h then Some None
      else (case shl32 clockId of
              None \<Rightarrow> None
            | Some b \<Rightarrow> if pending AND b = 0 then Some None else Some (Some (clockCallback h clockId))))"

section \<open>Claiming a timer\<close>

text \<open>The test \<^verbatim>\<open>id==~0\<close> compares a byte with -1 and never holds.\<close>

definition claim_timer :: "mask256 \<Rightarrow> (nat attempt \<times> mask256) option" where
  "claim_timer timersInUse =
     (case bm256_first_false timersInUse of
        None \<Rightarrow> None
      | Some i \<Rightarrow>
          (if int i = - 1 then Some (Inl ''No timers available'', timersInUse)
           else map_option (\<lambda>m. (Inr i, m)) (bm256_set i True timersInUse)))"

definition release_timer :: "nat \<Rightarrow> mask256 \<Rightarrow> mask256 option" where
  "release_timer i timersInUse = bm256_set i False timersInUse"

section \<open>The queue\<close>

record scheduled =
  stime :: u64
  scallback :: nat
  sid :: u32
  sdata :: nat

text \<open>The flag of the operations says which of the two queues they work on; \<open>onSchedule\<close> is the address of
  \<^verbatim>\<open>_on_schedule_timer\<close> with the queue's own address as its data.\<close>

record timer_queue =
  nextTimerId :: u32
  scheduledCallbacks :: "scheduled arr"
  scheduledImportantCallbacks :: "scheduled arr"
  nextScheduledTime :: u64
  clockhw :: hpet
  onSchedule :: "nat \<times> nat"

definition queue_of :: "bool \<Rightarrow> timer_queue \<Rightarrow> scheduled arr" where
  "queue_of important q = (if important then scheduledImportantCallbacks q else scheduledCallbacks q)"

definition set_queue :: "bool \<Rightarrow> scheduled arr \<Rightarrow> timer_queue \<Rightarrow> timer_queue" where
  "set_queue important a q = (if important then q\<lparr>scheduledImportantCallbacks := a\<rparr> else q\<lparr>scheduledCallbacks := a\<rparr>)"

text \<open>\<^verbatim>\<open>0xffffffff<<2\<close>, an \<^verbatim>\<open>unsigned int\<close>: its two top bits are gone.\<close>

definition window :: u64 where
  "window = ucast (push_bit 2 0xffffffff :: u32)"

text \<open>\<^verbatim>\<open>timer.set_timer(0, _nextScheduledTime = t, ...)\<close>: the time is cut to 32 bits.\<close>

definition arm :: "u64 \<Rightarrow> timer_queue \<Rightarrow> timer_queue" where
  "arm t q = q\<lparr>nextScheduledTime := t, clockhw := set_timer 0 (ucast t) (onSchedule q) (clockhw q)\<rparr>"

text \<open>The loop that looks for the first entry to insert before; \<open>n\<close> entries are left.\<close>

fun find_slot :: "nat \<Rightarrow> nat \<Rightarrow> u64 \<Rightarrow> scheduled arr \<Rightarrow> nat option option" where
  "find_slot 0 i time a = Some None"
| "find_slot (Suc n) i time a =
     (case arr_at a i of
        None \<Rightarrow> None
      | Some e \<Rightarrow>
          (if stime e = 0 then find_slot n (i + 1) time a
           else if time - stime e > window then Some (Some i)
           else find_slot n (i + 1) time a))"

text \<open>Arming for a new first entry: for it or for the first entry of the other queue, whichever is due first.\<close>

definition arm_first :: "bool \<Rightarrow> u64 \<Rightarrow> timer_queue \<Rightarrow> timer_queue option" where
  "arm_first important time q =
     (let other = queue_of (\<not> important) q in
      if alen other > 0 then
        (case arr_at other 0 of
           None \<Rightarrow> None
         | Some x \<Rightarrow> Some (if stime x > 0 then arm (min time (stime x)) q else arm time q))
      else Some (arm time q))"

definition schedule :: "bool \<Rightarrow> u32 \<Rightarrow> nat \<Rightarrow> nat \<Rightarrow> timer_queue \<Rightarrow> (u32 \<times> timer_queue) option" where
  "schedule important usecs callback data q =
     (let time = now64 (clockhw q) + ucast usecs;
          a = queue_of important q;
          e = \<lparr>stime = time, scallback = callback, sid = nextTimerId q, sdata = data\<rparr>
      in case find_slot (alen a) 0 time a of
           None \<Rightarrow> None
         | Some None \<Rightarrow>
             map_option (\<lambda>a. (nextTimerId q, (set_queue important a q)\<lparr>nextTimerId := nextTimerId q + 1\<rparr>)) (pod_push_back e a)
         | Some (Some i) \<Rightarrow>
             (case pod_insert i e a of
                None \<Rightarrow> None
              | Some a \<Rightarrow>
                  (let q' = set_queue important a q in
                   case (if i = 0 then arm_first important time q' else Some q') of
                     None \<Rightarrow> None
                   | Some q' \<Rightarrow> Some (nextTimerId q, q'\<lparr>nextTimerId := nextTimerId q + 1\<rparr>))))"

text \<open>\<^verbatim>\<open>_on_schedule_timer\<close>: the entries that are due are counted and get time 0, then called, then shifted out.\<close>

fun mark_due :: "nat \<Rightarrow> nat \<Rightarrow> u64 \<Rightarrow> scheduled arr \<Rightarrow> (nat \<times> scheduled arr) option" where
  "mark_due 0 i time a = Some (i, a)"
| "mark_due (Suc n) i time a =
     (case arr_at a i of
        None \<Rightarrow> None
      | Some e \<Rightarrow>
          (if stime e + - time > window then
             (case write_cell i (e\<lparr>stime := 0\<rparr>) (cells a) of
                None \<Rightarrow> None
              | Some cs \<Rightarrow> mark_due n (i + 1) time (a\<lparr>cells := cs\<rparr>))
           else Some (i, a)))"

fun call_due :: "(nat \<Rightarrow> nat \<Rightarrow> u32 \<Rightarrow> timer_queue \<Rightarrow> timer_queue option) \<Rightarrow> bool \<Rightarrow> nat \<Rightarrow> nat \<Rightarrow> timer_queue \<Rightarrow> timer_queue option" where
  "call_due call important 0 i q = Some q"
| "call_due call important (Suc n) i q =
     (case arr_at (queue_of important q) i of
        None \<Rightarrow> None
      | Some e \<Rightarrow>
          (case call (scallback e) (sdata e) (sid e) q of
             None \<Rightarrow> None
           | Some q \<Rightarrow> call_due call important n (i + 1) q))"

definition run_due :: "(nat \<Rightarrow> nat \<Rightarrow> u32 \<Rightarrow> timer_queue \<Rightarrow> timer_queue option) \<Rightarrow> bool \<Rightarrow> u64 \<Rightarrow> timer_queue \<Rightarrow> timer_queue option" where
  "run_due call important time q =
     (let a = queue_of important q in
      case mark_due (alen a) 0 time a of
        None \<Rightarrow> None
      | Some (n, a) \<Rightarrow>
          (case call_due call important n 0 (set_queue important a q) of
             None \<Rightarrow> None
           | Some q \<Rightarrow> map_option (\<lambda>a. set_queue important a q) (pod_shift_left n (queue_of important q))))"

definition rearm :: "timer_queue \<Rightarrow> timer_queue option" where
  "rearm q =
     (let a = scheduledCallbacks q; b = scheduledImportantCallbacks q in
      if alen a > 0 then
        (if alen b > 0 then
           (case (arr_at a 0, arr_at b 0) of
              (Some x, Some y) \<Rightarrow> Some (arm (min (stime x) (stime y)) q)
            | _ \<Rightarrow> None)
         else map_option (\<lambda>x. arm (stime x) q) (arr_at a 0))
      else if alen b > 0 then map_option (\<lambda>y. arm (stime y) q) (arr_at b 0)
      else Some q)"

definition on_schedule_timer :: "(nat \<Rightarrow> nat \<Rightarrow> u32 \<Rightarrow> timer_queue \<Rightarrow> timer_queue option) \<Rightarrow> timer_queue \<Rightarrow> timer_queue option" where
  "on_schedule_timer call q =
     (let time = nextScheduledTime q in
      case run_due call True time q of
        None \<Rightarrow> None
      | Some q \<Rightarrow> (case run_due call False time q of None \<Rightarrow> None | Some q \<Rightarrow> rearm q))"

section \<open>The clock counts microseconds\<close>

lemma div_mult_split:
  fixes a p m :: nat
  assumes "0 < m"
  shows "a * p div m = a div m * p + a mod m * p div m"
proof -
  have "a * p = (a div m * m + a mod m) * p" by simp
  also have "\<dots> = a mod m * p + (a div m * p) * m" by (simp only: algebra_simps)
  finally have "a * p div m = (a mod m * p + (a div m * p) * m) div m" by simp
  also have "\<dots> = a div m * p + a mod m * p div m" using assms by simp
  finally show ?thesis .
qed

text \<open>The 64-bit clock is read without overflow in the intermediate products.\<close>

lemma unat_split_mult:
  fixes t :: u64 and p :: u32
  shows "unat (t div 1000000000 * ucast p + t mod 1000000000 * ucast p div 1000000000) = unat t * unat p div 1000000000 mod 2 ^ 64"
proof -
  let ?m = "1000000000 :: nat"
  have d: "unat (t div 1000000000) = unat t div ?m" "unat (t mod 1000000000) = unat t mod ?m"
    by (simp_all add: unat_div unat_mod)
  have l: "unat p < 2 ^ 32" using unsigned_less[of p] by simp
  then have p: "unat (ucast p :: u64) = unat p" by (simp add: unsigned_ucast_eq take_bit_nat_eq_self)
  note l
  moreover have "unat t mod ?m < ?m" by simp
  ultimately have s: "unat t mod ?m * unat p < 2 ^ 64"
    by (intro less_trans[OF mult_strict_mono'[of "unat t mod ?m" ?m "unat p" "2 ^ 32"]]) simp_all
  have r: "unat (t mod 1000000000 * ucast p div 1000000000) = unat t mod ?m * unat p div ?m"
    using s by (simp add: unat_div unat_word_ariths d p)
  have e: "unat t * unat p div ?m = unat t div ?m * unat p + unat t mod ?m * unat p div ?m"
    by (rule div_mult_split) simp
  have "unat (t div 1000000000 * ucast p) = unat t div ?m * unat p mod 2 ^ 64"
    using mod_mult_left_eq[of "unat t div ?m" "2 ^ 64" "unat p"] by (simp add: unat_word_ariths d p)
  then show ?thesis unfolding unat_word_ariths(1)[where 'a = 64] r e by (simp add: mod_simps)
qed

lemma now64_exact:
  "unat (now64 h) = unat (if is64bit h then counter h else low32 (counter h)) * unat (clockPeriod h) div 1000000000 mod 2 ^ 64"
proof (cases "is64bit h")
  case True
  then show ?thesis using unat_split_mult[of "counter h" "clockPeriod h"] by (simp add: now64_def Let_def)
next
  case False
  have l: "unat (clockPeriod h) < 2 ^ 32" using unsigned_less[of "clockPeriod h"] by simp
  then have p: "unat (ucast (clockPeriod h) :: u64) = unat (clockPeriod h)"
    by (simp add: unsigned_ucast_eq take_bit_nat_eq_self)
  have c: "unat (low32 (counter h)) < 2 ^ 32"
    using take_bit_nat_less_exp[of 32 "unat (counter h)"] by (simp add: low32_def unsigned_ucast_eq unsigned_take_bit_eq)
  have "unat (low32 (counter h)) * unat (clockPeriod h) < 2 ^ 32 * 2 ^ 32"
    by (rule mult_strict_mono') (use l c in simp_all)
  then have "unat (low32 (counter h) * ucast (clockPeriod h)) = unat (low32 (counter h)) * unat (clockPeriod h)"
    by (simp add: unat_word_ariths p)
  moreover have "unat (low32 (counter h)) * unat (clockPeriod h) div 1000000000 < 2 ^ 64"
    using \<open>unat (low32 (counter h)) * unat (clockPeriod h) < 2 ^ 32 * 2 ^ 32\<close>
    by (intro le_less_trans[OF div_le_dividend]) simp
  ultimately show ?thesis using False by (simp add: now64_def unat_div)
qed

section \<open>The queues\<close>

lemma queue_sel [simp]:
  "queue_of i (set_queue i a q) = a" "queue_of (\<not> i) (set_queue i a q) = queue_of (\<not> i) q"
  "queue_of i (arm t q) = queue_of i q" "queue_of i (q\<lparr>nextTimerId := k\<rparr>) = queue_of i q"
  "clockhw (set_queue i a q) = clockhw q" "nextScheduledTime (set_queue i a q) = nextScheduledTime q"
  "nextTimerId (set_queue i a q) = nextTimerId q" "onSchedule (set_queue i a q) = onSchedule q"
  "nextScheduledTime (arm t q) = t" "clockhw (arm t q) = set_timer 0 (ucast t) (onSchedule q) (clockhw q)"
  "nextTimerId (arm t q) = nextTimerId q"
  by (simp_all add: queue_of_def set_queue_def arm_def)

lemma set_queue_self [simp]: "set_queue i (queue_of i q) q = q"
  by (simp add: queue_of_def set_queue_def)

lemma find_slot_repr:
  assumes "arr_repr a xs"
  shows "i + n = length xs \<Longrightarrow> find_slot n i time a =
    Some (find (\<lambda>j. stime (xs ! j) \<noteq> 0 \<and> time - stime (xs ! j) > window) [i..<length xs])"
proof (induction n arbitrary: i)
  case (Suc n)
  then have i: "i < length xs" "[i..<length xs] = i # [i + 1..<length xs]" by (simp_all add: upt_conv_Cons)
  have "arr_at a i = Some (xs ! i)" by (rule pod.at_ok[OF assms i(1)])
  with Suc i show ?case by (simp del: upt_Suc)
qed simp

lemma find_index_while:
  "find (\<lambda>j. P (xs ! j)) [0..<length xs] =
    (if length (takeWhile (\<lambda>x. \<not> P x) xs) < length xs then Some (length (takeWhile (\<lambda>x. \<not> P x) xs)) else None)"
proof (cases "length (takeWhile (\<lambda>x. \<not> P x) xs) < length xs")
  case True
  let ?k = "length (takeWhile (\<lambda>x. \<not> P x) xs)"
  have "P (xs ! ?k)" using nth_length_takeWhile[OF True] by simp
  moreover have "\<not> P (xs ! j)" if "j < ?k" for j
    using that takeWhile_nth[of j "\<lambda>x. \<not> P x" xs] nth_mem[OF that] by (auto dest: set_takeWhileD)
  ultimately show ?thesis using True by (auto simp: find_Some_iff intro!: exI[of _ ?k])
next
  case False
  then have "takeWhile (\<lambda>x. \<not> P x) xs = xs"
    by (metis length_takeWhile_le le_antisym not_less takeWhile_eq_take take_all_iff)
  then have "\<forall>x \<in> set xs. \<not> P x" by (metis set_takeWhileD)
  with False show ?thesis by (auto simp: find_None_iff)
qed

text \<open>Times less than about 71 minutes apart compare as they should.\<close>

definition near :: "u64 \<Rightarrow> u64 \<Rightarrow> bool" where
  "near t x \<longleftrightarrow> 0 < x \<and> unat t \<le> unat x + 4294967292 \<and> unat x \<le> unat t + 4294967292"

lemma unat_window: "unat window = 4294967292"
  by (simp add: window_def push_bit_eq_mult unat_word_ariths)

lemma near_before: "near t x \<Longrightarrow> t - x > window \<longleftrightarrow> t < x"
  using unsigned_less[of x] unsigned_less[of t]
  by (auto simp: near_def word_less_nat_alt unat_window unat_sub_if')

text \<open>The place of a new entry in a queue.\<close>

definition insert_timed :: "scheduled \<Rightarrow> scheduled list \<Rightarrow> scheduled list" where
  "insert_timed e xs = takeWhile (\<lambda>x. stime x \<le> stime e) xs @ e # dropWhile (\<lambda>x. stime x \<le> stime e) xs"

lemma insert_timed_sorted: "sorted (map stime xs) \<Longrightarrow> sorted (map stime (insert_timed e xs))"
proof (induction xs)
  case (Cons x xs)
  show ?case
  proof (cases "stime x \<le> stime e")
    case True
    have "insert_timed e (x # xs) = x # insert_timed e xs" using True by (simp add: insert_timed_def)
    moreover have "set (insert_timed e xs) = insert e (set xs)"
      unfolding insert_timed_def by (metis list.simps(15) set_append takeWhile_dropWhile_id Un_insert_right)
    ultimately show ?thesis using Cons True by auto
  next
    case False
    with Cons.prems show ?thesis by (auto simp: insert_timed_def)
  qed
qed (simp add: insert_timed_def)

lemma take_while_cong_set: "(\<And>x. x \<in> set xs \<Longrightarrow> P x = Q x) \<Longrightarrow> takeWhile P xs = takeWhile Q xs \<and> dropWhile P xs = dropWhile Q xs"
  by (induction xs) auto

lemma slot_of_sorted:
  assumes "arr_repr a xs" and "\<And>x. x \<in> set xs \<Longrightarrow> near t (stime x)"
  shows "find_slot (alen a) 0 t a =
    Some (let k = length (takeWhile (\<lambda>x. stime x \<le> t) xs) in if k < length xs then Some k else None)"
proof -
  let ?P = "\<lambda>x. stime x \<noteq> 0 \<and> t - stime x > window"
  have "?P x \<longleftrightarrow> \<not> stime x \<le> t" if "x \<in> set xs" for x
    using near_before[OF assms(2)[OF that]] assms(2)[OF that] by (auto simp: near_def)
  then have "takeWhile (\<lambda>x. \<not> ?P x) xs = takeWhile (\<lambda>x. stime x \<le> t) xs"
    using take_while_cong_set[of xs "\<lambda>x. \<not> ?P x" "\<lambda>x. stime x \<le> t"] by auto
  moreover have "find_slot (alen a) 0 t a = Some (find (\<lambda>j. ?P (xs ! j)) [0..<length xs])"
    using find_slot_repr[OF assms(1), of 0 "length xs" t] arr_repr_len[OF assms(1)] by simp
  ultimately show ?thesis using find_index_while[of ?P xs] by (simp add: Let_def)
qed

text \<open>The timer is armed when the new entry becomes the first of a queue that was not empty, and only then.\<close>

definition armed_for :: "u64 \<Rightarrow> scheduled list \<Rightarrow> u64" where
  "armed_for t ys = (if ys \<noteq> [] \<and> stime (hd ys) > 0 then min t (stime (hd ys)) else t)"

lemma schedule_repr:
  assumes "arr_repr (queue_of i q) xs" and "arr_repr (queue_of (\<not> i) q) ys"
    and "allocated (queue_of i q) < max_elems" and "length xs < max_elems"
    and "t = now64 (clockhw q) + ucast usecs" and "\<And>x. x \<in> set xs \<Longrightarrow> near t (stime x)"
  shows "\<exists>q'. schedule i usecs cb data q = Some (nextTimerId q, q') \<and> nextTimerId q' = nextTimerId q + 1 \<and>
    arr_repr (queue_of i q') (insert_timed \<lparr>stime = t, scallback = cb, sid = nextTimerId q, sdata = data\<rparr> xs) \<and>
    queue_of (\<not> i) q' = queue_of (\<not> i) q \<and>
    (if xs \<noteq> [] \<and> t < stime (hd xs)
     then nextScheduledTime q' = armed_for t ys \<and> clockhw q' = set_timer 0 (ucast (armed_for t ys)) (onSchedule q) (clockhw q)
     else nextScheduledTime q' = nextScheduledTime q \<and> clockhw q' = clockhw q)"
proof -
  let ?e = "\<lparr>stime = t, scallback = cb, sid = nextTimerId q, sdata = data\<rparr>"
  let ?k = "length (takeWhile (\<lambda>x. stime x \<le> t) xs)"
  note slot = slot_of_sorted[OF assms(1,6)]
  show ?thesis
  proof (cases "?k < length xs")
    case False
    then have all: "takeWhile (\<lambda>x. stime x \<le> t) xs = xs"
      by (metis length_takeWhile_le le_antisym not_less takeWhile_eq_take take_all_iff)
    then have "dropWhile (\<lambda>x. stime x \<le> t) xs = []" by (metis append_self_conv takeWhile_dropWhile_id)
    with all have l: "insert_timed ?e xs = xs @ [?e]" by (simp add: insert_timed_def)
    have h: "\<not> (xs \<noteq> [] \<and> t < stime (hd xs))" using all by (cases xs) (auto split: if_splits)
    from pod.push_ok[OF assms(1,4), of ?e] obtain a where
      a: "pod_push_back ?e (queue_of i q) = Some a" "arr_repr a (xs @ [?e])" by blast
    let ?q = "(set_queue i a q)\<lparr>nextTimerId := nextTimerId q + 1\<rparr>"
    have "schedule i usecs cb data q = Some (nextTimerId q, ?q)"
      using slot False a(1) assms(5) by (simp add: schedule_def Let_def)
    moreover have "nextTimerId ?q = nextTimerId q + 1" "nextScheduledTime ?q = nextScheduledTime q" "clockhw ?q = clockhw q"
      by (simp_all add: set_queue_def)
    ultimately show ?thesis unfolding if_not_P[OF h] using a(2) l by simp
  next
    case True
    have l: "insert_timed ?e xs = take ?k xs @ ?e # drop ?k xs"
      unfolding insert_timed_def scheduled.select_convs
      by (rule arg_cong2[where f = "\<lambda>as bs. as @ ?e # bs", OF takeWhile_eq_take dropWhile_eq_drop])
    have ne: "xs \<noteq> []" using True by auto
    have h: "?k = 0 \<longleftrightarrow> t < stime (hd xs)" using ne by (cases xs) auto
    from pod_insert_repr[OF assms(1) less_imp_le[OF True] assms(3), of ?e] obtain a where
      a: "pod_insert ?k ?e (queue_of i q) = Some a" "arr_repr a (take ?k xs @ ?e # drop ?k xs)" by blast
    let ?q = "set_queue i a q"
    have o: "queue_of (\<not> i) ?q = queue_of (\<not> i) q" by simp
    define r where "r = (if ?k \<noteq> 0 then ?q else arm (armed_for t ys) ?q)\<lparr>nextTimerId := nextTimerId q + 1\<rparr>"
    have "alen (queue_of (\<not> i) q) = length ys" by (rule arr_repr_len[OF assms(2)])
    then have other: "arm_first i t ?q = Some (arm (armed_for t ys) ?q)"
      using pod.at_ok[OF assms(2), of 0] by (cases ys) (simp_all add: arm_first_def armed_for_def Let_def)
    have s: "schedule i usecs cb data q = Some (nextTimerId q, r)"
    proof (cases "?k = 0")
      case True
      with slot a(1) other \<open>?k < length xs\<close> show ?thesis
        unfolding schedule_def assms(5)[symmetric] r_def by (simp add: Let_def del: takeWhile_eq_Nil_iff)
    next
      case False
      with slot a(1) \<open>?k < length xs\<close> show ?thesis
        unfolding schedule_def assms(5)[symmetric] r_def by (simp add: Let_def del: takeWhile_eq_Nil_iff)
    qed
    have "queue_of i r = a" by (simp add: r_def)
    then have "arr_repr (queue_of i r) (insert_timed ?e xs)" using a(2) l by argo
    moreover have "nextTimerId r = nextTimerId q + 1" "queue_of (\<not> i) r = queue_of (\<not> i) q"
      by (simp_all add: r_def)
    moreover have "if xs \<noteq> [] \<and> t < stime (hd xs)
     then nextScheduledTime r = armed_for t ys \<and> clockhw r = set_timer 0 (ucast (armed_for t ys)) (onSchedule q) (clockhw q)
     else nextScheduledTime r = nextScheduledTime q \<and> clockhw r = clockhw q"
      using h ne by (simp add: r_def arm_def set_queue_def)
    ultimately show ?thesis using s by blast
  qed
qed

section \<open>Properties\<close>


lemma run_none_due:
  assumes "arr_repr (queue_of i q) xs" and "xs \<noteq> [] \<Longrightarrow> \<not> stime (hd xs) + - t > window"
  shows "\<exists>a. run_due call i t q = Some (set_queue i a q) \<and> arr_repr a xs"
proof -
  have "mark_due (alen (queue_of i q)) 0 t (queue_of i q) = Some (0, queue_of i q)"
  proof (cases xs)
    case Nil
    then show ?thesis using arr_repr_len[OF assms(1)] by simp
  next
    case (Cons x ys)
    then obtain n where "alen (queue_of i q) = Suc n" using arr_repr_len[OF assms(1)] by simp
    with Cons assms(2) pod.at_ok[OF assms(1), of 0] show ?thesis by simp
  qed
  with pod_shift_left_repr[OF assms(1), of 0] show ?thesis by (auto simp: run_due_def Let_def)
qed

lemma rearm_first:
  assumes "arr_repr (scheduledCallbacks q) ys" and "arr_repr (scheduledImportantCallbacks q) xs" and "xs \<noteq> [] \<or> ys \<noteq> []"
    and "stime (hd (if xs = [] then ys else if ys = [] then xs else if stime (hd xs) \<le> stime (hd ys) then xs else ys)) = t"
  shows "rearm q = Some (arm t q)"
proof -
  note l = arr_repr_len[OF assms(1)] arr_repr_len[OF assms(2)]
  have a: "arr_at (scheduledCallbacks q) 0 = Some (hd ys)" if "ys \<noteq> []"
    using pod.at_ok[OF assms(1), of 0] that by (simp add: hd_conv_nth)
  have b: "arr_at (scheduledImportantCallbacks q) 0 = Some (hd xs)" if "xs \<noteq> []"
    using pod.at_ok[OF assms(2), of 0] that by (simp add: hd_conv_nth)
  consider "xs = []" "ys \<noteq> []" | "xs \<noteq> []" "ys = []" | "xs \<noteq> []" "ys \<noteq> []" using assms(3) by blast
  then show ?thesis
  proof cases
    case 3
    then have "min (stime (hd ys)) (stime (hd xs)) = t" using assms(4) by (auto simp: min_def split: if_splits)
    with 3 a b l show ?thesis by (simp add: rearm_def Let_def)
  qed (use a b l assms(4) in \<open>simp_all add: rearm_def Let_def\<close>)
qed

text \<open>C19. The timer interrupt calls no callback: when the first entries of both queues are due at the time the timer was set
  for, or up to 4294967292 microseconds later, the handler finds none of them due - its test asks for a wrap-around
  of the difference, which a difference of 0 does not give - whatever the callbacks would do. It keeps both queues
  and sets the timer for the same first entry again.\<close>

theorem timer_never_fires:
  assumes "arr_repr (queue_of True q) xs" and "arr_repr (queue_of False q) ys"
    and "xs \<noteq> [] \<Longrightarrow> near (nextScheduledTime q) (stime (hd xs)) \<and> nextScheduledTime q \<le> stime (hd xs)"
    and "ys \<noteq> [] \<Longrightarrow> near (nextScheduledTime q) (stime (hd ys)) \<and> nextScheduledTime q \<le> stime (hd ys)"
    and "xs \<noteq> [] \<or> ys \<noteq> []" and "stime (hd (if xs = [] then ys else if ys = [] then xs else if stime (hd xs) \<le> stime (hd ys) then xs else ys)) = nextScheduledTime q"
  shows "\<exists>q'. on_schedule_timer call q = Some q' \<and> arr_repr (queue_of True q') xs \<and> arr_repr (queue_of False q') ys \<and>
    nextScheduledTime q' = nextScheduledTime q \<and>
    clockhw q' = set_timer 0 (ucast (nextScheduledTime q)) (onSchedule q) (clockhw q)"
proof -
  let ?t = "nextScheduledTime q"
  have nd: "\<not> x + - ?t > window" if "near ?t x \<and> ?t \<le> x" for x
  proof -
    have "unat (x - ?t) = unat x - unat ?t" using that by (simp add: unat_sub word_le_nat_alt)
    then have "unat (x - ?t) \<le> unat window" using that by (auto simp: near_def unat_window)
    then show ?thesis by (simp add: word_le_nat_alt not_less)
  qed
  obtain a where a: "run_due call True ?t q = Some (set_queue True a q)" "arr_repr a xs"
    using run_none_due[OF assms(1) nd[OF assms(3)], of call] by blast
  have "arr_repr (queue_of False (set_queue True a q)) ys" using assms(2) by (simp add: queue_of_def set_queue_def)
  then obtain b where b: "run_due call False ?t (set_queue True a q) = Some (set_queue False b (set_queue True a q))" "arr_repr b ys"
    using run_none_due[OF _ nd[OF assms(4)], of False "set_queue True a q" call] by blast
  let ?q = "set_queue False b (set_queue True a q)"
  have sel: "scheduledCallbacks ?q = b" "scheduledImportantCallbacks ?q = a" by (simp_all add: set_queue_def)
  have "rearm ?q = Some (arm ?t ?q)"
    by (rule rearm_first[of ?q ys xs]) (use sel a(2) b(2) assms(5,6) in simp_all)
  then have "on_schedule_timer call q = Some (arm ?t ?q)"
    unfolding on_schedule_timer_def Let_def a(1) by (simp add: b(1))
  moreover have "queue_of True (arm ?t ?q) = a" "queue_of False (arm ?t ?q) = b"
    by (simp_all add: queue_of_def set_queue_def arm_def)
  moreover have "nextScheduledTime (arm ?t ?q) = ?t" "clockhw (arm ?t ?q) = set_timer 0 (ucast ?t) (onSchedule q) (clockhw q)"
    by simp_all
  ultimately show ?thesis using a(2) b(2) by metis
qed

section \<open>Claiming\<close>

text \<open>While one of the first 31 timers is free, claiming takes the lowest free one.\<close>

lemma claim_lowest:
  assumes "n < 31" and "\<not> bit (m 0) n" and "\<And>j. j < n \<Longrightarrow> bit (m 0) j"
  shows "\<exists>m'. claim_timer m = Some (Inr n, m') \<and> (\<forall>k. bm256_get m' k = (if k = n then Some True else bm256_get m k))"
proof -
  have t: "map_option (\<lambda>b. \<not> m (i div 64) AND b \<noteq> 0) (int_shl64 (i mod 64)) = map_option Not (map_option (\<lambda>b. m 0 AND b \<noteq> 0) (int_shl64 i))"
    if "i < 64" for i
    using that by (simp add: option.map_comp comp_def)
  have "bm256_first_false m = Some n"
    unfolding bm256_first_false_def
  proof (intro scan_found)
    fix j assume "j < n"
    then have "j < 31" "bit (m 0) j" using assms by simp_all
    then show "map_option (\<lambda>b. \<not> m (j div 64) AND b \<noteq> 0) (int_shl64 (j mod 64)) = Some False"
      by (subst t) (simp_all add: test64)
  next
    show "map_option (\<lambda>b. \<not> m (n div 64) AND b \<noteq> 0) (int_shl64 (n mod 64)) = Some True"
      by (subst t) (use assms in \<open>simp_all add: test64\<close>)
  qed (use assms(1) in simp_all)
  with bm256_set_get[of n True m] show ?thesis by (auto simp: claim_timer_def)
qed

section \<open>Witnesses\<close>

definition one_entry :: scheduled where
  "one_entry = \<lparr>stime = 5000, scallback = 40, sid = 0, sdata = 1\<rparr>"

definition plain_clock :: hpet where
  "plain_clock = \<lparr>is64bit = True, clockCount = 3, clockPeriod = 69841279, counter = 0, comparator = \<lambda>_. 0,
    clockCallback = \<lambda>_. (0, 0), irqEnabled = \<lambda>_. False\<rparr>"

definition one_queue :: timer_queue where
  "one_queue = \<lparr>nextTimerId = 1, scheduledCallbacks = \<lparr>alen = 1, allocated = 4, cells = [Some one_entry, None, None, None]\<rparr>,
    scheduledImportantCallbacks = new_array 1, nextScheduledTime = 5000, clockhw = plain_clock, onSchedule = (8, 9)\<rparr>"

lemma one_queue_repr: "arr_repr (queue_of False one_queue) [one_entry]" "arr_repr (queue_of True one_queue) []"
proof -
  show "arr_repr (queue_of False one_queue) [one_entry]"
    by (rule arr_reprI[where rest = "[None, None, None]"]) (simp_all add: queue_of_def one_queue_def)
  show "arr_repr (queue_of True one_queue) []"
    by (rule arr_reprI[where rest = "[None]"]) (simp_all add: queue_of_def one_queue_def new_array_def fresh_def)
qed


theorem timer_never_fires_witness:
  "\<exists>q'. on_schedule_timer (\<lambda>cb data k q. None) one_queue = Some q' \<and> nextScheduledTime q' = 5000 \<and>
    arr_repr (queue_of False q') [one_entry]"
proof -
  have "near (nextScheduledTime one_queue) (stime one_entry)" "nextScheduledTime one_queue = stime one_entry"
    by (simp_all add: one_queue_def one_entry_def near_def)
  then have "\<exists>q'. on_schedule_timer (\<lambda>cb data k q. None) one_queue = Some q' \<and> arr_repr (queue_of True q') [] \<and>
      arr_repr (queue_of False q') [one_entry] \<and> nextScheduledTime q' = nextScheduledTime one_queue \<and>
      clockhw q' = set_timer 0 (ucast (nextScheduledTime one_queue)) (onSchedule one_queue) (clockhw one_queue)"
    by (intro timer_never_fires[OF one_queue_repr(2,1)]) simp_all
  moreover have "nextScheduledTime one_queue = 5000" by (simp add: one_queue_def)
  ultimately show ?thesis by auto
qed

end
