(* ===== verification/Keyboard.thy ===== *)
theory Keyboard
  imports Bits
begin

text \<open>
  The PS/2 keyboard: \<^verbatim>\<open>kernel/keyboard.hpp\<close> (positions, scancodes, layouts) and the byte protocol of
  \<^verbatim>\<open>drivers/x86/input/Ps2Keyboard.cpp\<close>. The state is the bit set of pressed keys (theory Bits), the bytes read and not
  yet decoded, the layout and the events sent so far; each event goes to the keyboard's own emitter and then to the
  one of all keyboards, which is one entry here. Logging is left out.
\<close>

section \<open>Scancodes\<close>

text \<open>Row in the upper three bits, column in the lower five.\<close>

definition positionToScancode :: "nat \<Rightarrow> nat \<Rightarrow> nat" where
  "positionToScancode row col = (push_bit 5 (row AND 7) OR (col AND 31)) mod 256"

definition scancodeToPosition :: "nat \<Rightarrow> nat \<times> nat" where
  "scancodeToPosition code = (drop_bit 5 code AND 7, code AND 31)"

text \<open>The rows of the UK layout, bottom row first; an empty name stands for \<^verbatim>\<open>EMPTY\<close> and \<^verbatim>\<open>EXTEND\<close> entries (no enumerator that
  anything uses).\<close>

definition uk_rows :: "string list list" where
  "uk_rows = [
    [[], [], [], [], [], ''leftControl'', ''leftSuper'', ''alt'', [], [], [], ''space'', [], [], [], [], ''altGr'',
     ''rightSuper'', ''contextMenu'', ''rightControl'', [], ''leftArrow'', ''downArrow'', ''rightArrow'', [],
     ''numpad0'', [], ''numpadDot'', []],
    [[], [], [], [], [], ''leftShift'', ''backslash'', ''letterZ'', ''letterX'', ''letterC'', ''letterV'',
     ''letterB'', ''letterN'', ''letterM'', ''comma'', ''dot'', ''slash'', [], [], ''rightShift'', [], [],
     ''upArrow'', [], [], ''numpad1'', ''numpad2'', ''numpad3'', ''numpadEnter''],
    [[], [], [], [], [], ''capslock'', [], ''letterA'', ''letterS'', ''letterD'', ''letterF'', ''letterG'',
     ''letterH'', ''letterJ'', ''letterK'', ''letterL'', ''semicolon'', ''apostrophe'', ''hash'', ''enter'', [], [],
     [], [], [], ''numpad4'', ''numpad5'', ''numpad6'', []],
    [[], [], [], [], [], ''tab'', [], ''letterQ'', ''letterW'', ''letterE'', ''letterR'', ''letterT'', ''letterY'',
     ''letterU'', ''letterI'', ''letterO'', ''letterP'', ''leftBracket'', ''rightBracket'', [], [], ''delete'',
     ''end'', ''pageDown'', [], ''numpad7'', ''numpad8'', ''numpad9'', ''numpadPlus''],
    [[], [], [], [], [], ''backTick'', ''number1'', ''number2'', ''number3'', ''number4'', ''number5'', ''number6'',
     ''number7'', ''number8'', ''number9'', ''number0'', ''hyphen'', ''equals'', [], ''backspace'', [], ''insert'',
     ''home'', ''pageUp'', [], ''numLock'', ''numpadDivide'', ''numpadMultiply'', ''numpadSubtract''],
    [[], [], [], [], [], ''escape'', ''f1'', ''f2'', ''f3'', ''f4'', [], ''f5'', ''f6'', ''f7'', ''f8'', [], ''f9'',
     ''f10'', ''f11'', ''f12'', [], ''printScreen'', ''pause'', ''scrollLock'', [], [], [], [], []],
    [[], [], [], [], [], [], ''f13'', ''f14'', ''f15'', ''f16'', [], ''f17'', ''f18'', ''f19'', ''f20'', [], ''f21'',
     ''f22'', ''f23'', ''f24'', [], [], [], [], [], [], [], [], []],
    [[]]]"

text \<open>The enumerators of \<^verbatim>\<open>ScancodeUk\<close>: each row starts at \<^verbatim>\<open>positionToScancode({row, 0})\<close> and counts up.\<close>

fun index_in :: "'a \<Rightarrow> 'a list \<Rightarrow> nat option" where
  "index_in k [] = None"
| "index_in k (x # xs) = (if x = k then Some 0 else map_option Suc (index_in k xs))"

fun scancode_from :: "nat \<Rightarrow> string list list \<Rightarrow> string \<Rightarrow> nat" where
  "scancode_from r [] k = 0"
| "scancode_from r (row # rows) k =
     (case index_in k row of Some c \<Rightarrow> positionToScancode r 0 + c | None \<Rightarrow> scancode_from (r + 1) rows k)"

text \<open>The empty name is the number 0.\<close>

definition uk :: "string \<Rightarrow> nat" where
  "uk k = (if k = [] then 0 else scancode_from 0 uk_rows k)"

record layout =
  charmap :: "nat list"
  charmapShift :: "nat list"
  charmapAltGr :: "nat list"
  charmapShiftAltGr :: "nat list"

text \<open>The tables of a layout are written top row first.\<close>

definition flip_rows :: "nat list \<Rightarrow> nat list" where
  "flip_rows m = map (\<lambda>i. m ! ((7 - i div 32) * 32 + i mod 32)) [0..<256]"

definition make_layout :: "nat list \<Rightarrow> nat list \<Rightarrow> nat list \<Rightarrow> nat list \<Rightarrow> layout" where
  "make_layout m s a sa = \<lparr>charmap = flip_rows m, charmapShift = flip_rows s, charmapAltGr = flip_rows a, charmapShiftAltGr = flip_rows sa\<rparr>"

section \<open>State and events\<close>

datatype kbd_event =
    pressed nat bool u8
  | released nat
  | actionPressed string
  | characterTyped nat

record kbd =
  keystate :: mask256
  readBuffer :: "u8 list"
  klayout :: layout
  kevents :: "kbd_event list"

definition is_pressed :: "string \<Rightarrow> kbd \<Rightarrow> bool" where
  "is_pressed key k \<longleftrightarrow> bm256_get (keystate k) (uk key) = Some True"

definition set_key :: "nat \<Rightarrow> bool \<Rightarrow> kbd \<Rightarrow> kbd option" where
  "set_key code down k = map_option (\<lambda>m. k\<lparr>keystate := m\<rparr>) (bm256_set code down (keystate k))"

definition send :: "kbd_event \<Rightarrow> kbd \<Rightarrow> kbd" where
  "send e k = k\<lparr>kevents := kevents k @ [e]\<rparr>"

text \<open>\<^verbatim>\<open>Keyboard::Modifier\<close>.\<close>

definition mod_shift :: u8 where
  "mod_shift = 1"

definition mod_control :: u8 where
  "mod_control = 2"

definition mod_alt :: u8 where
  "mod_alt = 4"

definition mod_super :: u8 where
  "mod_super = 8"

definition shift_down :: "kbd \<Rightarrow> bool" where
  "shift_down k \<longleftrightarrow> is_pressed ''leftShift'' k \<or> is_pressed ''rightShift'' k"

definition control_down :: "kbd \<Rightarrow> bool" where
  "control_down k \<longleftrightarrow> is_pressed ''leftControl'' k \<or> is_pressed ''rightControl'' k"

definition super_down :: "kbd \<Rightarrow> bool" where
  "super_down k \<longleftrightarrow> is_pressed ''leftSuper'' k \<or> is_pressed ''rightSuper'' k"

definition modifiers_for :: "nat \<Rightarrow> kbd \<Rightarrow> u8" where
  "modifiers_for code k =
     (let m = 0;
          m = (if control_down k \<and> code \<noteq> uk ''leftControl'' \<and> code \<noteq> uk ''rightControl'' then m OR mod_control else m);
          m = (if is_pressed ''alt'' k \<and> code \<noteq> uk ''alt'' then m OR mod_alt else m);
          m = (if super_down k \<and> code \<noteq> uk ''leftSuper'' \<and> code \<noteq> uk ''rightSuper'' then m OR mod_super else m)
      in if shift_down k \<and> m \<noteq> 0 \<and> code \<noteq> uk ''leftShift'' \<and> code \<noteq> uk ''rightShift'' then m OR mod_shift else m)"

definition character_for :: "nat \<Rightarrow> kbd \<Rightarrow> nat" where
  "character_for code k =
     (let shift = shift_down k; altGr = is_pressed ''altGr'' k; l = klayout k;
          m = (if altGr \<and> shift then charmapShiftAltGr l else if altGr then charmapAltGr l
               else if shift then charmapShift l else charmap l)
      in m ! code)"

text \<open>\<^verbatim>\<open>trigger_event\<close> for a pressed key; for the other events it only sends.\<close>

definition trigger_pressed :: "nat \<Rightarrow> kbd \<Rightarrow> kbd" where
  "trigger_pressed code k =
     (let m = modifiers_for code k; k = send (pressed code False m) k in
      if m = 0 then (let c = character_for code k in if c \<noteq> 0 then send (characterTyped c) k else k) else k)"

definition trigger_key :: "nat \<Rightarrow> bool \<Rightarrow> kbd \<Rightarrow> kbd" where
  "trigger_key code down k = (if down then trigger_pressed code k else send (released code) k)"

section \<open>Decoding\<close>

definition translation :: "nat list" where
  "translation = map uk [
     [], ''escape'', ''number1'', ''number2'', ''number3'', ''number4'', ''number5'', ''number6'', ''number7'',
     ''number8'', ''number9'', ''number0'', ''hyphen'', ''equals'', ''backspace'', ''tab'', ''letterQ'', ''letterW'',
     ''letterE'', ''letterR'', ''letterT'', ''letterY'', ''letterU'', ''letterI'', ''letterO'', ''letterP'',
     ''leftBracket'', ''rightBracket'', ''enter'', ''leftControl'', ''letterA'', ''letterS'', ''letterD'',
     ''letterF'', ''letterG'', ''letterH'', ''letterJ'', ''letterK'', ''letterL'', ''semicolon'', ''apostrophe'',
     ''backTick'', ''leftShift'', ''hash'', ''letterZ'', ''letterX'', ''letterC'', ''letterV'', ''letterB'',
     ''letterN'', ''letterM'', ''comma'', ''dot'', ''slash'', ''rightShift'', ''numpadMultiply'', ''alt'', ''space'',
     ''capslock'', ''f1'', ''f2'', ''f3'', ''f4'', ''f5'', ''f6'', ''f7'', ''f8'', ''f9'', ''f10'', ''numLock'',
     ''pause'', ''numpad7'', ''numpad8'', ''numpad9'', ''numpadSubtract'', ''numpad4'', ''numpad5'', ''numpad6'',
     ''numpadPlus'', ''numpad1'', ''numpad2'', ''numpad3'', ''numpad0'', ''numpadDot'', ''printScreen'', [],
     ''backslash'', ''f11'', ''f12'', [], [], ''f13'', ''f14'', ''f15'', [], [], [], [], [], ''f16'', ''f17'',
     ''f18'', ''f19'', ''f20'', ''f21'', ''f22'', ''f23'', ''f24'']"

definition extended_keys :: "(nat \<times> string) list" where
  "extended_keys = [
     (0x1c, ''numpadEnter''), (0x1d, ''rightControl''), (0x35, ''numpadDivide''), (0x37, ''printScreen''),
     (0x38, ''altGr''), (0x46, ''scrollLock''), (0x47, ''home''), (0x48, ''upArrow''), (0x49, ''pageUp''),
     (0x4b, ''leftArrow''), (0x4d, ''rightArrow''), (0x4f, ''end''), (0x50, ''downArrow''), (0x51, ''pageDown''),
     (0x52, ''insert''), (0x53, ''delete''), (0x5b, ''leftSuper''), (0x5c, ''rightSuper''), (0x5d, ''contextMenu'')]"

definition extended_actions :: "(nat \<times> string) list" where
  "extended_actions = [
     (0x10, ''mediaTrackPrevious''), (0x19, ''mediaTrackNext''), (0x20, ''volumeMute''),
     (0x21, ''launchCalculator''), (0x22, ''mediaPlayPause''), (0x24, ''mediaStop''), (0x2e, ''volumeDown''),
     (0x30, ''volumeUp''), (0x32, ''webHome''), (0x65, ''webSearch''), (0x66, ''webFavourites''),
     (0x67, ''webRefresh''), (0x68, ''webStop''), (0x69, ''webForward''), (0x6a, ''webBack''),
     (0x6b, ''launchComputer''), (0x6c, ''launchEmail''), (0x6d, ''mediaSelect'')]"

definition extended_scancode :: "nat \<Rightarrow> nat" where
  "extended_scancode code = (case map_of extended_keys code of None \<Rightarrow> 0 | Some key \<Rightarrow> uk key)"

datatype round = Wait | Next kbd | Panicked

definition is_down :: "u8 \<Rightarrow> bool" where
  "is_down b \<longleftrightarrow> b AND 0x80 = 0"

definition code_of :: "u8 \<Rightarrow> nat" where
  "code_of b = unat (b AND 0x7f)"

text \<open>\<^verbatim>\<open>memcpy(&readBuffer[0], &readBuffer[readSize], readBufferPosition-=readSize)\<close>.\<close>

definition consume :: "nat \<Rightarrow> kbd \<Rightarrow> kbd" where
  "consume n k = k\<lparr>readBuffer := drop n (readBuffer k)\<rparr>"

definition round_e0 :: "u8 \<Rightarrow> kbd \<Rightarrow> round option" where
  "round_e0 b k =
     (let code = code_of b; down = is_down b; scancode = extended_scancode code; action = map_of extended_actions code;
          k = consume 2 k in
      if code = 0x2a then Some (Next k)
      else if scancode = 0 \<and> action = None then Some (Next k)
      else
        map_option (\<lambda>k. Next (case action of Some a \<Rightarrow> if down then send (actionPressed a) k else k | None \<Rightarrow> k))
          (if scancode \<noteq> 0 then map_option (trigger_key scancode down) (set_key scancode down k) else Some k))"

definition round_e1 :: "u8 \<Rightarrow> kbd \<Rightarrow> round option" where
  "round_e1 b k =
     (let code = code_of b; down = is_down b; buf = readBuffer k in
      if code = 0x1d then
        (if length buf < 6 then Some Wait
         else if down \<and> buf ! 2 = 0x45 \<and> buf ! 3 = 0xe1 \<and> buf ! 4 = 0x9d \<and> buf ! 5 = 0xc5 then
           (let scancode = uk ''scrollLock'' in
            case set_key scancode True k of
              None \<Rightarrow> None
            | Some k \<Rightarrow>
                map_option (\<lambda>k. Next (trigger_key scancode False k))
                  (set_key scancode False (consume 6 (trigger_key scancode True k))))
         else Some (Next (consume 6 k)))
      else Some (Next (consume 2 k)))"

text \<open>The test \<^verbatim>\<open>code>sizeof(translation)\<close> lets the index one past the table through.\<close>

definition round_plain :: "u8 \<Rightarrow> kbd \<Rightarrow> round option" where
  "round_plain b k =
     (let code = code_of b; down = is_down b; k = consume 1 k in
      if code > 0x6c then Some (Next k)
      else if code \<ge> length translation then None
      else if translation ! code = 0 then Some (Next k)
      else
        (let scancode = translation ! code in
         case set_key scancode down k of
           None \<Rightarrow> None
         | Some k \<Rightarrow>
             (if down \<and> scancode = uk ''pause'' \<and> control_down k \<and> is_pressed ''alt'' k then Some Panicked
              else Some (Next (trigger_key scancode down k)))))"

definition process_one :: "kbd \<Rightarrow> round option" where
  "process_one k =
     (case readBuffer k of
        [] \<Rightarrow> Some Wait
      | b # bs \<Rightarrow>
          (if b = 0xe0 then (case bs of [] \<Rightarrow> Some Wait | c # cs \<Rightarrow> round_e0 c k)
           else if b = 0xe1 then (case bs of [] \<Rightarrow> Some Wait | c # cs \<Rightarrow> round_e1 c k)
           else round_plain b k))"

text \<open>The \<^verbatim>\<open>while\<close> of \<^verbatim>\<open>process_buffer\<close>: every round but the last takes bytes out, so the length of the buffer bounds the
  rounds. A panic is the error value.\<close>

fun process_rounds :: "nat \<Rightarrow> kbd \<Rightarrow> kbd attempt option" where
  "process_rounds 0 k = Some (Inr k)"
| "process_rounds (Suc n) k =
     (if readBuffer k = [] then Some (Inr k)
      else
        (case process_one k of
           None \<Rightarrow> None
         | Some Wait \<Rightarrow> Some (Inr k)
         | Some Panicked \<Rightarrow> Some (Inl ''Keyboard interrupt - CTRL+ALT+BREAK'')
         | Some (Next k) \<Rightarrow> process_rounds n k))"

definition process_buffer :: "kbd \<Rightarrow> kbd attempt option" where
  "process_buffer k = process_rounds (length (readBuffer k)) k"

text \<open>The buffer has six bytes.\<close>

definition on_byte :: "u8 \<Rightarrow> kbd \<Rightarrow> kbd attempt option" where
  "on_byte b k =
     (if length (readBuffer k) \<ge> 6 then None
      else
        map_option (map_sum id (\<lambda>k. if length (readBuffer k) = 6 then k\<lparr>readBuffer := []\<rparr> else k))
          (process_buffer (k\<lparr>readBuffer := readBuffer k @ [b]\<rparr>)))"

text \<open>The loop of \<^verbatim>\<open>_on_irq\<close>: the bytes the controller has, each with its \<^verbatim>\<open>mouse_byte\<close> flag.\<close>

fun kbd_on_irq :: "(bool \<times> u8) list \<Rightarrow> kbd \<Rightarrow> kbd attempt option" where
  "kbd_on_irq [] k = Some (Inr k)"
| "kbd_on_irq ((mouse, b) # bs) k =
     (if mouse then Some (Inr k)
      else
        (case on_byte b k of
           None \<Rightarrow> None
         | Some (Inl e) \<Rightarrow> Some (Inl e)
         | Some (Inr k) \<Rightarrow> kbd_on_irq bs k))"

definition ps2_on_irq :: "nat \<Rightarrow> nat \<Rightarrow> (bool \<times> u8) list \<Rightarrow> kbd \<Rightarrow> kbd attempt option" where
  "ps2_on_irq own irq bs k = (if irq \<noteq> own then Some (Inr k) else kbd_on_irq bs k)"

section \<open>The tables\<close>

lemma translation_values: "translation =
  [0, 165, 134, 135, 136, 137, 138, 139, 140, 141, 142, 143, 144, 145, 147, 101, 103, 104, 105, 106, 107, 108, 109,
   110, 111, 112, 113, 114, 83, 5, 71, 72, 73, 74, 75, 76, 77, 78, 79, 80, 81, 133, 37, 82, 39, 40, 41, 42, 43, 44,
   45, 46, 47, 48, 51, 155, 7, 11, 69, 166, 167, 168, 169, 171, 172, 173, 174, 176, 177, 153, 182, 121, 122, 123,
   156, 89, 90, 91, 124, 57, 58, 59, 25, 27, 181, 0, 38, 178, 179, 0, 0, 198, 199, 200, 0, 0, 0, 0, 0, 201, 203, 204,
   205, 206, 208, 209, 210, 211]"
  by code_simp

lemma translation_distinct: "distinct (filter (\<lambda>c. c \<noteq> 0) translation)" "\<forall>c \<in> set translation. c < 256" "length translation = 108"
  unfolding translation_values by simp_all

lemma and_low_bits: "n AND 7 = n mod 8" "n AND 31 = n mod 32" for n :: nat
  using take_bit_eq_mask[of 3 n] take_bit_eq_mask[of 5 n] by (simp_all add: mask_eq_exp_minus_1 take_bit_eq_mod)

lemma position_code:
  assumes "row < 8" and "col < 32"
  shows "positionToScancode row col = 32 * row + col"
proof -
  have c: "col = take_bit 5 col" using assms(2) by (simp add: take_bit_nat_eq_self)
  have "push_bit 5 row AND col = 0" by (subst c) (auto intro!: bit_eqI simp: bit_simps)
  then have "push_bit 5 row OR col = push_bit 5 row + col" by (simp add: disjunctive_add_eq_or)
  with assms show ?thesis unfolding positionToScancode_def and_low_bits by (simp add: push_bit_eq_mult)
qed

lemma position_roundtrip:
  assumes "row < 8" and "col < 32"
  shows "scancodeToPosition (positionToScancode row col) = (row, col)"
  using assms unfolding position_code[OF assms] scancodeToPosition_def and_low_bits by (simp add: drop_bit_eq_div)

lemma code_of_nat: "code_of b = unat b mod 128"
proof -
  have e: "b AND 0x7f = take_bit 7 b" by (simp add: take_bit_eq_mask mask_eq_exp_minus_1)
  show ?thesis unfolding code_of_def e unsigned_take_bit_eq by (simp add: take_bit_eq_mod)
qed

lemma is_down_nat: "is_down b \<longleftrightarrow> unat b < 128"
proof -
  have "b AND 0x80 = b AND push_bit 7 1" by simp
  then have "is_down b \<longleftrightarrow> \<not> bit b 7" unfolding is_down_def bit_iff_and_push_bit_not_eq_0 by simp
  also have "bit b 7 \<longleftrightarrow> bit (unat b) 7" by (simp only: bit_unsigned_iff possible_bit_def) simp
  also have "bit (unat b) 7 \<longleftrightarrow> odd (unat b div 128)" by (simp only: bit_iff_odd) simp
  finally have "is_down b \<longleftrightarrow> \<not> odd (unat b div 128)" .
  moreover have "unat b < 256" using unsigned_less[of b] by simp
  then have "unat b div 128 = (if unat b < 128 then 0 else 1)" by (auto simp: div_eq_dividend_iff intro!: div_nat_eqI)
  ultimately show ?thesis by simp
qed

lemma unat_ne: "unat x \<noteq> unat y \<Longrightarrow> x \<noteq> y"
  by auto

lemma plain_codes:
  assumes "c < 108" and "translation ! c \<noteq> 0"
  shows "code_of (of_nat c) = c" "is_down (of_nat c)" "code_of (of_nat (c + 128)) = c" "\<not> is_down (of_nat (c + 128))"
    "of_nat c \<noteq> (0xe0 :: u8)" "of_nat c \<noteq> (0xe1 :: u8)" "of_nat (c + 128) \<noteq> (0xe0 :: u8)" "of_nat (c + 128) \<noteq> (0xe1 :: u8)"
proof -
  have u: "unat (of_nat c :: u8) = c" "unat (of_nat (c + 128) :: u8) = c + 128"
    using assms(1) by (simp_all add: unat_of_nat del: of_nat_add)
  have "translation ! 96 = 0" "translation ! 97 = 0" unfolding translation_values by simp_all
  with assms(2) have n: "c \<noteq> 96" "c \<noteq> 97" by auto
  have e: "unat (0xe0 :: u8) = 224" "unat (0xe1 :: u8) = 225" by simp_all
  show "of_nat c \<noteq> (0xe0 :: u8)" "of_nat c \<noteq> (0xe1 :: u8)" "of_nat (c + 128) \<noteq> (0xe0 :: u8)" "of_nat (c + 128) \<noteq> (0xe1 :: u8)"
    by (rule unat_ne, unfold u e, use n assms(1) in linarith)+
  show "code_of (of_nat c) = c" "is_down (of_nat c)" "code_of (of_nat (c + 128)) = c" "\<not> is_down (of_nat (c + 128))"
    unfolding code_of_nat is_down_nat u using assms(1) by simp_all
qed

section \<open>Every byte is decoded\<close>

lemma set_key_ok:
  "\<exists>k'. set_key code d k = Some k' \<and> readBuffer k' = readBuffer k \<and> klayout k' = klayout k \<and> kevents k' = kevents k \<and>
    (\<forall>x. bm256_get (keystate k') x = (if x = code then Some d else bm256_get (keystate k) x))"
  using bm256_set_get[of code d "keystate k"] by (auto simp: set_key_def)

lemma send_sel [simp]:
  "readBuffer (send e k) = readBuffer k" "keystate (send e k) = keystate k" "klayout (send e k) = klayout k"
  "kevents (send e k) = kevents k @ [e]"
  by (simp_all add: send_def)

lemma consume_sel [simp]:
  "readBuffer (consume n k) = drop n (readBuffer k)" "keystate (consume n k) = keystate k" "klayout (consume n k) = klayout k"
  "kevents (consume n k) = kevents k"
  by (simp_all add: consume_def)

lemma trigger_sel [simp]:
  "readBuffer (trigger_pressed c k) = readBuffer k" "keystate (trigger_pressed c k) = keystate k" "klayout (trigger_pressed c k) = klayout k"
  "readBuffer (trigger_key c d k) = readBuffer k" "keystate (trigger_key c d k) = keystate k" "klayout (trigger_key c d k) = klayout k"
  by (simp_all add: trigger_pressed_def trigger_key_def Let_def)

lemma round_e0_total: "\<exists>k'. round_e0 b k = Some (Next k') \<and> readBuffer k' = drop 2 (readBuffer k)"
proof -
  let ?k = "consume 2 k"
  have "\<exists>k'. (if extended_scancode (code_of b) \<noteq> 0 then map_option (trigger_key (extended_scancode (code_of b)) (is_down b))
      (set_key (extended_scancode (code_of b)) (is_down b) ?k) else Some ?k) = Some k' \<and> readBuffer k' = drop 2 (readBuffer k)"
    using set_key_ok[of "extended_scancode (code_of b)" "is_down b" ?k] by auto
  then obtain k' where k': "(if extended_scancode (code_of b) \<noteq> 0 then map_option (trigger_key (extended_scancode (code_of b)) (is_down b))
      (set_key (extended_scancode (code_of b)) (is_down b) ?k) else Some ?k) = Some k'" "readBuffer k' = drop 2 (readBuffer k)" by blast
  show ?thesis
    unfolding round_e0_def Let_def k'(1) using k'(2) by (auto split: option.splits)
qed

lemma round_e1_total:
  "round_e1 b k = Some Wait \<and> code_of b = 0x1d \<and> length (readBuffer k) < 6 \<or>
    (\<exists>k' n. round_e1 b k = Some (Next k') \<and> readBuffer k' = drop n (readBuffer k) \<and>
      n = (if code_of b = 0x1d then 6 else 2) \<and> (code_of b = 0x1d \<longrightarrow> \<not> length (readBuffer k) < 6))"
proof (cases "code_of b = 0x1d \<and> \<not> length (readBuffer k) < 6")
  case True
  let ?s = "uk ''scrollLock''"
  obtain k1 where k1: "set_key ?s True k = Some k1" "readBuffer k1 = readBuffer k"
    using set_key_ok by blast
  obtain k2 where k2: "set_key ?s False (consume 6 (trigger_key ?s True k1)) = Some k2"
    "readBuffer k2 = drop 6 (readBuffer k)"
    using set_key_ok[of ?s False "consume 6 (trigger_key ?s True k1)"] k1(2) by auto
  from True k1 k2 show ?thesis by (simp add: round_e1_def Let_def)
next
  case False
  then show ?thesis by (auto simp: round_e1_def Let_def)
qed

lemma round_plain_total:
  "if code_of b = 0x6c then round_plain b k = None
   else round_plain b k = Some Panicked \<or> (\<exists>k'. round_plain b k = Some (Next k') \<and> readBuffer k' = drop 1 (readBuffer k))"
proof (cases "code_of b < 0x6c \<and> translation ! code_of b \<noteq> 0")
  case True
  let ?c = "translation ! code_of b"
  obtain k1 where "set_key ?c (is_down b) (consume 1 k) = Some k1" "readBuffer k1 = drop 1 (readBuffer k)"
    using set_key_ok[of ?c "is_down b" "consume 1 k"] by auto
  with True show ?thesis by (auto simp: round_plain_def Let_def translation_distinct(3))
next
  case False
  then show ?thesis by (auto simp: round_plain_def Let_def translation_distinct(3) not_less)
qed

text \<open>The buffers between two bytes: an unfinished sequence.\<close>

definition unfinished :: "u8 list \<Rightarrow> bool" where
  "unfinished buf \<longleftrightarrow> buf = [] \<or> buf = [0xe0] \<or> buf = [0xe1] \<or>
     (\<exists>b bs. buf = 0xe1 # b # bs \<and> code_of b = 0x1d \<and> length bs < 4)"

lemma process_done: "readBuffer k = [] \<Longrightarrow> process_rounds n k = Some (Inr k)"
  by (cases n) simp_all

lemma process_next:
  assumes "process_one k = Some (Next k')" and "readBuffer k' = []" and "readBuffer k \<noteq> []"
  shows "process_buffer k = Some (Inr k')"
  using assms process_done[of k'] by (cases "readBuffer k") (simp_all add: process_buffer_def)

lemma process_wait: "process_one k = Some Wait \<Longrightarrow> process_buffer k = Some (Inr k)"
  by (cases "readBuffer k") (simp_all add: process_buffer_def)

lemma process_stop:
  "readBuffer k \<noteq> [] \<Longrightarrow> process_one k = None \<Longrightarrow> process_buffer k = None"
  "readBuffer k \<noteq> [] \<Longrightarrow> process_one k = Some Panicked \<Longrightarrow> process_buffer k = Some (Inl ''Keyboard interrupt - CTRL+ALT+BREAK'')"
  by (cases "readBuffer k"; simp add: process_buffer_def)+

lemma process_byte:
  assumes "unfinished buf" and "readBuffer k = buf @ [b]"
  shows "if buf = [] \<and> code_of b = 0x6c then process_buffer k = None
    else \<exists>r. process_buffer k = Some r \<and> (\<forall>k'. r = Inr k' \<longrightarrow> unfinished (readBuffer k'))"
proof -
  have ne: "readBuffer k \<noteq> []" using assms(2) by simp
  have fin: "\<exists>r. process_buffer k = Some r \<and> (\<forall>k'. r = Inr k' \<longrightarrow> unfinished (readBuffer k'))"
    if "process_one k = Some (Next k'')" "readBuffer k'' = []" for k''
    using process_next[OF that ne] that(2) by (simp add: unfinished_def)
  have wait: "\<exists>r. process_buffer k = Some r \<and> (\<forall>k'. r = Inr k' \<longrightarrow> unfinished (readBuffer k'))"
    if "process_one k = Some Wait" "unfinished (readBuffer k)"
    using process_wait[OF that(1)] that(2) by simp
  consider "buf = []" | "buf = [0xe0]" | "buf = [0xe1]" | c cs where "buf = 0xe1 # c # cs" "code_of c = 0x1d" "length cs < 4"
    using assms(1) unfolding unfinished_def by blast
  then show ?thesis
  proof cases
    case 1
    then have r: "readBuffer k = [b]" using assms(2) by simp
    consider "b = 0xe0" | "b = 0xe1" | "b \<noteq> 0xe0" "b \<noteq> 0xe1" by blast
    then show ?thesis
    proof cases
      case 3
      then have p: "process_one k = round_plain b k" using r by (simp add: process_one_def)
      show ?thesis
      proof (cases "code_of b = 0x6c")
        case True
        with round_plain_total[of b k] p process_stop(1)[OF ne] 1 show ?thesis by simp
      next
        case False
        with round_plain_total[of b k] consider "round_plain b k = Some Panicked"
          | k' where "round_plain b k = Some (Next k')" "readBuffer k' = drop 1 (readBuffer k)" by auto
        then show ?thesis
        proof cases
          case 1
          with p process_stop(2)[OF ne] False show ?thesis by simp
        next
          case (2 k')
          with fin[of k'] p r False show ?thesis by simp
        qed
      qed
    qed (use wait r in \<open>simp_all add: process_one_def unfinished_def code_of_def\<close>)
  next
    case 2
    then have p: "process_one k = round_e0 b k" using assms(2) by (simp add: process_one_def)
    obtain k' where "round_e0 b k = Some (Next k')" "readBuffer k' = drop 2 (readBuffer k)" using round_e0_total by blast
    with fin[of k'] p assms(2) 2 show ?thesis by simp
  next
    case 3
    then have p: "process_one k = round_e1 b k" using assms(2) by (simp add: process_one_def)
    show ?thesis
    proof (cases "code_of b = 0x1d")
      case True
      then have "process_one k = Some Wait" using p assms(2) 3 by (simp add: round_e1_def Let_def)
      moreover have "unfinished (readBuffer k)" using assms(2) 3 True by (simp add: unfinished_def)
      ultimately show ?thesis using wait 3 by simp
    next
      case False
      with round_e1_total[of b k] obtain k' where "round_e1 b k = Some (Next k')" "readBuffer k' = drop 2 (readBuffer k)"
        by auto
      with fin[of k'] p assms(2) 3 show ?thesis by simp
    qed
  next
    case 4
    then have p: "process_one k = round_e1 c k" using assms(2) by (simp add: process_one_def)
    show ?thesis
    proof (cases "length cs < 3")
      case True
      then have "process_one k = Some Wait" using p assms(2) 4 by (simp add: round_e1_def Let_def)
      moreover have "unfinished (readBuffer k)" using assms(2) 4 True by (simp add: unfinished_def)
      ultimately show ?thesis using wait 4 by simp
    next
      case False
      with round_e1_total[of c k] 4 assms(2) obtain k' where "round_e1 c k = Some (Next k')" "readBuffer k' = drop 6 (readBuffer k)"
        by auto
      with fin[of k'] p assms(2) 4 show ?thesis by simp
    qed
  qed
qed

lemma unfinished_short: "unfinished buf \<Longrightarrow> length buf < 6"
  by (auto simp: unfinished_def)

lemma on_byte_plain:
  assumes "readBuffer k = []" and "b \<noteq> 0xe0" and "b \<noteq> 0xe1" and "round_plain b (k\<lparr>readBuffer := [b]\<rparr>) = Some (Next k')"
    and "readBuffer k' = []"
  shows "on_byte b k = Some (Inr k')"
proof -
  have "process_one (k\<lparr>readBuffer := [b]\<rparr>) = Some (Next k')" using assms by (simp add: process_one_def)
  from process_next[OF this assms(5)] assms(1,5) show ?thesis by (simp add: on_byte_def)
qed

text \<open>What the modifiers and the character depend on.\<close>

lemma modifiers_keystate: "keystate k' = keystate k \<Longrightarrow> modifiers_for c k' = modifiers_for c k"
  by (simp add: modifiers_for_def control_down_def super_down_def shift_down_def is_pressed_def)

lemma character_keystate: "keystate k' = keystate k \<Longrightarrow> klayout k' = klayout k \<Longrightarrow> character_for c k' = character_for c k"
  by (simp add: character_for_def shift_down_def is_pressed_def)

definition typed :: "nat \<Rightarrow> kbd \<Rightarrow> kbd_event list" where
  "typed code k = (if modifiers_for code k = 0 \<and> character_for code k \<noteq> 0 then [characterTyped (character_for code k)] else [])"

lemma trigger_pressed_events:
  "kevents (trigger_pressed c k) = kevents k @ pressed c False (modifiers_for c k) # typed c (trigger_pressed c k)"
proof -
  have m: "modifiers_for c (trigger_pressed c k) = modifiers_for c k" by (rule modifiers_keystate) simp
  have x: "character_for c (trigger_pressed c k) = character_for c k" by (rule character_keystate) simp_all
  have y: "character_for c (send e k) = character_for c k" for e by (rule character_keystate) simp_all
  show ?thesis unfolding typed_def m x by (simp add: trigger_pressed_def Let_def y)
qed

lemma round_plain_key:
  assumes "code_of b = c" and "c < 108" and "translation ! c \<noteq> 0" and "is_down b \<longrightarrow> translation ! c \<noteq> uk ''pause''"
    and "readBuffer k = [b]"
  shows "\<exists>k1. round_plain b k = Some (Next (trigger_key (translation ! c) (is_down b) k1)) \<and> readBuffer k1 = [] \<and>
    klayout k1 = klayout k \<and> kevents k1 = kevents k \<and>
    (\<forall>x. bm256_get (keystate k1) x = (if x = translation ! c then Some (is_down b) else bm256_get (keystate k) x))"
proof -
  obtain k1 where "set_key (translation ! c) (is_down b) (consume 1 k) = Some k1" "readBuffer k1 = []" "klayout k1 = klayout k"
    "kevents k1 = kevents k"
    "\<forall>x. bm256_get (keystate k1) x = (if x = translation ! c then Some (is_down b) else bm256_get (keystate k) x)"
    using set_key_ok[of "translation ! c" "is_down b" "consume 1 k"] assms(5) by auto
  with assms show ?thesis by (auto simp: round_plain_def Let_def translation_distinct(3))
qed

text \<open>C20. The keyboard decoder accepts every byte whenever it comes: from an unfinished sequence the byte leads to an
  unfinished sequence again (or to the CTRL+ALT+BREAK panic), so the six-byte buffer never overflows and is never
  thrown away. The one exception is code 0x6c (bytes 0x6c and 0xec) outside a longer sequence, which reads the
  translation table out of bounds.\<close>

theorem keyboard_bytes:
  assumes "unfinished (readBuffer k)"
  shows "if readBuffer k = [] \<and> code_of b = 0x6c then on_byte b k = None
    else \<exists>r. on_byte b k = Some r \<and> (\<forall>k'. r = Inr k' \<longrightarrow> unfinished (readBuffer k'))"
proof -
  let ?k = "k\<lparr>readBuffer := readBuffer k @ [b]\<rparr>"
  have s: "\<not> 6 \<le> length (readBuffer k)" using unfinished_short[OF assms] by simp
  have p: "if readBuffer k = [] \<and> code_of b = 0x6c then process_buffer ?k = None
    else \<exists>r. process_buffer ?k = Some r \<and> (\<forall>k'. r = Inr k' \<longrightarrow> unfinished (readBuffer k'))"
    by (rule process_byte[OF assms]) simp
  show ?thesis
  proof (cases "readBuffer k = [] \<and> code_of b = 0x6c")
    case True
    then have "process_buffer ?k = None" using p by presburger
    with True s show ?thesis by (simp add: on_byte_def)
  next
    case False
    then obtain r where r: "process_buffer ?k = Some r" "\<forall>k'. r = Inr k' \<longrightarrow> unfinished (readBuffer k')" using p by auto
    have "unfinished (readBuffer k'')" if "map_sum id (\<lambda>k. if length (readBuffer k) = 6 then k\<lparr>readBuffer := []\<rparr> else k) r = Inr k''" for k''
      using r(2) that by (cases r) (auto simp: unfinished_def)
    with r(1) s False show ?thesis by (auto simp: on_byte_def)
  qed
qed

text \<open>C21. A stroke of an ordinary key: the make byte marks the key as pressed and sends one press event with the modifiers
  that are down, followed by the character of the layout when no modifier is and the layout has one; the break byte
  marks the key as not pressed and sends one release event. No other key changes, and nothing stays in the buffer.\<close>

theorem key_stroke:
  assumes "readBuffer k = []" and "c < 108" and "translation ! c \<noteq> 0" and "translation ! c \<noteq> uk ''pause''"
  shows "\<exists>k1 k2. on_byte (of_nat c) k = Some (Inr k1) \<and> readBuffer k1 = [] \<and>
    (\<forall>x. bm256_get (keystate k1) x = (if x = translation ! c then Some True else bm256_get (keystate k) x)) \<and>
    kevents k1 = kevents k @ pressed (translation ! c) False (modifiers_for (translation ! c) k1) # typed (translation ! c) k1 \<and>
    on_byte (of_nat (c + 128)) k1 = Some (Inr k2) \<and> readBuffer k2 = [] \<and>
    (\<forall>x. bm256_get (keystate k2) x = (if x = translation ! c then Some False else bm256_get (keystate k) x)) \<and>
    kevents k2 = kevents k1 @ [released (translation ! c)]"
proof -
  let ?s = "translation ! c"
  note pc = plain_codes[OF assms(2,3)]
  obtain u where u: "round_plain (of_nat c) (k\<lparr>readBuffer := [of_nat c]\<rparr>) = Some (Next (trigger_key ?s True u))"
    "readBuffer u = []" "kevents u = kevents k"
    "\<forall>x. bm256_get (keystate u) x = (if x = ?s then Some True else bm256_get (keystate k) x)"
    using round_plain_key[of "of_nat c" c "k\<lparr>readBuffer := [of_nat c]\<rparr>"] pc(1,2) assms(2,3,4) by auto
  define k1 where "k1 = trigger_key ?s True u"
  have 1: "on_byte (of_nat c) k = Some (Inr k1)" "readBuffer k1 = []"
    using on_byte_plain[OF assms(1) pc(5,6) u(1)] u(2) by (simp_all add: k1_def)
  have m: "modifiers_for ?s k1 = modifiers_for ?s u" by (rule modifiers_keystate) (simp add: k1_def)
  have 2: "kevents k1 = kevents k @ pressed ?s False (modifiers_for ?s k1) # typed ?s k1"
    unfolding m using trigger_pressed_events[of ?s u] u(3) by (simp add: k1_def trigger_key_def)
  have 3: "bm256_get (keystate k1) x = (if x = ?s then Some True else bm256_get (keystate k) x)" for x
    using u(4) by (simp add: k1_def)
  obtain v where v: "round_plain (of_nat (c + 128)) (k1\<lparr>readBuffer := [of_nat (c + 128)]\<rparr>) = Some (Next (trigger_key ?s False v))"
    "readBuffer v = []" "kevents v = kevents k1"
    "\<forall>x. bm256_get (keystate v) x = (if x = ?s then Some False else bm256_get (keystate k1) x)"
    using round_plain_key[of "of_nat (c + 128)" c "k1\<lparr>readBuffer := [of_nat (c + 128)]\<rparr>"] pc(3,4) assms(2,3,4)
    by (auto simp del: of_nat_add)
  have 4: "on_byte (of_nat (c + 128)) k1 = Some (Inr (trigger_key ?s False v))"
    using on_byte_plain[OF 1(2) pc(7,8) v(1)] v(2) by simp
  have 5: "kevents (trigger_key ?s False v) = kevents k1 @ [released ?s]" using v(3) by (simp add: trigger_key_def)
  have 6: "bm256_get (keystate (trigger_key ?s False v)) x = (if x = ?s then Some False else bm256_get (keystate k) x)" for x
    using v(4) 3 by simp
  have 7: "readBuffer (trigger_key ?s False v) = []" using v(2) by simp
  show ?thesis using 1 2 3 4 5 6 7 by blast
qed

section \<open>Witnesses\<close>

definition idle :: kbd where
  "idle = \<lparr>keystate = \<lambda>_. 0, readBuffer = [],
    klayout = make_layout (replicate 256 0) (replicate 256 0) (replicate 256 0) (replicate 256 0), kevents = []\<rparr>"

theorem keyboard_bytes_witness:
  "\<exists>r. on_byte 0x1d (idle\<lparr>readBuffer := [0xe1]\<rparr>) = Some r \<and> (\<forall>k'. r = Inr k' \<longrightarrow> unfinished (readBuffer k'))"
  using keyboard_bytes[of "idle\<lparr>readBuffer := [0xe1]\<rparr>" "0x1d"] by (simp add: unfinished_def)

theorem key_stroke_witness:
  "\<exists>k1 k2. on_byte 30 idle = Some (Inr k1) \<and> bm256_get (keystate k1) 71 = Some True \<and>
    on_byte 158 k1 = Some (Inr k2) \<and> bm256_get (keystate k2) 71 = Some False"
proof -
  have t: "translation ! 30 = 71" unfolding translation_values by simp
  have p: "uk ''pause'' = 182" by code_simp
  have "readBuffer idle = []" by (simp add: idle_def)
  from key_stroke[OF this, of 30] t p show ?thesis by fastforce
qed

end
