(* ===== verification/Screen.thy ===== *)
theory Screen
  imports Prelude "HOL-Library.Monad_Syntax"
begin

text \<open>
  Text screens: \<^verbatim>\<open>drivers/Textmode.cpp\<close>, \<^verbatim>\<open>drivers/Console.cpp\<close> and the VGA text mode of
  \<^verbatim>\<open>drivers/x86/textmode/VgaTextmode.cpp\<close>. The virtual functions of a text mode driver are a record of operations on
  the driver's state; the generic code takes the record as an argument, and the VGA driver is one value of it. Access
  outside the video memory is \<open>None\<close>. The start-up logo drawn by \<^verbatim>\<open>clear\<close> is left out (its characters are not in any
  text encoding).
\<close>

section \<open>Signed 32-bit arithmetic and loops\<close>

definition to_i32 :: "nat \<Rightarrow> int" where
  "to_i32 n = (let m = int n mod 4294967296 in if m < 2147483648 then m else m - 4294967296)"

definition to_u32 :: "int \<Rightarrow> nat" where
  "to_u32 i = nat (i mod 4294967296)"

definition sub_i32 :: "int \<Rightarrow> int \<Rightarrow> int option" where
  "sub_i32 a b = (if - 2147483648 \<le> a - b \<and> a - b < 2147483648 then Some (a - b) else None)"

lemma to_u32_nat [wrap_simps]: "0 \<le> i \<Longrightarrow> i < 4294967296 \<Longrightarrow> to_u32 i = nat i"
  by (simp add: to_u32_def)

lemma to_i32_nat [wrap_simps]: "n < 2147483648 \<Longrightarrow> to_i32 n = int n"
  by (simp add: to_i32_def Let_def)

lemma sub_i32_exact [wrap_simps]: "- 2147483648 \<le> a - b \<Longrightarrow> a - b < 2147483648 \<Longrightarrow> sub_i32 a b = Some (a - b)"
  by (simp add: sub_i32_def)

fun each :: "('a \<Rightarrow> 's \<Rightarrow> 's option) \<Rightarrow> 'a list \<Rightarrow> 's \<Rightarrow> 's option" where
  "each f [] s = Some s"
| "each f (x # xs) s = do { s \<leftarrow> f x s; each f xs s }"

text \<open>The loop header \<^verbatim>\<open>for(x = dir>=0?start:end-1; dir>=0?x<end:x>=start; x += dir)\<close>.\<close>

definition in_direction :: "bool \<Rightarrow> int \<Rightarrow> int \<Rightarrow> int list" where
  "in_direction forwards start finish = (if forwards then [start..finish - 1] else rev [start..finish - 1])"

lemma in_direction_set [simp]: "set (in_direction d a e) = {a..<e}"
  by (auto simp: in_direction_def)

lemma in_direction_sorted: "sorted_wrt (\<lambda>x y. if d then x < y else y < x) (in_direction d a e)"
  by (simp add: in_direction_def sorted_wrt_rev)

lemma sorted_wrt_product:
  assumes "sorted_wrt P xs" "sorted_wrt Q ys"
  shows "sorted_wrt (\<lambda>p q. P (fst p) (fst q) \<or> fst p = fst q \<and> Q (snd p) (snd q)) (List.product xs ys)"
  using assms(1)
proof (induction xs)
  case (Cons x xs)
  then show ?case using assms(2) by (auto simp: sorted_wrt_append sorted_wrt_map intro: sorted_wrt_mono_rel[rotated])
qed simp

lemma each_append: "each f (xs @ ys) s = do { s \<leftarrow> each f xs s; each f ys s }"
  by (induction xs arbitrary: s) (auto split: bind_splits)

section \<open>The operations of a text mode driver\<close>

record 's textmode =
  get_rows :: nat
  get_cols :: nat
  set_char :: "nat \<Rightarrow> nat \<Rightarrow> u32 \<Rightarrow> u32 \<Rightarrow> u8 \<Rightarrow> 's \<Rightarrow> 's option"
  set_chars :: "nat \<Rightarrow> nat \<Rightarrow> u32 \<Rightarrow> u32 \<Rightarrow> nat \<Rightarrow> u8 list \<Rightarrow> 's \<Rightarrow> 's option"
  get_char :: "nat \<Rightarrow> nat \<Rightarrow> 's \<Rightarrow> u8 option"
  get_char_foreground :: "nat \<Rightarrow> nat \<Rightarrow> 's \<Rightarrow> u32 option"
  get_char_background :: "nat \<Rightarrow> nat \<Rightarrow> 's \<Rightarrow> u32 option"
  dispatch_scroll_region :: "nat \<Rightarrow> nat \<Rightarrow> nat \<Rightarrow> nat \<Rightarrow> int \<Rightarrow> int \<Rightarrow> u32 \<Rightarrow> u32 \<Rightarrow> u8 \<Rightarrow> 's \<Rightarrow> 's option"

text \<open>\<^verbatim>\<open>Textmode::set_chars\<close>, which a driver may override: one \<^verbatim>\<open>set_char\<close> per character. The characters are those from
  the pointer on, up to the end of the string.\<close>

definition base_set_chars :: "'s textmode \<Rightarrow> nat \<Rightarrow> nat \<Rightarrow> u32 \<Rightarrow> u32 \<Rightarrow> nat \<Rightarrow> u8 list \<Rightarrow> 's \<Rightarrow> 's option" where
  "base_set_chars T row col f b n xs s =
     (if n > length xs then None else each (\<lambda>k. set_char T row (add32 col k) f b (xs ! k)) [0..<n] s)"

definition fill :: "'s textmode \<Rightarrow> nat \<Rightarrow> nat \<Rightarrow> nat \<Rightarrow> nat \<Rightarrow> u32 \<Rightarrow> u32 \<Rightarrow> u8 \<Rightarrow> 's \<Rightarrow> 's option" where
  "fill T row colStart rowCount colCount f b x s =
     each (\<lambda>p. set_char T (add32 row (fst p)) (snd p) f b x)
       (List.product [0..<rowCount] [colStart..<add32 colStart colCount]) s"

section \<open>Scrolling\<close>

definition scroll_cell :: "'s textmode \<Rightarrow> int \<Rightarrow> int \<Rightarrow> int \<Rightarrow> int \<Rightarrow> int \<times> int \<Rightarrow> u32 \<Rightarrow> u32 \<Rightarrow> u8 \<Rightarrow> int \<times> int \<Rightarrow> 's \<Rightarrow> 's option" where
  "scroll_cell T startRow startCol endRow endCol d f b x p s =
     do { oldRow \<leftarrow> sub_i32 (fst p) (fst d);
          oldCol \<leftarrow> sub_i32 (snd p) (snd d);
          if oldCol < startCol \<or> oldRow < startRow \<or> oldCol \<ge> endCol \<or> oldRow \<ge> endRow
          then set_char T (to_u32 (fst p)) (to_u32 (snd p)) f b x s
          else do { c \<leftarrow> get_char T (to_u32 oldRow) (to_u32 oldCol) s;
                    f' \<leftarrow> get_char_foreground T (to_u32 oldRow) (to_u32 oldCol) s;
                    b' \<leftarrow> get_char_background T (to_u32 oldRow) (to_u32 oldCol) s;
                    set_char T (to_u32 (fst p)) (to_u32 (snd p)) f' b' c s } }"

definition base_scroll_region :: "'s textmode \<Rightarrow> nat \<Rightarrow> nat \<Rightarrow> nat \<Rightarrow> nat \<Rightarrow> int \<Rightarrow> int \<Rightarrow> u32 \<Rightarrow> u32 \<Rightarrow> u8 \<Rightarrow> 's \<Rightarrow> 's option" where
  "base_scroll_region T row0 col0 nrows ncols scrollRows scrollCols f b x s =
     (let startRow = to_i32 row0; startCol = to_i32 col0;
          endRow = to_i32 (to_u32 (startRow + int nrows)); endCol = to_i32 (to_u32 (startCol + int ncols)) in
      each (scroll_cell T startRow startCol endRow endCol (scrollRows, scrollCols) f b x)
        (List.product (in_direction (scrollRows \<le> 0) startRow endRow) (in_direction (scrollCols \<le> 0) startCol endCol)) s)"

definition scroll :: "'s textmode \<Rightarrow> int \<Rightarrow> int \<Rightarrow> u32 \<Rightarrow> u32 \<Rightarrow> u8 \<Rightarrow> 's \<Rightarrow> 's option" where
  "scroll T scrollRows scrollCols f b x = dispatch_scroll_region T 0 0 (get_rows T) (get_cols T) scrollRows scrollCols f b x"

section \<open>VGA text mode\<close>

record entry =
  entryChar :: u8
  fgColour :: "4 word"
  bgColour :: "4 word"

type_synonym video = "entry list"

definition mk_entry :: "u8 \<Rightarrow> u32 \<Rightarrow> u32 \<Rightarrow> entry" where
  "mk_entry c f b = \<lparr>entryChar = c, fgColour = ucast f, bgColour = ucast b\<rparr>"

definition get_entry :: "nat \<Rightarrow> nat \<Rightarrow> nat" where
  "get_entry row col = add32 (mul32 row 80) col"

text \<open>\<^verbatim>\<open>memcpy\<close> into the video memory from elsewhere, and from one part of it to another; overlapping parts are outside the
  contract of \<^verbatim>\<open>memcpy\<close>.\<close>

definition video_write :: "nat \<Rightarrow> entry list \<Rightarrow> video \<Rightarrow> video option" where
  "video_write i es s =
     (if es = [] then Some s else if i + length es \<le> length s then Some (take i s @ es @ drop (i + length es) s) else None)"

definition video_copy :: "nat \<Rightarrow> nat \<Rightarrow> nat \<Rightarrow> video \<Rightarrow> video option" where
  "video_copy i j n s =
     (if n = 0 then Some s
      else if j + n \<le> length s \<and> (i + n \<le> j \<or> j + n \<le> i) then video_write i (take n (drop j s)) s else None)"

definition vga_set_char :: "nat \<Rightarrow> nat \<Rightarrow> u32 \<Rightarrow> u32 \<Rightarrow> u8 \<Rightarrow> video \<Rightarrow> video option" where
  "vga_set_char row col f b c s =
     (if get_entry row col < length s then Some (s[get_entry row col := mk_entry c f b]) else None)"

definition vga_set_chars :: "nat \<Rightarrow> nat \<Rightarrow> u32 \<Rightarrow> u32 \<Rightarrow> nat \<Rightarrow> u8 list \<Rightarrow> video \<Rightarrow> video option" where
  "vga_set_chars row col f b n xs s =
     (if n > length xs then None else video_write (get_entry row col) (map (\<lambda>c. mk_entry c f b) (take n xs)) s)"

definition vga_get :: "(entry \<Rightarrow> 'a) \<Rightarrow> nat \<Rightarrow> nat \<Rightarrow> video \<Rightarrow> 'a option" where
  "vga_get g row col s = (if get_entry row col < length s then Some (g (s ! get_entry row col)) else None)"

definition vga_scroll_row :: "int \<Rightarrow> int \<Rightarrow> int \<Rightarrow> nat \<Rightarrow> int \<Rightarrow> int \<Rightarrow> entry \<Rightarrow> int \<Rightarrow> video \<Rightarrow> video option" where
  "vga_scroll_row startRow endRow startCol ncols scrollRows scrollCols e row s =
     do { oldRow \<leftarrow> sub_i32 row scrollRows;
          if oldRow < startRow \<or> oldRow \<ge> endRow
          then video_write (get_entry (to_u32 row) (to_u32 startCol)) (replicate ncols e) s
          else do {
            s \<leftarrow> (if scrollCols > 0
                  then if nat scrollCols \<le> ncols
                       then video_write (get_entry (to_u32 row) (to_u32 startCol)) (replicate (nat scrollCols) e) s else None
                  else Some s);
            s \<leftarrow> video_copy (get_entry (to_u32 row) (add32 (to_u32 startCol) (to_u32 (max 0 scrollCols))))
                  (get_entry (to_u32 oldRow) (to_u32 (startCol - scrollCols))) (sub32 ncols (to_u32 \<bar>scrollCols\<bar>)) s;
            (if scrollCols < 0
             then if nat (- scrollCols) \<le> ncols
                  then video_write (get_entry (to_u32 row) (add32 ncols (to_u32 scrollCols))) (replicate (nat (- scrollCols)) e) s
                  else None
             else Some s) } }"

definition vga_scroll_region :: "nat \<Rightarrow> nat \<Rightarrow> nat \<Rightarrow> nat \<Rightarrow> int \<Rightarrow> int \<Rightarrow> u32 \<Rightarrow> u32 \<Rightarrow> u8 \<Rightarrow> video \<Rightarrow> video option" where
  "vga_scroll_region row0 col0 nrows ncols scrollRows scrollCols f b x s =
     (let startRow = to_i32 row0; startCol = to_i32 col0; endRow = to_i32 (to_u32 (startRow + int nrows)) in
      each (vga_scroll_row startRow endRow startCol ncols scrollRows scrollCols (mk_entry x f b))
        (in_direction (scrollRows \<le> 0) startRow endRow) s)"

definition vga :: "video textmode" where
  "vga = \<lparr>get_rows = 25, get_cols = 80, set_char = vga_set_char, set_chars = vga_set_chars,
     get_char = vga_get entryChar, get_char_foreground = vga_get (\<lambda>e. ucast (fgColour e)),
     get_char_background = vga_get (\<lambda>e. ucast (bgColour e)), dispatch_scroll_region = vga_scroll_region\<rparr>"

section \<open>Positions and in-place moves\<close>

type_synonym pos = "nat \<times> nat"

definition moved :: "(pos \<Rightarrow> pos option) \<Rightarrow> 'e \<Rightarrow> (pos \<Rightarrow> 'e) \<Rightarrow> pos \<Rightarrow> 'e" where
  "moved src blank m q = (case src q of None \<Rightarrow> blank | Some q' \<Rightarrow> m q')"

text \<open>The region of a scroll and where the new content of a position comes from.\<close>

definition region_cells :: "nat \<Rightarrow> nat \<Rightarrow> nat \<Rightarrow> nat \<Rightarrow> pos set" where
  "region_cells row0 col0 nrows ncols = {row0..<row0 + nrows} \<times> {col0..<col0 + ncols}"

definition shift_source :: "pos set \<Rightarrow> int \<Rightarrow> int \<Rightarrow> pos \<Rightarrow> pos option" where
  "shift_source R dr dc q =
     (let r = int (fst q) - dr; c = int (snd q) - dc in
      if 0 \<le> r \<and> 0 \<le> c \<and> (nat r, nat c) \<in> R then Some (nat r, nat c) else None)"

text \<open>What every text mode driver promises: cells that can be set and read back, and the two operations it may override.\<close>

locale text_cells =
  fixes T :: "'s textmode"
    and ok :: "'s \<Rightarrow> bool"
    and cell :: "pos \<Rightarrow> 's \<Rightarrow> 'e"
    and mk :: "u8 \<Rightarrow> u32 \<Rightarrow> u32 \<Rightarrow> 'e"
  assumes dimensions: "get_rows T \<le> 1073741824" "get_cols T \<le> 1073741824"
    and set_char: "\<And>s r c f b x. ok s \<Longrightarrow> r < get_rows T \<Longrightarrow> c < get_cols T \<Longrightarrow> \<exists>s'. set_char T r c f b x s = Some s' \<and> ok s' \<and>
      (\<forall>q. fst q < get_rows T \<longrightarrow> snd q < get_cols T \<longrightarrow> cell q s' = (if q = (r, c) then mk x f b else cell q s))"
    and get: "\<And>s r c. ok s \<Longrightarrow> r < get_rows T \<Longrightarrow> c < get_cols T \<Longrightarrow> \<exists>x f b. get_char T r c s = Some x \<and>
      get_char_foreground T r c s = Some f \<and> get_char_background T r c s = Some b \<and> mk x f b = cell (r, c) s"
    and cells_determine: "\<And>s t. ok s \<Longrightarrow> ok t \<Longrightarrow>
      (\<forall>q. fst q < get_rows T \<longrightarrow> snd q < get_cols T \<longrightarrow> cell q s = cell q t) \<Longrightarrow> s = t"
begin

definition on_screen :: "pos \<Rightarrow> bool" where
  "on_screen q \<longleftrightarrow> fst q < get_rows T \<and> snd q < get_cols T"

text \<open>A sequence of steps, each writing its own positions from their sources, none of which an earlier step has written.\<close>

lemma each_moves:
  assumes "ok s"
    and "\<And>p s. p \<in> set ps \<Longrightarrow> ok s \<Longrightarrow> \<exists>s'. g p s = Some s' \<and> ok s' \<and>
      (\<forall>q. on_screen q \<longrightarrow> cell q s' = (if q \<in> W p then moved src blank (\<lambda>q. cell q s) q else cell q s))"
    and "sorted_wrt (\<lambda>p p'. W p \<inter> W p' = {} \<and> (\<forall>q \<in> W p'. \<forall>q'. src q = Some q' \<longrightarrow> q' \<notin> W p)) ps"
    and "\<And>q q'. src q = Some q' \<Longrightarrow> on_screen q'"
  shows "\<exists>s'. each g ps s = Some s' \<and> ok s' \<and>
    (\<forall>q. on_screen q \<longrightarrow> cell q s' = (if q \<in> (\<Union>p\<in>set ps. W p) then moved src blank (\<lambda>q. cell q s) q else cell q s))"
  using assms(1-3)
proof (induction ps arbitrary: s)
  case (Cons p ps)
  from Cons.prems(2)[of p s] Cons.prems(1) obtain s1 where
    s1: "g p s = Some s1" "ok s1"
      "\<And>q. on_screen q \<Longrightarrow> cell q s1 = (if q \<in> W p then moved src blank (\<lambda>q. cell q s) q else cell q s)" by auto
  have "\<exists>s'. each g ps s1 = Some s' \<and> ok s' \<and>
    (\<forall>q. on_screen q \<longrightarrow> cell q s' = (if q \<in> (\<Union>p\<in>set ps. W p) then moved src blank (\<lambda>q. cell q s1) q else cell q s1))"
    by (rule Cons.IH) (use s1(2) Cons.prems(2,3) in auto)
  then obtain s2 where s2: "each g ps s1 = Some s2" "ok s2"
    "\<And>q. on_screen q \<Longrightarrow> cell q s2 = (if q \<in> (\<Union>p\<in>set ps. W p) then moved src blank (\<lambda>q. cell q s1) q else cell q s1)"
    by auto
  have later: "\<forall>p'\<in>set ps. W p \<inter> W p' = {} \<and> (\<forall>q \<in> W p'. \<forall>q'. src q = Some q' \<longrightarrow> q' \<notin> W p)"
    using Cons.prems(3) unfolding sorted_wrt.simps by (rule conjunct1)
  have src: "moved src blank (\<lambda>q. cell q s1) q = moved src blank (\<lambda>q. cell q s) q" if "q \<in> W p'" "p' \<in> set ps" for q p'
  proof (cases "src q")
    case (Some q')
    with that later have "q' \<notin> W p" by blast
    with Some show ?thesis using s1(3)[OF assms(4)[OF Some]] by (simp add: moved_def)
  qed (simp add: moved_def)
  have apart: "q \<notin> W p" if "q \<in> W p'" "p' \<in> set ps" for q p' using that later by blast
  have "cell q s2 = (if q \<in> (\<Union>p\<in>set (p # ps). W p) then moved src blank (\<lambda>q. cell q s) q else cell q s)"
    if o: "on_screen q" for q
  proof (cases "q \<in> (\<Union>p\<in>set ps. W p)")
    case True
    then obtain p' where "p' \<in> set ps" "q \<in> W p'" by blast
    with True s2(3)[OF o] src show ?thesis by simp
  next
    case False
    with s2(3)[OF o] s1(3)[OF o] show ?thesis by simp
  qed
  with s1(1) s2(1,2) show ?case by auto
qed simp

text \<open>The generic scroll moves every cell of the region at once, whatever the direction: no cell is read after it was
  overwritten.\<close>

lemma scroll_cell_step:
  assumes "ok s" "row0 + nrows \<le> get_rows T" "col0 + ncols \<le> get_cols T" "\<bar>dr\<bar> \<le> 1073741824" "\<bar>dc\<bar> \<le> 1073741824"
    and "fst p \<in> {int row0..<int (row0 + nrows)}" "snd p \<in> {int col0..<int (col0 + ncols)}"
  shows "\<exists>s'. scroll_cell T (int row0) (int col0) (int (row0 + nrows)) (int (col0 + ncols)) (dr, dc) f b x p s = Some s' \<and> ok s' \<and>
      (\<forall>q. on_screen q \<longrightarrow> cell q s' = (if q = (nat (fst p), nat (snd p))
         then moved (shift_source (region_cells row0 col0 nrows ncols) dr dc) (mk x f b) (\<lambda>q. cell q s) q else cell q s))"
proof -
  define r c where "r = nat (fst p)" and "c = nat (snd p)"
  with assms have p: "p = (int r, int c)" by (cases p) auto
  have rc: "r < get_rows T" "c < get_cols T" "row0 \<le> r" "r < row0 + nrows" "col0 \<le> c" "c < col0 + ncols" using assms p by auto
  have sub: "sub_i32 (int r) dr = Some (int r - dr)" "sub_i32 (int c) dc = Some (int c - dc)"
    using rc assms(4,5) dimensions by (simp_all add: wrap_simps)
  have u: "to_u32 (int r) = r" "to_u32 (int c) = c" using rc dimensions by (simp_all add: wrap_simps)
  let ?out = "int c - dc < int col0 \<or> int r - dr < int row0 \<or> int c - dc \<ge> int (col0 + ncols) \<or> int r - dr \<ge> int (row0 + nrows)"
  have src: "shift_source (region_cells row0 col0 nrows ncols) dr dc (r, c) =
      (if ?out then None else Some (nat (int r - dr), nat (int c - dc)))"
    by (auto simp: shift_source_def region_cells_def Let_def)
  show ?thesis
  proof (cases ?out)
    case True
    with src sub u p set_char[OF assms(1) rc(1,2), of f b x] show ?thesis
      by (auto simp: scroll_cell_def on_screen_def moved_def)
  next
    case False
    define r' c' where "r' = nat (int r - dr)" and "c' = nat (int c - dc)"
    have rc': "r' < get_rows T" "c' < get_cols T" "to_u32 (int r - dr) = r'" "to_u32 (int c - dc) = c'"
      using False assms(2,3) dimensions unfolding r'_def c'_def by (auto simp: wrap_simps)
    from get[OF assms(1) rc'(1,2)] obtain x' f' b' where
      g: "get_char T r' c' s = Some x'" "get_char_foreground T r' c' s = Some f'" "get_char_background T r' c' s = Some b'"
        "mk x' f' b' = cell (r', c') s" by blast
    have "scroll_cell T (int row0) (int col0) (int (row0 + nrows)) (int (col0 + ncols)) (dr, dc) f b x p s = set_char T r c f' b' x' s"
      using False sub u rc' g p by (auto simp: scroll_cell_def)
    with set_char[OF assms(1) rc(1,2), of f' b' x'] src False g(4) show ?thesis
      by (auto simp: on_screen_def moved_def r'_def c'_def p)
  qed
qed

lemma base_scroll_moves:
  assumes "ok s" "row0 + nrows \<le> get_rows T" "col0 + ncols \<le> get_cols T" "\<bar>dr\<bar> \<le> 1073741824" "\<bar>dc\<bar> \<le> 1073741824"
  shows "\<exists>s'. base_scroll_region T row0 col0 nrows ncols dr dc f b x s = Some s' \<and> ok s' \<and>
    (\<forall>q. on_screen q \<longrightarrow> cell q s' = (if q \<in> region_cells row0 col0 nrows ncols
       then moved (shift_source (region_cells row0 col0 nrows ncols) dr dc) (mk x f b) (\<lambda>q. cell q s) q else cell q s))"
proof -
  let ?R = "region_cells row0 col0 nrows ncols"
  let ?g = "scroll_cell T (int row0) (int col0) (int (row0 + nrows)) (int (col0 + ncols)) (dr, dc) f b x"
  let ?ps = "List.product (in_direction (dr \<le> 0) (int row0) (int (row0 + nrows))) (in_direction (dc \<le> 0) (int col0) (int (col0 + ncols)))"
  let ?W = "\<lambda>p. {(nat (fst p), nat (snd p))}"
  have ends: "to_i32 row0 = int row0" "to_i32 col0 = int col0"
    "to_i32 (to_u32 (int row0 + int nrows)) = int (row0 + nrows)" "to_i32 (to_u32 (int col0 + int ncols)) = int (col0 + ncols)"
    using assms(2,3) dimensions by (simp_all add: wrap_simps)
  have W: "(\<Union>p\<in>set ?ps. ?W p) = ?R"
  proof -
    have "\<exists>p\<in>set ?ps. q \<in> ?W p" if "q \<in> ?R" for q
      by (rule bexI[of _ "(int (fst q), int (snd q))"]) (use that in \<open>auto simp: region_cells_def\<close>)
    moreover have "q \<in> ?R" if "p \<in> set ?ps" "q \<in> ?W p" for p q
      using that by (auto simp: region_cells_def mem_Times_iff)
    ultimately show ?thesis by blast
  qed
  have order: "sorted_wrt (\<lambda>p p'. ?W p \<inter> ?W p' = {} \<and> (\<forall>q \<in> ?W p'. \<forall>q'. shift_source ?R dr dc q = Some q' \<longrightarrow> q' \<notin> ?W p)) ?ps"
  proof (rule sorted_wrt_mono_rel[OF _ sorted_wrt_product[OF in_direction_sorted in_direction_sorted]])
    fix p p' :: "int \<times> int"
    assume "p \<in> set ?ps" "p' \<in> set ?ps"
    then have pos: "0 \<le> fst p" "0 \<le> snd p" "0 \<le> fst p'" "0 \<le> snd p'" by (auto simp: mem_Times_iff)
    assume "(if dr \<le> 0 then fst p < fst p' else fst p' < fst p) \<or>
      fst p = fst p' \<and> (if dc \<le> 0 then snd p < snd p' else snd p' < snd p)"
    with pos show "?W p \<inter> ?W p' = {} \<and> (\<forall>q \<in> ?W p'. \<forall>q'. shift_source ?R dr dc q = Some q' \<longrightarrow> q' \<notin> ?W p)"
      by (auto simp: shift_source_def Let_def split: if_splits)
  qed
  have "\<exists>s'. each ?g ?ps s = Some s' \<and> ok s' \<and>
    (\<forall>q. on_screen q \<longrightarrow> cell q s' = (if q \<in> (\<Union>p\<in>set ?ps. ?W p) then moved (shift_source ?R dr dc) (mk x f b) (\<lambda>q. cell q s) q else cell q s))"
  proof (rule each_moves[OF assms(1) _ order])
    fix p s
    assume p: "p \<in> set ?ps" and s: "ok s"
    from p have i: "fst p \<in> {int row0..<int (row0 + nrows)}" "snd p \<in> {int col0..<int (col0 + ncols)}" by (auto simp: mem_Times_iff)
    show "\<exists>s'. ?g p s = Some s' \<and> ok s' \<and>
      (\<forall>q. on_screen q \<longrightarrow> cell q s' = (if q \<in> ?W p then moved (shift_source ?R dr dc) (mk x f b) (\<lambda>q. cell q s) q else cell q s))"
      using scroll_cell_step[OF s assms(2-5) i] by simp
  next
    fix q q' assume "shift_source ?R dr dc q = Some q'"
    then show "on_screen q'" using assms(2,3) by (auto simp: shift_source_def region_cells_def on_screen_def Let_def split: if_splits)
  qed
  then show ?thesis unfolding W base_scroll_region_def Let_def ends by simp
qed

end

section \<open>Writing text\<close>

record cursor =
  cRow :: nat
  cCol :: nat
  cStart :: nat
  cEnd :: nat

datatype wrap_mode = wrap_none | wrap_whitespace | wrap_endOfLine

text \<open>The local variables of \<^verbatim>\<open>write_text\<close>; pointers into the text are indices. \<open>go_on\<close> results are pairs of whether the
  loop continues (it was not left by \<^verbatim>\<open>break\<close>) and the variables.\<close>

record 's writer =
  scr :: 's
  cur :: cursor
  fromChar :: nat
  fromCol :: nat
  lastChar :: nat
  lastCharCol :: nat

definition put :: "'s textmode \<Rightarrow> u32 \<Rightarrow> u32 \<Rightarrow> u8 list \<Rightarrow> nat \<Rightarrow> 's writer \<Rightarrow> 's writer option" where
  "put T f b txt n w =
     do { s \<leftarrow> set_chars T (cRow (cur w)) (fromCol w) f b n (drop (fromChar w) txt) (scr w); Some (w\<lparr>scr := s\<rparr>) }"

definition put_spaces :: "'s textmode \<Rightarrow> u32 \<Rightarrow> u32 \<Rightarrow> nat \<Rightarrow> 's writer \<Rightarrow> 's writer option" where
  "put_spaces T f b n w =
     do { s \<leftarrow> set_chars T (cRow (cur w)) (fromCol w) f b n (replicate n 32) (scr w); Some (w\<lparr>scr := s\<rparr>) }"

definition line_feed :: "cursor \<Rightarrow> cursor" where
  "line_feed k = k\<lparr>cRow := add32 (cRow k) 1, cCol := cStart k\<rparr>"

definition advance :: "cursor \<Rightarrow> cursor" where
  "advance k = k\<lparr>cCol := add32 (cCol k) 1\<rparr>"

definition at_bottom :: "'s textmode \<Rightarrow> u32 \<Rightarrow> u32 \<Rightarrow> bool \<Rightarrow> 's writer \<Rightarrow> (bool \<times> 's writer) option" where
  "at_bottom T f b autoScroll w =
     (if cRow (cur w) \<ge> get_rows T
      then if autoScroll
        then do { s \<leftarrow> scroll T (- 1) 0 f b 32 (scr w);
                  Some (True, w\<lparr>scr := s, cur := (cur w)\<lparr>cRow := sub32 (get_rows T) 1, cCol := cStart (cur w)\<rparr>,
                    fromCol := cStart (cur w)\<rparr>) }
        else Some (False, w)
      else Some (True, w))"

definition none_step :: "'s textmode \<Rightarrow> u32 \<Rightarrow> u32 \<Rightarrow> bool \<Rightarrow> u8 list \<Rightarrow> nat \<Rightarrow> 's writer \<Rightarrow> (bool \<times> 's writer) option" where
  "none_step T f b autoScroll txt c w =
     (if txt ! c = 10
      then do { w \<leftarrow> (if c > fromChar w + 1 then put T f b txt (c - 1 - fromChar w) w else Some w);
                at_bottom T f b autoScroll (w\<lparr>cur := line_feed (cur w), fromChar := c + 1, fromCol := cStart (cur w)\<rparr>) }
      else Some (True, w\<lparr>cur := advance (cur w)\<rparr>))"

definition endOfLine_step :: "'s textmode \<Rightarrow> u32 \<Rightarrow> u32 \<Rightarrow> bool \<Rightarrow> u8 list \<Rightarrow> nat \<Rightarrow> 's writer \<Rightarrow> (bool \<times> 's writer) option" where
  "endOfLine_step T f b autoScroll txt c w =
     do { w \<leftarrow> (if txt ! c = 10
           then do { w \<leftarrow> (if c > fromChar w + 1 then put T f b txt (c - 1 - fromChar w) w else Some w);
                     Some (w\<lparr>cur := line_feed (cur w), fromChar := c + 1, fromCol := cStart (cur w)\<rparr>) }
           else let w = w\<lparr>cur := advance (cur w)\<rparr> in
             if cCol (cur w) \<ge> cEnd (cur w)
             then do { w \<leftarrow> put T f b txt (sub32 c (fromChar w)) w;
                       Some (w\<lparr>cur := line_feed (cur w), fromChar := c, fromCol := cStart (cur w)\<rparr>) }
             else Some w);
          at_bottom T f b autoScroll w }"

definition newline_step :: "'s textmode \<Rightarrow> u32 \<Rightarrow> u32 \<Rightarrow> bool \<Rightarrow> u8 list \<Rightarrow> nat \<Rightarrow> 's writer \<Rightarrow> (bool \<times> 's writer) option" where
  "newline_step T f b autoScroll txt c w =
     do { w \<leftarrow> put T f b txt (sub32 c (fromChar w)) w;
          at_bottom T f b autoScroll (w\<lparr>cur := line_feed (cur w), fromChar := c + 1, fromCol := cStart (cur w),
            lastChar := lastChar w + 1, lastCharCol := cStart (cur w)\<rparr>) }"

definition gap_step :: "'s textmode \<Rightarrow> u32 \<Rightarrow> u32 \<Rightarrow> bool \<Rightarrow> u8 list \<Rightarrow> nat \<Rightarrow> 's writer \<Rightarrow> (bool \<times> 's writer) option" where
  "gap_step T f b autoScroll txt c w =
     (let w = w\<lparr>cur := advance (cur w), lastChar := c, lastCharCol := add32 (lastCharCol w) (sub32 c (lastChar w))\<rparr> in
      if cCol (cur w) \<ge> cEnd (cur w)
      then do { w \<leftarrow> put T f b txt (sub32 c (fromChar w)) w;
                at_bottom T f b autoScroll (w\<lparr>cur := line_feed (cur w), fromChar := c, fromCol := cStart (cur w),
                  lastChar := (if txt ! c = 32 then c + 1 else c), lastCharCol := cStart (cur w)\<rparr>) }
      else Some (True, w\<lparr>lastChar := c + 1, lastCharCol := cCol (cur w)\<rparr>))"

definition letter_step :: "'s textmode \<Rightarrow> u32 \<Rightarrow> u32 \<Rightarrow> bool \<Rightarrow> u8 list \<Rightarrow> nat \<Rightarrow> 's writer \<Rightarrow> (bool \<times> 's writer) option" where
  "letter_step T f b autoScroll txt c w =
     (let w = w\<lparr>cur := advance (cur w)\<rparr> in
      if cCol (cur w) \<ge> cEnd (cur w)
      then do { w \<leftarrow> (if lastCharCol w = cStart (cur w)
                  then do { w \<leftarrow> put T f b txt (sub32 c (fromChar w)) w;
                            Some (w\<lparr>fromChar := c, fromCol := cCol (cur w)\<rparr>) }
                  else do { w \<leftarrow> put T f b txt (sub32 (lastChar w) (fromChar w)) w;
                            put_spaces T f b (sub32 (cCol (cur w)) (lastCharCol w))
                              (w\<lparr>fromChar := lastChar w, fromCol := lastCharCol w\<rparr>) });
                at_bottom T f b autoScroll (w\<lparr>cur := line_feed (cur w), fromCol := cStart (cur w), lastCharCol := cStart (cur w)\<rparr>) }
      else Some (True, w))"

definition whitespace_step :: "'s textmode \<Rightarrow> u32 \<Rightarrow> u32 \<Rightarrow> bool \<Rightarrow> u8 list \<Rightarrow> nat \<Rightarrow> 's writer \<Rightarrow> (bool \<times> 's writer) option" where
  "whitespace_step T f b autoScroll txt c w =
     (if txt ! c = 10 then newline_step T f b autoScroll txt c w
      else if txt ! c = 32 \<or> txt ! c = 45 then gap_step T f b autoScroll txt c w
      else letter_step T f b autoScroll txt c w)"

text \<open>\<^verbatim>\<open>for(;*c && guard;c++)\<close> over the \<open>n\<close> characters from index \<open>c\<close>.\<close>

fun over_text :: "(nat \<Rightarrow> 's writer \<Rightarrow> (bool \<times> 's writer) option) \<Rightarrow> ('s writer \<Rightarrow> bool) \<Rightarrow> ('s writer \<Rightarrow> 's writer) \<Rightarrow>
    nat \<Rightarrow> nat \<Rightarrow> 's writer \<Rightarrow> (nat \<times> 's writer) option" where
  "over_text step guard inc 0 c w = Some (c, w)"
| "over_text step guard inc (Suc n) c w =
     (if guard w
      then do { (goes_on, w) \<leftarrow> step c w; if goes_on then over_text step guard inc n (c + 1) (inc w) else Some (c, w) }
      else Some (c, w))"

definition write_text :: "'s textmode \<Rightarrow> cursor \<Rightarrow> u32 \<Rightarrow> u32 \<Rightarrow> wrap_mode \<Rightarrow> u8 list \<Rightarrow> bool \<Rightarrow> 's \<Rightarrow> (cursor \<times> 's) option" where
  "write_text T k f b mode txt autoScroll s =
     (if cRow k \<ge> get_rows T \<or> cCol k \<ge> cEnd k then Some (k, s)
      else let w = \<lparr>scr = s, cur = k, fromChar = 0, fromCol = cCol k, lastChar = 0, lastCharCol = cCol k\<rparr> in
        do { (c, w) \<leftarrow>
               (case mode of
                  wrap_none \<Rightarrow> over_text (none_step T f b autoScroll txt) (\<lambda>w. cCol (cur w) < cEnd (cur w))
                    (\<lambda>w. w\<lparr>cur := advance (cur w)\<rparr>) (length txt) 0 w
                | wrap_endOfLine \<Rightarrow> over_text (endOfLine_step T f b autoScroll txt) (\<lambda>w. cRow (cur w) < get_rows T) id (length txt) 0 w
                | wrap_whitespace \<Rightarrow> over_text (whitespace_step T f b autoScroll txt) (\<lambda>w. cCol (cur w) < cEnd (cur w)) id (length txt) 0 w);
             w \<leftarrow> put T f b txt (sub32 c (fromChar w)) w;
             Some (cur w, scr w) })"

text \<open>\<^verbatim>\<open>Textmode::write_text(foreground, background, s)\<close>, what the consoles call.\<close>

definition console_write :: "'s textmode \<Rightarrow> u32 \<Rightarrow> u32 \<Rightarrow> u8 list \<Rightarrow> cursor \<times> 's \<Rightarrow> (cursor \<times> 's) option" where
  "console_write T f b txt ks = write_text T (fst ks) f b wrap_whitespace txt True (snd ks)"

section \<open>A terminal, for reference\<close>

definition type_char :: "'s textmode \<Rightarrow> u32 \<Rightarrow> u32 \<Rightarrow> u8 \<Rightarrow> cursor \<times> 's \<Rightarrow> (cursor \<times> 's) option" where
  "type_char T f b x ks =
     (if x = 10
      then if cRow (fst ks) + 1 \<ge> get_rows T
        then do { s \<leftarrow> scroll T (- 1) 0 f b 32 (snd ks); Some ((fst ks)\<lparr>cCol := cStart (fst ks)\<rparr>, s) }
        else Some ((fst ks)\<lparr>cRow := cRow (fst ks) + 1, cCol := cStart (fst ks)\<rparr>, snd ks)
      else do { s \<leftarrow> set_char T (cRow (fst ks)) (cCol (fst ks)) f b x (snd ks);
                Some ((fst ks)\<lparr>cCol := cCol (fst ks) + 1\<rparr>, s) })"

text \<open>Every line of the text leaves the last column of the screen free: \<open>a\<close> columns on the first line, \<open>n\<close> on the others.\<close>

fun fits :: "nat \<Rightarrow> nat \<Rightarrow> u8 list \<Rightarrow> bool" where
  "fits a n [] = True"
| "fits a n (x # xs) = (if x = 10 then fits n n xs else 1 < a \<and> fits (a - 1) n xs)"

definition good_cursor :: "'s textmode \<Rightarrow> cursor \<Rightarrow> bool" where
  "good_cursor T k \<longleftrightarrow> cRow k < get_rows T \<and> cStart k \<le> cCol k \<and> cCol k < cEnd k \<and> cEnd k \<le> get_cols T"

text \<open>What the text writer relies on beyond the cells: runs of characters within a row, and scrolling up by a line.\<close>

locale text_screen = text_cells T ok cell mk
  for T :: "'s textmode" and ok :: "'s \<Rightarrow> bool" and cell :: "pos \<Rightarrow> 's \<Rightarrow> 'e" and mk :: "u8 \<Rightarrow> u32 \<Rightarrow> u32 \<Rightarrow> 'e" +
  assumes set_chars: "\<And>s r c f b n xs. ok s \<Longrightarrow> r < get_rows T \<Longrightarrow> c + n \<le> get_cols T \<Longrightarrow> n \<le> length xs \<Longrightarrow>
      set_chars T r c f b n xs s = each (\<lambda>k. set_char T r (c + k) f b (xs ! k)) [0..<n] s"
    and scroll_up: "\<And>s f b x. ok s \<Longrightarrow> \<exists>s'. scroll T (- 1) 0 f b x s = Some s' \<and> ok s'"
begin

text \<open>The state of the loop at index \<open>c\<close> while no line has reached the edge: the pending run, written out, is \<open>s\<close>.\<close>

definition pending :: "u32 \<Rightarrow> u32 \<Rightarrow> u8 list \<Rightarrow> nat \<Rightarrow> 's writer \<Rightarrow> 's \<Rightarrow> bool" where
  "pending f b txt c w s \<longleftrightarrow> ok (scr w) \<and> ok s \<and> fromChar w \<le> c \<and> c \<le> length txt \<and> good_cursor T (cur w) \<and>
     fromCol w + (c - fromChar w) = cCol (cur w) \<and>
     each (\<lambda>k. set_char T (cRow (cur w)) (fromCol w + k) f b (drop (fromChar w) txt ! k)) [0..<c - fromChar w] (scr w) = Some s"

lemma pendingD:
  assumes "pending f b txt c w s"
  shows "ok (scr w)" "ok s" "fromChar w \<le> c" "c \<le> length txt" "cRow (cur w) < get_rows T" "cStart (cur w) \<le> cCol (cur w)"
    "cCol (cur w) < cEnd (cur w)" "cEnd (cur w) \<le> get_cols T" "fromCol w + (c - fromChar w) = cCol (cur w)"
    "each (\<lambda>k. set_char T (cRow (cur w)) (fromCol w + k) f b (drop (fromChar w) txt ! k)) [0..<c - fromChar w] (scr w) = Some s"
  using assms unfolding pending_def good_cursor_def by - (elim conjE, assumption)+

lemma pending_put:
  assumes "pending f b txt c w s" "length txt < two32"
  shows "put T f b txt (sub32 c (fromChar w)) w = Some (w\<lparr>scr := s\<rparr>)"
proof -
  note D = pendingD[OF assms(1)]
  have n: "sub32 c (fromChar w) = c - fromChar w" using D(3,4) assms(2) by (intro sub32_exact) simp_all
  have "set_chars T (cRow (cur w)) (fromCol w) f b (c - fromChar w) (drop (fromChar w) txt) (scr w) = Some s"
    unfolding D(10)[symmetric] by (rule set_chars[OF D(1,5)]) (use D(4,7-9) in \<open>simp_all add: diff_le_mono\<close>)
  then show ?thesis unfolding put_def n by simp
qed

lemma pending_newline:
  assumes "pending f b txt c w s" "length txt < two32" "c < length txt" "txt ! c = 10"
  shows "\<exists>w' s'. newline_step T f b True txt c w = Some (True, w') \<and> type_char T f b 10 (cur w, s) = Some (cur w', s') \<and>
    pending f b txt (c + 1) w' s' \<and> cCol (cur w') = cStart (cur w) \<and> cEnd (cur w') = cEnd (cur w) \<and> cStart (cur w') = cStart (cur w)"
proof -
  from scroll_up[of s f b 32] assms(1) obtain s1 where s1: "scroll T (- 1) 0 f b 32 s = Some s1" "ok s1"
    by (auto simp: pending_def)
  have row: "add32 (cRow (cur w)) 1 = cRow (cur w) + 1" "sub32 (get_rows T) 1 = get_rows T - 1" "cRow (cur w) < get_rows T"
    using assms(1) dimensions by (simp_all add: pending_def good_cursor_def wrap_simps)
  show ?thesis
  proof (cases "cRow (cur w) + 1 \<ge> get_rows T")
    case True
    then have "cRow (cur w) = get_rows T - 1" using row(3) by simp
    with True s1 row assms show ?thesis
      by (auto simp: newline_step_def pending_put[OF assms(1,2)] at_bottom_def line_feed_def type_char_def pending_def good_cursor_def)
  next
    case False
    with s1 row assms show ?thesis
      by (auto simp: newline_step_def pending_put[OF assms(1,2)] at_bottom_def line_feed_def type_char_def pending_def good_cursor_def)
  qed
qed

lemma pending_char:
  assumes "pending f b txt c w s" "c < length txt" "txt ! c \<noteq> 10" "1 < cEnd (cur w) - cCol (cur w)"
  shows "\<exists>w' s'. whitespace_step T f b True txt c w = Some (True, w') \<and> type_char T f b (txt ! c) (cur w, s) = Some (cur w', s') \<and>
    pending f b txt (c + 1) w' s' \<and> cCol (cur w') = cCol (cur w) + 1 \<and> cEnd (cur w') = cEnd (cur w) \<and> cStart (cur w') = cStart (cur w)"
proof -
  note D = pendingD[OF assms(1)]
  let ?w = "\<lambda>l m. w\<lparr>cur := (cur w)\<lparr>cCol := cCol (cur w) + 1\<rparr>, lastChar := l, lastCharCol := m\<rparr>"
  have col: "add32 (cCol (cur w)) 1 = cCol (cur w) + 1" "cRow (cur w) < get_rows T" "cCol (cur w) < get_cols T"
    using D(5,7,8) dimensions by (simp_all add: wrap_simps)
  have "\<exists>l m. whitespace_step T f b True txt c w = Some (True, ?w l m)"
  proof (cases "txt ! c = 32 \<or> txt ! c = 45")
    case True
    with assms col show ?thesis by (auto simp: whitespace_step_def gap_step_def advance_def Let_def)
  next
    case False
    with assms col have "whitespace_step T f b True txt c w = Some (True, ?w (lastChar w) (lastCharCol w))"
      by (auto simp: whitespace_step_def letter_step_def advance_def Let_def)
    then show ?thesis by blast
  qed
  then obtain l m where step: "whitespace_step T f b True txt c w = Some (True, ?w l m)" by blast
  from set_char[of s "cRow (cur w)" "cCol (cur w)" f b "txt ! c"] assms(1) col obtain s1 where
    s1: "set_char T (cRow (cur w)) (cCol (cur w)) f b (txt ! c) s = Some s1" "ok s1" by (auto simp: pending_def)
  have "fromCol w + (c - fromChar w) = cCol (cur w)" "drop (fromChar w) txt ! (c - fromChar w) = txt ! c"
    "c + 1 - fromChar w = Suc (c - fromChar w)"
    using assms(1) by (simp_all add: pending_def Suc_diff_le)
  then have "pending f b txt (c + 1) (?w l m) s1"
    using assms s1 unfolding pending_def good_cursor_def by (simp add: each_append)
  with step s1 assms(3) show ?thesis by (auto simp: type_char_def)
qed

lemma typed:
  assumes "pending f b txt c w s" "length txt < two32" "c + n = length txt"
    and "fits (cEnd (cur w) - cCol (cur w)) (cEnd (cur w) - cStart (cur w)) (drop c txt)"
  shows "\<exists>w' s'. each (type_char T f b) (drop c txt) (cur w, s) = Some (cur w', s') \<and>
    over_text (whitespace_step T f b True txt) (\<lambda>w. cCol (cur w) < cEnd (cur w)) id n c w = Some (length txt, w') \<and>
    pending f b txt (length txt) w' s'"
  using assms
proof (induction n arbitrary: c w s)
  case (Suc n)
  then have c: "c < length txt" "drop c txt = txt ! c # drop (c + 1) txt" by (simp_all add: Cons_nth_drop_Suc)
  have guard: "cCol (cur w) < cEnd (cur w)" by (rule pendingD(7)[OF Suc.prems(1)])
  have "\<exists>w' s'. whitespace_step T f b True txt c w = Some (True, w') \<and> type_char T f b (txt ! c) (cur w, s) = Some (cur w', s') \<and>
    pending f b txt (c + 1) w' s' \<and> fits (cEnd (cur w') - cCol (cur w')) (cEnd (cur w') - cStart (cur w')) (drop (c + 1) txt)"
  proof (cases "txt ! c = 10")
    case True
    with pending_newline[OF Suc.prems(1,2) c(1)] Suc.prems(4) c(2) show ?thesis by (auto simp: whitespace_step_def)
  next
    case False
    with Suc.prems(4) c(2) have "1 < cEnd (cur w) - cCol (cur w)"
      "fits (cEnd (cur w) - cCol (cur w) - 1) (cEnd (cur w) - cStart (cur w)) (drop (c + 1) txt)" by auto
    with pending_char[OF Suc.prems(1) c(1) False] show ?thesis by auto
  qed
  then obtain w1 s1 where w1: "whitespace_step T f b True txt c w = Some (True, w1)"
    "type_char T f b (txt ! c) (cur w, s) = Some (cur w1, s1)" "pending f b txt (c + 1) w1 s1"
    "fits (cEnd (cur w1) - cCol (cur w1)) (cEnd (cur w1) - cStart (cur w1)) (drop (c + 1) txt)" by blast
  from Suc.IH[OF w1(3) Suc.prems(2) _ w1(4)] Suc.prems(3) guard w1(1,2) c(2) show ?case by auto
qed auto

text \<open>A text whose lines fit is written the way a terminal types it, and the cursor ends behind it.\<close>

lemma write_fits:
  assumes "ok s" "good_cursor T k" "length txt < two32" "fits (cEnd k - cCol k) (cEnd k - cStart k) txt"
  shows "\<exists>k' s'. write_text T k f b wrap_whitespace txt True s = Some (k', s') \<and> each (type_char T f b) txt (k, s) = Some (k', s') \<and>
    ok s' \<and> good_cursor T k'"
proof -
  let ?w = "\<lparr>scr = s, cur = k, fromChar = 0, fromCol = cCol k, lastChar = 0, lastCharCol = cCol k\<rparr>"
  have "pending f b txt 0 ?w s" using assms by (simp add: pending_def)
  from typed[OF this assms(3), of "length txt"] assms(4) obtain w' s' where
    w': "each (type_char T f b) txt (k, s) = Some (cur w', s')" "pending f b txt (length txt) w' s'"
      "over_text (whitespace_step T f b True txt) (\<lambda>w. cCol (cur w) < cEnd (cur w)) id (length txt) 0 ?w = Some (length txt, w')"
    by auto
  with assms(2) pending_put[OF w'(2) assms(3)] show ?thesis
    by (auto simp: write_text_def Let_def good_cursor_def pending_def)
qed

lemma set_chars_cells:
  assumes "ok s" "r < get_rows T" "c + n \<le> get_cols T" "n \<le> length xs"
  shows "\<exists>s'. set_chars T r c f b n xs s = Some s' \<and> ok s' \<and> (\<forall>q. on_screen q \<longrightarrow> cell q s' =
    (if fst q = r \<and> c \<le> snd q \<and> snd q < c + n then mk (xs ! (snd q - c)) f b else cell q s))"
  unfolding set_chars[OF assms] using assms(3)
proof (induction n)
  case (Suc n)
  then obtain s1 where s1: "each (\<lambda>k. set_char T r (c + k) f b (xs ! k)) [0..<n] s = Some s1" "ok s1"
    "\<forall>q. on_screen q \<longrightarrow> cell q s1 = (if fst q = r \<and> c \<le> snd q \<and> snd q < c + n then mk (xs ! (snd q - c)) f b else cell q s)"
    by auto
  from set_char[OF s1(2) assms(2), of "c + n" f b "xs ! n"] Suc.prems obtain s2 where
    s2: "set_char T r (c + n) f b (xs ! n) s1 = Some s2" "ok s2"
      "\<forall>q. on_screen q \<longrightarrow> cell q s2 = (if q = (r, c + n) then mk (xs ! n) f b else cell q s1)"
    by (auto simp: on_screen_def)
  have "cell q s2 = (if fst q = r \<and> c \<le> snd q \<and> snd q < c + Suc n then mk (xs ! (snd q - c)) f b else cell q s)"
    if "on_screen q" for q using s1(3) s2(3) that by (cases q) auto
  with s1(1) s2(1,2) show ?case by (auto simp: each_append)
qed (use assms(1) in auto)

end

section \<open>Words that reach the edge\<close>

definition word_char :: "u8 \<Rightarrow> bool" where
  "word_char x \<longleftrightarrow> x \<noteq> 10 \<and> x \<noteq> 32 \<and> x \<noteq> 45"

lemma letters_run:
  assumes "\<And>i. i < m \<Longrightarrow> word_char (txt ! (c + i))" "cCol (cur w) + m < cEnd (cur w)" "cEnd (cur w) < two32"
  shows "over_text (whitespace_step T f b a txt) (\<lambda>w. cCol (cur w) < cEnd (cur w)) id (m + n) c w =
    over_text (whitespace_step T f b a txt) (\<lambda>w. cCol (cur w) < cEnd (cur w)) id n (c + m) (w\<lparr>cur := (cur w)\<lparr>cCol := cCol (cur w) + m\<rparr>\<rparr>)"
  using assms
proof (induction m arbitrary: c w)
  case (Suc m)
  let ?w = "w\<lparr>cur := (cur w)\<lparr>cCol := cCol (cur w) + 1\<rparr>\<rparr>"
  have x: "word_char (txt ! c)" using Suc.prems(1)[of 0] by simp
  have later: "word_char (txt ! (c + 1 + i))" if "i < m" for i using Suc.prems(1)[of "Suc i"] that by simp
  have "add32 (cCol (cur w)) 1 = cCol (cur w) + 1" using Suc.prems(2,3) by (simp add: wrap_simps)
  then have "whitespace_step T f b a txt c w = Some (True, ?w)"
    using x Suc.prems(2) by (simp add: whitespace_step_def word_char_def letter_step_def advance_def Let_def)
  then have "over_text (whitespace_step T f b a txt) (\<lambda>w. cCol (cur w) < cEnd (cur w)) id (Suc m + n) c w =
    over_text (whitespace_step T f b a txt) (\<lambda>w. cCol (cur w) < cEnd (cur w)) id (m + n) (c + 1) ?w" using Suc.prems(2) by simp
  also have "\<dots> = over_text (whitespace_step T f b a txt) (\<lambda>w. cCol (cur w) < cEnd (cur w)) id n (c + 1 + m)
      (?w\<lparr>cur := (cur ?w)\<lparr>cCol := cCol (cur ?w) + m\<rparr>\<rparr>)"
    by (rule Suc.IH) (use Suc.prems(2,3) later in auto)
  finally show ?case by (simp del: over_text.simps add: id_def)
qed simp

context text_screen
begin

text \<open>Writing a word, a space and a word whose last letter reaches the right edge: the second word is replaced by blanks, to
  be written on the next line, whose column count starts as if nothing was pending.\<close>

lemma wrap_state:
  assumes "ok s" "good_cursor T k" "cCol k = cStart k" "cRow k + 1 < get_rows T"
    and "\<forall>x \<in> set u. word_char x" "\<forall>x \<in> set v. word_char x" "v \<noteq> []" "length u + 1 + length v = cEnd k - cStart k"
    and whole: "txt = u @ 32 # v @ rest"
  shows "\<exists>w s'. over_text (whitespace_step T f b True txt) (\<lambda>w. cCol (cur w) < cEnd (cur w)) id (length txt) 0
        \<lparr>scr = s, cur = k, fromChar = 0, fromCol = cCol k, lastChar = 0, lastCharCol = cCol k\<rparr> =
      over_text (whitespace_step T f b True txt) (\<lambda>w. cCol (cur w) < cEnd (cur w)) id (length rest) (length u + 1 + length v) w \<and>
    w = \<lparr>scr = s', cur = line_feed k, fromChar = length u + 1, fromCol = cStart k, lastChar = length u + 1, lastCharCol = cStart k\<rparr> \<and>
    ok s' \<and> (\<forall>q. on_screen q \<longrightarrow> cell q s' = (if fst q = cRow k \<and> cStart k \<le> snd q \<and> snd q < cEnd k
      then mk ((u @ replicate (1 + length v) 32) ! (snd q - cStart k)) f b else cell q s))"
proof -
  let ?over = "over_text (whitespace_step T f b True txt) (\<lambda>w. cCol (cur w) < cEnd (cur w)) id"
  let ?at = "\<lambda>col l m. \<lparr>scr = s, cur = k\<lparr>cCol := col\<rparr>, fromChar = 0, fromCol = cStart k, lastChar = l, lastCharCol = m\<rparr>"
  let ?i = "length u + 1" and ?c = "cStart k + length u + 1"
  obtain v0 y where v: "v = v0 @ [y]" using assms(7) by (cases v rule: rev_cases) auto
  have y: "word_char y" using assms(6) v by simp
  have k: "cRow k < get_rows T" "cEnd k \<le> get_cols T" "cStart k < cEnd k" "k\<lparr>cCol := cStart k\<rparr> = k"
    using assms(2,3) by (auto simp: good_cursor_def)
  have small: "cEnd k < two32" using k(2) dimensions by simp
  have "?over (length u + (1 + (length v0 + (1 + length rest)))) 0 (?at (cStart k) 0 (cStart k)) =
      ?over (1 + (length v0 + (1 + length rest))) (length u) (?at (cStart k + length u) 0 (cStart k))"
    using letters_run[of "length u" "txt" 0 "?at (cStart k) 0 (cStart k)" T f b True "1 + (length v0 + (1 + length rest))"] assms(5,8) small by (simp add: whole nth_append del: over_text.simps)
  also have "\<dots> = ?over (length v0 + (1 + length rest)) ?i (?at ?c ?i ?c)"
  proof -
    have "txt ! length u = 32" by (simp add: whole)
    moreover have "add32 (cStart k + length u) 1 = ?c" "\<not> cEnd k \<le> ?c" "cStart k + length u < cEnd k"
      using assms(7,8) small by (auto simp: v wrap_simps)
    ultimately show ?thesis by (simp add: whitespace_step_def gap_step_def advance_def Let_def)
  qed
  also have "\<dots> = ?over (1 + length rest) (?i + length v0) (?at (?c + length v0) ?i ?c)"
  proof -
    have "word_char (txt ! (?i + i))" if "i < length v0" for i using that assms(6) by (auto simp: whole v nth_append)
    then show ?thesis
      using letters_run[of "length v0" "txt" ?i "?at ?c ?i ?c" T f b True "1 + length rest"] assms(8) small by (simp add: v del: over_text.simps)
  qed
  finally have upto_edge: "?over (length txt) 0 \<lparr>scr = s, cur = k, fromChar = 0, fromCol = cCol k, lastChar = 0, lastCharCol = cCol k\<rparr> =
      ?over (1 + length rest) (?i + length v0) (?at (?c + length v0) ?i ?c)"
    using k(4) assms(3) by (simp add: whole v)
  have edge: "?c + length v0 + 1 = cEnd k" "cStart k + ?i \<le> get_cols T" using assms(8) k by (simp_all add: v)
  from set_chars_cells[OF assms(1) k(1), of "cStart k" ?i "txt" f b] edge(2) obtain s1 where
    s1: "set_chars T (cRow k) (cStart k) f b ?i txt s = Some s1" "ok s1"
      "\<And>q. on_screen q \<Longrightarrow> cell q s1 = (if fst q = cRow k \<and> cStart k \<le> snd q \<and> snd q < ?c then mk (txt ! (snd q - cStart k)) f b else cell q s)"
    by (auto simp: whole)
  from set_chars_cells[OF s1(2) k(1), of ?c "length v" "replicate (length v) 32" f b] edge k(2) obtain s2 where
    s2: "set_chars T (cRow k) ?c f b (length v) (replicate (length v) 32) s1 = Some s2" "ok s2"
      "\<And>q. on_screen q \<Longrightarrow> cell q s2 = (if fst q = cRow k \<and> ?c \<le> snd q \<and> snd q < ?c + length v
        then mk (replicate (length v) 32 ! (snd q - ?c)) f b else cell q s1)"
    by (auto simp: v)
  have step: "whitespace_step T f b True txt (?i + length v0) (?at (?c + length v0) ?i ?c) = Some (True,
      \<lparr>scr = s2, cur = line_feed k, fromChar = ?i, fromCol = cStart k, lastChar = ?i, lastCharCol = cStart k\<rparr>)"
  proof -
    have "txt ! (?i + length v0) = y" by (simp add: whole v nth_append)
    moreover have "add32 (?c + length v0) 1 = cEnd k" "sub32 ?i 0 = ?i" "sub32 (cEnd k) ?c = length v" "add32 (cRow k) 1 = cRow k + 1"
      using edge small assms(4) dimensions by (simp_all add: wrap_simps v)
    ultimately show ?thesis
      using y s1(1) s2(1) assms(4)
      by (simp add: whitespace_step_def letter_step_def word_char_def advance_def Let_def put_def put_spaces_def at_bottom_def line_feed_def)
  qed
  have "cell q s2 = (if fst q = cRow k \<and> cStart k \<le> snd q \<and> snd q < cEnd k
      then mk ((u @ replicate (1 + length v) 32) ! (snd q - cStart k)) f b else cell q s)" if "on_screen q" for q
    using s1(3)[OF that] s2(3)[OF that] edge(1) by (auto simp: whole v nth_append nth_Cons' not_less)
  with upto_edge step s2(2) edge(1) show ?thesis
    by (intro exI[of _ "\<lparr>scr = s2, cur = line_feed k, fromChar = ?i, fromCol = cStart k, lastChar = ?i, lastCharCol = cStart k\<rparr>"] exI[of _ s2])
      (simp add: v)
qed

end

end
