(* ===== verification/VgaText.thy ===== *)
theory VgaText
  imports Screen
begin

text \<open>
  The VGA text mode driver of \<^verbatim>\<open>drivers/x86/textmode/VgaTextmode.cpp\<close> as an instance of the screens of theory Screen: its
  operations keep the promises the generic code relies on, and the theorems about text and scrolling hold on its video
  memory of 25 rows and 80 columns. The colours of \<^verbatim>\<open>drivers/Console.cpp\<close> are at the end.
\<close>

section \<open>The VGA text mode keeps the promises\<close>

definition vga_cell :: "pos \<Rightarrow> video \<Rightarrow> entry" where
  "vga_cell q s = s ! (fst q * 80 + snd q)"

lemma get_entry_exact [simp]: "row < 25 \<Longrightarrow> col \<le> 80 \<Longrightarrow> get_entry row col = row * 80 + col"
  by (simp add: get_entry_def wrap_simps)

lemma cell_index: "c < 80 \<Longrightarrow> c' < 80 \<Longrightarrow> r * 80 + c = r' * 80 + c' \<longleftrightarrow> r = r' \<and> (c::nat) = c'"
  by (rule linorder_cases[of r r']) auto

lemma row_range: "c' < 80 \<Longrightarrow> c + n \<le> 80 \<Longrightarrow>
    (r * 80 + c \<le> r' * 80 + c' \<and> r' * 80 + c' < r * 80 + c + n) \<longleftrightarrow> (r' = r \<and> c \<le> c' \<and> c' < c + (n::nat))"
  by (rule linorder_cases[of r r']) auto

lemma video_write_nth:
  assumes "i + length es \<le> length s"
  obtains s' where "video_write i es s = Some s'" "length s' = length s"
    "\<And>k. k < length s \<Longrightarrow> s' ! k = (if i \<le> k \<and> k < i + length es then es ! (k - i) else s ! k)"
proof (cases "es = []")
  case False
  with assms show thesis by (intro that[of "take i s @ es @ drop (i + length es) s"]) (auto simp: video_write_def nth_append min_def)
next
  case True
  show thesis by (rule that[of s]) (use True in \<open>auto simp: video_write_def\<close>)
qed

text \<open>A run written into one row of the screen.\<close>

lemma video_write_row:
  assumes "length s = 2000" "r < 25" "c + length es \<le> 80"
  shows "\<exists>s'. video_write (r * 80 + c) es s = Some s' \<and> length s' = 2000 \<and> (\<forall>q. fst q < 25 \<and> snd q < 80 \<longrightarrow>
    vga_cell q s' = (if fst q = r \<and> c \<le> snd q \<and> snd q < c + length es then es ! (snd q - c) else vga_cell q s))"
proof -
  have "r * 80 + c + length es \<le> length s" using assms by simp
  then obtain s' where s': "video_write (r * 80 + c) es s = Some s'" "length s' = length s"
    "\<And>k. k < length s \<Longrightarrow> s' ! k = (if r * 80 + c \<le> k \<and> k < r * 80 + c + length es then es ! (k - (r * 80 + c)) else s ! k)"
    by (rule video_write_nth) auto
  have "vga_cell q s' = (if fst q = r \<and> c \<le> snd q \<and> snd q < c + length es then es ! (snd q - c) else vga_cell q s)"
    if q: "fst q < 25" "snd q < 80" for q
  proof -
    have k: "fst q * 80 + snd q < length s" using q assms by simp
    show ?thesis
    proof (cases "fst q = r")
      case False
      with row_range[OF q(2) assms(3), of r "fst q"] s'(3)[OF k] show ?thesis by (auto simp: vga_cell_def)
    qed (use s'(3)[OF k] in \<open>auto simp: vga_cell_def\<close>)
  qed
  with s'(1,2) assms(1) show ?thesis by (intro exI[of _ s']) simp
qed

lemma vga_simps [simp]:
  "get_rows vga = 25" "get_cols vga = 80" "set_char vga = vga_set_char" "set_chars vga = vga_set_chars"
  "get_char vga = vga_get entryChar" "get_char_foreground vga = vga_get (\<lambda>e. ucast (fgColour e))"
  "get_char_background vga = vga_get (\<lambda>e. ucast (bgColour e))" "dispatch_scroll_region vga = vga_scroll_region"
  by (simp_all add: vga_def)

lemma mk_entry_again: "mk_entry (entryChar e) (ucast (fgColour e)) (ucast (bgColour e)) = e"
proof -
  have "ucast (ucast (x :: 4 word) :: u32) = x" for x by (rule bit_word_eqI) (simp add: bit_simps)
  then show ?thesis by (simp add: mk_entry_def)
qed

interpretation vgac: text_cells vga "\<lambda>s. length s = 2000" vga_cell mk_entry
proof
  fix s :: video and r c :: nat and f b x
  assume h: "length s = 2000" "r < get_rows vga" "c < get_cols vga"
  then have i: "r * 80 + c < length s" by simp
  show "\<exists>s'. set_char vga r c f b x s = Some s' \<and> length s' = 2000 \<and>
      (\<forall>q. fst q < get_rows vga \<longrightarrow> snd q < get_cols vga \<longrightarrow> vga_cell q s' = (if q = (r, c) then mk_entry x f b else vga_cell q s))"
    using h i by (auto simp: vga_set_char_def vga_cell_def nth_list_update cell_index)
  show "\<exists>x f b. get_char vga r c s = Some x \<and> get_char_foreground vga r c s = Some f \<and>
      get_char_background vga r c s = Some b \<and> mk_entry x f b = vga_cell (r, c) s"
    using h i by (auto simp: vga_get_def vga_cell_def mk_entry_again)
next
  fix s t :: video
  assume h: "length s = 2000" "length t = 2000" "\<forall>q. fst q < get_rows vga \<longrightarrow> snd q < get_cols vga \<longrightarrow> vga_cell q s = vga_cell q t"
  show "s = t"
  proof (rule nth_equalityI)
    fix i assume "i < length s"
    then have "i div 80 < 25" "i mod 80 < 80" using h(1) by simp_all
    with h(3)[rule_format, of "(i div 80, i mod 80)"] show "s ! i = t ! i" by (simp add: vga_cell_def)
  qed (use h in simp)
qed simp_all

section \<open>Runs of characters and scrolling by rows\<close>

lemma vga_set_chars_run:
  assumes "length s = 2000" "r < 25" "c + n \<le> 80" "n \<le> length xs"
  shows "vga_set_chars r c f b n xs s =
    Some (take (r * 80 + c) s @ map (\<lambda>c. mk_entry c f b) (take n xs) @ drop (r * 80 + c + n) s)"
  using assms by (auto simp: vga_set_chars_def video_write_def min_def)

lemma vga_set_chars_each:
  assumes "length s = 2000" "r < 25" "c + n \<le> 80" "n \<le> length xs"
  shows "vga_set_chars r c f b n xs s = each (\<lambda>k. vga_set_char r (c + k) f b (xs ! k)) [0..<n] s"
  using assms(3,4)
proof (induction n)
  case (Suc n)
  let ?i = "r * 80 + c + n" and ?es = "map (\<lambda>c. mk_entry c f b) (take n xs)"
  have i: "?i < length s" "get_entry r (c + n) = ?i" using assms(1,2) Suc.prems(1) by simp_all
  have len: "length (take (r * 80 + c) s @ ?es) = ?i" using i(1) Suc.prems(2) by simp
  have "drop ?i s = s ! ?i # drop (Suc ?i) s" by (rule Cons_nth_drop_Suc[OF i(1), symmetric])
  with len have upd: "(take (r * 80 + c) s @ ?es @ drop ?i s)[?i := y] = take (r * 80 + c) s @ (?es @ [y]) @ drop (Suc ?i) s" for y
    using list_update_append1 list_update_length[of "take (r * 80 + c) s @ ?es" "s ! ?i" "drop (Suc ?i) s" y] by simp
  have long: "?i < length (take (r * 80 + c) s @ ?es @ drop ?i s)" using i(1) len by simp
  have "each (\<lambda>k. vga_set_char r (c + k) f b (xs ! k)) [0..<n] s = Some (take (r * 80 + c) s @ ?es @ drop ?i s)"
    using Suc vga_set_chars_run[OF assms(1,2), of c n xs f b] by simp
  then have "each (\<lambda>k. vga_set_char r (c + k) f b (xs ! k)) [0..<Suc n] s =
    Some (take (r * 80 + c) s @ (?es @ [mk_entry (xs ! n) f b]) @ drop (Suc ?i) s)"
    using long upd i(2) by (simp add: each_append vga_set_char_def)
  with vga_set_chars_run[OF assms(1,2) Suc.prems] Suc.prems(2) show ?case by (simp add: take_Suc_conv_app_nth)
qed (simp add: vga_set_chars_def video_write_def)

lemma vga_scroll_row_moves:
  assumes "length s = 2000" "row0 + nrows \<le> 25" "col0 + ncols \<le> 80" "\<bar>dr\<bar> \<le> 1073741824" "dr \<noteq> 0"
    and rows: "row0 \<le> r" "r < row0 + nrows"
  shows "\<exists>s'. vga_scroll_row (int row0) (int (row0 + nrows)) (int col0) ncols dr 0 (mk_entry x f b) (int r) s = Some s' \<and> length s' = 2000 \<and>
      (\<forall>q. fst q < 25 \<and> snd q < 80 \<longrightarrow> vga_cell q s' = (if q \<in> {r} \<times> {col0..<col0 + ncols}
         then moved (shift_source (region_cells row0 col0 nrows ncols) dr 0) (mk_entry x f b) (\<lambda>q. vga_cell q s) q else vga_cell q s))"
proof -
  have r: "r < 25" using assms(2) rows by simp
  have sub: "sub_i32 (int r) dr = Some (int r - dr)" using r assms(4) by (intro sub_i32_exact) simp_all
  have u: "to_u32 (int r) = r" "to_u32 (int col0) = col0" using r assms(3) by (simp_all add: wrap_simps)
  have src: "shift_source (region_cells row0 col0 nrows ncols) dr 0 (r, c) =
      (if int r - dr < int row0 \<or> int r - dr \<ge> int (row0 + nrows) then None else Some (nat (int r - dr), c))"
    if "col0 \<le> c" "c < col0 + ncols" for c using that by (auto simp: shift_source_def region_cells_def Let_def)
  have inside: "(r', c') \<in> {r} \<times> {col0..<col0 + ncols} \<longleftrightarrow> r' = r \<and> col0 \<le> c' \<and> c' < col0 + ncols" for r' c'
    by auto
  show ?thesis
  proof (cases "int r - dr < int row0 \<or> int r - dr \<ge> int (row0 + nrows)")
    case True
    have "vga_scroll_row (int row0) (int (row0 + nrows)) (int col0) ncols dr 0 (mk_entry x f b) (int r) s =
      video_write (r * 80 + col0) (replicate ncols (mk_entry x f b)) s"
      using True r sub u assms(3) by (simp add: vga_scroll_row_def)
    with video_write_row[OF assms(1) r, of col0 "replicate ncols (mk_entry x f b)"] assms(3) show ?thesis
      using True by (auto simp: inside src moved_def)
  next
    case False
    define r' where "r' = nat (int r - dr)"
    have r': "r' < 25" "r' \<noteq> r" "to_u32 (int r - dr) = r'" "int r - dr = int r'"
      using False assms(2,5) r rows unfolding r'_def by (auto simp: wrap_simps)
    let ?es = "take ncols (drop (r' * 80 + col0) s)"
    have "vga_scroll_row (int row0) (int (row0 + nrows)) (int col0) ncols dr 0 (mk_entry x f b) (int r) s =
      video_copy (r * 80 + col0) (r' * 80 + col0) ncols s"
      using False r r'(1,3) sub u assms(3) by (simp add: vga_scroll_row_def wrap_simps to_u32_def)
    also have "\<dots> = video_write (r * 80 + col0) ?es s"
    proof -
      have "r * 80 + 80 \<le> r' * 80 \<or> r' * 80 + 80 \<le> r * 80" using r'(2) by (rule linorder_neqE_nat) auto
      then show ?thesis using assms(1,3) r'(1) by (auto simp: video_copy_def video_write_def)
    qed
    finally have step: "vga_scroll_row (int row0) (int (row0 + nrows)) (int col0) ncols dr 0 (mk_entry x f b) (int r) s =
      video_write (r * 80 + col0) ?es s" .
    have len: "length ?es = ncols" using assms(1,3) r'(1) by simp
    have "?es ! (c - col0) = vga_cell (r', c) s" if "col0 \<le> c" "c < col0 + ncols" for c
      using that assms(1,3) r'(1) by (simp add: vga_cell_def)
    with video_write_row[OF assms(1) r, of col0 ?es] assms(3) show ?thesis
      unfolding step len using False by (auto simp: inside src moved_def r'_def)
  qed
qed

lemma on_vga: "vgac.on_screen q \<longleftrightarrow> fst q < 25 \<and> snd q < 80"
  by (simp add: vgac.on_screen_def)

lemma vga_scroll_moves:
  assumes "length s = 2000" "row0 + nrows \<le> 25" "col0 + ncols \<le> 80" "\<bar>dr\<bar> \<le> 1073741824" "dr \<noteq> 0"
  shows "\<exists>s'. vga_scroll_region row0 col0 nrows ncols dr 0 f b x s = Some s' \<and> length s' = 2000 \<and>
    (\<forall>q. vgac.on_screen q \<longrightarrow> vga_cell q s' = (if q \<in> region_cells row0 col0 nrows ncols
       then moved (shift_source (region_cells row0 col0 nrows ncols) dr 0) (mk_entry x f b) (\<lambda>q. vga_cell q s) q else vga_cell q s))"
proof -
  let ?R = "region_cells row0 col0 nrows ncols"
  let ?rows = "in_direction (dr \<le> 0) (int row0) (int (row0 + nrows))"
  let ?W = "\<lambda>row. {nat row} \<times> {col0..<col0 + ncols}"
  let ?g = "vga_scroll_row (int row0) (int (row0 + nrows)) (int col0) ncols dr 0 (mk_entry x f b)"
  have ends: "to_i32 row0 = int row0" "to_i32 col0 = int col0" "to_i32 (to_u32 (int row0 + int nrows)) = int (row0 + nrows)"
    using assms(2,3) by (simp_all add: wrap_simps)
  have W: "(\<Union>row\<in>set ?rows. ?W row) = ?R"
  proof -
    have "\<exists>row\<in>set ?rows. q \<in> ?W row" if "q \<in> ?R" for q
      by (rule bexI[of _ "int (fst q)"]) (use that in \<open>auto simp: region_cells_def\<close>)
    moreover have "q \<in> ?R" if "row \<in> set ?rows" "q \<in> ?W row" for row q
      using that by (auto simp: region_cells_def)
    ultimately show ?thesis by blast
  qed
  have order: "sorted_wrt (\<lambda>p p'. ?W p \<inter> ?W p' = {} \<and> (\<forall>q \<in> ?W p'. \<forall>q'. shift_source ?R dr 0 q = Some q' \<longrightarrow> q' \<notin> ?W p)) ?rows"
  proof (rule sorted_wrt_mono_rel[OF _ in_direction_sorted])
    fix p p' :: int
    assume "p \<in> set ?rows" "p' \<in> set ?rows"
    then have pos: "0 \<le> p" "0 \<le> p'" by auto
    assume "if dr \<le> 0 then p < p' else p' < p"
    with pos assms(5) show "?W p \<inter> ?W p' = {} \<and> (\<forall>q \<in> ?W p'. \<forall>q'. shift_source ?R dr 0 q = Some q' \<longrightarrow> q' \<notin> ?W p)"
      by (auto simp: shift_source_def Let_def split: if_splits)
  qed
  have "\<exists>s'. each ?g ?rows s = Some s' \<and> length s' = 2000 \<and>
    (\<forall>q. vgac.on_screen q \<longrightarrow> vga_cell q s' = (if q \<in> (\<Union>p\<in>set ?rows. ?W p)
       then moved (shift_source ?R dr 0) (mk_entry x f b) (\<lambda>q. vga_cell q s) q else vga_cell q s))"
  proof (rule vgac.each_moves[OF assms(1) _ order])
    fix row and t :: video
    assume row: "row \<in> set ?rows" and t: "length t = 2000"
    obtain r where r: "row = int r" "row0 \<le> r" "r < row0 + nrows"
      by (rule that[of "nat row"]) (use row in auto)
    show "\<exists>s'. ?g row t = Some s' \<and> length s' = 2000 \<and> (\<forall>q. vgac.on_screen q \<longrightarrow>
      vga_cell q s' = (if q \<in> ?W row then moved (shift_source ?R dr 0) (mk_entry x f b) (\<lambda>q. vga_cell q t) q else vga_cell q t))"
      using vga_scroll_row_moves[OF t assms(2-5) r(2,3)] unfolding r(1) nat_int on_vga by simp
  next
    fix q q' assume "shift_source ?R dr 0 q = Some q'"
    then show "vgac.on_screen q'" using assms(2,3) by (auto simp: shift_source_def region_cells_def on_vga Let_def split: if_splits)
  qed
  then show ?thesis unfolding W vga_scroll_region_def Let_def ends .
qed

interpretation vgat: text_screen vga "\<lambda>s. length s = 2000" vga_cell mk_entry
proof
  fix s :: video and r c n :: nat and f b and xs :: "u8 list"
  assume "length s = 2000" "r < get_rows vga" "c + n \<le> get_cols vga" "n \<le> length xs"
  then show "set_chars vga r c f b n xs s = each (\<lambda>k. set_char vga r (c + k) f b (xs ! k)) [0..<n] s"
    using vga_set_chars_each[of s r c n xs f b] by simp
next
  fix s :: video and f b x
  assume "length s = 2000"
  from vga_scroll_moves[OF this, of 0 25 0 80 "- 1" f b x] show "\<exists>s'. scroll vga (- 1) 0 f b x s = Some s' \<and> length s' = 2000"
    by (auto simp: scroll_def)
qed

section \<open>Properties\<close>

text \<open>Scrolling by rows on the VGA screen: the driver's own row copies and the generic cell-by-cell loop of
  \<^verbatim>\<open>Textmode::scroll_region\<close> give the same video memory, and both move the whole region at once: each cell of the region
  takes the old content of the cell it comes from, or the blank when that lies outside the region, and no cell outside the
  region changes. The generic loop does so for every combination of row and column distance.\<close>

theorem scroll_region_moves:
  assumes "length s = 2000" "row0 + nrows \<le> 25" "col0 + ncols \<le> 80" "\<bar>dr\<bar> \<le> 1073741824" "\<bar>dc\<bar> \<le> 1073741824"
  shows "\<exists>s'. base_scroll_region vga row0 col0 nrows ncols dr dc f b x s = Some s' \<and> length s' = 2000 \<and>
      (dc = 0 \<and> dr \<noteq> 0 \<longrightarrow> vga_scroll_region row0 col0 nrows ncols dr dc f b x s = Some s') \<and>
      (\<forall>r c. r < 25 \<and> c < 80 \<longrightarrow> vga_cell (r, c) s' =
         (if (r, c) \<in> region_cells row0 col0 nrows ncols
          then moved (shift_source (region_cells row0 col0 nrows ncols) dr dc) (mk_entry x f b) (\<lambda>q. vga_cell q s) (r, c)
          else vga_cell (r, c) s))"
proof -
  from vgac.base_scroll_moves[OF assms(1) _ _ assms(4,5), of row0 nrows col0 ncols f b x] assms(2,3) obtain s' where
    s': "base_scroll_region vga row0 col0 nrows ncols dr dc f b x s = Some s'" "length s' = 2000"
      "\<And>q. vgac.on_screen q \<Longrightarrow> vga_cell q s' = (if q \<in> region_cells row0 col0 nrows ncols
         then moved (shift_source (region_cells row0 col0 nrows ncols) dr dc) (mk_entry x f b) (\<lambda>q. vga_cell q s) q
         else vga_cell q s)" by auto
  have "vga_scroll_region row0 col0 nrows ncols dr dc f b x s = Some s'" if d: "dc = 0" "dr \<noteq> 0"
  proof -
    from vga_scroll_moves[OF assms(1-4) d(2), of f b x] s'(3) d(1) obtain t where
      t: "vga_scroll_region row0 col0 nrows ncols dr dc f b x s = Some t" "length t = 2000"
        "\<And>q. vgac.on_screen q \<Longrightarrow> vga_cell q t = vga_cell q s'" by auto
    have "t = s'" by (rule vgac.cells_determine[OF t(2) s'(2)]) (use t(3) in \<open>simp add: vgac.on_screen_def\<close>)
    with t(1) show ?thesis by simp
  qed
  with s' show ?thesis by (intro exI[of _ s']) (auto simp: on_vga)
qed

theorem scroll_region_moves_witness:
  "\<exists>s'. base_scroll_region vga 0 0 25 80 (- 1) 0 7 0 32 (replicate 2000 (mk_entry 65 7 0)) = Some s' \<and>
    vga_cell (24, 3) s' = mk_entry 32 7 0 \<and> vga_cell (23, 3) s' = mk_entry 65 7 0"
proof -
  from scroll_region_moves[of "replicate 2000 (mk_entry 65 7 0)" 0 25 0 80 "- 1" 0 7 0 32] obtain s' where
    s': "base_scroll_region vga 0 0 25 80 (- 1) 0 7 0 32 (replicate 2000 (mk_entry 65 7 0)) = Some s'"
      "\<And>r c. r < 25 \<and> c < 80 \<Longrightarrow> vga_cell (r, c) s' =
         (if (r, c) \<in> region_cells 0 0 25 80
          then moved (shift_source (region_cells 0 0 25 80) (- 1) 0) (mk_entry 32 7 0) (\<lambda>q. vga_cell q (replicate 2000 (mk_entry 65 7 0))) (r, c)
          else vga_cell (r, c) (replicate 2000 (mk_entry 65 7 0)))" by auto
  have "vga_cell (24, 3) s' = mk_entry 32 7 0" "vga_cell (23, 3) s' = mk_entry 65 7 0"
    using s'(2)[of 24 3] s'(2)[of 23 3] by (simp_all add: region_cells_def moved_def shift_source_def vga_cell_def)
  with s'(1) show ?thesis by blast
qed

text \<open>The console's text writer against a terminal that types one character at a time: when every line of the text
  leaves the last column free, \<^verbatim>\<open>write_text\<close> with word wrap puts the same characters into the same cells, scrolls at the
  same moments and leaves the cursor behind the text. A cursor outside its columns or below the screen writes nothing.\<close>

theorem text_lines:
  assumes "length s = 2000" "good_cursor vga k" "length xs < two32" "fits (cEnd k - cCol k) (cEnd k - cStart k) xs"
  shows "(\<exists>k' s'. console_write vga f b xs (k, s) = Some (k', s') \<and> each (type_char vga f b) xs (k, s) = Some (k', s') \<and>
      length s' = 2000 \<and> good_cursor vga k' \<and> cEnd k' = cEnd k \<and> cStart k' = cStart k) \<and>
    (cRow l \<ge> 25 \<or> cCol l \<ge> cEnd l \<longrightarrow> console_write vga f b ys (l, t) = Some (l, t))"
proof -
  from vgat.write_fits[OF assms, of f b] obtain k' s' where
    w: "write_text vga k f b wrap_whitespace xs True s = Some (k', s')" "each (type_char vga f b) xs (k, s) = Some (k', s')"
      "length s' = 2000" "good_cursor vga k'" by blast
  have "each (type_char vga f b) xs ks = Some ks' \<Longrightarrow> cEnd (fst ks') = cEnd (fst ks) \<and> cStart (fst ks') = cStart (fst ks)" for ks ks'
  proof (induction xs arbitrary: ks)
    case (Cons x xs)
    then obtain ks1 where "type_char vga f b x ks = Some ks1" "each (type_char vga f b) xs ks1 = Some ks'"
      by (auto split: bind_splits)
    moreover from this(1) have "cEnd (fst ks1) = cEnd (fst ks) \<and> cStart (fst ks1) = cStart (fst ks)"
      by (auto simp: type_char_def split: if_splits bind_splits)
    ultimately show ?case using Cons.IH by auto
  qed simp
  from this[OF w(2)] w show ?thesis by (auto simp: console_write_def write_text_def[of vga l])
qed

theorem text_lines_witness:
  "\<exists>k' s'. console_write vga 7 1 [72, 10, 73] (\<lparr>cRow = 24, cCol = 78, cStart = 0, cEnd = 80\<rparr>, replicate 2000 (mk_entry 32 7 1)) = Some (k', s') \<and>
    cEnd k' = 80"
proof -
  let ?k = "\<lparr>cRow = 24, cCol = 78, cStart = 0, cEnd = 80\<rparr>" and ?s = "replicate 2000 (mk_entry 32 7 1)"
  have "length ?s = 2000" "good_cursor vga ?k" "length [72, 10, 73 :: u8] < two32" "fits (cEnd ?k - cCol ?k) (cEnd ?k - cStart ?k) [72, 10, 73]"
    by (simp_all add: good_cursor_def)
  from text_lines[OF this, of 7 1] show ?thesis by fastforce
qed

lemma wrapped_word_put:
  assumes "length s = 2000" "row < 25" "col + n \<le> 80" "n \<le> length xs"
  obtains s' where "vga_set_chars row col f b n xs s = Some s'" "length s' = 2000"
    "\<And>r c. r < 25 \<Longrightarrow> c < 80 \<Longrightarrow> vga_cell (r, c) s' =
      (if r = row \<and> col \<le> c \<and> c < col + n then mk_entry (xs ! (c - col)) f b else vga_cell (r, c) s)"
  using vgat.set_chars_cells[of s row col n xs f b] assms by (auto simp: vgac.on_screen_def)

lemma wrapped_text:
  assumes "length s = 2000" "good_cursor vga k" "cCol k = cStart k" "cRow k + 1 < 25"
    and "\<forall>x \<in> set u. word_char x" "\<forall>x \<in> set v. word_char x" "v \<noteq> []" "length u + 1 + length v = cEnd k - cStart k"
  shows "\<exists>s'. console_write vga f b (u @ 32 # v) (k, s) = Some (k\<lparr>cRow := cRow k + 1\<rparr>, s') \<and>
      (\<forall>r c. r < 25 \<and> c < 80 \<longrightarrow> vga_cell (r, c) s' =
         (if r = cRow k \<and> cStart k \<le> c \<and> c < cEnd k then mk_entry ((u @ replicate (1 + length v) 32) ! (c - cStart k)) f b
          else if r = cRow k + 1 \<and> cStart k \<le> c \<and> c < cStart k + length v then mk_entry (v ! (c - cStart k)) f b
          else vga_cell (r, c) s))"
proof -
  have k: "cEnd k \<le> 80" "cRow k < 25" "cCol k < cEnd k" using assms(2,3) by (auto simp: good_cursor_def)
  have feed: "line_feed k = k\<lparr>cRow := cRow k + 1\<rparr>" using assms(3,4) by (auto simp: line_feed_def wrap_simps)
  from vgat.wrap_state[OF assms(1,2,3) _ assms(5-8), of "u @ 32 # v" "[]" f b] assms(4) obtain s1 where
    s1: "over_text (whitespace_step vga f b True (u @ 32 # v)) (\<lambda>w. cCol (cur w) < cEnd (cur w)) id (length (u @ 32 # v)) 0
        \<lparr>scr = s, cur = k, fromChar = 0, fromCol = cCol k, lastChar = 0, lastCharCol = cCol k\<rparr> = Some (length u + 1 + length v,
        \<lparr>scr = s1, cur = line_feed k, fromChar = length u + 1, fromCol = cStart k, lastChar = length u + 1, lastCharCol = cStart k\<rparr>)"
      "length s1 = 2000" "\<And>r c. r < 25 \<Longrightarrow> c < 80 \<Longrightarrow> vga_cell (r, c) s1 = (if r = cRow k \<and> cStart k \<le> c \<and> c < cEnd k
        then mk_entry ((u @ replicate (1 + length v) 32) ! (c - cStart k)) f b else vga_cell (r, c) s)"
    by (auto simp: vgac.on_screen_def)
  have fit: "cStart k + length v \<le> 80" using assms(8) k(1) by simp
  obtain s2 where s2: "vga_set_chars (cRow k + 1) (cStart k) f b (length v) v s1 = Some s2"
    "\<And>r c. r < 25 \<Longrightarrow> c < 80 \<Longrightarrow> vga_cell (r, c) s2 =
      (if r = cRow k + 1 \<and> cStart k \<le> c \<and> c < cStart k + length v then mk_entry (v ! (c - cStart k)) f b else vga_cell (r, c) s1)"
    by (rule wrapped_word_put[OF s1(2) assms(4) fit order_refl, where f = f and b = b]) (rule that)
  have n: "sub32 (length u + 1 + length v) (length u + 1) = length v" using assms(8) k(1) by (simp add: wrap_simps)
  have "console_write vga f b (u @ 32 # v) (k, s) = Some (k\<lparr>cRow := cRow k + 1\<rparr>, s2)"
    using k(2,3) s1(1) s2(1) n feed by (simp add: console_write_def write_text_def Let_def put_def del: over_text.simps)
  then show ?thesis by (intro exI[of _ s2] conjI) (use s1(3) s2(2) in auto)
qed

lemma overrunning_text:
  assumes "length s = 2000" "good_cursor vga k" "cCol k = cStart k" "cRow k + 1 < 25"
    and "\<forall>x \<in> set u. word_char x" "\<forall>x \<in> set v. word_char x" "v \<noteq> []" "length u + 1 + length v = cEnd k - cStart k"
    and h: "cRow k = 23" "cStart k = 0" "cEnd k = 80" "1 < length v" "length rest = 80" "\<forall>x \<in> set rest. word_char x"
  shows "console_write vga f b (u @ 32 # v @ rest) (k, s) = None"
proof -
  have k: "cEnd k \<le> 80" "cRow k < 25" "cCol k < cEnd k" using assms(2,3) by (auto simp: good_cursor_def)
  let ?over = "over_text (whitespace_step vga f b True (u @ 32 # v @ rest)) (\<lambda>w. cCol (cur w) < cEnd (cur w)) id"
  from vgat.wrap_state[OF assms(1,2,3) _ assms(5-8), of "u @ 32 # v @ rest" rest f b] assms(4) obtain s1 where
    s1: "?over (length (u @ 32 # v @ rest)) 0 \<lparr>scr = s, cur = k, fromChar = 0, fromCol = cCol k, lastChar = 0, lastCharCol = cCol k\<rparr> =
        ?over (79 + 1) 80 \<lparr>scr = s1, cur = line_feed k, fromChar = length u + 1, fromCol = 0, lastChar = length u + 1, lastCharCol = 0\<rparr>"
      "length s1 = 2000"
    using h assms(8) by (auto simp del: over_text.simps)
  have rest: "word_char (rest ! i)" if "i < 80" for i using h(5,6) that by simp
  have at: "(u @ 32 # v @ rest) ! (80 + i) = rest ! i" for i
  proof -
    have "80 + i = length (u @ 32 # v) + i" using h(2,3) assms(8) by simp
    then show ?thesis using nth_append_length_plus[of "u @ 32 # v" rest i] by simp
  qed
  let ?w = "\<lparr>scr = s1, cur = (line_feed k)\<lparr>cCol := 79\<rparr>, fromChar = length u + 1, fromCol = 0, lastChar = length u + 1, lastCharCol = 0\<rparr>"
  have "?over (79 + 1) 80 \<lparr>scr = s1, cur = line_feed k, fromChar = length u + 1, fromCol = 0, lastChar = length u + 1, lastCharCol = 0\<rparr> =
      ?over 1 159 ?w"
    using letters_run[of 79 "u @ 32 # v @ rest" 80 "\<lparr>scr = s1, cur = line_feed k, fromChar = length u + 1, fromCol = 0, lastChar = length u + 1, lastCharCol = 0\<rparr>" vga f b True 1]
      h(2,3) rest at by (simp add: line_feed_def del: over_text.simps)
  moreover have "whitespace_step vga f b True (u @ 32 # v @ rest) 159 ?w = None"
  proof -
    have n: "sub32 159 (length u + 1) = length v + 79" using h assms(8) by (simp add: sub32_exact)
    have "vga_set_chars 24 0 f b (length v + 79) (drop (length u + 1) (u @ 32 # v @ rest)) s1 = None"
      using h(4,5) s1(2) by (auto simp: vga_set_chars_def video_write_def)
    with n h show ?thesis
      using rest[of 79] at[of 79] by (simp add: whitespace_step_def letter_step_def word_char_def advance_def line_feed_def Let_def put_def wrap_simps)
  qed
  ultimately show ?thesis
    using k(2,3) s1(1) h by (simp add: console_write_def write_text_def Let_def line_feed_def)
qed

text \<open>Text that wraps. A word whose last letter reaches the right edge is blanked on its line and written again at the
  start of the next, but the cursor is left at the start of that line, as if the word were not there, so that the next text
  overwrites it. When the text itself goes on for another line, the run that is written is longer than the line by the
  wrapped word: on the last two lines of the screen the write leaves the memory the driver has subscribed to.\<close>

theorem text_wraps:
  assumes "length s = 2000" "good_cursor vga k" "cCol k = cStart k" "cRow k + 1 < 25"
    and "\<forall>x \<in> set u. word_char x" "\<forall>x \<in> set v. word_char x" "v \<noteq> []" "length u + 1 + length v = cEnd k - cStart k"
  shows "(\<exists>s'. console_write vga f b (u @ 32 # v) (k, s) = Some (k\<lparr>cRow := cRow k + 1\<rparr>, s') \<and>
      (\<forall>r c. r < 25 \<and> c < 80 \<longrightarrow> vga_cell (r, c) s' =
         (if r = cRow k \<and> cStart k \<le> c \<and> c < cEnd k then mk_entry ((u @ replicate (1 + length v) 32) ! (c - cStart k)) f b
          else if r = cRow k + 1 \<and> cStart k \<le> c \<and> c < cStart k + length v then mk_entry (v ! (c - cStart k)) f b
          else vga_cell (r, c) s))) \<and>
    (cRow k = 23 \<and> cStart k = 0 \<and> cEnd k = 80 \<and> 1 < length v \<and> length rest = 80 \<and> (\<forall>x \<in> set rest. word_char x) \<longrightarrow>
      console_write vga f b (u @ 32 # v @ rest) (k, s) = None)"
  by (intro conjI impI; (elim conjE)?) (rule wrapped_text[OF assms], rule overrunning_text[OF assms])

theorem text_wraps_witness:
  "(\<exists>s'. console_write vga 7 1 ([97] @ 32 # replicate 78 98) (\<lparr>cRow = 23, cCol = 0, cStart = 0, cEnd = 80\<rparr>, replicate 2000 (mk_entry 32 7 1)) =
      Some (\<lparr>cRow = 24, cCol = 0, cStart = 0, cEnd = 80\<rparr>, s') \<and> vga_cell (24, 0) s' = mk_entry 98 7 1) \<and>
    console_write vga 7 1 ([97] @ 32 # replicate 78 98 @ replicate 80 99)
      (\<lparr>cRow = 23, cCol = 0, cStart = 0, cEnd = 80\<rparr>, replicate 2000 (mk_entry 32 7 1)) = None"
proof -
  let ?k = "\<lparr>cRow = 23, cCol = 0, cStart = 0, cEnd = 80\<rparr>" and ?s = "replicate 2000 (mk_entry 32 7 1)"
  have g: "length ?s = 2000" "good_cursor vga ?k" "cCol ?k = cStart ?k" "cRow ?k + 1 < 25" "\<forall>x\<in>set [97]. word_char x"
    "\<forall>x\<in>set (replicate 78 98). word_char x" "replicate 78 (98::u8) \<noteq> []" "length [97::u8] + 1 + length (replicate 78 (98::u8)) = cEnd ?k - cStart ?k"
    by (simp_all add: good_cursor_def word_char_def)
  note both = text_wraps[OF g, of 7 1 "replicate 80 99"]
  from both obtain s' where s':
    "console_write vga 7 1 ([97] @ 32 # replicate 78 98) (?k, ?s) = Some (?k\<lparr>cRow := cRow ?k + 1\<rparr>, s')"
    "vga_cell (24, 0) s' = mk_entry (replicate 78 98 ! 0) 7 1" by fastforce
  moreover have "console_write vga 7 1 ([97] @ 32 # replicate 78 98 @ replicate 80 99) (?k, ?s) = None"
    using both by (simp add: word_char_def)
  ultimately show ?thesis by (intro conjI exI[of _ s']) simp_all
qed

section \<open>Colours\<close>

definition channel :: "nat \<Rightarrow> u32 \<Rightarrow> int" where
  "channel k c = int (unat (and (drop_bit k c) 0xff))"

definition colour_distance :: "u32 \<Rightarrow> u32 \<Rightarrow> nat" where
  "colour_distance c d = to_u32 (\<bar>channel 16 c - channel 16 d\<bar> + \<bar>channel 8 c - channel 8 d\<bar> + \<bar>channel 0 c - channel 0 d\<bar>)"

text \<open>The loop of \<^verbatim>\<open>Console::get_nearest_colour\<close> over the palette from index \<open>i\<close>.\<close>

fun nearest_from :: "u32 \<Rightarrow> nat \<Rightarrow> u32 list \<Rightarrow> nat \<times> nat \<Rightarrow> nat \<times> nat" where
  "nearest_from c i [] best = best"
| "nearest_from c i (d # ds) best =
     nearest_from c (i + 1) ds (if colour_distance c d < snd best then (i, colour_distance c d) else best)"

definition get_nearest_colour :: "u32 list \<Rightarrow> u32 \<Rightarrow> nat" where
  "get_nearest_colour palette c = fst (nearest_from c 0 palette (0, 0xffffffff))"

definition vga_colours :: "u32 list" where
  "vga_colours = [0x000000, 0x000080, 0x008000, 0x008080, 0x800000, 0x800080, 0x808000, 0x808080,
     0x404040, 0x0000f0, 0x00f000, 0x00f0f0, 0xf00000, 0xf000f0, 0xf0f000, 0xffffff]"

definition vga_get_colour :: "nat \<Rightarrow> u32" where
  "vga_get_colour i = (if i \<ge> 16 then 0 else vga_colours ! i)"

lemma channel_range: "0 \<le> channel k c" "channel k c \<le> 255"
proof -
  have "and (drop_bit k c) 0xff \<le> (0xff :: u32)" by (rule word_and_le1)
  then have "unat (and (drop_bit k c) 0xff) \<le> 255" by (simp add: word_le_nat_alt)
  then show "0 \<le> channel k c" "channel k c \<le> 255" unfolding channel_def by linarith+
qed

lemma colour_distance_small: "colour_distance c d \<le> 765"
proof -
  let ?x = "\<bar>channel 16 c - channel 16 d\<bar> + \<bar>channel 8 c - channel 8 d\<bar> + \<bar>channel 0 c - channel 0 d\<bar>"
  have "?x \<le> 765" using channel_range[of 16] channel_range[of 8] channel_range[of 0] by (smt (verit))
  then show ?thesis by (simp add: colour_distance_def to_u32_nat)
qed

lemma nearest_from_least:
  assumes "nearest_from c i ds best = (k, m)"
  shows "(\<forall>d \<in> set ds. m \<le> colour_distance c d) \<and> m \<le> snd best \<and>
      ((k, m) = best \<or> i \<le> k \<and> k < i + length ds \<and> m = colour_distance c (ds ! (k - i)) \<and> m < snd best \<and>
        (\<forall>j < k - i. m < colour_distance c (ds ! j)))"
  using assms
proof (induction ds arbitrary: i best)
  case (Cons d ds)
  let ?b = "if colour_distance c d < snd best then (i, colour_distance c d) else best"
  have b: "snd ?b \<le> snd best" "snd ?b \<le> colour_distance c d" by auto
  have IH: "\<forall>d \<in> set ds. m \<le> colour_distance c d" "m \<le> snd ?b"
    "(k, m) = ?b \<or> i + 1 \<le> k \<and> k < i + 1 + length ds \<and> m = colour_distance c (ds ! (k - (i + 1))) \<and> m < snd ?b \<and>
      (\<forall>j < k - (i + 1). m < colour_distance c (ds ! j))"
    using Cons.IH[of "i + 1" ?b] Cons.prems by auto
  from IH(3) show ?case
  proof
    assume "(k, m) = ?b"
    with IH(1,2) b show ?thesis by (auto split: if_splits)
  next
    assume h: "i + 1 \<le> k \<and> k < i + 1 + length ds \<and> m = colour_distance c (ds ! (k - (i + 1))) \<and> m < snd ?b \<and>
      (\<forall>j < k - (i + 1). m < colour_distance c (ds ! j))"
    then obtain n where n: "k = i + 1 + n" by (intro that[of "k - (i + 1)"]) auto
    have "m < colour_distance c ((d # ds) ! j)" if "j < k - i" for j
      using that h b(2) n by (cases j) auto
    with IH(1) h b n show ?thesis by auto
  qed
qed simp

text \<open>The nearest colour is the first of the palette at the least distance.\<close>

lemma nearest_colour_least:
  assumes "palette \<noteq> []"
  shows "get_nearest_colour palette c < length palette \<and>
    (\<forall>d \<in> set palette. colour_distance c (palette ! get_nearest_colour palette c) \<le> colour_distance c d) \<and>
    (\<forall>j < get_nearest_colour palette c. colour_distance c (palette ! get_nearest_colour palette c) < colour_distance c (palette ! j))"
proof -
  obtain k m where km: "nearest_from c 0 palette (0, 0xffffffff) = (k, m)" by (cases "nearest_from c 0 palette (0, 0xffffffff)")
  note L = nearest_from_least[OF km]
  have "m \<le> 765" using L assms colour_distance_small[of c "hd palette"] by (meson hd_in_set order_trans)
  with L km show ?thesis by (auto simp: get_nearest_colour_def)
qed

lemma vga_nearest_colour: "get_nearest_colour vga_colours c < 16 \<and>
    (\<forall>i < 16. colour_distance c (vga_get_colour (get_nearest_colour vga_colours c)) \<le> colour_distance c (vga_get_colour i))"
proof -
  have n: "length vga_colours = 16" "vga_colours \<noteq> []" by (simp_all add: vga_colours_def)
  from nearest_colour_least[OF n(2), of c] n(1) show ?thesis by (simp add: vga_get_colour_def)
qed

end
