(* ===== verification/Ansi.thy ===== *)
theory Ansi
  imports Prelude "HOL-Library.Monad_Syntax"
begin

text \<open>
  Escape sequences: \<^verbatim>\<open>kernel/ConsoleOut.cpp\<close>. The text written to a console is split into runs for the device and colour
  sequences. The runs, with the colours at their time, are collected in \<open>raws\<close>; what the device makes of them is in theory
  Screen. A read outside the 64 bytes of the sequence buffer is \<open>None\<close>.
\<close>

section \<open>State\<close>

record ansi =
  escape :: "u8 list"
  escapeLength :: nat
  ansiColours :: "u32 list"
  brightAnsiColours :: "u32 list"
  defaultForeground :: u32
  foreground :: u32
  defaultBackground :: u32
  background :: u32
  boldText :: bool
  raws :: "(u32 \<times> u32 \<times> u8 list) list"

definition write_raw_text :: "u8 list \<Rightarrow> ansi \<Rightarrow> ansi" where
  "write_raw_text xs a = a\<lparr>raws := raws a @ [(foreground a, background a, xs)]\<rparr>"

definition byte_at :: "ansi \<Rightarrow> nat \<Rightarrow> u8 option" where
  "byte_at a i = (if i < length (escape a) then Some (escape a ! i) else None)"

section \<open>Graphic rendition\<close>

text \<open>The macros, for the parameter that starts at \<open>r\<close>; \<open>;\<close> is 59 and \<open>m\<close> is 109.\<close>

definition is_end :: "ansi \<Rightarrow> nat \<Rightarrow> bool option" where
  "is_end a i = do { x \<leftarrow> byte_at a i; Some (x = 59 \<or> x = 109) }"

definition is_1_digit :: "ansi \<Rightarrow> nat \<Rightarrow> bool option" where
  "is_1_digit a r = is_end a (r + 1)"

definition inner :: "ansi \<Rightarrow> nat \<Rightarrow> bool option \<Rightarrow> bool option" where
  "inner a i further = do { x \<leftarrow> byte_at a i; e \<leftarrow> is_end a i; if x \<noteq> 0 \<and> \<not> e then further else Some False }"

definition is_2_digit :: "ansi \<Rightarrow> nat \<Rightarrow> bool option" where
  "is_2_digit a r = inner a (r + 1) (is_end a (r + 2))"

definition is_3_digit :: "ansi \<Rightarrow> nat \<Rightarrow> bool option" where
  "is_3_digit a r = inner a (r + 1) (inner a (r + 2) (is_end a (r + 3)))"

definition colour_digit :: "u8 \<Rightarrow> nat option" where
  "colour_digit x = (if 48 \<le> x \<and> x \<le> 55 then Some (unat (x - 48)) else None)"

definition set_fg :: "u32 list \<Rightarrow> u8 \<Rightarrow> ansi \<Rightarrow> ansi" where
  "set_fg palette x a = (case colour_digit x of None \<Rightarrow> a | Some d \<Rightarrow> a\<lparr>foreground := palette ! d\<rparr>)"

definition set_bg :: "u32 list \<Rightarrow> u8 \<Rightarrow> ansi \<Rightarrow> ansi" where
  "set_bg palette x a = (case colour_digit x of None \<Rightarrow> a | Some d \<Rightarrow> a\<lparr>background := palette ! d\<rparr>)"

definition reset_rendition :: "ansi \<Rightarrow> ansi" where
  "reset_rendition a = a\<lparr>foreground := defaultForeground a, background := defaultBackground a, boldText := False\<rparr>"

text \<open>One round of the \<^verbatim>\<open>switch\<close>: the new \<^verbatim>\<open>read\<close> and the state.\<close>

definition one_parameter :: "nat \<Rightarrow> ansi \<Rightarrow> (nat \<times> ansi) option" where
  "one_parameter r a =
     do { x \<leftarrow> byte_at a r;
          if x = 48 then do { one \<leftarrow> is_1_digit a r; Some (r, if one then reset_rendition a else a) }
          else if x = 49 then
            do { one \<leftarrow> is_1_digit a r;
                 if one then Some (r, a\<lparr>boldText := True\<rparr>)
                 else do { three \<leftarrow> is_3_digit a r;
                           if three then do { y \<leftarrow> byte_at a (r + 2); Some (r + 2, set_fg (brightAnsiColours a) y a) }
                           else Some (r, a) } }
          else if x \<in> {50, 51, 52, 57} then
            do { two \<leftarrow> is_2_digit a r;
                 if \<not> two then Some (r, a)
                 else do { y \<leftarrow> byte_at a (r + 1);
                           Some (r + 1,
                             if x = 50 then (if y = 50 then a\<lparr>boldText := False\<rparr> else a)
                             else if x = 51 then (if y = 57 then a\<lparr>foreground := defaultForeground a\<rparr> else set_fg (ansiColours a) y a)
                             else if x = 52 then (if y = 57 then a\<lparr>background := defaultBackground a\<rparr> else set_bg (ansiColours a) y a)
                             else set_fg (brightAnsiColours a) y a) } }
          else Some (r, a) }"

lemma one_parameter_forward:
  assumes "one_parameter r a = Some (r', a')"
  shows "r \<le> r'" "r < length (escape a)"
  using assms by (auto simp: one_parameter_def byte_at_def split: if_splits bind_splits)

lemma one_parameter_escape:
  assumes "one_parameter r a = Some (r', a')"
  shows "escape a' = escape a"
  using assms
  by (auto simp: one_parameter_def reset_rendition_def set_fg_def set_bg_def split: if_splits bind_splits option.splits)

function renditions :: "nat \<Rightarrow> ansi \<Rightarrow> ansi option" where
  "renditions r a =
     (case one_parameter r a of
        None \<Rightarrow> None
      | Some (r', a') \<Rightarrow>
          (case byte_at a' (r' + 1) of
             None \<Rightarrow> None
           | Some x \<Rightarrow> if x \<noteq> 59 then Some a' else renditions (r' + 1) a'))"
  by pat_completeness auto

termination
proof (relation "measure (\<lambda>(r, a). length (escape a) - r)")
  fix r r' x and a :: ansi and y a'
  assume h: "one_parameter r a = Some x" "(r', a') = x"
  with one_parameter_forward[of r a r' a'] one_parameter_escape[of r a r' a']
  show "((r' + 1, a'), r, a) \<in> measure (\<lambda>(r, a). length (escape a) - r)" by auto
qed simp

declare renditions.simps [simp del]

section \<open>Writing text\<close>

definition is_letter :: "u8 \<Rightarrow> bool" where
  "is_letter x \<longleftrightarrow> 97 \<le> x \<and> x \<le> 122 \<or> 65 \<le> x \<and> x \<le> 90"

text \<open>The body of the loop at character \<open>c\<close>; the number is \<^verbatim>\<open>lastString\<close>.\<close>

definition ansi_step :: "u8 list \<Rightarrow> nat \<Rightarrow> nat \<times> ansi \<Rightarrow> (nat \<times> ansi) option" where
  "ansi_step str c la =
     (let start = fst la; a = snd la; x = str ! c in
      if x = 27 \<or> escapeLength a > 0
      then let a = (if escapeLength a = 0 then write_raw_text (take (c - start) (drop start str)) a else a) in
        if escapeLength a \<ge> length (escape a) then None
        else let a = a\<lparr>escape := (escape a)[escapeLength a := x], escapeLength := escapeLength a + 1\<rparr> in
          if escapeLength a = 2 \<and> escape a ! 1 \<noteq> 91 \<or> escapeLength a + 1 = length (escape a)
          then let a = a\<lparr>escape := (escape a)[escapeLength a := 0]\<rparr> in
            Some (1, (write_raw_text (takeWhile (\<lambda>y. y \<noteq> 0) (escape a)) a)\<lparr>escapeLength := 0\<rparr>)
          else if is_letter x
          then do { a \<leftarrow> (if x = 109 then renditions 2 a else Some a); Some (c + 1, a\<lparr>escapeLength := 0\<rparr>) }
          else Some (start, a)
      else Some la)"

fun ansi_loop :: "u8 list \<Rightarrow> nat \<Rightarrow> nat \<Rightarrow> nat \<times> ansi \<Rightarrow> (nat \<times> ansi) option" where
  "ansi_loop str 0 c la = Some la"
| "ansi_loop str (Suc n) c la = do { la \<leftarrow> ansi_step str c la; ansi_loop str n (c + 1) la }"

definition ansi_write :: "u8 list \<Rightarrow> ansi \<Rightarrow> ansi option" where
  "ansi_write str a = do { la \<leftarrow> ansi_loop str (length str) 0 (0, a); Some (write_raw_text (drop (fst la) str) (snd la)) }"

section \<open>The buffer\<close>

text \<open>The sequence buffer has 64 bytes and ends in a zero, and there is room for a character and a zero.\<close>

definition ansi_ok :: "ansi \<Rightarrow> bool" where
  "ansi_ok a \<longleftrightarrow> length (escape a) = 64 \<and> escape a ! 63 = 0 \<and> escapeLength a \<le> 62"

lemma one_parameter_ok:
  assumes "length (escape a) = 64" "escape a ! 63 = 0" "r \<le> 62"
  obtains r' a' where "one_parameter r a = Some (r', a')" "r' \<le> 62"
proof -
  have b: "byte_at a i = Some (escape a ! i)" if "i \<le> 63" for i using that assms(1) by (simp add: byte_at_def)
  have e: "is_end a i = Some (escape a ! i = 59 \<or> escape a ! i = 109)" if "i \<le> 63" for i using that by (simp add: is_end_def b)
  have one: "\<exists>v. is_1_digit a r = Some v" using assms(3) by (simp add: is_1_digit_def e)
  have two: "case is_2_digit a r of None \<Rightarrow> False | Some v \<Rightarrow> v \<longrightarrow> r + 2 \<le> 63"
  proof (cases "r + 1 = 63")
    case False
    then show ?thesis using assms(3) by (simp add: is_2_digit_def inner_def b e)
  qed (use assms in \<open>simp add: is_2_digit_def inner_def b e\<close>)
  have three: "case is_3_digit a r of None \<Rightarrow> False | Some v \<Rightarrow> v \<longrightarrow> r + 3 \<le> 63"
  proof (cases "r + 1 = 63 \<or> r + 2 = 63")
    case False
    then show ?thesis using assms(3) by (simp add: is_3_digit_def inner_def b e)
  qed (use assms in \<open>auto simp: is_3_digit_def inner_def b e\<close>)
  from one two three obtain v1 v2 v3 where v: "is_1_digit a r = Some v1" "is_2_digit a r = Some v2" "v2 \<longrightarrow> r + 2 \<le> 63"
    "is_3_digit a r = Some v3" "v3 \<longrightarrow> r + 3 \<le> 63" by (auto split: option.splits)
  show thesis
    by (rule that[of "if escape a ! r = 49 \<and> \<not> v1 \<and> v3 then r + 2 else if escape a ! r \<in> {50, 51, 52, 57} \<and> v2 then r + 1 else r"
          "snd (the (one_parameter r a))"])
      (use assms(3) v in \<open>auto simp: one_parameter_def b\<close>)
qed

text \<open>A round that starts at a separator does nothing, so only the first parameter of a sequence has an effect.\<close>

lemma renditions_separator:
  assumes "length (escape a) = 64" "escape a ! 63 = 0" "r \<le> 62" "escape a ! r = 59"
  shows "renditions r a = Some a"
  using assms
proof (induction "63 - r" arbitrary: r rule: less_induct)
  case less
  have "one_parameter r a = Some (r, a)" "byte_at a (r + 1) = Some (escape a ! (r + 1))"
    using less.prems by (simp_all add: one_parameter_def byte_at_def)
  moreover have "renditions (r + 1) a = Some a" if "escape a ! (r + 1) = 59"
  proof (rule less.hyps)
    have "r + 1 \<noteq> 63" using that less.prems(2) by auto
    then show "r + 1 \<le> 62" "63 - (r + 1) < 63 - r" using less.prems(3) by simp_all
  qed (use that less.prems in simp_all)
  ultimately show ?case by (subst renditions.simps) simp
qed

lemma renditions_first:
  assumes "length (escape a) = 64" "escape a ! 63 = 0" "r \<le> 62"
  shows "\<exists>r' a'. one_parameter r a = Some (r', a') \<and> renditions r a = Some a'"
proof -
  obtain r' a' where o: "one_parameter r a = Some (r', a')" "r' \<le> 62" by (rule one_parameter_ok[OF assms])
  have e: "escape a' = escape a" by (rule one_parameter_escape[OF o(1)])
  then have b: "byte_at a' (r' + 1) = Some (escape a' ! (r' + 1))" using o(2) assms(1) by (simp add: byte_at_def)
  have "renditions (r' + 1) a' = Some a'" if "escape a' ! (r' + 1) = 59"
  proof (rule renditions_separator)
    have "r' + 1 \<noteq> 63" using that assms(2) e by auto
    then show "r' + 1 \<le> 62" using o(2) by simp
  qed (use that assms e in simp_all)
  then have "renditions r a = Some a'" using o(1) b by (subst renditions.simps) simp
  with o(1) show ?thesis by blast
qed

lemma one_parameter_keeps:
  "one_parameter r a = Some (r', a') \<Longrightarrow> escapeLength a' = escapeLength a \<and> raws a' = raws a \<and> length (ansiColours a') = length (ansiColours a)"
  by (auto simp: one_parameter_def reset_rendition_def set_fg_def set_bg_def split: if_splits bind_splits option.splits)

lemma ansi_step_ok:
  assumes "ansi_ok a"
  obtains l a' where "ansi_step str c (start, a) = Some (l, a')" "ansi_ok a'"
proof (cases "str ! c = 27 \<or> escapeLength a > 0")
  case True
  define a1 where "a1 = (if escapeLength a = 0 then write_raw_text (take (c - start) (drop start str)) a else a)"
  define a2 where "a2 = a1\<lparr>escape := (escape a1)[escapeLength a1 := str ! c], escapeLength := escapeLength a1 + 1\<rparr>"
  have a1: "ansi_ok a1" using assms by (simp add: a1_def ansi_ok_def write_raw_text_def)
  then have a2: "length (escape a2) = 64" "escape a2 ! 63 = 0" "escapeLength a2 \<le> 63" by (simp_all add: a2_def ansi_ok_def)
  have "escape a1 = escape a" "escapeLength a1 = escapeLength a" by (simp_all add: a1_def write_raw_text_def)
  with True a1 have step: "ansi_step str c (start, a) =
      (if escapeLength a2 = 2 \<and> escape a2 ! 1 \<noteq> 91 \<or> escapeLength a2 + 1 = 64
       then let a = a2\<lparr>escape := (escape a2)[escapeLength a2 := 0]\<rparr> in
            Some (1, (write_raw_text (takeWhile (\<lambda>y. y \<noteq> 0) (escape a)) a)\<lparr>escapeLength := 0\<rparr>)
       else if is_letter (str ! c)
       then do { a \<leftarrow> (if str ! c = 109 then renditions 2 a2 else Some a2); Some (c + 1, a\<lparr>escapeLength := 0\<rparr>) }
       else Some (start, a2))"
    unfolding ansi_step_def Let_def a1_def[symmetric] a2_def[symmetric] fst_conv snd_conv
    using a2(1) by (simp add: ansi_ok_def a1_def[symmetric] a2_def[symmetric])
  obtain r' a3 where a3: "one_parameter 2 a2 = Some (r', a3)" "renditions 2 a2 = Some a3"
    using renditions_first[OF a2(1,2), of 2] by auto
  have e3: "escape a3 = escape a2" by (rule one_parameter_escape[OF a3(1)])
  have z: "(escape a2)[escapeLength a2 := 0] ! 63 = 0" using a2 by (cases "escapeLength a2 = 63") simp_all
  show thesis
    using step a2 a3(2) e3 z that by (auto simp: ansi_ok_def write_raw_text_def Let_def split: if_splits)
qed (use assms that in \<open>simp add: ansi_step_def\<close>)

lemma ansi_loop_ok:
  assumes "ansi_ok a"
  shows "\<exists>l a'. ansi_loop str n c (start, a) = Some (l, a') \<and> ansi_ok a'"
  using assms
proof (induction n arbitrary: c start a)
  case (Suc n)
  obtain l a' where "ansi_step str c (start, a) = Some (l, a')" "ansi_ok a'" by (rule ansi_step_ok[OF Suc.prems])
  with Suc.IH[of a' "c + 1" l] show ?case by simp
qed simp

section \<open>Plain text and whole sequences\<close>

lemma ansi_loop_add: "ansi_loop str (m + n) c la = do { la \<leftarrow> ansi_loop str m c la; ansi_loop str n (c + m) la }"
  by (induction m arbitrary: c la) (auto split: bind_splits)

lemma ansi_loop_plain:
  assumes "\<And>i. i < n \<Longrightarrow> str ! (c + i) \<noteq> 27" "escapeLength a = 0"
  shows "ansi_loop str n c (start, a) = Some (start, a)"
  using assms(1)
proof (induction n arbitrary: c)
  case (Suc n)
  have "str ! c \<noteq> 27" using Suc.prems[of 0] by simp
  then have "ansi_step str c (start, a) = Some (start, a)" using assms(2) by (simp add: ansi_step_def Let_def)
  moreover have "str ! (c + 1 + i) \<noteq> 27" if "i < n" for i using Suc.prems[of "Suc i"] that by simp
  ultimately show ?case using Suc.IH[of "c + 1"] by simp
qed simp

text \<open>Parameters being collected.\<close>

definition in_sequence :: "u8 list \<Rightarrow> ansi \<Rightarrow> ansi" where
  "in_sequence xs a = a\<lparr>escape := take (escapeLength a) (escape a) @ xs @ drop (escapeLength a + length xs) (escape a),
     escapeLength := escapeLength a + length xs\<rparr>"

lemma in_sequence_Cons:
  assumes "escapeLength a < length (escape a)"
  shows "in_sequence (x # xs) a = in_sequence xs (a\<lparr>escape := (escape a)[escapeLength a := x], escapeLength := escapeLength a + 1\<rparr>)"
  using assms by (simp add: in_sequence_def upd_conv_take_nth_drop add.commute)

lemma ansi_loop_collect:
  assumes "\<And>i. i < length xs \<Longrightarrow> str ! (c + i) = xs ! i" "\<forall>x \<in> set xs. \<not> is_letter x"
    and "2 \<le> escapeLength a" "escapeLength a + length xs \<le> 62" "length (escape a) = 64"
  shows "ansi_loop str (length xs) c (start, a) = Some (start, in_sequence xs a)"
  using assms
proof (induction xs arbitrary: c a)
  case (Cons x xs)
  let ?a = "a\<lparr>escape := (escape a)[escapeLength a := x], escapeLength := escapeLength a + 1\<rparr>"
  have "str ! c = x" using Cons.prems(1)[of 0] by simp
  then have "ansi_step str c (start, a) = Some (start, ?a)"
    using Cons.prems(2-5) by (simp add: ansi_step_def Let_def)
  moreover have "ansi_loop str (length xs) (c + 1) (start, ?a) = Some (start, in_sequence xs ?a)"
  proof (rule Cons.IH)
    show "str ! (c + 1 + i) = xs ! i" if "i < length xs" for i using Cons.prems(1)[of "Suc i"] that by simp
  qed (use Cons.prems in auto)
  moreover have "in_sequence (x # xs) a = in_sequence xs ?a" using Cons.prems(4,5) by (intro in_sequence_Cons) simp
  ultimately show ?case by simp
qed (simp add: in_sequence_def)

text \<open>What a single parameter stands for.\<close>

definition rendition :: "u8 list \<Rightarrow> ansi \<Rightarrow> ansi" where
  "rendition p a =
     (if p = [48] then reset_rendition a
      else if p = [49] then a\<lparr>boldText := True\<rparr>
      else if length p = 3 \<and> p ! 0 = 49 then set_fg (brightAnsiColours a) (p ! 2) a
      else if length p = 2 \<and> p ! 0 = 50 then (if p ! 1 = 50 then a\<lparr>boldText := False\<rparr> else a)
      else if length p = 2 \<and> p ! 0 = 51 then (if p ! 1 = 57 then a\<lparr>foreground := defaultForeground a\<rparr> else set_fg (ansiColours a) (p ! 1) a)
      else if length p = 2 \<and> p ! 0 = 52 then (if p ! 1 = 57 then a\<lparr>background := defaultBackground a\<rparr> else set_bg (ansiColours a) (p ! 1) a)
      else if length p = 2 \<and> p ! 0 = 57 then set_fg (brightAnsiColours a) (p ! 1) a
      else a)"

lemma one_parameter_rendition:
  assumes "length (escape a) = 64" "escape a ! 63 = 0" "length p \<le> 60"
    and "\<And>i. i < length p \<Longrightarrow> escape a ! (r + i) = p ! i" "r = 2" "\<forall>x \<in> set p. 48 \<le> x \<and> x \<le> 57"
    and e: "escape a ! (r + length p) = 59 \<or> escape a ! (r + length p) = 109"
  shows "\<exists>r'. one_parameter r a = Some (r', rendition p a)"
proof -
  have b: "byte_at a (r + i) = Some (escape a ! (r + i))" if "i \<le> 3" for i using that assms(1,5) by (simp add: byte_at_def)
  have d: "escape a ! (r + i) \<noteq> 0 \<and> escape a ! (r + i) \<noteq> 59 \<and> escape a ! (r + i) \<noteq> 109" if "i < length p" for i
  proof -
    have "48 \<le> p ! i \<and> p ! i \<le> 57" using that assms(6) by simp
    then show ?thesis using assms(4)[OF that] by auto
  qed
  have is_e: "is_end a (r + i) = Some (i = length p)" if "i \<le> length p" "i \<le> 3" for i
  proof (cases "i = length p")
    case True
    then show ?thesis using b[OF that(2)] e by (auto simp: is_end_def)
  next
    case False
    then show ?thesis using that(1) b[OF that(2)] d[of i] by (simp add: is_end_def)
  qed
  show ?thesis
  proof (cases "p = []")
    case True
    with e b[of 0] show ?thesis by (auto simp: one_parameter_def rendition_def)
  next
    case False
    then have l: "0 < length p" by simp
    have one: "is_1_digit a r = Some (length p = 1)" using is_e[of 1] l by (auto simp: is_1_digit_def)
    have two: "is_2_digit a r = Some (length p = 2)"
    proof (cases "length p = 1")
      case True
      then show ?thesis using is_e[of 1] b[of 1] by (simp add: is_2_digit_def inner_def)
    next
      case False
      then show ?thesis using is_e[of 1] is_e[of 2] b[of 1] d[of 1] l by (auto simp: is_2_digit_def inner_def)
    qed
    have three: "is_3_digit a r = Some (length p = 3)"
    proof -
      consider "length p = 1" | "length p = 2" | "3 \<le> length p" using l by linarith
      then show ?thesis
        by cases (use is_e[of 1] is_e[of 2] is_e[of 3] b[of 1] b[of 2] d[of 1] d[of 2] in \<open>auto simp: is_3_digit_def inner_def\<close>)
    qed
    have first: "byte_at a r = Some (p ! 0)" using b[of 0] assms(4)[OF l] by simp
    have p1: "p = [x] \<longleftrightarrow> length p = 1 \<and> p ! 0 = x" for x by (cases p) auto
    have at1: "byte_at a (r + 1) = Some (p ! 1)" if "length p = 2" using b[of 1] assms(4)[of 1] that by simp
    have at2: "byte_at a (r + 2) = Some (p ! 2)" if "length p = 3" using b[of 2] assms(4)[of 2] that by simp
    show ?thesis
      using first one two three at1 at2 by (auto simp: one_parameter_def rendition_def p1)
  qed
qed

lemma ansi_write_plain:
  assumes "27 \<notin> set str" "escapeLength a = 0"
  shows "ansi_write str a = Some (write_raw_text str a)"
proof -
  have "ansi_loop str (length str) 0 (0, a) = Some (0, a)"
    by (rule ansi_loop_plain) (use assms in \<open>auto simp: in_set_conv_nth\<close>)
  then show ?thesis by (simp add: ansi_write_def)
qed

text \<open>The loop over a prefix without a sequence, the two characters that open one, its parameters and its \<open>m\<close>.\<close>

definition opened :: "u8 list \<Rightarrow> ansi \<Rightarrow> ansi" where
  "opened pre a = (write_raw_text pre a)\<lparr>escape := 27 # 91 # drop 2 (escape a), escapeLength := 2\<rparr>"

lemma ansi_loop_open:
  assumes "ansi_ok a" "escapeLength a = 0" "27 \<notin> set pre"
  shows "ansi_loop (pre @ 27 # 91 # rest) (length pre + 2) 0 (0, a) = Some (0, opened pre a)"
proof -
  let ?str = "pre @ 27 # 91 # rest"
  have "ansi_loop ?str (length pre) 0 (0, a) = Some (0, a)"
    by (rule ansi_loop_plain) (use assms(2,3) in \<open>auto simp: nth_append in_set_conv_nth\<close>)
  moreover have "\<exists>x y zs. escape a = x # y # zs" using assms(1) by (cases "escape a"; cases "tl (escape a)") (auto simp: ansi_ok_def)
  then obtain x y zs where "escape a = x # y # zs" by blast
  moreover from this assms(1) have "length zs = 62" by (simp add: ansi_ok_def)
  ultimately show ?thesis
    using assms(2) unfolding ansi_loop_add numeral_2_eq_2
    by (simp add: ansi_step_def Let_def write_raw_text_def opened_def is_letter_def nth_append)
qed

definition closed :: "u8 list \<Rightarrow> u8 list \<Rightarrow> ansi \<Rightarrow> ansi" where
  "closed pre ps a = (write_raw_text pre a)\<lparr>escape := 27 # 91 # ps @ 109 # drop (3 + length ps) (escape a), escapeLength := length ps + 3\<rparr>"

lemma in_sequence_closed:
  assumes "length (escape a) = 64" "length ps \<le> 59"
    and b: "b = in_sequence ps (opened pre a)"
  shows "b\<lparr>escape := (escape b)[escapeLength b := 109], escapeLength := escapeLength b + 1\<rparr> = closed pre ps a"
proof -
  have "drop (2 + length ps) (escape a) = escape a ! (2 + length ps) # drop (3 + length ps) (escape a)"
    using assms(1,2) Cons_nth_drop_Suc[of "2 + length ps" "escape a"] by (simp add: numeral_3_eq_3)
  then show ?thesis
    by (simp add: b in_sequence_def opened_def closed_def write_raw_text_def list_update_append add.commute)
qed

lemma closed_buffer:
  assumes "ansi_ok a" "length ps \<le> 59"
  shows "length (escape (closed pre ps a)) = 64" "escape (closed pre ps a) ! 63 = 0"
proof -
  show "length (escape (closed pre ps a)) = 64" using assms by (simp add: closed_def ansi_ok_def)
  have "63 = 3 + length ps + (60 - length ps)" "length (27 # 91 # ps @ [109 :: u8]) = 3 + length ps" using assms(2) by simp_all
  then have "((27 # 91 # ps @ [109]) @ drop (3 + length ps) (escape a)) ! 63 = drop (3 + length ps) (escape a) ! (60 - length ps)"
    by (metis nth_append_length_plus)
  then show "escape (closed pre ps a) ! 63 = 0" using assms by (simp add: closed_def ansi_ok_def)
qed

text \<open>The parameters end at the first separator or at the end of the sequence.\<close>

definition parameters :: "u8 list \<Rightarrow> bool" where
  "parameters ps \<longleftrightarrow> (\<forall>x \<in> set ps. 48 \<le> x \<and> x \<le> 59) \<and> length ps \<le> 59 \<and> (\<forall>x \<in> set (takeWhile (\<lambda>x. x \<noteq> 59) ps). x \<le> 57)"

lemma parameters_not_letters: "parameters ps \<Longrightarrow> x \<in> set ps \<Longrightarrow> \<not> is_letter x"
  using order_trans[of 97 x 59] order_trans[of 65 x 59] by (auto simp: parameters_def is_letter_def)

lemma closed_renditions:
  assumes "ansi_ok a" "parameters ps"
  shows "renditions 2 (closed pre ps a) = Some (rendition (takeWhile (\<lambda>x. x \<noteq> 59) ps) (closed pre ps a))"
proof -
  let ?p = "takeWhile (\<lambda>x. x \<noteq> 59) ps" and ?a = "closed pre ps a"
  have l: "length ps \<le> 59" using assms(2) by (simp add: parameters_def)
  note buf = closed_buffer[OF assms(1) l, of pre]
  have short: "length ?p \<le> length ps" by (rule length_takeWhile_le)
  have "\<exists>r'. one_parameter 2 ?a = Some (r', rendition ?p ?a)"
  proof (rule one_parameter_rendition[OF buf])
    show "length ?p \<le> 60" using short l by simp
    show "escape ?a ! (2 + i) = ?p ! i" if "i < length ?p" for i
      using that short by (simp add: closed_def nth_append takeWhile_nth)
    show "\<forall>x\<in>set ?p. 48 \<le> x \<and> x \<le> 57" using assms(2) by (auto simp: parameters_def dest: set_takeWhileD)
    show "escape ?a ! (2 + length ?p) = 59 \<or> escape ?a ! (2 + length ?p) = 109"
    proof (cases "length ?p < length ps")
      case True
      then show ?thesis using nth_length_takeWhile[OF True] by (simp add: closed_def nth_append)
    next
      case False
      then show ?thesis using short by (simp add: closed_def nth_append)
    qed
  qed simp
  then show ?thesis using renditions_first[OF buf, of 2] by auto
qed

lemma rendition_fields:
  "escape (rendition p a) = escape a" "escapeLength (rendition p a) = escapeLength a" "raws (rendition p a) = raws a"
  by (simp_all add: rendition_def reset_rendition_def set_fg_def set_bg_def split: option.splits)

text \<open>Text, a sequence of parameters closed by \<open>m\<close>, and text: the device gets the two texts, the second in the colours that
  the first parameter alone selects.\<close>

definition coloured :: "u8 list \<Rightarrow> u8 list \<Rightarrow> u8 list \<Rightarrow> u8 list" where
  "coloured pre ps post = pre @ 27 # 91 # ps @ 109 # post"

lemma ansi_loop_sequence:
  assumes "ansi_ok a" "escapeLength a = 0" "27 \<notin> set pre" "parameters ps"
  shows "ansi_loop (coloured pre ps post) (length pre + 2 + length ps + 1) 0 (0, a) =
    Some (length pre + length ps + 3, (rendition (takeWhile (\<lambda>x. x \<noteq> 59) ps) (closed pre ps a))\<lparr>escapeLength := 0\<rparr>)"
proof -
  let ?str = "coloured pre ps post" and ?b = "in_sequence ps (opened pre a)"
  have a: "length (escape a) = 64" "length ps \<le> 59" using assms(1,4) by (simp_all add: ansi_ok_def parameters_def)
  have "ansi_loop ?str (length ps) (length pre + 2) (0, opened pre a) = Some (0, ?b)"
  proof (rule ansi_loop_collect)
    show "?str ! (length pre + 2 + i) = ps ! i" if "i < length ps" for i using that by (simp add: coloured_def nth_append)
    show "\<forall>x\<in>set ps. \<not> is_letter x" using parameters_not_letters[OF assms(4)] by blast
  qed (use a in \<open>simp_all add: opened_def\<close>)
  then have collected: "ansi_loop ?str (length pre + 2 + length ps) 0 (0, a) = Some (0, ?b)"
    using ansi_loop_open[OF assms(1-3), of "ps @ 109 # post"] unfolding ansi_loop_add[of _ "length pre + 2"] coloured_def by simp
  have m: "?str ! (length pre + 2 + length ps) = 109" by (simp add: coloured_def nth_append)
  have len: "escapeLength ?b = length ps + 2" "length (escape ?b) = 64" using a by (simp_all add: in_sequence_def opened_def)
  have "ansi_step ?str (length pre + 2 + length ps) (0, ?b) =
    Some (length pre + length ps + 3, (rendition (takeWhile (\<lambda>x. x \<noteq> 59) ps) (closed pre ps a))\<lparr>escapeLength := 0\<rparr>)"
    using in_sequence_closed[OF a refl, of pre] closed_renditions[OF assms(1,4), of pre] len m a(2)
      closed_buffer(1)[OF assms(1) a(2), of pre]
    by (simp add: ansi_step_def Let_def is_letter_def) (simp add: closed_def)
  with collected show ?thesis unfolding ansi_loop_add[of _ "length pre + 2 + length ps" 1] by simp
qed

text \<open>A text with one sequence in it reaches the device as two runs, without the sequence; only the first parameter counts:
  what follows the first separator, such as the colour in \<^verbatim>\<open>1;31\<close>, has no effect.\<close>

lemma ansi_text:
  assumes "ansi_ok a" "escapeLength a = 0" "27 \<notin> set pre" "27 \<notin> set post" "parameters ps"
  shows "\<exists>a'. ansi_write (coloured pre ps post) a = Some a' \<and> escapeLength a' = 0 \<and>
    raws a' = raws a @ [(foreground a, background a, pre), (foreground a', background a', post)] \<and>
    (\<exists>b. b = rendition (takeWhile (\<lambda>x. x \<noteq> 59) ps) a \<and>
      foreground a' = foreground b \<and> background a' = background b \<and> boldText a' = boldText b)"
proof -
  let ?p = "takeWhile (\<lambda>x. x \<noteq> 59) ps" and ?str = "coloured pre ps post"
  let ?c = "length pre + 2 + length ps + 1"
  let ?a = "(rendition ?p (closed pre ps a))\<lparr>escapeLength := 0\<rparr>"
  have len: "length ?str = ?c + length post" "drop (length pre + length ps + 3) ?str = post"
    by (simp_all add: coloured_def numeral_3_eq_3)
  have "ansi_loop ?str (length post) ?c (length pre + length ps + 3, ?a) = Some (length pre + length ps + 3, ?a)"
  proof (rule ansi_loop_plain)
    fix i assume i: "i < length post"
    have "?str ! (?c + i) = post ! i" by (simp add: coloured_def nth_append)
    then show "?str ! (?c + i) \<noteq> 27" using assms(4) nth_mem[OF i] by metis
  qed simp
  then have "ansi_write ?str a = Some (write_raw_text post ?a)"
    unfolding ansi_write_def len(1) ansi_loop_add[of _ ?c] using ansi_loop_sequence[OF assms(1-3,5), of post] len(2) by simp
  moreover have "foreground ?a = foreground (rendition ?p a)" "background ?a = background (rendition ?p a)" "boldText ?a = boldText (rendition ?p a)"
    "raws ?a = raws a @ [(foreground a, background a, pre)]"
    by (simp_all add: rendition_def closed_def write_raw_text_def reset_rendition_def set_fg_def set_bg_def split: option.splits)
  ultimately show ?thesis by (intro exI[of _ "write_raw_text post ?a"]) (simp add: write_raw_text_def)
qed

section \<open>Properties\<close>

text \<open>C38. Whatever is written, the sequence buffer keeps its 64 bytes with a zero at the end and room for one more
  character, every access to it stays inside, and the loops return.\<close>

theorem ansi_buffer:
  assumes "ansi_ok a"
  shows "\<exists>a'. ansi_write str a = Some a' \<and> ansi_ok a'"
proof -
  from ansi_loop_ok[OF assms, of str "length str" 0 0] obtain l a' where
    "ansi_loop str (length str) 0 (0, a) = Some (l, a')" "ansi_ok a'" by blast
  then show ?thesis by (simp add: ansi_write_def write_raw_text_def ansi_ok_def)
qed

definition fresh_ansi :: ansi where
  "fresh_ansi = \<lparr>escape = replicate 64 0, escapeLength = 0, ansiColours = [0, 4, 2, 6, 1, 5, 3, 7],
     brightAnsiColours = [8, 12, 10, 14, 9, 13, 11, 15], defaultForeground = 7, foreground = 7,
     defaultBackground = 1, background = 1, boldText = False, raws = []\<rparr>"

theorem ansi_buffer_witness: "\<exists>a'. ansi_write (replicate 100 27) fresh_ansi = Some a' \<and> length (escape a') = 64"
  using ansi_buffer[of fresh_ansi "replicate 100 27"] by (auto simp: ansi_ok_def fresh_ansi_def)

text \<open>A character that cannot follow an escape character: the two are passed on as text, but what comes next is then
  written from the second character of the whole text on, so the text before the pair and the pair appear twice.\<close>

theorem ansi_invalid_repeats:
  assumes "ansi_ok a" "escapeLength a = 0" "27 \<notin> set pre" "27 \<notin> set post" "x \<noteq> 91" "x \<noteq> 0"
  shows "\<exists>a'. ansi_write (pre @ 27 # x # post) a = Some a' \<and> escapeLength a' = 0 \<and>
    raws a' = raws a @ map (\<lambda>t. (foreground a, background a, t)) [pre, [27, x], drop 1 (pre @ 27 # x # post)]"
proof -
  let ?str = "pre @ 27 # x # post" and ?c = "length pre + 2"
  obtain y z zs where e: "escape a = y # z # zs" "length zs = 62"
    using assms(1) by (cases "escape a"; cases "tl (escape a)") (auto simp: ansi_ok_def)
  obtain zs' where zs': "zs[0 := 0] = 0 # zs'" using e(2) by (cases zs) auto
  have "ansi_loop ?str (length pre) 0 (0, a) = Some (0, a)"
    by (rule ansi_loop_plain) (use assms(2,3) in \<open>auto simp: nth_append in_set_conv_nth\<close>)
  then have "ansi_loop ?str ?c 0 (0, a) =
      Some (1, (write_raw_text [27, x] (write_raw_text pre a))\<lparr>escape := 27 # x # 0 # zs', escapeLength := 0\<rparr>)"
    using assms(2,5,6) e zs' unfolding ansi_loop_add numeral_2_eq_2
    by (simp add: ansi_step_def Let_def write_raw_text_def is_letter_def nth_append)
  then obtain e' where loop: "ansi_loop ?str ?c 0 (0, a) = Some (1, (write_raw_text [27, x] (write_raw_text pre a))\<lparr>escape := e', escapeLength := 0\<rparr>)"
    by blast
  have "ansi_loop ?str (length post) ?c (1, (write_raw_text [27, x] (write_raw_text pre a))\<lparr>escape := e', escapeLength := 0\<rparr>) =
      Some (1, (write_raw_text [27, x] (write_raw_text pre a))\<lparr>escape := e', escapeLength := 0\<rparr>)"
    by (rule ansi_loop_plain) (use assms(4) in \<open>auto simp: nth_append in_set_conv_nth\<close>)
  moreover have "length ?str = ?c + length post" by simp
  ultimately have "ansi_write ?str a = Some (write_raw_text (drop 1 ?str)
      ((write_raw_text [27, x] (write_raw_text pre a))\<lparr>escape := e', escapeLength := 0\<rparr>))"
    using loop unfolding ansi_write_def by (simp only: ansi_loop_add) simp
  then show ?thesis by (simp add: write_raw_text_def)
qed

theorem ansi_invalid_repeats_witness:
  "\<exists>a'. ansi_write [72, 73, 27, 55, 74] fresh_ansi = Some a' \<and>
    raws a' = [(7, 1, [72, 73]), (7, 1, [27, 55]), (7, 1, [73, 27, 55, 74])]"
  using ansi_invalid_repeats[of fresh_ansi "[72, 73]" "[74]" 55] by (auto simp: ansi_ok_def fresh_ansi_def)

end
