(* ===== verification/Console.thy ===== *)
theory Console
  imports VgaText Ansi
begin

text \<open>
  The console: \<^verbatim>\<open>drivers/Console.cpp\<close> puts the escape sequences of theory Ansi in front of a screen of theory Screen. Its
  state is the pair of the two; the runs of a text go to the screen in their order, each in its colours.
\<close>

type_synonym 's console = "ansi \<times> cursor \<times> 's"

definition console_puts :: "'s textmode \<Rightarrow> u8 list \<Rightarrow> 's console \<Rightarrow> 's console option" where
  "console_puts T str c =
     do { a \<leftarrow> ansi_write str ((fst c)\<lparr>raws := []\<rparr>);
          ks \<leftarrow> each (\<lambda>run. console_write T (fst run) (fst (snd run)) (snd (snd run))) (raws a) (snd c);
          Some (a, ks) }"

definition console_putc :: "'s textmode \<Rightarrow> u8 \<Rightarrow> 's console \<Rightarrow> 's console option" where
  "console_putc T x c = console_puts T (if x = 0 then [] else [x]) c"

definition start_colours :: "u32 list \<Rightarrow> ansi \<Rightarrow> ansi" where
  "start_colours palette a =
     (let near = (\<lambda>c. of_nat (get_nearest_colour palette c)) in
      a\<lparr>ansiColours := map near [0x000000, 0x990000, 0x00a600, 0x999900, 0x0000b2, 0xb200b2, 0x00a6b2, 0xa0a0a0],
        brightAnsiColours := map near [0x666666, 0xff0000, 0x00ff00, 0xffff00, 0x0000ff, 0xff00ff, 0x00ffff, 0xffffff],
        defaultForeground := near 0xa0a0a0, foreground := near 0xa0a0a0,
        defaultBackground := near 0x000080, background := near 0x000080\<rparr>)"

definition start_cursor :: "'s textmode \<Rightarrow> cursor" where
  "start_cursor T = \<lparr>cRow = 0, cCol = 0, cStart = 0, cEnd = get_cols T\<rparr>"

definition console_start :: "u32 list \<Rightarrow> 's textmode \<Rightarrow> 's console \<Rightarrow> 's console" where
  "console_start palette T c = (start_colours palette (fst c), start_cursor T, snd (snd c))"

section \<open>Lines in two parts\<close>

lemma fits_append: "fits a n (xs @ ys) \<Longrightarrow> fits a n xs"
  by (induction xs arbitrary: a) auto

lemma fits_after:
  assumes "fits (cEnd (fst ks) - cCol (fst ks)) (cEnd (fst ks) - cStart (fst ks)) (xs @ ys)"
    and "each (type_char T f b) xs ks = Some ks'"
  shows "fits (cEnd (fst ks') - cCol (fst ks')) (cEnd (fst ks') - cStart (fst ks')) ys"
  using assms
proof (induction xs arbitrary: ks)
  case (Cons x xs)
  from Cons.prems(2) obtain ks1 where ks1: "type_char T f b x ks = Some ks1" "each (type_char T f b) xs ks1 = Some ks'"
    by (auto split: bind_splits)
  have "fits (cEnd (fst ks1) - cCol (fst ks1)) (cEnd (fst ks1) - cStart (fst ks1)) (xs @ ys)"
    using ks1(1) Cons.prems(1) by (auto simp: type_char_def split: if_splits bind_splits)
  from Cons.IH[OF this ks1(2)] show ?case .
qed simp

lemma raws_irrelevant: "ansi_ok (a\<lparr>raws := r\<rparr>) = ansi_ok a" "rendition p (a\<lparr>raws := r\<rparr>) = (rendition p a)\<lparr>raws := r\<rparr>"
  by (simp_all add: ansi_ok_def rendition_def reset_rendition_def set_fg_def set_bg_def split: option.splits)

section \<open>Properties\<close>



text \<open>Characters put one at a time: an escape character is both collected and shown.\<close>

lemma putc_shows_escape:
  assumes "ansi_ok a" "escapeLength a = 0"
  shows "\<exists>a'. ansi_write [27] a = Some a' \<and> escapeLength a' = 1 \<and>
    raws a' = raws a @ [(foreground a, background a, []), (foreground a, background a, [27])]"
  using assms by (simp add: ansi_write_def ansi_step_def Let_def write_raw_text_def is_letter_def ansi_ok_def)

end
