(* ===== verification/Ps2Ports.thy ===== *)
theory Ps2Ports
  imports Prelude "HOL-Library.Monad_Syntax"
begin

unbundle bit_operations_syntax

text \<open>
  Port I/O and the PS/2 controller: \<^verbatim>\<open>kernel/arch/x86/ioPort.inl\<close> and \<^verbatim>\<open>drivers/x86/system/Ps2.cpp\<close>. The devices behind the
  ports are a parameter: \<open>answers p n\<close> is what the \<open>n\<close>-th read of port \<open>p\<close> gives. \<open>taken\<close> counts the reads and \<open>sent\<close> records the
  writes. The busy loops may run for ever, so they are partial functions.
\<close>

section \<open>Ports\<close>

record ports =
  answers :: "nat \<Rightarrow> nat \<Rightarrow> u8"
  taken :: "nat \<Rightarrow> nat"
  sent :: "(nat \<times> u8) list"

definition in8 :: "nat \<Rightarrow> ports \<Rightarrow> u8 \<times> ports" where
  "in8 p io = (answers io p (taken io p), io\<lparr>taken := (taken io)(p := taken io p + 1)\<rparr>)"

definition out8 :: "nat \<Rightarrow> u8 \<Rightarrow> ports \<Rightarrow> ports" where
  "out8 p d io = io\<lparr>sent := sent io @ [(p, d)]\<rparr>"

definition io_wait :: "ports \<Rightarrow> ports" where
  "io_wait = out8 0x80 0"

text \<open>The next answer of a port, \<open>n\<close> reads ahead.\<close>

definition ahead :: "ports \<Rightarrow> nat \<Rightarrow> nat \<Rightarrow> u8" where
  "ahead io p n = answers io p (taken io p + n)"

definition skip_reads :: "nat \<Rightarrow> nat \<Rightarrow> ports \<Rightarrow> ports" where
  "skip_reads p n io = io\<lparr>taken := (taken io)(p := taken io p + n)\<rparr>"

lemma in8_ahead: "in8 p io = (ahead io p 0, skip_reads p 1 io)"
  by (simp add: in8_def ahead_def skip_reads_def)

lemma ahead_skip [simp]: "ahead (skip_reads p n io) q k = (if q = p then ahead io p (n + k) else ahead io q k)"
  by (simp add: ahead_def skip_reads_def add.assoc)

lemma skip_skip [simp]: "skip_reads p n (skip_reads p m io) = skip_reads p (m + n) io"
  by (simp add: skip_reads_def add.assoc)

lemma skip_0 [simp]: "skip_reads p 0 io = io"
  by (simp add: skip_reads_def)

lemma skip_sent [simp]: "sent (skip_reads p n io) = sent io"
  by (simp add: skip_reads_def)

lemma skip_commute: "p \<noteq> q \<Longrightarrow> skip_reads p n (skip_reads q m io) = skip_reads q m (skip_reads p n io)"
  by (simp add: skip_reads_def fun_upd_twist)

section \<open>Waiting for the controller\<close>

text \<open>C's \<open>!\<close> on a byte.\<close>

definition logical_not :: "u8 \<Rightarrow> u8" where
  "logical_not x = (if x = 0 then 1 else 0)"

definition read_status :: "ports \<Rightarrow> u8 \<times> ports" where
  "read_status = in8 0x64"

text \<open>The condition \<^verbatim>\<open>(!(U8)read_status()&(U8)output_full)\<close> negates the status before the mask is applied.\<close>

partial_function (option) wait_for_output :: "ports \<Rightarrow> ports option" where
  "wait_for_output io =
     (case read_status io of (s, io) \<Rightarrow> if logical_not s AND 1 \<noteq> 0 then wait_for_output io else Some io)"

partial_function (option) flush_input :: "ports \<Rightarrow> ports option" where
  "flush_input io = (case read_status io of (s, io) \<Rightarrow> if s AND 2 \<noteq> 0 then flush_input io else Some io)"

definition has_output :: "ports \<Rightarrow> bool \<times> ports" where
  "has_output io = (case read_status io of (s, io) \<Rightarrow> (s AND 1 \<noteq> 0, io))"

definition ps2_read8 :: "nat \<Rightarrow> ports \<Rightarrow> (u8 \<times> ports) option" where
  "ps2_read8 p io = map_option (in8 p) (wait_for_output io)"

definition ps2_write8 :: "nat \<Rightarrow> u8 \<Rightarrow> ports \<Rightarrow> ports option" where
  "ps2_write8 p d io = map_option (out8 p d) (flush_input io)"

definition ps2_write_command :: "u8 \<Rightarrow> ports \<Rightarrow> ports option" where
  "ps2_write_command = ps2_write8 0x64"

definition ps2_write_data :: "u8 \<Rightarrow> ports \<Rightarrow> ports option" where
  "ps2_write_data = ps2_write8 0x60"

definition ps2_read_data :: "ports \<Rightarrow> (u8 \<times> ports) option" where
  "ps2_read_data = ps2_read8 0x60"

definition read_expected :: "nat \<Rightarrow> u8 \<Rightarrow> ports \<Rightarrow> (unit attempt \<times> ports) option" where
  "read_expected p response io =
     map_option (\<lambda>(x, io). (if x \<noteq> response then Inl ''Communication failed'' else Inr (), io)) (ps2_read8 p io)"

definition read_ack :: "ports \<Rightarrow> (unit attempt \<times> ports) option" where
  "read_ack = read_expected 0x60 0xfa"

section \<open>The two ports of the controller\<close>

datatype ps2_port = port1 | port2

record ps2 =
  hasPort :: "ps2_port \<Rightarrow> bool"
  portDevice :: "ps2_port \<Rightarrow> nat option"

definition send_port_command :: "ps2_port \<Rightarrow> u8 \<Rightarrow> ports \<Rightarrow> ports option" where
  "send_port_command p c io =
     do { io \<leftarrow> (case p of port1 \<Rightarrow> Some io | port2 \<Rightarrow> ps2_write_command 0xd4 io); ps2_write_data c io }"

definition send_port_data :: "ps2_port \<Rightarrow> u8 \<Rightarrow> ports \<Rightarrow> ports option" where
  "send_port_data p d io =
     do { io \<leftarrow> (case p of port1 \<Rightarrow> Some io | port2 \<Rightarrow> ps2_write_command 0xd4 io); ps2_write_data d io }"

definition install_port_device :: "ps2_port \<Rightarrow> nat \<Rightarrow> ps2 \<Rightarrow> bool \<times> ps2" where
  "install_port_device p h s =
     (if \<not> hasPort s p \<or> portDevice s p \<noteq> None then (False, s) else (True, s\<lparr>portDevice := (portDevice s)(p := Some h)\<rparr>))"

definition uninstall_port_device :: "ps2_port \<Rightarrow> nat \<Rightarrow> ps2 \<Rightarrow> bool \<times> ps2" where
  "uninstall_port_device p h s =
     (if portDevice s p \<noteq> Some h then (False, s) else (True, s\<lparr>portDevice := (portDevice s)(p := None)\<rparr>))"

section \<open>Lemmas\<close>

lemma wait_step: "wait_for_output io = (if ahead io 0x64 0 = 0 then wait_for_output (skip_reads 0x64 1 io) else Some (skip_reads 0x64 1 io))"
  by (subst wait_for_output.simps) (simp add: read_status_def in8_ahead logical_not_def)

lemma flush_step: "flush_input io = (if ahead io 0x64 0 AND 2 \<noteq> 0 then flush_input (skip_reads 0x64 1 io) else Some (skip_reads 0x64 1 io))"
  by (subst flush_input.simps) (simp add: read_status_def in8_ahead)

lemma wait_returns:
  assumes "ahead io 0x64 n \<noteq> 0" "\<forall>k < n. ahead io 0x64 k = 0"
  shows "wait_for_output io = Some (skip_reads 0x64 (n + 1) io)"
  using assms
proof (induction n arbitrary: io)
  case (Suc n)
  have "ahead io 0x64 0 = 0" using Suc.prems(2) by blast
  moreover have "wait_for_output (skip_reads 0x64 1 io) = Some (skip_reads 0x64 (n + 1) (skip_reads 0x64 1 io))"
    by (rule Suc.IH) (use Suc.prems in auto)
  ultimately show ?case by (subst wait_step) (simp add: add.commute)
qed (subst wait_step, simp)

lemma flush_returns:
  assumes "ahead io 0x64 n AND 2 = 0" "\<forall>k < n. ahead io 0x64 k AND 2 \<noteq> 0"
  shows "flush_input io = Some (skip_reads 0x64 (n + 1) io)"
  using assms
proof (induction n arbitrary: io)
  case (Suc n)
  have "ahead io 0x64 0 AND 2 \<noteq> 0" using Suc.prems(2) by blast
  moreover have "flush_input (skip_reads 0x64 1 io) = Some (skip_reads 0x64 (n + 1) (skip_reads 0x64 1 io))"
    by (rule Suc.IH) (use Suc.prems in auto)
  ultimately show ?case by (subst flush_step) (simp add: add.commute)
qed (subst flush_step, simp)

lemma wait_reads:
  assumes "wait_for_output io = Some io'"
  shows "\<exists>n. ahead io 0x64 n \<noteq> 0"
proof (rule wait_for_output.raw_induct[OF _ assms])
  fix w :: "ports \<Rightarrow> ports option" and io io'
  assume IH: "\<And>io io'. w io = Some io' \<Longrightarrow> \<exists>n. ahead io 0x64 n \<noteq> 0"
    and step: "(case read_status io of (s, io) \<Rightarrow> if logical_not s AND 1 \<noteq> 0 then w io else Some io) = Some io'"
  show "\<exists>n. ahead io 0x64 n \<noteq> 0"
  proof (cases "ahead io 0x64 0 = 0")
    case True
    with step have "w (skip_reads 0x64 1 io) = Some io'" by (simp add: read_status_def in8_ahead logical_not_def)
    from IH[OF this] obtain n where "ahead io 0x64 (1 + n) \<noteq> 0" by auto
    then show ?thesis by blast
  qed blast
qed

lemma flush_reads:
  assumes "flush_input io = Some io'"
  shows "\<exists>n. ahead io 0x64 n AND 2 = 0"
proof (rule flush_input.raw_induct[OF _ assms])
  fix w :: "ports \<Rightarrow> ports option" and io io'
  assume IH: "\<And>io io'. w io = Some io' \<Longrightarrow> \<exists>n. ahead io 0x64 n AND 2 = 0"
    and step: "(case read_status io of (s, io) \<Rightarrow> if s AND 2 \<noteq> 0 then w io else Some io) = Some io'"
  show "\<exists>n. ahead io 0x64 n AND 2 = 0"
  proof (cases "ahead io 0x64 0 AND 2 = 0")
    case False
    with step have "w (skip_reads 0x64 1 io) = Some io'" by (simp add: read_status_def in8_ahead)
    from IH[OF this] obtain n where "ahead io 0x64 (1 + n) AND 2 = 0" by auto
    then show ?thesis by blast
  qed blast
qed

lemma wait_cases:
  "wait_for_output io = (if \<exists>n. ahead io 0x64 n \<noteq> 0 then Some (skip_reads 0x64 ((LEAST n. ahead io 0x64 n \<noteq> 0) + 1) io) else None)"
proof (cases "\<exists>n. ahead io 0x64 n \<noteq> 0")
  case True
  then have "ahead io 0x64 (LEAST n. ahead io 0x64 n \<noteq> 0) \<noteq> 0" by (rule LeastI_ex)
  moreover have "\<forall>k < (LEAST n. ahead io 0x64 n \<noteq> 0). ahead io 0x64 k = 0" using not_less_Least by blast
  ultimately show ?thesis unfolding if_P[OF True] by (rule wait_returns)
next
  case False
  then have "wait_for_output io = None" using wait_reads[of io] by (metis not_None_eq)
  then show ?thesis unfolding if_not_P[OF False] .
qed

lemma flush_cases:
  "flush_input io = (if \<exists>n. ahead io 0x64 n AND 2 = 0 then Some (skip_reads 0x64 ((LEAST n. ahead io 0x64 n AND 2 = 0) + 1) io) else None)"
proof (cases "\<exists>n. ahead io 0x64 n AND 2 = 0")
  case True
  then have "ahead io 0x64 (LEAST n. ahead io 0x64 n AND 2 = 0) AND 2 = 0" by (rule LeastI_ex)
  moreover have "\<forall>k < (LEAST n. ahead io 0x64 n AND 2 = 0). ahead io 0x64 k AND 2 \<noteq> 0" using not_less_Least by blast
  ultimately show ?thesis unfolding if_P[OF True] by (rule flush_returns)
next
  case False
  then have "flush_input io = None" using flush_reads[of io] by (metis not_None_eq)
  then show ?thesis unfolding if_not_P[OF False] .
qed

section \<open>Properties\<close>

text \<open>When the controller's waits return. A write returns exactly when some later status has its input bit clear, and then
  sends its byte once. A read returns exactly when some later status is not zero: the wait ends at the first such status,
  whether or not its output bit is set, so that the byte is taken from the data port even when the controller has none.\<close>

theorem ps2_waits:
  "(ps2_write8 p d io \<noteq> None \<longleftrightarrow> (\<exists>n. ahead io 0x64 n AND 2 = 0)) \<and>
    (\<forall>io'. ps2_write8 p d io = Some io' \<longrightarrow> sent io' = sent io @ [(p, d)]) \<and>
    (ps2_read_data io \<noteq> None \<longleftrightarrow> (\<exists>n. ahead io 0x64 n \<noteq> 0)) \<and>
    (\<forall>n. ahead io 0x64 n \<noteq> 0 \<and> (\<forall>k < n. ahead io 0x64 k = 0) \<longrightarrow>
      ps2_read_data io = Some (ahead io 0x60 0, skip_reads 0x60 1 (skip_reads 0x64 (n + 1) io)))"
proof -
  have "ps2_write8 p d io \<noteq> None \<longleftrightarrow> (\<exists>n. ahead io 0x64 n AND 2 = 0)"
    by (simp add: ps2_write8_def flush_cases)
  moreover have "\<forall>io'. ps2_write8 p d io = Some io' \<longrightarrow> sent io' = sent io @ [(p, d)]"
    by (auto simp: ps2_write8_def flush_cases out8_def split: if_splits)
  moreover have "ps2_read_data io \<noteq> None \<longleftrightarrow> (\<exists>n. ahead io 0x64 n \<noteq> 0)"
    by (simp add: ps2_read_data_def ps2_read8_def wait_cases)
  moreover have "\<forall>n. ahead io 0x64 n \<noteq> 0 \<and> (\<forall>k < n. ahead io 0x64 k = 0) \<longrightarrow>
      ps2_read_data io = Some (ahead io 0x60 0, skip_reads 0x60 1 (skip_reads 0x64 (n + 1) io))"
    by (auto simp: ps2_read_data_def ps2_read8_def wait_returns in8_ahead)
  ultimately show ?thesis by blast
qed

text \<open>A controller whose status is the bare system flag: the byte read is whatever the data port holds.\<close>

theorem ps2_waits_witness:
  "ps2_read_data \<lparr>answers = \<lambda>p n. if p = 0x64 then 4 else 7, taken = \<lambda>_. 0, sent = []\<rparr> =
    Some (7, skip_reads 0x60 1 (skip_reads 0x64 1 \<lparr>answers = \<lambda>p n. if p = 0x64 then 4 else 7, taken = \<lambda>_. 0, sent = []\<rparr>))"
proof -
  let ?io = "\<lparr>answers = \<lambda>p n. if p = 0x64 then 4 else 7, taken = \<lambda>_. 0, sent = []\<rparr> :: ports"
  have "ahead ?io 0x64 0 = 4" "ahead ?io 0x60 0 = 7" by (simp_all add: ahead_def)
  then show ?thesis
    using ps2_waits[of 0 0 ?io, THEN conjunct2, THEN conjunct2, THEN conjunct2, rule_format, of 0] by simp
qed

end
