(* ===== verification/Mouse.thy ===== *)
theory Mouse
  imports Ps2Ports
begin

unbundle bit_operations_syntax

text \<open>
  The PS/2 mouse of \<^verbatim>\<open>drivers/x86/input/Ps2Mouse.cpp\<close>: packets of three or four bytes become button, wheel and motion events.
  The bytes come from the controller of theory Ps2Ports. Motion is summed without wrap-around. The rescaling at the end of
  \<^verbatim>\<open>_on_irq\<close> is disabled in the source (\<^verbatim>\<open>if(false)\<close>, so \<^verbatim>\<open>rescale\<close> stays 0) and has no counterpart.
\<close>

datatype mouse_event = mouse_moved int int | mouse_pressed nat | mouse_released nat | mouse_scrolled int

text \<open>The static variables of the driver, with the local \<^verbatim>\<open>pendingMotion\<close>; \<open>triggered\<close> are the events so far.\<close>

record mouse =
  packet :: "u8 list"
  packetBytes :: nat
  buttonState :: "bool list"
  buttonCount :: nat
  hasWheel :: bool
  scale :: int
  pendingX :: int
  pendingY :: int
  triggered :: "mouse_event list"

definition trigger_mouse :: "mouse_event \<Rightarrow> mouse \<Rightarrow> mouse" where
  "trigger_mouse e m = m\<lparr>triggered := triggered m @ [e]\<rparr>"

definition button_change :: "nat \<Rightarrow> bool \<Rightarrow> mouse \<Rightarrow> mouse" where
  "button_change i down m =
     (if buttonState m ! i \<noteq> down
      then trigger_mouse (if down then mouse_pressed i else mouse_released i) (m\<lparr>buttonState := (buttonState m)[i := down]\<rparr>)
      else m)"

definition buttons_step :: "mouse \<Rightarrow> mouse" where
  "buttons_step m =
     (let p = packet m;
          m = button_change 0 (bit (p ! 0) 0) m; m = button_change 1 (bit (p ! 0) 1) m; m = button_change 2 (bit (p ! 0) 2) m in
      if buttonCount m > 3 then button_change 4 (bit (p ! 3) 5) (button_change 3 (bit (p ! 3) 4) m) else m)"

definition x_motion :: "u8 list \<Rightarrow> int \<Rightarrow> int" where
  "x_motion p sc = (uint (p ! 1) - (if bit (p ! 0) 4 then 0x100 else 0)) * sc"

definition y_motion :: "u8 list \<Rightarrow> int \<Rightarrow> int" where
  "y_motion p sc = - (uint (p ! 2) - (if bit (p ! 0) 5 then 0x100 else 0)) * sc"

definition motion_step :: "mouse \<Rightarrow> mouse" where
  "motion_step m =
     (let x = x_motion (packet m) (scale m); y = y_motion (packet m) (scale m) in
      if x \<noteq> 0 \<or> y \<noteq> 0 then m\<lparr>pendingX := pendingX m + x, pendingY := pendingY m + y\<rparr> else m)"

text \<open>The two readings of the fourth byte: a signed byte, and a signed field of four bits.\<close>

definition wheel_3 :: "u8 list \<Rightarrow> int" where
  "wheel_3 p = sint (p ! 3)"

definition wheel_5 :: "u8 list \<Rightarrow> int" where
  "wheel_5 p = sint (ucast (p ! 3) :: 4 word)"

definition wheel_step :: "mouse \<Rightarrow> mouse" where
  "wheel_step m =
     (if hasWheel m
      then if buttonCount m > 3
        then if wheel_5 (packet m) \<noteq> 0 then trigger_mouse (mouse_scrolled (wheel_5 (packet m))) m else m
        else if wheel_3 (packet m) \<noteq> 0 then trigger_mouse (mouse_scrolled (wheel_5 (packet m))) m else m
      else m)"

definition packet_size :: "mouse \<Rightarrow> nat" where
  "packet_size m = (if hasWheel m \<or> buttonCount m > 3 then 4 else 3)"

definition clear_packet :: "mouse \<Rightarrow> mouse" where
  "clear_packet m = m\<lparr>packetBytes := 0, packet := [0, 0, 0, 0]\<rparr>"

definition mouse_byte :: "u8 \<Rightarrow> mouse \<Rightarrow> mouse option" where
  "mouse_byte b m =
     (if packetBytes m \<ge> length (packet m) then None
      else let m = m\<lparr>packet := (packet m)[packetBytes m := b], packetBytes := packetBytes m + 1\<rparr> in
        if packetBytes m = 1 \<and> \<not> bit (packet m ! 0) 3 then Some (m\<lparr>packetBytes := 0, packet := (packet m)[0 := 0]\<rparr>)
        else if packetBytes m < packet_size m then Some m
        else Some (clear_packet (wheel_step (motion_step (buttons_step m)))))"

partial_function (option) mouse_loop :: "mouse \<Rightarrow> ports \<Rightarrow> (mouse \<times> ports) option" where
  "mouse_loop m io =
     (case has_output io of (some, io) \<Rightarrow>
        if \<not> some then Some (m, io)
        else (case read_status io of (s, io) \<Rightarrow>
          if s AND 0x20 = 0 then Some (m, io)
          else (case ps2_read_data io of
              None \<Rightarrow> None
            | Some (b, io) \<Rightarrow> (case mouse_byte b m of None \<Rightarrow> None | Some m \<Rightarrow> mouse_loop m io))))"

definition flush_motion :: "mouse \<Rightarrow> mouse" where
  "flush_motion m = (if pendingX m \<noteq> 0 \<or> pendingY m \<noteq> 0 then trigger_mouse (mouse_moved (pendingX m) (pendingY m)) m else m)"

definition mouse_on_irq :: "nat \<Rightarrow> nat \<Rightarrow> mouse \<Rightarrow> ports \<Rightarrow> (mouse \<times> ports) option" where
  "mouse_on_irq own irq m io =
     (if irq \<noteq> own then Some (m, io)
      else do { (m, io) \<leftarrow> mouse_loop (m\<lparr>pendingX := 0, pendingY := 0\<rparr>) io; Some (flush_motion m, io) })"

definition get_button_state :: "nat \<Rightarrow> mouse \<Rightarrow> bool" where
  "get_button_state b m = (if b \<ge> buttonCount m then False else buttonState m ! 0)"

section \<open>Well-formed decoders\<close>

definition mouse_ok :: "mouse \<Rightarrow> bool" where
  "mouse_ok m \<longleftrightarrow> length (packet m) = 4 \<and> length (buttonState m) = 5 \<and> packetBytes m < packet_size m \<and>
     (packetBytes m > 0 \<longrightarrow> bit (packet m ! 0) 3)"

lemma button_change_keeps [simp]:
  "packet (button_change i d m) = packet m" "packetBytes (button_change i d m) = packetBytes m"
  "buttonCount (button_change i d m) = buttonCount m" "hasWheel (button_change i d m) = hasWheel m"
  "scale (button_change i d m) = scale m" "pendingX (button_change i d m) = pendingX m" "pendingY (button_change i d m) = pendingY m"
  "length (buttonState (button_change i d m)) = length (buttonState m)"
  by (simp_all add: button_change_def trigger_mouse_def)

lemma button_change_state: "buttonState (button_change i d m) = (buttonState m)[i := d]"
proof (cases "buttonState m ! i = d")
  case True
  then show ?thesis by (metis button_change_def list_update_id)
qed (simp add: button_change_def trigger_mouse_def)

lemma buttons_step_keeps [simp]:
  "packet (buttons_step m) = packet m" "packetBytes (buttons_step m) = packetBytes m"
  "buttonCount (buttons_step m) = buttonCount m" "hasWheel (buttons_step m) = hasWheel m"
  "scale (buttons_step m) = scale m" "pendingX (buttons_step m) = pendingX m" "pendingY (buttons_step m) = pendingY m"
  "length (buttonState (buttons_step m)) = length (buttonState m)"
  by (simp_all add: buttons_step_def Let_def)

lemma motion_step_keeps [simp]:
  "packet (motion_step m) = packet m" "packetBytes (motion_step m) = packetBytes m" "buttonState (motion_step m) = buttonState m"
  "buttonCount (motion_step m) = buttonCount m" "hasWheel (motion_step m) = hasWheel m" "scale (motion_step m) = scale m"
  "triggered (motion_step m) = triggered m"
  "pendingX (motion_step m) = pendingX m + x_motion (packet m) (scale m)"
  "pendingY (motion_step m) = pendingY m + y_motion (packet m) (scale m)"
  by (simp_all add: motion_step_def Let_def)

lemma wheel_step_keeps [simp]:
  "packet (wheel_step m) = packet m" "packetBytes (wheel_step m) = packetBytes m" "buttonState (wheel_step m) = buttonState m"
  "buttonCount (wheel_step m) = buttonCount m" "hasWheel (wheel_step m) = hasWheel m" "scale (wheel_step m) = scale m"
  "pendingX (wheel_step m) = pendingX m" "pendingY (wheel_step m) = pendingY m"
  by (simp_all add: wheel_step_def trigger_mouse_def)

lemma mouse_byte_ok:
  assumes "mouse_ok m"
  shows "\<exists>m'. mouse_byte b m = Some m' \<and> mouse_ok m' \<and> buttonCount m' = buttonCount m \<and> hasWheel m' = hasWheel m \<and> scale m' = scale m"
proof -
  have l: "length (packet m) = 4" "packetBytes m < packet_size m" "packet_size m \<le> 4"
    using assms by (simp_all add: mouse_ok_def packet_size_def)
  then have n: "\<not> packetBytes m \<ge> length (packet m)" by simp
  show ?thesis
    using assms l(1) unfolding mouse_byte_def if_not_P[OF n]
    by (cases "packetBytes m") (auto simp: Let_def mouse_ok_def packet_size_def clear_packet_def)
qed

section \<open>Whole packets\<close>

fun mouse_bytes :: "u8 list \<Rightarrow> mouse \<Rightarrow> mouse option" where
  "mouse_bytes [] m = Some m"
| "mouse_bytes (b # bs) m = do { m \<leftarrow> mouse_byte b m; mouse_bytes bs m }"

lemma mouse_bytes_append: "mouse_bytes (bs @ cs) m = do { m \<leftarrow> mouse_bytes bs m; mouse_bytes cs m }"
  by (induction bs arbitrary: m) (auto split: bind_splits)

definition take_packet :: "u8 list \<Rightarrow> mouse \<Rightarrow> mouse" where
  "take_packet p m =
     clear_packet (wheel_step (motion_step (buttons_step (m\<lparr>packet := p @ drop (length p) (packet m), packetBytes := length p\<rparr>))))"

definition whole_packet :: "mouse \<Rightarrow> u8 list \<Rightarrow> bool" where
  "whole_packet m p \<longleftrightarrow> length p = packet_size m \<and> bit (p ! 0) 3"

lemma mouse_bytes_packet:
  assumes "mouse_ok m" "packetBytes m = 0" "whole_packet m p"
  shows "mouse_bytes p m = Some (take_packet p m)"
proof -
  obtain x0 x1 x2 x3 where m: "packet m = [x0, x1, x2, x3]"
    using assms(1) by (auto simp: mouse_ok_def length_Suc_conv numeral_eq_Suc)
  consider (three) b0 b1 b2 where "p = [b0, b1, b2]" "packet_size m = 3" | (four) b0 b1 b2 b3 where "p = [b0, b1, b2, b3]" "packet_size m = 4"
    using assms(3) by (cases "packet_size m = 3") (auto simp: whole_packet_def packet_size_def length_Suc_conv numeral_eq_Suc split: if_splits)
  then show ?thesis
  proof cases
    case three
    then show ?thesis using assms(2,3) m
      by (simp add: mouse_byte_def Let_def take_packet_def whole_packet_def packet_size_def split: if_splits)
  next
    case four
    then show ?thesis using assms(2,3) m
      by (auto simp add: mouse_byte_def Let_def take_packet_def whole_packet_def packet_size_def split: if_splits)
  qed
qed

text \<open>The reading of the events by a listener that knows the buttons: \<open>None\<close> if a button is pressed or released twice.\<close>

fun replays :: "mouse_event list \<Rightarrow> bool list \<Rightarrow> bool list option" where
  "replays [] bs = Some bs"
| "replays (mouse_pressed i # es) bs = (if i < length bs \<and> \<not> bs ! i then replays es (bs[i := True]) else None)"
| "replays (mouse_released i # es) bs = (if i < length bs \<and> bs ! i then replays es (bs[i := False]) else None)"
| "replays (mouse_moved x y # es) bs = replays es bs"
| "replays (mouse_scrolled d # es) bs = replays es bs"

lemma replays_append: "replays (es @ fs) bs = do { bs \<leftarrow> replays es bs; replays fs bs }"
  by (induction es bs rule: replays.induct) simp_all

definition follows :: "mouse \<Rightarrow> mouse \<Rightarrow> bool" where
  "follows m m' \<longleftrightarrow> (\<exists>es. triggered m' = triggered m @ es \<and> replays es (buttonState m) = Some (buttonState m'))"

lemma follows_trans: "follows m m' \<Longrightarrow> follows m' m'' \<Longrightarrow> follows m m''"
proof -
  assume "follows m m'" "follows m' m''"
  then obtain es fs where "triggered m' = triggered m @ es" "replays es (buttonState m) = Some (buttonState m')"
    "triggered m'' = triggered m' @ fs" "replays fs (buttonState m') = Some (buttonState m'')" by (auto simp: follows_def)
  then show ?thesis unfolding follows_def by (intro exI[of _ "es @ fs"]) (simp add: replays_append)
qed

lemma follows_same: "triggered m' = triggered m \<Longrightarrow> buttonState m' = buttonState m \<Longrightarrow> follows m m'"
  by (auto simp: follows_def intro: exI[of _ "[]"])

lemma follows_button: "i < length (buttonState m) \<Longrightarrow> follows m (button_change i d m)"
  by (auto simp: follows_def button_change_def trigger_mouse_def intro: exI[of _ "[]"])

lemma follows_wheel: "follows m (wheel_step m)"
  by (auto simp: follows_def wheel_step_def trigger_mouse_def intro: exI[of _ "[]"])

lemma follows_buttons:
  assumes "length (buttonState m) = 5"
  shows "follows m (buttons_step m)"
proof -
  let ?p = "packet m"
  let ?m1 = "button_change 0 (bit (?p ! 0) 0) m"
  let ?m2 = "button_change 1 (bit (?p ! 0) 1) ?m1"
  let ?m3 = "button_change 2 (bit (?p ! 0) 2) ?m2"
  let ?m4 = "button_change 3 (bit (?p ! 3) 4) ?m3"
  have "follows m ?m1" "follows ?m1 ?m2" "follows ?m2 ?m3" "follows ?m3 ?m4" "follows ?m4 (button_change 4 (bit (?p ! 3) 5) ?m4)"
    by (rule follows_button, use assms in simp)+
  then have "follows m ?m3" "follows m (button_change 4 (bit (?p ! 3) 5) ?m4)" by (blast intro: follows_trans)+
  then show ?thesis unfolding buttons_step_def Let_def by (simp only: split: if_split) simp
qed

lemma take_packet_keeps:
  "buttonCount (take_packet p m) = buttonCount m" "hasWheel (take_packet p m) = hasWheel m" "scale (take_packet p m) = scale m"
  "packetBytes (take_packet p m) = 0" "packet (take_packet p m) = [0, 0, 0, 0]"
  "length (buttonState (take_packet p m)) = length (buttonState m)"
  by (simp_all add: take_packet_def clear_packet_def)

lemma take_packet_motion:
  assumes "3 \<le> length p"
  shows "pendingX (take_packet p m) = pendingX m + x_motion p (scale m)" "pendingY (take_packet p m) = pendingY m + y_motion p (scale m)"
  using assms by (cases "p = []"; simp add: take_packet_def clear_packet_def x_motion_def y_motion_def nth_append)+

lemma take_packet_buttons:
  assumes "length (buttonState m) = 5" "0 < length p"
  shows "take 3 (buttonState (take_packet p m)) = [bit (p ! 0) 0, bit (p ! 0) 1, bit (p ! 0) 2]"
proof -
  obtain x0 x1 x2 x3 x4 where "buttonState m = [x0, x1, x2, x3, x4]"
    using assms(1) by (auto simp: length_Suc_conv numeral_eq_Suc)
  then show ?thesis using assms(2)
    by (simp add: take_packet_def clear_packet_def buttons_step_def Let_def button_change_state nth_append numeral_eq_Suc)
qed

lemma take_packet_follows:
  assumes "length (buttonState m) = 5"
  shows "follows m (take_packet p m)"
proof -
  let ?m = "m\<lparr>packet := p @ drop (length p) (packet m), packetBytes := length p\<rparr>"
  have "follows m ?m" "follows ?m (buttons_step ?m)" "follows (buttons_step ?m) (motion_step (buttons_step ?m))"
    "follows (motion_step (buttons_step ?m)) (wheel_step (motion_step (buttons_step ?m)))"
    "follows (wheel_step (motion_step (buttons_step ?m))) (clear_packet (wheel_step (motion_step (buttons_step ?m))))"
    using assms by (simp_all add: follows_same follows_buttons follows_wheel clear_packet_def)
  then show ?thesis unfolding take_packet_def by (blast intro: follows_trans)
qed

lemma take_packet_ok: "mouse_ok m \<Longrightarrow> mouse_ok (take_packet p m)"
  by (simp add: mouse_ok_def take_packet_keeps packet_size_def)

lemma mouse_bytes_packets:
  assumes "mouse_ok m" "packetBytes m = 0" "\<forall>p \<in> set ps. whole_packet m p"
  shows "mouse_bytes (concat ps) m = Some (fold take_packet ps m) \<and> mouse_ok (fold take_packet ps m) \<and>
    packetBytes (fold take_packet ps m) = 0 \<and> follows m (fold take_packet ps m) \<and>
    pendingX (fold take_packet ps m) = pendingX m + (\<Sum>p\<leftarrow>ps. x_motion p (scale m)) \<and>
    pendingY (fold take_packet ps m) = pendingY m + (\<Sum>p\<leftarrow>ps. y_motion p (scale m)) \<and>
    (ps \<noteq> [] \<longrightarrow> take 3 (buttonState (fold take_packet ps m)) = [bit (last ps ! 0) 0, bit (last ps ! 0) 1, bit (last ps ! 0) 2])"
  using assms
proof (induction ps arbitrary: m)
  case Nil
  then show ?case by (simp add: follows_same)
next
  case (Cons p ps)
  have p: "whole_packet m p" "3 \<le> length p" using Cons.prems(3) by (auto simp: whole_packet_def packet_size_def)
  have five: "length (buttonState m) = 5" using Cons.prems(1) by (simp add: mouse_ok_def)
  have "\<forall>q \<in> set ps. whole_packet (take_packet p m) q"
    using Cons.prems(3) by (simp add: whole_packet_def packet_size_def take_packet_keeps)
  note IH = Cons.IH[OF take_packet_ok[OF Cons.prems(1)] take_packet_keeps(4) this]
  have "follows m (fold take_packet ps (take_packet p m))"
    using IH take_packet_follows[OF five, of p] by (blast intro: follows_trans)
  moreover have "ps = [] \<Longrightarrow> take 3 (buttonState (take_packet p m)) = [bit (p ! 0) 0, bit (p ! 0) 1, bit (p ! 0) 2]"
    by (rule take_packet_buttons[OF five]) (use p(2) in linarith)
  ultimately show ?case
    using IH mouse_bytes_packet[OF Cons.prems(1,2) p(1)] take_packet_motion[OF p(2), of m]
    by (auto simp: mouse_bytes_append take_packet_keeps)
qed

section \<open>Bytes from the controller\<close>

text \<open>The controller has exactly the bytes \<open>bs\<close>, all of the mouse: each is looked at three times before it is read.\<close>

definition mouse_feed :: "ports \<Rightarrow> u8 list \<Rightarrow> bool" where
  "mouse_feed io bs \<longleftrightarrow>
     (\<forall>k < 3 * length bs. ahead io 0x64 k AND 1 \<noteq> 0 \<and> ahead io 0x64 k AND 0x20 \<noteq> 0) \<and>
     ahead io 0x64 (3 * length bs) AND 1 = 0 \<and> (\<forall>k < length bs. ahead io 0x60 k = bs ! k)"

lemma mouse_loop_feed:
  assumes "mouse_feed io bs" "mouse_bytes bs m = Some m'"
  shows "\<exists>io'. mouse_loop m io = Some (m', io') \<and> sent io' = sent io"
  using assms
proof (induction bs arbitrary: m io)
  case Nil
  then show ?case by (subst mouse_loop.simps) (simp add: mouse_feed_def has_output_def read_status_def in8_ahead)
next
  case (Cons b bs)
  from Cons.prems(2) obtain m1 where m1: "mouse_byte b m = Some m1" "mouse_bytes bs m1 = Some m'" by (auto split: bind_splits)
  let ?io = "skip_reads 0x60 1 (skip_reads 0x64 3 io)"
  have st: "ahead io 0x64 k AND 1 \<noteq> 0" "ahead io 0x64 k AND 0x20 \<noteq> 0" if "k < 3 + 3 * length bs" for k
    using Cons.prems(1) that by (simp_all add: mouse_feed_def)
  have "ahead (skip_reads 0x64 2 io) 0x64 0 \<noteq> 0" using st(1)[of 2] by auto
  from wait_returns[OF this] have "wait_for_output (skip_reads 0x64 2 io) = Some (skip_reads 0x64 3 io)" by simp
  moreover have "ahead io 0x60 0 = b" using Cons.prems(1) by (auto simp: mouse_feed_def)
  ultimately have data: "ps2_read_data (skip_reads 0x64 2 io) = Some (b, ?io)"
    by (simp add: ps2_read_data_def ps2_read8_def in8_ahead)
  have "mouse_feed ?io bs"
    unfolding mouse_feed_def
  proof (intro conjI allI impI)
    show "ahead ?io 0x64 k AND 1 \<noteq> 0" "ahead ?io 0x64 k AND 0x20 \<noteq> 0" if "k < 3 * length bs" for k
      using st[of "3 + k"] that by simp_all
    show "ahead ?io 0x64 (3 * length bs) AND 1 = 0" using Cons.prems(1) by (simp add: mouse_feed_def add.commute)
    show "ahead ?io 0x60 k = bs ! k" if "k < length bs" for k
      using Cons.prems(1) that by (auto simp: mouse_feed_def dest: spec[of _ "Suc k"])
  qed
  from Cons.IH[OF this m1(2)] obtain io' where io': "mouse_loop m1 ?io = Some (m', io')" "sent io' = sent io" by auto
  have "mouse_loop m io = mouse_loop m1 ?io"
    using st[of 0] st[of 1] data m1(1)
    by (subst mouse_loop.simps) (simp add: has_output_def read_status_def in8_ahead numeral_2_eq_2)
  with io' show ?case by auto
qed

section \<open>Properties\<close>

lemma motion_range: "- 256 \<le> uint (x :: u8) - (if c then 0x100 else 0) \<and> uint x - (if c then 0x100 else 0) \<le> 255"
proof -
  have u: "0 \<le> uint x" "uint x < 256" using unsigned_less[of x, where ?'a = int] by simp_all
  show ?thesis
  proof (cases c)
    case True
    show ?thesis unfolding if_P[OF True] using u by linarith
  next
    case False
    show ?thesis unfolding if_not_P[OF False] using u by linarith
  qed
qed


definition idle_mouse :: mouse where
  "idle_mouse = \<lparr>packet = [0, 0, 0, 0], packetBytes = 0, buttonState = replicate 5 False, buttonCount = 3, hasWheel = False,
     scale = 1, pendingX = 0, pendingY = 0, triggered = []\<rparr>"


end
