(* ===== verification/Pic.thy ===== *)
theory Pic
  imports Drivers Ps2Ports
begin

unbundle bit_operations_syntax

text \<open>
  The interrupt controller of \<^verbatim>\<open>drivers/x86/interrupt/Pic8259.cpp\<close>: sixteen lines on two chips, each with a mask register
  behind a port (theory Ps2Ports). An enabled line is a processor vector the driver subscribes to (theory Drivers); when the
  vector comes, the line is handed to its subscribers and acknowledged. Logging is left out.
\<close>

record pic =
  irqOffset0 :: nat
  irqOffset1 :: nat
  irqEnabled :: u32
  picPorts :: ports
  picSys :: sys

definition pic_out :: "nat \<Rightarrow> u8 \<Rightarrow> pic \<Rightarrow> pic" where
  "pic_out port x p = p\<lparr>picPorts := out8 port x (picPorts p)\<rparr>"

definition pic_in :: "nat \<Rightarrow> pic \<Rightarrow> u8 \<times> pic" where
  "pic_in port p = (case in8 port (picPorts p) of (x, io) \<Rightarrow> (x, p\<lparr>picPorts := io\<rparr>))"

definition pic_command0 :: nat where "pic_command0 = 0x20"
definition pic_data0 :: nat where "pic_data0 = 0x21"
definition pic_command1 :: nat where "pic_command1 = 0xa0"
definition pic_data1 :: nat where "pic_data1 = 0xa1"

text \<open>The \<^verbatim>\<open>switch(irq)\<close>: the port of the mask register, the bit in it and the vector (an \<^verbatim>\<open>U8\<close>).\<close>

definition line_of :: "nat \<Rightarrow> pic \<Rightarrow> (nat \<times> nat \<times> nat) option" where
  "line_of irq p =
     (if irq \<le> 7 then Some (pic_data0, irq, (irqOffset0 p + irq) mod 256)
      else if irq \<le> 15 then Some (pic_data1, irq - 8, (irqOffset1 p + (irq - 8)) mod 256)
      else None)"

definition enable_irq :: "nat \<Rightarrow> nat \<Rightarrow> nat \<Rightarrow> pic \<Rightarrow> pic option" where
  "enable_irq d cpu irq p =
     (if cpu > 0 then Some p
      else (case line_of irq p of
          None \<Rightarrow> Some p
        | Some (port, b, vector) \<Rightarrow>
            (case pic_in port p of (x, p) \<Rightarrow>
               do { let p = pic_out port (x AND NOT (push_bit b 1)) p;
                    m \<leftarrow> bm32_set irq True (irqEnabled p);
                    s \<leftarrow> subscribe_interrupt d vector (picSys p);
                    Some (p\<lparr>irqEnabled := m, picSys := s\<rparr>) })))"

definition disable_irq :: "nat \<Rightarrow> nat \<Rightarrow> pic \<Rightarrow> pic option" where
  "disable_irq d irq p =
     (case line_of irq p of
        None \<Rightarrow> Some p
      | Some (port, b, vector) \<Rightarrow>
          do { s \<leftarrow> unsubscribe_interrupt d vector (picSys p);
               m \<leftarrow> bm32_set irq False (irqEnabled p);
               let (x, p) = pic_in port (p\<lparr>picSys := s, irqEnabled := m\<rparr>);
               Some (pic_out port (x OR push_bit b 1) p) })"

definition disable_all_irqs :: "nat \<Rightarrow> pic \<Rightarrow> pic option" where
  "disable_all_irqs d p =
     map_option (\<lambda>s. pic_out pic_data1 0xff (pic_out pic_data0 0xff (p\<lparr>picSys := s\<rparr>))) (unsubscribe_all_interrupts d (picSys p))"

fun available_line :: "nat \<Rightarrow> nat \<Rightarrow> mask256 \<Rightarrow> u32 \<Rightarrow> nat attempt option" where
  "available_line i 0 wanted enabled = Some (Inl ''No remaining IRQ available'')"
| "available_line i (Suc n) wanted enabled =
     do { w \<leftarrow> bm256_get wanted i;
          if \<not> w \<or> i = 1 \<or> i = 12 then available_line (i + 1) n wanted enabled
          else do { e \<leftarrow> bm32_get enabled i; if \<not> e then Some (Inr i) else available_line (i + 1) n wanted enabled } }"

definition get_available_irq :: "mask256 \<Rightarrow> pic \<Rightarrow> nat attempt option" where
  "get_available_irq wanted p = available_line 0 16 wanted (irqEnabled p)"

text \<open>The subscriptions at the end test \<^verbatim>\<open>!mask1&(1<<i)\<close>, where \<open>!\<close> binds first.\<close>

definition unmasked :: "u8 \<Rightarrow> nat \<Rightarrow> bool" where
  "unmasked x i \<longleftrightarrow> (uint (logical_not x) :: int) AND push_bit i 1 \<noteq> 0"

fun resubscribe :: "nat \<Rightarrow> u8 \<Rightarrow> u8 \<Rightarrow> nat \<Rightarrow> nat \<Rightarrow> pic \<Rightarrow> pic option" where
  "resubscribe d m1 m2 i 0 p = Some p"
| "resubscribe d m1 m2 i (Suc n) p =
     do { s \<leftarrow> (if unmasked m1 i then subscribe_interrupt d ((irqOffset0 p + i) mod 256) (picSys p) else Some (picSys p));
          s \<leftarrow> (if unmasked m2 i then subscribe_interrupt d ((irqOffset1 p + i) mod 256) s else Some s);
          resubscribe d m1 m2 (i + 1) n (p\<lparr>picSys := s\<rparr>) }"

definition pic_wait :: "pic \<Rightarrow> pic" where
  "pic_wait p = p\<lparr>picPorts := io_wait (picPorts p)\<rparr>"

definition command_words :: "nat \<Rightarrow> nat \<Rightarrow> (nat \<times> u8) list" where
  "command_words offset1 offset2 =
     [(pic_command0, 0x11), (pic_command1, 0x11), (pic_data0, of_nat offset1), (pic_data1, of_nat offset2),
      (pic_data0, 4), (pic_data1, 2), (pic_data0, 1), (pic_data1, 1)]"

definition set_offset :: "nat \<Rightarrow> nat \<Rightarrow> nat \<Rightarrow> pic \<Rightarrow> pic option" where
  "set_offset d offset1 offset2 p =
     do { s \<leftarrow> unsubscribe_all_interrupts d (picSys p);
          let p = p\<lparr>picSys := s, irqOffset0 := offset1, irqOffset1 := offset2\<rparr>;
          let (m1, p) = pic_in pic_data0 p;
          let (m2, p) = pic_in pic_data1 p;
          let p = fold (\<lambda>w p. pic_wait (pic_out (fst w) (snd w) p)) (command_words offset1 offset2) p;
          resubscribe d m1 m2 0 8 (pic_out pic_data1 m2 (pic_out pic_data0 m1 p)) }"

text \<open>\<open>handler\<close> is \<^verbatim>\<open>exceptions::_on_irq\<close>.\<close>

definition eoi :: "nat \<Rightarrow> pic \<Rightarrow> pic" where
  "eoi port = pic_out port 0x20"

definition spurious :: "nat \<Rightarrow> pic \<Rightarrow> bool \<times> pic" where
  "spurious port p = (case pic_in port (pic_out port 0x0b p) of (x, p) \<Rightarrow> (logical_not x AND 0x80 \<noteq> 0, p))"

definition pic_on_interrupt :: "(nat \<Rightarrow> pic \<Rightarrow> pic option) \<Rightarrow> nat \<Rightarrow> pic \<Rightarrow> pic option" where
  "pic_on_interrupt handler vector p =
     (if vector \<ge> irqOffset0 p \<and> vector < irqOffset0 p + 8
      then let irq = vector - irqOffset0 p; (sp, p) = (if irq = 7 then spurious pic_command0 p else (False, p)) in
        if sp then Some p else map_option (eoi pic_command0) (handler irq p)
      else if vector \<ge> irqOffset1 p \<and> vector < irqOffset1 p + 8
      then let irq = vector - irqOffset1 p + 8; (sp, p) = (if irq = 15 then spurious pic_command1 p else (False, p)) in
        if sp then Some p else map_option (\<lambda>p. eoi pic_command0 (eoi pic_command1 p)) (handler irq p)
      else Some p)"

fun subscribe_ports :: "nat \<Rightarrow> nat list \<Rightarrow> sys \<Rightarrow> (unit attempt \<times> sys) option" where
  "subscribe_ports d [] s = Some (Inr (), s)"
| "subscribe_ports d (port # ports) s =
     (case subscribe_ioPort d port s of
        None \<Rightarrow> None
      | Some (Inl e, s) \<Rightarrow> Some (Inl e, s)
      | Some (Inr _, s) \<Rightarrow> subscribe_ports d ports s)"

definition pic_start :: "nat \<Rightarrow> pic \<Rightarrow> (unit attempt \<times> pic) option" where
  "pic_start d p =
     (let p = p\<lparr>irqOffset0 := 0, irqOffset1 := 0\<rparr> in
      case subscribe_ports d [pic_command0, pic_data0, pic_command1, pic_data1] (picSys p) of
        None \<Rightarrow> None
      | Some (Inl e, s) \<Rightarrow> Some (Inl e, p\<lparr>picSys := s\<rparr>)
      | Some (Inr _, s) \<Rightarrow>
          do { p \<leftarrow> set_offset d 0x20 0x28 (p\<lparr>picSys := s\<rparr>); p \<leftarrow> disable_all_irqs d p;
               p \<leftarrow> enable_irq d 0 2 p; Some (Inr (), p) })"

section \<open>Subscribing to a vector\<close>

definition room :: "sys \<Rightarrow> nat \<Rightarrow> bool" where
  "room s v \<longleftrightarrow> (case drvInterrupts s v of None \<Rightarrow> True | Some a \<Rightarrow> alen a < max_elems)"

definition subscribers :: "sys \<Rightarrow> nat \<Rightarrow> nat list \<Rightarrow> bool" where
  "subscribers s v xs \<longleftrightarrow> (case drvInterrupts s v of None \<Rightarrow> xs = [] | Some a \<Rightarrow> arr_repr a xs)"

lemma subscribe_interrupt_effect:
  assumes "subscribers s v xs" "length xs < max_elems"
  shows "\<exists>s'. subscribe_interrupt d v s = Some s' \<and> bm256_get (subscribedInterrupts (drvs s' d)) v = Some True \<and>
    subscribers s' v (if bm256_get (subscribedInterrupts (drvs s d)) v = Some True then xs else xs @ [d])"
proof (cases "bm256_get (subscribedInterrupts (drvs s d)) v = Some True")
  case True
  then show ?thesis using assms by (simp add: subscribe_interrupt_def)
next
  case False
  then have f: "bm256_get (subscribedInterrupts (drvs s d)) v = Some False" by (auto simp: bm256_get_bit)
  let ?a = "case drvInterrupts s v of None \<Rightarrow> new_array 1 | Some a \<Rightarrow> a"
  have "arr_repr ?a xs" using assms(1) new_array_repr by (auto simp: subscribers_def split: option.splits)
  from pod.push_ok[OF this assms(2), of d] obtain a where a: "pod_push_back d ?a = Some a" "arr_repr a (xs @ [d])" by blast
  from bm256_set_get[of v True "subscribedInterrupts (drvs s d)"] obtain m where
    m: "bm256_set v True (subscribedInterrupts (drvs s d)) = Some m" "bm256_get m v = Some True" by auto
  show ?thesis
    using f a m by (simp add: subscribe_interrupt_def subscribers_def upd_drv_def)
qed

lemma available_line_find:
  "available_line i n wanted 0 =
    Some (case find (\<lambda>k. bm256_get wanted k = Some True \<and> k \<noteq> 1 \<and> k \<noteq> 12) [i..<i + n] of
      None \<Rightarrow> Inl ''No remaining IRQ available'' | Some k \<Rightarrow> Inr k)" if "i + n \<le> 16"
  using that
proof (induction n arbitrary: i)
  case (Suc n)
  have u: "[i..<i + Suc n] = i # [i + 1..<(i + 1) + n]" by (simp add: upt_conv_Cons)
  have e: "bm32_get 0 i = Some False" using Suc.prems by (simp add: bm32_get_def shl32_def)
  have IH: "available_line (i + 1) n wanted 0 =
    Some (case find (\<lambda>k. bm256_get wanted k = Some True \<and> k \<noteq> 1 \<and> k \<noteq> 12) [i + 1..<(i + 1) + n] of
      None \<Rightarrow> Inl ''No remaining IRQ available'' | Some k \<Rightarrow> Inr k)" by (rule Suc.IH) (use Suc.prems in simp)
  obtain w where w: "bm256_get wanted i = Some w" by (simp add: bm256_get_bit)
  show ?case unfolding u using IH by (simp add: w e del: upt_Suc)
qed simp

section \<open>Properties\<close>

text \<open>Enabling a line clears its bit in the mask register of its chip, leaving the other bits as read, and makes the
  driver a subscriber of the line's vector. It does not mark the line as used: the next search for a free line, which takes
  the first wanted line except 1 and 12, answers the same as before, so that two drivers are given the same line.\<close>

theorem pic_enable:
  assumes "irq < 16" "line_of irq p = Some (port, b, vector)" "subscribers (picSys p) vector xs" "length xs < max_elems"
    and "irqEnabled p = 0"
  shows "\<exists>p'. enable_irq d 0 irq p = Some p' \<and>
    sent (picPorts p') = sent (picPorts p) @ [(port, ahead (picPorts p) port 0 AND NOT (push_bit b 1))] \<and>
    bm256_get (subscribedInterrupts (drvs (picSys p') d)) vector = Some True \<and>
    (\<exists>ys. subscribers (picSys p') vector (xs @ ys)) \<and> irqEnabled p' = 0 \<and>
    get_available_irq wanted p' =
      Some (case find (\<lambda>k. bm256_get wanted k = Some True \<and> k \<noteq> 1 \<and> k \<noteq> 12) [0..<16] of
        None \<Rightarrow> Inl ''No remaining IRQ available'' | Some k \<Rightarrow> Inr k)"
proof -
  from subscribe_interrupt_effect[OF assms(3,4), of d] obtain s where
    s: "subscribe_interrupt d vector (picSys p) = Some s" "bm256_get (subscribedInterrupts (drvs s d)) vector = Some True"
      "subscribers s vector (if bm256_get (subscribedInterrupts (drvs (picSys p) d)) vector = Some True then xs else xs @ [d])" by blast
  have m: "bm32_set irq True (irqEnabled p) = Some 0" using assms(1,5) by (simp add: bm32_set_def shl64_def)
  let ?p = "(pic_out port (ahead (picPorts p) port 0 AND NOT (push_bit b 1)) (p\<lparr>picPorts := skip_reads port 1 (picPorts p)\<rparr>))\<lparr>irqEnabled := 0, picSys := s\<rparr>"
  have "enable_irq d 0 irq p = Some ?p"
    using assms(2,5) s(1) m by (simp add: enable_irq_def pic_in_def in8_ahead pic_out_def Let_def)
  moreover have "sent (picPorts ?p) = sent (picPorts p) @ [(port, ahead (picPorts p) port 0 AND NOT (push_bit b 1))]"
    by (simp add: pic_out_def out8_def)
  moreover have "\<exists>ys. subscribers s vector (xs @ ys)"
    using s(3) by (cases "bm256_get (subscribedInterrupts (drvs (picSys p) d)) vector = Some True") (auto intro: exI[of _ "[]"] exI[of _ "[d]"])
  ultimately show ?thesis using s(2) available_line_find[of 0 16 wanted] by (simp add: get_available_irq_def)
qed

definition example_pic :: pic where
  "example_pic = \<lparr>irqOffset0 = 0x20, irqOffset1 = 0x28, irqEnabled = 0,
     picPorts = \<lparr>answers = \<lambda>_ _. 0xff, taken = \<lambda>_. 0, sent = []\<rparr>, picSys = plain_sys active\<rparr>"

theorem pic_enable_witness:
  "\<exists>p'. enable_irq 9 0 10 example_pic = Some p' \<and> sent (picPorts p') = [(0xa1, 0xfb)]"
proof -
  have "line_of 10 example_pic = Some (0xa1, 2, 0x2a)" by (simp add: line_of_def example_pic_def pic_data1_def)
  moreover have "subscribers (picSys example_pic) 0x2a []" by (simp add: subscribers_def example_pic_def plain_sys_def split: prod.splits)
  moreover have "irqEnabled example_pic = 0" by (simp add: example_pic_def)
  ultimately have "\<exists>p'. enable_irq 9 0 10 example_pic = Some p' \<and>
    sent (picPorts p') = sent (picPorts example_pic) @ [(0xa1, ahead (picPorts example_pic) 0xa1 0 AND NOT (push_bit 2 1))]"
    using pic_enable[of 10 example_pic "0xa1" 2 "0x2a" "[]" 9] by (auto simp: max_elems_def)
  moreover have "sent (picPorts example_pic) = []" "ahead (picPorts example_pic) 0xa1 0 AND NOT (push_bit 2 1) = 0xfb"
    by (simp_all add: example_pic_def ahead_def)
  ultimately show ?thesis by simp
qed

text \<open>An interrupt on a vector of the controller hands its line to the handler exactly once and then acknowledges it:
  at the master for the first eight lines, at the slave and then the master for the others. For lines 7 and 15 the
  in-service register is asked first, but no answer makes the test for a spurious interrupt succeed, so these are handled
  and acknowledged like any other. A vector outside both ranges does nothing.\<close>

theorem pic_interrupt:
  assumes "irqOffset0 p + 8 \<le> irqOffset1 p" "irq < 16"
    and "vector = (if irq < 8 then irqOffset0 p + irq else irqOffset1 p + (irq - 8))"
    and "other < irqOffset0 p \<or> irqOffset0 p + 8 \<le> other \<and> other < irqOffset1 p \<or> irqOffset1 p + 8 \<le> other"
  shows "\<exists>p1. pic_on_interrupt handler vector p =
      map_option (\<lambda>q. if irq < 8 then eoi 0x20 q else eoi 0x20 (eoi 0xa0 q)) (handler irq p1) \<and>
    picSys p1 = picSys p \<and> (irq \<noteq> 7 \<and> irq \<noteq> 15 \<longrightarrow> p1 = p) \<and>
    (irq = 7 \<longrightarrow> p1 = snd (pic_in 0x20 (pic_out 0x20 0x0b p))) \<and> (irq = 15 \<longrightarrow> p1 = snd (pic_in 0xa0 (pic_out 0xa0 0x0b p))) \<and>
    pic_on_interrupt handler other p = Some p"
proof -
  have never: "spurious port p = (False, snd (pic_in port (pic_out port 0x0b p)))" for port
    by (simp add: spurious_def pic_in_def in8_def logical_not_def)
  have keeps: "picSys (snd (pic_in port (pic_out port x p))) = picSys p" for port x
    by (simp add: pic_in_def in8_def pic_out_def)
  have "pic_on_interrupt handler other p = Some p" using assms(1,4) by (auto simp: pic_on_interrupt_def)
  moreover consider "irq < 8" | "8 \<le> irq" by linarith
  then have "\<exists>p1. pic_on_interrupt handler vector p =
      map_option (\<lambda>q. if irq < 8 then eoi 0x20 q else eoi 0x20 (eoi 0xa0 q)) (handler irq p1) \<and>
    picSys p1 = picSys p \<and> (irq \<noteq> 7 \<and> irq \<noteq> 15 \<longrightarrow> p1 = p) \<and>
    (irq = 7 \<longrightarrow> p1 = snd (pic_in 0x20 (pic_out 0x20 0x0b p))) \<and> (irq = 15 \<longrightarrow> p1 = snd (pic_in 0xa0 (pic_out 0xa0 0x0b p)))"
  proof cases
    case 1
    then show ?thesis using assms(1,3) never[of pic_command0] keeps
      by (intro exI[of _ "if irq = 7 then snd (pic_in 0x20 (pic_out 0x20 0x0b p)) else p"])
        (simp add: pic_on_interrupt_def Let_def pic_command0_def)
  next
    case 2
    with assms(1,3) have "\<not> vector < irqOffset0 p + 8" "vector - irqOffset1 p + 8 = irq" "vector < irqOffset1 p + 8" "vector \<ge> irqOffset1 p"
      using assms(2) by auto
    then show ?thesis using 2 never[of pic_command1] keeps
      by (intro exI[of _ "if irq = 15 then snd (pic_in 0xa0 (pic_out 0xa0 0x0b p)) else p"])
        (simp add: pic_on_interrupt_def Let_def pic_command0_def pic_command1_def)
  qed
  ultimately show ?thesis by blast
qed

theorem pic_interrupt_witness:
  "\<exists>p1. pic_on_interrupt (\<lambda>n p. Some p) 0x2f example_pic = Some (eoi 0x20 (eoi 0xa0 p1)) \<and> picSys p1 = picSys example_pic"
  using pic_interrupt[of example_pic 15 "0x2f" 0 "\<lambda>n p. Some p"] by (auto simp: example_pic_def)

end
