(* ===== verification/Displays.thy ===== *)
theory Displays
  imports LinkedList Maths
begin

unbundle bit_operations_syntax

text \<open>
  The displays of \<^verbatim>\<open>drivers/DisplayManager.hpp\<close> and their stack. A display is a buffer of pixels at a position of the screen;
  the displays are an intrusive list, the bottom one first, ordered by layer. Displays are addresses in a store, their links
  are the list of theory LinkedList. Coordinates are mathematical integers: the sums of this theory stay within 32 bits
  as long as positions and sizes are below \<open>2^29\<close>; widths, heights and margins are words. Locks are left out: the whole
  interface runs under one.
\<close>

section \<open>Data\<close>

text \<open>A pixel buffer of the 32-bit format: \<^verbatim>\<open>pitch\<close> is its \<^verbatim>\<open>stride\<close> in pixels, \<^verbatim>\<open>cells\<close> the memory at \<^verbatim>\<open>address\<close>.\<close>

datatype order = argb | bgra

record pixel_buffer =
  border :: order
  bwidth :: u32
  bheight :: u32
  pitch :: nat
  cells :: "u32 list option"

record display =
  thread :: "nat option"
  posX :: int
  posY :: int
  layer :: u8
  dscale :: u8
  view :: pixel_buffer
  solidArea :: rect
  interactArea :: rect
  isVisible :: bool
  topLeftCorner :: "nat \<Rightarrow> u32"
  topRightCorner :: "nat \<Rightarrow> u32"
  bottomLeftCorner :: "nat \<Rightarrow> u32"
  bottomRightCorner :: "nat \<Rightarrow> u32"

definition get_width :: "display \<Rightarrow> u32" where
  "get_width d = bwidth (view d) * ucast (dscale d)"

definition get_height :: "display \<Rightarrow> u32" where
  "get_height d = bheight (view d) * ucast (dscale d)"

definition get_left_margin :: "display \<Rightarrow> u32 \<Rightarrow> u32" where
  "get_left_margin d y =
     (if y < 16 \<and> y \<le> bheight (view d) div 2 then min (topLeftCorner d (unat y)) (get_width d div 2)
      else let bottom = get_height d - 1 - y in
           if bottom < 16 then min (bottomLeftCorner d (unat bottom)) (get_width d div 2) else 0)"

definition get_right_margin :: "display \<Rightarrow> u32 \<Rightarrow> u32" where
  "get_right_margin d y =
     (if y < 16 \<and> y \<le> bheight (view d) div 2 then min (topRightCorner d (unat y)) (get_width d div 2)
      else let bottom = get_height d - 1 - y in
           if bottom < 16 then min (bottomRightCorner d (unat bottom)) (get_width d div 2) else 0)"

text \<open>The casts to \<^verbatim>\<open>I32\<close> that every use makes, and the part of a screen row that a display takes up.\<close>

definition wide :: "display \<Rightarrow> int" where
  "wide d = sint (get_width d)"

definition tall :: "display \<Rightarrow> int" where
  "tall d = sint (get_height d)"

definition display_rect :: "display \<Rightarrow> rect" where
  "display_rect d = mk_rect (posX d) (posY d) (posX d + wide d) (posY d + tall d)"

definition row_left :: "display \<Rightarrow> int \<Rightarrow> int" where
  "row_left d y = posX d + sint (get_left_margin d (word_of_int (y - posY d)))"

definition row_right :: "display \<Rightarrow> int \<Rightarrow> int" where
  "row_right d y = posX d + wide d - sint (get_right_margin d (word_of_int (y - posY d)))"

definition in_rows :: "display \<Rightarrow> int \<Rightarrow> bool" where
  "in_rows d y \<longleftrightarrow> posY d \<le> y \<and> y < posY d + tall d"

definition covers_at :: "display \<Rightarrow> int \<Rightarrow> int \<Rightarrow> bool" where
  "covers_at d x y \<longleftrightarrow> isVisible d \<and> in_rows d y \<and> row_left d y \<le> x \<and> x < row_right d y"

record framebuffer =
  fbDriver :: nat
  driverFramebuffer :: nat
  fbBuffer :: "pixel_buffer option"
  area :: rect

text \<open>The static variables of \<^verbatim>\<open>DisplayManager.cpp\<close>; \<open>watchers\<close> are the subscriptions of displays to the events of their
  threads.\<close>

record desk =
  links :: "nat lstate"
  displayAt :: "nat \<Rightarrow> display"
  framebuffers :: "framebuffer list"
  totalArea :: rect
  watchers :: "(nat \<times> nat) list"

section \<open>Widths and margins\<close>

lemma sint_half:
  fixes w :: u32
  assumes "m \<le> w div 2"
  shows "sint m = uint m" and "uint m * 2 \<le> uint w"
proof -
  have "uint m \<le> uint w div 2" using assms by (simp add: word_le_def uint_div)
  then show "uint m * 2 \<le> uint w" by simp
  moreover have "uint w < 4294967296" using uint_lt2p[of w] by simp
  ultimately have "uint m < 2147483648" by simp
  then have "signed_take_bit 31 (uint m) = uint m"
    by (intro signed_take_bit_int_eq_self) (rule order_trans[OF _ uint_ge_0], simp, simp)
  then show "sint m = uint m" by (simp add: sint_uint)
qed

lemma sint_nonneg:
  fixes w :: u32
  assumes "0 \<le> sint w"
  shows "uint w = sint w"
proof -
  have "sint w < 2147483648" using sint_lt[of w] by simp
  with assms show ?thesis by (simp add: uint_sint take_bit_int_eq_self)
qed

lemma margin_half:
  "get_left_margin d y \<le> get_width d div 2" "get_right_margin d y \<le> get_width d div 2"
  by (auto simp: get_left_margin_def get_right_margin_def Let_def)

lemma row_bounds:
  assumes "0 \<le> wide d"
  shows "posX d \<le> row_left d y" "row_left d y \<le> row_right d y" "row_right d y \<le> posX d + wide d"
proof -
  let ?y = "word_of_int (y - posY d)"
  have "uint (get_width d) = wide d" using sint_nonneg assms unfolding wide_def by blast
  then show "posX d \<le> row_left d y" "row_left d y \<le> row_right d y" "row_right d y \<le> posX d + wide d"
    using sint_half[OF margin_half(1)[of d ?y]] sint_half[OF margin_half(2)[of d ?y]]
    by (auto simp: row_left_def row_right_def wide_def)
qed

section \<open>Walking the stack\<close>

text \<open>The loops over \<^verbatim>\<open>display->next\<close> and \<^verbatim>\<open>display->prev\<close> leave the links alone: what they run over are these lists.\<close>

partial_function (option) walk_next :: "nat store \<Rightarrow> nat option \<Rightarrow> nat list option" where
  "walk_next h item =
     (case item of None \<Rightarrow> Some [] | Some x \<Rightarrow> Option.bind (walk_next h (nextp h x)) (\<lambda>xs. Some (x # xs)))"

partial_function (option) walk_prev :: "nat store \<Rightarrow> nat option \<Rightarrow> nat list option" where
  "walk_prev h item =
     (case item of None \<Rightarrow> Some [] | Some x \<Rightarrow> Option.bind (walk_prev h (prevp h x)) (\<lambda>xs. Some (x # xs)))"

lemma walk_next_linked: "linked h pv xs None \<Longrightarrow> walk_next h (first_or xs None) = Some xs"
proof (induction xs arbitrary: pv)
  case Nil
  show ?case by (simp add: walk_next.simps)
next
  case (Cons x xs)
  then show ?case by (subst walk_next.simps) auto
qed

lemma walk_prev_linked: "linked h None xs nx \<Longrightarrow> walk_prev h (last_or None xs) = Some (rev xs)"
proof (induction xs arbitrary: nx rule: rev_induct)
  case Nil
  show ?case by (simp add: walk_prev.simps)
next
  case (snoc x xs)
  then show ?case by (subst walk_prev.simps) auto
qed

lemma walk_repr:
  assumes "repr l xs"
  shows "walk_next (fst l) (head (snd l)) = Some xs" "walk_prev (fst l) (tail (snd l)) = Some (rev xs)"
  using assms walk_next_linked[of "fst l" None xs] walk_prev_linked[of "fst l" xs None] by (auto simp: repr_def)

lemma walk_repr_at:
  assumes "repr l (xs @ a # ys)"
  shows "walk_next (fst l) (nextp (fst l) a) = Some ys" "walk_prev (fst l) (prevp (fst l) a) = Some (rev xs)"
  using assms walk_next_linked[of "fst l" "Some a" ys] walk_prev_linked[of "fst l" xs "Some a"]
  by (auto simp: repr_def)

section \<open>Hit testing\<close>

text \<open>\<^verbatim>\<open>get_display_at\<close>. Enlarging the interactive area may overflow.\<close>

definition hit :: "display \<Rightarrow> int \<Rightarrow> int \<Rightarrow> bool \<Rightarrow> int \<Rightarrow> bool option" where
  "hit d x y includeNonInteractive margin =
     (if \<not> isVisible d then Some False
      else if x \<ge> posX d \<and> y \<ge> posY d \<and> x < posX d + wide d \<and> y < posY d + tall d then
        map_option (\<lambda>r. rect_contains r (x - posX d) (y - posY d))
          (if includeNonInteractive then Some (mk_rect 0 0 (sint (bwidth (view d))) (sint (bheight (view d))))
           else rect_cropped (interactArea d) (- margin) (- margin) (- margin) (- margin))
      else Some False)"

fun first_hit :: "(nat \<Rightarrow> display) \<Rightarrow> int \<Rightarrow> int \<Rightarrow> bool \<Rightarrow> int \<Rightarrow> nat list \<Rightarrow> nat option option" where
  "first_hit D x y inc m [] = Some None"
| "first_hit D x y inc m (d # ds) =
     (case hit (D d) x y inc m of
        None \<Rightarrow> None
      | Some h \<Rightarrow> if h then Some (Some d) else first_hit D x y inc m ds)"

definition get_display_at :: "int \<Rightarrow> int \<Rightarrow> bool \<Rightarrow> nat option \<Rightarrow> int \<Rightarrow> desk \<Rightarrow> nat option option" where
  "get_display_at x y inc below m s =
     (case walk_prev (fst (links s)) (case below of Some b \<Rightarrow> prevp (fst (links s)) b | None \<Rightarrow> tail (snd (links s))) of
        None \<Rightarrow> None
      | Some ds \<Rightarrow> first_hit (displayAt s) x y inc m ds)"

lemma first_hit_topmost:
  "(\<And>d. d \<in> set ds \<Longrightarrow> hit (D d) x y inc m \<noteq> None) \<Longrightarrow>
    first_hit D x y inc m ds = Some (find (\<lambda>d. hit (D d) x y inc m = Some True) ds)"
proof (induction ds)
  case (Cons d ds)
  from Cons.prems[of d] obtain b where b: "hit (D d) x y inc m = Some b" by auto
  show ?case
  proof (cases b)
    case False
    then show ?thesis using Cons b by simp
  qed (use b in simp)
qed simp

lemma find_rev_last:
  "find P (rev xs) = Some x \<longleftrightarrow> (\<exists>as bs. xs = as @ x # bs \<and> P x \<and> (\<forall>y \<in> set bs. \<not> P y))"
proof (induction xs rule: rev_induct)
  case (snoc z zs)
  show ?case
  proof (cases "P z")
    case True
    then have "(\<exists>as bs. zs @ [z] = as @ x # bs \<and> P x \<and> (\<forall>y \<in> set bs. \<not> P y)) \<longleftrightarrow> x = z"
      by (metis append_eq_append_conv_if append1_eq_conv append_Cons append_Nil2 last_in_set last.simps last_append
          list.distinct(1) empty_iff list.set(1) last_snoc)
    then show ?thesis using True by auto
  next
    case False
    have "(\<exists>as bs. zs @ [z] = as @ x # bs \<and> P x \<and> (\<forall>y \<in> set bs. \<not> P y)) \<longleftrightarrow>
        (\<exists>as bs. zs = as @ x # bs \<and> P x \<and> (\<forall>y \<in> set bs. \<not> P y))" (is "?l = ?r")
    proof
      assume ?l
      then obtain as bs where l: "zs @ [z] = as @ x # bs" "P x" "\<forall>y \<in> set bs. \<not> P y" by blast
      with False show ?r by (cases bs rule: rev_cases) auto
    next
      assume ?r
      then obtain as bs where l: "zs = as @ x # bs" "P x" "\<forall>y \<in> set bs. \<not> P y" by blast
      with False show ?l by (intro exI[of _ as] exI[of _ "bs @ [z]"]) auto
    qed
    with snoc False show ?thesis by simp
  qed
qed simp


section \<open>The stack\<close>

definition on_links :: "(nat lstate \<Rightarrow> nat lstate) \<Rightarrow> desk \<Rightarrow> desk" where
  "on_links f s = s\<lparr>links := f (links s)\<rparr>"

text \<open>The search that \<^verbatim>\<open>_create_view\<close> and \<^verbatim>\<open>_raise_display\<close> make from the top and the one \<^verbatim>\<open>_set_display_layer\<close> makes from the
  bottom, each with its insertion. Dereferencing a null head is \<open>None\<close>.\<close>

definition insert_by_layer :: "nat \<Rightarrow> desk \<Rightarrow> desk option" where
  "insert_by_layer d s =
     (if lsize (snd (links s)) < 1 then Some (on_links (push_back d) s)
      else
        (case walk_prev (fst (links s)) (tail (snd (links s))) of
           None \<Rightarrow> None
         | Some ds \<Rightarrow>
             (case find (\<lambda>other. layer (displayAt s other) \<le> layer (displayAt s d)) ds of
                Some other \<Rightarrow> Some (on_links (insert_after other d) s)
              | None \<Rightarrow>
                  (case head (snd (links s)) of
                     None \<Rightarrow> None
                   | Some h \<Rightarrow> Some (on_links (insert_before h d) s)))))"

definition insert_layer_bottom :: "nat \<Rightarrow> desk \<Rightarrow> desk option" where
  "insert_layer_bottom d s =
     (case walk_next (fst (links s)) (head (snd (links s))) of
        None \<Rightarrow> None
      | Some ds \<Rightarrow>
          (case find (\<lambda>other. layer (displayAt s other) \<ge> layer (displayAt s d)) ds of
             Some other \<Rightarrow> Some (on_links (insert_before other d) s)
           | None \<Rightarrow> Some (on_links (push_back d) s)))"

text \<open>The stack as a sequence, bottom first: no display twice, and layers never decrease.\<close>

definition stack :: "desk \<Rightarrow> nat list \<Rightarrow> bool" where
  "stack s xs \<longleftrightarrow> repr (links s) xs \<and> sorted (map (\<lambda>d. layer (displayAt s d)) xs)"

lemma stack_distinct: "stack s xs \<Longrightarrow> distinct xs"
  by (simp add: stack_def repr_def)

lemma on_links_simps [simp]:
  "links (on_links f s) = f (links s)" "displayAt (on_links f s) = displayAt s" "framebuffers (on_links f s) = framebuffers s"
  "totalArea (on_links f s) = totalArea s" "watchers (on_links f s) = watchers s"
  by (simp_all add: on_links_def)

text \<open>Where a sequence ordered by \<open>f\<close> splits at a key.\<close>

lemma split_after:
  fixes f :: "'b \<Rightarrow> 'c :: linorder"
  assumes "sorted (map f xs)"
  obtains as bs where "xs = as @ bs" "\<forall>x \<in> set as. f x \<le> k" "\<forall>x \<in> set bs. k < f x"
proof -
  have "\<forall>x \<in> set (dropWhile (\<lambda>x. f x \<le> k) xs). k < f x"
    using assms by (induction xs) (auto simp: not_le dest: order.strict_trans2)
  moreover have "\<forall>x \<in> set (takeWhile (\<lambda>x. f x \<le> k) xs). f x \<le> k" by (auto dest: set_takeWhileD)
  ultimately show thesis using that[of "takeWhile (\<lambda>x. f x \<le> k) xs" "dropWhile (\<lambda>x. f x \<le> k) xs"] by simp
qed

lemma split_before:
  fixes f :: "'b \<Rightarrow> 'c :: linorder"
  assumes "sorted (map f xs)"
  obtains as bs where "xs = as @ bs" "\<forall>x \<in> set as. f x < k" "\<forall>x \<in> set bs. k \<le> f x"
proof -
  have "\<forall>x \<in> set (dropWhile (\<lambda>x. f x < k) xs). k \<le> f x"
    using assms by (induction xs) (auto simp: not_less)
  moreover have "\<forall>x \<in> set (takeWhile (\<lambda>x. f x < k) xs). f x < k" by (auto dest: set_takeWhileD)
  ultimately show thesis using that[of "takeWhile (\<lambda>x. f x < k) xs" "dropWhile (\<lambda>x. f x < k) xs"] by simp
qed

lemma find_none: "\<forall>x \<in> set xs. \<not> P x \<Longrightarrow> find P (xs @ ys) = find P ys"
  by (induction xs) auto

lemma find_last:
  assumes "\<forall>x \<in> set as. P x" and "\<forall>x \<in> set bs. \<not> P x"
  shows "find P (rev (as @ bs)) = last_or None as"
  using assms by (cases as rule: rev_cases) (simp_all add: find_none find_None_iff)

lemma find_first_at:
  assumes "\<forall>x \<in> set as. \<not> P x" and "\<forall>x \<in> set bs. P x"
  shows "find P (as @ bs) = first_or bs None"
  using assms by (cases bs) (simp_all add: find_none find_None_iff)

text \<open>A display not in the stack is put on top of its layer by the one search, at the bottom of it by the other.\<close>

lemma stack_insert:
  assumes "stack s (as @ bs)" and "repr l (as @ d # bs)"
    and "\<forall>x \<in> set as. layer (displayAt s x) \<le> layer (displayAt s d)" and "\<forall>x \<in> set bs. layer (displayAt s d) \<le> layer (displayAt s x)"
  shows "stack (on_links (\<lambda>_. l) s) (as @ d # bs)"
  using assms by (auto simp: stack_def sorted_append)

lemma insert_by_layer_top:
  assumes st: "stack s (as @ bs)" and d: "d \<notin> set (as @ bs)" and n: "length (as @ bs) < two32"
    and a: "\<forall>x \<in> set as. layer (displayAt s x) \<le> layer (displayAt s d)"
    and b: "\<forall>x \<in> set bs. layer (displayAt s d) < layer (displayAt s x)"
  shows "\<exists>l. insert_by_layer d s = Some (on_links (\<lambda>_. l) s) \<and> stack (on_links (\<lambda>_. l) s) (as @ d # bs)"
proof -
  have r: "repr (links s) (as @ bs)" using st by (simp add: stack_def)
  have sz: "lsize (snd (links s)) < 1 \<longleftrightarrow> as @ bs = []"
  proof -
    have "unat (lsize (snd (links s))) = length (as @ bs)"
      using reprD(5)[of "fst (links s)" "snd (links s)" "as @ bs"] r n by (simp only: prod.collapse) (simp add: unat_of_nat del: of_nat_add)
    then show ?thesis by (simp add: word_less_nat_alt)
  qed
  have f: "find (\<lambda>z. layer (displayAt s z) \<le> layer (displayAt s d)) (rev (as @ bs)) = last_or None as"
    by (rule find_last) (use a b in \<open>auto simp: not_le\<close>)
  have bl: "\<forall>x \<in> set bs. layer (displayAt s d) \<le> layer (displayAt s x)" using b by (simp add: order.strict_implies_order)
  note top = stack_insert[OF st _ a bl]
  have go: ?thesis if "insert_by_layer d s = Some (on_links (\<lambda>_. l) s)" "repr l (as @ d # bs)" for l
    using that top by blast
  show ?thesis
  proof (cases "as @ bs = []")
    case True
    then show ?thesis
      using sz push_back_repr[OF r d] by (intro go[of "push_back d (links s)"]) (auto simp: insert_by_layer_def on_links_def)
  next
    case ne: False
    show ?thesis
    proof (cases as rule: rev_cases)
      case Nil
      then obtain h bs' where h: "bs = h # bs'" using ne by (cases bs) auto
      have "head (snd (links s)) = Some h" using r Nil h by (simp add: repr_def)
      moreover have "repr (insert_before h d (links s)) (as @ d # bs)"
        using insert_before_repr[of "links s" "[]" h bs' d] r d Nil h by simp
      ultimately show ?thesis
        using sz ne f Nil walk_repr[OF r]
        by (intro go[of "insert_before h d (links s)"]) (simp_all add: insert_by_layer_def on_links_def)
    next
      case (snoc as' q)
      have "repr (insert_after q d (links s)) (as @ d # bs)"
        using insert_after_repr[of "links s" as' q bs d] r d snoc by simp
      then show ?thesis
        using sz ne f snoc walk_repr[OF r]
        by (intro go[of "insert_after q d (links s)"]) (simp_all add: insert_by_layer_def on_links_def)
    qed
  qed
qed

lemma insert_layer_bottom_effect:
  assumes st: "stack s (as @ bs)" and d: "d \<notin> set (as @ bs)"
    and a: "\<forall>x \<in> set as. layer (displayAt s x) < layer (displayAt s d)"
    and b: "\<forall>x \<in> set bs. layer (displayAt s d) \<le> layer (displayAt s x)"
  shows "\<exists>l. insert_layer_bottom d s = Some (on_links (\<lambda>_. l) s) \<and> stack (on_links (\<lambda>_. l) s) (as @ d # bs)"
proof -
  have r: "repr (links s) (as @ bs)" using st by (simp add: stack_def)
  have f: "find (\<lambda>z. layer (displayAt s z) \<ge> layer (displayAt s d)) (as @ bs) = first_or bs None"
    by (rule find_first_at) (use a b in \<open>auto simp: not_le\<close>)
  have al: "\<forall>x \<in> set as. layer (displayAt s x) \<le> layer (displayAt s d)" using a by (simp add: order.strict_implies_order)
  show ?thesis
  proof (cases bs)
    case Nil
    then show ?thesis
      using f walk_repr[OF r] push_back_repr[OF r d] stack_insert[OF st _ al b, of "push_back d (links s)"]
      by (intro exI[of _ "push_back d (links s)"]) (simp add: insert_layer_bottom_def on_links_def)
  next
    case (Cons q bs')
    have "repr (insert_before q d (links s)) (as @ d # bs)"
      using insert_before_repr[of "links s" as q bs' d] r d Cons by simp
    then show ?thesis
      using f walk_repr[OF r] stack_insert[OF st _ al b, of "insert_before q d (links s)"] Cons
      by (intro exI[of _ "insert_before q d (links s)"]) (simp add: insert_layer_bottom_def on_links_def)
  qed
qed

text \<open>Hit testing finds the topmost display below \<open>below\<close> (or of the whole stack) whose interactive area, enlarged by the margin,
  holds the point: those in front of the one found are not hit, and if none is found, none is hit.\<close>

theorem display_at_topmost:
  assumes "repr (links s) is" and "case below of None \<Rightarrow> front = [] | Some b \<Rightarrow> \<exists>rest. front = b # rest" and "is = cand @ front"
    and "\<forall>i \<in> set cand. hit (displayAt s i) x y inc m \<noteq> None"
  shows "\<exists>r. get_display_at x y inc below m s = Some r \<and>
    (case r of
       None \<Rightarrow> \<forall>i \<in> set cand. hit (displayAt s i) x y inc m = Some False
     | Some i \<Rightarrow> \<exists>as bs. cand = as @ i # bs \<and> hit (displayAt s i) x y inc m = Some True \<and>
         (\<forall>j \<in> set bs. hit (displayAt s j) x y inc m = Some False))"
proof -
  let ?P = "\<lambda>i. hit (displayAt s i) x y inc m = Some True"
  have "walk_prev (fst (links s)) (case below of Some b \<Rightarrow> prevp (fst (links s)) b | None \<Rightarrow> tail (snd (links s))) = Some (rev cand)"
    using assms(1-3) walk_repr(2)[of "links s" "is"] walk_repr_at(2)[of "links s" cand] by (auto split: option.splits)
  then have r: "get_display_at x y inc below m s = Some (find ?P (rev cand))"
    using first_hit_topmost[of "rev cand" "displayAt s" x y inc m] assms(4) by (simp add: get_display_at_def)
  have no: "hit (displayAt s i) x y inc m = Some False" if "i \<in> set cand" "\<not> ?P i" for i
    using that assms(4) by (cases "hit (displayAt s i) x y inc m") auto
  show ?thesis
  proof (cases "find ?P (rev cand)")
    case None
    then have "\<forall>i \<in> set cand. \<not> ?P i" by (simp add: find_None_iff)
    then show ?thesis using r no unfolding None by simp
  next
    case (Some i)
    then obtain as bs where c: "cand = as @ i # bs" "?P i" "\<forall>j \<in> set bs. \<not> ?P j" unfolding find_rev_last by blast
    then have "\<forall>j \<in> set bs. hit (displayAt s j) x y inc m = Some False" using no by simp
    then show ?thesis using r c(1,2) unfolding Some by auto
  qed
qed

theorem display_at_topmost_witness:
  "\<exists>s :: desk. get_display_at 5 6 False (Some 9) 2 s = Some (Some 7)"
proof -
  let ?d = "\<lparr>thread = None, posX = 0, posY = 0, layer = 0, dscale = 1,
    view = \<lparr>border = bgra, bwidth = 16, bheight = 16, pitch = 16, cells = None\<rparr>, solidArea = mk_rect 0 0 16 16, interactArea = mk_rect 7 7 16 16,
    isVisible = True, topLeftCorner = \<lambda>_. 0, topRightCorner = \<lambda>_. 0, bottomLeftCorner = \<lambda>_. 0, bottomRightCorner = \<lambda>_. 0\<rparr>"
  let ?l = "push_back 9 (push_back 7 (push_back (8::nat) (\<lparr>nextp = \<lambda>_. None, prevp = \<lambda>_. None\<rparr>, empty_llist)))"
  let ?s = "\<lparr>links = ?l, displayAt = \<lambda>_. ?d, framebuffers = [], totalArea = mk_rect 0 0 0 0, watchers = []\<rparr>"
  have l: "repr ?l ((([] @ [8]) @ [7]) @ [9])" by (intro push_back_repr repr_empty) simp_all
  have h: "hit ?d 5 6 False 2 = Some True"
    by (simp add: hit_def wide_def tall_def get_width_def get_height_def rect_cropped_def ck_rect_def ck_def mk_rect_def squash_def
        rect_contains_def Let_def)
  have "\<exists>r. get_display_at 5 6 False (Some 9) 2 ?s = Some r \<and>
    (case r of
       None \<Rightarrow> \<forall>i \<in> set [8, 7]. hit (displayAt ?s i) 5 6 False 2 = Some False
     | Some i \<Rightarrow> \<exists>as bs. [8, 7] = as @ i # bs \<and> hit (displayAt ?s i) 5 6 False 2 = Some True \<and>
         (\<forall>j \<in> set bs. hit (displayAt ?s j) 5 6 False 2 = Some False))"
    by (rule display_at_topmost[of ?s "[8, 7, 9]" "[9]" "Some 9" "[8, 7]"]) (use l h in simp_all)
  then have "get_display_at 5 6 False (Some 9) 2 ?s = Some (Some 7)"
    using h by (auto simp: Cons_eq_append_conv split: option.splits)
  then show ?thesis by blast
qed

end
