(* ===== verification/Paint.thy ===== *)
theory Paint
  imports Displays
begin

text \<open>
  Rows of pixels: which runs of a row the loops of \<^verbatim>\<open>_update_background_area\<close> and \<^verbatim>\<open>__update_display_solid_area\<close>
  (\<^verbatim>\<open>drivers/DisplayManager.cpp\<close>) draw past the displays in the way, and what drawing runs, row by row, does to a buffer
  (\<^verbatim>\<open>Buffer::set\<close> of \<^verbatim>\<open>common/graphics2d/Buffer.inl\<close> and the copies of the display loop). Both loops are instances of one scan
  that differs in how \<^verbatim>\<open>nextX\<close> is chosen; whatever draws a run satisfies the locale \<open>run_painter\<close>.
\<close>

section \<open>Scanning a row\<close>

text \<open>What a display blocks of row \<open>y\<close>: the two \<^verbatim>\<open>continue\<close>s are \<open>None\<close>.\<close>

definition span :: "display \<Rightarrow> int \<Rightarrow> (int \<times> int) option" where
  "span d y = (if isVisible d \<and> in_rows d y then Some (row_left d y, row_right d y) else None)"

lemma covers_span: "covers_at d x y \<longleftrightarrow> (\<exists>l r. span d y = Some (l, r) \<and> l \<le> x \<and> x < r)"
  by (auto simp: covers_at_def span_def)

text \<open>The \<^verbatim>\<open>for\<close> loop over the displays, with \<open>ox\<close> the horizontal offset of the coordinates the loop works in. The result is
  \<^verbatim>\<open>startX\<close>, \<^verbatim>\<open>endX\<close> and \<^verbatim>\<open>nextX\<close> after it; \<open>nx\<close> gives the new \<^verbatim>\<open>nextX\<close> from \<^verbatim>\<open>endX\<close>, \<^verbatim>\<open>nextX\<close> and the right edge.\<close>

fun scan_row :: "(int \<Rightarrow> int \<Rightarrow> int \<Rightarrow> int) \<Rightarrow> int \<Rightarrow> int \<Rightarrow> display list \<Rightarrow> int \<Rightarrow> int \<Rightarrow> int \<Rightarrow> int \<times> int \<times> int" where
  "scan_row nx y ox [] s e n = (s, e, n)"
| "scan_row nx y ox (d # ds) s e n =
     (case span d y of
        None \<Rightarrow> scan_row nx y ox ds s e n
      | Some (l, r) \<Rightarrow>
          (let areaX1 = l - ox; areaX2 = r - ox in
           if areaX1 \<le> s then
             (let s' = max s areaX2 in if s' \<ge> e then (s', e, n) else scan_row nx y ox ds s' e n)
           else if areaX1 < e then scan_row nx y ox ds s areaX1 (nx e n areaX2)
           else scan_row nx y ox ds s e n))"

definition next_after_all :: "int \<Rightarrow> int \<Rightarrow> int \<Rightarrow> int" where
  "next_after_all e n a2 = max n a2"

definition next_in_gap :: "int \<Rightarrow> int \<Rightarrow> int \<Rightarrow> int" where
  "next_in_gap e n a2 = (if a2 < e then a2 else max n a2)"

text \<open>The five ways a display is dealt with.\<close>

lemma scan_cases:
  assumes "s < e"
  obtains (skip) "span d y = None" "scan_row nx y ox (d # ds) s e n = scan_row nx y ox ds s e n"
  | (block) l r where "span d y = Some (l, r)" "l - ox \<le> s" "e \<le> r - ox" "scan_row nx y ox (d # ds) s e n = (r - ox, e, n)"
  | (raise) l r where "span d y = Some (l, r)" "l - ox \<le> s" "r - ox < e"
      "scan_row nx y ox (d # ds) s e n = scan_row nx y ox ds (max s (r - ox)) e n"
  | (cut) l r where "span d y = Some (l, r)" "s < l - ox" "l - ox < e"
      "scan_row nx y ox (d # ds) s e n = scan_row nx y ox ds s (l - ox) (nx e n (r - ox))"
  | (beyond) l r where "span d y = Some (l, r)" "e \<le> l - ox" "scan_row nx y ox (d # ds) s e n = scan_row nx y ox ds s e n"
proof (cases "span d y")
  case None
  then show thesis by (intro skip) simp_all
next
  case (Some p)
  obtain l r where p: "p = (l, r)" by (cases p)
  consider "l - ox \<le> s" "e \<le> r - ox" | "l - ox \<le> s" "r - ox < e" | "s < l - ox" "l - ox < e" | "e \<le> l - ox"
    by linarith
  then show thesis
  proof cases
    case 1
    then have "max s (r - ox) = r - ox" using assms by simp
    then show thesis using block[of l r] Some p 1 by (simp add: Let_def)
  next
    case 2
    then have "\<not> e \<le> max s (r - ox)" using assms by simp
    then show thesis using raise[of l r] Some p 2 by (simp add: Let_def)
  next
    case 3
    then show thesis using cut[of l r] Some p by (simp add: Let_def)
  next
    case 4
    then show thesis using beyond[of l r] Some p assms by (simp add: Let_def)
  qed
qed

lemma scan_bounds:
  "scan_row nx y ox ds s e n = (s', e', n') \<Longrightarrow> s < e \<Longrightarrow> s \<le> s' \<and> s < e' \<and> e' \<le> e"
proof (induction ds arbitrary: s e n)
  case (Cons d ds)
  from Cons.prems(2) show ?case
  proof (cases rule: scan_cases[where d = d and y = y and nx = nx and ox = ox and ds = ds and n = n])
    case (block l r)
    then show ?thesis using Cons.prems by simp
  next
    case (raise l r)
    then show ?thesis using Cons.prems Cons.IH[of "max s (r - ox)" e n] by simp
  next
    case (cut l r)
    then show ?thesis using Cons.prems Cons.IH[of s "l - ox" "nx e n (r - ox)"] by simp
  qed (use Cons in simp_all)
qed simp

text \<open>The \<^verbatim>\<open>while\<close> loop of a row: the runs \<open>(startX, endX)\<close> it draws.\<close>

function row_runs :: "(int \<Rightarrow> int \<Rightarrow> int \<Rightarrow> int) \<Rightarrow> int \<Rightarrow> int \<Rightarrow> display list \<Rightarrow> int \<Rightarrow> int \<Rightarrow> (int \<times> int) list" where
  "row_runs nx y ox ds s xe =
     (if s < xe then
        (case scan_row nx y ox ds s xe s of
           (s', e, n) \<Rightarrow> (if e > s' then [(s', e)] else []) @ (if n > e then row_runs nx y ox ds n xe else []))
      else [])"
  by pat_completeness auto
termination
  by (relation "measure (\<lambda>(nx, y, ox, ds, s, xe). nat (xe - s))") (auto dest!: sym[of "(_, _, _)"] scan_bounds)

declare row_runs.simps [simp del]

lemma row_runs_empty: "xe \<le> s \<Longrightarrow> row_runs nx y ox ds s xe = []"
  by (subst row_runs.simps) simp

lemma row_runs_step:
  "s < xe \<Longrightarrow> scan_row nx y ox ds s xe s = (s', e, n) \<Longrightarrow>
    row_runs nx y ox ds s xe = (if e > s' then [(s', e)] else []) @ (if n > e then row_runs nx y ox ds n xe else [])"
  by (subst row_runs.simps) simp

section \<open>What the runs cover\<close>

definition blocked :: "int \<Rightarrow> int \<Rightarrow> display list \<Rightarrow> int \<Rightarrow> bool" where
  "blocked y ox ds x \<longleftrightarrow> (\<exists>d \<in> set ds. covers_at d (x + ox) y)"

lemma blocked_Cons: "blocked y ox (d # ds) x \<longleftrightarrow> (\<exists>l r. span d y = Some (l, r) \<and> l - ox \<le> x \<and> x < r - ox) \<or> blocked y ox ds x"
  by (auto simp: blocked_def covers_span algebra_simps)

lemma scan_free:
  "scan_row nx y ox ds s e n = (s', e', n') \<Longrightarrow> s < e \<Longrightarrow> s' \<le> x \<Longrightarrow> x < e' \<Longrightarrow> \<not> blocked y ox ds x"
proof (induction ds arbitrary: s e n)
  case (Cons d ds)
  from Cons.prems(2) show ?case
  proof (cases rule: scan_cases[where d = d and y = y and nx = nx and ox = ox and ds = ds and n = n])
    case skip
    then show ?thesis using Cons by (simp add: blocked_Cons)
  next
    case (block l r)
    then show ?thesis using Cons.prems by simp
  next
    case (raise l r)
    then have sc: "scan_row nx y ox ds (max s (r - ox)) e n = (s', e', n')" and lt: "max s (r - ox) < e"
      using Cons.prems by simp_all
    show ?thesis using Cons.IH[OF sc lt] scan_bounds[OF sc lt] raise Cons.prems by (auto simp: blocked_Cons)
  next
    case (cut l r)
    then have sc: "scan_row nx y ox ds s (l - ox) (nx e n (r - ox)) = (s', e', n')" using Cons.prems by simp
    show ?thesis using Cons.IH[OF sc cut(2)] scan_bounds[OF sc cut(2)] cut Cons.prems by (auto simp: blocked_Cons)
  next
    case (beyond l r)
    then have sc: "scan_row nx y ox ds s e n = (s', e', n')" using Cons.prems by simp
    show ?thesis using Cons.IH[OF sc] scan_bounds[OF sc] beyond Cons.prems by (auto simp: blocked_Cons)
  qed
qed (simp add: blocked_def)

text \<open>A run lies in the row and meets no display, whichever rule chooses \<^verbatim>\<open>nextX\<close>.\<close>

lemma row_runs_free:
  "(l, r) \<in> set (row_runs nx y ox ds s xe) \<Longrightarrow>
    s \<le> l \<and> l < r \<and> r \<le> xe \<and> (\<forall>x. l \<le> x \<and> x < r \<longrightarrow> \<not> blocked y ox ds x)"
proof (induction nx y ox ds s xe rule: row_runs.induct)
  case (1 nx y ox ds s xe)
  obtain s' e n where sc: "scan_row nx y ox ds s xe s = (s', e, n)" by (cases "scan_row nx y ox ds s xe s") auto
  have lt: "s < xe" using "1.prems" row_runs_empty[of xe s nx y ox ds] by (cases "s < xe") auto
  note b = scan_bounds[OF sc lt]
  from "1.prems" have "(l, r) = (s', e) \<and> s' < e \<or> n > e \<and> (l, r) \<in> set (row_runs nx y ox ds n xe)"
    by (auto simp: row_runs_step[OF lt sc] split: if_splits)
  then show ?case
  proof
    assume "(l, r) = (s', e) \<and> s' < e"
    then show ?thesis using b scan_free[OF sc lt] by auto
  next
    assume h: "n > e \<and> (l, r) \<in> set (row_runs nx y ox ds n xe)"
    then show ?thesis using "1.IH"[OF lt sc[symmetric] refl] b by auto
  qed
qed

lemma scan_gap:
  "scan_row next_in_gap y ox ds s e n = (s', e', n') \<Longrightarrow> s < e \<Longrightarrow>
    (\<forall>d \<in> set ds. \<forall>l r. span d y = Some (l, r) \<longrightarrow> l < r) \<Longrightarrow> set ds \<subseteq> set all \<Longrightarrow>
    (\<forall>x. e \<le> x \<and> x < n \<longrightarrow> blocked y ox all x) \<Longrightarrow>
    (\<forall>x. s \<le> x \<and> x < s' \<longrightarrow> blocked y ox all x) \<and> (\<forall>x. e' \<le> x \<and> x < n' \<longrightarrow> blocked y ox all x) \<and>
    (e' = e \<and> n' = n \<or> e' < n')"
proof (induction ds arbitrary: s e n)
  case (Cons d ds)
  have sub: "set ds \<subseteq> set all" "\<forall>d \<in> set ds. \<forall>l r. span d y = Some (l, r) \<longrightarrow> l < r" using Cons.prems by auto
  have bl: "blocked y ox all x" if "span d y = Some (l, r)" "l - ox \<le> x" "x < r - ox" for x l r
  proof -
    have "blocked y ox (d # ds) x" using that by (auto simp: blocked_Cons)
    then show ?thesis using Cons.prems(4) by (auto simp: blocked_def)
  qed
  from Cons.prems(2) show ?case
  proof (cases rule: scan_cases[where d = d and y = y and nx = next_in_gap and ox = ox and ds = ds and n = n])
    case (block l r)
    then show ?thesis using bl Cons.prems(1,5) by auto
  next
    case (raise l r)
    then have sc: "scan_row next_in_gap y ox ds (max s (r - ox)) e n = (s', e', n')" and lt: "max s (r - ox) < e"
      using Cons.prems by simp_all
    note ih = Cons.IH[OF sc lt sub(2,1) Cons.prems(5)]
    have "blocked y ox all x" if "s \<le> x" "x < s'" for x
      using that ih raise(2) bl[OF raise(1), of x] by (cases "x < r - ox") auto
    then show ?thesis using ih by blast
  next
    case (cut l r)
    let ?n = "next_in_gap e n (r - ox)"
    have sc: "scan_row next_in_gap y ox ds s (l - ox) ?n = (s', e', n')" using Cons.prems(1) cut by simp
    have g: "blocked y ox all x" if x: "l - ox \<le> x" "x < ?n" for x
    proof (cases "x < r - ox")
      case True
      then show ?thesis using bl[OF cut(1)] x by simp
    next
      case False
      then have "e \<le> x" "x < n" using x by (auto simp: next_in_gap_def split: if_splits)
      then show ?thesis using Cons.prems(5) by blast
    qed
    then have g: "\<forall>x. l - ox \<le> x \<and> x < ?n \<longrightarrow> blocked y ox all x" by blast
    have "l < r" using Cons.prems(3) cut(1) by simp
    then have n: "l - ox < ?n" using cut(3) by (simp add: next_in_gap_def max_def)
    note ih = Cons.IH[OF sc cut(2) sub(2,1) g]
    from ih have "e' < n'" using n by (elim conjE disjE) simp_all
    with ih show ?thesis by blast
  next
    case skip
    then show ?thesis using Cons.IH[OF _ Cons.prems(2) sub(2,1) Cons.prems(5)] Cons.prems(1) by simp
  next
    case (beyond l r)
    then show ?thesis using Cons.IH[OF _ Cons.prems(2) sub(2,1) Cons.prems(5)] Cons.prems(1) by simp
  qed
next
  case Nil
  then have "s' = s" "e' = e" "n' = n" by simp_all
  then show ?case using Nil.prems(5) by simp
qed

text \<open>Resuming in the gap behind the nearest display misses nothing.\<close>

lemma row_runs_all:
  "nx = next_in_gap \<Longrightarrow> (\<forall>d \<in> set ds. \<forall>l r. span d y = Some (l, r) \<longrightarrow> l < r) \<Longrightarrow> s \<le> x \<Longrightarrow> x < xe \<Longrightarrow>
    \<not> blocked y ox ds x \<Longrightarrow> \<exists>(l, r) \<in> set (row_runs nx y ox ds s xe). l \<le> x \<and> x < r"
proof (induction nx y ox ds s xe rule: row_runs.induct)
  case (1 nx y ox ds s xe)
  obtain s' e n where sc: "scan_row nx y ox ds s xe s = (s', e, n)" by (cases "scan_row nx y ox ds s xe s") auto
  have lt: "s < xe" using "1.prems" by simp
  note b = scan_bounds[OF sc lt]
  have g: "(\<forall>x. s \<le> x \<and> x < s' \<longrightarrow> blocked y ox ds x) \<and> (\<forall>x. e \<le> x \<and> x < n \<longrightarrow> blocked y ox ds x) \<and> (e = xe \<and> n = s \<or> e < n)"
    by (rule scan_gap[OF sc[unfolded "1.prems"(1)] lt "1.prems"(2) subset_refl]) (use lt in auto)
  then have s': "s' \<le> x" using "1.prems" by force
  show ?case
  proof (cases "x < e")
    case True
    then show ?thesis using s' by (auto simp: row_runs_step[OF lt sc])
  next
    case False
    then have "e < n" "n \<le> x" using g "1.prems" by force+
    then have "\<exists>(l, r) \<in> set (row_runs nx y ox ds n xe). l \<le> x \<and> x < r"
      using "1.IH"[OF lt sc[symmetric] refl _ "1.prems"(1,2)] "1.prems" by blast
    then show ?thesis using \<open>e < n\<close> by (auto simp: row_runs_step[OF lt sc])
  qed
qed

text \<open>Both rules agree on a row whose displays come from left to right.\<close>

definition left_to_right :: "int \<Rightarrow> display list \<Rightarrow> bool" where
  "left_to_right y ds \<longleftrightarrow>
     sorted_wrt (\<lambda>d d'. \<forall>l r l' r'. span d y = Some (l, r) \<longrightarrow> span d' y = Some (l', r') \<longrightarrow> l \<le> l') ds"

lemma scan_done:
  "s < e \<Longrightarrow> (\<forall>d \<in> set ds. \<forall>l r. span d y = Some (l, r) \<longrightarrow> e \<le> l - ox) \<Longrightarrow> scan_row nx y ox ds s e n = (s, e, n)"
proof (induction ds)
  case (Cons d ds)
  from Cons.prems(1) show ?case
    by (cases rule: scan_cases[where d = d and y = y and nx = nx and ox = ox and ds = ds and n = n])
      (use Cons in auto)
qed simp

lemma scan_ltr:
  "s < e \<Longrightarrow> n \<le> s \<Longrightarrow> left_to_right y ds \<Longrightarrow> (\<forall>d \<in> set ds. \<forall>l r. span d y = Some (l, r) \<longrightarrow> l < r) \<Longrightarrow>
    scan_row next_after_all y ox ds s e n = scan_row next_in_gap y ox ds s e n"
proof (induction ds arbitrary: s)
  case (Cons d ds)
  have ih: "scan_row next_after_all y ox ds s' e n = scan_row next_in_gap y ox ds s' e n" if "s' < e" "n \<le> s'" for s'
    using Cons.IH[OF that] Cons.prems by (simp add: left_to_right_def)
  show ?case
  proof (cases "span d y")
    case None
    then show ?thesis using ih[OF Cons.prems(1,2)] by simp
  next
    case (Some p)
    obtain l r where p: "p = (l, r)" by (cases p)
    have lr: "l < r" and after: "\<forall>d' \<in> set ds. \<forall>l' r'. span d' y = Some (l', r') \<longrightarrow> l - ox \<le> l' - ox"
      using Cons.prems(3,4) Some p by (auto simp: left_to_right_def)
    show ?thesis
    proof (cases "s < l - ox \<and> l - ox < e")
      case True
      have nx: "next_after_all e n (r - ox) = r - ox" "next_in_gap e n (r - ox) = r - ox"
        using True lr Cons.prems(2) by (auto simp: next_after_all_def next_in_gap_def)
      have "scan_row nx y ox ds s (l - ox) (r - ox) = (s, l - ox, r - ox)" for nx
        by (rule scan_done) (use True after in auto)
      with True Some p nx show ?thesis by (simp add: Let_def)
    next
      case False
      then show ?thesis
        using ih[of s] ih[of "max s (r - ox)"] Some p Cons.prems(1,2) by (auto simp: Let_def)
    qed
  qed
qed simp

lemma row_runs_ltr:
  "nx = next_after_all \<Longrightarrow> left_to_right y ds \<Longrightarrow> (\<forall>d \<in> set ds. \<forall>l r. span d y = Some (l, r) \<longrightarrow> l < r) \<Longrightarrow>
    row_runs nx y ox ds s xe = row_runs next_in_gap y ox ds s xe"
proof (induction nx y ox ds s xe rule: row_runs.induct)
  case (1 nx y ox ds s xe)
  show ?case
  proof (cases "s < xe")
    case True
    obtain s' e n where sc: "scan_row nx y ox ds s xe s = (s', e, n)" by (cases "scan_row nx y ox ds s xe s") auto
    then have sc': "scan_row next_in_gap y ox ds s xe s = (s', e, n)" using scan_ltr[OF True order_refl "1.prems"(2,3)] "1.prems"(1) by simp
    show ?thesis using "1.IH"[OF True sc[symmetric] refl _ "1.prems"]
      by (simp add: row_runs_step[OF True sc] row_runs_step[OF True sc'])
  qed (simp add: row_runs_empty)
qed

text \<open>C33. The scan of \<^verbatim>\<open>_update_background_area\<close> resumes behind all displays it met, not behind the nearest: if a display further right
  comes first in the stack, the gap between the two is never repainted, although nothing covers it. The rule of the display loop
  has no such gap.\<close>

theorem background_gap:
  assumes "span d1 y = Some (l1, r1)" "span d2 y = Some (l2, r2)" and "s < l2" "l2 < r2" "r2 < l1" "l1 < r1" "r1 < xe"
  shows "row_runs next_after_all y 0 [d1, d2] s xe = [(s, l2), (r1, xe)] \<and>
    row_runs next_in_gap y 0 [d1, d2] s xe = [(s, l2), (r2, l1), (r1, xe)] \<and>
    (\<forall>x. r2 \<le> x \<and> x < l1 \<longrightarrow> \<not> blocked y 0 [d1, d2] x)"
proof -
  note sp = assms(1,2)
  have a: "scan_row next_after_all y 0 [d1, d2] s xe s = (s, l2, r1)" "scan_row nx y 0 [d1, d2] r1 xe r1 = (r1, xe, r1)"
    "scan_row next_in_gap y 0 [d1, d2] s xe s = (s, l2, r2)" "scan_row next_in_gap y 0 [d1, d2] r2 xe r2 = (r2, l1, r1)" for nx
    using assms by (simp_all add: next_after_all_def next_in_gap_def Let_def)
  have e: "row_runs nx y 0 [d1, d2] r1 xe = [(r1, xe)]" for nx
    using assms by (simp add: row_runs_step[OF _ a(2)])
  have "\<not> blocked y 0 [d1, d2] x" if "r2 \<le> x" "x < l1" for x
    using that by (simp add: blocked_def covers_span sp)
  then show ?thesis
    using assms e by (simp add: row_runs_step[OF _ a(1)] row_runs_step[OF _ a(3)] row_runs_step[OF _ a(4)])
qed

definition plain_display :: "int \<Rightarrow> display" where
  "plain_display x =
     \<lparr>thread = None, posX = x, posY = 0, layer = 0, dscale = 1,
      view = \<lparr>border = bgra, bwidth = 16, bheight = 16, pitch = 16, cells = None\<rparr>, solidArea = mk_rect 0 0 16 16, interactArea = mk_rect 0 0 16 16,
      isVisible = True, topLeftCorner = \<lambda>_. 0, topRightCorner = \<lambda>_. 0, bottomLeftCorner = \<lambda>_. 0, bottomRightCorner = \<lambda>_. 0\<rparr>"

theorem background_gap_witness:
  "row_runs next_after_all 5 0 [plain_display 60, plain_display 10] 0 100 = [(0, 10), (76, 100)] \<and> \<not> blocked 5 0 [plain_display 60, plain_display 10] 40"
proof -
  have "span (plain_display x) 5 = Some (x, x + 16)" for x
    by (simp add: span_def plain_display_def in_rows_def row_left_def row_right_def wide_def tall_def get_width_def get_height_def
        get_left_margin_def get_right_margin_def)
  from background_gap[OF this this, of 0 10 60 100] show ?thesis by simp
qed

section \<open>Buffers\<close>

definition cell_set :: "int \<Rightarrow> u32 \<Rightarrow> u32 list \<Rightarrow> u32 list option" where
  "cell_set i v cs = (if 0 \<le> i \<and> i < int (length cs) then Some (cs[nat i := v]) else None)"

definition cell_get :: "int \<Rightarrow> u32 list \<Rightarrow> u32 option" where
  "cell_get i cs = (if 0 \<le> i \<and> i < int (length cs) then Some (cs ! nat i) else None)"

fun fill_cells :: "int \<Rightarrow> u32 \<Rightarrow> nat \<Rightarrow> u32 list \<Rightarrow> u32 list option" where
  "fill_cells i v 0 cs = Some cs"
| "fill_cells i v (Suc n) cs = (case cell_set i v cs of None \<Rightarrow> None | Some cs \<Rightarrow> fill_cells (i + 1) v n cs)"

text \<open>\<^verbatim>\<open>Buffer::set\<close> of a run of the 32-bit format: only the first pixel is checked against the size. The pixels are written one
  by one, as the condition of the wide writes, \<^verbatim>\<open>address&3==0\<close>, is \<^verbatim>\<open>address&0\<close>; both orders store the colour as it is.\<close>

definition buffer_set :: "int \<Rightarrow> int \<Rightarrow> u32 \<Rightarrow> nat \<Rightarrow> pixel_buffer \<Rightarrow> pixel_buffer option" where
  "buffer_set x y colour n b =
     (if x < 0 \<or> y < 0 then Some b
      else if x \<ge> uint (bwidth b) \<or> y \<ge> uint (bheight b) then Some b
      else
        (case cells b of
           None \<Rightarrow> None
         | Some cs \<Rightarrow> map_option (\<lambda>cs. b\<lparr>cells := Some cs\<rparr>) (fill_cells (y * int (pitch b) + x) colour n cs)))"

text \<open>The copy of the part of a run that starts at \<open>x\<close> to the cell \<open>t\<close>: \<^verbatim>\<open>memcpy_aligned\<close> for the scale 1, else the loop over
  \<^verbatim>\<open>source[x/scale]\<close>. \<open>row\<close> is the first cell of the source row.\<close>

fun blit :: "u32 list \<Rightarrow> int \<Rightarrow> int \<Rightarrow> int \<Rightarrow> int \<Rightarrow> nat \<Rightarrow> u32 list \<Rightarrow> u32 list option" where
  "blit src row sc x t 0 cs = Some cs"
| "blit src row sc x t (Suc n) cs =
     (case cell_get (row + x div sc) src of
        None \<Rightarrow> None
      | Some v \<Rightarrow> (case cell_set t v cs of None \<Rightarrow> None | Some cs \<Rightarrow> blit src row sc (x + 1) (t + 1) n cs))"

definition blit_run :: "display \<Rightarrow> rect \<Rightarrow> int \<Rightarrow> int \<Rightarrow> int \<Rightarrow> pixel_buffer \<Rightarrow> pixel_buffer option" where
  "blit_run d at y startX endX b =
     (case (cells b, cells (view d)) of
        (Some cs, Some src) \<Rightarrow>
          map_option (\<lambda>cs. b\<lparr>cells := Some cs\<rparr>)
            (blit src (y div uint (dscale d) * int (pitch (view d))) (uint (dscale d)) startX
              ((posY d + y - y1 at) * int (pitch b) + (posX d + startX - x1 at)) (nat (endX - startX)) cs)
      | _ \<Rightarrow> None)"

text \<open>The runs of a row and the rows of an area, for a \<open>put\<close> that draws one run.\<close>

fun paint_runs :: "(int \<Rightarrow> int \<Rightarrow> pixel_buffer \<Rightarrow> pixel_buffer option) \<Rightarrow> (int \<times> int) list \<Rightarrow> pixel_buffer \<Rightarrow> pixel_buffer option" where
  "paint_runs put [] b = Some b"
| "paint_runs put ((l, r) # rs) b = (case put l r b of None \<Rightarrow> None | Some b \<Rightarrow> paint_runs put rs b)"

fun paint_rows :: "(int \<Rightarrow> pixel_buffer \<Rightarrow> pixel_buffer option) \<Rightarrow> int \<Rightarrow> nat \<Rightarrow> pixel_buffer \<Rightarrow> pixel_buffer option" where
  "paint_rows f y 0 b = Some b"
| "paint_rows f y (Suc n) b = (case f y b of None \<Rightarrow> None | Some b \<Rightarrow> paint_rows f (y + 1) n b)"

section \<open>What drawing does\<close>

text \<open>A buffer whose memory holds all its rows, and its pixels.\<close>

definition shaped :: "pixel_buffer \<Rightarrow> bool" where
  "shaped b \<longleftrightarrow> (\<exists>cs. cells b = Some cs \<and> pitch b * unat (bheight b) \<le> length cs) \<and> unat (bwidth b) \<le> pitch b"

definition pixel :: "pixel_buffer \<Rightarrow> int \<Rightarrow> int \<Rightarrow> u32" where
  "pixel b x y = the (cells b) ! nat (y * int (pitch b) + x)"

definition inside :: "pixel_buffer \<Rightarrow> int \<Rightarrow> int \<Rightarrow> bool" where
  "inside b x y \<longleftrightarrow> 0 \<le> x \<and> x < uint (bwidth b) \<and> 0 \<le> y \<and> y < uint (bheight b)"

text \<open>\<open>b'\<close> is \<open>b\<close> with the pixels of \<open>P\<close> set to \<open>v\<close>.\<close>

definition paints :: "(int \<Rightarrow> int \<Rightarrow> bool) \<Rightarrow> (int \<Rightarrow> int \<Rightarrow> u32) \<Rightarrow> pixel_buffer \<Rightarrow> pixel_buffer \<Rightarrow> bool" where
  "paints P v b b' \<longleftrightarrow> shaped b' \<and> border b' = border b \<and> bwidth b' = bwidth b \<and> bheight b' = bheight b \<and> pitch b' = pitch b \<and>
     (\<forall>x y. inside b x y \<longrightarrow> pixel b' x y = (if P x y then v x y else pixel b x y))"

lemma paints_inside: "paints P v b b' \<Longrightarrow> inside b' = inside b"
  by (simp add: paints_def inside_def fun_eq_iff)

lemma paints_none: "shaped b \<Longrightarrow> (\<And>x y. inside b x y \<Longrightarrow> \<not> P x y) \<Longrightarrow> paints P v b b"
  by (simp add: paints_def)

lemma paints_more:
  assumes "paints P v b b1" and "paints Q v b1 b2" and "\<And>x y. inside b x y \<Longrightarrow> R x y \<longleftrightarrow> P x y \<or> Q x y"
  shows "paints R v b b2"
  using assms(1,2) paints_inside[OF assms(1)] assms(3) unfolding paints_def by auto

lemma paints_cong:
  "paints P v b b' \<Longrightarrow> (\<And>x y. inside b x y \<Longrightarrow> P x y = Q x y) \<Longrightarrow> (\<And>x y. inside b x y \<Longrightarrow> P x y \<Longrightarrow> v x y = w x y) \<Longrightarrow> paints Q w b b'"
  by (simp add: paints_def)

lemma unat_le_int: "unat (w :: u32) \<le> p \<Longrightarrow> uint w \<le> int p"
  by (metis nat_le_iff unat_eq_nat_uint)

text \<open>Pixels of different places have different cells.\<close>

lemma pixel_index:
  assumes "shaped b" and "inside b x y" and "cells b = Some cs"
  shows "0 \<le> y * int (pitch b) + x" "y * int (pitch b) + x < int (length cs)"
proof -
  have i: "0 \<le> x" "x < int (pitch b)" "0 \<le> y" "y + 1 \<le> uint (bheight b)" "pitch b * unat (bheight b) \<le> length cs"
    using assms unat_le_int by (auto simp: inside_def shaped_def intro: order.strict_trans2)
  then show "0 \<le> y * int (pitch b) + x" by simp
  have "y * int (pitch b) + x < (y + 1) * int (pitch b)" using i by (simp add: algebra_simps)
  also have "\<dots> \<le> uint (bheight b) * int (pitch b)" using i by (intro mult_right_mono) auto
  also have "\<dots> = int (pitch b * unat (bheight b))" by simp
  also have "\<dots> \<le> int (length cs)" using i(5) by (simp only: of_nat_le_iff)
  finally show "y * int (pitch b) + x < int (length cs)" .
qed

lemma cell_unique:
  assumes "0 \<le> x" "x < int p" "0 \<le> x'" "x' < int p"
  shows "y * int p + x = y' * int p + x' \<longleftrightarrow> x = x' \<and> y = y'"
proof
  assume h: "y * int p + x = y' * int p + x'"
  have "(y * int p + x) div int p = y" "(y' * int p + x') div int p = y'" using assms by simp_all
  with h have "y = y'" by simp
  with h show "x = x' \<and> y = y'" by simp
qed simp

text \<open>One list of cells is another with the \<open>n\<close> cells from \<open>i\<close> on set to \<open>g 0, g 1, \<dots>\<close>\<close>

definition overwritten :: "int \<Rightarrow> nat \<Rightarrow> (int \<Rightarrow> u32) \<Rightarrow> u32 list \<Rightarrow> u32 list \<Rightarrow> bool" where
  "overwritten i n g cs cs' \<longleftrightarrow> length cs' = length cs \<and>
     (\<forall>k < length cs. cs' ! k = (if i \<le> int k \<and> int k < i + int n then g (int k - i) else cs ! k))"

lemma overwritten_none: "overwritten i 0 g cs cs"
  by (auto simp: overwritten_def)

lemma overwritten_step:
  assumes "overwritten (i + 1) n (\<lambda>j. g (j + 1)) (cs[nat i := g 0]) cs'" and "0 \<le> i" and "i < int (length cs)"
  shows "overwritten i (Suc n) g cs cs'"
  unfolding overwritten_def
proof (intro conjI allI impI)
  show "length cs' = length cs" using assms(1) by (simp add: overwritten_def)
next
  fix k assume k: "k < length cs"
  consider "int k = i" | "i + 1 \<le> int k \<and> int k < i + 1 + int n" | "int k \<noteq> i" "\<not> (i + 1 \<le> int k \<and> int k < i + 1 + int n)" by blast
  then show "cs' ! k = (if i \<le> int k \<and> int k < i + int (Suc n) then g (int k - i) else cs ! k)"
  proof cases
    case 1
    then have "nat i = k" using assms(2) by simp
    then show ?thesis using assms(1) k 1 by (simp add: overwritten_def)
  next
    case 2
    then show ?thesis using assms(1) k by (simp add: overwritten_def)
  next
    case 3
    then have "nat i \<noteq> k" using assms(2) by auto
    then show ?thesis using assms(1) k 3 by (auto simp: overwritten_def)
  qed
qed

lemma fill_cells_effect:
  "0 \<le> i \<Longrightarrow> i + int n \<le> int (length cs) \<Longrightarrow> \<exists>cs'. fill_cells i c n cs = Some cs' \<and> overwritten i n (\<lambda>_. c) cs cs'"
proof (induction n arbitrary: i cs)
  case (Suc n)
  then have st: "cell_set i c cs = Some (cs[nat i := c])" by (simp add: cell_set_def)
  obtain cs' where "fill_cells (i + 1) c n (cs[nat i := c]) = Some cs'" "overwritten (i + 1) n (\<lambda>_. c) (cs[nat i := c]) cs'"
    using Suc.IH[of "i + 1" "cs[nat i := c]"] Suc.prems by auto
  then show ?case using st Suc.prems by (auto intro: overwritten_step)
qed (simp add: overwritten_none)

lemma blit_effect:
  "0 \<le> t \<Longrightarrow> t + int n \<le> int (length cs) \<Longrightarrow>
    (\<forall>j. 0 \<le> j \<and> j < int n \<longrightarrow> 0 \<le> row + (x + j) div sc \<and> row + (x + j) div sc < int (length src)) \<Longrightarrow>
    \<exists>cs'. blit src row sc x t n cs = Some cs' \<and> overwritten t n (\<lambda>j. src ! nat (row + (x + j) div sc)) cs cs'"
proof (induction n arbitrary: x t cs)
  case (Suc n)
  let ?v = "src ! nat (row + x div sc)"
  have st: "cell_set t ?v cs = Some (cs[nat t := ?v])" using Suc.prems(1,2) by (simp add: cell_set_def)
  have gt: "cell_get (row + x div sc) src = Some ?v" using Suc.prems(3)[rule_format, of 0] by (simp add: cell_get_def)
  have rd: "\<forall>j. 0 \<le> j \<and> j < int n \<longrightarrow> 0 \<le> row + (x + 1 + j) div sc \<and> row + (x + 1 + j) div sc < int (length src)"
  proof (intro allI impI)
    fix j :: int assume "0 \<le> j \<and> j < int n"
    then show "0 \<le> row + (x + 1 + j) div sc \<and> row + (x + 1 + j) div sc < int (length src)"
      using Suc.prems(3)[rule_format, of "j + 1"] by (simp add: algebra_simps)
  qed
  obtain cs' where b: "blit src row sc (x + 1) (t + 1) n (cs[nat t := ?v]) = Some cs'"
    "overwritten (t + 1) n (\<lambda>j. src ! nat (row + (x + 1 + j) div sc)) (cs[nat t := ?v]) cs'"
    using Suc.IH[of "t + 1" "cs[nat t := ?v]" "x + 1"] Suc.prems(1,2) rd by auto
  have "overwritten t (Suc n) (\<lambda>j. src ! nat (row + (x + j) div sc)) cs cs'"
    by (rule overwritten_step) (use b Suc.prems(1,2) in \<open>simp_all add: algebra_simps\<close>)
  then show ?case using st gt b by simp
qed (simp add: overwritten_none)

lemma run_paints:
  assumes sh: "shaped b" and cs: "cells b = Some cs" and y: "0 \<le> y" "y < uint (bheight b)"
    and x: "0 \<le> l" "l < r" "r \<le> uint (bwidth b)" and ow: "overwritten (y * int (pitch b) + l) (nat (r - l)) g cs cs'"
  shows "paints (\<lambda>x' y'. y' = y \<and> l \<le> x' \<and> x' < r) (\<lambda>x' y'. g (x' - l)) b (b\<lparr>cells := Some cs'\<rparr>)"
  unfolding paints_def
proof (intro conjI allI impI)
  let ?p = "int (pitch b)"
  have p: "uint (bwidth b) \<le> ?p" using sh unat_le_int by (simp add: shaped_def)
  show "shaped (b\<lparr>cells := Some cs'\<rparr>)" using sh cs ow by (auto simp: shaped_def overwritten_def)
  fix x' y' assume i: "inside b x' y'"
  let ?k = "nat (y' * ?p + x')"
  note ix = pixel_index[OF sh i cs]
  have x': "0 \<le> x'" "x' < ?p" using i p by (auto simp: inside_def)
  have run: "y * ?p + l \<le> int ?k \<and> int ?k < y * ?p + l + int (nat (r - l)) \<longleftrightarrow> y' = y \<and> l \<le> x' \<and> x' < r"
  proof
    assume h: "y * ?p + l \<le> int ?k \<and> int ?k < y * ?p + l + int (nat (r - l))"
    define e where "e = y' * ?p + x' - (y * ?p + l)"
    have e: "0 \<le> e" "e < r - l" "y * ?p + (l + e) = y' * ?p + x'" using h ix x by (auto simp: e_def)
    then have "l + e = x' \<and> y = y'" using cell_unique[of "l + e" "pitch b" x' y y'] x' x p by simp
    then show "y' = y \<and> l \<le> x' \<and> x' < r" using e x by auto
  qed (use ix x in auto)
  have "cs' ! ?k = (if y' = y \<and> l \<le> x' \<and> x' < r then g (int ?k - (y * ?p + l)) else cs ! ?k)"
    using ow ix unfolding run[symmetric] by (simp add: overwritten_def)
  also have "\<dots> = (if y' = y \<and> l \<le> x' \<and> x' < r then g (x' - l) else cs ! ?k)" using ix by auto
  finally show "pixel (b\<lparr>cells := Some cs'\<rparr>) x' y' = (if y' = y \<and> l \<le> x' \<and> x' < r then g (x' - l) else pixel b x' y')"
    by (simp add: pixel_def cs)
qed simp_all

text \<open>Rows add up, whatever draws one.\<close>

lemma paint_rows_effect:
  assumes f: "\<And>y b. ok b \<Longrightarrow> y0 \<le> y \<Longrightarrow> y < y0 + int n \<Longrightarrow> \<exists>b'. f y b = Some b' \<and> paints (\<lambda>x' y'. y' = y - oy \<and> Q y x') v b b'"
    and keep: "\<And>P b b'. ok b \<Longrightarrow> paints P v b b' \<Longrightarrow> ok b'"
  shows "ok b \<Longrightarrow> shaped b \<Longrightarrow> \<exists>b'. paint_rows f y0 n b = Some b' \<and>
    paints (\<lambda>x' y'. y0 \<le> y' + oy \<and> y' + oy < y0 + int n \<and> Q (y' + oy) x') v b b'"
  using f
proof (induction n arbitrary: y0 b)
  case 0
  then show ?case by (auto intro: paints_none)
next
  case (Suc n)
  from Suc.prems(3)[OF Suc.prems(1), of y0] obtain b1 where b1: "f y0 b = Some b1" "paints (\<lambda>x' y'. y' = y0 - oy \<and> Q y0 x') v b b1" by auto
  have "shaped b1" using b1(2) by (simp add: paints_def)
  moreover have "\<exists>b'. f y b = Some b' \<and> paints (\<lambda>x' y'. y' = y - oy \<and> Q y x') v b b'" if "ok b" "y0 + 1 \<le> y" "y < y0 + 1 + int n" for y b
    using Suc.prems(3)[of b y] that by simp
  ultimately obtain b2 where b2: "paint_rows f (y0 + 1) n b1 = Some b2"
    "paints (\<lambda>x' y'. y0 + 1 \<le> y' + oy \<and> y' + oy < y0 + 1 + int n \<and> Q (y' + oy) x') v b1 b2"
    using Suc.IH[OF keep[OF Suc.prems(1) b1(2)], of "y0 + 1"] by blast
  have "paints (\<lambda>x' y'. y0 \<le> y' + oy \<and> y' + oy < y0 + int (Suc n) \<and> Q (y' + oy) x') v b b2"
  proof (rule paints_more[OF b1(2) b2(2)])
    fix x y
    have "y0 \<le> y + oy \<and> y + oy < y0 + int (Suc n) \<longleftrightarrow> y = y0 - oy \<or> y0 + 1 \<le> y + oy \<and> y + oy < y0 + 1 + int n" by auto
    then show "(y0 \<le> y + oy \<and> y + oy < y0 + int (Suc n) \<and> Q (y + oy) x) \<longleftrightarrow>
        y = y0 - oy \<and> Q y0 x \<or> y0 + 1 \<le> y + oy \<and> y + oy < y0 + 1 + int n \<and> Q (y + oy) x"
      by auto
  qed
  then show ?case using b1(1) b2(1) by simp
qed

text \<open>Whatever draws a run. The coordinates of the loop are those of the buffer plus \<open>(ox, oy)\<close>; \<open>v\<close> is what is drawn
  and \<open>readable\<close> where it can be computed.\<close>

locale run_painter =
  fixes put :: "int \<Rightarrow> int \<Rightarrow> int \<Rightarrow> pixel_buffer \<Rightarrow> pixel_buffer option"
    and ox :: int
    and oy :: int
    and v :: "int \<Rightarrow> int \<Rightarrow> u32"
    and readable :: "int \<Rightarrow> int \<Rightarrow> bool"
  assumes put: "shaped b \<Longrightarrow> 0 \<le> y - oy \<Longrightarrow> y - oy < uint (bheight b) \<Longrightarrow> 0 \<le> l - ox \<Longrightarrow> l < r \<Longrightarrow> r - ox \<le> uint (bwidth b) \<Longrightarrow>
      (\<forall>x. l \<le> x \<and> x < r \<longrightarrow> readable x y) \<Longrightarrow>
      \<exists>b'. put y l r b = Some b' \<and>
        paints (\<lambda>x' y'. y' = y - oy \<and> l - ox \<le> x' \<and> x' < r - ox) (\<lambda>x' y'. v (x' + ox) (y' + oy)) b b'"
begin

definition drawable :: "pixel_buffer \<Rightarrow> int \<Rightarrow> (int \<times> int) list \<Rightarrow> bool" where
  "drawable b y rs \<longleftrightarrow> 0 \<le> y - oy \<and> y - oy < uint (bheight b) \<and>
     (\<forall>(l, r) \<in> set rs. 0 \<le> l - ox \<and> l < r \<and> r - ox \<le> uint (bwidth b) \<and> (\<forall>x. l \<le> x \<and> x < r \<longrightarrow> readable x y))"

lemma drawableI:
  "0 \<le> y - oy \<Longrightarrow> y - oy < uint (bheight b) \<Longrightarrow>
    (\<And>l r. (l, r) \<in> set rs \<Longrightarrow> 0 \<le> l - ox \<and> l < r \<and> r - ox \<le> uint (bwidth b) \<and> (\<forall>x. l \<le> x \<and> x < r \<longrightarrow> readable x y)) \<Longrightarrow>
    drawable b y rs"
  unfolding drawable_def by blast

lemma runs:
  "shaped b \<Longrightarrow> drawable b y rs \<Longrightarrow>
    \<exists>b'. paint_runs (put y) rs b = Some b' \<and>
      paints (\<lambda>x' y'. y' = y - oy \<and> (\<exists>(l, r) \<in> set rs. l \<le> x' + ox \<and> x' + ox < r)) (\<lambda>x' y'. v (x' + ox) (y' + oy)) b b'"
proof (induction rs arbitrary: b)
  case Nil
  then show ?case by (auto intro: paints_none)
next
  case (Cons p rs)
  obtain l r where p: "p = (l, r)" by (cases p)
  have "0 \<le> y - oy" "y - oy < uint (bheight b)" "0 \<le> l - ox" "l < r" "r - ox \<le> uint (bwidth b)" "\<forall>x. l \<le> x \<and> x < r \<longrightarrow> readable x y"
    using Cons.prems(2) p by (auto simp: drawable_def)
  from put[OF Cons.prems(1) this] obtain b1 where b1: "put y l r b = Some b1"
    "paints (\<lambda>x' y'. y' = y - oy \<and> l - ox \<le> x' \<and> x' < r - ox) (\<lambda>x' y'. v (x' + ox) (y' + oy)) b b1" by blast
  have "shaped b1" "drawable b1 y rs" using b1(2) Cons.prems(2) by (auto simp: paints_def drawable_def)
  from Cons.IH[OF this] obtain b2 where b2: "paint_runs (put y) rs b1 = Some b2"
    "paints (\<lambda>x' y'. y' = y - oy \<and> (\<exists>(l, r) \<in> set rs. l \<le> x' + ox \<and> x' + ox < r)) (\<lambda>x' y'. v (x' + ox) (y' + oy)) b1 b2" by blast
  show ?case
    using b1(1) b2(1) by (auto simp: p intro!: paints_more[OF b1(2) b2(2)])
qed

lemma rows:
  assumes f: "\<And>y b. f y b = paint_runs (put y) (R y) b"
    and sh: "shaped b" and dr: "\<forall>y. y0 \<le> y \<and> y < y0 + int n \<longrightarrow> drawable b y (R y)"
  shows "\<exists>b'. paint_rows f y0 n b = Some b' \<and>
      paints (\<lambda>x' y'. y0 \<le> y' + oy \<and> y' + oy < y0 + int n \<and> (\<exists>(l, r) \<in> set (R (y' + oy)). l \<le> x' + ox \<and> x' + ox < r))
        (\<lambda>x' y'. v (x' + ox) (y' + oy)) b b'"
proof (rule paint_rows_effect[where ok = "\<lambda>c. shaped c \<and> bwidth c = bwidth b \<and> bheight c = bheight b"])
  fix y c assume c: "shaped c \<and> bwidth c = bwidth b \<and> bheight c = bheight b" and y: "y0 \<le> y" "y < y0 + int n"
  then have "drawable c y (R y)" using dr by (simp add: drawable_def)
  then show "\<exists>b'. f y c = Some b' \<and> paints (\<lambda>x' y'. y' = y - oy \<and> (\<exists>(l, r) \<in> set (R y). l \<le> x' + ox \<and> x' + ox < r))
      (\<lambda>x' y'. v (x' + ox) (y' + oy)) c b'"
    using runs[of c y "R y"] c by (simp add: f)
qed (use sh in \<open>auto simp: paints_def\<close>)

end

section \<open>The pixels of a display\<close>

definition view_index :: "display \<Rightarrow> int \<Rightarrow> int \<Rightarrow> int" where
  "view_index d x y = y div uint (dscale d) * int (pitch (view d)) + x div uint (dscale d)"

definition view_pixel :: "display \<Rightarrow> int \<Rightarrow> int \<Rightarrow> u32" where
  "view_pixel d x y = the (cells (view d)) ! nat (view_index d x y)"

definition view_readable :: "display \<Rightarrow> int \<Rightarrow> int \<Rightarrow> bool" where
  "view_readable d x y \<longleftrightarrow> (\<exists>cs. cells (view d) = Some cs \<and> 0 \<le> view_index d x y \<and> view_index d x y < int (length cs))"

text \<open>A display that can be shown: no size wraps, the memory is there, the solid area has no rows outside, and the corners
  leave something of every row.\<close>

definition display_ok :: "display \<Rightarrow> bool" where
  "display_ok d \<longleftrightarrow> dscale d \<in> {1, 2, 3, 4} \<and> uint (bwidth (view d)) * uint (dscale d) < 2147483648 \<and>
     uint (bheight (view d)) * uint (dscale d) < 2147483648 \<and> shaped (view d) \<and>
     0 \<le> y1 (solidArea d) \<and> y2 (solidArea d) \<le> tall d \<and> (\<forall>y. in_rows d y \<longrightarrow> row_left d y < row_right d y)"

lemma sint_mult:
  fixes a b :: u32
  assumes "uint a * uint b < 2147483648"
  shows "sint (a * b) = uint a * uint b"
proof -
  have "uint (a * b) = uint a * uint b" using assms by (simp add: uint_word_ariths)
  moreover have "signed_take_bit 31 (uint a * uint b) = uint a * uint b"
    using assms by (intro signed_take_bit_int_eq_self) (rule order_trans[of _ 0], simp_all)
  ultimately show ?thesis by (simp add: sint_uint)
qed

lemma display_ok_size:
  assumes "display_ok d"
  shows "wide d = uint (bwidth (view d)) * uint (dscale d)" "tall d = uint (bheight (view d)) * uint (dscale d)" "0 < uint (dscale d)"
proof -
  have u: "uint (ucast (dscale d) :: u32) = uint (dscale d)" by (simp add: uint_up_ucast is_up)
  show "wide d = uint (bwidth (view d)) * uint (dscale d)" "tall d = uint (bheight (view d)) * uint (dscale d)"
    using assms by (simp_all add: wide_def tall_def get_width_def get_height_def sint_mult u display_ok_def)
  show "0 < uint (dscale d)" using assms by (auto simp: display_ok_def)
qed

lemma div_less: "0 < c \<Longrightarrow> x < b * c \<Longrightarrow> x div c < (b :: int)"
proof (rule ccontr)
  assume c: "0 < c" and x: "x < b * c" and "\<not> x div c < b"
  then have "b * c \<le> x div c * c" by (intro mult_right_mono) auto
  also have "\<dots> \<le> x" using c by (simp add: minus_mod_eq_div_mult[symmetric])
  finally show False using x by simp
qed

lemma view_readable_inside:
  assumes ok: "display_ok d" and "0 \<le> x" "x < wide d" "0 \<le> y" "y < tall d"
  shows "view_readable d x y"
proof -
  note sz = display_ok_size[OF ok]
  have "inside (view d) (x div uint (dscale d)) (y div uint (dscale d))"
    using assms(2-5) sz by (simp add: inside_def pos_imp_zdiv_nonneg_iff div_less)
  moreover obtain cs where "cells (view d) = Some cs" "shaped (view d)" using ok by (auto simp: display_ok_def shaped_def)
  ultimately show ?thesis using pixel_index[of "view d"] by (auto simp: view_readable_def view_index_def)
qed

interpretation blit: run_painter "blit_run d at" "x1 at - posX d" "y1 at - posY d" "view_pixel d" "view_readable d" for d at
proof unfold_locales
  fix b y l r
  let ?ox = "x1 at - posX d" and ?oy = "y1 at - posY d"
  assume sh: "shaped b" and y: "0 \<le> y - ?oy" "y - ?oy < uint (bheight b)" and x: "0 \<le> l - ?ox" "l < r" "r - ?ox \<le> uint (bwidth b)"
    and rd: "\<forall>x. l \<le> x \<and> x < r \<longrightarrow> view_readable d x y"
  obtain cs where cs: "cells b = Some cs" using sh by (auto simp: shaped_def)
  obtain src where src: "cells (view d) = Some src" using rd x(2) by (auto simp: view_readable_def)
  let ?row = "y div uint (dscale d) * int (pitch (view d))" and ?sc = "uint (dscale d)"
  let ?t = "(y - ?oy) * int (pitch b) + (l - ?ox)"
  have "inside b (l - ?ox) (y - ?oy)" "inside b (r - 1 - ?ox) (y - ?oy)" using x y by (auto simp: inside_def)
  from pixel_index[OF sh this(1) cs] pixel_index[OF sh this(2) cs]
  have t: "0 \<le> ?t" "?t + int (nat (r - l)) \<le> int (length cs)" using x by auto
  have "\<forall>j. 0 \<le> j \<and> j < int (nat (r - l)) \<longrightarrow> 0 \<le> ?row + (l + j) div ?sc \<and> ?row + (l + j) div ?sc < int (length src)"
    using rd src by (auto simp: view_readable_def view_index_def)
  from blit_effect[OF t this] obtain cs' where b: "blit src ?row ?sc l ?t (nat (r - l)) cs = Some cs'"
    "overwritten ?t (nat (r - l)) (\<lambda>j. src ! nat (?row + (l + j) div ?sc)) cs cs'" by blast
  have "l - ?ox < r - ?ox" "nat (r - l) = nat ((r - ?ox) - (l - ?ox))" using x by simp_all
  from run_paints[OF sh cs y x(1) this(1) x(3) b(2)[unfolded this(2)]]
  have "paints (\<lambda>x' y'. y' = y - ?oy \<and> l - ?ox \<le> x' \<and> x' < r - ?ox)
      (\<lambda>x' y'. src ! nat (?row + (l + (x' - (l - ?ox))) div ?sc)) b (b\<lparr>cells := Some cs'\<rparr>)" .
  then have "paints (\<lambda>x' y'. y' = y - ?oy \<and> l - ?ox \<le> x' \<and> x' < r - ?ox)
      (\<lambda>x' y'. view_pixel d (x' + ?ox) (y' + ?oy)) b (b\<lparr>cells := Some cs'\<rparr>)"
    by (rule paints_cong) (simp_all add: view_pixel_def view_index_def src algebra_simps)
  moreover have "blit_run d at y l r b = Some (b\<lparr>cells := Some cs'\<rparr>)"
    using b(1) by (simp add: blit_run_def cs src algebra_simps)
  ultimately show "\<exists>b'. blit_run d at y l r b = Some b' \<and>
      paints (\<lambda>x' y'. y' = y - ?oy \<and> l - ?ox \<le> x' \<and> x' < r - ?ox) (\<lambda>x' y'. view_pixel d (x' + ?ox) (y' + ?oy)) b b'" by blast
qed

end
