(* ===== verification/Compositor.thy ===== *)
theory Compositor
  imports Paint
begin

unbundle bit_operations_syntax

text \<open>
  Compositing in \<^verbatim>\<open>drivers/DisplayManager.cpp\<close>: the background and the solid parts of the displays are drawn into the
  framebuffers, each display only where none above it is in the way (theory Paint). The pixel format is the 32-bit one. What
  an update does is a function of the place and the old pixel (\<open>redraws\<close>), and updates compose as these functions do.
\<close>

section \<open>The background\<close>

text \<open>The column of 256 colours, red, green and blue of each, with the closing zero of the string literal.\<close>

definition backgroundStrip :: "u8 list" where
  "backgroundStrip = concat [
   [60, 146, 179, 60, 146, 179, 61, 147, 179, 61, 147, 180, 62, 148, 180, 62, 148, 180, 63, 149, 180, 64, 149, 180],
   [64, 149, 180, 65, 150, 180, 66, 150, 180, 67, 151, 181, 68, 151, 181, 69, 152, 181, 70, 152, 181, 71, 153, 182],
   [72, 153, 182, 73, 154, 182, 75, 155, 183, 76, 156, 183, 77, 156, 184, 78, 157, 184, 80, 157, 184, 81, 158, 185],
   [82, 158, 185, 83, 159, 185, 84, 160, 185, 85, 160, 186, 86, 161, 186, 87, 162, 186, 88, 162, 187, 90, 163, 187],
   [91, 164, 188, 93, 165, 188, 94, 166, 189, 95, 166, 189, 97, 167, 190, 98, 168, 190, 100, 169, 191, 101, 169, 191],
   [102, 170, 192, 103, 171, 192, 104, 172, 192, 105, 172, 193, 106, 173, 193, 107, 173, 193, 108, 174, 193, 109, 175, 194],
   [110, 176, 194, 112, 176, 195, 113, 177, 195, 114, 178, 196, 116, 179, 196, 117, 180, 197, 118, 180, 197, 120, 181, 197],
   [121, 182, 198, 122, 182, 198, 123, 183, 198, 124, 183, 199, 126, 184, 199, 127, 185, 200, 128, 186, 200, 129, 186, 200],
   [130, 187, 201, 131, 188, 201, 132, 188, 202, 134, 189, 202, 135, 190, 203, 136, 191, 204, 137, 192, 204, 138, 192, 205],
   [140, 193, 205, 141, 194, 205, 142, 194, 206, 143, 195, 206, 144, 196, 206, 144, 196, 207, 145, 197, 207, 147, 197, 207],
   [148, 198, 207, 149, 199, 208, 150, 199, 208, 151, 200, 208, 152, 201, 209, 153, 201, 209, 154, 202, 209, 155, 202, 210],
   [156, 203, 210, 157, 203, 210, 158, 204, 211, 159, 205, 211, 160, 205, 211, 162, 206, 212, 163, 206, 212, 164, 207, 213],
   [165, 207, 213, 166, 208, 213, 167, 208, 213, 168, 208, 213, 169, 209, 214, 169, 209, 214, 170, 210, 214, 171, 210, 214],
   [172, 211, 215, 173, 211, 215, 175, 212, 215, 176, 212, 215, 177, 213, 216, 178, 213, 216, 179, 214, 216, 181, 214, 217],
   [182, 215, 217, 183, 216, 217, 184, 216, 218, 185, 216, 218, 186, 217, 218, 187, 217, 218, 188, 218, 219, 188, 218, 219],
   [189, 218, 219, 190, 218, 219, 191, 219, 219, 191, 219, 219, 192, 219, 219, 193, 219, 219, 194, 220, 219, 195, 220, 219],
   [196, 220, 219, 198, 221, 219, 199, 221, 220, 200, 221, 220, 201, 222, 220, 202, 222, 220, 203, 223, 220, 204, 223, 221],
   [206, 223, 221, 207, 224, 221, 208, 224, 221, 209, 225, 221, 209, 225, 221, 210, 225, 221, 211, 225, 221, 212, 226, 221],
   [213, 226, 221, 213, 226, 221, 214, 226, 221, 214, 227, 220, 215, 227, 220, 215, 227, 220, 215, 226, 220, 214, 226, 219],
   [212, 224, 218, 209, 222, 217, 205, 219, 214, 198, 215, 212, 189, 210, 208, 160, 195, 199, 144, 188, 194, 136, 183, 190],
   [136, 183, 190, 138, 184, 191, 125, 176, 186, 128, 178, 188, 132, 181, 190, 129, 179, 189, 123, 176, 187, 119, 173, 184],
   [118, 171, 184, 118, 170, 183, 123, 173, 183, 124, 174, 183, 123, 173, 184, 124, 174, 185, 120, 170, 181, 120, 170, 181],
   [119, 169, 180, 118, 168, 179, 118, 166, 178, 115, 163, 176, 111, 160, 174, 109, 159, 173, 76, 127, 151, 70, 122, 146],
   [69, 120, 146, 67, 118, 145, 71, 125, 149, 67, 118, 144, 64, 114, 141, 64, 114, 141, 62, 112, 139, 64, 114, 141],
   [66, 113, 141, 71, 114, 139, 75, 115, 140, 72, 112, 137, 83, 117, 139, 82, 117, 140, 73, 113, 138, 65, 108, 135],
   [64, 108, 137, 55, 102, 134, 53, 100, 132, 51, 99, 131, 49, 98, 131, 48, 98, 131, 47, 97, 130, 47, 96, 130],
   [46, 96, 129, 46, 95, 129, 46, 95, 129, 46, 95, 128, 45, 95, 128, 44, 94, 127, 43, 93, 126, 43, 92, 125],
   [42, 91, 124, 41, 90, 123, 41, 89, 122, 41, 88, 121, 40, 86, 120, 39, 85, 118, 38, 83, 116, 37, 81, 114],
   [35, 78, 111, 35, 76, 109, 34, 76, 109, 33, 74, 106, 34, 75, 107, 32, 73, 104, 32, 73, 105, 31, 70, 102],
   [31, 69, 100, 30, 68, 98, 30, 67, 97, 30, 66, 96, 31, 66, 96, 27, 62, 90, 28, 63, 91, 26, 60, 87],
   [27, 61, 88, 27, 61, 88, 27, 60, 87, 27, 59, 86, 27, 58, 84, 27, 58, 83, 27, 57, 81, 26, 56, 79],
   [26, 55, 78, 25, 54, 76, 24, 50, 71, 24, 49, 71, 23, 48, 70, 23, 48, 69, 22, 47, 68, 23, 48, 69],
   [0]]"

definition blend_rgb :: "u32 \<Rightarrow> u32 \<Rightarrow> u8 \<Rightarrow> u32" where
  "blend_rgb a b phase =
     (let p = ucast phase :: u32;
          mix = (\<lambda>a b. a * (255 - p) div 255 + b * (0 + p) div 255)
      in push_bit 16 (mix (drop_bit 16 (a AND 0xff0000)) (drop_bit 16 (b AND 0xff0000)))
         OR push_bit 8 (mix (drop_bit 8 (a AND 0x00ff00)) (drop_bit 8 (b AND 0x00ff00)))
         OR mix (a AND 0x0000ff) (b AND 0x0000ff))"

definition strip_at :: "u32 \<Rightarrow> u32 option" where
  "strip_at pos =
     (let byte = (\<lambda>k. if unat (pos * 3 + k) < length backgroundStrip
                      then Some (ucast (backgroundStrip ! unat (pos * 3 + k)) :: u32) else None)
      in case (byte 0, byte 1, byte 2) of
           (Some r, Some g, Some b) \<Rightarrow> Some (push_bit 16 r OR push_bit 8 g OR b)
         | _ \<Rightarrow> None)"

text \<open>\<^verbatim>\<open>_sample_background_strip_at\<close>, in unsigned arithmetic; \<^verbatim>\<open>maths::abs\<close> of an unsigned number is that number. \<open>None\<close> is a
  division by zero or an index past the strip.\<close>

definition sample_background :: "rect \<Rightarrow> int \<Rightarrow> u32 option" where
  "sample_background whole row =
     (let y = word_of_int row - word_of_int (y1 whole) :: u32;
          h = word_of_int (y2 whole - y1 whole) :: u32
      in if h = 0 then None
         else
           (let pos1 = y * 256 div h;
                pos2 = min 255 (y * 256 div h + 1);
                ya = pos1 * h div 256;
                yb = pos2 * h div 256
            in case (strip_at pos1, strip_at pos2) of
                 (Some sample1, Some sample2) \<Rightarrow>
                   Some (if yb > ya \<and> drop_bit 16 (sample1 AND 0xff0000) - drop_bit 16 (sample2 AND 0xff0000) < 0x20
                         then blend_rgb sample1 sample2 (ucast (255 * (y - ya) div (yb - ya)))
                         else sample1)
               | _ \<Rightarrow> None))"

definition background_run :: "rect \<Rightarrow> rect \<Rightarrow> int \<Rightarrow> int \<Rightarrow> int \<Rightarrow> pixel_buffer \<Rightarrow> pixel_buffer option" where
  "background_run whole at y startX endX b =
     (case sample_background whole y of
        None \<Rightarrow> None
      | Some bgColour \<Rightarrow> buffer_set (startX - x1 at) (y - y1 at) bgColour (nat (endX - startX)) b)"

definition all_displays :: "desk \<Rightarrow> display list option" where
  "all_displays s = map_option (map (displayAt s)) (walk_next (fst (links s)) (head (snd (links s))))"

definition displays_above :: "nat \<Rightarrow> desk \<Rightarrow> display list option" where
  "displays_above d s = map_option (map (displayAt s)) (walk_next (fst (links s)) (nextp (fst (links s)) d))"

definition background_row :: "desk \<Rightarrow> rect \<Rightarrow> rect \<Rightarrow> int \<Rightarrow> pixel_buffer \<Rightarrow> pixel_buffer option" where
  "background_row s at rect y b =
     (case all_displays s of
        None \<Rightarrow> None
      | Some ds \<Rightarrow> paint_runs (background_run (totalArea s) at y) (row_runs next_after_all y 0 ds (x1 rect) (x2 rect)) b)"

text \<open>The loops over the framebuffers pass over one without a buffer.\<close>

definition on_buffer :: "(rect \<Rightarrow> pixel_buffer \<Rightarrow> pixel_buffer option) \<Rightarrow> framebuffer \<Rightarrow> framebuffer option" where
  "on_buffer f fb =
     (case fbBuffer fb of
        None \<Rightarrow> Some fb
      | Some b \<Rightarrow> map_option (\<lambda>b. fb\<lparr>fbBuffer := Some b\<rparr>) (f (area fb) b))"

fun each_buffer :: "(rect \<Rightarrow> pixel_buffer \<Rightarrow> pixel_buffer option) \<Rightarrow> framebuffer list \<Rightarrow> framebuffer list option" where
  "each_buffer f [] = Some []"
| "each_buffer f (fb # fbs) =
     (case on_buffer f fb of None \<Rightarrow> None | Some fb \<Rightarrow> map_option ((#) fb) (each_buffer f fbs))"

definition update_background_area :: "rect \<Rightarrow> desk \<Rightarrow> desk option" where
  "update_background_area screenRect s =
     map_option (\<lambda>fbs. s\<lparr>framebuffers := fbs\<rparr>)
       (each_buffer (\<lambda>at b. let rect = rect_intersect screenRect at
                            in paint_rows (background_row s at rect) (y1 rect) (nat (y2 rect - y1 rect)) b)
         (framebuffers s))"

section \<open>Solid areas\<close>

text \<open>\<^verbatim>\<open>Rect::offset\<close> where no sum overflows.\<close>

definition shift :: "rect \<Rightarrow> int \<Rightarrow> int \<Rightarrow> rect" where
  "shift r x y = mk_rect (x1 r + x) (y1 r + y) (x2 r + x) (y2 r + y)"

lemma shift_offset: "rect_offset r x y = Some c \<Longrightarrow> c = shift r x y"
  by (auto simp: rect_offset_def ck_rect_def shift_def split: if_splits)

definition display_row :: "desk \<Rightarrow> nat \<Rightarrow> rect \<Rightarrow> rect \<Rightarrow> int \<Rightarrow> pixel_buffer \<Rightarrow> pixel_buffer option" where
  "display_row s i at rect y b =
     (let d = displayAt s i;
          startX = max (x1 rect) (sint (get_left_margin d (word_of_int y)));
          endX = min (x2 rect) (wide d - sint (get_right_margin d (word_of_int y)))
      in case displays_above i s of
           None \<Rightarrow> None
         | Some upper \<Rightarrow>
             paint_runs (blit_run d at y) (row_runs next_in_gap (posY d + y) (posX d) upper startX endX) b)"

definition visible_part :: "display \<Rightarrow> rect \<Rightarrow> rect \<Rightarrow> rect" where
  "visible_part d displayRect at =
     shift (rect_intersect (shift (rect_intersect displayRect (solidArea d)) (posX d) (posY d)) at) (- posX d) (- posY d)"

definition update_display_solid_area :: "nat \<Rightarrow> rect \<Rightarrow> desk \<Rightarrow> desk option" where
  "update_display_solid_area i displayRect s =
     map_option (\<lambda>fbs. s\<lparr>framebuffers := fbs\<rparr>)
       (each_buffer (\<lambda>at b. let rect = visible_part (displayAt s i) displayRect at
                            in paint_rows (display_row s i at rect) (y1 rect) (nat (y2 rect - y1 rect)) b)
         (framebuffers s))"

definition update_display_area_solid :: "nat \<Rightarrow> rect \<Rightarrow> desk \<Rightarrow> desk option" where
  "update_display_area_solid i rect s =
     (if \<not> isVisible (displayAt s i) then Some s
      else if dscale (displayAt s i) \<in> {1, 2, 3, 4} then update_display_solid_area i rect s
      else Some s)"

definition update_display_solid :: "nat \<Rightarrow> desk \<Rightarrow> desk option" where
  "update_display_solid i s = update_display_area_solid i (solidArea (displayAt s i)) s"

fun solid_displays :: "rect \<Rightarrow> nat option \<Rightarrow> nat list \<Rightarrow> desk \<Rightarrow> desk option" where
  "solid_displays rect below [] s = Some s"
| "solid_displays rect below (i # is) s =
     (if Some i = below then Some s
      else if \<not> isVisible (displayAt s i) then solid_displays rect below is s
      else
        (let d = displayAt s i in
         case update_display_area_solid i (rect_intersect (shift rect (- posX d) (- posY d)) (solidArea d)) s of
           None \<Rightarrow> None
         | Some s \<Rightarrow> solid_displays rect below is s))"

definition update_area_solid :: "rect \<Rightarrow> nat option \<Rightarrow> desk \<Rightarrow> desk option" where
  "update_area_solid rect below s =
     (case update_background_area rect s of
        None \<Rightarrow> None
      | Some s \<Rightarrow>
          (case walk_next (fst (links s)) (head (snd (links s))) of
             None \<Rightarrow> None
           | Some is \<Rightarrow> solid_displays rect below is s))"

definition update_background :: "desk \<Rightarrow> desk option" where
  "update_background s = update_background_area (totalArea s) s"

section \<open>Rectangles by rows and columns\<close>

lemma rows_between: "a \<le> y \<and> y < a + int (nat (b - a)) \<longleftrightarrow> a \<le> y \<and> y < b"
  by auto

lemma squash_rows: "y1 (squash r) \<le> y \<and> y < y2 (squash r) \<longleftrightarrow> y1 r \<le> y \<and> y < y2 r"
  by (cases "x2 r \<le> x1 r"; cases "y2 r \<le> y1 r") (auto simp: squash_def)

lemma squash_cols: "x1 (squash r) \<le> x \<and> x < x2 (squash r) \<longleftrightarrow> x1 r \<le> x \<and> x < x2 r"
  by (cases "x2 r \<le> x1 r"; cases "y2 r \<le> y1 r") (auto simp: squash_def)

lemma intersect_rows:
  "y1 (rect_intersect a b) \<le> y \<and> y < y2 (rect_intersect a b) \<longleftrightarrow> (y1 a \<le> y \<and> y < y2 a) \<and> (y1 b \<le> y \<and> y < y2 b)"
  unfolding rect_intersect_def squash_rows by (auto simp: mk_rect_def)

lemma intersect_cols:
  "x1 (rect_intersect a b) \<le> x \<and> x < x2 (rect_intersect a b) \<longleftrightarrow> (x1 a \<le> x \<and> x < x2 a) \<and> (x1 b \<le> x \<and> x < x2 b)"
  unfolding rect_intersect_def squash_cols by (auto simp: mk_rect_def)

lemma shift_rect [simp]:
  "x1 (shift r x y) = x1 r + x" "y1 (shift r x y) = y1 r + y" "x2 (shift r x y) = x2 r + x" "y2 (shift r x y) = y2 r + y"
  by (simp_all add: shift_def mk_rect_def)

lemma visible_part_rows:
  "y1 (visible_part d r at) \<le> y \<and> y < y2 (visible_part d r at) \<longleftrightarrow>
    ((y1 r \<le> y \<and> y < y2 r) \<and> (y1 (solidArea d) \<le> y \<and> y < y2 (solidArea d))) \<and> (y1 at \<le> y + posY d \<and> y + posY d < y2 at)"
  (is "?l \<longleftrightarrow> ?r")
proof -
  let ?s = "rect_intersect r (solidArea d)"
  have "?l \<longleftrightarrow> y1 (rect_intersect (shift ?s (posX d) (posY d)) at) \<le> y + posY d \<and> y + posY d < y2 (rect_intersect (shift ?s (posX d) (posY d)) at)"
    by (simp add: visible_part_def algebra_simps less_diff_eq)
  also have "\<dots> \<longleftrightarrow> (y1 ?s \<le> y \<and> y < y2 ?s) \<and> (y1 at \<le> y + posY d \<and> y + posY d < y2 at)"
    by (subst intersect_rows) simp
  also have "\<dots> \<longleftrightarrow> ?r" by (simp only: intersect_rows)
  finally show ?thesis .
qed

lemma visible_part_cols:
  "x1 (visible_part d r at) \<le> x \<and> x < x2 (visible_part d r at) \<longleftrightarrow>
    ((x1 r \<le> x \<and> x < x2 r) \<and> (x1 (solidArea d) \<le> x \<and> x < x2 (solidArea d))) \<and> (x1 at \<le> x + posX d \<and> x + posX d < x2 at)"
  (is "?l \<longleftrightarrow> ?r")
proof -
  let ?s = "rect_intersect r (solidArea d)"
  have "?l \<longleftrightarrow> x1 (rect_intersect (shift ?s (posX d) (posY d)) at) \<le> x + posX d \<and> x + posX d < x2 (rect_intersect (shift ?s (posX d) (posY d)) at)"
    by (simp add: visible_part_def algebra_simps less_diff_eq)
  also have "\<dots> \<longleftrightarrow> (x1 ?s \<le> x \<and> x < x2 ?s) \<and> (x1 at \<le> x + posX d \<and> x + posX d < x2 at)"
    by (subst intersect_cols) simp
  also have "\<dots> \<longleftrightarrow> ?r" by (simp only: intersect_cols)
  finally show ?thesis .
qed

section \<open>What a redraw does\<close>

text \<open>\<open>R x y c c'\<close> says which pixels \<open>c'\<close> may stand at the screen position \<open>(x, y)\<close> after a redraw if \<open>c\<close> was there before.\<close>

definition fb_redrawn :: "(int \<Rightarrow> int \<Rightarrow> u32 \<Rightarrow> u32 \<Rightarrow> bool) \<Rightarrow> framebuffer \<Rightarrow> framebuffer \<Rightarrow> bool" where
  "fb_redrawn R fb fb' \<longleftrightarrow> fb' = fb\<lparr>fbBuffer := fbBuffer fb'\<rparr> \<and>
     (case fbBuffer fb of
        None \<Rightarrow> fbBuffer fb' = None
      | Some b \<Rightarrow> \<exists>b'. fbBuffer fb' = Some b' \<and> shaped b' \<and> border b' = border b \<and> bwidth b' = bwidth b \<and> bheight b' = bheight b \<and> pitch b' = pitch b \<and>
          (\<forall>x y. inside b x y \<longrightarrow> R (x + x1 (area fb)) (y + y1 (area fb)) (pixel b x y) (pixel b' x y)))"

definition redraws :: "(int \<Rightarrow> int \<Rightarrow> u32 \<Rightarrow> u32 \<Rightarrow> bool) \<Rightarrow> desk \<Rightarrow> desk \<Rightarrow> bool" where
  "redraws R s s' \<longleftrightarrow> s' = s\<lparr>framebuffers := framebuffers s'\<rparr> \<and> list_all2 (fb_redrawn R) (framebuffers s) (framebuffers s')"

text \<open>Every buffer is as large as its area, and the areas lie within the rows of the whole screen.\<close>

definition screen_ok :: "desk \<Rightarrow> bool" where
  "screen_ok s \<longleftrightarrow> y2 (totalArea s) - y1 (totalArea s) < 16777216 \<and>
     (\<forall>fb \<in> set (framebuffers s). \<forall>b. fbBuffer fb = Some b \<longrightarrow> shaped b \<and>
        x2 (area fb) - x1 (area fb) = uint (bwidth b) \<and> y2 (area fb) - y1 (area fb) = uint (bheight b) \<and>
        y1 (totalArea s) \<le> y1 (area fb) \<and> y2 (area fb) \<le> y2 (totalArea s))"

definition displays_ok :: "desk \<Rightarrow> nat list \<Rightarrow> bool" where
  "displays_ok s is \<longleftrightarrow> (\<forall>i \<in> set is. isVisible (displayAt s i) \<longrightarrow> display_ok (displayAt s i))"

lemma redraws_same:
  assumes "redraws R s s'"
  shows "links s' = links s" "displayAt s' = displayAt s" "totalArea s' = totalArea s" "watchers s' = watchers s"
proof -
  have e: "s' = s\<lparr>framebuffers := framebuffers s'\<rparr>" using assms by (simp only: redraws_def)
  show "links s' = links s" by (subst e) simp
  show "displayAt s' = displayAt s" by (subst e) simp
  show "totalArea s' = totalArea s" by (subst e) simp
  show "watchers s' = watchers s" by (subst e) simp
qed

lemma fb_redrawn_same:
  assumes "fb_redrawn R fb fb'"
  shows "area fb' = area fb" "fbBuffer fb' = None \<longleftrightarrow> fbBuffer fb = None"
proof -
  have e: "fb' = fb\<lparr>fbBuffer := fbBuffer fb'\<rparr>" using assms by (simp only: fb_redrawn_def)
  show "area fb' = area fb" by (subst e) simp
  show "fbBuffer fb' = None \<longleftrightarrow> fbBuffer fb = None" using assms by (auto simp: fb_redrawn_def split: option.splits)
qed

lemma redraws_from:
  "redraws R s s' \<Longrightarrow> fb' \<in> set (framebuffers s') \<Longrightarrow> \<exists>fb \<in> set (framebuffers s). fb_redrawn R fb fb'"
  unfolding redraws_def by (metis in_set_conv_nth list_all2_conv_all_nth)

lemma redraws_walks:
  "redraws R s s' \<Longrightarrow> all_displays s' = all_displays s" "redraws R s s' \<Longrightarrow> displays_above i s' = displays_above i s"
  "redraws R s s' \<Longrightarrow> displays_ok s' is = displays_ok s is"
  by (simp_all add: all_displays_def displays_above_def displays_ok_def redraws_same)

lemma redraws_refl: "screen_ok s \<Longrightarrow> (\<And>x y c. R x y c c) \<Longrightarrow> redraws R s s"
  by (auto simp: redraws_def fb_redrawn_def screen_ok_def intro!: list.rel_refl_strong split: option.splits)

lemma fb_redrawn_trans:
  assumes "fb_redrawn R f f1" "fb_redrawn Q f1 f2" and T: "\<And>x y c c1 c2. R x y c c1 \<Longrightarrow> Q x y c1 c2 \<Longrightarrow> T x y c c2"
  shows "fb_redrawn T f f2"
proof -
  have f: "f1 = f\<lparr>fbBuffer := fbBuffer f1\<rparr>" "f2 = f1\<lparr>fbBuffer := fbBuffer f2\<rparr>" using assms(1,2) by (simp_all add: fb_redrawn_def)
  then have f2: "f2 = f\<lparr>fbBuffer := fbBuffer f2\<rparr>" by (metis framebuffer.surjective framebuffer.update_convs(3))
  have a: "area f1 = area f" by (rule fb_redrawn_same(1)[OF assms(1)])
  show ?thesis
  proof (cases "fbBuffer f")
    case None
    then show ?thesis using assms(1,2) f2 by (simp add: fb_redrawn_def)
  next
    case (Some b)
    then obtain b1 where b1: "fbBuffer f1 = Some b1" "border b1 = border b" "bwidth b1 = bwidth b" "bheight b1 = bheight b" "pitch b1 = pitch b"
      "\<And>x y. inside b x y \<Longrightarrow> R (x + x1 (area f)) (y + y1 (area f)) (pixel b x y) (pixel b1 x y)"
      using assms(1) by (auto simp: fb_redrawn_def)
    then obtain b2 where b2: "fbBuffer f2 = Some b2" "shaped b2" "border b2 = border b1" "bwidth b2 = bwidth b1" "bheight b2 = bheight b1" "pitch b2 = pitch b1"
      "\<And>x y. inside b1 x y \<Longrightarrow> Q (x + x1 (area f1)) (y + y1 (area f1)) (pixel b1 x y) (pixel b2 x y)"
      using assms(2) by (auto simp: fb_redrawn_def)
    have "inside b1 = inside b" using b1 by (simp add: inside_def fun_eq_iff)
    then have "T (x + x1 (area f)) (y + y1 (area f)) (pixel b x y) (pixel b2 x y)" if "inside b x y" for x y
      using T[OF b1(6)[OF that]] b2(7)[of x y] that a by simp
    then show ?thesis using f2 Some b1 b2 by (simp add: fb_redrawn_def)
  qed
qed

lemma redraws_trans:
  assumes "redraws R s s1" "redraws Q s1 s2" and T: "\<And>x y c c1 c2. R x y c c1 \<Longrightarrow> Q x y c1 c2 \<Longrightarrow> T x y c c2"
  shows "redraws T s s2"
proof -
  have "list_all2 (fb_redrawn T) (framebuffers s) (framebuffers s2)"
    using list_all2_trans[of "fb_redrawn R" "fb_redrawn Q" "fb_redrawn T"] fb_redrawn_trans[of R _ _ Q _ T] assms
    unfolding redraws_def by blast
  moreover have "s2 = s\<lparr>framebuffers := framebuffers s2\<rparr>"
    using assms(1,2) unfolding redraws_def by (metis desk.surjective desk.update_convs(3))
  ultimately show ?thesis by (simp add: redraws_def)
qed

lemma redraws_screen_ok:
  assumes "redraws R s s'" and "screen_ok s"
  shows "screen_ok s'"
proof -
  have "\<exists>fb \<in> set (framebuffers s). fb_redrawn R fb fb'" if "fb' \<in> set (framebuffers s')" for fb'
    using redraws_from[OF assms(1) that] .
  moreover have "shaped b' \<and> x2 (area fb') - x1 (area fb') = uint (bwidth b') \<and> y2 (area fb') - y1 (area fb') = uint (bheight b') \<and>
      y1 (totalArea s) \<le> y1 (area fb') \<and> y2 (area fb') \<le> y2 (totalArea s)"
    if fb: "fb \<in> set (framebuffers s)" "fb_redrawn R fb fb'" and b': "fbBuffer fb' = Some b'" for fb fb' b'
  proof -
    have "area fb' = area fb" by (rule fb_redrawn_same(1)[OF fb(2)])
    moreover obtain b where "fbBuffer fb = Some b" "shaped b'" "bwidth b' = bwidth b" "bheight b' = bheight b"
      using fb(2) b' by (auto simp: fb_redrawn_def split: option.splits)
    ultimately show ?thesis using assms(2) fb(1) by (auto simp: screen_ok_def)
  qed
  ultimately show ?thesis using assms(2) redraws_same(3)[OF assms(1)] unfolding screen_ok_def by metis
qed

lemma redraws_weaken: "redraws R s s' \<Longrightarrow> (\<And>x y c c'. R x y c c' \<Longrightarrow> T x y c c') \<Longrightarrow> redraws T s s'"
  unfolding redraws_def fb_redrawn_def by (auto elim!: list_all2_mono split: option.splits)

text \<open>Drawing into each buffer on its own is a redraw.\<close>

lemma each_buffer_redraws:
  assumes ok: "screen_ok s"
    and f: "\<And>fb b. fb \<in> set (framebuffers s) \<Longrightarrow> fbBuffer fb = Some b \<Longrightarrow>
      \<exists>b' P v. f (area fb) b = Some b' \<and>
        paints (\<lambda>x y. P (x + x1 (area fb)) (y + y1 (area fb))) (\<lambda>x y. v (x + x1 (area fb)) (y + y1 (area fb))) b b' \<and>
        (\<forall>x y c. x1 (area fb) \<le> x \<and> x < x2 (area fb) \<and> y1 (area fb) \<le> y \<and> y < y2 (area fb) \<longrightarrow>
          R x y c (if P x y then v x y else c))"
  shows "\<exists>fbs. each_buffer f (framebuffers s) = Some fbs \<and> redraws R s (s\<lparr>framebuffers := fbs\<rparr>)"
proof -
  have "\<exists>fb'. on_buffer f fb = Some fb' \<and> fb_redrawn R fb fb'" if "fb \<in> set (framebuffers s)" for fb
  proof (cases "fbBuffer fb")
    case None
    then show ?thesis by (simp add: on_buffer_def fb_redrawn_def)
  next
    case (Some b)
    from f[OF that Some] obtain b' P v where b': "f (area fb) b = Some b'"
      "paints (\<lambda>x y. P (x + x1 (area fb)) (y + y1 (area fb))) (\<lambda>x y. v (x + x1 (area fb)) (y + y1 (area fb))) b b'"
      "\<And>x y c. x1 (area fb) \<le> x \<and> x < x2 (area fb) \<and> y1 (area fb) \<le> y \<and> y < y2 (area fb) \<Longrightarrow>
        R x y c (if P x y then v x y else c)" by blast
    have "R (x + x1 (area fb)) (y + y1 (area fb)) (pixel b x y) (pixel b' x y)" if i: "inside b x y" for x y
      using b'(3)[of "x + x1 (area fb)" "y + y1 (area fb)" "pixel b x y"] b'(2) i ok that Some \<open>fb \<in> set (framebuffers s)\<close>
      by (auto simp: paints_def inside_def screen_ok_def)
    then have "fb_redrawn R fb (fb\<lparr>fbBuffer := Some b'\<rparr>)"
      using Some b'(2) by (simp add: fb_redrawn_def paints_def)
    then show ?thesis using Some b'(1) by (simp add: on_buffer_def)
  qed
  then have "set fbs \<subseteq> set (framebuffers s) \<Longrightarrow> \<exists>fbs'. each_buffer f fbs = Some fbs' \<and> list_all2 (fb_redrawn R) fbs fbs'" for fbs
    by (induction fbs) fastforce+
  then show ?thesis by (auto simp: redraws_def)
qed

section \<open>The background is kept off the displays\<close>

lemma strip_length: "length backgroundStrip = 769"
  by (simp add: backgroundStrip_def)

lemma strip_at_some:
  assumes "pos \<le> 255"
  shows "\<exists>c. strip_at pos = Some c"
proof -
  have p: "unat pos \<le> 255" using assms by (simp add: word_le_nat_alt)
  have "unat (pos * 3 + k) < 769" if "unat k \<le> 2" for k :: u32
  proof -
    have "unat (pos * 3 + k) \<le> unat pos * 3 + unat k"
      by (simp add: unat_word_ariths)
    then show ?thesis using p that by simp
  qed
  from this[of 0] this[of 1] this[of 2] show ?thesis by (simp add: strip_at_def strip_length Let_def)
qed

lemma uint_small: "0 \<le> k \<Longrightarrow> k < 4294967296 \<Longrightarrow> uint (word_of_int k :: u32) = k"
  by (simp only: uint_word_of_int) simp

lemma sample_some:
  assumes "y1 w \<le> y" "y < y2 w" "y2 w - y1 w < 16777216"
  shows "sample_background w y \<noteq> None"
proof -
  let ?y = "word_of_int y - word_of_int (y1 w) :: u32" and ?h = "word_of_int (y2 w - y1 w) :: u32"
  have "?y = word_of_int (y - y1 w)" by simp
  then have y: "uint ?y = y - y1 w" using assms by (simp only:) (rule uint_small, auto)
  have h: "uint ?h = y2 w - y1 w" by (rule uint_small) (use assms in auto)
  have "uint (?y * 256) = (uint ?y * uint (256 :: u32)) mod 2 ^ 32" by (simp only: uint_word_ariths(3)) simp
  then have y256: "uint (?y * 256) = (y - y1 w) * 256" using y assms by simp
  have "uint (?y * 256 div ?h) = (y - y1 w) * 256 div (y2 w - y1 w)" by (simp only: uint_div y256 h)
  also have "\<dots> < 256" using assms by (intro div_less) auto
  finally have "?y * 256 div ?h \<le> 255" by (simp add: word_le_def)
  moreover have "?h \<noteq> 0" using h assms by auto
  moreover have "min 255 (?y * 256 div ?h + 1) \<le> 255" by simp
  ultimately show ?thesis
    using strip_at_some[of "?y * 256 div ?h"] strip_at_some[of "min 255 (?y * 256 div ?h + 1)"]
    by (auto simp: sample_background_def Let_def)
qed

interpretation bg: run_painter "background_run w at" "x1 at" "y1 at" "\<lambda>x y. the (sample_background w y)"
  "\<lambda>x y. sample_background w y \<noteq> None" for w at
proof unfold_locales
  fix b y l r
  assume sh: "shaped b" and y: "0 \<le> y - y1 at" "y - y1 at < uint (bheight b)"
    and x: "0 \<le> l - x1 at" "l < r" "r - x1 at \<le> uint (bwidth b)" and rd: "\<forall>x. l \<le> x \<and> x < r \<longrightarrow> sample_background w y \<noteq> None"
  obtain cs where cs: "cells b = Some cs" using sh by (auto simp: shaped_def)
  obtain c where c: "sample_background w y = Some c" using rd x(2) by auto
  let ?t = "(y - y1 at) * int (pitch b) + (l - x1 at)"
  have "inside b (l - x1 at) (y - y1 at)" "inside b (r - 1 - x1 at) (y - y1 at)" using x y by (auto simp: inside_def)
  from pixel_index[OF sh this(1) cs] pixel_index[OF sh this(2) cs]
  have t: "0 \<le> ?t" "?t + int (nat (r - l)) \<le> int (length cs)" using x by auto
  from fill_cells_effect[OF t] obtain cs' where b: "fill_cells ?t c (nat (r - l)) cs = Some cs'"
    "overwritten ?t (nat (r - l)) (\<lambda>_. c) cs cs'" by blast
  have "l - x1 at < r - x1 at" "nat (r - l) = nat ((r - x1 at) - (l - x1 at))" using x by simp_all
  from run_paints[OF sh cs y x(1) this(1) x(3) b(2)[unfolded this(2)]]
  have "paints (\<lambda>x' y'. y' = y - y1 at \<and> l - x1 at \<le> x' \<and> x' < r - x1 at)
      (\<lambda>x' y'. the (sample_background w (y' + y1 at))) b (b\<lparr>cells := Some cs'\<rparr>)"
    by (rule paints_cong) (simp_all add: c)
  moreover have "background_run w at y l r b = Some (b\<lparr>cells := Some cs'\<rparr>)"
    using b(1) x y by (simp add: background_run_def buffer_set_def cs c)
  ultimately show "\<exists>b'. background_run w at y l r b = Some b' \<and>
      paints (\<lambda>x' y'. y' = y - y1 at \<and> l - x1 at \<le> x' \<and> x' < r - x1 at)
        (\<lambda>x' y'. the (sample_background w (y' + y1 at))) b b'" by blast
qed

definition covered :: "desk \<Rightarrow> nat list \<Rightarrow> int \<Rightarrow> int \<Rightarrow> bool" where
  "covered s is x y \<longleftrightarrow> (\<exists>i \<in> set is. covers_at (displayAt s i) x y)"

lemma blocked_covered: "blocked y 0 (map (displayAt s) is) x = covered s is x y"
  by (simp add: blocked_def covered_def)

lemma spans_proper:
  "displays_ok s is \<Longrightarrow> \<forall>d \<in> set (map (displayAt s) is). \<forall>l r. span d y = Some (l, r) \<longrightarrow> l < r"
  by (auto simp: displays_ok_def display_ok_def span_def split: if_splits)

lemma runs_iff:
  assumes "\<forall>d \<in> set ds. \<forall>l r. span d y = Some (l, r) \<longrightarrow> l < r"
  shows "(\<exists>(l, r) \<in> set (row_runs next_in_gap y ox ds s xe). l \<le> x \<and> x < r) \<longleftrightarrow> s \<le> x \<and> x < xe \<and> \<not> blocked y ox ds x"
  using row_runs_all[OF refl assms, of s x xe ox] row_runs_free[of _ _ next_in_gap y ox ds s xe] by fastforce

text \<open>A pixel of the area that no display covers gets the background or stays; it gets it if the displays of its row are
  stacked from left to right. No other pixel changes.\<close>

definition background_rule :: "desk \<Rightarrow> nat list \<Rightarrow> rect \<Rightarrow> int \<Rightarrow> int \<Rightarrow> u32 \<Rightarrow> u32 \<Rightarrow> bool" where
  "background_rule s is rect x y c c' \<longleftrightarrow>
     (if rect_contains rect x y \<and> \<not> covered s is x y then
        Some c' = sample_background (totalArea s) y \<or> c' = c \<and> \<not> left_to_right y (map (displayAt s) is)
      else c' = c)"

lemma update_background_effect:
  assumes r: "repr (links s) is" and ok: "screen_ok s" "displays_ok s is"
  shows "\<exists>s'. update_background_area rect s = Some s' \<and> redraws (background_rule s is rect) s s'"
proof -
  let ?ds = "map (displayAt s) is" and ?w = "totalArea s"
  have all: "all_displays s = Some ?ds" using walk_repr[OF r] by (simp add: all_displays_def)
  have "\<exists>fbs. each_buffer (\<lambda>at b. let rect = rect_intersect rect at
      in paint_rows (background_row s at rect) (y1 rect) (nat (y2 rect - y1 rect)) b) (framebuffers s) = Some fbs \<and>
      redraws (background_rule s is rect) s (s\<lparr>framebuffers := fbs\<rparr>)"
  proof (rule each_buffer_redraws[OF ok(1)])
    fix fb b assume fb: "fb \<in> set (framebuffers s)" and b: "fbBuffer fb = Some b"
    let ?at = "area fb" and ?q = "rect_intersect rect (area fb)"
    let ?R = "\<lambda>y. row_runs next_after_all y 0 ?ds (x1 ?q) (x2 ?q)"
    have sz: "shaped b" "x2 ?at - x1 ?at = uint (bwidth b)" "y2 ?at - y1 ?at = uint (bheight b)"
      "y1 ?w \<le> y1 ?at" "y2 ?at \<le> y2 ?w" "y2 ?w - y1 ?w < 16777216"
      using ok(1) fb b by (auto simp: screen_ok_def)
    have dr: "\<forall>y. y1 ?q \<le> y \<and> y < y1 ?q + int (nat (y2 ?q - y1 ?q)) \<longrightarrow> bg.drawable ?at ?w b y (?R y)"
    proof (intro allI impI)
      fix y assume "y1 ?q \<le> y \<and> y < y1 ?q + int (nat (y2 ?q - y1 ?q))"
      then have y: "y1 ?at \<le> y" "y < y2 ?at" unfolding rows_between intersect_rows by auto
      have "sample_background ?w y \<noteq> None" using sample_some[of ?w y] y sz by simp
      moreover have "0 \<le> l - x1 ?at \<and> l < r \<and> r - x1 ?at \<le> uint (bwidth b)" if "(l, r) \<in> set (?R y)" for l r
        using row_runs_free[OF that] intersect_cols[of rect ?at l] intersect_cols[of rect ?at "r - 1"] sz(2) by auto
      moreover have "0 \<le> y - y1 ?at" "y - y1 ?at < uint (bheight b)" using y sz(3) by auto
      ultimately show "bg.drawable ?at ?w b y (?R y)" by (intro bg.drawableI) blast+
    qed
    have f: "background_row s ?at ?q y b = paint_runs (background_run ?w ?at y) (?R y) b" for y b
      by (simp add: background_row_def all)
    obtain b' where b': "paint_rows (background_row s ?at ?q) (y1 ?q) (nat (y2 ?q - y1 ?q)) b = Some b'"
      "paints (\<lambda>x' y'. y1 ?q \<le> y' + y1 ?at \<and> y' + y1 ?at < y1 ?q + int (nat (y2 ?q - y1 ?q)) \<and>
          (\<exists>(l, r) \<in> set (?R (y' + y1 ?at)). l \<le> x' + x1 ?at \<and> x' + x1 ?at < r))
        (\<lambda>x' y'. the (sample_background ?w (y' + y1 ?at))) b b'"
      using bg.rows[of "background_row s ?at ?q" ?w ?at ?R, OF f sz(1) dr] by blast
    have rule: "background_rule s is rect x y c
        (if y1 ?q \<le> y \<and> y < y1 ?q + int (nat (y2 ?q - y1 ?q)) \<and> (\<exists>(l, r) \<in> set (?R y). l \<le> x \<and> x < r)
         then the (sample_background ?w y) else c)"
      if at: "x1 ?at \<le> x" "x < x2 ?at" "y1 ?at \<le> y" "y < y2 ?at" for x y c
    proof -
      have rows: "y1 ?q \<le> y \<and> y < y1 ?q + int (nat (y2 ?q - y1 ?q)) \<longleftrightarrow> y1 rect \<le> y \<and> y < y2 rect"
        unfolding rows_between intersect_rows using at by auto
      have cols: "x1 ?q \<le> x \<and> x < x2 ?q \<longleftrightarrow> x1 rect \<le> x \<and> x < x2 rect" using intersect_cols[of rect ?at x] at by auto
      have sm: "\<exists>c. sample_background ?w y = Some c" using sample_some[of ?w y] at sz by auto
      show ?thesis
      proof (cases "\<exists>(l, r) \<in> set (?R y). l \<le> x \<and> x < r")
        case True
        then obtain l r where lr: "(l, r) \<in> set (?R y)" "l \<le> x" "x < r" by blast
        then have "\<not> covered s is x y" "x1 rect \<le> x \<and> x < x2 rect"
          using row_runs_free[OF lr(1)] cols by (auto simp: blocked_covered)
        then show ?thesis using True rows sm by (auto simp: background_rule_def rect_contains_def)
      next
        case False
        have "\<not> left_to_right y ?ds" if "rect_contains rect x y" "\<not> covered s is x y"
        proof
          assume l: "left_to_right y ?ds"
          have "?R y = row_runs next_in_gap y 0 ?ds (x1 ?q) (x2 ?q)" by (rule row_runs_ltr[OF refl l spans_proper[OF ok(2)]])
          then show False
            using False runs_iff[OF spans_proper[OF ok(2)], of y 0 "x1 ?q" "x2 ?q" x] that cols by (auto simp: rect_contains_def blocked_covered)
        qed
        then show ?thesis using False by (auto simp: background_rule_def)
      qed
    qed
    let ?P = "\<lambda>x y. y1 ?q \<le> y \<and> y < y1 ?q + int (nat (y2 ?q - y1 ?q)) \<and> (\<exists>(l, r) \<in> set (?R y). l \<le> x \<and> x < r)"
    show "\<exists>b' P v. (let rect = rect_intersect rect ?at
        in paint_rows (background_row s ?at rect) (y1 rect) (nat (y2 rect - y1 rect)) b) = Some b' \<and>
        paints (\<lambda>x y. P (x + x1 ?at) (y + y1 ?at)) (\<lambda>x y. v (x + x1 ?at) (y + y1 ?at)) b b' \<and>
        (\<forall>x y c. x1 ?at \<le> x \<and> x < x2 ?at \<and> y1 ?at \<le> y \<and> y < y2 ?at \<longrightarrow>
          background_rule s is rect x y c (if P x y then v x y else c))"
      using b' rule unfolding Let_def by (intro exI[of _ b'] exI[of _ ?P] exI[of _ "\<lambda>x y. the (sample_background ?w y)"]) blast
  qed
  then show ?thesis unfolding update_background_area_def by (auto simp: Let_def)
qed

section \<open>A display is drawn where nothing above it is in the way\<close>

definition solid_at :: "display \<Rightarrow> int \<Rightarrow> int \<Rightarrow> bool" where
  "solid_at d x y \<longleftrightarrow> rect_contains (solidArea d) (x - posX d) (y - posY d)"

definition screen_pixel :: "display \<Rightarrow> int \<Rightarrow> int \<Rightarrow> u32" where
  "screen_pixel d x y = view_pixel d (x - posX d) (y - posY d)"

definition display_rule :: "desk \<Rightarrow> nat \<Rightarrow> nat list \<Rightarrow> rect \<Rightarrow> int \<Rightarrow> int \<Rightarrow> u32 \<Rightarrow> u32 \<Rightarrow> bool" where
  "display_rule s i upper r x y c c' \<longleftrightarrow>
     c' = (if rect_contains r (x - posX (displayAt s i)) (y - posY (displayAt s i)) \<and> solid_at (displayAt s i) x y \<and>
             covers_at (displayAt s i) x y \<and> \<not> covered s upper x y
           then screen_pixel (displayAt s i) x y else c)"

lemma update_display_effect:
  assumes r: "repr (links s) (as @ i # bs)" and scr: "screen_ok s" and vis: "isVisible (displayAt s i)"
    and ok: "display_ok (displayAt s i)" "displays_ok s bs"
  shows "\<exists>s'. update_display_area_solid i rect s = Some s' \<and> redraws (display_rule s i bs rect) s s'"
proof -
  let ?d = "displayAt s i" and ?ds = "map (displayAt s) bs"
  have up: "displays_above i s = Some ?ds" using walk_repr_at[OF r] by (simp add: displays_above_def)
  have "\<exists>fbs. each_buffer (\<lambda>at b. let rect = visible_part ?d rect at
      in paint_rows (display_row s i at rect) (y1 rect) (nat (y2 rect - y1 rect)) b) (framebuffers s) = Some fbs \<and>
      redraws (display_rule s i bs rect) s (s\<lparr>framebuffers := fbs\<rparr>)"
  proof (rule each_buffer_redraws[OF scr])
    fix fb b assume fb: "fb \<in> set (framebuffers s)" and b: "fbBuffer fb = Some b"
    let ?at = "area fb" and ?q = "visible_part ?d rect (area fb)"
    let ?ox = "x1 ?at - posX ?d" and ?oy = "y1 ?at - posY ?d"
    let ?L = "\<lambda>y. sint (get_left_margin ?d (word_of_int y))" and ?E = "\<lambda>y. wide ?d - sint (get_right_margin ?d (word_of_int y))"
    let ?R = "\<lambda>y. row_runs next_in_gap (posY ?d + y) (posX ?d) ?ds (max (x1 ?q) (?L y)) (min (x2 ?q) (?E y))"
    have sz: "shaped b" "x2 ?at - x1 ?at = uint (bwidth b)" "y2 ?at - y1 ?at = uint (bheight b)"
      using scr fb b by (auto simp: screen_ok_def)
    have wd: "0 \<le> wide ?d" using display_ok_size[OF ok(1)] by simp
    have marg: "0 \<le> ?L y" "?E y \<le> wide ?d" for y
      using row_bounds[OF wd, of "posY ?d + y"] by (simp_all add: row_left_def row_right_def)
    have dr: "\<forall>y. y1 ?q \<le> y \<and> y < y1 ?q + int (nat (y2 ?q - y1 ?q)) \<longrightarrow> blit.drawable ?at ?d b y (?R y)"
    proof (intro allI impI)
      fix y assume "y1 ?q \<le> y \<and> y < y1 ?q + int (nat (y2 ?q - y1 ?q))"
      then have y: "y1 ?at \<le> y + posY ?d" "y + posY ?d < y2 ?at" "y1 (solidArea ?d) \<le> y" "y < y2 (solidArea ?d)"
        unfolding rows_between visible_part_rows by auto
      then have yd: "0 \<le> y" "y < tall ?d" using ok(1) by (auto simp: display_ok_def)
      have "0 \<le> l - ?ox \<and> l < e \<and> e - ?ox \<le> uint (bwidth b) \<and> (\<forall>x. l \<le> x \<and> x < e \<longrightarrow> view_readable ?d x y)"
        if m: "(l, e) \<in> set (?R y)" for l e
      proof -
        have le: "max (x1 ?q) (?L y) \<le> l" "l < e" "e \<le> min (x2 ?q) (?E y)" using row_runs_free[OF m] by auto
        then have "x1 ?q \<le> l \<and> l < x2 ?q" "x1 ?q \<le> e - 1 \<and> e - 1 < x2 ?q" by auto
        then have c: "x1 ?at \<le> l + posX ?d" "e - 1 + posX ?d < x2 ?at" unfolding visible_part_cols by auto
        have "view_readable ?d x y" if "l \<le> x" "x < e" for x
          by (rule view_readable_inside[OF ok(1)]) (use that le marg[of y] yd in auto)
        with c le sz(2) show ?thesis by auto
      qed
      moreover have "0 \<le> y - ?oy" "y - ?oy < uint (bheight b)" using y(1,2) sz(3) by auto
      ultimately show "blit.drawable ?at ?d b y (?R y)" by (intro blit.drawableI)
    qed
    have f: "display_row s i ?at ?q y b = paint_runs (blit_run ?d ?at y) (?R y) b" for y b
      by (simp add: display_row_def up Let_def)
    obtain b' where b': "paint_rows (display_row s i ?at ?q) (y1 ?q) (nat (y2 ?q - y1 ?q)) b = Some b'"
      "paints (\<lambda>x' y'. y1 ?q \<le> y' + ?oy \<and> y' + ?oy < y1 ?q + int (nat (y2 ?q - y1 ?q)) \<and>
          (\<exists>(l, r) \<in> set (?R (y' + ?oy)). l \<le> x' + ?ox \<and> x' + ?ox < r))
        (\<lambda>x' y'. view_pixel ?d (x' + ?ox) (y' + ?oy)) b b'"
      using blit.rows[of "display_row s i ?at ?q" ?d ?at ?R, OF f sz(1) dr] by blast
    let ?P = "\<lambda>x y. y1 ?q \<le> y - posY ?d \<and> y - posY ?d < y1 ?q + int (nat (y2 ?q - y1 ?q)) \<and>
        (\<exists>(l, r) \<in> set (?R (y - posY ?d)). l \<le> x - posX ?d \<and> x - posX ?d < r)"
    have ps: "paints (\<lambda>x y. ?P (x + x1 ?at) (y + y1 ?at)) (\<lambda>x y. screen_pixel ?d (x + x1 ?at) (y + y1 ?at)) b b'"
      using b'(2) by (simp only: add_diff_eq screen_pixel_def)
    have "?P x y \<longleftrightarrow> rect_contains rect (x - posX ?d) (y - posY ?d) \<and> solid_at ?d x y \<and> covers_at ?d x y \<and> \<not> covered s bs x y"
      if at: "x1 ?at \<le> x" "x < x2 ?at" "y1 ?at \<le> y" "y < y2 ?at" for x y
    proof -
      have run: "(\<exists>(l, r) \<in> set (?R (y - posY ?d)). l \<le> x - posX ?d \<and> x - posX ?d < r) \<longleftrightarrow>
          (x1 ?q \<le> x - posX ?d \<and> x - posX ?d < x2 ?q) \<and> (row_left ?d y \<le> x \<and> x < row_right ?d y) \<and> \<not> covered s bs x y"
        using runs_iff[OF spans_proper[OF ok(2)], of y "posX ?d" "max (x1 ?q) (?L (y - posY ?d))" "min (x2 ?q) (?E (y - posY ?d))" "x - posX ?d"]
        by (auto simp: blocked_def covered_def row_left_def row_right_def)
      have "in_rows ?d y" if "y1 (solidArea ?d) \<le> y - posY ?d" "y - posY ?d < y2 (solidArea ?d)"
        using that ok(1) by (auto simp: display_ok_def in_rows_def)
      moreover have "?P x y \<longleftrightarrow> (y1 ?q \<le> y - posY ?d \<and> y - posY ?d < y1 ?q + int (nat (y2 ?q - y1 ?q))) \<and>
          (\<exists>(l, r) \<in> set (?R (y - posY ?d)). l \<le> x - posX ?d \<and> x - posX ?d < r)" by (simp only: conj_assoc)
      ultimately show ?thesis
        unfolding run rows_between visible_part_rows visible_part_cols using at vis
        by (auto simp: rect_contains_def solid_at_def covers_at_def)
    qed
    then have rule: "display_rule s i bs rect x y c (if ?P x y then screen_pixel ?d x y else c)"
      if "x1 ?at \<le> x \<and> x < x2 ?at \<and> y1 ?at \<le> y \<and> y < y2 ?at" for x y c
      using that by (simp add: display_rule_def)
    show "\<exists>b' P v. (let rect = visible_part ?d rect ?at
        in paint_rows (display_row s i ?at rect) (y1 rect) (nat (y2 rect - y1 rect)) b) = Some b' \<and>
        paints (\<lambda>x y. P (x + x1 ?at) (y + y1 ?at)) (\<lambda>x y. v (x + x1 ?at) (y + y1 ?at)) b b' \<and>
        (\<forall>x y c. x1 ?at \<le> x \<and> x < x2 ?at \<and> y1 ?at \<le> y \<and> y < y2 ?at \<longrightarrow>
          display_rule s i bs rect x y c (if P x y then v x y else c))"
      using b'(1) ps rule unfolding Let_def by (intro exI[of _ b'] exI[of _ ?P] exI[of _ "screen_pixel ?d"]) blast
  qed
  moreover have "dscale ?d \<in> {1, 2, 3, 4}" using ok(1) by (simp add: display_ok_def)
  ultimately show ?thesis
    using vis unfolding update_display_area_solid_def update_display_solid_area_def by (auto simp: Let_def)
qed

section \<open>The solid picture\<close>

text \<open>The display on top at a pixel, of a stack given from the bottom.\<close>

definition top_display :: "desk \<Rightarrow> nat list \<Rightarrow> int \<Rightarrow> int \<Rightarrow> nat option" where
  "top_display s is x y = find (\<lambda>i. covers_at (displayAt s i) x y) (rev is)"

definition solid_rule :: "desk \<Rightarrow> nat list \<Rightarrow> nat list \<Rightarrow> rect \<Rightarrow> int \<Rightarrow> int \<Rightarrow> u32 \<Rightarrow> u32 \<Rightarrow> bool" where
  "solid_rule s all drawn rect x y c c' \<longleftrightarrow>
     c' = (case top_display s all x y of
             Some i \<Rightarrow> if i \<in> set drawn \<and> rect_contains rect x y \<and> solid_at (displayAt s i) x y
                       then screen_pixel (displayAt s i) x y else c
           | None \<Rightarrow> c)"

lemma top_display_in: "top_display s is x y = Some i \<Longrightarrow> i \<in> set is \<and> covers_at (displayAt s i) x y"
  using find_SomeD[of "\<lambda>i. covers_at (displayAt s i) x y" "rev is" i] by (simp add: top_display_def)

lemma top_display_none: "top_display s is x y = None \<longleftrightarrow> \<not> covered s is x y"
  by (auto simp: top_display_def find_None_iff covered_def)

lemma top_display_at:
  assumes "distinct (as @ i # is)"
  shows "top_display s (as @ i # is) x y = Some i \<longleftrightarrow> covers_at (displayAt s i) x y \<and> \<not> covered s is x y"
proof (cases "top_display s is x y")
  case None
  have "top_display s (as @ i # is) x y = (if covers_at (displayAt s i) x y then Some i else top_display s as x y)"
    using None by (simp add: top_display_def find_append)
  moreover have "top_display s as x y \<noteq> Some i" using top_display_in[of s as x y i] assms by auto
  ultimately show ?thesis using None by (simp add: top_display_none)
next
  case (Some j)
  then have "top_display s (as @ i # is) x y = Some j" by (simp add: top_display_def find_append)
  moreover have "j \<noteq> i" using top_display_in[OF Some] assms by auto
  moreover have "covered s is x y" using top_display_in[OF Some] by (auto simp: covered_def)
  ultimately show ?thesis by simp
qed

lemma redraws_rules:
  assumes "redraws R s s1"
  shows "solid_rule s1 = solid_rule s" "covered s1 = covered s" "background_rule s1 = background_rule s"
proof -
  note e = redraws_same[OF assms]
  show "solid_rule s1 = solid_rule s" unfolding solid_rule_def top_display_def e ..
  show c: "covered s1 = covered s" unfolding covered_def e ..
  show "background_rule s1 = background_rule s" unfolding background_rule_def c e ..
qed

lemma shifted_part:
  "rect_contains (rect_intersect (shift rect (- posX d) (- posY d)) (solidArea d)) (x - posX d) (y - posY d) \<longleftrightarrow>
    rect_contains rect x y \<and> solid_at d x y"
  unfolding rect_intersect_def squash_contains by (auto simp: rect_contains_def solid_at_def mk_rect_def)

lemma solid_displays_effect:
  "repr (links s) (as @ is) \<Longrightarrow> screen_ok s \<Longrightarrow> displays_ok s (as @ is) \<Longrightarrow>
    \<exists>s'. solid_displays rect below is s = Some s' \<and>
      redraws (solid_rule s (as @ is) (takeWhile (\<lambda>i. Some i \<noteq> below) is) rect) s s'"
proof (induction "is" arbitrary: as s)
  case Nil
  then show ?case by (auto simp: solid_rule_def split: option.splits intro!: redraws_refl)
next
  case (Cons i "is")
  let ?d = "displayAt s i" and ?all = "as @ i # is" and ?dr = "takeWhile (\<lambda>i. Some i \<noteq> below) is"
  have dist: "distinct ?all" using Cons.prems(1) by (simp add: repr_def)
  show ?case
  proof (cases "Some i = below")
    case True
    then show ?thesis using Cons.prems(2) by (auto simp: solid_rule_def split: option.splits intro!: redraws_refl)
  next
    case nb: False
    show ?thesis
    proof (cases "isVisible ?d")
      case False
      then have "top_display s ?all x y \<noteq> Some i" for x y using top_display_in[of s ?all x y i] by (auto simp: covers_at_def)
      then have "solid_rule s ?all ?dr rect x y c c' \<Longrightarrow> solid_rule s ?all (i # ?dr) rect x y c c'" for x y c c'
        by (auto simp: solid_rule_def split: option.splits)
      moreover obtain s' where "solid_displays rect below is s = Some s'" "redraws (solid_rule s ?all ?dr rect) s s'"
        using Cons.IH[of s "as @ [i]"] Cons.prems by auto
      ultimately show ?thesis using False nb redraws_weaken[of "solid_rule s ?all ?dr rect" s s'] by auto
    next
      case True
      let ?r = "rect_intersect (shift rect (- posX ?d) (- posY ?d)) (solidArea ?d)"
      have ok: "display_ok ?d" "displays_ok s is" using Cons.prems(3) True by (auto simp: displays_ok_def)
      obtain s1 where s1: "update_display_area_solid i ?r s = Some s1" "redraws (display_rule s i is ?r) s s1"
        using update_display_effect[OF Cons.prems(1,2) True ok] by blast
      have "repr (links s1) ((as @ [i]) @ is)" "displays_ok s1 ((as @ [i]) @ is)"
        using Cons.prems(1,3) redraws_same[OF s1(2)] redraws_walks(3)[OF s1(2)] by simp_all
      from Cons.IH[OF this(1) redraws_screen_ok[OF s1(2) Cons.prems(2)] this(2)]
      obtain s2 where s2: "solid_displays rect below is s1 = Some s2" "redraws (solid_rule s ?all ?dr rect) s1 s2"
        unfolding redraws_rules[OF s1(2)] by auto
      have "solid_rule s ?all (i # ?dr) rect x y c c2"
        if "display_rule s i is ?r x y c c1" "solid_rule s ?all ?dr rect x y c1 c2" for x y c c1 c2
      proof -
        have c1: "c1 = (if top_display s ?all x y = Some i \<and> rect_contains rect x y \<and> solid_at ?d x y then screen_pixel ?d x y else c)"
          using that(1) unfolding display_rule_def shifted_part top_display_at[OF dist] by auto
        have "i \<notin> set ?dr" using dist set_takeWhileD by fastforce
        then show ?thesis using that(2) c1 by (auto simp: solid_rule_def split: option.splits)
      qed
      from redraws_trans[OF s1(2) s2(2) this] show ?thesis using nb True s1(1) s2(1) by (auto simp: Let_def)
    qed
  qed
qed

text \<open>\<^verbatim>\<open>_update_area_solid\<close> as a whole: where the area is covered, the display on top decides, and its solid pixels are shown;
  where it is not, the background is.\<close>

definition picture_rule :: "desk \<Rightarrow> nat list \<Rightarrow> nat list \<Rightarrow> rect \<Rightarrow> int \<Rightarrow> int \<Rightarrow> u32 \<Rightarrow> u32 \<Rightarrow> bool" where
  "picture_rule s all drawn rect x y c c' \<longleftrightarrow>
     (if \<not> rect_contains rect x y then c' = c
      else
        (case top_display s all x y of
           Some i \<Rightarrow> c' = (if i \<in> set drawn \<and> solid_at (displayAt s i) x y then screen_pixel (displayAt s i) x y else c)
         | None \<Rightarrow> Some c' = sample_background (totalArea s) y \<or> c' = c \<and> \<not> left_to_right y (map (displayAt s) all)))"

lemma update_area_solid_effect:
  assumes "repr (links s) is" "screen_ok s" "displays_ok s is"
  shows "\<exists>s'. update_area_solid rect below s = Some s' \<and>
    redraws (picture_rule s is (takeWhile (\<lambda>i. Some i \<noteq> below) is) rect) s s'"
proof -
  obtain s1 where s1: "update_background_area rect s = Some s1" "redraws (background_rule s is rect) s s1"
    using update_background_effect[OF assms] by blast
  have l: "repr (links s1) ([] @ is)" "displays_ok s1 ([] @ is)"
    using assms redraws_same[OF s1(2)] redraws_walks(3)[OF s1(2)] by simp_all
  let ?dr = "takeWhile (\<lambda>i. Some i \<noteq> below) is"
  obtain s2 where s2: "solid_displays rect below is s1 = Some s2" "redraws (solid_rule s is ?dr rect) s1 s2"
    using solid_displays_effect[OF l(1) redraws_screen_ok[OF s1(2) assms(2)] l(2)] unfolding redraws_rules[OF s1(2)] by auto
  have "picture_rule s is ?dr rect x y c c2" if "background_rule s is rect x y c c1" "solid_rule s is ?dr rect x y c1 c2" for x y c c1 c2
    using that top_display_none[of s "is" x y] by (auto simp: picture_rule_def background_rule_def solid_rule_def split: option.splits if_splits)
  from redraws_trans[OF s1(2) s2(2) this] show ?thesis
    using s1(1) s2(1) walk_repr[OF l(1)] by (auto simp: update_area_solid_def)
qed

end
