(* ===== verification/Transparency.thy ===== *)
theory Transparency
  imports Compositor
begin

unbundle bit_operations_syntax

text \<open>
  The transparent parts of the displays in \<^verbatim>\<open>drivers/DisplayManager.cpp\<close>: colours are blended down the stack
  (\<^verbatim>\<open>__calculate_blending_at\<close>, \<^verbatim>\<open>graphics2d::blend_colours\<close>), and every row of an area is cut into sections of displays
  (\<^verbatim>\<open>_find_display_section_in_row\<close>), the transparent ones of which \<^verbatim>\<open>_update_area_transparency\<close> draws. The alpha byte of a
  pixel is its transparency: 0 is opaque.
\<close>

section \<open>Colours\<close>

text \<open>\<^verbatim>\<open>PackedPixel<order>\<close>: where the channels of a pixel are.\<close>

fun red_shift :: "order \<Rightarrow> nat" where
  "red_shift argb = 8" | "red_shift bgra = 16"

fun green_shift :: "order \<Rightarrow> nat" where
  "green_shift argb = 16" | "green_shift bgra = 8"

fun blue_shift :: "order \<Rightarrow> nat" where
  "blue_shift argb = 24" | "blue_shift bgra = 0"

fun alpha_shift :: "order \<Rightarrow> nat" where
  "alpha_shift argb = 0" | "alpha_shift bgra = 24"

definition colour_channel :: "nat \<Rightarrow> u32 \<Rightarrow> nat" where
  "colour_channel k c = unat (drop_bit k c AND 0xff)"

definition pack :: "order \<Rightarrow> nat \<Rightarrow> nat \<Rightarrow> nat \<Rightarrow> u32" where
  "pack ord r g b = push_bit (red_shift ord) (of_nat r) OR push_bit (green_shift ord) (of_nat g) OR push_bit (blue_shift ord) (of_nat b)"

definition blend_colours :: "u32 \<Rightarrow> u32 \<Rightarrow> u32" where
  "blend_colours a b =
     (let tr = drop_bit 24 b;
          mix = (\<lambda>k. (drop_bit k a AND 0xff) * tr div 255 + (drop_bit k b AND 0xff))
      in mix 0 OR push_bit 8 (mix 8) OR push_bit 16 (mix 16) OR push_bit 24 (drop_bit 24 a * tr div 255))"

section \<open>Blending down the stack\<close>

text \<open>Reading the pixel of a display: past its memory is \<open>None\<close>.\<close>

definition read_view :: "display \<Rightarrow> int \<Rightarrow> int \<Rightarrow> u32 option" where
  "read_view d x y =
     (case cells (view d) of None \<Rightarrow> None | Some cs \<Rightarrow> cell_get (view_index d (x - posX d) (y - posY d)) cs)"

definition sample_at :: "display \<Rightarrow> int \<Rightarrow> int \<Rightarrow> u32 option" where
  "sample_at d x y = (if \<not> covers_at d x y then Some 0 else read_view d x y)"

text \<open>The loop over the displays, top first, with the three channels and \<^verbatim>\<open>visibility\<close> so far; what comes after the loop adds
  the background, in bytes.\<close>

definition add_light :: "nat \<Rightarrow> u32 \<Rightarrow> nat \<Rightarrow> nat \<Rightarrow> nat" where
  "add_light k c vis v = min (v + colour_channel k c * vis div 255) 255"

definition add_background :: "nat \<Rightarrow> u32 \<Rightarrow> nat \<Rightarrow> nat \<Rightarrow> nat" where
  "add_background k c vis v = (v + min (colour_channel k c * vis div 255) 255) mod 256"

primrec blend_down :: "order \<Rightarrow> rect \<Rightarrow> int \<Rightarrow> int \<Rightarrow> display list \<Rightarrow> nat \<Rightarrow> nat \<Rightarrow> nat \<Rightarrow> nat \<Rightarrow> u32 option" where
  "blend_down ord w x y [] r g b vis =
     map_option (\<lambda>bg. pack ord (add_background 16 bg vis r) (add_background 8 bg vis g) (add_background 0 bg vis b))
       (sample_background w y)"
| "blend_down ord w x y (d # ds) r g b vis =
     (if \<not> covers_at d x y then blend_down ord w x y ds r g b vis
      else
        (case read_view d x y of
           None \<Rightarrow> None
         | Some c \<Rightarrow>
             (let r = add_light (red_shift ord) c vis r; g = add_light (green_shift ord) c vis g;
                  b = add_light (blue_shift ord) c vis b; a = colour_channel (alpha_shift ord) c
              in if solid_at d x y then Some (pack ord r g b)
                 else if vis \<le> 255 - a then Some (pack ord r g b)
                 else blend_down ord w x y ds r g b (vis - (255 - a)))))"

definition calculate_blending :: "order \<Rightarrow> rect \<Rightarrow> int \<Rightarrow> int \<Rightarrow> display list \<Rightarrow> u32 option" where
  "calculate_blending ord w x y ds = blend_down ord w x y ds 0 0 0 255"

text \<open>The pixel that a transparent strip of a display shows.\<close>

definition transparent_pixel :: "order \<Rightarrow> rect \<Rightarrow> display \<Rightarrow> display list \<Rightarrow> int \<Rightarrow> int \<Rightarrow> u32 option" where
  "transparent_pixel ord w d lower x y =
     (case sample_at d x y of
        None \<Rightarrow> None
      | Some upper \<Rightarrow>
          if drop_bit 24 upper = 0 then Some upper
          else map_option (\<lambda>c. blend_colours c upper) (calculate_blending ord w x y lower))"

section \<open>Sections of a row\<close>

text \<open>The part of a row of a display that the pixel column \<open>x\<close> belongs to: its left end, and whether it is transparent.\<close>

definition section_of :: "display \<Rightarrow> int \<Rightarrow> int \<Rightarrow> int \<times> bool" where
  "section_of d x y =
     (let displayX = x - posX d; displayY = y - posY d; left = row_left d y in
      if displayY < y1 (solidArea d) \<or> displayY \<ge> y2 (solidArea d) then (left, True)
      else if x1 (solidArea d) > 0 \<and> displayX < x1 (solidArea d) then (left, True)
      else if displayX < x2 (solidArea d) then (max left (posX d + x1 (solidArea d)), False)
      else (max left (posX d + x2 (solidArea d)), True))"

text \<open>Where the section of the current display ends.\<close>

definition section_end :: "display \<Rightarrow> int \<Rightarrow> int \<Rightarrow> int \<Rightarrow> int" where
  "section_end d x y xe =
     (let currentX = x - posX d; currentY = y - posY d;
          foundLeft =
            (if currentY < y1 (solidArea d) \<or> currentY \<ge> y2 (solidArea d) then xe
             else if x1 (solidArea d) > 0 \<and> currentX < x1 (solidArea d) then posX d + x1 (solidArea d)
             else if currentX < x2 (solidArea d) then posX d + x2 (solidArea d)
             else posX d + wide d)
      in clamp foundLeft (row_left d y) (row_right d y))"

text \<open>The search from the top. The result is the display found, its transparency, and the new \<^verbatim>\<open>x\<close>.\<close>

primrec find_section :: "(nat \<Rightarrow> display) \<Rightarrow> int \<Rightarrow> int \<Rightarrow> int \<Rightarrow> nat option \<Rightarrow> nat list \<Rightarrow> int \<Rightarrow> nat option \<Rightarrow> bool \<Rightarrow> nat option \<times> bool \<times> int" where
  "find_section D x y xe current [] foundLeft found transparent = (found, transparent, min foundLeft xe)"
| "find_section D x y xe current (i # is) foundLeft found transparent =
     (if \<not> isVisible (D i) then find_section D x y xe current is foundLeft found transparent
      else if Some i = current then (found, transparent, min foundLeft xe)
      else if \<not> in_rows (D i) y then find_section D x y xe current is foundLeft found transparent
      else if row_right (D i) y \<le> x then find_section D x y xe current is foundLeft found transparent
      else
        (case section_of (D i) x y of
           (left, glass) \<Rightarrow>
             if left \<le> x then (Some i, glass, x)
             else if left < foundLeft then find_section D x y xe current is left (Some i) glass
             else find_section D x y xe current is foundLeft found transparent))"

definition find_display_section :: "desk \<Rightarrow> int \<Rightarrow> int \<Rightarrow> int \<Rightarrow> nat option \<Rightarrow> (nat option \<times> bool \<times> int) option" where
  "find_display_section s y xe x current =
     (case walk_prev (fst (links s)) (tail (snd (links s))) of
        None \<Rightarrow> None
      | Some is \<Rightarrow>
          Some (find_section (displayAt s) x y xe current is
            (case current of None \<Rightarrow> xe | Some i \<Rightarrow> section_end (displayAt s i) x y xe) None False))"

text \<open>The loop over a row: the strips it draws, as display, left and right end. It may not end.\<close>

partial_function (option) row_strips ::
  "(int \<Rightarrow> nat option \<Rightarrow> (nat option \<times> bool \<times> int) option) \<Rightarrow> int \<Rightarrow> (nat option \<times> bool) \<times> int \<Rightarrow> (nat \<times> int \<times> int) list option" where
  "row_strips search xe st =
     (if snd st < xe then
        Option.bind (search (snd st) (fst (fst st))) (\<lambda>f.
          if fst (fst st) = None \<and> fst f = None then Some []
          else
            Option.bind (row_strips search xe ((fst f, fst (snd f)), snd (snd f))) (\<lambda>rs.
              Some (case fst (fst st) of
                      None \<Rightarrow> rs
                    | Some i \<Rightarrow> if snd (fst st) then (i, snd st, snd (snd f)) # rs else rs)))
      else Some [])"

text \<open>A strip is gathered in chunks of 256 pixels and copied to the framebuffer.\<close>

fun put_cells :: "(int \<Rightarrow> u32 option) \<Rightarrow> int \<Rightarrow> int \<Rightarrow> nat \<Rightarrow> u32 list \<Rightarrow> u32 list option" where
  "put_cells f x t 0 cs = Some cs"
| "put_cells f x t (Suc n) cs =
     (case f x of
        None \<Rightarrow> None
      | Some v \<Rightarrow> (case cell_set t v cs of None \<Rightarrow> None | Some cs \<Rightarrow> put_cells f (x + 1) (t + 1) n cs))"

definition lower_displays :: "desk \<Rightarrow> nat \<Rightarrow> display list option" where
  "lower_displays s i = map_option (map (displayAt s)) (walk_prev (fst (links s)) (prevp (fst (links s)) i))"

definition strip_pixel :: "order \<Rightarrow> desk \<Rightarrow> nat \<Rightarrow> int \<Rightarrow> int \<Rightarrow> u32 option" where
  "strip_pixel ord s i x y =
     (case lower_displays s i of
        None \<Rightarrow> None
      | Some lower \<Rightarrow> transparent_pixel ord (totalArea s) (displayAt s i) lower x y)"

definition strip_run :: "order \<Rightarrow> desk \<Rightarrow> nat \<Rightarrow> rect \<Rightarrow> int \<Rightarrow> int \<Rightarrow> int \<Rightarrow> pixel_buffer \<Rightarrow> pixel_buffer option" where
  "strip_run ord s i at y l r b =
     (case cells b of
        None \<Rightarrow> None
      | Some cs \<Rightarrow>
          map_option (\<lambda>cs. b\<lparr>cells := Some cs\<rparr>)
            (put_cells (\<lambda>x. strip_pixel ord s i x y) l ((y - y1 at) * int (pitch b) + (l - x1 at)) (nat (r - l)) cs))"

fun paint_strips :: "(nat \<Rightarrow> int \<Rightarrow> int \<Rightarrow> pixel_buffer \<Rightarrow> pixel_buffer option) \<Rightarrow> (nat \<times> int \<times> int) list \<Rightarrow> pixel_buffer \<Rightarrow> pixel_buffer option" where
  "paint_strips put [] b = Some b"
| "paint_strips put ((i, l, r) # rs) b = (case put i l r b of None \<Rightarrow> None | Some b \<Rightarrow> paint_strips put rs b)"

definition transparent_row :: "desk \<Rightarrow> rect \<Rightarrow> rect \<Rightarrow> int \<Rightarrow> pixel_buffer \<Rightarrow> pixel_buffer option" where
  "transparent_row s at rect y b =
     (case row_strips (find_display_section s y (x2 rect)) (x2 rect) ((None, False), x1 rect) of
        None \<Rightarrow> None
      | Some rs \<Rightarrow> paint_strips (\<lambda>i. strip_run (border b) s i at y) rs b)"

definition update_area_transparency :: "rect \<Rightarrow> desk \<Rightarrow> desk option" where
  "update_area_transparency screenRect s =
     map_option (\<lambda>fbs. s\<lparr>framebuffers := fbs\<rparr>)
       (each_buffer (\<lambda>at b. let rect = rect_intersect screenRect at
                            in paint_rows (transparent_row s at rect) (y1 rect) (nat (y2 rect - y1 rect)) b)
         (framebuffers s))"

definition update_area :: "rect \<Rightarrow> nat option \<Rightarrow> desk \<Rightarrow> desk option" where
  "update_area rect below s =
     (case update_area_solid rect below s of None \<Rightarrow> None | Some s \<Rightarrow> update_area_transparency rect s)"

section \<open>Sections\<close>

definition glass_at :: "display \<Rightarrow> int \<Rightarrow> int \<Rightarrow> bool" where
  "glass_at d x y = snd (section_of d x y)"

text \<open>In a row with a solid part, that part is not hidden behind the left corner.\<close>

definition corners_ok :: "display \<Rightarrow> bool" where
  "corners_ok d \<longleftrightarrow> (\<forall>y. y1 (solidArea d) \<le> y - posY d \<and> y - posY d < y2 (solidArea d) \<longrightarrow> row_left d y < posX d + x2 (solidArea d))"

lemma ok_left: "display_ok d \<Longrightarrow> posX d \<le> row_left d y" "display_ok d \<Longrightarrow> row_right d y \<le> posX d + wide d"
  using row_bounds[of d y] display_ok_size[of d] by simp_all

lemma glass_solid: "display_ok d \<Longrightarrow> covers_at d x y \<Longrightarrow> glass_at d x y \<longleftrightarrow> \<not> solid_at d x y"
  using ok_left(1)[of d y] by (auto simp: glass_at_def section_of_def solid_at_def rect_contains_def covers_at_def Let_def)

lemma section_left:
  assumes "display_ok d"
  shows "fst (section_of d x y) \<le> x \<longleftrightarrow> row_left d y \<le> x"
    and "x < row_left d y \<Longrightarrow> fst (section_of d x y) = row_left d y"
  using ok_left(1)[OF assms, of y] by (auto simp: section_of_def Let_def)

lemma glass_ahead:
  assumes "display_ok d" "corners_ok d" "x < row_left d y" "glass_at d (row_left d y) y"
  shows "glass_at d x y"
  using assms(2)[unfolded corners_ok_def, rule_format, of y] assms(3,4) by (auto simp: glass_at_def section_of_def Let_def split: if_splits)

lemma section_end_bounds:
  assumes ok: "display_ok d" and c: "covers_at d x y" and lt: "x < xe"
  shows "x < section_end d x y xe" "section_end d x y xe \<le> row_right d y"
    and "x \<le> z \<Longrightarrow> z < section_end d x y xe \<Longrightarrow> glass_at d z y = glass_at d x y"
  using c lt ok_left[OF ok, of y]
  by (auto simp: section_end_def glass_at_def section_of_def covers_at_def clamp_def maths_min_def maths_max_def Let_def split: if_splits)

lemma find_section_current:
  assumes "c \<notin> set ups" and "isVisible (D c)"
  shows "find_section D x y xe (Some c) (ups @ c # rest) fl fo tr = find_section D x y xe None ups fl fo tr"
  using assms(1) by (induction ups arbitrary: fl fo tr) (auto simp: assms(2) split: prod.splits)

lemma find_section_hit:
  assumes "\<forall>i \<in> set ups. isVisible (D i) \<longrightarrow> display_ok (D i)" and "find (\<lambda>i. covers_at (D i) x y) ups = Some i"
  shows "find_section D x y xe None ups fl fo tr = (Some i, glass_at (D i) x y, x)"
  using assms
proof (induction ups arbitrary: fl fo tr)
  case (Cons j ups)
  show ?case
  proof (cases "covers_at (D j) x y")
    case True
    then have "fst (section_of (D j) x y) \<le> x" using section_left(1)[of "D j" x y] Cons.prems(1) by (auto simp: covers_at_def)
    then show ?thesis using True Cons.prems(2) by (auto simp: covers_at_def glass_at_def split: prod.splits)
  next
    case False
    then have n: "\<not> fst (section_of (D j) x y) \<le> x" if "isVisible (D j)" "in_rows (D j) y" "x < row_right (D j) y"
      using section_left(1)[of "D j" x y] Cons.prems(1) that by (auto simp: covers_at_def)
    have "find_section D x y xe None ups fl fo tr = (Some i, glass_at (D i) x y, x)" for fl fo tr
      using Cons.IH Cons.prems False by auto
    then show ?thesis using n by (auto split: prod.splits)
  qed
qed simp

lemma find_section_miss:
  assumes "\<forall>i \<in> set ups. isVisible (D i) \<longrightarrow> display_ok (D i)" and "find (\<lambda>i. covers_at (D i) x y) ups = None" and "x < fl"
  shows "\<exists>fd t fl'. find_section D x y xe None ups fl fo tr = (fd, t, min fl' xe) \<and> x < fl' \<and> fl' \<le> fl \<and>
    (\<forall>z. x \<le> z \<and> z < fl' \<longrightarrow> find (\<lambda>i. covers_at (D i) z y) ups = None) \<and>
    (fl' = fl \<and> fd = fo \<and> t = tr \<or>
     (\<exists>i. fl' < fl \<and> fd = Some i \<and> find (\<lambda>i. covers_at (D i) fl' y) ups = Some i \<and> fl' = row_left (D i) y \<and> t = glass_at (D i) x y))"
  using assms
proof (induction ups arbitrary: fl fo tr)
  case (Cons j ups)
  have ih: "\<exists>fd t fl'. find_section D x y xe None ups fl fo tr = (fd, t, min fl' xe) \<and> x < fl' \<and> fl' \<le> fl \<and>
      (\<forall>z. x \<le> z \<and> z < fl' \<longrightarrow> find (\<lambda>i. covers_at (D i) z y) ups = None) \<and>
      (fl' = fl \<and> fd = fo \<and> t = tr \<or>
       (\<exists>i. fl' < fl \<and> fd = Some i \<and> find (\<lambda>i. covers_at (D i) fl' y) ups = Some i \<and> fl' = row_left (D i) y \<and> t = glass_at (D i) x y))"
    if "x < fl" for fl fo tr
    using Cons.IH[OF _ _ that] Cons.prems(1,2) by (auto split: if_splits)
  have nj: "\<not> covers_at (D j) x y" using Cons.prems(2) by (auto split: if_splits)
  consider (skip) "\<not> isVisible (D j) \<or> \<not> in_rows (D j) y \<or> row_right (D j) y \<le> x"
    | (ahead) "isVisible (D j)" "in_rows (D j) y" "x < row_right (D j) y" "x < row_left (D j) y"
    using nj by (force simp: covers_at_def)
  then show ?case
  proof cases
    case skip
    then have "find_section D x y xe None (j # ups) fl fo tr = find_section D x y xe None ups fl fo tr" by auto
    moreover have "\<not> covers_at (D j) z y" if "x \<le> z" for z using skip that by (auto simp: covers_at_def)
    ultimately show ?thesis using ih[OF Cons.prems(3), of fo tr] by (auto 0 4 simp del: find_section.simps)
  next
    case ahead
    let ?l = "row_left (D j) y"
    have ok: "display_ok (D j)" using Cons.prems(1) ahead(1) by simp
    then have lr: "?l < row_right (D j) y" using ahead(2) by (simp add: display_ok_def)
    have sec: "section_of (D j) x y = (?l, glass_at (D j) x y)"
      using section_left(2)[OF ok ahead(4)] by (simp add: glass_at_def prod_eq_iff)
    have nc: "\<not> covers_at (D j) z y" if "z < ?l" for z using that by (auto simp: covers_at_def)
    show ?thesis
    proof (cases "?l < fl")
      case True
      then have e: "find_section D x y xe None (j # ups) fl fo tr = find_section D x y xe None ups ?l (Some j) (glass_at (D j) x y)"
        using ahead sec by simp
      have cv: "covers_at (D j) ?l y" using ahead lr by (simp add: covers_at_def)
      obtain fd t fl' where r: "find_section D x y xe None ups ?l (Some j) (glass_at (D j) x y) = (fd, t, min fl' xe)" "x < fl'" "fl' \<le> ?l"
        "\<forall>z. x \<le> z \<and> z < fl' \<longrightarrow> find (\<lambda>i. covers_at (D i) z y) ups = None"
        "fl' = ?l \<and> fd = Some j \<and> t = glass_at (D j) x y \<or>
         (\<exists>i. fl' < ?l \<and> fd = Some i \<and> find (\<lambda>i. covers_at (D i) fl' y) ups = Some i \<and> fl' = row_left (D i) y \<and> t = glass_at (D i) x y)"
        using ih[OF ahead(4), of "Some j" "glass_at (D j) x y"] by blast
      have "\<forall>z. x \<le> z \<and> z < fl' \<longrightarrow> find (\<lambda>i. covers_at (D i) z y) (j # ups) = None" using r(3,4) nc by simp
      moreover have "\<exists>i. fl' < fl \<and> fd = Some i \<and> find (\<lambda>i. covers_at (D i) fl' y) (j # ups) = Some i \<and> fl' = row_left (D i) y \<and> t = glass_at (D i) x y"
        using r(5) cv nc True by auto
      ultimately show ?thesis using r(1,2,3) True unfolding e by (intro exI[of _ fd] exI[of _ t] exI[of _ fl']) auto
    next
      case False
      then have e: "find_section D x y xe None (j # ups) fl fo tr = find_section D x y xe None ups fl fo tr"
        using ahead sec by simp
      show ?thesis using ih[OF Cons.prems(3), of fo tr] nc False unfolding e by (auto 0 4 simp del: find_section.simps)
    qed
  qed
qed auto

section \<open>The strips of a row\<close>

text \<open>The searches from a column of which \<open>top_display\<close> is known.\<close>

lemma top_rev: "top_display s (as @ bs) x y = (case top_display s bs x y of None \<Rightarrow> top_display s as x y | Some i \<Rightarrow> Some i)"
  by (simp add: top_display_def find_append split: option.splits)

lemma search_hit:
  assumes "repr (links s) is" "displays_ok s is" "top_display s is x y = Some i"
  shows "find_display_section s y xe x None = Some (Some i, glass_at (displayAt s i) x y, x)"
  using find_section_hit[of "rev is" "displayAt s" x y i] walk_repr[OF assms(1)] assms(2,3)
  by (auto simp: find_display_section_def top_display_def displays_ok_def)

lemma search_miss:
  assumes "repr (links s) is" "displays_ok s is" "top_display s is x y = None" "x < xe"
  shows "\<exists>fd t nx. find_display_section s y xe x None = Some (fd, t, nx) \<and> x < nx \<and> nx \<le> xe \<and>
    (\<forall>z. x \<le> z \<and> z < nx \<longrightarrow> top_display s is z y = None) \<and>
    (fd = None \<and> nx = xe \<or> (\<exists>i. fd = Some i \<and> top_display s is nx y = Some i \<and> nx = row_left (displayAt s i) y \<and> t = glass_at (displayAt s i) x y))"
  using find_section_miss[of "rev is" "displayAt s" x y xe xe None False] walk_repr[OF assms(1)] assms(2,3,4)
  by (auto simp: find_display_section_def top_display_def displays_ok_def min_def split: if_splits)

lemma search_current:
  assumes r: "repr (links s) is" and ok: "displays_ok s is" and t: "top_display s is x y = Some i" and lt: "x < xe"
  shows "\<exists>fd t nx. find_display_section s y xe x (Some i) = Some (fd, t, nx) \<and> x < nx \<and> nx \<le> xe \<and>
    (\<forall>z. x \<le> z \<and> z < nx \<longrightarrow> top_display s is z y = Some i \<and> glass_at (displayAt s i) z y = glass_at (displayAt s i) x y) \<and>
    (fd = None \<or> nx = xe \<or>
     (\<exists>j. fd = Some j \<and> top_display s is nx y = Some j \<and> nx = row_left (displayAt s j) y \<and> t = glass_at (displayAt s j) x y))"
proof -
  obtain as bs where sp: "is = as @ i # bs" using top_display_in[OF t] split_list by fastforce
  have dist: "distinct (as @ i # bs)" using r sp by (simp add: repr_def)
  have c: "covers_at (displayAt s i) x y" "\<not> covered s bs x y" using t top_display_at[OF dist] sp by auto
  then have vis: "isVisible (displayAt s i)" and oki: "display_ok (displayAt s i)"
    using ok sp by (auto simp: covers_at_def displays_ok_def)
  let ?e = "section_end (displayAt s i) x y xe"
  note e = section_end_bounds[OF oki c(1) lt]
  have walk: "walk_prev (fst (links s)) (tail (snd (links s))) = Some (rev bs @ i # rev as)" using walk_repr[OF r] sp by simp
  have fs: "find_display_section s y xe x (Some i) = Some (find_section (displayAt s) x y xe None (rev bs) ?e None False)"
    using find_section_current[of i "rev bs" "displayAt s"] dist vis by (simp add: find_display_section_def walk)
  obtain fd t nx where f: "find_section (displayAt s) x y xe None (rev bs) ?e None False = (fd, t, min nx xe)" "x < nx" "nx \<le> ?e"
    "\<forall>z. x \<le> z \<and> z < nx \<longrightarrow> top_display s bs z y = None"
    "nx = ?e \<and> fd = None \<or> (\<exists>j. fd = Some j \<and> top_display s bs nx y = Some j \<and> nx = row_left (displayAt s j) y \<and> t = glass_at (displayAt s j) x y)"
    using find_section_miss[of "rev bs" "displayAt s" x y ?e xe None False] e(1) c(2) ok sp
    unfolding top_display_none[symmetric] by (auto simp: top_display_def displays_ok_def)
  have sec: "top_display s is z y = Some i \<and> glass_at (displayAt s i) z y = glass_at (displayAt s i) x y" if z: "x \<le> z" "z < nx" for z
  proof -
    have "covers_at (displayAt s i) z y" using z f(3) e(2) c(1) by (auto simp: covers_at_def)
    then show ?thesis using f(4) z e(3)[of z] f(3) top_display_at[OF dist] sp top_display_none by auto
  qed
  have up: "top_display s is nx y = Some j" if "top_display s bs nx y = Some j" for j
    using that top_rev[of s "as @ [i]" bs] sp by simp
  have last: "fd = None \<or> min nx xe = xe \<or> (\<exists>j. fd = Some j \<and> top_display s is (min nx xe) y = Some j \<and>
      min nx xe = row_left (displayAt s j) y \<and> t = glass_at (displayAt s j) x y)"
  proof (cases "nx < xe")
    case True
    then show ?thesis using f(5) up by auto
  qed simp
  show ?thesis
  proof (intro exI conjI)
    show "find_display_section s y xe x (Some i) = Some (fd, t, min nx xe)" by (simp only: fs f(1))
    show "x < min nx xe" "min nx xe \<le> xe" using f(2) lt by simp_all
    show "\<forall>z. x \<le> z \<and> z < min nx xe \<longrightarrow> top_display s is z y = Some i \<and> glass_at (displayAt s i) z y = glass_at (displayAt s i) x y"
    proof (intro allI impI)
      fix z assume "x \<le> z \<and> z < min nx xe"
      then have "x \<le> z" "z < nx" by simp_all
      then show "top_display s is z y = Some i \<and> glass_at (displayAt s i) z y = glass_at (displayAt s i) x y" by (rule sec)
    qed
  qed (rule last)
qed

definition stack_ok :: "desk \<Rightarrow> nat list \<Rightarrow> bool" where
  "stack_ok s is \<longleftrightarrow> repr (links s) is \<and> displays_ok s is \<and> (\<forall>i \<in> set is. corners_ok (displayAt s i))"

lemma ahead_glass:
  assumes "stack_ok s is" "top_display s is (row_left (displayAt s j) y) y = Some j" "x < row_left (displayAt s j) y"
    "glass_at (displayAt s j) (row_left (displayAt s j) y) y"
  shows "glass_at (displayAt s j) x y"
  using glass_ahead[OF _ _ assms(3,4)] top_display_in[OF assms(2)] assms(1) by (auto simp: stack_ok_def displays_ok_def covers_at_def)

text \<open>The loop ends, its strips show one display each, and they take in every transparent pixel of the row.\<close>

definition strips_ok :: "desk \<Rightarrow> nat list \<Rightarrow> int \<Rightarrow> int \<Rightarrow> int \<Rightarrow> (nat \<times> int \<times> int) list \<Rightarrow> bool" where
  "strips_ok s is y x xe rs \<longleftrightarrow>
     (\<forall>(i, l, r) \<in> set rs. x \<le> l \<and> l < r \<and> r \<le> xe \<and> (\<forall>z. l \<le> z \<and> z < r \<longrightarrow> top_display s is z y = Some i)) \<and>
     (\<forall>z i. x \<le> z \<and> z < xe \<and> top_display s is z y = Some i \<and> glass_at (displayAt s i) z y \<longrightarrow>
       (\<exists>(j, l, r) \<in> set rs. l \<le> z \<and> z < r))"

lemma strips_ok_empty: "xe \<le> x \<or> (\<forall>z. x \<le> z \<and> z < xe \<longrightarrow> top_display s is z y = None) \<Longrightarrow> strips_ok s is y x xe []"
  by (auto simp: strips_ok_def)

lemma strips_ok_skip:
  assumes "strips_ok s is y nx xe rs" "x < nx" "\<forall>z. x \<le> z \<and> z < nx \<longrightarrow> top_display s is z y = None"
  shows "strips_ok s is y x xe rs"
proof -
  have "nx \<le> z" if "x \<le> z" "top_display s is z y = Some i" for z i using assms(3) that by (cases "z < nx") auto
  then show ?thesis using assms(1,2) unfolding strips_ok_def by fastforce
qed

lemma strips_ok_section:
  assumes "strips_ok s is y nx xe rs" "x < nx" "nx \<le> xe"
    and sec: "\<forall>z. x \<le> z \<and> z < nx \<longrightarrow> top_display s is z y = Some i \<and> glass_at (displayAt s i) z y = g" and g: "g \<longrightarrow> tr"
  shows "strips_ok s is y x xe (if tr then (i, x, nx) # rs else rs)"
  unfolding strips_ok_def
proof (intro conjI allI impI)
  show "\<forall>(i, l, r) \<in> set (if tr then (i, x, nx) # rs else rs). x \<le> l \<and> l < r \<and> r \<le> xe \<and> (\<forall>z. l \<le> z \<and> z < r \<longrightarrow> top_display s is z y = Some i)"
  proof -
    have "x \<le> l \<and> l < r \<and> r \<le> xe \<and> (\<forall>z. l \<le> z \<and> z < r \<longrightarrow> top_display s is z y = Some j)" if "(j, l, r) \<in> set rs" for j l r
      using assms(1,2) that unfolding strips_ok_def by fastforce
    moreover have "\<forall>z. x \<le> z \<and> z < nx \<longrightarrow> top_display s is z y = Some i" using sec by blast
    ultimately show ?thesis using assms(2,3) by (cases tr) (auto simp only: set_simps prod.case insert_iff if_True if_False order_refl)
  qed
next
  fix z j assume z: "x \<le> z \<and> z < xe \<and> top_display s is z y = Some j \<and> glass_at (displayAt s j) z y"
  show "\<exists>(j, l, r) \<in> set (if tr then (i, x, nx) # rs else rs). l \<le> z \<and> z < r"
  proof (cases "z < nx")
    case True
    then have tr using sec g z by auto
    then show ?thesis using True z by auto
  next
    case False
    then show ?thesis using assms(1) z unfolding strips_ok_def by fastforce
  qed
qed

lemma row_strips_spec:
  assumes ok: "stack_ok s is"
  shows "(\<forall>i. disp = Some i \<and> x < xe \<longrightarrow> top_display s is x y = Some i \<and> (glass_at (displayAt s i) x y \<longrightarrow> tr)) \<Longrightarrow>
    \<exists>rs. row_strips (find_display_section s y xe) xe ((disp, tr), x) = Some rs \<and> strips_ok s is y x xe rs"
proof (induction "2 * nat (xe - x) + (if disp = None then 1 else 0)" arbitrary: disp tr x rule: less_induct)
  case less
  have r: "repr (links s) is" and dok: "displays_ok s is" using ok by (auto simp: stack_ok_def)
  show ?case
  proof (cases "x < xe")
    case False
    then show ?thesis by (simp add: row_strips.simps strips_ok_empty)
  next
    case lt: True
    show ?thesis
    proof (cases disp)
      case None
      show ?thesis
      proof (cases "top_display s is x y")
        case (Some i)
        have "\<forall>j. Some i = Some j \<and> x < xe \<longrightarrow> top_display s is x y = Some j \<and>
            (glass_at (displayAt s j) x y \<longrightarrow> glass_at (displayAt s i) x y)" using Some by simp
        then show ?thesis
          using less.hyps[of x "Some i" "glass_at (displayAt s i) x y"] None lt search_hit[OF r dok Some, of xe]
          by (subst row_strips.simps) simp
      next
        case miss: None
        obtain fd t nx where f: "find_display_section s y xe x None = Some (fd, t, nx)" "x < nx" "nx \<le> xe"
          "\<forall>z. x \<le> z \<and> z < nx \<longrightarrow> top_display s is z y = None"
          "fd = None \<and> nx = xe \<or> (\<exists>i. fd = Some i \<and> top_display s is nx y = Some i \<and> nx = row_left (displayAt s i) y \<and> t = glass_at (displayAt s i) x y)"
          using search_miss[OF r dok miss lt] by blast
        show ?thesis
        proof (cases fd)
          case N: None
          then have "row_strips (find_display_section s y xe) xe ((disp, tr), x) = Some []"
            using lt f(1) None by (subst row_strips.simps) simp
          moreover have "nx = xe" using N f(5) by simp
          ultimately show ?thesis using strips_ok_empty f(4) by auto
        next
          case (Some i)
          then have i: "top_display s is nx y = Some i" "nx = row_left (displayAt s i) y" "t = glass_at (displayAt s i) x y" using f(5) by auto
          have inv: "\<forall>j. fd = Some j \<and> nx < xe \<longrightarrow> top_display s is nx y = Some j \<and> (glass_at (displayAt s j) nx y \<longrightarrow> t)"
            using i ahead_glass[OF ok, of i y x] f(2) Some by auto
          have m: "2 * nat (xe - nx) + (if fd = None then 1 else 0) < 2 * nat (xe - x) + (if disp = None then 1 else 0)"
            using None Some lt f(2,3) by auto
          obtain rs where rs: "row_strips (find_display_section s y xe) xe ((fd, t), nx) = Some rs" "strips_ok s is y nx xe rs"
            using less.hyps[OF m inv] by blast
          have "row_strips (find_display_section s y xe) xe ((disp, tr), x) = Some rs"
            using lt f(1) None Some rs(1) by (subst row_strips.simps) simp
          then show ?thesis using strips_ok_skip[OF rs(2) f(2,4)] by blast
        qed
      qed
    next
      case (Some i)
      then have ti: "top_display s is x y = Some i" and gl: "glass_at (displayAt s i) x y \<longrightarrow> tr" using less.prems lt by auto
      obtain fd t nx where f: "find_display_section s y xe x (Some i) = Some (fd, t, nx)" "x < nx" "nx \<le> xe"
        "\<forall>z. x \<le> z \<and> z < nx \<longrightarrow> top_display s is z y = Some i \<and> glass_at (displayAt s i) z y = glass_at (displayAt s i) x y"
        "fd = None \<or> nx = xe \<or>
         (\<exists>j. fd = Some j \<and> top_display s is nx y = Some j \<and> nx = row_left (displayAt s j) y \<and> t = glass_at (displayAt s j) x y)"
        using search_current[OF r dok ti lt] by blast
      have inv: "\<forall>j. fd = Some j \<and> nx < xe \<longrightarrow> top_display s is nx y = Some j \<and> (glass_at (displayAt s j) nx y \<longrightarrow> t)"
        using f(2,5) ahead_glass[OF ok, of _ y x] by auto
      have m: "2 * nat (xe - nx) + (if fd = None then 1 else 0) < 2 * nat (xe - x) + (if disp = None then 1 else 0)"
        using Some lt f(2,3) by auto
      obtain rs where rs: "row_strips (find_display_section s y xe) xe ((fd, t), nx) = Some rs" "strips_ok s is y nx xe rs"
        using less.hyps[OF m inv] by blast
      have "row_strips (find_display_section s y xe) xe ((disp, tr), x) = Some (if tr then (i, x, nx) # rs else rs)"
        using lt f(1) Some rs(1) by (subst row_strips.simps) simp
      then show ?thesis using strips_ok_section[OF rs(2) f(2,3,4) gl] by blast
    qed
  qed
qed

end
