(* ===== verification/Picture.thy ===== *)
theory Picture
  imports Transparency
begin

unbundle bit_operations_syntax

text \<open>
  The whole picture: what \<^verbatim>\<open>_update_area\<close> of \<^verbatim>\<open>drivers/DisplayManager.cpp\<close>, the solid pass and then the transparent one, leaves
  on the framebuffers, and how light adds up when displays are blended.
\<close>

section \<open>Everything that is read is there\<close>

lemma read_view_some: "display_ok d \<Longrightarrow> covers_at d x y \<Longrightarrow> \<exists>c. read_view d x y = Some c"
  using view_readable_inside[of d "x - posX d" "y - posY d"] ok_left[of d y]
  by (auto simp: read_view_def view_readable_def cell_get_def covers_at_def in_rows_def)

lemma blend_down_some:
  "\<forall>d \<in> set ds. isVisible d \<longrightarrow> display_ok d \<Longrightarrow> sample_background w y \<noteq> None \<Longrightarrow> \<exists>c. blend_down ord w x y ds r g b vis = Some c"
proof (induction ds arbitrary: r g b vis)
  case (Cons d ds)
  show ?case
  proof (cases "covers_at d x y")
    case True
    then have "display_ok d" using Cons.prems by (simp add: covers_at_def)
    from read_view_some[OF this True] Cons True show ?thesis by (auto simp: Let_def)
  qed (use Cons in simp)
qed auto

lemma strip_pixel_some:
  assumes r: "repr (links s) is" and ok: "displays_ok s is" and t: "top_display s is x y = Some i" and bg: "sample_background (totalArea s) y \<noteq> None"
  shows "\<exists>c. strip_pixel ord s i x y = Some c"
proof -
  obtain as bs where sp: "is = as @ i # bs" using top_display_in[OF t] split_list by fastforce
  have low: "lower_displays s i = Some (map (displayAt s) (rev as))" using walk_repr_at(2)[of "links s" as i bs] r sp by (simp add: lower_displays_def)
  have c: "covers_at (displayAt s i) x y" using top_display_in[OF t] by simp
  then obtain v where v: "read_view (displayAt s i) x y = Some v"
    using read_view_some ok sp by (fastforce simp: covers_at_def displays_ok_def)
  have "\<exists>c. calculate_blending ord (totalArea s) x y (map (displayAt s) (rev as)) = Some c"
    unfolding calculate_blending_def by (rule blend_down_some[OF _ bg]) (use ok sp in \<open>auto simp: displays_ok_def\<close>)
  then show ?thesis using c v by (auto simp: strip_pixel_def low transparent_pixel_def sample_at_def)
qed

section \<open>Drawing strips\<close>

lemma put_cells_effect:
  "0 \<le> t \<Longrightarrow> t + int n \<le> int (length cs) \<Longrightarrow> (\<forall>j. 0 \<le> j \<and> j < int n \<longrightarrow> f (x + j) \<noteq> None) \<Longrightarrow>
    \<exists>cs'. put_cells f x t n cs = Some cs' \<and> overwritten t n (\<lambda>j. the (f (x + j))) cs cs'"
proof (induction n arbitrary: x t cs)
  case (Suc n)
  from Suc.prems(3)[rule_format, of 0] obtain v where v: "f x = Some v" by auto
  have st: "cell_set t v cs = Some (cs[nat t := v])" using Suc.prems(1,2) by (simp add: cell_set_def)
  have rd: "\<forall>j. 0 \<le> j \<and> j < int n \<longrightarrow> f (x + 1 + j) \<noteq> None"
  proof (intro allI impI)
    fix j :: int assume "0 \<le> j \<and> j < int n"
    then show "f (x + 1 + j) \<noteq> None" using Suc.prems(3)[rule_format, of "j + 1"] by (simp add: algebra_simps)
  qed
  obtain cs' where b: "put_cells f (x + 1) (t + 1) n (cs[nat t := v]) = Some cs'"
    "overwritten (t + 1) n (\<lambda>j. the (f (x + 1 + j))) (cs[nat t := v]) cs'"
    using Suc.IH[of "t + 1" "cs[nat t := v]" "x + 1"] Suc.prems(1,2) rd by auto
  have "overwritten t (Suc n) (\<lambda>j. the (f (x + j))) cs cs'"
    by (rule overwritten_step) (use b Suc.prems(1,2) v in \<open>simp_all add: algebra_simps\<close>)
  then show ?case using st v b by simp
qed (simp add: overwritten_none)

interpretation strip: run_painter "strip_run ord s i at" "x1 at" "y1 at" "\<lambda>x y. the (strip_pixel ord s i x y)"
  "\<lambda>x y. strip_pixel ord s i x y \<noteq> None" for ord s i at
proof unfold_locales
  fix b y l r
  assume sh: "shaped b" and y: "0 \<le> y - y1 at" "y - y1 at < uint (bheight b)"
    and x: "0 \<le> l - x1 at" "l < r" "r - x1 at \<le> uint (bwidth b)" and rd: "\<forall>x. l \<le> x \<and> x < r \<longrightarrow> strip_pixel ord s i x y \<noteq> None"
  obtain cs where cs: "cells b = Some cs" using sh by (auto simp: shaped_def)
  let ?t = "(y - y1 at) * int (pitch b) + (l - x1 at)"
  have "inside b (l - x1 at) (y - y1 at)" "inside b (r - 1 - x1 at) (y - y1 at)" using x y by (auto simp: inside_def)
  from pixel_index[OF sh this(1) cs] pixel_index[OF sh this(2) cs]
  have t: "0 \<le> ?t" "?t + int (nat (r - l)) \<le> int (length cs)" using x by auto
  have "\<forall>j. 0 \<le> j \<and> j < int (nat (r - l)) \<longrightarrow> strip_pixel ord s i (l + j) y \<noteq> None" using rd by auto
  from put_cells_effect[OF t this] obtain cs' where b: "put_cells (\<lambda>x. strip_pixel ord s i x y) l ?t (nat (r - l)) cs = Some cs'"
    "overwritten ?t (nat (r - l)) (\<lambda>j. the (strip_pixel ord s i (l + j) y)) cs cs'" by blast
  have "l - x1 at < r - x1 at" "nat (r - l) = nat ((r - x1 at) - (l - x1 at))" using x by simp_all
  from run_paints[OF sh cs y x(1) this(1) x(3) b(2)[unfolded this(2)]]
  have "paints (\<lambda>x' y'. y' = y - y1 at \<and> l - x1 at \<le> x' \<and> x' < r - x1 at)
      (\<lambda>x' y'. the (strip_pixel ord s i (x' + x1 at) (y' + y1 at))) b (b\<lparr>cells := Some cs'\<rparr>)"
    by (rule paints_cong) (simp_all add: algebra_simps)
  moreover have "strip_run ord s i at y l r b = Some (b\<lparr>cells := Some cs'\<rparr>)" using b(1) by (simp add: strip_run_def cs)
  ultimately show "\<exists>b'. strip_run ord s i at y l r b = Some b' \<and>
      paints (\<lambda>x' y'. y' = y - y1 at \<and> l - x1 at \<le> x' \<and> x' < r - x1 at)
        (\<lambda>x' y'. the (strip_pixel ord s i (x' + x1 at) (y' + y1 at))) b b'" by blast
qed

text \<open>What stands at a pixel inside a strip.\<close>

definition top_glass :: "order \<Rightarrow> desk \<Rightarrow> nat list \<Rightarrow> int \<Rightarrow> int \<Rightarrow> u32" where
  "top_glass ord s is x y = (case top_display s is x y of None \<Rightarrow> 0 | Some i \<Rightarrow> the (strip_pixel ord s i x y))"

definition in_strip :: "(nat \<times> int \<times> int) list \<Rightarrow> int \<Rightarrow> bool" where
  "in_strip rs x \<longleftrightarrow> (\<exists>(i, l, r) \<in> set rs. l \<le> x \<and> x < r)"

lemma paint_strips_effect:
  assumes ok: "stack_ok s is" and bg: "sample_background (totalArea s) y \<noteq> None"
  shows "shaped b \<Longrightarrow> 0 \<le> y - y1 at \<Longrightarrow> y - y1 at < uint (bheight b) \<Longrightarrow>
    (\<forall>(i, l, r) \<in> set rs. x1 at \<le> l \<and> l < r \<and> r - x1 at \<le> uint (bwidth b) \<and> (\<forall>z. l \<le> z \<and> z < r \<longrightarrow> top_display s is z y = Some i)) \<Longrightarrow>
    \<exists>b'. paint_strips (\<lambda>i. strip_run ord s i at y) rs b = Some b' \<and>
      paints (\<lambda>x' y'. y' = y - y1 at \<and> in_strip rs (x' + x1 at)) (\<lambda>x' y'. top_glass ord s is (x' + x1 at) (y' + y1 at)) b b'"
proof (induction rs arbitrary: b)
  case Nil
  then show ?case by (auto intro: paints_none simp: in_strip_def)
next
  case (Cons p rs)
  obtain i l r where p: "p = (i, l, r)" by (cases p)
  have x: "0 \<le> l - x1 at" "l < r" "r - x1 at \<le> uint (bwidth b)" and t: "\<forall>z. l \<le> z \<and> z < r \<longrightarrow> top_display s is z y = Some i"
    using Cons.prems(4) p by auto
  have "repr (links s) is" "displays_ok s is" using ok by (auto simp: stack_ok_def)
  then have rd: "\<forall>z. l \<le> z \<and> z < r \<longrightarrow> strip_pixel ord s i z y \<noteq> None" using strip_pixel_some[OF _ _ _ bg] t by fastforce
  obtain b1 where b1: "strip_run ord s i at y l r b = Some b1"
    "paints (\<lambda>x' y'. y' = y - y1 at \<and> l - x1 at \<le> x' \<and> x' < r - x1 at) (\<lambda>x' y'. the (strip_pixel ord s i (x' + x1 at) (y' + y1 at))) b b1"
    using strip.put[OF Cons.prems(1-3) x rd] by blast
  have b1': "paints (\<lambda>x' y'. y' = y - y1 at \<and> l - x1 at \<le> x' \<and> x' < r - x1 at) (\<lambda>x' y'. top_glass ord s is (x' + x1 at) (y' + y1 at)) b b1"
    using b1(2)
  proof (rule paints_cong)
    fix x' y' assume "y' = y - y1 at \<and> l - x1 at \<le> x' \<and> x' < r - x1 at"
    then have "top_display s is (x' + x1 at) (y' + y1 at) = Some i" using t by simp
    then show "the (strip_pixel ord s i (x' + x1 at) (y' + y1 at)) = top_glass ord s is (x' + x1 at) (y' + y1 at)"
      by (simp add: top_glass_def)
  qed simp
  have "shaped b1" "bwidth b1 = bwidth b" "bheight b1 = bheight b" using b1(2) by (auto simp: paints_def)
  then obtain b2 where b2: "paint_strips (\<lambda>i. strip_run ord s i at y) rs b1 = Some b2"
    "paints (\<lambda>x' y'. y' = y - y1 at \<and> in_strip rs (x' + x1 at)) (\<lambda>x' y'. top_glass ord s is (x' + x1 at) (y' + y1 at)) b1 b2"
    using Cons.IH[of b1] Cons.prems by auto
  have "paints (\<lambda>x' y'. y' = y - y1 at \<and> in_strip (p # rs) (x' + x1 at)) (\<lambda>x' y'. top_glass ord s is (x' + x1 at) (y' + y1 at)) b b2"
    by (rule paints_more[OF b1' b2(2)]) (auto simp: in_strip_def p)
  then show ?case using b1(1) b2(1) by (auto simp: p)
qed

section \<open>The transparent pass\<close>

definition uniform :: "order \<Rightarrow> desk \<Rightarrow> bool" where
  "uniform ord s \<longleftrightarrow> (\<forall>fb \<in> set (framebuffers s). \<forall>b. fbBuffer fb = Some b \<longrightarrow> border b = ord)"

definition transparency_rule :: "order \<Rightarrow> desk \<Rightarrow> nat list \<Rightarrow> rect \<Rightarrow> int \<Rightarrow> int \<Rightarrow> u32 \<Rightarrow> u32 \<Rightarrow> bool" where
  "transparency_rule ord s is rect x y c c' \<longleftrightarrow>
     (case top_display s is x y of
        None \<Rightarrow> c' = c
      | Some i \<Rightarrow>
          if rect_contains rect x y then c' = the (strip_pixel ord s i x y) \<or> c' = c \<and> solid_at (displayAt s i) x y
          else c' = c)"

definition strips_of :: "desk \<Rightarrow> rect \<Rightarrow> int \<Rightarrow> (nat \<times> int \<times> int) list" where
  "strips_of s q y = the (row_strips (find_display_section s y (x2 q)) (x2 q) ((None, False), x1 q))"

lemma strips_of_ok:
  assumes "stack_ok s is"
  shows "row_strips (find_display_section s y (x2 q)) (x2 q) ((None, False), x1 q) = Some (strips_of s q y)"
    and "strips_ok s is y (x1 q) (x2 q) (strips_of s q y)"
  using row_strips_spec[OF assms, of None "x1 q" "x2 q" y False] by (auto simp: strips_of_def)

lemma transparent_row_effect:
  assumes ok: "stack_ok s is" and bg: "sample_background (totalArea s) y \<noteq> None" and sh: "shaped b" "border b = ord"
    and y: "0 \<le> y - y1 at" "y - y1 at < uint (bheight b)" and x: "x1 q < x2 q \<longrightarrow> x1 at \<le> x1 q \<and> x2 q - x1 at \<le> uint (bwidth b)"
  shows "\<exists>b'. transparent_row s at q y b = Some b' \<and>
    paints (\<lambda>x' y'. y' = y - y1 at \<and> in_strip (strips_of s q y) (x' + x1 at)) (\<lambda>x' y'. top_glass ord s is (x' + x1 at) (y' + y1 at)) b b'"
proof -
  have "\<forall>(i, l, r) \<in> set (strips_of s q y). x1 at \<le> l \<and> l < r \<and> r - x1 at \<le> uint (bwidth b) \<and>
      (\<forall>z. l \<le> z \<and> z < r \<longrightarrow> top_display s is z y = Some i)"
    using strips_of_ok(2)[OF ok, of y q] x unfolding strips_ok_def by fastforce
  from paint_strips_effect[OF ok bg sh(1) y this, of ord] show ?thesis
    by (simp add: transparent_row_def sh(2) strips_of_ok(1)[OF ok])
qed

lemma strip_rule:
  assumes ok: "stack_ok s is" and x: "x1 q \<le> x \<and> x < x2 q \<longleftrightarrow> x1 rect \<le> x \<and> x < x2 rect" and y: "P \<longleftrightarrow> y1 rect \<le> y \<and> y < y2 rect"
  shows "transparency_rule ord s is rect x y c (if P \<and> in_strip (strips_of s q y) x then top_glass ord s is x y else c)"
proof -
  note so = strips_of_ok(2)[OF ok, of y q, unfolded strips_ok_def]
  have ins: "\<exists>i. top_display s is x y = Some i \<and> x1 q \<le> x \<and> x < x2 q" if "in_strip (strips_of s q y) x"
    using that so by (fastforce simp: in_strip_def)
  have gl: "in_strip (strips_of s q y) x" if "x1 q \<le> x" "x < x2 q" "top_display s is x y = Some i" "\<not> solid_at (displayAt s i) x y" for i
  proof -
    have "covers_at (displayAt s i) x y" "display_ok (displayAt s i)"
      using top_display_in[OF that(3)] ok by (auto simp: stack_ok_def displays_ok_def covers_at_def)
    then have "glass_at (displayAt s i) x y" using glass_solid that(4) by blast
    then show ?thesis using so that by (auto simp: in_strip_def)
  qed
  show ?thesis
    using ins gl x y by (auto simp: transparency_rule_def top_glass_def rect_contains_def split: option.splits)
qed

lemma update_area_transparency_effect:
  assumes ok: "stack_ok s is" and scr: "screen_ok s" and un: "uniform ord s"
  shows "\<exists>s'. update_area_transparency rect s = Some s' \<and> redraws (transparency_rule ord s is rect) s s'"
proof -
  let ?w = "totalArea s"
  have "\<exists>fbs. each_buffer (\<lambda>at b. let rect = rect_intersect rect at
      in paint_rows (transparent_row s at rect) (y1 rect) (nat (y2 rect - y1 rect)) b) (framebuffers s) = Some fbs \<and>
      redraws (transparency_rule ord s is rect) s (s\<lparr>framebuffers := fbs\<rparr>)"
  proof (rule each_buffer_redraws[OF scr])
    fix fb b assume fb: "fb \<in> set (framebuffers s)" and b: "fbBuffer fb = Some b"
    let ?at = "area fb" and ?q = "rect_intersect rect (area fb)"
    let ?v = "top_glass ord s is" and ?Q = "\<lambda>y x'. in_strip (strips_of s ?q y) (x' + x1 ?at)"
    have sz: "shaped b" "x2 ?at - x1 ?at = uint (bwidth b)" "y2 ?at - y1 ?at = uint (bheight b)"
      "y1 ?w \<le> y1 ?at" "y2 ?at \<le> y2 ?w" "y2 ?w - y1 ?w < 16777216" "border b = ord"
      using scr un fb b by (auto simp: screen_ok_def uniform_def)
    define same where "same c \<longleftrightarrow> shaped c \<and> border c = ord \<and> bwidth c = bwidth b \<and> bheight c = bheight b" for c
    have cols: "x1 ?q < x2 ?q \<longrightarrow> x1 ?at \<le> x1 ?q \<and> x2 ?q - x1 ?at \<le> uint (bwidth b)"
      using intersect_cols[of rect ?at "x1 ?q"] intersect_cols[of rect ?at "x2 ?q - 1"] sz(2) by auto
    have "\<exists>b'. paint_rows (transparent_row s ?at ?q) (y1 ?q) (nat (y2 ?q - y1 ?q)) b = Some b' \<and>
        paints (\<lambda>x' y'. y1 ?q \<le> y' + y1 ?at \<and> y' + y1 ?at < y1 ?q + int (nat (y2 ?q - y1 ?q)) \<and> ?Q (y' + y1 ?at) x')
          (\<lambda>x' y'. ?v (x' + x1 ?at) (y' + y1 ?at)) b b'"
    proof (rule paint_rows_effect[where ok = same])
      fix y c assume c: "same c" and y: "y1 ?q \<le> y" "y < y1 ?q + int (nat (y2 ?q - y1 ?q))"
      from y have "y1 ?q \<le> y \<and> y < y1 ?q + int (nat (y2 ?q - y1 ?q))" by blast
      then have at: "y1 ?at \<le> y" "y < y2 ?at" unfolding rows_between intersect_rows by blast+
      then have "sample_background ?w y \<noteq> None" using sample_some[of ?w y] sz by simp
      then show "\<exists>b'. transparent_row s ?at ?q y c = Some b' \<and>
          paints (\<lambda>x' y'. y' = y - y1 ?at \<and> ?Q y x') (\<lambda>x' y'. ?v (x' + x1 ?at) (y' + y1 ?at)) c b'"
        using transparent_row_effect[OF ok, of y c ord ?at ?q] c at cols sz(3) by (simp add: same_def)
    qed (use sz in \<open>auto simp: same_def paints_def\<close>)
    moreover have "transparency_rule ord s is rect x y c
        (if y1 ?q \<le> y \<and> y < y1 ?q + int (nat (y2 ?q - y1 ?q)) \<and> in_strip (strips_of s ?q y) x then ?v x y else c)"
      if at: "x1 ?at \<le> x \<and> x < x2 ?at \<and> y1 ?at \<le> y \<and> y < y2 ?at" for x y c
    proof -
      have "y1 ?q \<le> y \<and> y < y1 ?q + int (nat (y2 ?q - y1 ?q)) \<longleftrightarrow> y1 rect \<le> y \<and> y < y2 rect"
        unfolding rows_between intersect_rows using at by auto
      moreover have "x1 ?q \<le> x \<and> x < x2 ?q \<longleftrightarrow> x1 rect \<le> x \<and> x < x2 rect" unfolding intersect_cols using at by auto
      ultimately show ?thesis using strip_rule[OF ok] by (simp only: conj_assoc[symmetric])
    qed
    ultimately show "\<exists>b' P v. (let rect = rect_intersect rect ?at
        in paint_rows (transparent_row s ?at rect) (y1 rect) (nat (y2 rect - y1 rect)) b) = Some b' \<and>
        paints (\<lambda>x y. P (x + x1 ?at) (y + y1 ?at)) (\<lambda>x y. v (x + x1 ?at) (y + y1 ?at)) b b' \<and>
        (\<forall>x y c. x1 ?at \<le> x \<and> x < x2 ?at \<and> y1 ?at \<le> y \<and> y < y2 ?at \<longrightarrow>
          transparency_rule ord s is rect x y c (if P x y then v x y else c))"
      unfolding Let_def
      by (elim exE conjE) (intro exI conjI, assumption, assumption, blast)
  qed
  then show ?thesis unfolding update_area_transparency_def by (auto simp: Let_def)
qed

section \<open>Both passes\<close>

lemma redraws_uniform:
  assumes "redraws R s s'" and "uniform ord s"
  shows "uniform ord s'"
proof -
  show ?thesis using assms(2) redraws_from[OF assms(1)] unfolding uniform_def fb_redrawn_def by (fastforce split: option.splits)
qed

lemma redraws_stack:
  assumes "redraws R s s'"
  shows "stack_ok s' = stack_ok s" "transparency_rule ord s' = transparency_rule ord s"
proof -
  note e = redraws_same[OF assms]
  show "stack_ok s' = stack_ok s" unfolding stack_ok_def displays_ok_def e ..
  show "transparency_rule ord s' = transparency_rule ord s"
    unfolding transparency_rule_def top_display_def strip_pixel_def lower_displays_def e ..
qed

definition area_rule :: "order \<Rightarrow> desk \<Rightarrow> nat list \<Rightarrow> nat list \<Rightarrow> rect \<Rightarrow> int \<Rightarrow> int \<Rightarrow> u32 \<Rightarrow> u32 \<Rightarrow> bool" where
  "area_rule ord s is drawn rect x y c c' \<longleftrightarrow>
     (if \<not> rect_contains rect x y then c' = c
      else
        (case top_display s is x y of
           None \<Rightarrow> Some c' = sample_background (totalArea s) y \<or> c' = c \<and> \<not> left_to_right y (map (displayAt s) is)
         | Some i \<Rightarrow>
             c' = the (strip_pixel ord s i x y) \<or>
             solid_at (displayAt s i) x y \<and> c' = (if i \<in> set drawn then screen_pixel (displayAt s i) x y else c)))"

lemma update_area_effect:
  assumes ok: "stack_ok s is" and scr: "screen_ok s" and un: "uniform ord s"
  shows "\<exists>s'. update_area rect below s = Some s' \<and>
    redraws (area_rule ord s is (takeWhile (\<lambda>i. Some i \<noteq> below) is) rect) s s'"
proof -
  let ?dr = "takeWhile (\<lambda>i. Some i \<noteq> below) is"
  have r: "repr (links s) is" "displays_ok s is" using ok by (auto simp: stack_ok_def)
  obtain s1 where s1: "update_area_solid rect below s = Some s1" "redraws (picture_rule s is ?dr rect) s s1"
    using update_area_solid_effect[OF r(1) scr r(2)] by blast
  have "stack_ok s1 is" using ok redraws_stack(1)[OF s1(2)] by simp
  from update_area_transparency_effect[OF this redraws_screen_ok[OF s1(2) scr] redraws_uniform[OF s1(2) un]]
  obtain s2 where s2: "update_area_transparency rect s1 = Some s2" "redraws (transparency_rule ord s is rect) s1 s2"
    unfolding redraws_stack(2)[OF s1(2)] by blast
  have "area_rule ord s is ?dr rect x y c c2" if "picture_rule s is ?dr rect x y c c1" "transparency_rule ord s is rect x y c1 c2" for x y c c1 c2
    using that by (auto simp: area_rule_def picture_rule_def transparency_rule_def split: option.splits if_splits)
  from redraws_trans[OF s1(2) s2(2) this] show ?thesis using s1(1) s2(1) by (auto simp: update_area_def)
qed

lemma opaque_strip:
  assumes ok: "stack_ok s is" and t: "top_display s is x y = Some i" and o: "drop_bit 24 (screen_pixel (displayAt s i) x y) = 0"
  shows "strip_pixel ord s i x y = Some (screen_pixel (displayAt s i) x y)"
proof -
  obtain as bs where sp: "is = as @ i # bs" using top_display_in[OF t] split_list by fastforce
  have r: "repr (links s) is" using ok by (simp add: stack_ok_def)
  have low: "lower_displays s i = Some (map (displayAt s) (rev as))" using walk_repr_at(2)[of "links s" as i bs] r sp by (simp add: lower_displays_def)
  have c: "covers_at (displayAt s i) x y" using top_display_in[OF t] by simp
  moreover have "display_ok (displayAt s i)" using ok sp c by (auto simp: stack_ok_def displays_ok_def covers_at_def)
  ultimately obtain v where v: "read_view (displayAt s i) x y = Some v" using read_view_some by blast
  then have "screen_pixel (displayAt s i) x y = v"
    by (auto simp: read_view_def cell_get_def screen_pixel_def view_pixel_def split: option.splits if_splits)
  then show ?thesis using c v o by (simp add: strip_pixel_def low transparent_pixel_def sample_at_def)
qed

text \<open>What the manager is to show: the display on top, its solid pixels as they are and the others over what is below.\<close>

definition shown_pixel :: "order \<Rightarrow> desk \<Rightarrow> nat \<Rightarrow> int \<Rightarrow> int \<Rightarrow> u32" where
  "shown_pixel ord s i x y =
     (if solid_at (displayAt s i) x y then screen_pixel (displayAt s i) x y else the (strip_pixel ord s i x y))"

definition opaque_solids :: "desk \<Rightarrow> nat list \<Rightarrow> bool" where
  "opaque_solids s is \<longleftrightarrow> (\<forall>i \<in> set is. \<forall>x y. solid_at (displayAt s i) x y \<longrightarrow> drop_bit 24 (screen_pixel (displayAt s i) x y) = 0)"

definition shown_rule :: "order \<Rightarrow> desk \<Rightarrow> nat list \<Rightarrow> rect \<Rightarrow> int \<Rightarrow> int \<Rightarrow> u32 \<Rightarrow> u32 \<Rightarrow> bool" where
  "shown_rule ord s is rect x y c c' \<longleftrightarrow>
     (if \<not> rect_contains rect x y then c' = c
      else
        (case top_display s is x y of
           None \<Rightarrow> Some c' = sample_background (totalArea s) y \<or> c' = c \<and> \<not> left_to_right y (map (displayAt s) is)
         | Some i \<Rightarrow> c' = shown_pixel ord s i x y))"

lemma update_area_shows:
  assumes "stack_ok s is" "screen_ok s" "uniform ord s" "opaque_solids s is"
  shows "\<exists>s'. update_area rect None s = Some s' \<and> redraws (shown_rule ord s is rect) s s'"
proof -
  obtain s' where s': "update_area rect None s = Some s'" "redraws (area_rule ord s is is rect) s s'"
    using update_area_effect[OF assms(1-3), of rect None] by (auto simp: takeWhile_eq_all_conv[THEN iffD2])
  have "shown_rule ord s is rect x y c c'" if "area_rule ord s is is rect x y c c'" for x y c c'
  proof (cases "rect_contains rect x y")
    case True
    show ?thesis
    proof (cases "top_display s is x y")
      case None
      then show ?thesis using that True by (simp add: area_rule_def shown_rule_def)
    next
      case (Some i)
      have "i \<in> set is" using top_display_in[OF Some] by simp
      then show ?thesis using that True Some opaque_strip[OF assms(1) Some, of ord] assms(4)
        by (auto simp: area_rule_def shown_rule_def shown_pixel_def opaque_solids_def)
    qed
  qed (use that in \<open>simp add: area_rule_def shown_rule_def\<close>)
  then show ?thesis using s' redraws_weaken by blast
qed

section \<open>Light adds up\<close>

text \<open>A colour whose channels are multiplied by its opacity already, and blending with plain sums.\<close>

definition premultiplied :: "order \<Rightarrow> u32 \<Rightarrow> bool" where
  "premultiplied ord c \<longleftrightarrow> (\<forall>k \<in> {red_shift ord, green_shift ord, blue_shift ord}. colour_channel k c + (colour_channel (alpha_shift ord) c) \<le> 255)"

primrec light_down :: "order \<Rightarrow> rect \<Rightarrow> int \<Rightarrow> int \<Rightarrow> display list \<Rightarrow> nat \<Rightarrow> nat \<Rightarrow> nat \<Rightarrow> nat \<Rightarrow> u32 option" where
  "light_down ord w x y [] r g b vis =
     map_option (\<lambda>bg. pack ord (r + colour_channel 16 bg * vis div 255) (g + colour_channel 8 bg * vis div 255) (b + colour_channel 0 bg * vis div 255))
       (sample_background w y)"
| "light_down ord w x y (d # ds) r g b vis =
     (if \<not> covers_at d x y then light_down ord w x y ds r g b vis
      else
        (case read_view d x y of
           None \<Rightarrow> None
         | Some c \<Rightarrow>
             (let r = r + colour_channel (red_shift ord) c * vis div 255; g = g + colour_channel (green_shift ord) c * vis div 255;
                  b = b + colour_channel (blue_shift ord) c * vis div 255; a = colour_channel (alpha_shift ord) c
              in if solid_at d x y \<or> vis \<le> 255 - a then Some (pack ord r g b)
                 else light_down ord w x y ds r g b (vis - (255 - a)))))"

lemma channel_le: "colour_channel k c \<le> 255"
proof -
  have "drop_bit k c AND 0xff \<le> 0xff" by (rule word_and_le1)
  then show ?thesis by (simp add: colour_channel_def word_le_nat_alt)
qed

lemma light_le:
  fixes m n :: nat
  assumes "n \<le> 255"
  shows "m * n div 255 \<le> m" "n * m div 255 \<le> m"
  using div_le_mono[OF mult_le_mono2[OF assms, of m], of 255] by (simp_all add: mult.commute)

lemma add_light_exact:
  "v + vis \<le> 255 \<Longrightarrow> add_light k c vis v = v + colour_channel k c * vis div 255"
  "v + vis \<le> 255 \<Longrightarrow> add_background k c vis v = v + colour_channel k c * vis div 255"
  using light_le(2)[OF channel_le, of k c vis] by (simp_all add: add_light_def add_background_def)

lemma light_step:
  assumes "v + vis \<le> 255" "colour_channel k c + a \<le> 255" "\<not> vis \<le> 255 - a"
  shows "v + colour_channel k c * vis div 255 + (vis - (255 - a)) \<le> 255"
  using light_le(1)[of vis "colour_channel k c"] assms by simp

text \<open>On such colours nothing is clipped and no byte wraps.\<close>

lemma blend_down_exact:
  "(\<forall>d \<in> set ds. \<forall>c. read_view d x y = Some c \<longrightarrow> premultiplied ord c) \<Longrightarrow> r + vis \<le> 255 \<Longrightarrow> g + vis \<le> 255 \<Longrightarrow> b + vis \<le> 255 \<Longrightarrow>
    blend_down ord w x y ds r g b vis = light_down ord w x y ds r g b vis"
proof (induction ds arbitrary: r g b vis)
  case Nil
  then show ?case by (simp add: add_light_exact)
next
  case (Cons d ds)
  show ?case
  proof (cases "covers_at d x y")
    case False
    then show ?thesis using Cons by simp
  next
    case cv: True
    show ?thesis
    proof (cases "read_view d x y")
      case None
      then show ?thesis using cv by simp
    next
      case (Some c)
      then have p: "colour_channel (red_shift ord) c + colour_channel (alpha_shift ord) c \<le> 255" "colour_channel (green_shift ord) c + colour_channel (alpha_shift ord) c \<le> 255"
        "colour_channel (blue_shift ord) c + colour_channel (alpha_shift ord) c \<le> 255"
        using Cons.prems(1) by (auto simp: premultiplied_def)
      let ?a = "colour_channel (alpha_shift ord) c"
      let ?r = "r + colour_channel (red_shift ord) c * vis div 255" and ?g = "g + colour_channel (green_shift ord) c * vis div 255"
        and ?b = "b + colour_channel (blue_shift ord) c * vis div 255"
      have "blend_down ord w x y ds ?r ?g ?b (vis - (255 - ?a)) = light_down ord w x y ds ?r ?g ?b (vis - (255 - ?a))" if "\<not> vis \<le> 255 - ?a"
        by (rule Cons.IH) (use Cons.prems p light_step that in auto)
      then show ?thesis using cv Some Cons.prems(2-4) by (simp add: add_light_exact Let_def)
    qed
  qed
qed

text \<open>C34. Blending is exact on colours whose channels are multiplied by their opacity: the saturated byte sums of the source equal
  plain sums, so no channel wraps or is clipped, down any stack of displays to the background.\<close>

theorem blend_exact:
  assumes "\<forall>d \<in> set ds. \<forall>c. read_view d x y = Some c \<longrightarrow> premultiplied ord c"
  shows "blend_down ord w x y ds 0 0 0 255 = light_down ord w x y ds 0 0 0 255"
  using blend_down_exact[OF assms, of 0 255 0 0] by simp

theorem blend_exact_witness:
  "blend_down bgra (mk_rect 0 0 9 9) 1 0 [(plain_display 0)\<lparr>view := \<lparr>border = bgra, bwidth = 16, bheight = 1, pitch = 16,
      cells = Some [0, 0x80402010]\<rparr>\<rparr>] 0 0 0 255 =
    light_down bgra (mk_rect 0 0 9 9) 1 0 [(plain_display 0)\<lparr>view := \<lparr>border = bgra, bwidth = 16, bheight = 1, pitch = 16,
      cells = Some [0, 0x80402010]\<rparr>\<rparr>] 0 0 0 255"
proof (rule blend_exact)
  let ?d = "(plain_display 0)\<lparr>view := \<lparr>border = bgra, bwidth = 16, bheight = 1, pitch = 16, cells = Some [0, 0x80402010]\<rparr>\<rparr>"
  have "read_view ?d 1 0 = Some 0x80402010" by (simp add: read_view_def plain_display_def cell_get_def view_index_def)
  moreover have "premultiplied bgra 0x80402010" by (simp add: premultiplied_def colour_channel_def)
  ultimately show "\<forall>d \<in> set [?d]. \<forall>c. read_view d 1 0 = Some c \<longrightarrow> premultiplied bgra c" by simp
qed

end
