(* ===== verification/DisplayManager.thy ===== *)
theory DisplayManager
  imports Picture "HOL-Library.Monad_Syntax"
begin

text \<open>
  The operations of \<^verbatim>\<open>drivers/DisplayManager.cpp\<close>: displays are created, moved, resized, stacked, shown, hidden and deleted,
  framebuffers come and go with the drivers. Memory for pixels and for the display itself is a parameter, as the allocator
  gives it; so are the framebuffers of a driver. The event \<^verbatim>\<open>framebuffersChanged\<close> that follows a change of the framebuffers is left out.
\<close>

section \<open>Operations\<close>

definition set_display :: "nat \<Rightarrow> (display \<Rightarrow> display) \<Rightarrow> desk \<Rightarrow> desk" where
  "set_display i f s = s\<lparr>displayAt := (displayAt s)(i := f (displayAt s i))\<rparr>"

text \<open>\<^verbatim>\<open>_create_view\<close>. \<open>mem\<close> is what \<^verbatim>\<open>new U8[]\<close> gives, in pixels, and \<open>obj\<close> what \<^verbatim>\<open>new Display\<close> gives; the position is set
  before \<open>obj\<close> is tested. A framebuffer in transition has no buffer to take the format from.\<close>

definition new_display :: "order \<Rightarrow> u32 \<Rightarrow> u32 \<Rightarrow> nat option \<Rightarrow> u8 \<Rightarrow> u32 \<Rightarrow> u32 \<Rightarrow> u8 \<Rightarrow> nat \<Rightarrow> display" where
  "new_display ord fw fh owner lay w h sc n =
     \<lparr>thread = owner, posX = (sint fw - sint w) sdiv 2, posY = max 0 ((sint fh - sint h) sdiv 2), layer = lay, dscale = sc,
      view = \<lparr>border = ord, bwidth = w, bheight = h, pitch = unat w, cells = Some (replicate n 0)\<rparr>,
      solidArea = mk_rect 0 0 (sint w) (sint h), interactArea = mk_rect 0 0 (sint w) (sint h), isVisible = False,
      topLeftCorner = (\<lambda>_. 0), topRightCorner = (\<lambda>_. 0), bottomLeftCorner = (\<lambda>_. 0), bottomRightCorner = (\<lambda>_. 0)\<rparr>"

definition create_view ::
  "nat option \<Rightarrow> u8 \<Rightarrow> u32 \<Rightarrow> u32 \<Rightarrow> u8 \<Rightarrow> u32 list option \<Rightarrow> nat option \<Rightarrow> desk \<Rightarrow> (nat option \<times> desk) option" where
  "create_view owner lay w h sc mem obj s =
     (case framebuffers s of
        [] \<Rightarrow> Some (None, s)
      | fb # _ \<Rightarrow> do {
          b \<leftarrow> fbBuffer fb;
          case mem of
            None \<Rightarrow> Some (None, s)
          | Some cs \<Rightarrow> do {
              i \<leftarrow> obj;
              let d = new_display (border b) (bwidth b) (bheight b) owner lay w h sc (length cs);
              s \<leftarrow> insert_by_layer i (set_display i (\<lambda>_. d) s);
              Some (Some i, case owner of None \<Rightarrow> s | Some t \<Rightarrow> s\<lparr>watchers := watchers s @ [(t, i)]\<rparr>)
            }
        })"

text \<open>What a change of place uncovers: above, below, left and right of the new area.\<close>

definition exposed :: "rect \<Rightarrow> rect \<Rightarrow> rect \<Rightarrow> rect list" where
  "exposed old new w =
     (if y1 new > y1 w then [rect_intersect old (mk_rect (x1 w) (y1 w) (x2 w) (y1 new))] else []) @
     (if y2 new < y2 w then [rect_intersect old (mk_rect (x1 w) (y2 new) (x2 w) (y2 w))] else []) @
     (if x1 new > x1 w then [rect_intersect old (mk_rect (x1 w) (y1 new) (x1 new) (y2 new))] else []) @
     (if x2 new < x2 w then [rect_intersect old (mk_rect (x2 new) (y1 new) (x2 w) (y2 new))] else [])"

primrec update_areas :: "rect list \<Rightarrow> nat option \<Rightarrow> desk \<Rightarrow> desk option" where
  "update_areas [] below s = Some s"
| "update_areas (r # rs) below s = do { s \<leftarrow> update_area r below s; update_areas rs below s }"

definition move_display_to :: "nat \<Rightarrow> int \<Rightarrow> int \<Rightarrow> bool \<Rightarrow> desk \<Rightarrow> desk option" where
  "move_display_to i x y update s =
     (let d = displayAt s i in
      if posX d = x \<and> posY d = y then Some s
      else
        (let s1 = set_display i (\<lambda>d. d\<lparr>posX := x, posY := y\<rparr>) s; new = displayAt s1 i; newRect = display_rect new in
         if \<not> isVisible new then Some s1
         else do {
           s \<leftarrow> update_areas (exposed (display_rect d) newRect (totalArea s1)) (Some i) s1;
           if update then do {
             s \<leftarrow> update_area_solid newRect (Some i) s;
             s \<leftarrow> update_display_area_solid i (rect_intersect (shift newRect (- x) (- y)) (solidArea new)) s;
             update_area_transparency newRect s
           } else Some s
         }))"

text \<open>The new buffer takes the place of the old one, whose solid and interactive areas stay.\<close>

definition set_size :: "u32 \<Rightarrow> u32 \<Rightarrow> u32 list option \<Rightarrow> display \<Rightarrow> display" where
  "set_size w h mem d = d\<lparr>view := (view d)\<lparr>bwidth := w, bheight := h, pitch := unat w, cells := mem\<rparr>\<rparr>"

definition resize_display_to :: "nat \<Rightarrow> u32 \<Rightarrow> u32 \<Rightarrow> u32 list option \<Rightarrow> desk \<Rightarrow> desk option" where
  "resize_display_to i width height mem s =
     (let w = max 16 width; h = max 16 height; old = displayAt s i in
      if get_width old = w \<and> get_height old = h then Some s
      else
        (let s1 = set_display i (set_size w h mem) s; d = displayAt s1 i in
         if \<not> isVisible d then Some s1
         else do {
           s \<leftarrow> (if w < get_width old
                 then update_area (mk_rect (posX d + wide d) (posY d) (posX d + wide old) (posY d + tall old)) (Some i) s1
                 else Some s1);
           if h < get_height old
           then update_area (mk_rect (posX d) (posY d + tall d) (posX d + wide old) (posY d + tall old)) (Some i) s
           else Some s
         }))"

definition move_and_resize_display_to :: "nat \<Rightarrow> rect \<Rightarrow> u32 list option \<Rightarrow> desk \<Rightarrow> desk option" where
  "move_and_resize_display_to i to mem s =
     (let d = displayAt s i; newWidth = word_of_int (x2 to - x1 to); newHeight = word_of_int (y2 to - y1 to) in
      if newWidth = bwidth (view d) \<and> newHeight = bheight (view d) then move_display_to i (x1 to) (y1 to) False s
      else if x1 to = posX d \<and> y1 to = posY d then resize_display_to i newWidth newHeight mem s
      else
        (let s1 = set_display i (\<lambda>d. (set_size newWidth newHeight mem d)\<lparr>posX := x1 to, posY := y1 to\<rparr>) s in
         if \<not> isVisible d then Some s1
         else update_areas (exposed (display_rect d) to (totalArea s1)) (Some i) s1))"

text \<open>Redrawing after a change of the stack.\<close>

definition redraw_display :: "nat \<Rightarrow> desk \<Rightarrow> desk option" where
  "redraw_display i s = do {
     s \<leftarrow> update_display_solid i s;
     update_area_transparency (display_rect (displayAt s i)) s
   }"

definition place_above :: "nat \<Rightarrow> nat \<Rightarrow> desk \<Rightarrow> desk option" where
  "place_above i other s =
     redraw_display i (on_links (insert_after other i)
       (set_display i (\<lambda>d. d\<lparr>layer := layer (displayAt s other)\<rparr>) (on_links (pop i) s)))"

definition place_below :: "nat \<Rightarrow> nat \<Rightarrow> desk \<Rightarrow> desk option" where
  "place_below i other s =
     redraw_display i (on_links (insert_before other i)
       (set_display i (\<lambda>d. d\<lparr>layer := layer (displayAt s other)\<rparr>) (on_links (pop i) s)))"

definition is_display_top :: "nat \<Rightarrow> desk \<Rightarrow> bool" where
  "is_display_top i s =
     (case nextp (fst (links s)) i of None \<Rightarrow> True | Some n \<Rightarrow> layer (displayAt s n) > layer (displayAt s i))"

definition raise_display :: "nat \<Rightarrow> desk \<Rightarrow> desk option" where
  "raise_display i s =
     (if is_display_top i s then Some s
      else do { s \<leftarrow> insert_by_layer i (on_links (pop i) s); redraw_display i s })"

definition set_display_layer :: "nat \<Rightarrow> u8 \<Rightarrow> desk \<Rightarrow> desk option" where
  "set_display_layer i lay s =
     (if layer (displayAt s i) = lay then Some s
      else do {
        s \<leftarrow> insert_layer_bottom i (set_display i (\<lambda>d. d\<lparr>layer := lay\<rparr>) (on_links (pop i) s));
        redraw_display i s
      })"

definition show_display :: "nat \<Rightarrow> bool \<Rightarrow> desk \<Rightarrow> desk option" where
  "show_display i update s =
     (if isVisible (displayAt s i) then Some s
      else
        (let s = set_display i (\<lambda>d. d\<lparr>isVisible := True\<rparr>) s in if update then redraw_display i s else Some s))"

definition hide_display :: "nat \<Rightarrow> desk \<Rightarrow> desk option" where
  "hide_display i s =
     (if \<not> isVisible (displayAt s i) then Some s
      else update_area (display_rect (displayAt s i)) (Some i) (set_display i (\<lambda>d. d\<lparr>isVisible := False\<rparr>) s))"

text \<open>\<^verbatim>\<open>Display::update\<close> and \<^verbatim>\<open>Display::update_area\<close>.\<close>

definition display_update :: "nat \<Rightarrow> desk \<Rightarrow> desk option" where
  "display_update i s = (if \<not> isVisible (displayAt s i) then Some s else redraw_display i s)"

definition display_update_area :: "nat \<Rightarrow> rect \<Rightarrow> desk \<Rightarrow> desk option" where
  "display_update_area i r s = do {
     s \<leftarrow> update_display_area_solid i (rect_intersect r (solidArea (displayAt s i))) s;
     update_area_transparency (shift r (posX (displayAt s i)) (posY (displayAt s i))) s
   }"

text \<open>The destructor, which a terminated thread also calls; a display no longer in the list was deleted before.\<close>

definition delete_display :: "nat \<Rightarrow> desk \<Rightarrow> desk option" where
  "delete_display i s = do {
     there \<leftarrow> contains i (links s);
     if \<not> there then Some s
     else
       (let d = displayAt s i;
            s = (case thread d of None \<Rightarrow> s | Some t \<Rightarrow> s\<lparr>watchers := remove1 (t, i) (watchers s)\<rparr>);
            s = on_links (pop i) (set_display i (\<lambda>d. d\<lparr>view := (view d)\<lparr>cells := None\<rparr>\<rparr>) s)
        in update_area (display_rect d) None s)
   }"

section \<open>Framebuffers\<close>

definition set_area :: "nat \<Rightarrow> rect \<Rightarrow> desk \<Rightarrow> desk" where
  "set_area k r s = s\<lparr>framebuffers := (framebuffers s)[k := (framebuffers s ! k)\<lparr>area := r\<rparr>]\<rparr>"

text \<open>The loop of \<^verbatim>\<open>_update_framebuffer_positions\<close> from the framebuffer \<open>k\<close> on, with \<open>n\<close> left.\<close>

primrec position_from :: "nat \<Rightarrow> nat \<Rightarrow> int \<Rightarrow> desk \<Rightarrow> desk option" where
  "position_from 0 k x s = Some s"
| "position_from (Suc n) k x s =
     (case fbBuffer (framebuffers s ! k) of
        None \<Rightarrow> Some s
      | Some b \<Rightarrow>
          (let newArea = mk_rect x 0 (x + sint (bwidth b)) (sint (bheight b));
               s = s\<lparr>totalArea := rect_include (totalArea s) newArea\<rparr>
           in if rect_eq (area (framebuffers s ! k)) newArea then position_from n (k + 1) (x2 newArea) s
              else do { s \<leftarrow> update_area newArea None (set_area k newArea s); position_from n (k + 1) (x2 newArea) s }))"

definition update_framebuffer_positions :: "desk \<Rightarrow> desk option" where
  "update_framebuffer_positions s =
     position_from (length (framebuffers s)) 0 0 (s\<lparr>totalArea := rect_clear (totalArea s)\<rparr>)"

text \<open>A graphics driver with \<open>n\<close> framebuffers has started; \<open>get\<close> is its \<^verbatim>\<open>get_framebuffer\<close>.\<close>

definition graphics_started :: "nat \<Rightarrow> nat \<Rightarrow> (nat \<Rightarrow> pixel_buffer option) \<Rightarrow> desk \<Rightarrow> desk option" where
  "graphics_started g n get s =
     update_framebuffer_positions
       (s\<lparr>framebuffers := framebuffers s @ map (\<lambda>k. \<lparr>fbDriver = g, driverFramebuffer = k, fbBuffer = get k, area = mk_rect 0 0 0 0\<rparr>) [0..<n]\<rparr>)"

text \<open>The loop that removes the framebuffers of a driver, \<open>n\<close> rounds from index \<open>k\<close>; the index steps back after a removal.\<close>

primrec remove_framebuffers :: "nat \<Rightarrow> nat \<Rightarrow> nat \<Rightarrow> framebuffer list \<Rightarrow> framebuffer list" where
  "remove_framebuffers 0 k g fbs = fbs"
| "remove_framebuffers (Suc n) k g fbs =
     (if fbDriver (fbs ! k) = g then remove_framebuffers n k g (take k fbs @ drop (k + 1) fbs)
      else remove_framebuffers n (k + 1) g fbs)"

definition graphics_stopped :: "nat \<Rightarrow> desk \<Rightarrow> desk option" where
  "graphics_stopped g s =
     update_framebuffer_positions (s\<lparr>framebuffers := remove_framebuffers (length (framebuffers s)) 0 g (framebuffers s)\<rparr>)"

text \<open>A driver announces that a framebuffer is about to change and that it has changed; the first that matches is meant.\<close>

fun set_matching :: "nat \<Rightarrow> nat \<Rightarrow> (framebuffer \<Rightarrow> framebuffer) \<Rightarrow> framebuffer list \<Rightarrow> bool \<times> framebuffer list" where
  "set_matching g k f [] = (False, [])"
| "set_matching g k f (fb # fbs) =
     (if fbDriver fb = g \<and> driverFramebuffer fb = k then (True, f fb # fbs)
      else (case set_matching g k f fbs of (found, fbs) \<Rightarrow> (found, fb # fbs)))"

definition framebuffer_changing :: "nat \<Rightarrow> nat \<Rightarrow> desk \<Rightarrow> desk" where
  "framebuffer_changing g k s = s\<lparr>framebuffers := snd (set_matching g k (\<lambda>fb. fb\<lparr>fbBuffer := None\<rparr>) (framebuffers s))\<rparr>"

definition framebuffer_changed :: "nat \<Rightarrow> nat \<Rightarrow> pixel_buffer option \<Rightarrow> desk \<Rightarrow> desk option" where
  "framebuffer_changed g k b s =
     (case set_matching g k (\<lambda>fb. fb\<lparr>fbBuffer := b, area := rect_clear (area fb)\<rparr>) (framebuffers s) of
        (found, fbs) \<Rightarrow> if found then update_framebuffer_positions (s\<lparr>framebuffers := fbs\<rparr>) else Some s)"

text \<open>\<^verbatim>\<open>_on_start\<close>: each graphics driver with whether it is active, is enabled and could be started, how many framebuffers it has
  and which. \<^verbatim>\<open>_on_stop\<close> only ends the subscription to events.\<close>

definition usable :: "bool \<Rightarrow> bool \<Rightarrow> bool \<Rightarrow> bool" where
  "usable active enabled started \<longleftrightarrow> active \<or> enabled \<and> started"

primrec found_framebuffers :: "(nat \<times> (bool \<times> bool \<times> bool) \<times> nat \<times> (nat \<Rightarrow> pixel_buffer option)) list \<Rightarrow> framebuffer list" where
  "found_framebuffers [] = []"
| "found_framebuffers (g # gs) =
     (case g of (driver, (active, enabled, started), n, get) \<Rightarrow>
        (if usable active enabled started
         then map (\<lambda>k. \<lparr>fbDriver = driver, driverFramebuffer = k, fbBuffer = get k, area = mk_rect 0 0 0 0\<rparr>) [0..<n] else []) @
        found_framebuffers gs)"

definition manager_start ::
  "(nat \<times> (bool \<times> bool \<times> bool) \<times> nat \<times> (nat \<Rightarrow> pixel_buffer option)) list \<Rightarrow> desk \<Rightarrow> (unit attempt \<times> desk) option" where
  "manager_start gs s =
     (let s = s\<lparr>framebuffers := found_framebuffers gs\<rparr> in
      if framebuffers s = [] then Some (Inl ''No graphics displays available'', s)
      else do {
        s \<leftarrow> update_framebuffer_positions s;
        Some (if x2 (totalArea s) - x1 (totalArea s) < 1 \<or> y2 (totalArea s) - y1 (totalArea s) < 1
              then Inl ''No graphics drivers in a valid state'' else Inr (), s)
      })"

text \<open>The subscription of a display to the events of its thread: when the thread ends, its displays are deleted, in the order in
  which they subscribed.\<close>

primrec delete_all :: "nat list \<Rightarrow> desk \<Rightarrow> desk option" where
  "delete_all [] s = Some s"
| "delete_all (i # is) s = do { s \<leftarrow> delete_display i s; delete_all is s }"

definition thread_terminated :: "nat \<Rightarrow> desk \<Rightarrow> desk option" where
  "thread_terminated t s = delete_all (map snd (filter (\<lambda>w. fst w = t) (watchers s))) s"

text \<open>\<^verbatim>\<open>set_background_colour\<close> with the colour so far; the background strip does not use it.\<close>

definition set_background_colour :: "u32 \<Rightarrow> u32 \<Rightarrow> desk \<Rightarrow> (u32 \<times> desk) option" where
  "set_background_colour old colour s =
     (if old = colour then Some (old, s) else map_option (Pair colour) (update_background s))"

text \<open>What the manager tells about the screens.\<close>

definition get_screen_count :: "desk \<Rightarrow> u32" where
  "get_screen_count s = of_nat (length (framebuffers s))"

definition get_screen_buffer :: "nat \<Rightarrow> desk \<Rightarrow> pixel_buffer option" where
  "get_screen_buffer k s = (if k \<ge> length (framebuffers s) then None else fbBuffer (framebuffers s ! k))"

definition get_screen_area :: "nat \<Rightarrow> desk \<Rightarrow> rect" where
  "get_screen_area k s = (if k \<ge> length (framebuffers s) then mk_rect 0 0 0 0 else area (framebuffers s ! k))"

definition desk_width :: "desk \<Rightarrow> u32" where
  "desk_width s = word_of_int (x2 (totalArea s) - x1 (totalArea s))"

definition desk_height :: "desk \<Rightarrow> u32" where
  "desk_height s = word_of_int (y2 (totalArea s) - y1 (totalArea s))"

lemma remove_filter:
  "k + n = length fbs \<Longrightarrow> remove_framebuffers n k g fbs = take k fbs @ filter (\<lambda>fb. fbDriver fb \<noteq> g) (drop k fbs)"
proof (induction n arbitrary: k fbs)
  case (Suc n)
  then have k: "k < length fbs" by simp
  then have d: "drop k fbs = fbs ! k # drop (k + 1) fbs" by (simp add: Cons_nth_drop_Suc)
  show ?case
  proof (cases "fbDriver (fbs ! k) = g")
    case True
    have "length (take k fbs) = k" using k by simp
    then show ?thesis using Suc.IH[of k "take k fbs @ drop (k + 1) fbs"] Suc.prems True d by simp
  next
    case False
    then show ?thesis using Suc.IH[of "k + 1" fbs] Suc.prems k d by (simp add: take_Suc_conv_app_nth)
  qed
qed simp

text \<open>When a graphics driver stops, exactly its framebuffers go, although the list is changed under the loop: the index
  steps back after each removal. The others stay, in order, and are placed anew.\<close>

theorem framebuffers_removed:
  "graphics_stopped g s = update_framebuffer_positions (s\<lparr>framebuffers := filter (\<lambda>fb. fbDriver fb \<noteq> g) (framebuffers s)\<rparr>)"
  by (simp add: graphics_stopped_def remove_filter)

end
