(* ===== verification/Showing.thy ===== *)
theory Showing
  imports DisplayManager
begin

text \<open>
  The invariant of the display manager: every pixel that a display covers shows the display on top (or what its transparency
  lets through). Showing, hiding, raising, moving and deleting a display keep it, in any order.
\<close>

section \<open>Displays that can be moved about\<close>

text \<open>What is asked of a display, wherever it is and whether it is visible or not.\<close>

definition sound :: "display \<Rightarrow> bool" where
  "sound d \<longleftrightarrow> display_ok d \<and> corners_ok d \<and> (\<forall>x y. solid_at d x y \<longrightarrow> drop_bit 24 (screen_pixel d x y) = 0)"

lemma margin_cong:
  assumes "view d = view e" "dscale d = dscale e" "topLeftCorner d = topLeftCorner e" "topRightCorner d = topRightCorner e"
    "bottomLeftCorner d = bottomLeftCorner e" "bottomRightCorner d = bottomRightCorner e"
  shows "get_left_margin d = get_left_margin e" "get_right_margin d = get_right_margin e"
  by (rule ext, simp only: get_left_margin_def get_right_margin_def get_width_def get_height_def assms)+

lemma moved_simps [simp]:
  "wide (d\<lparr>posX := x, posY := y\<rparr>) = wide d" "tall (d\<lparr>posX := x, posY := y\<rparr>) = tall d"
  "get_left_margin (d\<lparr>posX := x, posY := y\<rparr>) = get_left_margin d" "get_right_margin (d\<lparr>posX := x, posY := y\<rparr>) = get_right_margin d"
  "view_pixel (d\<lparr>posX := x, posY := y\<rparr>) = view_pixel d"
  by (rule margin_cong; simp | simp add: wide_def tall_def get_width_def get_height_def view_pixel_def view_index_def fun_eq_iff)+

lemma moved_row:
  "row_left (d\<lparr>posX := x, posY := y\<rparr>) z = row_left d (z - y + posY d) - posX d + x"
  "row_right (d\<lparr>posX := x, posY := y\<rparr>) z = row_right d (z - y + posY d) - posX d + x"
  "in_rows (d\<lparr>posX := x, posY := y\<rparr>) z = in_rows d (z - y + posY d)"
  by (auto simp: row_left_def row_right_def in_rows_def)

lemma all_shift: "(\<forall>z. P (z - y + y')) \<longleftrightarrow> (\<forall>z :: int. P z)"
  by (metis add_diff_cancel diff_add_cancel)

lemma sound_move: "sound (d\<lparr>posX := x, posY := y\<rparr>) = sound d"
proof -
  let ?e = "d\<lparr>posX := x, posY := y\<rparr>"
  have "(\<forall>z. in_rows ?e z \<longrightarrow> row_left ?e z < row_right ?e z) \<longleftrightarrow> (\<forall>z. in_rows d z \<longrightarrow> row_left d z < row_right d z)"
    unfolding moved_row using all_shift[of "\<lambda>z. in_rows d z \<longrightarrow> row_left d z < row_right d z" y "posY d"] by simp
  then have a: "display_ok ?e = display_ok d" by (simp add: display_ok_def)
  let ?P = "\<lambda>z. y1 (solidArea d) \<le> z - posY d \<and> z - posY d < y2 (solidArea d) \<longrightarrow> row_left d z - posX d < x2 (solidArea d)"
  have "corners_ok ?e \<longleftrightarrow> (\<forall>z. ?P (z - y + posY d))" by (simp add: corners_ok_def moved_row)
  also have "\<dots> \<longleftrightarrow> (\<forall>z. ?P z)" by (rule all_shift)
  also have "\<dots> \<longleftrightarrow> corners_ok d" by (simp add: corners_ok_def diff_less_eq add.commute)
  finally have b: "corners_ok ?e = corners_ok d" .
  have "(\<forall>u v. solid_at ?e u v \<longrightarrow> drop_bit 24 (screen_pixel ?e u v) = 0) \<longleftrightarrow>
      (\<forall>u v. rect_contains (solidArea d) (u - x) (v - y) \<longrightarrow> drop_bit 24 (view_pixel d (u - x) (v - y)) = 0)"
    by (simp add: solid_at_def screen_pixel_def)
  also have "\<dots> \<longleftrightarrow> (\<forall>u v. rect_contains (solidArea d) u v \<longrightarrow> drop_bit 24 (view_pixel d u v) = 0)"
    by (metis add_diff_cancel)
  also have "\<dots> \<longleftrightarrow> (\<forall>u v. solid_at d u v \<longrightarrow> drop_bit 24 (screen_pixel d u v) = 0)"
    unfolding solid_at_def screen_pixel_def by (metis add_diff_cancel)
  finally show ?thesis using a b by (simp add: sound_def)
qed

lemma visible_simps [simp]:
  "wide (d\<lparr>isVisible := v\<rparr>) = wide d" "tall (d\<lparr>isVisible := v\<rparr>) = tall d" "row_left (d\<lparr>isVisible := v\<rparr>) = row_left d"
  "row_right (d\<lparr>isVisible := v\<rparr>) = row_right d" "in_rows (d\<lparr>isVisible := v\<rparr>) = in_rows d" "display_rect (d\<lparr>isVisible := v\<rparr>) = display_rect d"
proof -
  have m: "get_left_margin (d\<lparr>isVisible := v\<rparr>) = get_left_margin d" "get_right_margin (d\<lparr>isVisible := v\<rparr>) = get_right_margin d"
    by (rule margin_cong; simp)+
  show "wide (d\<lparr>isVisible := v\<rparr>) = wide d" "tall (d\<lparr>isVisible := v\<rparr>) = tall d"
    by (simp_all add: wide_def tall_def get_width_def get_height_def)
  then show "row_left (d\<lparr>isVisible := v\<rparr>) = row_left d" "row_right (d\<lparr>isVisible := v\<rparr>) = row_right d"
    "in_rows (d\<lparr>isVisible := v\<rparr>) = in_rows d" "display_rect (d\<lparr>isVisible := v\<rparr>) = display_rect d"
    by (simp_all add: m row_left_def row_right_def in_rows_def display_rect_def fun_eq_iff)
qed

lemma sound_visible: "sound (d\<lparr>isVisible := v\<rparr>) = sound d"
  by (simp add: sound_def display_ok_def corners_ok_def solid_at_def screen_pixel_def view_pixel_def view_index_def)

definition desk_ok :: "order \<Rightarrow> desk \<Rightarrow> nat list \<Rightarrow> bool" where
  "desk_ok ord s is \<longleftrightarrow> stack s is \<and> length is < two32 \<and> (\<forall>i \<in> set is. sound (displayAt s i)) \<and> screen_ok s \<and> uniform ord s \<and>
     (\<forall>fb \<in> set (framebuffers s). fbBuffer fb \<noteq> None \<longrightarrow> x1 (totalArea s) \<le> x1 (area fb) \<and> x2 (area fb) \<le> x2 (totalArea s))"

lemma desk_okD:
  assumes "desk_ok ord s is"
  shows "stack_ok s is" "displays_ok s is" "screen_ok s" "uniform ord s" "repr (links s) is" "distinct is" "opaque_solids s is"
proof -
  have d: "stack s is" "\<forall>i \<in> set is. sound (displayAt s i)" using assms by (simp_all add: desk_ok_def)
  show "screen_ok s" "uniform ord s" using assms by (simp_all add: desk_ok_def)
  show r: "repr (links s) is" using d(1) by (simp add: stack_def)
  show "distinct is" using stack_distinct[OF d(1)] .
  have "\<And>i. i \<in> set is \<Longrightarrow> display_ok (displayAt s i) \<and> corners_ok (displayAt s i)" using d(2) unfolding sound_def by blast
  then show dk: "displays_ok s is" and "stack_ok s is" using r by (simp_all add: displays_ok_def stack_ok_def)
  show "opaque_solids s is" using d(2) unfolding opaque_solids_def sound_def by blast
qed

lemma redraws_desk_ok:
  assumes r: "redraws R s s'" and ok: "desk_ok ord s is"
  shows "desk_ok ord s' is"
proof -
  have "x1 (totalArea s) \<le> x1 (area fb') \<and> x2 (area fb') \<le> x2 (totalArea s)"
    if f: "fb' \<in> set (framebuffers s')" and n: "fbBuffer fb' \<noteq> None" for fb'
  proof -
    obtain fb where fb: "fb \<in> set (framebuffers s)" "fb_redrawn R fb fb'" using redraws_from[OF r f] by blast
    show ?thesis using ok fb(1) fb_redrawn_same[OF fb(2)] n by (simp add: desk_ok_def)
  qed
  then show ?thesis
    using ok redraws_screen_ok[OF r] redraws_uniform[OF r] redraws_same[OF r] by (simp add: desk_ok_def stack_def)
qed

section \<open>What a pixel should be\<close>

text \<open>The displays that cover a pixel, top first, and the colour they make.\<close>

definition pile :: "desk \<Rightarrow> nat list \<Rightarrow> int \<Rightarrow> int \<Rightarrow> display list" where
  "pile s is x y = filter (\<lambda>d. covers_at d x y) (map (displayAt s) (rev is))"

definition shade :: "order \<Rightarrow> rect \<Rightarrow> display list \<Rightarrow> int \<Rightarrow> int \<Rightarrow> u32" where
  "shade ord w ds x y =
     (case ds of
        [] \<Rightarrow> 0
      | d # ds \<Rightarrow> if solid_at d x y then screen_pixel d x y else the (transparent_pixel ord w d ds x y))"

definition fine :: "order \<Rightarrow> desk \<Rightarrow> nat list \<Rightarrow> int \<Rightarrow> int \<Rightarrow> u32 \<Rightarrow> bool" where
  "fine ord s is x y c \<longleftrightarrow> pile s is x y = [] \<or> c = shade ord (totalArea s) (pile s is x y) x y"

definition solid_fine :: "desk \<Rightarrow> nat list \<Rightarrow> int \<Rightarrow> int \<Rightarrow> u32 \<Rightarrow> bool" where
  "solid_fine s is x y c \<longleftrightarrow> (\<forall>i. top_display s is x y = Some i \<and> solid_at (displayAt s i) x y \<longrightarrow> c = screen_pixel (displayAt s i) x y)"

lemma blend_down_pile: "blend_down ord w x y (filter (\<lambda>d. covers_at d x y) ds) r g b vis = blend_down ord w x y ds r g b vis"
  by (induction ds arbitrary: r g b vis) (auto simp: Let_def split: option.splits)

lemma pile_top:
  assumes "repr (links s) is" "top_display s is x y = Some i"
  shows "\<exists>ds. pile s is x y = displayAt s i # ds \<and> strip_pixel ord s i x y = transparent_pixel ord (totalArea s) (displayAt s i) ds x y"
proof -
  obtain as bs where sp: "is = as @ i # bs" using top_display_in[OF assms(2)] split_list by fastforce
  have dist: "distinct (as @ i # bs)" using assms(1) sp by (simp add: repr_def)
  have c: "covers_at (displayAt s i) x y" "\<not> covered s bs x y" using assms(2) top_display_at[OF dist] sp by auto
  then have "filter (\<lambda>d. covers_at d x y) (map (displayAt s) (rev bs)) = []" by (auto simp: covered_def filter_empty_conv)
  then have "pile s is x y = displayAt s i # filter (\<lambda>d. covers_at d x y) (map (displayAt s) (rev as))" using c(1) by (simp add: pile_def sp)
  moreover have "lower_displays s i = Some (map (displayAt s) (rev as))"
    using walk_repr_at(2)[of "links s" as i bs] assms(1) sp by (simp add: lower_displays_def)
  ultimately show ?thesis
    by (simp add: strip_pixel_def transparent_pixel_def calculate_blending_def blend_down_pile split: option.splits)
qed

lemma pile_none: "top_display s is x y = None \<longleftrightarrow> pile s is x y = []"
  by (auto simp: top_display_none covered_def pile_def filter_empty_conv)

lemma fine_shown: "repr (links s) is \<Longrightarrow> fine ord s is x y c \<longleftrightarrow> (\<forall>i. top_display s is x y = Some i \<longrightarrow> c = shown_pixel ord s i x y)"
proof (cases "top_display s is x y")
  case (Some i)
  assume "repr (links s) is"
  from pile_top[OF this Some, of ord] Some show ?thesis by (auto simp: fine_def shade_def shown_pixel_def)
qed (simp add: fine_def pile_none[symmetric])

lemma fine_solid: "repr (links s) is \<Longrightarrow> fine ord s is x y c \<Longrightarrow> solid_fine s is x y c"
  by (auto simp: fine_shown solid_fine_def shown_pixel_def)

text \<open>A display that does not cover a pixel, before or after, has no say in it.\<close>

lemma fine_other:
  assumes "\<not> covers_at (displayAt s i) x y \<or> i \<notin> set is" "\<not> covers_at (displayAt s' i) x y \<or> i \<notin> set is'" "\<forall>j. j \<noteq> i \<longrightarrow> displayAt s' j = displayAt s j"
    and "filter (\<lambda>j. j \<noteq> i) is = filter (\<lambda>j. j \<noteq> i) is'" "totalArea s' = totalArea s"
  shows "fine ord s' is' x y c = fine ord s is x y c"
proof -
  have drop: "filter (\<lambda>d. covers_at d x y) (map (displayAt t) (rev js)) = map (displayAt t) (filter (\<lambda>j. covers_at (displayAt t j) x y) (rev (filter (\<lambda>j. j \<noteq> i) js)))"
    if "\<not> covers_at (displayAt t i) x y \<or> i \<notin> set js" for t js
    using that by (induction js) auto
  have "map (displayAt s) (filter (\<lambda>j. covers_at (displayAt s j) x y) (rev (filter (\<lambda>j. j \<noteq> i) js))) =
      map (displayAt s') (filter (\<lambda>j. covers_at (displayAt s' j) x y) (rev (filter (\<lambda>j. j \<noteq> i) js)))" for js
    using assms(3) by (induction js) auto
  then have "pile s' is' x y = pile s is x y"
    using drop[of s "is"] drop[of s' is'] assms(1,2,4) by (simp add: pile_def)
  then show ?thesis using assms(5) by (simp add: fine_def)
qed

definition shows_stack :: "order \<Rightarrow> desk \<Rightarrow> nat list \<Rightarrow> bool" where
  "shows_stack ord s is \<longleftrightarrow>
     (\<forall>fb \<in> set (framebuffers s). \<forall>b. fbBuffer fb = Some b \<longrightarrow>
        (\<forall>x y. inside b x y \<longrightarrow> fine ord s is (x + x1 (area fb)) (y + y1 (area fb)) (pixel b x y)))"

text \<open>A redraw after a change of the stack re-establishes the invariant if it does so pixel by pixel.\<close>

definition every_pixel :: "(int \<Rightarrow> int \<Rightarrow> u32 \<Rightarrow> bool) \<Rightarrow> desk \<Rightarrow> bool" where
  "every_pixel Q s \<longleftrightarrow>
     (\<forall>fb \<in> set (framebuffers s). \<forall>b. fbBuffer fb = Some b \<longrightarrow> (\<forall>x y. inside b x y \<longrightarrow> Q (x + x1 (area fb)) (y + y1 (area fb)) (pixel b x y)))"

lemma shows_every: "shows_stack ord s is \<longleftrightarrow> every_pixel (fine ord s is) s"
  by (simp add: shows_stack_def every_pixel_def)

lemma pixels_after:
  assumes r: "redraws R s0 s'" and same: "framebuffers s0 = framebuffers s" and ok: "desk_ok ord s is" and sh: "shows_stack ord s is"
    and R: "\<And>x y c c'. rect_contains (totalArea s) x y \<Longrightarrow> fine ord s is x y c \<Longrightarrow> R x y c c' \<Longrightarrow> Q x y c'"
  shows "every_pixel Q s'"
  unfolding every_pixel_def
proof (intro ballI allI impI)
  fix fb' b' x y assume fb': "fb' \<in> set (framebuffers s')" and b': "fbBuffer fb' = Some b'" and i: "inside b' x y"
  obtain fb where fb: "fb \<in> set (framebuffers s)" "fb_redrawn R fb fb'"
    using redraws_from[OF r fb'] same by auto
  have a: "area fb' = area fb" by (rule fb_redrawn_same(1)[OF fb(2)])
  obtain b where b: "fbBuffer fb = Some b" "bwidth b' = bwidth b" "bheight b' = bheight b"
    "\<And>x y. inside b x y \<Longrightarrow> R (x + x1 (area fb)) (y + y1 (area fb)) (pixel b x y) (pixel b' x y)"
    using fb(2) b' by (auto simp: fb_redrawn_def split: option.splits)
  have ib: "inside b x y" using i b by (simp add: inside_def)
  have "rect_contains (totalArea s) (x + x1 (area fb)) (y + y1 (area fb))"
    using ok fb(1) b(1) ib unfolding desk_ok_def screen_ok_def inside_def rect_contains_def by fastforce
  then show "Q (x + x1 (area fb')) (y + y1 (area fb')) (pixel b' x y)"
    unfolding a using R b(4)[OF ib] sh fb(1) b(1) ib unfolding shows_stack_def by blast
qed

lemma shows_after:
  assumes r: "redraws R s0 s'" and same: "framebuffers s0 = framebuffers s" "totalArea s0 = totalArea s"
    and ok: "desk_ok ord s is" and sh: "shows_stack ord s is"
    and R: "\<And>x y c c'. rect_contains (totalArea s) x y \<Longrightarrow> fine ord s is x y c \<Longrightarrow> R x y c c' \<Longrightarrow> fine ord s0 is' x y c'"
  shows "shows_stack ord s' is'"
proof -
  have "fine ord s' is' = fine ord s0 is'" unfolding fine_def pile_def redraws_same[OF r] ..
  then show ?thesis using pixels_after[OF r same(1) ok sh R] by (simp add: shows_every)
qed

section \<open>The passes, pixel by pixel\<close>

lemma transparency_fine:
  assumes ok: "desk_ok ord s is" and t: "transparency_rule ord s is rect x y c c'"
    and c: "rect_contains rect x y \<and> solid_fine s is x y c \<or> fine ord s is x y c"
  shows "fine ord s is x y c'"
proof -
  note d = desk_okD[OF ok]
  have "c' = shown_pixel ord s i x y" if i: "top_display s is x y = Some i" for i
  proof (cases "rect_contains rect x y")
    case True
    have sf: "solid_at (displayAt s i) x y \<Longrightarrow> c = screen_pixel (displayAt s i) x y"
      using c fine_solid[OF d(5), of ord x y c] i by (auto simp: solid_fine_def)
    have "solid_at (displayAt s i) x y \<Longrightarrow> strip_pixel ord s i x y = Some (screen_pixel (displayAt s i) x y)"
      using opaque_strip[OF d(1) i, of ord] d(7) top_display_in[OF i] by (simp add: opaque_solids_def)
    then show ?thesis using t True i sf by (auto simp: transparency_rule_def shown_pixel_def)
  next
    case False
    then show ?thesis using t c i by (simp add: transparency_rule_def fine_shown[OF d(5)])
  qed
  then show ?thesis by (simp add: fine_shown[OF d(5)])
qed

lemma picture_solid:
  assumes "picture_rule s is drawn rect x y c c'"
    and "rect_contains rect x y \<and> (\<forall>j. top_display s is x y = Some j \<longrightarrow> j \<in> set drawn) \<or> solid_fine s is x y c"
  shows "solid_fine s is x y c'"
  using assms by (auto simp: picture_rule_def solid_fine_def split: option.splits if_splits)

lemma area_fine:
  assumes ok: "desk_ok ord s is" and a: "area_rule ord s is drawn rect x y c c'"
    and c: "rect_contains rect x y \<and> (\<forall>j. top_display s is x y = Some j \<longrightarrow> j \<in> set drawn) \<or>
      rect_contains rect x y \<and> solid_fine s is x y c \<or> fine ord s is x y c"
  shows "fine ord s is x y c'"
proof -
  note d = desk_okD[OF ok]
  have "c' = shown_pixel ord s i x y" if i: "top_display s is x y = Some i" for i
  proof (cases "rect_contains rect x y")
    case True
    have sf: "i \<in> set drawn \<or> (solid_at (displayAt s i) x y \<longrightarrow> c = screen_pixel (displayAt s i) x y)"
      using c fine_solid[OF d(5), of ord x y c] i by (auto simp: solid_fine_def)
    have "solid_at (displayAt s i) x y \<Longrightarrow> strip_pixel ord s i x y = Some (screen_pixel (displayAt s i) x y)"
      using opaque_strip[OF d(1) i, of ord] d(7) top_display_in[OF i] by (simp add: opaque_solids_def)
    then show ?thesis using a True i sf by (auto simp: area_rule_def shown_pixel_def split: if_splits)
  next
    case False
    then show ?thesis using a c i by (simp add: area_rule_def fine_shown[OF d(5)])
  qed
  then show ?thesis by (simp add: fine_shown[OF d(5)])
qed

lemma covers_rect: "display_ok d \<Longrightarrow> covers_at d x y \<Longrightarrow> rect_contains (display_rect d) x y"
  using ok_left[of d y] by (auto simp: covers_at_def in_rows_def display_rect_def rect_contains_def mk_rect_def)

text \<open>Redrawing one display, in a stack whose other pixels are as they should be.\<close>

definition redrawn :: "order \<Rightarrow> desk \<Rightarrow> nat list \<Rightarrow> nat \<Rightarrow> int \<Rightarrow> int \<Rightarrow> u32 \<Rightarrow> u32 \<Rightarrow> bool" where
  "redrawn ord s is i x y c c' \<longleftrightarrow>
     (if covers_at (displayAt s i) x y then top_display s is x y = Some i \<or> solid_fine s is x y c \<longrightarrow> fine ord s is x y c'
      else fine ord s is x y c \<longrightarrow> fine ord s is x y c')"

lemma redraw_display_effect:
  assumes ok: "desk_ok ord s is" and i: "i \<in> set is"
  shows "\<exists>s'. redraw_display i s = Some s' \<and> redraws (redrawn ord s is i) s s'"
proof -
  note d = desk_okD[OF ok]
  obtain as bs where sp: "is = as @ i # bs" using split_list[OF i] by blast
  let ?d = "displayAt s i" and ?r = "display_rect (displayAt s i)"
  have oki: "display_ok ?d" if "isVisible ?d" using d(2) i that by (simp add: displays_ok_def)
  have "\<exists>s1. update_display_solid i s = Some s1 \<and>
      redraws (\<lambda>x y c c1. (covers_at ?d x y \<and> (top_display s is x y = Some i \<or> solid_fine s is x y c) \<longrightarrow> solid_fine s is x y c1) \<and>
        (\<not> covers_at ?d x y \<longrightarrow> c1 = c)) s s1"
  proof (cases "isVisible ?d")
    case False
    then show ?thesis using redraws_refl[OF d(3)] by (auto simp: update_display_solid_def update_display_area_solid_def covers_at_def)
  next
    case True
    have "displays_ok s bs" "repr (links s) (as @ i # bs)" "distinct (as @ i # bs)" using d(2,5,6) sp by (auto simp: displays_ok_def)
    from update_display_effect[OF this(2) d(3) True oki[OF True] this(1)]
    obtain s1 where s1: "update_display_solid i s = Some s1" "redraws (display_rule s i bs (solidArea ?d)) s s1"
      unfolding update_display_solid_def by blast
    have c1: "c1 = (if solid_at ?d x y \<and> top_display s is x y = Some i then screen_pixel ?d x y else c)"
      if "display_rule s i bs (solidArea ?d) x y c c1" for x y c c1
      using that top_display_at[OF \<open>distinct (as @ i # bs)\<close>, of s x y] by (auto simp: display_rule_def sp solid_at_def)
    have w: "(covers_at ?d x y \<and> (top_display s is x y = Some i \<or> solid_fine s is x y c) \<longrightarrow> solid_fine s is x y c1) \<and> (\<not> covers_at ?d x y \<longrightarrow> c1 = c)"
      if "display_rule s i bs (solidArea ?d) x y c c1" for x y c c1
      using c1[OF that] top_display_in[of s "is" x y i] by (auto simp: solid_fine_def)
    show ?thesis by (rule exI[of _ s1], rule conjI, rule s1(1), rule redraws_weaken[OF s1(2)], rule w)
  qed
  then obtain s1 where s1: "update_display_solid i s = Some s1"
    "redraws (\<lambda>x y c c1. (covers_at ?d x y \<and> (top_display s is x y = Some i \<or> solid_fine s is x y c) \<longrightarrow> solid_fine s is x y c1) \<and>
        (\<not> covers_at ?d x y \<longrightarrow> c1 = c)) s s1" by blast
  obtain s2 where s2: "update_area_transparency ?r s1 = Some s2" "redraws (transparency_rule ord s is ?r) s1 s2"
    using update_area_transparency_effect[OF desk_okD(1,3,4)[OF redraws_desk_ok[OF s1(2) ok]], of ?r]
    unfolding redraws_stack(2)[OF s1(2)] by blast
  have "redrawn ord s is i x y c c2"
    if c1: "(covers_at ?d x y \<and> (top_display s is x y = Some i \<or> solid_fine s is x y c) \<longrightarrow> solid_fine s is x y c1) \<and> (\<not> covers_at ?d x y \<longrightarrow> c1 = c)"
      and t: "transparency_rule ord s is ?r x y c1 c2" for x y c c1 c2
    using transparency_fine[OF ok t] c1 covers_rect[OF oki, of x y] by (auto simp: redrawn_def covers_at_def)
  from redraws_trans[OF s1(2) s2(2) this] show ?thesis
    using s1(1) s2(1) redraws_same(2)[OF s1(2)] by (auto simp: redraw_display_def)
qed

text \<open>A display above the one that changed was on top before.\<close>

lemma still_top:
  assumes top: "top_display s' (as' @ i # bs) x y = Some j" and j: "j \<notin> set as'" "j \<noteq> i"
    and same: "\<forall>j. j \<noteq> i \<longrightarrow> displayAt s' j = displayAt s j" and i: "i \<notin> set bs"
  shows "top_display s (us @ bs) x y = Some j"
proof -
  have "top_display s' ((as' @ [i]) @ bs) x y = Some j" using top by simp
  moreover have "top_display s' (as' @ [i]) x y \<noteq> Some j" using j top_display_in[of s' "as' @ [i]" x y j] by auto
  ultimately have "top_display s' bs x y = Some j"
    unfolding top_rev[of s' "as' @ [i]"] by (simp split: option.splits)
  moreover have "map (displayAt s') bs = map (displayAt s) bs" using same i by auto
  then have "top_display s bs x y = top_display s' bs x y"
    unfolding top_display_def by (induction bs) (auto simp: find_append split: option.splits)
  ultimately show ?thesis by (simp add: top_rev)
qed

text \<open>So what was right stays right, in the solid pass, where the display that changed does not decide.\<close>

lemma still_fine:
  assumes ok: "desk_ok ord s (us @ bs)" and f: "fine ord s (us @ bs) x y c"
    and top: "top_display s' (as' @ i # bs) x y = Some j" and j: "j \<notin> set as'" "j \<noteq> i"
    and same: "\<forall>j. j \<noteq> i \<longrightarrow> displayAt s' j = displayAt s j" and i: "i \<notin> set bs"
  shows "solid_fine s' (as' @ i # bs) x y c"
  using fine_solid[OF desk_okD(5)[OF ok] f] still_top[OF top j same i, of us] top j(2) same
  by (auto simp: solid_fine_def)

end
