(* ===== verification/DeskRuns.thy ===== *)
theory DeskRuns
  imports Showing
begin

text \<open>
  Each operation of the display manager re-establishes the picture, so any run of them does.
\<close>

section \<open>One operation\<close>

definition shown_on :: "order \<Rightarrow> desk \<Rightarrow> nat list \<Rightarrow> bool" where
  "shown_on ord s is \<longleftrightarrow> desk_ok ord s is \<and> shows_stack ord s is"

text \<open>Only the display \<open>i\<close> and its place in the stack differ.\<close>

definition only_at :: "nat \<Rightarrow> desk \<Rightarrow> nat list \<Rightarrow> desk \<Rightarrow> nat list \<Rightarrow> bool" where
  "only_at i s is s' is' \<longleftrightarrow> (\<forall>j. j \<noteq> i \<longrightarrow> displayAt s' j = displayAt s j) \<and> framebuffers s' = framebuffers s \<and>
     totalArea s' = totalArea s \<and> filter (\<lambda>j. j \<noteq> i) is = filter (\<lambda>j. j \<noteq> i) is'"

lemma fine_elsewhere:
  assumes "only_at i s is s' is'" "\<not> covers_at (displayAt s i) x y \<or> i \<notin> set is" "\<not> covers_at (displayAt s' i) x y \<or> i \<notin> set is'"
  shows "fine ord s' is' x y c = fine ord s is x y c"
  by (rule fine_other[OF assms(2,3)]) (use assms(1) in \<open>simp_all add: only_at_def\<close>)

text \<open>What no redraw changes: the displays, and the size of the first framebuffer, by which new displays are centred.\<close>

definition first_size :: "desk \<Rightarrow> (u32 \<times> u32) option" where
  "first_size s =
     (case framebuffers s of [] \<Rightarrow> None | fb # _ \<Rightarrow> map_option (\<lambda>b. (bwidth b, bheight b)) (fbBuffer fb))"

definition keeps :: "desk \<Rightarrow> desk \<Rightarrow> bool" where
  "keeps s s' \<longleftrightarrow> displayAt s' = displayAt s \<and> first_size s' = first_size s"

lemma redraws_keeps:
  assumes "redraws R s s'"
  shows "keeps s s'"
proof -
  have "list_all2 (fb_redrawn R) (framebuffers s) (framebuffers s')" using assms by (simp add: redraws_def)
  then have "first_size s' = first_size s"
    by (cases "framebuffers s"; cases "framebuffers s'") (auto simp: first_size_def fb_redrawn_def split: option.splits)
  then show ?thesis using redraws_same[OF assms] by (simp add: keeps_def)
qed

text \<open>After a redraw that suits each pixel.\<close>

lemma shown_after:
  assumes r: "redraws R s0 s'" and o: "only_at i s is s0 is'" and sh: "shown_on ord s is" and ok: "desk_ok ord s0 is'"
    and R: "\<And>x y c c'. rect_contains (totalArea s) x y \<Longrightarrow> fine ord s is x y c \<Longrightarrow> R x y c c' \<Longrightarrow> fine ord s0 is' x y c'"
  shows "shown_on ord s' is'"
proof -
  have "framebuffers s0 = framebuffers s" "totalArea s0 = totalArea s" using o by (simp_all add: only_at_def)
  moreover have "desk_ok ord s is" "shows_stack ord s is" using sh by (simp_all add: shown_on_def)
  ultimately have "shows_stack ord s' is'" by (rule shows_after[OF r]) (rule R)
  then show ?thesis using redraws_desk_ok[OF r ok] by (simp add: shown_on_def)
qed

lemma redraw_shown:
  assumes sh: "shown_on ord s (us @ bs)" and o: "only_at i s (us @ bs) s0 (as @ i # bs)" and ok: "desk_ok ord s0 (as @ i # bs)"
    and cov: "\<And>x y. covers_at (displayAt s i) x y \<Longrightarrow> covers_at (displayAt s0 i) x y"
  shows "\<exists>s'. redraw_display i s0 = Some s' \<and> shown_on ord s' (as @ i # bs) \<and> keeps s0 s'"
proof -
  let ?is = "as @ i # bs"
  have oks: "desk_ok ord s (us @ bs)" using sh by (simp add: shown_on_def)
  obtain s' where s': "redraw_display i s0 = Some s'" "redraws (redrawn ord s0 ?is i) s0 s'"
    using redraw_display_effect[OF ok, of i] by auto
  have dist: "distinct ?is" using desk_okD(6)[OF ok] .
  have "fine ord s0 ?is x y c'" if f: "fine ord s (us @ bs) x y c" and r: "redrawn ord s0 ?is i x y c c'" for x y c c'
  proof (cases "covers_at (displayAt s0 i) x y")
    case False
    then have "\<not> covers_at (displayAt s i) x y" using cov by blast
    then show ?thesis using r f False fine_elsewhere[OF o, of x y ord c] by (simp add: redrawn_def)
  next
    case True
    have "top_display s0 ?is x y = Some i \<or> solid_fine s0 ?is x y c"
    proof (cases "top_display s0 bs x y")
      case None
      then show ?thesis using True top_display_at[OF dist] by (simp add: top_display_none)
    next
      case (Some j)
      have "top_display s0 ?is x y = Some j" using Some top_rev[of s0 "as @ [i]" bs x y] by simp
      moreover have "j \<notin> set as" "j \<noteq> i" using top_display_in[OF Some] dist by auto
      ultimately show ?thesis using still_fine[OF oks f, of s0 as i j] o dist by (simp add: only_at_def)
    qed
    then show ?thesis using r True by (simp add: redrawn_def)
  qed
  then have "shown_on ord s' (as @ i # bs)" by (rule shown_after[OF s'(2) o sh ok])
  then show ?thesis using s'(1) redraws_keeps[OF s'(2)] by blast
qed

text \<open>Redrawing what a display that no longer covers anything left behind.\<close>

lemma cleared_fine:
  assumes oks: "desk_ok ord s is" and o: "only_at i s is s0 is'" and ok: "desk_ok ord s0 is'"
    and f: "fine ord s is x y c" and a: "area_rule ord s0 is' (takeWhile (\<lambda>j. Some j \<noteq> below) is') rect x y c c'"
    and rect: "covers_at (displayAt s i) x y \<Longrightarrow> rect_contains rect x y"
    and now: "\<not> covers_at (displayAt s0 i) x y \<or> i \<notin> set is'"
    and above: "is = is' \<and> below = Some i \<or> below = None"
  shows "fine ord s0 is' x y c'"
proof (cases "rect_contains rect x y")
  case False
  then have "\<not> covers_at (displayAt s i) x y" using rect by blast
  then have "fine ord s0 is' x y c" using f fine_elsewhere[OF o] now by blast
  then show ?thesis using area_fine[OF ok a] by blast
next
  case True
  have "(\<forall>j. top_display s0 is' x y = Some j \<longrightarrow> j \<in> set (takeWhile (\<lambda>j. Some j \<noteq> below) is')) \<or> solid_fine s0 is' x y c"
  proof (cases "top_display s0 is' x y")
    case None
    then show ?thesis by simp
  next
    case (Some j)
    note j = top_display_in[OF Some]
    show ?thesis
    proof (cases "below = None \<or> i \<notin> set is'")
      case True
      then have "\<forall>j \<in> set is'. Some j \<noteq> below" using above by auto
      then have tw: "takeWhile (\<lambda>j. Some j \<noteq> below) is' = is'" by (simp add: takeWhile_eq_all_conv)
      show ?thesis unfolding tw using Some j by simp
    next
      case False
      then have e: "is = is'" "below = Some i" and "i \<in> set is'" using above by auto
      then obtain as bs where sp: "is' = as @ i # bs" using split_list by fastforce
      have dist: "distinct (as @ i # bs)" using desk_okD(6)[OF ok] sp by simp
      then have tw: "takeWhile (\<lambda>j. Some j \<noteq> below) is' = as" using e sp by (subst sp, subst takeWhile_append2) auto
      have ne: "j \<noteq> i" using j now sp by auto
      show ?thesis
      proof (cases "j \<in> set as")
        case True
        then show ?thesis using Some tw by simp
      next
        case no: False
        have "desk_ok ord s ((as @ [i]) @ bs)" "fine ord s ((as @ [i]) @ bs) x y c" using oks f e sp by simp_all
        from still_fine[OF this Some[unfolded sp] no ne] o dist show ?thesis by (simp add: only_at_def sp)
      qed
    qed
  qed
  then show ?thesis using area_fine[OF ok a] True by blast
qed

section \<open>The operations\<close>

lemma set_display_simps [simp]:
  "links (set_display i f s) = links s" "framebuffers (set_display i f s) = framebuffers s" "totalArea (set_display i f s) = totalArea s"
  "watchers (set_display i f s) = watchers s" "displayAt (set_display i f s) = (displayAt s)(i := f (displayAt s i))"
  by (simp_all add: set_display_def)

lemma first_size_simps [simp]: "first_size (set_display i f s) = first_size s" "first_size (on_links g s) = first_size s"
  by (simp_all add: first_size_def)

lemma only_at_set: "only_at i s is (set_display i f s) is"
  by (simp add: only_at_def)

lemma desk_ok_set:
  assumes "desk_ok ord s is" "sound (f (displayAt s i))" "layer (f (displayAt s i)) = layer (displayAt s i)"
  shows "desk_ok ord (set_display i f s) is"
proof -
  have "layer (((displayAt s)(i := f (displayAt s i))) j) = layer (displayAt s j)" for j using assms(3) by simp
  then show ?thesis using assms by (simp add: desk_ok_def stack_def screen_ok_def uniform_def)
qed

lemma invisible_covers: "\<not> isVisible d \<Longrightarrow> \<not> covers_at d x y"
  by (simp add: covers_at_def)

text \<open>A display changes in place and is redrawn.\<close>

lemma refresh_shown:
  assumes sh: "shown_on ord s is" and i: "i \<in> set is" and snd: "sound (f (displayAt s i))" and lay: "layer (f (displayAt s i)) = layer (displayAt s i)"
    and cov: "\<And>x y. covers_at (displayAt s i) x y \<Longrightarrow> covers_at (f (displayAt s i)) x y"
  shows "\<exists>s'. redraw_display i (set_display i f s) = Some s' \<and> shown_on ord s' is \<and>
    displayAt s' = (displayAt s)(i := f (displayAt s i)) \<and> first_size s' = first_size s"
proof -
  let ?s = "set_display i f s"
  obtain as bs where sp: "is = as @ i # bs" using split_list[OF i] by auto
  have "desk_ok ord ?s is" using sh snd lay by (intro desk_ok_set) (simp_all add: shown_on_def)
  then have ok: "desk_ok ord ?s (as @ i # bs)" by (simp only: sp)
  have o: "only_at i s ((as @ [i]) @ bs) ?s (as @ i # bs)" using only_at_set[of i s "as @ i # bs"] by simp
  have "shown_on ord s ((as @ [i]) @ bs)" using sh sp by simp
  from redraw_shown[OF this o ok] cov
  obtain s' where "redraw_display i ?s = Some s'" "shown_on ord s' is" "keeps ?s s'" unfolding sp by auto
  then show ?thesis by (simp add: keeps_def)
qed

lemma unseen_shown:
  assumes sh: "shown_on ord s is" and snd: "sound (f (displayAt s i))" and lay: "layer (f (displayAt s i)) = layer (displayAt s i)"
    and un: "\<not> isVisible (displayAt s i)" "\<not> isVisible (f (displayAt s i))"
  shows "shown_on ord (set_display i f s) is"
proof -
  have ok: "desk_ok ord (set_display i f s) is" using sh snd lay by (intro desk_ok_set) (simp_all add: shown_on_def)
  have f: "fine ord (set_display i f s) is x y c = fine ord s is x y c" for x y c
    by (rule fine_elsewhere[OF only_at_set]) (simp_all add: invisible_covers un)
  have "redraws (\<lambda>x y c c'. c' = c) (set_display i f s) (set_display i f s)" by (rule redraws_refl[OF desk_okD(3)[OF ok]]) simp
  then show ?thesis by (rule shown_after[OF _ only_at_set sh ok]) (simp add: f)
qed

lemma show_shown:
  assumes sh: "shown_on ord s is" and i: "i \<in> set is"
  shows "\<exists>s'. show_display i True s = Some s' \<and> shown_on ord s' is \<and> displayAt s' = (displayAt s)(i := (displayAt s i)\<lparr>isVisible := True\<rparr>) \<and>
    first_size s' = first_size s"
proof (cases "isVisible (displayAt s i)")
  case True
  then have "(displayAt s i)\<lparr>isVisible := True\<rparr> = displayAt s i" by simp
  then show ?thesis using True sh by (simp add: show_display_def fun_upd_idem)
next
  case False
  have "sound (displayAt s i)" using sh i by (simp add: shown_on_def desk_ok_def)
  from refresh_shown[OF sh i, of "\<lambda>d. d\<lparr>isVisible := True\<rparr>"] this invisible_covers[OF False] False
  show ?thesis by (simp add: show_display_def sound_visible)
qed

text \<open>The owner of a display writes its pixels, says which of them are solid, and calls \<^verbatim>\<open>update\<close>.\<close>

definition drawn :: "u32 list \<Rightarrow> rect \<Rightarrow> display \<Rightarrow> display" where
  "drawn cs r d = d\<lparr>view := (view d)\<lparr>cells := Some cs\<rparr>, solidArea := r\<rparr>"

definition draw_display :: "nat \<Rightarrow> u32 list \<Rightarrow> rect \<Rightarrow> desk \<Rightarrow> desk option" where
  "draw_display i cs r s = display_update i (set_display i (drawn cs r) s)"

lemma drawn_simps [simp]: "isVisible (drawn cs r d) = isVisible d" "layer (drawn cs r d) = layer d"
  by (simp_all add: drawn_def)

lemma drawn_covers: "covers_at (drawn cs r d) = covers_at d"
proof -
  let ?e = "drawn cs r d"
  have "get_left_margin ?e = get_left_margin d" "get_right_margin ?e = get_right_margin d" "wide ?e = wide d" "tall ?e = tall d"
    by (simp_all add: drawn_def get_left_margin_def get_right_margin_def get_width_def get_height_def wide_def tall_def fun_eq_iff Let_def)
  then show ?thesis by (simp add: covers_at_def in_rows_def row_left_def row_right_def fun_eq_iff) (simp add: drawn_def)
qed

lemma draw_shown:
  assumes sh: "shown_on ord s is" and i: "i \<in> set is" and snd: "sound (drawn cs r (displayAt s i))"
  shows "\<exists>s'. draw_display i cs r s = Some s' \<and> shown_on ord s' is \<and>
    displayAt s' = (displayAt s)(i := drawn cs r (displayAt s i)) \<and> first_size s' = first_size s"
proof (cases "isVisible (displayAt s i)")
  case True
  then show ?thesis
    using refresh_shown[OF sh i, of "drawn cs r"] snd by (simp add: draw_display_def display_update_def drawn_covers)
next
  case False
  then have "shown_on ord (set_display i (drawn cs r) s) is"
    using snd by (intro unseen_shown[OF sh]) simp_all
  then show ?thesis using False by (simp add: draw_display_def display_update_def)
qed

lemma hide_shown:
  assumes sh: "shown_on ord s is" and i: "i \<in> set is"
  shows "\<exists>s'. hide_display i s = Some s' \<and> shown_on ord s' is \<and> displayAt s' = (displayAt s)(i := (displayAt s i)\<lparr>isVisible := False\<rparr>) \<and>
    first_size s' = first_size s"
proof (cases "isVisible (displayAt s i)")
  case False
  then have "(displayAt s i)\<lparr>isVisible := False\<rparr> = displayAt s i" by simp
  then show ?thesis using False sh by (simp add: hide_display_def fun_upd_idem)
next
  case True
  let ?s = "set_display i (\<lambda>d. d\<lparr>isVisible := False\<rparr>) s" and ?r = "display_rect (displayAt s i)"
  have snd: "sound (displayAt s i)" using sh i by (simp add: shown_on_def desk_ok_def)
  then have ok: "desk_ok ord ?s is" using sh by (intro desk_ok_set) (simp_all add: shown_on_def sound_visible)
  have oks: "desk_ok ord s is" and dok: "display_ok (displayAt s i)" using sh snd by (simp_all add: shown_on_def sound_def)
  obtain s' where s': "update_area ?r (Some i) ?s = Some s'"
    "redraws (area_rule ord ?s is (takeWhile (\<lambda>j. Some j \<noteq> Some i) is) ?r) ?s s'"
    using update_area_effect[OF desk_okD(1,3,4)[OF ok]] by blast
  have "shown_on ord s' is"
  proof (rule shown_after[OF s'(2) only_at_set sh ok])
    fix x y c c' assume "fine ord s is x y c" "area_rule ord ?s is (takeWhile (\<lambda>j. Some j \<noteq> Some i) is) ?r x y c c'"
    from cleared_fine[OF oks only_at_set ok this] show "fine ord ?s is x y c'"
      using covers_rect[OF dok] by (simp add: invisible_covers)
  qed
  then show ?thesis using s'(1) redraws_keeps[OF s'(2)] True by (simp add: hide_display_def keeps_def)
qed

text \<open>The stack after a display has gone to the top of its layer.\<close>

definition raised :: "(nat \<Rightarrow> display) \<Rightarrow> nat \<Rightarrow> nat list \<Rightarrow> nat list" where
  "raised D i is =
     (let js = removeAll i is
      in takeWhile (\<lambda>j. layer (D j) \<le> layer (D i)) js @ i # dropWhile (\<lambda>j. layer (D j) \<le> layer (D i)) js)"

lemma raised_split:
  assumes "distinct (as @ i # zs @ bs)" "\<forall>j \<in> set (as @ zs). layer (D j) \<le> layer (D i)" "\<forall>j \<in> set bs. layer (D i) < layer (D j)"
  shows "raised D i (as @ i # zs @ bs) = as @ zs @ i # bs"
proof -
  have r: "removeAll i (as @ i # zs @ bs) = (as @ zs) @ bs" using assms(1) by auto
  have "takeWhile (\<lambda>j. layer (D j) \<le> layer (D i)) bs = []" "dropWhile (\<lambda>j. layer (D j) \<le> layer (D i)) bs = bs"
    using assms(3) by (cases bs; auto simp: not_le)+
  moreover have "takeWhile (\<lambda>j. layer (D j) \<le> layer (D i)) ((as @ zs) @ bs) = (as @ zs) @ takeWhile (\<lambda>j. layer (D j) \<le> layer (D i)) bs"
    "dropWhile (\<lambda>j. layer (D j) \<le> layer (D i)) ((as @ zs) @ bs) = dropWhile (\<lambda>j. layer (D j) \<le> layer (D i)) bs"
    using assms(2) by (blast intro: takeWhile_append2 dropWhile_append2)+
  ultimately show ?thesis unfolding raised_def Let_def r by simp
qed

lemma stack_pop:
  assumes "stack s (as @ i # bs)"
  shows "stack (on_links (pop i) s) (as @ bs)"
  using assms pop_repr[of "links s" as i bs] by (auto simp: stack_def sorted_append)

lemma desk_ok_links:
  assumes "desk_ok ord s is" "stack (on_links f s) is'" "length is' < two32" "set is' \<subseteq> set is"
  shows "desk_ok ord (on_links f s) is'"
  using assms by (auto simp: desk_ok_def screen_ok_def uniform_def)

lemma raise_shown:
  assumes sh: "shown_on ord s is" and i: "i \<in> set is"
  shows "\<exists>s'. raise_display i s = Some s' \<and> shown_on ord s' (raised (displayAt s) i is) \<and> displayAt s' = displayAt s \<and>
    first_size s' = first_size s"
proof -
  let ?lay = "\<lambda>j. layer (displayAt s j)"
  obtain as cs where is_eq: "is = as @ i # cs" using split_list[OF i] by auto
  have ok: "desk_ok ord s is" and st: "stack s (as @ i # cs)" using sh is_eq by (simp_all add: shown_on_def desk_ok_def)
  then have r: "repr (links s) (as @ i # cs)" and srt: "sorted (map ?lay cs)" and lo: "\<forall>j \<in> set as. ?lay j \<le> ?lay i" and hi: "\<forall>j \<in> set cs. ?lay i \<le> ?lay j"
    by (auto simp: stack_def sorted_append)
  obtain zs bs where sp: "cs = zs @ bs" and z: "\<forall>j \<in> set zs. ?lay j \<le> ?lay i" and b: "\<forall>j \<in> set bs. ?lay i < ?lay j"
    using split_after[OF srt] by blast
  have dist: "distinct (as @ i # zs @ bs)" using stack_distinct[OF st] sp by simp
  have rs: "raised (displayAt s) i is = as @ zs @ i # bs"
    unfolding is_eq sp by (rule raised_split[OF dist _ b]) (use lo z in auto)
  have nx: "nextp (fst (links s)) i = first_or cs None" using r by (simp add: repr_def)
  show ?thesis
  proof (cases "is_display_top i s")
    case True
    then have "zs = []" using nx sp z by (cases zs) (auto simp: is_display_top_def not_le split: option.splits)
    then have "raised (displayAt s) i is = is" using rs is_eq sp by simp
    then show ?thesis using True sh by (simp add: raise_display_def)
  next
    case False
    have p: "stack (on_links (pop i) s) ((as @ zs) @ bs)" using stack_pop[OF st] sp by simp
    have n: "length ((as @ zs) @ i # bs) < two32" using ok is_eq sp by (simp add: desk_ok_def)
    have "\<exists>l. insert_by_layer i (on_links (pop i) s) = Some (on_links (\<lambda>_. l) (on_links (pop i) s)) \<and>
        stack (on_links (\<lambda>_. l) (on_links (pop i) s)) ((as @ zs) @ i # bs)"
      by (rule insert_by_layer_top[OF p]) (use dist n lo z b in auto)
    then obtain l where l: "insert_by_layer i (on_links (pop i) s) = Some (on_links (\<lambda>_. l) s)" "stack (on_links (\<lambda>_. l) s) ((as @ zs) @ i # bs)"
      by (auto simp: on_links_def)
    let ?s = "on_links (\<lambda>_. l) s"
    have ok': "desk_ok ord ?s ((as @ zs) @ i # bs)" by (rule desk_ok_links[OF ok l(2) n]) (auto simp: is_eq sp)
    have o: "only_at i s ((as @ i # zs) @ bs) ?s ((as @ zs) @ i # bs)" by (simp add: only_at_def)
    have "shown_on ord s ((as @ i # zs) @ bs)" using sh is_eq sp by simp
    from redraw_shown[OF this o ok']
    obtain s' where "redraw_display i ?s = Some s'" "shown_on ord s' (as @ zs @ i # bs)" "keeps ?s s'" by auto
    then show ?thesis using False l(1) rs by (simp add: raise_display_def keeps_def)
  qed
qed

lemma filter_removed: "filter (\<lambda>j. j \<noteq> i) (as @ i # bs) = filter (\<lambda>j. j \<noteq> i) (as @ bs)"
  by simp

lemma delete_shown:
  assumes sh: "shown_on ord s is" and i: "i \<in> set is"
  shows "\<exists>s'. delete_display i s = Some s' \<and> shown_on ord s' (removeAll i is) \<and>
    displayAt s' = (displayAt s)(i := (displayAt s i)\<lparr>view := (view (displayAt s i))\<lparr>cells := None\<rparr>\<rparr>) \<and> first_size s' = first_size s"
proof -
  let ?r = "display_rect (displayAt s i)" and ?f = "\<lambda>d. d\<lparr>view := (view d)\<lparr>cells := None\<rparr>\<rparr>"
  define w where "w = (case thread (displayAt s i) of None \<Rightarrow> watchers s | Some t \<Rightarrow> remove1 (t, i) (watchers s))"
  define s0 where "s0 = on_links (pop i) (set_display i ?f (s\<lparr>watchers := w\<rparr>))"
  have s0: "links s0 = pop i (links s)" "displayAt s0 = (displayAt s)(i := ?f (displayAt s i))" "framebuffers s0 = framebuffers s"
    "totalArea s0 = totalArea s" "first_size s0 = first_size s"
    by (simp_all add: s0_def first_size_def)
  obtain as bs where sp: "is = as @ i # bs" using split_list[OF i] by auto
  have oks: "desk_ok ord s is" and snd: "sound (displayAt s i)" using sh i by (simp_all add: shown_on_def desk_ok_def)
  have st: "stack s (as @ i # bs)" using oks sp by (simp add: desk_ok_def)
  have dist: "distinct (as @ i # bs)" using stack_distinct[OF st] .
  have rm: "removeAll i is = as @ bs" using dist sp by simp
  have "layer (displayAt s0 j) = layer (displayAt s j)" for j by (simp add: s0)
  then have "stack s0 (as @ bs)" using stack_pop[OF st] by (simp add: stack_def s0(1))
  then have ok: "desk_ok ord s0 (as @ bs)" using oks dist by (auto simp: desk_ok_def s0 sp screen_ok_def uniform_def)
  have o: "only_at i s is s0 (as @ bs)" using dist by (simp add: only_at_def s0 sp)
  obtain s' where s': "update_area ?r None s0 = Some s'"
    "redraws (area_rule ord s0 (as @ bs) (takeWhile (\<lambda>j. Some j \<noteq> None) (as @ bs)) ?r) s0 s'"
    using update_area_effect[OF desk_okD(1,3,4)[OF ok]] by blast
  have "shown_on ord s' (as @ bs)"
  proof (rule shown_after[OF s'(2) o sh ok])
    fix x y c c' assume f: "fine ord s is x y c" "area_rule ord s0 (as @ bs) (takeWhile (\<lambda>j. Some j \<noteq> None) (as @ bs)) ?r x y c c'"
    have dok: "display_ok (displayAt s i)" using snd by (simp add: sound_def)
    from cleared_fine[OF oks o ok f] show "fine ord s0 (as @ bs) x y c'" using covers_rect[OF dok] dist by simp
  qed
  moreover have "contains i (links s) = Some True" using st contains_repr[of "links s" "as @ i # bs" i] by (simp add: stack_def)
  moreover have "(case thread (displayAt s i) of None \<Rightarrow> s | Some t \<Rightarrow> s\<lparr>watchers := remove1 (t, i) (watchers s)\<rparr>) = s\<lparr>watchers := w\<rparr>"
    by (simp add: w_def split: option.splits)
  ultimately show ?thesis
    using s'(1) redraws_keeps[OF s'(2)] s0(2,5) rm by (simp add: delete_display_def Let_def keeps_def s0_def[symmetric])
qed

text \<open>Moving: the strips that are uncovered, then the new place.\<close>

lemma update_areas_effect:
  assumes "desk_ok ord s is"
  shows "\<exists>s'. update_areas rs below s = Some s' \<and>
    redraws (\<lambda>x y c c'. (if \<exists>r \<in> set rs. rect_contains r x y
       then (\<forall>j. top_display s is x y = Some j \<longrightarrow> j \<in> set (takeWhile (\<lambda>i. Some i \<noteq> below) is)) \<or> solid_fine s is x y c \<longrightarrow> fine ord s is x y c'
       else c' = c)) s s'"
  using assms
proof (induction rs arbitrary: s)
  case Nil
  then show ?case using redraws_refl[OF desk_okD(3)[OF Nil]] by auto
next
  case (Cons r rs)
  let ?dr = "takeWhile (\<lambda>i. Some i \<noteq> below) is"
  obtain s1 where s1: "update_area r below s = Some s1" "redraws (area_rule ord s is ?dr r) s s1"
    using update_area_effect[OF desk_okD(1,3,4)[OF Cons.prems]] by blast
  have same: "top_display s1 = top_display s" "solid_fine s1 = solid_fine s" "fine ord s1 = fine ord s"
    by (simp_all add: top_display_def solid_fine_def fine_def pile_def redraws_same[OF s1(2)] fun_eq_iff)
  obtain s2 where s2: "update_areas rs below s1 = Some s2"
    "redraws (\<lambda>x y c c'. (if \<exists>r \<in> set rs. rect_contains r x y
       then (\<forall>j. top_display s is x y = Some j \<longrightarrow> j \<in> set ?dr) \<or> solid_fine s is x y c \<longrightarrow> fine ord s is x y c'
       else c' = c)) s1 s2"
    using Cons.IH[OF redraws_desk_ok[OF s1(2) Cons.prems]] unfolding same by blast
  have "if \<exists>r \<in> set (r # rs). rect_contains r x y
       then (\<forall>j. top_display s is x y = Some j \<longrightarrow> j \<in> set ?dr) \<or> solid_fine s is x y c \<longrightarrow> fine ord s is x y c2 else c2 = c"
    if a: "area_rule ord s is ?dr r x y c c1" and b: "if \<exists>r \<in> set rs. rect_contains r x y
       then (\<forall>j. top_display s is x y = Some j \<longrightarrow> j \<in> set ?dr) \<or> solid_fine s is x y c1 \<longrightarrow> fine ord s is x y c2 else c2 = c1" for x y c c1 c2
  proof (cases "rect_contains r x y")
    case False
    then show ?thesis using a b by (simp add: area_rule_def)
  next
    case True
    have "fine ord s is x y c2"
      if "(\<forall>j. top_display s is x y = Some j \<longrightarrow> j \<in> set ?dr) \<or> solid_fine s is x y c"
    proof -
      have f1: "fine ord s is x y c1" using area_fine[OF Cons.prems a] that True by blast
      from fine_solid[OF desk_okD(5)[OF Cons.prems] this] f1 b show ?thesis by presburger
    qed
    then show ?thesis using True by simp
  qed
  from redraws_trans[OF s1(2) s2(2) this] show ?case using s1(1) s2(1) by (auto simp: fun_eq_iff)
qed

lemma exposed_cover:
  assumes "rect_contains w x y"
  shows "(\<exists>r \<in> set (exposed old new w). rect_contains r x y) \<longleftrightarrow> rect_contains old x y \<and> \<not> rect_contains new x y"
proof -
  have c: "rect_contains (rect_intersect old (mk_rect a b c d)) x y \<longleftrightarrow> rect_contains old x y \<and> a \<le> x \<and> x < c \<and> b \<le> y \<and> y < d" for a b c d
    unfolding rect_intersect_def squash_contains by (auto simp: rect_contains_def mk_rect_def)
  have in_cond: "(\<exists>r \<in> set (if P then [q] else []). Q r) \<longleftrightarrow> P \<and> Q q" for P Q and q :: rect by simp
  have w: "x1 w \<le> x" "x < x2 w" "y1 w \<le> y" "y < y2 w" using assms by (auto simp: rect_contains_def)
  have new: "rect_contains new x y \<longleftrightarrow> x1 new \<le> x \<and> x < x2 new \<and> y1 new \<le> y \<and> y < y2 new" by (auto simp: rect_contains_def)
  show ?thesis unfolding exposed_def set_append bex_Un in_cond c new using w by (cases "rect_contains old x y") auto
qed

definition placed_rule :: "order \<Rightarrow> desk \<Rightarrow> nat list \<Rightarrow> nat list \<Rightarrow> rect \<Rightarrow> int \<Rightarrow> int \<Rightarrow> u32 \<Rightarrow> u32 \<Rightarrow> bool" where
  "placed_rule ord s is lower N x y c c' \<longleftrightarrow>
     (if rect_contains N x y
      then (\<forall>j. top_display s is x y = Some j \<longrightarrow> j \<in> set lower) \<or> solid_fine s is x y c \<longrightarrow> fine ord s is x y c'
      else fine ord s is x y c \<longrightarrow> fine ord s is x y c')"

lemma place_effect:
  assumes ok: "desk_ok ord s (as @ i # bs)" and vis: "isVisible (displayAt s i)"
  defines "d \<equiv> displayAt s i"
  defines "N \<equiv> display_rect d"
  shows "\<exists>s'. do { s \<leftarrow> update_area_solid N (Some i) s;
      s \<leftarrow> update_display_area_solid i (rect_intersect (shift N (- posX d) (- posY d)) (solidArea d)) s;
      update_area_transparency N s } = Some s' \<and> redraws (placed_rule ord s (as @ i # bs) (as @ [i]) N) s s'"
proof -
  let ?is = "as @ i # bs" and ?r = "rect_intersect (shift N (- posX d) (- posY d)) (solidArea d)"
  note k = desk_okD[OF ok]
  have dk: "display_ok d" using k(2) vis by (simp add: displays_ok_def d_def)
  have tw: "takeWhile (\<lambda>j. Some j \<noteq> Some i) ?is = as" using k(6) by (subst takeWhile_append2) auto
  obtain s1 where s1: "update_area_solid N (Some i) s = Some s1" "redraws (picture_rule s ?is as N) s s1"
    using update_area_solid_effect[OF k(5,3,2), of N "Some i"] unfolding tw by blast
  note same = redraws_same[OF s1(2)]
  have k1: "repr (links s1) ?is" "screen_ok s1" "isVisible (displayAt s1 i)" "display_ok (displayAt s1 i)" "displays_ok s1 bs"
    using k(5) redraws_screen_ok[OF s1(2) k(3)] vis dk k(2) by (simp_all add: same d_def displays_ok_def)
  have "display_rule s1 i bs ?r = display_rule s i bs ?r" unfolding display_rule_def covered_def same ..
  then obtain s2 where s2: "update_display_area_solid i ?r s1 = Some s2" "redraws (display_rule s i bs ?r) s1 s2"
    using update_display_effect[OF k1, of ?r] by auto
  have s02: "redraws (\<lambda>x y c c2. \<exists>c1. picture_rule s ?is as N x y c c1 \<and> display_rule s i bs ?r x y c1 c2) s s2"
    by (rule redraws_trans[OF s1(2) s2(2)]) blast
  obtain s3 where s3: "update_area_transparency N s2 = Some s3" "redraws (transparency_rule ord s ?is N) s2 s3"
    using update_area_transparency_effect[OF desk_okD(1,3,4)[OF redraws_desk_ok[OF s02 ok]], of N]
    unfolding redraws_stack(2)[OF s02] by blast
  have "placed_rule ord s ?is (as @ [i]) N x y c c3"
    if ex: "\<exists>c1. picture_rule s ?is as N x y c c1 \<and> display_rule s i bs ?r x y c1 c2" and t: "transparency_rule ord s ?is N x y c2 c3" for x y c c2 c3
  proof -
    obtain c1 where c1: "picture_rule s ?is as N x y c c1" "display_rule s i bs ?r x y c1 c2" using ex by blast
    have c2: "c2 = (if top_display s ?is x y = Some i \<and> rect_contains N x y \<and> solid_at d x y then screen_pixel d x y else c1)"
      using c1(2) unfolding display_rule_def d_def shifted_part top_display_at[OF k(6)] by auto
    show ?thesis
    proof (cases "rect_contains N x y")
      case False
      then have "c2 = c" using c1(1) c2 by (simp add: picture_rule_def)
      then show ?thesis using False transparency_fine[OF ok t] by (simp add: placed_rule_def)
    next
      case True
      have "solid_fine s ?is x y c2" if "(\<forall>j. top_display s ?is x y = Some j \<longrightarrow> j \<in> set (as @ [i])) \<or> solid_fine s ?is x y c"
      proof (cases "top_display s ?is x y")
        case (Some j)
        have "i \<notin> set as" using k(6) by simp
        then show ?thesis using that c1(1) c2 Some True by (auto simp: solid_fine_def picture_rule_def d_def)
      qed (simp add: solid_fine_def)
      then show ?thesis using True transparency_fine[OF ok t] by (simp add: placed_rule_def)
    qed
  qed
  from redraws_trans[OF s02 s3(2) this] show ?thesis using s1(1) s2(1) s3(1) by auto
qed

lemma move_shown:
  assumes sh: "shown_on ord s is" and i: "i \<in> set is"
  shows "\<exists>s'. move_display_to i x y True s = Some s' \<and> shown_on ord s' is \<and>
    displayAt s' = (displayAt s)(i := (displayAt s i)\<lparr>posX := x, posY := y\<rparr>) \<and> first_size s' = first_size s"
proof (cases "posX (displayAt s i) = x \<and> posY (displayAt s i) = y")
  case True
  then have "(displayAt s i)\<lparr>posX := x, posY := y\<rparr> = displayAt s i" by auto
  then show ?thesis using True sh by (simp add: move_display_to_def fun_upd_idem)
next
  case moved: False
  let ?f = "\<lambda>d. d\<lparr>posX := x, posY := y\<rparr>" and ?d = "displayAt s i"
  let ?s = "set_display i ?f s"
  have snd: "sound ?d" using sh i by (simp add: shown_on_def desk_ok_def)
  then have snd': "sound (?f ?d)" by (simp only: sound_move)
  show ?thesis
  proof (cases "isVisible ?d")
    case False
    then have "shown_on ord ?s is" using snd' by (intro unseen_shown[OF sh]) simp_all
    then show ?thesis using False moved by (auto simp: move_display_to_def Let_def)
  next
    case True
    let ?old = "display_rect ?d" and ?new = "display_rect (?f ?d)" and ?w = "totalArea s"
    obtain as bs where sp: "is = as @ i # bs" using split_list[OF i] by auto
    have oks: "desk_ok ord s ((as @ [i]) @ bs)" using sh sp by (simp add: shown_on_def)
    have ok: "desk_ok ord ?s (as @ i # bs)" using sh snd' unfolding sp by (intro desk_ok_set) (simp_all add: shown_on_def)
    have dist: "distinct (as @ i # bs)" using desk_okD(6)[OF ok] .
    have tw: "takeWhile (\<lambda>j. Some j \<noteq> Some i) (as @ i # bs) = as" using dist by (subst takeWhile_append2) auto
    let ?top = "top_display ?s (as @ i # bs)" and ?sf = "solid_fine ?s (as @ i # bs)" and ?fine = "fine ord ?s (as @ i # bs)"
    let ?A = "\<lambda>u v c c'. (if \<exists>r \<in> set (exposed ?old ?new ?w). rect_contains r u v
       then (\<forall>j. ?top u v = Some j \<longrightarrow> j \<in> set as) \<or> ?sf u v c \<longrightarrow> ?fine u v c' else c' = c)"
    obtain s1 where s1: "update_areas (exposed ?old ?new ?w) (Some i) ?s = Some s1" "redraws ?A ?s s1"
      using update_areas_effect[OF ok, of "exposed ?old ?new ?w" "Some i"] unfolding tw by blast
    note same = redraws_same[OF s1(2)]
    have vis1: "isVisible (displayAt s1 i)" using True by (simp add: same)
    have eq: "placed_rule ord s1 = placed_rule ord ?s"
      by (simp add: placed_rule_def solid_fine_def fine_def pile_def top_display_def same fun_eq_iff)
    obtain s2 where s2: "do { s \<leftarrow> update_area_solid ?new (Some i) s1;
        s \<leftarrow> update_display_area_solid i (rect_intersect (shift ?new (- x) (- y)) (solidArea ?d)) s;
        update_area_transparency ?new s } = Some s2" "redraws (placed_rule ord ?s (as @ i # bs) (as @ [i]) ?new) s1 s2"
      using place_effect[OF redraws_desk_ok[OF s1(2) ok] vis1] unfolding eq by (auto simp: same)
    have r: "redraws (\<lambda>u v c c'. \<exists>c1. ?A u v c c1 \<and> placed_rule ord ?s (as @ i # bs) (as @ [i]) ?new u v c1 c') ?s s2"
      by (rule redraws_trans[OF s1(2) s2(2)]) blast
    have o: "only_at i s ((as @ [i]) @ bs) ?s (as @ i # bs)" using only_at_set[of i s "as @ i # bs"] by simp
    have "shown_on ord s2 (as @ i # bs)"
    proof (rule shown_after[OF r o _ ok])
      show "shown_on ord s ((as @ [i]) @ bs)" using sh sp by simp
      fix u v c c' assume w: "rect_contains ?w u v" and f: "fine ord s ((as @ [i]) @ bs) u v c"
        and "\<exists>c1. ?A u v c c1 \<and> placed_rule ord ?s (as @ i # bs) (as @ [i]) ?new u v c1 c'"
      then obtain c1 where a: "?A u v c c1" and p: "placed_rule ord ?s (as @ i # bs) (as @ [i]) ?new u v c1 c'" by blast
      have ab: "(\<forall>j. ?top u v = Some j \<longrightarrow> j \<in> set (as @ [i])) \<or> ?sf u v c"
        using still_fine[OF oks f, of ?s as i] dist by fastforce
      have dk: "display_ok ?d" "display_ok (?f ?d)" using snd snd' by (simp_all add: sound_def)
      show "?fine u v c'"
      proof (cases "rect_contains ?new u v")
        case True
        then have "c1 = c" using a unfolding exposed_cover[OF w] by simp
        then show ?thesis using p True ab unfolding placed_rule_def by presburger
      next
        case False
        then have nc: "\<not> covers_at (?f ?d) u v" using covers_rect[OF dk(2)] by blast
        have "?fine u v c1"
        proof (cases "rect_contains ?old u v")
          case True
          have "?top u v \<noteq> Some i" using top_display_in[of ?s "as @ i # bs" u v i] nc by auto
          then have "(\<forall>j. ?top u v = Some j \<longrightarrow> j \<in> set as) \<or> ?sf u v c" using ab by auto
          then show ?thesis using a True False unfolding exposed_cover[OF w] by simp
        next
          case no: False
          then have "c1 = c" using a unfolding exposed_cover[OF w] by simp
          moreover have "\<not> covers_at ?d u v" using covers_rect[OF dk(1)] no by blast
          ultimately show ?thesis using f fine_elsewhere[OF o, of u v ord c] nc by simp
        qed
        then show ?thesis using p False by (simp add: placed_rule_def)
      qed
    qed
    moreover have "move_display_to i x y True s = Some s2"
      using True s1(1) s2(1) unfolding move_display_to_def Let_def if_not_P[OF moved] by simp
    ultimately show ?thesis using redraws_keeps[OF r] sp by (simp add: keeps_def)
  qed
qed

text \<open>Placing a display above one that is in front of it. (Placing it behind leaves what it uncovers as it was.)\<close>

lemma sound_layer: "sound (d\<lparr>layer := lay\<rparr>) = sound d" and covers_layer: "covers_at (d\<lparr>layer := lay\<rparr>) = covers_at d"
proof -
  let ?e = "d\<lparr>layer := lay\<rparr>"
  have m: "get_left_margin ?e = get_left_margin d" "get_right_margin ?e = get_right_margin d" by (rule margin_cong; simp)+
  then show "sound ?e = sound d"
    by (simp add: sound_def display_ok_def corners_ok_def solid_at_def screen_pixel_def view_pixel_def view_index_def row_left_def
        row_right_def in_rows_def wide_def tall_def get_width_def get_height_def)
  show "covers_at ?e = covers_at d"
    using m by (simp add: covers_at_def row_left_def row_right_def in_rows_def wide_def tall_def get_width_def get_height_def fun_eq_iff)
qed

lemma above_shown:
  assumes sh: "shown_on ord s (as @ i # zs @ other # bs)"
  shows "\<exists>s'. place_above i other s = Some s' \<and> shown_on ord s' (as @ zs @ other # i # bs) \<and>
    displayAt s' = (displayAt s)(i := (displayAt s i)\<lparr>layer := layer (displayAt s other)\<rparr>) \<and> first_size s' = first_size s"
proof -
  let ?f = "\<lambda>d. d\<lparr>layer := layer (displayAt s other)\<rparr>"
  let ?s = "on_links (insert_after other i) (set_display i ?f (on_links (pop i) s))"
  have oks: "desk_ok ord s (as @ i # zs @ other # bs)" using sh by (simp add: shown_on_def)
  then have st: "stack s (as @ i # zs @ other # bs)" by (simp add: desk_ok_def)
  have dist: "distinct (as @ i # zs @ other # bs)" using stack_distinct[OF st] .
  have r: "repr (pop i (links s)) ((as @ zs) @ other # bs)" using st pop_repr[of "links s" as i "zs @ other # bs"] by (simp add: stack_def)
  have r': "repr (links ?s) ((as @ zs) @ other # i # bs)" using insert_after_repr[OF r, of i] dist by simp
  have lay: "layer (displayAt ?s j) = (if j = i then layer (displayAt s other) else layer (displayAt s j))" for j by simp
  have "sorted (map (\<lambda>d. layer (displayAt ?s d)) ((as @ zs) @ other # i # bs))"
  proof -
    have m: "map (\<lambda>d. layer (displayAt ?s d)) ((as @ zs) @ other # i # bs) =
        map (\<lambda>d. layer (displayAt s d)) ((as @ zs) @ [other]) @ layer (displayAt s other) # map (\<lambda>d. layer (displayAt s d)) bs"
      using dist by (auto simp: lay)
    show ?thesis unfolding m using st by (auto simp: stack_def sorted_append)
  qed
  then have st': "stack ?s ((as @ zs) @ other # i # bs)" using r' by (simp add: stack_def)
  have "\<forall>j \<in> set (as @ zs @ other # i # bs). sound (displayAt ?s j)" using oks sound_layer by (auto simp: desk_ok_def)
  then have ok: "desk_ok ord ?s ((as @ zs @ [other]) @ i # bs)" using oks st' by (simp add: desk_ok_def screen_ok_def uniform_def)
  have o: "only_at i s ((as @ i # zs @ [other]) @ bs) ?s ((as @ zs @ [other]) @ i # bs)"
    using dist by (simp add: only_at_def)
  have "shown_on ord s ((as @ i # zs @ [other]) @ bs)" using sh by simp
  from redraw_shown[OF this o ok]
  obtain s' where "redraw_display i ?s = Some s'" "shown_on ord s' (as @ zs @ other # i # bs)" "keeps ?s s'"
    by (auto simp: covers_layer)
  then show ?thesis by (simp add: place_above_def keeps_def)
qed

text \<open>A new display is not visible, so the picture does not change.\<close>

definition new_ok :: "u32 \<Rightarrow> u32 \<Rightarrow> u8 \<Rightarrow> nat \<Rightarrow> bool" where
  "new_ok w h sc n \<longleftrightarrow> 0 < w \<and> sc \<in> {1, 2, 3, 4} \<and> uint w * uint sc < 2147483648 \<and> uint h * uint sc < 2147483648 \<and>
     unat w * unat h \<le> n"

lemma sint_small:
  fixes w :: u32
  assumes "uint w < 2147483648"
  shows "sint w = uint w"
  using sint_mult[of w 1] assms by simp

lemma sound_plain:
  assumes new: "new_ok w h (dscale d) n" and v: "bwidth (view d) = w" "bheight (view d) = h" "pitch (view d) = unat w" "cells (view d) = Some (replicate n 0)"
    and r: "0 \<le> x1 (solidArea d)" "0 < x2 (solidArea d)" "x2 (solidArea d) \<le> uint w" "0 \<le> y1 (solidArea d)" "y2 (solidArea d) \<le> uint h"
    and corners: "topLeftCorner d = (\<lambda>_. 0)" "topRightCorner d = (\<lambda>_. 0)" "bottomLeftCorner d = (\<lambda>_. 0)" "bottomRightCorner d = (\<lambda>_. 0)"
  shows "sound d"
proof -
  let ?k = "uint (dscale d)"
  have sc: "1 \<le> ?k" and w: "0 < uint w" using new by (auto simp: new_ok_def word_less_def)
  have lim: "uint w * ?k < 2147483648" "uint h * ?k < 2147483648" using new by (simp_all add: new_ok_def)
  have le: "uint w \<le> uint w * ?k" "uint h \<le> uint h * ?k" using sc mult_left_mono[of 1 ?k] by simp_all
  have u: "uint (ucast (dscale d) :: u32) = ?k" by (simp add: uint_up_ucast is_up)
  have size: "wide d = uint w * ?k" "tall d = uint h * ?k"
    using lim by (simp_all add: wide_def tall_def get_width_def get_height_def sint_mult u v)
  have m: "get_left_margin d z = 0" "get_right_margin d z = 0" for z
    by (simp_all add: get_left_margin_def get_right_margin_def corners Let_def)
  have row: "row_left d z = posX d" "row_right d z = posX d + uint w * ?k" for z
    by (simp_all add: row_left_def row_right_def m size)
  have "shaped (view d)" using new by (simp add: shaped_def v new_ok_def)
  moreover have "0 < uint w * ?k" using w le by linarith
  ultimately have "display_ok d" using new le r by (simp add: display_ok_def size row new_ok_def v)
  moreover have "corners_ok d" using r(2) by (simp add: corners_ok_def row)
  moreover have "drop_bit 24 (screen_pixel d x y) = 0" if "solid_at d x y" for x y
  proof -
    let ?x = "(x - posX d) div ?k" and ?y = "(y - posY d) div ?k"
    have le_div: "a div ?k \<le> a" if "0 \<le> a" for a using zdiv_mono2[OF that, of 1 ?k] sc by simp
    have pos: "0 \<le> x - posX d" "x - posX d < uint w" "0 \<le> y - posY d" "y - posY d < uint h"
      using that r unfolding solid_at_def rect_contains_def by linarith+
    then have x: "0 \<le> ?x" "?x < uint w" and y: "0 \<le> ?y" "?y < uint h"
      using sc le_div[OF pos(1)] le_div[OF pos(3)] by (simp_all add: pos_imp_zdiv_nonneg_iff)
    have "?y * uint w + ?x < (?y + 1) * uint w" using x by (simp add: distrib_right)
    also have "\<dots> \<le> uint h * uint w" using y w by (intro mult_right_mono) simp_all
    also have "\<dots> \<le> int n"
      using new unfolding new_ok_def by (metis mult.commute of_nat_le_iff of_nat_mult uint_nat)
    finally have lt: "?y * uint w + ?x < int n" .
    have "0 \<le> ?y * uint w + ?x" using x(1) y(1) by simp
    then have "nat (?y * uint w + ?x) < n" using lt by (simp only: nat_less_iff)
    then show ?thesis by (simp add: screen_pixel_def view_pixel_def view_index_def v)
  qed
  ultimately show ?thesis by (simp add: sound_def)
qed

lemma sound_new:
  assumes "new_ok w h sc n"
  shows "sound (new_display ord fw fh owner lay w h sc n)"
proof (rule sound_plain)
  show "new_ok w h (dscale (new_display ord fw fh owner lay w h sc n)) n" using assms by (simp add: new_display_def)
  have sc: "1 \<le> uint sc" and w: "0 < uint w" using assms by (auto simp: new_ok_def word_less_def)
  then have "uint w \<le> uint w * uint sc" "uint h \<le> uint h * uint sc" using mult_left_mono[of 1 "uint sc"] by simp_all
  then have "sint w = uint w" "sint h = uint h" using assms by (simp_all add: sint_small new_ok_def)
  then have a: "solidArea (new_display ord fw fh owner lay w h sc n) = mk_rect 0 0 (uint w) (uint h)" by (simp add: new_display_def)
  let ?r = "solidArea (new_display ord fw fh owner lay w h sc n)"
  show "0 \<le> x1 ?r" "0 < x2 ?r" "x2 ?r \<le> uint w" "0 \<le> y1 ?r" "y2 ?r \<le> uint h" using w by (simp_all add: a mk_rect_def)
qed (simp_all add: new_display_def)

lemma create_shown:
  fixes owner :: "nat option" and lay :: u8
  assumes sh: "shown_on ord s is" and i: "i \<notin> set is" and n: "length is + 1 < two32" and ok: "new_ok w h sc (length cs)"
    and fs: "first_size s = Some (fw, fh)"
  defines "D \<equiv> (displayAt s)(i := new_display ord fw fh owner lay w h sc (length cs))"
  shows "\<exists>s'. create_view owner lay w h sc (Some cs) (Some i) s = Some (Some i, s') \<and> shown_on ord s' (raised D i is) \<and>
    displayAt s' = D \<and> first_size s' = Some (fw, fh)"
proof -
  let ?d = "new_display ord fw fh owner lay w h sc (length cs)" and ?lay = "\<lambda>j. layer (D j)"
  let ?s = "set_display i (\<lambda>_. ?d) s"
  have oks: "desk_ok ord s is" using sh by (simp add: shown_on_def)
  obtain fb fbs b where fb: "framebuffers s = fb # fbs" "fbBuffer fb = Some b" "bwidth b = fw" "bheight b = fh"
    using fs by (auto simp: first_size_def split: list.splits)
  then have "border b = ord" using oks by (auto simp: desk_ok_def uniform_def)
  have D: "displayAt ?s = D" by (simp add: D_def)
  have "\<forall>j \<in> set is. D j = displayAt s j" using i by (auto simp: D_def)
  then have mp: "map ?lay is = map (\<lambda>j. layer (displayAt s j)) is" by simp
  have st: "stack ?s is" using oks by (simp add: desk_ok_def stack_def D mp del: set_display_simps(5))
  have srt: "sorted (map ?lay is)" unfolding mp using oks by (simp add: desk_ok_def stack_def)
  obtain as bs where sp: "is = as @ bs" and a: "\<forall>j \<in> set as. ?lay j \<le> ?lay i" and b: "\<forall>j \<in> set bs. ?lay i < ?lay j"
    using split_after[OF srt] by blast
  have rs: "raised D i is = as @ i # bs"
  proof -
    have "takeWhile (\<lambda>j. ?lay j \<le> ?lay i) bs = []" "dropWhile (\<lambda>j. ?lay j \<le> ?lay i) bs = bs" using b by (cases bs; auto simp: not_le)+
    then show ?thesis using a i by (simp add: raised_def sp Let_def takeWhile_append dropWhile_append)
  qed
  have "\<exists>l. insert_by_layer i ?s = Some (on_links (\<lambda>_. l) ?s) \<and> stack (on_links (\<lambda>_. l) ?s) (as @ i # bs)"
    by (rule insert_by_layer_top) (use st i n a b sp in \<open>simp_all add: D del: set_display_simps(5)\<close>)
  then obtain l where l: "insert_by_layer i ?s = Some (on_links (\<lambda>_. l) ?s)" "stack (on_links (\<lambda>_. l) ?s) (as @ i # bs)" by blast
  define ws where "ws = (case owner of None \<Rightarrow> watchers s | Some t \<Rightarrow> watchers s @ [(t, i)])"
  let ?s' = "(on_links (\<lambda>_. l) ?s)\<lparr>watchers := ws\<rparr>"
  have "stack ?s' (as @ i # bs)" using l(2) by (simp add: stack_def)
  moreover have "\<forall>j \<in> set (as @ i # bs). sound (D j)" using oks i sound_new[OF ok] by (auto simp: desk_ok_def sp D_def)
  ultimately have ok': "desk_ok ord ?s' (as @ i # bs)" using oks n by (simp add: desk_ok_def sp D screen_ok_def uniform_def del: set_display_simps(5))
  have o: "only_at i s is ?s' (as @ i # bs)" by (simp add: only_at_def sp)
  have un: "\<not> covers_at (displayAt ?s' i) x y" for x y by (simp add: covers_at_def new_display_def)
  have "redraws (\<lambda>x y c c'. c' = c) ?s' ?s'" by (rule redraws_refl[OF desk_okD(3)[OF ok']]) simp
  then have "shown_on ord ?s' (as @ i # bs)"
    by (rule shown_after[OF _ o sh ok']) (use fine_elsewhere[OF o disjI2[OF i] disjI1[OF un]] in simp)
  moreover have "create_view owner lay w h sc (Some cs) (Some i) s = Some (Some i, ?s')"
    using fb \<open>border b = ord\<close> l(1) by (simp add: create_view_def ws_def split: option.splits)
  moreover have "first_size ?s' = first_size s" by (simp add: first_size_def)
  ultimately show ?thesis using rs fs by (simp add: D del: set_display_simps(5))
qed

end
