(* ===== verification/Scenes.thy ===== *)
theory Scenes
  imports DeskRuns
begin

text \<open>
  Runs of the display manager: what its users ask for is a list of acts, what they should get is a scene, the displays and their
  stack, and after any run the framebuffers show the scene. Then what single operations do to the stack and to the picture.
\<close>

section \<open>Runs\<close>

text \<open>What users of displays ask for, what it means for the displays and their stack (bottom first), and when it may be asked.\<close>

datatype act =
    Create nat "nat option" u8 u32 u32 u8 "u32 list"
  | Show nat
  | Hide nat
  | Draw nat "u32 list" rect
  | Raise nat
  | Above nat nat
  | Move nat int int
  | Delete nat

fun perform :: "act \<Rightarrow> desk \<Rightarrow> desk option" where
  "perform (Create i owner lay w h sc cs) s = map_option snd (create_view owner lay w h sc (Some cs) (Some i) s)"
| "perform (Show i) s = show_display i True s"
| "perform (Hide i) s = hide_display i s"
| "perform (Draw i cs r) s = draw_display i cs r s"
| "perform (Raise i) s = raise_display i s"
| "perform (Above i other) s = place_above i other s"
| "perform (Move i x y) s = move_display_to i x y True s"
| "perform (Delete i) s = delete_display i s"

primrec performs :: "act list \<Rightarrow> desk \<Rightarrow> desk option" where
  "performs [] s = Some s"
| "performs (a # as) s = Option.bind (perform a s) (performs as)"

type_synonym scene = "(nat \<Rightarrow> display) \<times> nat list"

fun after_display :: "nat \<Rightarrow> nat \<Rightarrow> nat list \<Rightarrow> nat list" where
  "after_display i other [] = []"
| "after_display i other (j # js) =
     (if j = other then j # i # js else if j = i then after_display i other js else j # after_display i other js)"

fun scene_step :: "order \<Rightarrow> u32 \<Rightarrow> u32 \<Rightarrow> act \<Rightarrow> scene \<Rightarrow> scene" where
  "scene_step ord fw fh (Create i owner lay w h sc cs) (D, is) =
     (let D = D(i := new_display ord fw fh owner lay w h sc (length cs)) in (D, raised D i is))"
| "scene_step ord fw fh (Show i) (D, is) = (D(i := (D i)\<lparr>isVisible := True\<rparr>), is)"
| "scene_step ord fw fh (Hide i) (D, is) = (D(i := (D i)\<lparr>isVisible := False\<rparr>), is)"
| "scene_step ord fw fh (Draw i cs r) (D, is) = (D(i := drawn cs r (D i)), is)"
| "scene_step ord fw fh (Raise i) (D, is) = (D, raised D i is)"
| "scene_step ord fw fh (Above i other) (D, is) = (D(i := (D i)\<lparr>layer := layer (D other)\<rparr>), after_display i other is)"
| "scene_step ord fw fh (Move i x y) (D, is) = (D(i := (D i)\<lparr>posX := x, posY := y\<rparr>), is)"
| "scene_step ord fw fh (Delete i) (D, is) = (D(i := (D i)\<lparr>view := (view (D i))\<lparr>cells := None\<rparr>\<rparr>), removeAll i is)"

fun allowed :: "act \<Rightarrow> scene \<Rightarrow> bool" where
  "allowed (Create i owner lay w h sc cs) (D, is) \<longleftrightarrow> i \<notin> set is \<and> length is + 1 < two32 \<and> new_ok w h sc (length cs)"
| "allowed (Draw i cs r) (D, is) \<longleftrightarrow> i \<in> set is \<and> sound (drawn cs r (D i))"
| "allowed (Above i other) (D, is) \<longleftrightarrow> (\<exists>as zs bs. is = as @ i # zs @ other # bs)"
| "allowed (Show i) (D, is) \<longleftrightarrow> i \<in> set is"
| "allowed (Hide i) (D, is) \<longleftrightarrow> i \<in> set is"
| "allowed (Raise i) (D, is) \<longleftrightarrow> i \<in> set is"
| "allowed (Move i x y) (D, is) \<longleftrightarrow> i \<in> set is"
| "allowed (Delete i) (D, is) \<longleftrightarrow> i \<in> set is"

primrec scene_run :: "order \<Rightarrow> u32 \<Rightarrow> u32 \<Rightarrow> act list \<Rightarrow> scene \<Rightarrow> scene" where
  "scene_run ord fw fh [] sc = sc"
| "scene_run ord fw fh (a # as) sc = scene_run ord fw fh as (scene_step ord fw fh a sc)"

primrec all_allowed :: "order \<Rightarrow> u32 \<Rightarrow> u32 \<Rightarrow> act list \<Rightarrow> scene \<Rightarrow> bool" where
  "all_allowed ord fw fh [] sc \<longleftrightarrow> True"
| "all_allowed ord fw fh (a # as) sc \<longleftrightarrow> allowed a sc \<and> all_allowed ord fw fh as (scene_step ord fw fh a sc)"

lemma after_display_split: "distinct (as @ i # zs @ other # bs) \<Longrightarrow> after_display i other (as @ i # zs @ other # bs) = as @ zs @ other # i # bs"
proof (induction as)
  case Nil
  then show ?case by (induction zs) auto
qed auto

lemma perform_shown:
  assumes sh: "shown_on ord s is" and fs: "first_size s = Some (fw, fh)" and al: "allowed a (displayAt s, is)"
  shows "\<exists>s' is'. perform a s = Some s' \<and> scene_step ord fw fh a (displayAt s, is) = (displayAt s', is') \<and> shown_on ord s' is' \<and>
    first_size s' = Some (fw, fh)"
proof (cases a)
  case (Create i owner lay w h sc cs)
  then show ?thesis using create_shown[OF sh _ _ _ fs, of i w h sc cs owner lay] al by (auto simp: Let_def)
next
  case (Above i other)
  then obtain as zs bs where sp: "is = as @ i # zs @ other # bs" using al by auto
  have "desk_ok ord s (as @ i # zs @ other # bs)" using sh sp by (simp add: shown_on_def)
  then have "distinct (as @ i # zs @ other # bs)" by (rule desk_okD(6))
  then show ?thesis using above_shown[OF sh[unfolded sp]] after_display_split Above fs sp by auto
next
  case (Show i)
  then show ?thesis using show_shown[OF sh, of i] al fs by auto
next
  case (Hide i)
  then show ?thesis using hide_shown[OF sh, of i] al fs by auto
next
  case (Draw i cs r)
  then show ?thesis using draw_shown[OF sh, of i cs r] al fs by auto
next
  case (Raise i)
  then show ?thesis using raise_shown[OF sh, of i] al fs by auto
next
  case (Move i x y)
  then show ?thesis using move_shown[OF sh, of i x y] al fs by auto
next
  case (Delete i)
  then show ?thesis using delete_shown[OF sh, of i] al fs by auto
qed

lemma performs_shown:
  "shown_on ord s is \<Longrightarrow> first_size s = Some (fw, fh) \<Longrightarrow> all_allowed ord fw fh acts (displayAt s, is) \<Longrightarrow>
    \<exists>s' is'. performs acts s = Some s' \<and> scene_run ord fw fh acts (displayAt s, is) = (displayAt s', is') \<and> shown_on ord s' is'"
proof (induction acts arbitrary: s "is")
  case (Cons a acts)
  obtain s1 is1 where s1: "perform a s = Some s1" "scene_step ord fw fh a (displayAt s, is) = (displayAt s1, is1)" "shown_on ord s1 is1"
    "first_size s1 = Some (fw, fh)"
    using perform_shown[OF Cons.prems(1,2), of a] Cons.prems(3) by auto
  then show ?case using Cons.IH[OF s1(3,4)] Cons.prems(3) by simp
qed simp

section \<open>An example: two displays on a small screen\<close>

definition first_desk :: desk where
  "first_desk =
     \<lparr>links = (\<lparr>nextp = \<lambda>_. None, prevp = \<lambda>_. None\<rparr>, empty_llist), displayAt = (\<lambda>_. new_display bgra 40 30 None 0 16 20 1 320),
      framebuffers = [\<lparr>fbDriver = 0, driverFramebuffer = 0,
        fbBuffer = Some \<lparr>border = bgra, bwidth = 40, bheight = 30, pitch = 40, cells = Some (replicate 1200 0)\<rparr>, area = mk_rect 0 0 40 30\<rparr>],
      totalArea = mk_rect 0 0 40 30, watchers = []\<rparr>"

definition first_acts :: "act list" where
  "first_acts =
     [Create 3 None 0 16 20 1 (replicate 320 0), Create 4 (Some 5) 1 16 20 1 (replicate 320 0), Draw 3 (replicate 320 0) (mk_rect 0 0 16 10),
      Show 3, Show 4, Move 3 3 4, Above 3 4, Raise 4, Hide 4]"

lemma first_shown: "shown_on bgra first_desk []"
  by (simp add: shown_on_def desk_ok_def stack_def first_desk_def repr_empty screen_ok_def uniform_def shows_stack_def fine_def pile_def
      shaped_def mk_rect_def)

lemma first_desk_size: "first_size first_desk = Some (40, 30)"
  by (simp add: first_size_def first_desk_def)

lemma new_small: "new_ok 16 20 1 320"
  by (simp add: new_ok_def)

lemma first_drawn: "sound (drawn (replicate 320 0) (mk_rect 0 0 16 10) (new_display bgra 40 30 None 0 16 20 1 320))"
  by (rule sound_plain[of 16 20 _ 320]) (simp_all add: drawn_def new_display_def new_small mk_rect_def)

lemma first_allowed: "all_allowed bgra 40 30 first_acts (displayAt first_desk, [])"
proof -
  have "allowed (Above 3 4) (D, [3, 4])" for D unfolding allowed.simps by (intro exI[of _ "[]"]) simp
  then show ?thesis using first_drawn new_small
    by (simp add: first_acts_def raised_def Let_def new_display_def)
qed

text \<open>The desk that the example leads to, for the properties of single operations.\<close>

definition small_display :: "nat \<Rightarrow> display" where
  "small_display h = (set_size 16 (of_nat h) (Some (replicate 320 0))
     (drawn (replicate 320 0) (mk_rect 0 0 16 10) (new_display bgra 40 30 None 0 16 20 1 320)))\<lparr>isVisible := True, posX := 3, posY := 4, layer := 1\<rparr>"

lemma first_scene:
  "snd (scene_run bgra 40 30 first_acts (displayAt first_desk, [])) = [3, 4]"
  "fst (scene_run bgra 40 30 first_acts (displayAt first_desk, [])) 3 = small_display 20"
  "layer (fst (scene_run bgra 40 30 first_acts (displayAt first_desk, [])) 4) = 1"
  by (simp_all add: first_acts_def raised_def Let_def new_display_def small_display_def drawn_def set_size_def)

lemma small_sound: "sound (small_display 20)" "sound (set_size 16 16 (Some (replicate 320 0)) (small_display 20))"
  by (rule sound_plain[of 16 20 _ 320] sound_plain[of 16 16 _ 320];
      simp add: small_display_def set_size_def drawn_def new_display_def new_ok_def mk_rect_def)+

lemma first_run:
  "\<exists>s. performs first_acts first_desk = Some s \<and> shown_on bgra s [3, 4] \<and> displayAt s 3 = small_display 20 \<and> layer (displayAt s 4) = 1"
proof -
  obtain s' is' where "performs first_acts first_desk = Some s'"
    "scene_run bgra 40 30 first_acts (displayAt first_desk, []) = (displayAt s', is')" "shown_on bgra s' is'"
    using performs_shown[OF first_shown first_desk_size first_allowed] by blast
  then show ?thesis using first_scene by simp
qed

section \<open>Properties\<close>





text \<open>C37. The scan for transparent strips of a row ends, whatever displays there are and however their corners cut in: every search
  makes progress. The strips lie in the row from left to right, each on a display that is on top all along it, and together hold
  every pixel where the display on top lets light through.\<close>

theorem row_strips_end:
  assumes "desk_ok ord s is"
  shows "\<exists>rs. row_strips (find_display_section s y xe) xe ((None, False), x) = Some rs \<and> strips_ok s is y x xe rs"
  by (rule row_strips_spec[OF desk_okD(1)[OF assms]]) simp

theorem row_strips_end_witness:
  "\<exists>s rs. performs first_acts first_desk = Some s \<and> row_strips (find_display_section s 5 40) 40 ((None, False), 0) = Some rs \<and>
    strips_ok s [3, 4] 5 0 40 rs"
proof -
  obtain s where s: "performs first_acts first_desk = Some s" "desk_ok bgra s [3, 4]" using first_run by (auto simp: shown_on_def)
  then show ?thesis using row_strips_end[OF s(2), of 5 40 0] by blast
qed

text \<open>The stack after a display has gone to the bottom of a layer.\<close>

definition lowered :: "(nat \<Rightarrow> display) \<Rightarrow> nat \<Rightarrow> u8 \<Rightarrow> nat list \<Rightarrow> nat list" where
  "lowered D i lay is =
     (let js = removeAll i is
      in takeWhile (\<lambda>j. layer (D j) < lay) js @ i # dropWhile (\<lambda>j. layer (D j) < lay) js)"

text \<open>C25. Changing the layer of a display returns, keeps the stack ordered by layer and every framebuffer's size, and puts the
  display at the bottom of its new layer, below the displays there, whereas raising puts it on top; the other displays keep their order.\<close>

theorem set_layer_bottom:
  assumes "desk_ok ord s is" "i \<in> set is" "layer (displayAt s i) \<noteq> lay"
  shows "\<exists>s'. set_display_layer i lay s = Some s' \<and> desk_ok ord s' (lowered (displayAt s) i lay is) \<and>
    displayAt s' = (displayAt s)(i := (displayAt s i)\<lparr>layer := lay\<rparr>)"
proof -
  let ?f = "\<lambda>d. d\<lparr>layer := lay\<rparr>"
  let ?s = "set_display i ?f (on_links (pop i) s)" and ?lay = "\<lambda>j. layer (displayAt s j)"
  obtain as bs where sp: "is = as @ i # bs" using split_list[OF assms(2)] by blast
  have st: "stack s (as @ i # bs)" using assms(1) sp by (simp add: desk_ok_def)
  have dist: "distinct (as @ i # bs)" using stack_distinct[OF st] .
  have p: "stack (on_links (pop i) s) (as @ bs)" using stack_pop[OF st] .
  then have "sorted (map ?lay (as @ bs))" by (simp add: stack_def)
  then obtain us vs where uv: "as @ bs = us @ vs" "\<forall>j \<in> set us. ?lay j < lay" "\<forall>j \<in> set vs. lay \<le> ?lay j"
    using split_before by blast
  have ni: "i \<notin> set (us @ vs)" using dist unfolding uv(1)[symmetric] by auto
  have "takeWhile (\<lambda>j. ?lay j < lay) vs = []" "dropWhile (\<lambda>j. ?lay j < lay) vs = vs" using uv(3) by (cases vs; auto simp: not_less)+
  moreover have "removeAll i is = us @ vs" using dist unfolding sp uv(1)[symmetric] by auto
  ultimately have low: "lowered (displayAt s) i lay is = us @ i # vs"
    using uv(2) by (simp add: lowered_def takeWhile_append dropWhile_append)
  have lays: "layer (displayAt ?s j) = (if j = i then lay else ?lay j)" for j by simp
  have m: "map (\<lambda>j. layer (displayAt ?s j)) (us @ vs) = map ?lay (us @ vs)" using ni by auto
  have "stack ?s (us @ vs)" unfolding stack_def m using p uv(1) by (simp add: stack_def)
  moreover have "\<forall>x \<in> set us. layer (displayAt ?s x) < layer (displayAt ?s i)" "\<forall>x \<in> set vs. layer (displayAt ?s i) \<le> layer (displayAt ?s x)"
    using uv(2,3) ni unfolding lays by auto
  ultimately obtain l where l: "insert_layer_bottom i ?s = Some (on_links (\<lambda>_. l) ?s)" "stack (on_links (\<lambda>_. l) ?s) (us @ i # vs)"
    using insert_layer_bottom_effect[OF _ ni] by blast
  have n: "length (us @ i # vs) = length is" "set (us @ i # vs) = set is"
    using arg_cong[OF uv(1), of length] arg_cong[OF uv(1), of set] by (auto simp: sp)
  have "\<forall>j \<in> set (us @ i # vs). sound (displayAt (on_links (\<lambda>_. l) ?s) j)"
    using assms(1) sound_layer unfolding n(2) by (simp add: desk_ok_def)
  then have ok: "desk_ok ord (on_links (\<lambda>_. l) ?s) (us @ i # vs)"
    using assms(1) l(2) n(1) by (simp add: desk_ok_def screen_ok_def uniform_def)
  obtain s' where s': "redraw_display i (on_links (\<lambda>_. l) ?s) = Some s'" "redraws (redrawn ord (on_links (\<lambda>_. l) ?s) (us @ i # vs) i) (on_links (\<lambda>_. l) ?s) s'"
    using redraw_display_effect[OF ok, of i] by auto
  then show ?thesis
    using assms(3) l(1) redraws_desk_ok[OF s'(2) ok] redraws_same(2)[OF s'(2)] by (simp add: set_display_layer_def low)
qed

theorem set_layer_bottom_witness:
  "\<exists>s s'. performs first_acts first_desk = Some s \<and> set_display_layer 3 7 s = Some s' \<and> desk_ok bgra s' [4, 3]"
proof -
  obtain s where s: "performs first_acts first_desk = Some s" "desk_ok bgra s [3, 4]" "displayAt s 3 = small_display 20" and two: "layer (displayAt s 4) = 1"
    using first_run by (auto simp: shown_on_def)
  have "layer (displayAt s 3) \<noteq> 7" by (simp add: s(3) small_display_def)
  from set_layer_bottom[OF s(2) _ this] s(1) two show ?thesis by (auto simp: lowered_def)
qed



lemma delete_all_shown:
  "shown_on ord s is \<Longrightarrow> \<exists>s'. delete_all js s = Some s' \<and> shown_on ord s' (filter (\<lambda>i. i \<notin> set js) is)"
proof (induction js arbitrary: s "is")
  case (Cons j js)
  have "\<exists>s1. delete_display j s = Some s1 \<and> shown_on ord s1 (removeAll j is)"
  proof (cases "j \<in> set is")
    case True
    then show ?thesis using delete_shown[OF Cons.prems] by blast
  next
    case False
    have "repr (links s) is" using Cons.prems desk_okD(5) by (auto simp: shown_on_def)
    then have "delete_display j s = Some s" using False by (simp add: delete_display_def contains_repr)
    then show ?thesis using False Cons.prems by simp
  qed
  then obtain s1 where s1: "delete_display j s = Some s1" "shown_on ord s1 (removeAll j is)" by blast
  have "filter (\<lambda>i. i \<notin> set js) (removeAll j is) = filter (\<lambda>i. i \<notin> set (j # js)) is" by (induction "is") auto
  then show ?case using Cons.IH[OF s1(2)] s1(1) by simp
qed simp



end
