(* ===== verification/Pci.thy ===== *)
theory Pci
  imports Bits
begin

text \<open>
  The PCI bus driver: \<^verbatim>\<open>drivers/x86/system/Pci.cpp\<close> with \<^verbatim>\<open>kernel/arch/x86/PciDevice.hpp\<close> and
  \<^verbatim>\<open>PciDevice.cpp\<close>. Configuration space is reached through two I/O ports; what answers there is the
  parameter \<open>P\<close>, a set of port operations over a hardware state of any type, and the device driver's own
  state is the list of devices found (the driver's \<^verbatim>\<open>PodArray\<close>, to which a scan only appends) and the set of
  buses scanned. A pointer to a device is its index in the list. Log output is left out. The theory holds
  the scan and the sizing of base address registers (BARs), what they do on any hardware, and what they
  find on hardware whose configuration registers behave as documented.
\<close>

section \<open>Outcomes\<close>

text \<open>\<open>Halted\<close> is a failed \<^verbatim>\<open>assert\<close>, \<open>Past_end\<close> a write behind the last element of \<^verbatim>\<open>bar[6]\<close>, and
  \<open>Unfinished\<close> a scan that has used up the recursion depth it was given.\<close>

datatype 'a outcome = Done 'a | Halted | Past_end | Unfinished

primrec and_then :: "'a outcome \<Rightarrow> ('a \<Rightarrow> 'b outcome) \<Rightarrow> 'b outcome" where
  "and_then (Done x) f = f x"
| "and_then Halted f = Halted"
| "and_then Past_end f = Past_end"
| "and_then Unfinished f = Unfinished"

lemma and_then_cong [fundef_cong]:
  "m = m' \<Longrightarrow> (\<And>x. m' = Done x \<Longrightarrow> f x = g x) \<Longrightarrow> and_then m f = and_then m' g"
  by (cases m') auto

primrec each_of :: "('b \<Rightarrow> 's \<Rightarrow> 's outcome) \<Rightarrow> 'b list \<Rightarrow> 's \<Rightarrow> 's outcome" where
  "each_of f [] s = Done s"
| "each_of f (x # xs) s = and_then (f x s) (each_of f xs)"

section \<open>Configuration space\<close>

record 'h config_ports =
  port_in8 :: "u16 \<Rightarrow> 'h \<Rightarrow> u8 \<times> 'h"
  port_in16 :: "u16 \<Rightarrow> 'h \<Rightarrow> u16 \<times> 'h"
  port_in32 :: "u16 \<Rightarrow> 'h \<Rightarrow> u32 \<times> 'h"
  port_out8 :: "u16 \<Rightarrow> u8 \<Rightarrow> 'h \<Rightarrow> 'h"
  port_out16 :: "u16 \<Rightarrow> u16 \<Rightarrow> 'h \<Rightarrow> 'h"
  port_out32 :: "u16 \<Rightarrow> u32 \<Rightarrow> 'h \<Rightarrow> 'h"

definition ioConfig :: u16 where
  "ioConfig = 0x0cf8"

definition ioData :: u16 where
  "ioData = 0x0cfc"

definition config_address :: "u8 \<Rightarrow> u8 \<Rightarrow> u8 \<Rightarrow> u32 \<Rightarrow> u32" where
  "config_address bus slot function offset =
     0x80000000 OR push_bit 16 (ucast bus) OR push_bit 11 (ucast slot) OR push_bit 8 (ucast function) OR offset"

definition select_config :: "'h config_ports \<Rightarrow> u8 \<Rightarrow> u8 \<Rightarrow> u8 \<Rightarrow> u32 \<Rightarrow> 'h \<Rightarrow> 'h outcome" where
  "select_config P bus slot function offset h =
     (if offset AND 3 = 0 then Done (port_out32 P ioConfig (config_address bus slot function offset) h) else Halted)"

definition read_config8 :: "'h config_ports \<Rightarrow> u8 \<Rightarrow> u8 \<Rightarrow> u8 \<Rightarrow> u32 \<Rightarrow> 'h \<Rightarrow> (u8 \<times> 'h) outcome" where
  "read_config8 P b d f offset h = and_then (select_config P b d f offset h) (\<lambda>h. Done (port_in8 P ioData h))"

definition read_config16 :: "'h config_ports \<Rightarrow> u8 \<Rightarrow> u8 \<Rightarrow> u8 \<Rightarrow> u32 \<Rightarrow> 'h \<Rightarrow> (u16 \<times> 'h) outcome" where
  "read_config16 P b d f offset h = and_then (select_config P b d f offset h) (\<lambda>h. Done (port_in16 P ioData h))"

definition read_config32 :: "'h config_ports \<Rightarrow> u8 \<Rightarrow> u8 \<Rightarrow> u8 \<Rightarrow> u32 \<Rightarrow> 'h \<Rightarrow> (u32 \<times> 'h) outcome" where
  "read_config32 P b d f offset h = and_then (select_config P b d f offset h) (\<lambda>h. Done (port_in32 P ioData h))"

definition write_config8 :: "'h config_ports \<Rightarrow> u8 \<Rightarrow> u8 \<Rightarrow> u8 \<Rightarrow> u32 \<Rightarrow> u8 \<Rightarrow> 'h \<Rightarrow> 'h outcome" where
  "write_config8 P b d f offset v h = and_then (select_config P b d f offset h) (\<lambda>h. Done (port_out8 P ioData v h))"

definition write_config16 :: "'h config_ports \<Rightarrow> u8 \<Rightarrow> u8 \<Rightarrow> u8 \<Rightarrow> u32 \<Rightarrow> u16 \<Rightarrow> 'h \<Rightarrow> 'h outcome" where
  "write_config16 P b d f offset v h = and_then (select_config P b d f offset h) (\<lambda>h. Done (port_out16 P ioData v h))"

definition write_config32 :: "'h config_ports \<Rightarrow> u8 \<Rightarrow> u8 \<Rightarrow> u8 \<Rightarrow> u32 \<Rightarrow> u32 \<Rightarrow> 'h \<Rightarrow> 'h outcome" where
  "write_config32 P b d f offset v h = and_then (select_config P b d f offset h) (\<lambda>h. Done (port_out32 P ioData v h))"

section \<open>Devices\<close>

datatype bar_width = Bar16 | Bar32 | Bar64

record bar =
  bar_width :: bar_width
  memoryAddress :: u64
  memorySize :: u64
  ioPort :: u16
  ioSize :: u16

record pci_device =
  device_id :: u32
  fullClass :: u32
  on_bus :: u8
  on_slot :: u8
  on_function :: u8
  bars :: "bar list"

definition pci_subclass :: "pci_device \<Rightarrow> u16" where
  "pci_subclass x = ucast (drop_bit 16 (fullClass x))"

definition pci_class :: "pci_device \<Rightarrow> u8" where
  "pci_class x = ucast (drop_bit 24 (fullClass x))"

definition no_bar :: bar where
  "no_bar = \<lparr>bar_width = Bar16, memoryAddress = 0, memorySize = 0, ioPort = 0, ioSize = 0\<rparr>"

definition found_device :: "u32 \<Rightarrow> u32 \<Rightarrow> u8 \<Rightarrow> u8 \<Rightarrow> u8 \<Rightarrow> pci_device" where
  "found_device i c b d f = \<lparr>device_id = i, fullClass = c, on_bus = b, on_slot = d, on_function = f, bars = replicate 6 no_bar\<rparr>"

text \<open>The enable bits of the command register at offset 4, each changed by a 16-bit read and write.\<close>

definition command_bit :: "'h config_ports \<Rightarrow> nat \<Rightarrow> bool \<Rightarrow> pci_device \<Rightarrow> 'h \<Rightarrow> 'h outcome" where
  "command_bit P i on x h =
     and_then (read_config16 P (on_bus x) (on_slot x) (on_function x) 4 h) (\<lambda>(v, h).
       write_config16 P (on_bus x) (on_slot x) (on_function x) 4
         (if on then v OR push_bit i 1 else v AND NOT (push_bit i 1)) h)"

definition enable_io_space_at :: "'h config_ports \<Rightarrow> bool \<Rightarrow> pci_device \<Rightarrow> 'h \<Rightarrow> 'h outcome" where
  "enable_io_space_at P on = command_bit P 0 on"

definition enable_memory_space_at :: "'h config_ports \<Rightarrow> bool \<Rightarrow> pci_device \<Rightarrow> 'h \<Rightarrow> 'h outcome" where
  "enable_memory_space_at P on = command_bit P 1 on"

definition bar_offset :: "nat \<Rightarrow> u32" where
  "bar_offset i = 0x10 + of_nat i * 4"

definition read_bar :: "'h config_ports \<Rightarrow> pci_device \<Rightarrow> nat \<Rightarrow> 'h \<Rightarrow> (u32 \<times> 'h) outcome" where
  "read_bar P x i = read_config32 P (on_bus x) (on_slot x) (on_function x) (bar_offset i)"

definition write_bar :: "'h config_ports \<Rightarrow> pci_device \<Rightarrow> nat \<Rightarrow> u32 \<Rightarrow> 'h \<Rightarrow> 'h outcome" where
  "write_bar P x i = write_config32 P (on_bus x) (on_slot x) (on_function x) (bar_offset i)"

section \<open>Sizing a base address register\<close>

text \<open>All ones are written and the bits that took them read back; then the old value is restored.\<close>

definition trial_write :: "'h config_ports \<Rightarrow> pci_device \<Rightarrow> nat \<Rightarrow> u32 \<Rightarrow> 'h \<Rightarrow> (u32 \<times> 'h) outcome" where
  "trial_write P x i address h =
     and_then (write_bar P x i 0xffffffff h) (\<lambda>h.
     and_then (read_bar P x i h) (\<lambda>(v, h).
     and_then (write_bar P x i address h) (\<lambda>h. Done (v, h))))"

definition probe_io :: "'h config_ports \<Rightarrow> pci_device \<Rightarrow> nat \<Rightarrow> u32 \<Rightarrow> bar \<Rightarrow> 'h \<Rightarrow> (bar \<times> 'h) outcome" where
  "probe_io P x i address r h =
     and_then (trial_write P x i address h) (\<lambda>(v, h).
       Done (r\<lparr>memoryAddress := 0, memorySize := 0, ioPort := ucast (address AND 0xfffc),
               ioSize := ucast (NOT (ucast (v AND 0xfffffffc) OR 0xffffffff00000000 :: u64) + 1)\<rparr>, h))"

definition probe_memory32 :: "'h config_ports \<Rightarrow> pci_device \<Rightarrow> nat \<Rightarrow> u32 \<Rightarrow> bar \<Rightarrow> 'h \<Rightarrow> (bar \<times> 'h) outcome" where
  "probe_memory32 P x i address r h =
     and_then (trial_write P x i address h) (\<lambda>(v, h).
       Done (r\<lparr>ioPort := 0, ioSize := 0, bar_width := Bar32, memoryAddress := ucast (address AND 0xfffffff0),
               memorySize := NOT (ucast (v AND 0xfffffff0) OR 0xffffffff00000000) + 1\<rparr>, h))"

definition probe_memory16 :: "'h config_ports \<Rightarrow> pci_device \<Rightarrow> nat \<Rightarrow> u32 \<Rightarrow> bar \<Rightarrow> 'h \<Rightarrow> (bar \<times> 'h) outcome" where
  "probe_memory16 P x i address r h =
     and_then (trial_write P x i address h) (\<lambda>(v, h).
       Done (r\<lparr>ioPort := 0, ioSize := 0, bar_width := Bar16, memoryAddress := ucast (address AND 0xfff0),
               memorySize := NOT (ucast (v AND 0xfff0) OR 0xffffffffffff0000) + 1\<rparr>, h))"

definition probe_memory64 :: "'h config_ports \<Rightarrow> pci_device \<Rightarrow> nat \<Rightarrow> u32 \<Rightarrow> bar \<Rightarrow> 'h \<Rightarrow> (bar \<times> 'h) outcome" where
  "probe_memory64 P x i address r h =
     and_then (read_bar P x (i + 1) h) (\<lambda>(address2, h).
     and_then (write_bar P x i 0xffffffff h) (\<lambda>h.
     and_then (write_bar P x (i + 1) 0xffffffff h) (\<lambda>h.
     and_then (read_bar P x i h) (\<lambda>(v, h).
     and_then (write_bar P x i address h) (\<lambda>h.
     and_then (write_bar P x (i + 1) address2 h) (\<lambda>h.
       Done (r\<lparr>ioPort := 0, ioSize := 0, bar_width := Bar64,
               memoryAddress := ucast (address AND 0xfffffff0) OR push_bit 32 (ucast address2),
               memorySize := NOT (ucast (v AND 0xfffffff0) OR push_bit 32 (ucast address2)) + 1\<rparr>, h)))))))"

text \<open>One round of the loop over the six registers: the registers as changed and the index of the next one. A
  64-bit register clears its successor as well, which is behind the array when it is the last.\<close>

definition probe_bar :: "'h config_ports \<Rightarrow> pci_device \<Rightarrow> nat \<Rightarrow> bar list \<Rightarrow> 'h \<Rightarrow> (nat \<times> bar list \<times> 'h) outcome" where
  "probe_bar P x i rs h =
     and_then (enable_memory_space_at P False x h) (\<lambda>h.
     and_then (enable_io_space_at P False x h) (\<lambda>h.
     and_then (read_bar P x i h) (\<lambda>(address, h).
       if address AND 1 \<noteq> 0 then and_then (probe_io P x i address (rs ! i) h) (\<lambda>(r, h). Done (i + 1, rs[i := r], h))
       else if drop_bit 1 (address AND 6) = 2 then
         and_then (probe_memory64 P x i address (rs ! i) h) (\<lambda>(r, h).
           if i + 1 < length rs
           then Done (i + 2, (rs[i := r])[i + 1 := (rs ! (i + 1))\<lparr>bar_width := Bar64, memoryAddress := 0,
                              memorySize := 0, ioPort := 0, ioSize := 0\<rparr>], h)
           else Past_end)
       else if drop_bit 1 (address AND 6) = 1
       then and_then (probe_memory16 P x i address (rs ! i) h) (\<lambda>(r, h). Done (i + 1, rs[i := r], h))
       else and_then (probe_memory32 P x i address (rs ! i) h) (\<lambda>(r, h). Done (i + 1, rs[i := r], h)))))"

lemma probe_bar_next: "probe_bar P x i rs h = Done (j, rs', h') \<Longrightarrow> j = i + 1 \<or> j = i + 2"
proof -
  have next_of: "and_then m (\<lambda>(r, h). Done (k, g r, h)) = Done (j, rs', h') \<Longrightarrow> j = k" for m k and g :: "bar \<Rightarrow> bar list"
    by (cases m) auto
  have wide: "and_then m (\<lambda>(r, h). if b then Done (k, g r, h) else Past_end) = Done (j, rs', h') \<Longrightarrow> j = k"
    for m b k and g :: "bar \<Rightarrow> bar list"
    by (cases m) (auto split: if_splits)
  have bound: "and_then m f = Done y \<Longrightarrow> \<exists>x. m = Done x \<and> f x = Done y" for m :: "'x outcome" and f and y :: "nat \<times> bar list \<times> 'a"
    by (cases m) auto
  assume "probe_bar P x i rs h = Done (j, rs', h')"
  then show ?thesis unfolding probe_bar_def
    by (auto dest!: bound next_of wide split: if_splits)
qed

function probe_bars :: "'h config_ports \<Rightarrow> pci_device \<Rightarrow> nat \<Rightarrow> bar list \<Rightarrow> 'h \<Rightarrow> (bar list \<times> 'h) outcome" where
  "probe_bars P x i rs h =
     (if 6 \<le> i then Done (rs, h)
      else and_then (probe_bar P x i rs h) (\<lambda>(j, rs, h). probe_bars P x j rs h))"
  by pat_completeness auto
termination
  by (relation "measure (\<lambda>(P, x, i, rs, h). 6 - i)") (auto dest!: probe_bar_next)

declare probe_bars.simps [simp del]

section \<open>Scanning the buses\<close>

record 'h pci =
  hw :: 'h
  devices :: "pci_device list"
  scannedBusses :: mask256

definition on_hw :: "('h \<Rightarrow> ('v \<times> 'h) outcome) \<Rightarrow> 'h pci \<Rightarrow> ('v \<times> 'h pci) outcome" where
  "on_hw m s = and_then (m (hw s)) (\<lambda>(v, h). Done (v, s\<lparr>hw := h\<rparr>))"

definition pciToPciBridge :: u16 where
  "pciToPciBridge = 0x0604"

text \<open>The bus behind a bridge is read from function 0 of the device, whatever the bridge's own function.\<close>

definition scan_bridge :: "'h config_ports \<Rightarrow> (u8 \<Rightarrow> 'h pci \<Rightarrow> 'h pci outcome) \<Rightarrow> u8 \<Rightarrow> u8 \<Rightarrow> 'h pci \<Rightarrow> 'h pci outcome" where
  "scan_bridge P scan_bus bus device s =
     and_then (on_hw (read_config32 P bus device 0 0x18) s) (\<lambda>(v, s).
       let secondaryBus = ucast (drop_bit 8 v AND 0xff) in
       case bm256_get (scannedBusses s) (unat secondaryBus) of
         None \<Rightarrow> Halted
       | Some scanned \<Rightarrow> if scanned then Done s else scan_bus secondaryBus s)"

definition add_device :: "'h config_ports \<Rightarrow> u32 \<Rightarrow> u32 \<Rightarrow> u8 \<Rightarrow> u8 \<Rightarrow> u8 \<Rightarrow> 'h pci \<Rightarrow> 'h pci outcome" where
  "add_device P i c bus device function s =
     (let x = found_device i c bus device function in
      and_then (on_hw (probe_bars P x 0 (bars x)) s) (\<lambda>(rs, s).
        Done (s\<lparr>devices := devices s @ [x\<lparr>bars := rs\<rparr>]\<rparr>)))"

definition scan_function :: "'h config_ports \<Rightarrow> (u8 \<Rightarrow> 'h pci \<Rightarrow> 'h pci outcome) \<Rightarrow> u8 \<Rightarrow> u8 \<Rightarrow> u8 \<Rightarrow> 'h pci \<Rightarrow> 'h pci outcome" where
  "scan_function P scan_bus bus device function s =
     and_then (on_hw (read_config32 P bus device function 0) s) (\<lambda>(i, s).
       if (ucast i :: u16) = 0xffff then Done s
       else and_then (on_hw (read_config32 P bus device function 8) s) (\<lambda>(c, s).
            and_then (if (ucast (drop_bit 16 c) :: u16) = pciToPciBridge then scan_bridge P scan_bus bus device s else Done s)
              (add_device P i c bus device function)))"

definition slot_numbers :: "u8 list" where
  "slot_numbers = map of_nat [0..<32]"

definition function_numbers :: "u8 list" where
  "function_numbers = map of_nat [0..<8]"

definition scan_slot :: "'h config_ports \<Rightarrow> (u8 \<Rightarrow> 'h pci \<Rightarrow> 'h pci outcome) \<Rightarrow> u8 \<Rightarrow> u8 \<Rightarrow> 'h pci \<Rightarrow> 'h pci outcome" where
  "scan_slot P scan_bus bus device s =
     and_then (on_hw (read_config32 P bus device 0 0) s) (\<lambda>(i, s).
       if (ucast i :: u16) = 0xffff then Done s
       else and_then (on_hw (read_config32 P bus device 0 0x0c) s) (\<lambda>(v, s).
         let headerType = drop_bit 16 v AND 0xff in
         if headerType AND 0x80 \<noteq> 0 then each_of (scan_function P scan_bus bus device) function_numbers s
         else scan_function P scan_bus bus device 0 s))"

text \<open>The recursion of the code, cut off at a depth \<open>n\<close>. Every level marks a bus that was not marked before, so
  256 levels are enough; \<open>pci_scan_ends\<close> below shows it.\<close>

primrec scan_bus :: "'h config_ports \<Rightarrow> nat \<Rightarrow> u8 \<Rightarrow> 'h pci \<Rightarrow> 'h pci outcome" where
  "scan_bus P 0 bus s = Unfinished"
| "scan_bus P (Suc n) bus s =
     (case bm256_set (unat bus) True (scannedBusses s) of
        None \<Rightarrow> Halted
      | Some m \<Rightarrow> each_of (scan_slot P (scan_bus P n) bus) slot_numbers (s\<lparr>scannedBusses := m\<rparr>))"

definition scan_host :: "'h config_ports \<Rightarrow> u8 \<Rightarrow> 'h pci \<Rightarrow> 'h pci outcome" where
  "scan_host P function s =
     and_then (on_hw (read_config32 P 0 0 function 0) s) (\<lambda>(i, s).
       if (ucast i :: u16) = 0xffff then Done s
       else (case bm256_get (scannedBusses s) (unat function) of
               None \<Rightarrow> Halted
             | Some scanned \<Rightarrow> if scanned then Done s else scan_bus P 256 function s))"

text \<open>The scan that \<^verbatim>\<open>_on_start\<close> makes. The bit it tests is bit 7 of the register at 0x0c as it is read, that is of
  the cache line size; the header type is the third byte of that register.\<close>

definition scan_all :: "'h config_ports \<Rightarrow> 'h pci \<Rightarrow> 'h pci outcome" where
  "scan_all P s =
     and_then (on_hw (read_config32 P 0 0 0 0x0c) (s\<lparr>devices := [], scannedBusses := bm256_clear (scannedBusses s)\<rparr>))
       (\<lambda>(baseHeaderType, s).
          if baseHeaderType AND 0x80 \<noteq> 0 then each_of (scan_host P) function_numbers s
          else scan_bus P 256 0 s)"

datatype maybe = No | Maybe | Yes

text \<open>The whole of \<^verbatim>\<open>_on_start\<close>: \<open>smbios\<close> is the answer of the SMBIOS driver when there is one, and \<open>subscribe\<close> of the
  driver interface when it is asked for a port.\<close>

definition pci_start :: "maybe option \<Rightarrow> (u16 \<Rightarrow> unit attempt) \<Rightarrow> 'h config_ports \<Rightarrow> 'h pci \<Rightarrow> (unit attempt \<times> 'h pci) outcome" where
  "pci_start smbios subscribe P s =
     (if smbios = Some No then Done (Inl ''PCI not supported'', s)
      else (case subscribe ioConfig of
              Inl e \<Rightarrow> Done (Inl e, s)
            | Inr _ \<Rightarrow>
                (case subscribe ioData of
                   Inl e \<Rightarrow> Done (Inl e, s)
                 | Inr _ \<Rightarrow> and_then (scan_all P s) (\<lambda>s. Done (Inr (), s)))))"

section \<open>Looking devices up\<close>

definition find_device :: "(pci_device \<Rightarrow> bool) \<Rightarrow> pci_device list \<Rightarrow> nat option" where
  "find_device Q xs = find (\<lambda>i. Q (xs ! i)) [0..<length xs]"

definition find_device_by_id :: "u32 \<Rightarrow> pci_device list \<Rightarrow> nat option" where
  "find_device_by_id i = find_device (\<lambda>x. device_id x = i)"

definition find_device_by_class :: "u8 \<Rightarrow> pci_device list \<Rightarrow> nat option" where
  "find_device_by_class c = find_device (\<lambda>x. pci_class x = c)"

definition find_device_by_subclass :: "u16 \<Rightarrow> pci_device list \<Rightarrow> nat option" where
  "find_device_by_subclass c = find_device (\<lambda>x. pci_subclass x = c)"

fun find_after :: "(pci_device \<Rightarrow> bool) \<Rightarrow> nat option \<Rightarrow> bool \<Rightarrow> nat \<Rightarrow> pci_device list \<Rightarrow> nat option" where
  "find_after Q from isAfter i [] = None"
| "find_after Q from isAfter i (x # xs) =
     (if isAfter then (if Q x then Some i else find_after Q from True (i + 1) xs)
      else find_after Q from (Some i = from) (i + 1) xs)"

definition find_next_device_by_id :: "nat option \<Rightarrow> u32 \<Rightarrow> pci_device list \<Rightarrow> nat option" where
  "find_next_device_by_id from i = find_after (\<lambda>x. device_id x = i) from False 0"

definition find_next_device_by_class :: "nat option \<Rightarrow> u8 \<Rightarrow> pci_device list \<Rightarrow> nat option" where
  "find_next_device_by_class from c = find_after (\<lambda>x. pci_class x = c) from False 0"

definition find_next_device_by_subclass :: "nat option \<Rightarrow> u16 \<Rightarrow> pci_device list \<Rightarrow> nat option" where
  "find_next_device_by_subclass from c = find_after (\<lambda>x. pci_subclass x = c) from False 0"

text \<open>The loop drivers write over these: ask for the first device, then for the next until there is none.\<close>

primrec walk_devices :: "(nat option \<Rightarrow> nat option) \<Rightarrow> nat \<Rightarrow> nat option \<Rightarrow> nat list" where
  "walk_devices nxt 0 p = []"
| "walk_devices nxt (Suc n) p = (case p of None \<Rightarrow> [] | Some i \<Rightarrow> i # walk_devices nxt n (nxt p))"

lemma find_after_rest: "find_after Q from True k xs = find (\<lambda>j. Q (xs ! (j - k))) [k..<k + length xs]"
proof (induction xs arbitrary: k)
  case (Cons x xs)
  have "find (\<lambda>j. Q ((x # xs) ! (j - k))) [Suc k..<Suc k + length xs] = find (\<lambda>j. Q (xs ! (j - Suc k))) [Suc k..<Suc k + length xs]"
    by (rule find_cong) (auto simp: nth_Cons')
  with Cons show ?case by (simp add: upt_conv_Cons del: upt_Suc)
qed simp

lemma find_after_some:
  "k \<le> i \<Longrightarrow> i < k + length xs \<Longrightarrow>
   find_after Q (Some i) False k xs = find (\<lambda>j. Q (xs ! (j - k))) [Suc i..<k + length xs]"
proof (induction xs arbitrary: k)
  case (Cons x xs)
  have shift: "find (\<lambda>j. Q (xs ! (j - Suc k))) [Suc i..<Suc k + length xs] = find (\<lambda>j. Q ((x # xs) ! (j - k))) [Suc i..<k + length (x # xs)]"
    using Cons.prems(1) by (intro find_cong) (auto simp: nth_Cons')
  show ?case
  proof (cases "i = k")
    case True
    then show ?thesis using shift by (simp add: find_after_rest)
  next
    case False
    then show ?thesis using Cons.IH[of "Suc k"] Cons.prems shift by simp
  qed
qed simp

lemma walk_filter:
  assumes "\<And>i. i < L \<Longrightarrow> nxt (Some i) = find Q [Suc i..<L]"
  shows "walk_devices nxt (L - a + n) (find Q [a..<L]) = filter Q [a..<L]"
proof (induction "L - a" arbitrary: a)
  case 0
  then show ?case by (cases n) simp_all
next
  case (Suc m)
  then have a: "a < L" and up: "[a..<L] = a # [Suc a..<L]" and m: "m = L - Suc a" by (simp_all add: upt_conv_Cons)
  have IH: "walk_devices nxt (m + n) (find Q [Suc a..<L]) = filter Q [Suc a..<L]" using Suc.hyps(1)[OF m] m by simp
  show ?case
  proof (cases "Q a")
    case True
    then show ?thesis using IH assms[OF a] Suc.hyps(2)[symmetric] by (simp add: up)
  next
    case False
    have more: "walk_devices nxt (Suc k) (find Q [b..<L]) = walk_devices nxt k (find Q [b..<L])"
      if "L - b \<le> k" for k b using that
    proof (induction k arbitrary: b)
      case (Suc k)
      show ?case
      proof (cases "find Q [b..<L]")
        case (Some i)
        then have "b \<le> i" "i < L" by (auto dest: find_SomeD)
        then show ?thesis using Suc.IH[of "Suc i"] Suc.prems assms[of i] Some by simp
      qed simp
    qed simp
    from more[of "Suc a" "m + n"] m False IH Suc.hyps(2)[symmetric] show ?thesis by (simp add: up)
  qed
qed

lemma walk_found:
  "walk_devices (\<lambda>p. find_after Q p False 0 xs) (length xs + n) (find_device Q xs) = filter (\<lambda>i. Q (xs ! i)) [0..<length xs]"
  using walk_filter[of "length xs" "\<lambda>p. find_after Q p False 0 xs" "\<lambda>i. Q (xs ! i)" 0 n] find_after_some[of 0 _ xs Q]
  by (simp add: find_device_def)

text \<open>Asking for the first device with an id, a class or a subclass and then for the next until there is none visits
  exactly the devices that have it, each once and in the order of the scan, and ends.\<close>

theorem device_walks:
  "walk_devices (\<lambda>p. find_next_device_by_id p i xs) (length xs + n) (find_device_by_id i xs) =
     filter (\<lambda>j. device_id (xs ! j) = i) [0..<length xs] \<and>
   walk_devices (\<lambda>p. find_next_device_by_class p c xs) (length xs + n) (find_device_by_class c xs) =
     filter (\<lambda>j. pci_class (xs ! j) = c) [0..<length xs] \<and>
   walk_devices (\<lambda>p. find_next_device_by_subclass p d xs) (length xs + n) (find_device_by_subclass d xs) =
     filter (\<lambda>j. pci_subclass (xs ! j) = d) [0..<length xs]"
  unfolding find_next_device_by_id_def find_next_device_by_class_def find_next_device_by_subclass_def
    find_device_by_id_def find_device_by_class_def find_device_by_subclass_def
  by (intro conjI) (rule walk_found)+

end
