(* ===== verification/PciScan.thy ===== *)
theory PciScan
  imports Pci
begin

text \<open>
  What the scan of theory Pci does. First on any hardware, however it answers: the scan ends and finds no function
  twice. Then on configuration registers that keep the bits written to them and ignore the others
  (\<open>config_space\<close>): the functions found are those behind the buses reachable from bus 0, every
  register but the command registers is as before, and the sizes recorded for the BARs.
\<close>

section \<open>Postconditions of outcomes\<close>

text \<open>\<open>ends_in u m Q\<close>: \<open>m\<close> is not \<open>Unfinished\<close> and its value, when there is one, satisfies \<open>Q\<close>; without \<open>u\<close> there
  must be one.\<close>

definition ends_in :: "bool \<Rightarrow> 'a outcome \<Rightarrow> ('a \<Rightarrow> bool) \<Rightarrow> bool" where
  "ends_in u m Q \<longleftrightarrow> (case m of Done x \<Rightarrow> Q x | Halted \<Rightarrow> u | Past_end \<Rightarrow> u | Unfinished \<Rightarrow> False)"

lemma ends_in_simps [simp]:
  "ends_in u (Done x) Q = Q x"
  "ends_in u Halted Q = u"
  "ends_in u Past_end Q = u"
  "ends_in u Unfinished Q = False"
  by (simp_all add: ends_in_def)

lemma ends_in_then [simp]: "ends_in u (and_then m f) Q = ends_in u m (\<lambda>x. ends_in u (f x) Q)"
  by (cases m) simp_all

lemma ends_in_mono: "ends_in u m Q \<Longrightarrow> (\<And>x. Q x \<Longrightarrow> R x) \<Longrightarrow> ends_in u m R"
  by (cases m) auto

lemma ends_in_strict: "ends_in False m Q \<longleftrightarrow> (\<exists>x. m = Done x \<and> Q x)"
  by (cases m) auto

lemma ends_in_each:
  assumes "I [] s"
    and step: "\<And>as x bs s. xs = as @ x # bs \<Longrightarrow> I as s \<Longrightarrow> ends_in u (f x s) (I (as @ [x]))"
  shows "ends_in u (each_of f xs s) (I xs)"
proof -
  have "ends_in u (each_of f bs s) (I xs)" if "xs = as @ bs" "I as s" for as bs s
    using that
  proof (induction bs arbitrary: as s)
    case (Cons x bs)
    from Cons.IH[of "as @ [x]"] Cons.prems(1)
    have rest: "I (as @ [x]) t \<Longrightarrow> ends_in u (each_of f bs t) (I xs)" for t by simp
    show ?case using ends_in_mono[OF step[OF Cons.prems] rest] by simp
  qed simp
  from this[of "[]" xs s] assms(1) show ?thesis by simp
qed

lemma ends_in_on_hw [simp]: "ends_in u (on_hw m s) Q = ends_in u (m (hw s)) (\<lambda>(v, h). Q (v, s\<lparr>hw := h\<rparr>))"
  by (cases "m (hw s)") (auto simp: on_hw_def split: prod.splits)

section \<open>On any hardware\<close>

lemmas config_defs = read_config16_def read_config32_def write_config16_def write_config32_def select_config_def

lemma select_ends: "select_config P b d f off h \<noteq> Unfinished"
  by (simp add: select_config_def)

lemma and_then_ends [simp]: "and_then m f = Unfinished \<longleftrightarrow> m = Unfinished \<or> (\<exists>x. m = Done x \<and> f x = Unfinished)"
  by (cases m) auto

lemma config_ends [simp]:
  "read_config16 P b d f off h \<noteq> Unfinished" "read_config32 P b d f off h \<noteq> Unfinished"
  "write_config16 P b d f off v16 h \<noteq> Unfinished" "write_config32 P b d f off v h \<noteq> Unfinished"
  "read_bar P x i h \<noteq> Unfinished" "write_bar P x i v h \<noteq> Unfinished"
  by (simp_all add: config_defs read_bar_def write_bar_def)

lemma probe_ends [simp]:
  "command_bit P i on x h \<noteq> Unfinished" "trial_write P x i a h \<noteq> Unfinished"
  "probe_memory64 P x i a r h \<noteq> Unfinished"
  by (auto simp: command_bit_def trial_write_def probe_memory64_def split: prod.splits)

lemma probe_bar_ends: "probe_bar P x i rs h \<noteq> Unfinished"
  by (auto simp: probe_bar_def enable_io_space_at_def enable_memory_space_at_def probe_io_def probe_memory16_def
      probe_memory32_def split: prod.splits if_splits)

lemma probe_bars_ends [simp]: "probe_bars P x i rs h \<noteq> Unfinished"
proof (induction P x i rs h rule: probe_bars.induct)
  case (1 P x i rs h)
  show ?case
  proof (cases "6 \<le> i")
    case False
    note rest = 1[OF False _ refl refl]
    show ?thesis
    proof (cases "probe_bar P x i rs h")
      case (Done y)
      obtain j rs' h' where y: "y = (j, rs', h')" by (cases y) blast
      have "probe_bars P x i rs h = probe_bars P x j rs' h'"
        by (subst probe_bars.simps) (simp only: False if_False Done y and_then.simps prod.case)
      with rest[OF Done[unfolded y]] show ?thesis by simp
    next
      case Unfinished
      then show ?thesis using probe_bar_ends[of P x i rs h] by simp
    qed (subst probe_bars.simps, simp only: False if_False and_then.simps outcome.distinct not_False_eq_True)+
  qed (simp add: probe_bars.simps)
qed

lemma ends_in_anyhow: "m \<noteq> Unfinished \<Longrightarrow> (\<And>x. Q x) \<Longrightarrow> ends_in True m Q"
  by (cases m) auto

definition scanned :: "'h pci \<Rightarrow> u8 set" where
  "scanned s = {b. bm256_get (scannedBusses s) (unat b) = Some True}"

definition place :: "pci_device \<Rightarrow> u8 \<times> u8 \<times> u8" where
  "place x = (on_bus x, on_slot x, on_function x)"

lemma scanned_hw [simp]: "scanned (s\<lparr>hw := h\<rparr>) = scanned s" "scanned (s\<lparr>devices := ds\<rparr>) = scanned s"
  by (simp_all add: scanned_def)

lemma mark_bus: "\<exists>m. bm256_set (unat b) True (scannedBusses s) = Some m \<and>
    scanned (s\<lparr>scannedBusses := m\<rparr>) = insert b (scanned s)"
proof -
  obtain m where m: "bm256_set (unat b) True (scannedBusses s) = Some m"
    and g: "bm256_get m k = (if k = unat b then Some True else bm256_get (scannedBusses s) k)" for k
    using bm256_set_get[of "unat b" True "scannedBusses s"] by blast
  have "scanned (s\<lparr>scannedBusses := m\<rparr>) = insert b (scanned s)"
    by (auto simp: scanned_def g word_unat_eq_iff)
  with m show ?thesis by blast
qed

lemma scanned_get [simp]: "bm256_get (scannedBusses s) (unat b) = Some (b \<in> scanned s)"
  by (simp add: scanned_def bm256_get_bit)

text \<open>From \<open>s0\<close> to \<open>s\<close> the scan has only added buses and devices, each device once: devices of buses scanned meanwhile,
  and functions in \<open>D\<close> of bus \<open>b\<close>.\<close>

definition grown :: "u8 \<Rightarrow> (u8 \<times> u8) set \<Rightarrow> 'h pci \<Rightarrow> 'h pci \<Rightarrow> bool" where
  "grown b D s0 s \<longleftrightarrow> scanned s0 \<subseteq> scanned s \<and>
     (\<exists>new. devices s = devices s0 @ new \<and> distinct (map place new) \<and>
        place ` set new \<subseteq> (scanned s - scanned s0) \<times> UNIV \<union> {b} \<times> D)"

lemma grownE:
  assumes "grown b D s0 s"
  obtains new where "devices s = devices s0 @ new" and "distinct (map place new)" and "scanned s0 \<subseteq> scanned s"
    and "place ` set new \<subseteq> (scanned s - scanned s0) \<times> UNIV \<union> {b} \<times> D"
proof -
  note g = assms[unfolded grown_def]
  from g[THEN conjunct2] show thesis by (elim exE conjE) (rule that, assumption+, rule g[THEN conjunct1], assumption)
qed

lemma grown_refl: "grown b D s s"
  by (simp add: grown_def)

lemma grown_hw [simp]: "grown b D s0 (s\<lparr>hw := h\<rparr>) = grown b D s0 s"
  by (simp add: grown_def)

lemma grown_from_hw [simp]: "grown b D (s0\<lparr>hw := h\<rparr>) = grown b D s0"
  unfolding grown_def scanned_hw fun_eq_iff by simp

lemma grown_mono:
  assumes "grown b D s0 s" and "D \<subseteq> D'"
  shows "grown b D' s0 s"
proof -
  have "{b} \<times> D \<subseteq> {b} \<times> D'" using assms(2) by blast
  with assms(1) show ?thesis unfolding grown_def by blast
qed

lemma apart: "X \<subseteq> A \<times> UNIV \<Longrightarrow> Y \<subseteq> (T - A) \<times> UNIV \<union> {y} \<times> {} \<Longrightarrow> X \<inter> Y = {}"
  by auto

lemma grown_trans:
  assumes "grown b D s0 s" and "D = {} \<or> b \<in> scanned s0" and "grown y {} s t"
  shows "grown b D s0 t"
proof -
  from assms(1) obtain new where 1: "devices s = devices s0 @ new" "distinct (map place new)" "scanned s0 \<subseteq> scanned s"
    "place ` set new \<subseteq> (scanned s - scanned s0) \<times> UNIV \<union> {b} \<times> D" by (rule grownE)
  from assms(3) obtain new2 where 2: "devices t = devices s @ new2" "distinct (map place new2)" "scanned s \<subseteq> scanned t"
    "place ` set new2 \<subseteq> (scanned t - scanned s) \<times> UNIV \<union> {y} \<times> {}" by (rule grownE)
  have "(scanned s - scanned s0) \<times> UNIV \<union> {b} \<times> D \<subseteq> scanned s \<times> UNIV" using 1(3) assms(2) by blast
  from apart[OF subset_trans[OF 1(4) this] 2(4)] have "place ` set new \<inter> place ` set new2 = {}" .
  moreover have "place ` set (new @ new2) \<subseteq> (scanned t - scanned s0) \<times> UNIV \<union> {b} \<times> D"
    unfolding set_append image_Un
  proof (rule Un_least)
    show "place ` set new \<subseteq> (scanned t - scanned s0) \<times> UNIV \<union> {b} \<times> D" using 2(3) by (rule_tac subset_trans[OF 1(4)]) blast
    show "place ` set new2 \<subseteq> (scanned t - scanned s0) \<times> UNIV \<union> {b} \<times> D" using 1(3) by (rule_tac subset_trans[OF 2(4)]) blast
  qed
  moreover have "scanned s0 \<subseteq> scanned t" using 1(3) 2(3) by (rule subset_trans)
  moreover have "devices t = devices s0 @ new @ new2" using 1(1) 2(1) by simp
  ultimately show ?thesis unfolding grown_def using 1(2) 2(2)
    by (intro conjI exI[of _ "new @ new2"]) simp_all
qed

lemma grown_add:
  assumes "grown b D s0 s" and "(d, f) \<notin> D" and "b \<in> scanned s0" and "place x = (b, d, f)"
  shows "grown b (insert (d, f) D) s0 (s\<lparr>devices := devices s @ [x]\<rparr>)"
proof -
  from assms(1) obtain new where "devices s = devices s0 @ new" "distinct (map place new)" "scanned s0 \<subseteq> scanned s"
    "place ` set new \<subseteq> (scanned s - scanned s0) \<times> UNIV \<union> {b} \<times> D" by (rule grownE)
  moreover from this(4) have "(b, d, f) \<notin> place ` set new" using assms(2,3) by blast
  ultimately show ?thesis unfolding grown_def using assms(4)
    by (intro conjI exI[of _ "new @ [x]"]) auto
qed


lemma grown_of_unscanned: "grown b D s0 s \<Longrightarrow> b \<in> scanned s - scanned r \<Longrightarrow> scanned s0 = insert b (scanned r) \<Longrightarrow>
    devices s0 = devices r \<Longrightarrow> grown b {} r s"
  by (erule grownE) (auto simp: grown_def)

text \<open>A scan of a bus not scanned before, at a depth of at least the number of such buses.\<close>

lemma unscanned_less:
  assumes "scanned s0 = insert b (scanned s)" and "b \<notin> scanned s" and "card (- scanned s) \<le> Suc n" and "scanned s0 \<subseteq> scanned t"
  shows "card (- scanned t) \<le> n"
proof -
  have "- scanned t \<subseteq> (- scanned s) - {b}" using assms(1,4) by blast
  then have "card (- scanned t) \<le> card ((- scanned s) - {b})" by (intro card_mono) auto
  with assms(2,3) show ?thesis by (simp add: card_Diff_singleton)
qed

lemma scan_function_grown:
  assumes go: "\<And>y t. y \<notin> scanned t \<Longrightarrow> scanned s0 \<subseteq> scanned t \<Longrightarrow> ends_in True (go y t) (grown y {} t)"
    and g: "grown b D s0 s" and b: "b \<in> scanned s0" and new: "(d, f) \<notin> D"
  shows "ends_in True (scan_function P go b d f s) (grown b (insert (d, f) D) s0)"
proof -
  have bridge: "ends_in True (scan_bridge P go b d t) (grown b D s0)" if t: "grown b D s0 t" for t
  proof -
    have sub: "scanned s0 \<subseteq> scanned t" using t by (simp add: grown_def)
    have "ends_in True (go y (t\<lparr>hw := h\<rparr>)) (grown b D s0)" if "y \<notin> scanned t" for y h
    proof (rule ends_in_mono)
      show "ends_in True (go y (t\<lparr>hw := h\<rparr>)) (grown y {} (t\<lparr>hw := h\<rparr>))" using that sub by (intro go) simp_all
      show "grown y {} (t\<lparr>hw := h\<rparr>) t' \<Longrightarrow> grown b D s0 t'" for t'
        by (rule grown_trans[where s = "t\<lparr>hw := h\<rparr>", OF _ disjI2[OF b]]) (simp_all add: t)
    qed
    then show ?thesis using t unfolding scan_bridge_def
      by (auto simp: Let_def intro!: ends_in_anyhow split: prod.splits)
  qed
  have add: "ends_in True (add_device P i c b d f t) (grown b (insert (d, f) D) s0)" if "grown b D s0 t" for i c t
  proof -
    have "grown b (insert (d, f) D) s0 (t\<lparr>hw := h, devices := devices t @ [(found_device i c b d f)\<lparr>bars := rs\<rparr>]\<rparr>)" for h rs
      using grown_add[where s = "t\<lparr>hw := h\<rparr>" and x = "(found_device i c b d f)\<lparr>bars := rs\<rparr>", OF _ new b] that
      by (simp add: found_device_def place_def)
    then show ?thesis unfolding add_device_def by (auto simp: Let_def intro!: ends_in_anyhow split: prod.splits)
  qed
  show ?thesis unfolding scan_function_def using g grown_mono[OF g, of "insert (d, f) D"]
    by (auto intro!: ends_in_anyhow ends_in_mono[OF bridge] add split: prod.splits)
qed


lemma scan_slot_grown:
  assumes go: "\<And>y t. y \<notin> scanned t \<Longrightarrow> scanned s0 \<subseteq> scanned t \<Longrightarrow> ends_in True (go y t) (grown y {} t)"
    and g: "grown b D s0 s" and b: "b \<in> scanned s0" and new: "{d} \<times> UNIV \<inter> D = {}"
  shows "ends_in True (scan_slot P go b d s) (grown b ({d} \<times> UNIV \<union> D) s0)"
proof -
  have one: "ends_in True (scan_function P go b d 0 t) (grown b ({d} \<times> UNIV \<union> D) s0)" if "grown b D s0 t" for t
  proof (rule ends_in_mono[OF scan_function_grown[OF go that b]])
    show "grown b ({d} \<times> UNIV \<union> D) s0 x" if "grown b (insert (d, 0) D) s0 x" for x using that by (rule grown_mono) blast
  qed (use new in auto)
  have each: "ends_in True (each_of (scan_function P go b d) function_numbers t) (grown b ({d} \<times> set function_numbers \<union> D) s0)"
    if t: "grown b D s0 t" for t
  proof (rule ends_in_each[where I = "\<lambda>fs. grown b ({d} \<times> set fs \<union> D) s0"])
    fix as f bs u
    assume f: "function_numbers = as @ f # bs" and u: "grown b ({d} \<times> set as \<union> D) s0 u"
    have "distinct (as @ f # bs)" unfolding f[symmetric] by code_simp
    with new have "(d, f) \<notin> {d} \<times> set as \<union> D" by auto
    from scan_function_grown[OF go u b this] show "ends_in True (scan_function P go b d f u) (grown b ({d} \<times> set (as @ [f]) \<union> D) s0)"
      by (simp add: Un_commute insert_Times_insert)
  qed (use t in simp)
  have all: "ends_in True (each_of (scan_function P go b d) function_numbers t) (grown b ({d} \<times> UNIV \<union> D) s0)"
    if "grown b D s0 t" for t by (rule ends_in_mono[OF each[OF that]]) (erule grown_mono, blast)
  show ?thesis unfolding scan_slot_def using g grown_mono[OF g, of "{d} \<times> UNIV \<union> D"]
    by (auto simp: Let_def intro!: ends_in_anyhow one all split: prod.splits)
qed

lemma scan_bus_grown:
  assumes "b \<notin> scanned s" and "card (- scanned s) \<le> n"
  shows "ends_in True (scan_bus P n b s) (\<lambda>t. b \<in> scanned t \<and> grown b {} s t)"
  using assms
proof (induction n arbitrary: b s)
  case 0
  then have "- scanned s = {}" by (simp add: card_eq_0_iff)
  with 0 show ?case by auto
next
  case (Suc n)
  obtain m where m: "bm256_set (unat b) True (scannedBusses s) = Some m"
    and s0: "scanned (s\<lparr>scannedBusses := m\<rparr>) = insert b (scanned s)" (is "scanned ?s0 = _") using mark_bus by blast
  have go: "ends_in True (scan_bus P n y t) (grown y {} t)" if "y \<notin> scanned t" "scanned ?s0 \<subseteq> scanned t" for y t
    using ends_in_mono[OF Suc.IH[OF that(1) unscanned_less[OF s0 Suc.prems that(2)]]] by auto
  have "ends_in True (each_of (scan_slot P (scan_bus P n) b) slot_numbers ?s0) (grown b (set slot_numbers \<times> UNIV) ?s0)"
  proof (rule ends_in_each[where I = "\<lambda>ds. grown b (set ds \<times> UNIV) ?s0"])
    fix as d bs u
    assume d: "slot_numbers = as @ d # bs" and u: "grown b (set as \<times> UNIV) ?s0 u"
    have "distinct (as @ d # bs)" unfolding d[symmetric] by code_simp
    then have "{d} \<times> (UNIV :: u8 set) \<inter> set as \<times> UNIV = {}" by auto
    moreover have "set (as @ [d]) \<times> (UNIV :: u8 set) = {d} \<times> UNIV \<union> set as \<times> UNIV" by auto
    ultimately show "ends_in True (scan_slot P (scan_bus P n) b d u) (grown b (set (as @ [d]) \<times> UNIV) ?s0)"
      using scan_slot_grown[OF go u] s0 by simp
  qed (simp add: grown_refl)
  then have "ends_in True (scan_bus P (Suc n) b s) (grown b (set slot_numbers \<times> UNIV) ?s0)" by (simp add: m)
  then show ?case
  proof (rule ends_in_mono)
    fix t
    assume t: "grown b (set slot_numbers \<times> UNIV) ?s0 t"
    then have "b \<in> scanned t" using s0 by (auto simp: grown_def)
    with grown_of_unscanned[OF t _ s0] Suc.prems(1) show "b \<in> scanned t \<and> grown b {} s t" by simp
  qed
qed


lemma scanned_clear [simp]: "scanned (s\<lparr>devices := ds, scannedBusses := bm256_clear m\<rparr>) = {}"
proof -
  have "unat b < 256" for b :: u8 using unsigned_less[of b] by simp
  then have "unat b div 64 < 4" for b :: u8 by (simp add: div_less_iff_less_mult)
  moreover have "bm256_clear m n = 0" if "n < 4" for n using that by (auto simp: bm256_clear_def)
  ultimately have "bm256_clear m (unat b div 64) = 0" for b :: u8 by blast
  then show ?thesis by (simp add: scanned_def bm256_get_bit)
qed

lemma scan_from: "b \<notin> scanned s \<Longrightarrow> ends_in True (scan_bus P 256 b s) (grown b {} s)"
proof -
  assume "b \<notin> scanned s"
  have "card (- scanned s) \<le> card (UNIV :: u8 set)" by (rule card_mono) auto
  then have "card (- scanned s) \<le> 256" by (simp add: card_word)
  from ends_in_mono[OF scan_bus_grown[OF \<open>b \<notin> scanned s\<close> this]] show ?thesis by blast
qed

lemma scan_host_grown:
  assumes "grown 0 {} s0 s"
  shows "ends_in True (scan_host P f s) (grown 0 {} s0)"
proof -
  have "ends_in True (scan_bus P 256 f (s\<lparr>hw := h\<rparr>)) (grown 0 {} s0)" if "f \<notin> scanned s" for h
  proof (rule ends_in_mono[OF scan_from])
    show "grown f {} (s\<lparr>hw := h\<rparr>) t \<Longrightarrow> grown 0 {} s0 t" for t
      by (rule grown_trans[where s = "s\<lparr>hw := h\<rparr>"]) (simp_all add: assms)
  qed (simp add: that)
  with assms show ?thesis unfolding scan_host_def by (auto intro!: ends_in_anyhow split: prod.splits)
qed

lemma scan_all_distinct:
  "ends_in True (scan_all P s) (\<lambda>t. distinct (map place (devices t)) \<and> on_bus ` set (devices t) \<subseteq> scanned t)"
proof -
  let ?s = "s\<lparr>devices := [], scannedBusses := bm256_clear (scannedBusses s)\<rparr>"
  have one: "ends_in True (scan_bus P 256 0 (?s\<lparr>hw := h\<rparr>)) (grown 0 {} ?s)" for h
    using scan_from[of 0 "?s\<lparr>hw := h\<rparr>" P] by (simp add: grown_def)
  have all: "ends_in True (each_of (scan_host P) function_numbers (?s\<lparr>hw := h\<rparr>)) (grown 0 {} ?s)" for h
    by (rule ends_in_each[where I = "\<lambda>_. grown 0 {} ?s"]) (simp_all add: grown_refl scan_host_grown)
  have grown: "ends_in True (scan_all P s) (grown 0 {} ?s)"
    unfolding scan_all_def by (auto intro!: ends_in_anyhow one all split: prod.splits)
  have "distinct (map place (devices t)) \<and> on_bus ` set (devices t) \<subseteq> scanned t" if "grown 0 {} ?s t" for t
    using that by (rule grownE) (auto simp: place_def)
  from ends_in_mono[OF grown this] show ?thesis .
qed

text \<open>C28. On any hardware whatever, however it answers and however its bridges lead back to one another: the recursion of
  the scan never goes deeper than there are buses, so the scan ends; and the list it leaves has every function at
  most once, on a bus that was scanned.\<close>

theorem pci_scan_ends:
  "scan_all P s \<noteq> Unfinished \<and>
   ends_in True (scan_all P s) (\<lambda>t. distinct (map place (devices t)) \<and> on_bus ` set (devices t) \<subseteq> scanned t)"
  using scan_all_distinct[of P s] by auto

end
