(* ===== verification/PciFound.thy ===== *)
theory PciFound
  imports PciScan
begin

text \<open>
  The scan of theory Pci on configuration registers as the PCI documents describe them (\<open>config_space\<close>): a register
  keeps the bits written to it that are writable and ignores the others, reading changes nothing, and no register
  acts on another. What is found, what is left in the registers, and the sizes computed for the BARs.
\<close>

section \<open>Configuration registers\<close>

definition keep_bits :: "u32 \<Rightarrow> u32 \<Rightarrow> u32 \<Rightarrow> u32" where
  "keep_bits m old new = (old AND NOT m) OR (new AND m)"

definition config_space :: "'h config_ports \<Rightarrow> ('h \<Rightarrow> u32) \<Rightarrow> ('h \<Rightarrow> u32 \<Rightarrow> u32) \<Rightarrow> (u32 \<Rightarrow> u32) \<Rightarrow> bool" where
  "config_space P latch regs writable \<longleftrightarrow>
     (\<forall>h v. latch (port_out32 P ioConfig v h) = v \<and> regs (port_out32 P ioConfig v h) = regs h) \<and>
     (\<forall>h v. regs (port_out32 P ioData v h) = (regs h)(latch h := keep_bits (writable (latch h)) (regs h (latch h)) v)) \<and>
     (\<forall>h v. regs (port_out16 P ioData v h) =
        (regs h)(latch h := keep_bits (writable (latch h) AND 0xffff) (regs h (latch h)) (ucast v))) \<and>
     (\<forall>h. port_in32 P ioData h = (regs h (latch h), h)) \<and>
     (\<forall>h. port_in16 P ioData h = (ucast (regs h (latch h)), h))"

lemma config_space_ports:
  assumes "config_space P latch regs W"
  shows "regs (port_out32 P ioConfig v h) = regs h" "latch (port_out32 P ioConfig v h) = v"
    "regs (port_out32 P ioData v h) = (regs h)(latch h := keep_bits (W (latch h)) (regs h (latch h)) v)"
    "regs (port_out16 P ioData v16 h) = (regs h)(latch h := keep_bits (W (latch h) AND 0xffff) (regs h (latch h)) (ucast v16))"
    "port_in32 P ioData h = (regs h (latch h), h)" "port_in16 P ioData h = (ucast (regs h (latch h)), h)"
  using assms by (simp_all add: config_space_def)

lemma keep_bits_restore [simp]: "keep_bits m (keep_bits m a b) a = a"
  by (rule bit_word_eqI) (auto simp: keep_bits_def bit_simps)

lemma bit_below: "bit w n \<Longrightarrow> unat w < 2 ^ k \<Longrightarrow> n < k" for w :: "'a :: len word"
proof -
  assume "bit w n" and k: "unat w < 2 ^ k"
  then have "bit (unat w) n" by (simp add: bit_unsigned_iff)
  then have "odd (unat w div 2 ^ n)" by (rule bit_iff_odd[THEN iffD1])
  then have "unat w div 2 ^ n \<noteq> 0" by (metis even_zero)
  then have "2 ^ n \<le> unat w" by (metis div_less not_le)
  with k have "(2 :: nat) ^ n < 2 ^ k" by (rule_tac le_less_trans)
  then show "n < k" by (rule power_less_imp_less_exp[rotated]) simp
qed

lemma byte_mask: "n < 32 \<Longrightarrow> bit (255 :: u32) n \<longleftrightarrow> n < 8"
proof -
  have m: "(255 :: u32) = mask 8" by (simp add: mask_eq_exp_minus_1)
  show "n < 32 \<Longrightarrow> bit (255 :: u32) n \<longleftrightarrow> n < 8" unfolding m by (simp add: bit_mask_iff)
qed

lemma enable_mask: "n < 8 \<Longrightarrow> \<not> bit (2147483648 :: u32) n"
proof -
  have m: "(2147483648 :: u32) = push_bit 31 1" by (simp add: push_bit_eq_mult)
  show "n < 8 \<Longrightarrow> \<not> bit (2147483648 :: u32) n" unfolding m bit_push_bit_iff by linarith
qed

lemma low_byte: "off < 256 \<Longrightarrow> config_address b d f off AND 0xff = off"
proof (rule bit_word_eqI)
  fix n
  assume off: "off < 256" and n: "n < LENGTH(32)"
  have "unat off < 2 ^ 8" using off by (simp add: word_less_nat_alt)
  then have "bit off n \<Longrightarrow> n < 8" using bit_below by blast
  moreover have "bit (255 :: u32) n \<longleftrightarrow> n < 8" using n by (intro byte_mask) simp
  ultimately show "bit (config_address b d f off AND 0xff) n = bit off n"
    unfolding config_address_def bit_and_iff bit_or_iff bit_push_bit_iff using enable_mask[of n] by auto
qed

lemma address_apart: "off < 256 \<Longrightarrow> off' < 256 \<Longrightarrow> off \<noteq> off' \<Longrightarrow> config_address b d f off \<noteq> config_address b' d' f' off'"
  by (metis low_byte)

lemma bar_offset:
  "i \<le> 6 \<Longrightarrow> bar_offset i AND 3 = 0" "i \<le> 6 \<Longrightarrow> bar_offset i < 256" "i \<le> 6 \<Longrightarrow> bar_offset i \<noteq> 4"
  "i \<le> 5 \<Longrightarrow> bar_offset i \<noteq> bar_offset (i + 1)"
proof -
  have "i \<in> {0, 1, 2, 3, 4, 5, 6}" if "i \<le> 6" using that by (simp add: numeral_eq_Suc le_Suc_eq)
  then show "i \<le> 6 \<Longrightarrow> bar_offset i AND 3 = 0" "i \<le> 6 \<Longrightarrow> bar_offset i < 256" "i \<le> 6 \<Longrightarrow> bar_offset i \<noteq> 4"
    by (auto simp: bar_offset_def)
  show "i \<le> 5 \<Longrightarrow> bar_offset i \<noteq> bar_offset (i + 1)" by (simp add: bar_offset_def)
qed


section \<open>Probing a device\<close>

definition command_of :: "u8 \<times> u8 \<times> u8 \<Rightarrow> u32" where
  "command_of p = (case p of (b, d, f) \<Rightarrow> config_address b d f 4)"

definition bar_of :: "pci_device \<Rightarrow> nat \<Rightarrow> u32" where
  "bar_of x i = config_address (on_bus x) (on_slot x) (on_function x) (bar_offset i)"

text \<open>The registers with the two decoding bits of a device's command register cleared, as far as they are writable.\<close>

definition quiet :: "(u32 \<Rightarrow> u32) \<Rightarrow> u32 \<Rightarrow> (u32 \<Rightarrow> u32) \<Rightarrow> u32 \<Rightarrow> u32" where
  "quiet W a r = r(a := r a AND NOT (3 AND W a))"

lemma quiet_other [simp]: "b \<noteq> a \<Longrightarrow> quiet W a r b = r b"
  by (simp add: quiet_def)

lemma quiet_quiet [simp]: "quiet W a (quiet W a r) = quiet W a r"
  by (auto simp: quiet_def fun_eq_iff intro!: bit_word_eqI bit_simps)

lemma bar_of_apart:
  "i \<le> 6 \<Longrightarrow> bar_of x i \<noteq> command_of p" "i \<le> 5 \<Longrightarrow> bar_of x i \<noteq> bar_of x (i + 1)"
proof -
  have "config_address b d f (bar_offset i) \<noteq> config_address b' d' f' 4" if "i \<le> 6" for b d f b' d' f'
    using bar_offset(2,3)[OF that] by (intro address_apart) simp_all
  then show "i \<le> 6 \<Longrightarrow> bar_of x i \<noteq> command_of p" by (simp add: bar_of_def command_of_def split: prod.split)
  have "config_address b d f (bar_offset i) \<noteq> config_address b d f (bar_offset (i + 1))" if "i \<le> 5" for b d f
    using that bar_offset(2)[of i] bar_offset(2)[of "i + 1"] bar_offset(4)[OF that] by (intro address_apart) simp_all
  then show "i \<le> 5 \<Longrightarrow> bar_of x i \<noteq> bar_of x (i + 1)" by (simp only: bar_of_def not_False_eq_True)
qed

lemma clear_bit_word: "keep_bits (w AND 0xffff) old (ucast ((ucast old :: u16) AND NOT (push_bit i 1))) = old AND NOT (push_bit i 1 AND w)"
  if "i < 16" for w old :: u32
proof (rule bit_word_eqI)
  fix n
  assume n: "n < LENGTH(32)"
  have m: "bit (0xffff :: u32) n \<longleftrightarrow> n < 16"
  proof -
    have m: "(0xffff :: u32) = mask 16" by (simp add: mask_eq_exp_minus_1)
    show ?thesis unfolding m using n by (simp add: bit_mask_iff)
  qed
  show "bit (keep_bits (w AND 0xffff) old (ucast ((ucast old :: u16) AND NOT (push_bit i 1)))) n =
      bit (old AND NOT (push_bit i 1 AND w)) n"
    unfolding keep_bits_def using n that m by (auto simp: bit_simps)
qed

lemma command_bit_off:
  assumes cs: "config_space P latch regs W" and "i < 16"
  shows "\<exists>h'. command_bit P i False x h = Done h' \<and>
    regs h' = (regs h)(command_of (place x) := regs h (command_of (place x)) AND NOT (push_bit i 1 AND W (command_of (place x))))"
  using clear_bit_word[OF assms(2)]
  by (simp add: command_bit_def config_defs config_space_ports[OF cs] place_def command_of_def)

lemma both_bits_off: "(a AND NOT (2 AND w)) AND NOT (1 AND w) = a AND NOT (3 AND w)" for a w :: u32
proof -
  have "(3 :: u32) = 2 OR 1" by simp
  then show ?thesis by (simp only: bit.conj_disj_distrib2 bit.de_Morgan_disj and.assoc)
qed

lemma decoding_off:
  assumes cs: "config_space P latch regs W"
  shows "\<exists>h1 h2. enable_memory_space_at P False x h = Done h1 \<and> enable_io_space_at P False x h1 = Done h2 \<and>
    regs h2 = quiet W (command_of (place x)) (regs h)"
proof -
  obtain h1 where 1: "command_bit P 1 False x h = Done h1"
    "regs h1 = (regs h)(command_of (place x) := regs h (command_of (place x)) AND NOT (push_bit 1 1 AND W (command_of (place x))))"
    using command_bit_off[OF cs, of 1 x h] by auto
  obtain h2 where 2: "command_bit P 0 False x h1 = Done h2"
    "regs h2 = (regs h1)(command_of (place x) := regs h1 (command_of (place x)) AND NOT (push_bit 0 1 AND W (command_of (place x))))"
    using command_bit_off[OF cs, of 0 x h1] by auto
  have "regs h2 = quiet W (command_of (place x)) (regs h)"
    using 1(2) 2(2) both_bits_off[of "regs h (command_of (place x))" "W (command_of (place x))"]
    by (simp add: quiet_def)
  with 1(1) 2(1) show ?thesis by (auto simp: enable_memory_space_at_def enable_io_space_at_def)
qed


text \<open>The bits of a register that take a one.\<close>

definition trial :: "(u32 \<Rightarrow> u32) \<Rightarrow> (u32 \<Rightarrow> u32) \<Rightarrow> u32 \<Rightarrow> u32" where
  "trial W r a = keep_bits (W a) (r a) 0xffffffff"

lemma bar_access:
  assumes cs: "config_space P latch regs W" and "i \<le> 6"
  shows "\<exists>h'. read_bar P x i h = Done (regs h (bar_of x i), h') \<and> regs h' = regs h"
    and "\<exists>h'. write_bar P x i v h = Done h' \<and> regs h' = (regs h)(bar_of x i := keep_bits (W (bar_of x i)) (regs h (bar_of x i)) v)"
  using bar_offset(1)[OF assms(2)]
  by (simp_all add: read_bar_def write_bar_def config_defs config_space_ports[OF cs] bar_of_def)

lemma trial_write:
  assumes cs: "config_space P latch regs W" and i: "i \<le> 6"
  shows "\<exists>h'. trial_write P x i (regs h (bar_of x i)) h = Done (trial W (regs h) (bar_of x i), h') \<and> regs h' = regs h"
proof -
  let ?a = "bar_of x i"
  obtain h1 where 1: "write_bar P x i 0xffffffff h = Done h1" "regs h1 = (regs h)(?a := trial W (regs h) ?a)"
    using bar_access(2)[OF cs i, where x = x and v = "0xffffffff" and h = h] by (auto simp: trial_def)
  obtain h2 where 2: "read_bar P x i h1 = Done (trial W (regs h) ?a, h2)" "regs h2 = regs h1"
    using bar_access(1)[OF cs i, where x = x and h = h1] 1(2) by auto
  obtain h3 where 3: "write_bar P x i (regs h ?a) h2 = Done h3" "regs h3 = regs h"
    using bar_access(2)[OF cs i, where x = x and v = "regs h ?a" and h = h2] 1(2) 2(2) by (auto simp: trial_def)
  show ?thesis using 1(1) 2(1) 3 by (simp add: trial_write_def)
qed

lemma probe_memory64:
  assumes cs: "config_space P latch regs W" and i: "i \<le> 5"
  shows "\<exists>h'. probe_memory64 P x i (regs h (bar_of x i)) r h =
      Done (r\<lparr>ioPort := 0, ioSize := 0, bar_width := Bar64,
              memoryAddress := ucast (regs h (bar_of x i) AND 0xfffffff0) OR push_bit 32 (ucast (regs h (bar_of x (i + 1)))),
              memorySize := NOT (ucast (trial W (regs h) (bar_of x i) AND 0xfffffff0) OR
                                 push_bit 32 (ucast (regs h (bar_of x (i + 1))))) + 1\<rparr>, h') \<and>
    regs h' = regs h"
proof -
  let ?a = "bar_of x i" and ?b = "bar_of x (i + 1)"
  have i6: "i \<le> 6" "i + 1 \<le> 6" and ab: "?a \<noteq> ?b" using i bar_of_apart(2)[OF i] by simp_all
  obtain h0 where 0: "read_bar P x (i + 1) h = Done (regs h ?b, h0)" "regs h0 = regs h"
    using bar_access(1)[OF cs i6(2), where x = x and h = h] by auto
  obtain h1 where 1: "write_bar P x i 0xffffffff h0 = Done h1" "regs h1 = (regs h)(?a := trial W (regs h) ?a)"
    using bar_access(2)[OF cs i6(1), where x = x and v = "0xffffffff" and h = h0] 0(2) by (auto simp: trial_def)
  obtain h2 where 2: "write_bar P x (i + 1) 0xffffffff h1 = Done h2"
    "regs h2 = (regs h)(?a := trial W (regs h) ?a, ?b := trial W (regs h) ?b)"
    using bar_access(2)[OF cs i6(2), where x = x and v = "0xffffffff" and h = h1] 1(2) ab by (auto simp: trial_def)
  obtain h3 where 3: "read_bar P x i h2 = Done (trial W (regs h) ?a, h3)" "regs h3 = regs h2"
    using bar_access(1)[OF cs i6(1), where x = x and h = h2] 2(2) ab by auto
  obtain h4 where 4: "write_bar P x i (regs h ?a) h3 = Done h4" "regs h4 = (regs h)(?b := trial W (regs h) ?b)"
    using bar_access(2)[OF cs i6(1), where x = x and v = "regs h ?a" and h = h3] 2(2) 3(2) ab by (auto simp: trial_def fun_upd_twist)
  obtain h5 where 5: "write_bar P x (i + 1) (regs h ?b) h4 = Done h5" "regs h5 = regs h"
    using bar_access(2)[OF cs i6(2), where x = x and v = "regs h ?b" and h = h4] 4(2) by (auto simp: trial_def)
  show ?thesis unfolding probe_memory64_def by (simp only: 0(1) 1(1) 2(1) 3(1) 4(1) 5 and_then.simps prod.case) (simp add: 5(2))
qed


text \<open>A 64-bit register in the last place makes the scan write behind \<^verbatim>\<open>bar[5]\<close>.\<close>

definition wide :: "u32 \<Rightarrow> bool" where
  "wide a \<longleftrightarrow> a AND 7 = 4"

lemma wide_type: "a AND 1 = 0 \<and> drop_bit 1 (a AND 6) = 2 \<longleftrightarrow> wide a" for a :: u32
proof -
  have low: "a AND 1 = (a AND 7) AND 1" "a AND 6 = (a AND 7) AND 6" by (simp_all add: and.assoc)
  have "unat (a AND 7) < 8" using word_and_le1[of a 7] by (simp add: word_le_nat_alt)
  then have "unat (a AND 7) \<in> {0, 1, 2, 3, 4, 5, 6, 7}" by auto
  then have "a AND 7 \<in> {0, 1, 2, 3, 4, 5, 6, 7}" by (auto simp: word_unat_eq_iff)
  then show ?thesis unfolding wide_def low by (elim insertE) (simp_all add: drop_bit_eq_div)
qed

lemma probe_round:
  assumes cs: "config_space P latch regs W" and i: "i < 6" and len: "length rs = 6"
    and last: "\<not> wide (regs h (bar_of x 5))"
  shows "\<exists>j rs' h'. probe_bar P x i rs h = Done (j, rs', h') \<and> length rs' = 6 \<and> i < j \<and> regs h' = quiet W (command_of (place x)) (regs h)"
proof -
  let ?q = "quiet W (command_of (place x)) (regs h)" and ?a = "regs h (bar_of x i)"
  obtain h1 h2 where 1: "enable_memory_space_at P False x h = Done h1" "enable_io_space_at P False x h1 = Done h2" "regs h2 = ?q"
    using decoding_off[OF cs] by blast
  obtain h3 where 2: "read_bar P x i h2 = Done (?a, h3)" "regs h3 = ?q"
    using bar_access(1)[OF cs, of i x h2] bar_of_apart(1)[of i x] i 1(3) by auto
  have a: "?a = regs h3 (bar_of x i)" using bar_of_apart(1)[of i x] i 2(2) by simp
  obtain h4 where 3: "trial_write P x i ?a h3 = Done (trial W (regs h3) (bar_of x i), h4)" "regs h4 = ?q"
    using trial_write[OF cs, of i x h3] i 2(2) unfolding a by auto
  show ?thesis
  proof (cases "wide ?a")
    case True
    then have "i \<noteq> 5" using last by auto
    then have i4: "i \<le> 5" "i + 1 < length rs" using i len by simp_all
    obtain r h5 where 4: "probe_memory64 P x i ?a (rs ! i) h3 = Done (r, h5)" "regs h5 = ?q"
      using probe_memory64[OF cs i4(1), of x h3 "rs ! i"] 2(2) unfolding a by auto
    show ?thesis using True wide_type[of ?a] i4 len
      by (simp add: probe_bar_def 1 2(1) 4)
  next
    case False
    then show ?thesis using wide_type[of ?a] len
      by (simp add: probe_bar_def 1 2(1) probe_io_def probe_memory16_def probe_memory32_def 3)
  qed
qed


lemma probe_bars_quiet:
  assumes cs: "config_space P latch regs W" and "length rs = 6" and "\<not> wide (regs h (bar_of x 5))"
  shows "\<exists>rs' h'. probe_bars P x i rs h = Done (rs', h') \<and>
    regs h' = (if i < 6 then quiet W (command_of (place x)) (regs h) else regs h)"
  using assms(2,3)
proof (induction "6 - i" arbitrary: i rs h rule: less_induct)
  case less
  show ?case
  proof (cases "i < 6")
    case True
    obtain j rs1 h1 where 1: "probe_bar P x i rs h = Done (j, rs1, h1)" "length rs1 = 6" "i < j"
      "regs h1 = quiet W (command_of (place x)) (regs h)"
      using probe_round[OF cs True less.prems] by blast
    have "\<not> wide (regs h1 (bar_of x 5))" using less.prems(2) bar_of_apart(1)[of 5 x] by (simp add: 1(4))
    moreover have "6 - j < 6 - i" using 1(3) True by simp
    ultimately obtain rs2 h2 where 2: "probe_bars P x j rs1 h1 = Done (rs2, h2)"
      "regs h2 = (if j < 6 then quiet W (command_of (place x)) (regs h1) else regs h1)" using less.hyps[of j rs1 h1] 1(2) by blast
    have "probe_bars P x i rs h = Done (rs2, h2)"
      using True by (subst probe_bars.simps) (simp add: 1(1) 2(1))
    then show ?thesis using 2(2) 1(4) True by simp
  qed (simp add: probe_bars.simps)
qed

section \<open>The functions behind the host bridge\<close>

definition present :: "(u32 \<Rightarrow> u32) \<Rightarrow> u8 \<Rightarrow> u8 \<Rightarrow> u8 \<Rightarrow> bool" where
  "present R b d f \<longleftrightarrow> (ucast (R (config_address b d f 0)) :: u16) \<noteq> 0xffff"

definition multi :: "(u32 \<Rightarrow> u32) \<Rightarrow> u8 \<Rightarrow> u8 \<Rightarrow> bool" where
  "multi R b d \<longleftrightarrow> (drop_bit 16 (R (config_address b d 0 0x0c)) AND 0xff) AND 0x80 \<noteq> 0"

text \<open>The functions of a bus that can be found: function 0 of every slot and, when it says that there are more, those
  that answer.\<close>

definition visible :: "(u32 \<Rightarrow> u32) \<Rightarrow> u8 \<Rightarrow> u8 \<Rightarrow> u8 \<Rightarrow> bool" where
  "visible R b d f \<longleftrightarrow> d \<in> set slot_numbers \<and> present R b d 0 \<and>
     (f = 0 \<or> multi R b d \<and> f \<in> set function_numbers) \<and> present R b d f"

definition is_bridge :: "(u32 \<Rightarrow> u32) \<Rightarrow> u8 \<Rightarrow> u8 \<Rightarrow> u8 \<Rightarrow> bool" where
  "is_bridge R b d f \<longleftrightarrow> (ucast (drop_bit 16 (R (config_address b d f 8))) :: u16) = pciToPciBridge"

definition behind :: "(u32 \<Rightarrow> u32) \<Rightarrow> u8 \<Rightarrow> u8 \<Rightarrow> u8 \<Rightarrow> u8" where
  "behind R b d f = ucast (drop_bit 8 (R (config_address b d f 0x18)) AND 0xff)"

text \<open>One bus leads to another as the code follows it, and as the bridges say.\<close>

definition link :: "(u32 \<Rightarrow> u32) \<Rightarrow> u8 \<Rightarrow> u8 \<Rightarrow> bool" where
  "link R b y \<longleftrightarrow> (\<exists>d f. visible R b d f \<and> is_bridge R b d f \<and> y = behind R b d 0)"

definition bridged :: "(u32 \<Rightarrow> u32) \<Rightarrow> u8 \<Rightarrow> u8 \<Rightarrow> bool" where
  "bridged R b y \<longleftrightarrow> (\<exists>d f. visible R b d f \<and> is_bridge R b d f \<and> y = behind R b d f)"

definition silenced :: "(u32 \<Rightarrow> u32) \<Rightarrow> (u8 \<times> u8 \<times> u8) set \<Rightarrow> (u32 \<Rightarrow> u32) \<Rightarrow> u32 \<Rightarrow> u32" where
  "silenced W F R a = (if a \<in> command_of ` F then R a AND NOT (3 AND W a) else R a)"

definition genuine :: "(u32 \<Rightarrow> u32) \<Rightarrow> pci_device \<Rightarrow> bool" where
  "genuine R x \<longleftrightarrow> device_id x = R (config_address (on_bus x) (on_slot x) (on_function x) 0) \<and>
     fullClass x = R (config_address (on_bus x) (on_slot x) (on_function x) 8)"

definition agrees :: "('h \<Rightarrow> u32 \<Rightarrow> u32) \<Rightarrow> (u32 \<Rightarrow> u32) \<Rightarrow> (u32 \<Rightarrow> u32) \<Rightarrow> 'h pci \<Rightarrow> bool" where
  "agrees regs W R s \<longleftrightarrow> regs (hw s) = silenced W (place ` set (devices s)) R \<and> (\<forall>x\<in>set (devices s). genuine R x)"

lemma silenced_empty [simp]: "silenced W {} R = R"
  by (simp add: silenced_def fun_eq_iff)

lemma silenced_insert: "quiet W (command_of p) (silenced W F R) = silenced W (insert p F) R"
proof
  fix a
  have "(w AND NOT (3 AND v)) AND NOT (3 AND v) = w AND NOT (3 AND v)" for w v :: u32
    by (simp add: and.assoc)
  then show "quiet W (command_of p) (silenced W F R) a = silenced W (insert p F) R a"
    by (auto simp: quiet_def silenced_def)
qed

lemma silenced_other: "off < 256 \<Longrightarrow> off \<noteq> 4 \<Longrightarrow> silenced W F R (config_address b d f off) = R (config_address b d f off)"
proof -
  assume "off < 256" "off \<noteq> 4"
  then have "config_address b d f off \<noteq> config_address b' d' f' 4" for b' d' f' by (intro address_apart) simp_all
  then show ?thesis by (auto simp: silenced_def command_of_def)
qed

lemma read_register:
  assumes cs: "config_space P latch regs W" and "agrees regs W R s" and "off < 256" "off \<noteq> 4" "off AND 3 = 0"
  shows "\<exists>h'. on_hw (read_config32 P b d f off) s = Done (R (config_address b d f off), s\<lparr>hw := h'\<rparr>) \<and> regs h' = regs (hw s)"
  using assms(2) silenced_other[OF assms(3,4)] assms(5)
  by (intro exI[of _ "port_out32 P ioConfig (config_address b d f off) (hw s)"])
    (simp add: on_hw_def config_defs config_space_ports[OF cs] agrees_def)


text \<open>From \<open>s0\<close> to \<open>s\<close> the scan of bus \<open>b\<close> has dealt with the functions \<open>Q\<close> of it, and with all of the buses marked since,
  which are those it was led to.\<close>

definition found :: "('h \<Rightarrow> u32 \<Rightarrow> u32) \<Rightarrow> (u32 \<Rightarrow> u32) \<Rightarrow> (u32 \<Rightarrow> u32) \<Rightarrow> u8 \<Rightarrow> (u8 \<times> u8) set \<Rightarrow> 'h pci \<Rightarrow> 'h pci \<Rightarrow> bool" where
  "found regs W R b Q s0 s \<longleftrightarrow> agrees regs W R s \<and> scanned s0 \<subseteq> scanned s \<and>
     (\<forall>x \<in> scanned s - scanned s0. (link R)\<^sup>*\<^sup>* b x \<and> Collect (link R x) \<subseteq> scanned s) \<and>
     (\<forall>(d, f) \<in> Q. visible R b d f \<and> is_bridge R b d f \<longrightarrow> behind R b d 0 \<in> scanned s) \<and>
     place ` set (devices s) = place ` set (devices s0) \<union>
       {(x, d, f). visible R x d f \<and> (x \<in> scanned s - scanned s0 \<or> x = b \<and> (d, f) \<in> Q)}"

lemma found_hw: "found regs W R b Q s0 s \<Longrightarrow> regs h = regs (hw s) \<Longrightarrow> found regs W R b Q s0 (s\<lparr>hw := h\<rparr>)"
  by (simp add: found_def agrees_def)

lemma found_agrees: "found regs W R b Q s0 s \<Longrightarrow> agrees regs W R s"
  by (simp add: found_def)

lemma found_start: "agrees regs W R s \<Longrightarrow> found regs W R b {} s s"
  by (auto simp: found_def)

lemma found_behind:
  "found regs W R b Q s0 s \<Longrightarrow> (d, f) \<in> Q \<Longrightarrow> visible R b d f \<Longrightarrow> is_bridge R b d f \<Longrightarrow> behind R b d 0 \<in> scanned s"
  unfolding found_def by fast

lemma found_trans:
  assumes 1: "found regs W R b Q s0 s" and 2: "found regs W R y {} s t" and l: "link R b y"
  shows "found regs W R b Q s0 t"
  unfolding found_def
proof (intro conjI ballI)
  show "agrees regs W R t" using 2 by (rule found_agrees)
  have st: "scanned s0 \<subseteq> scanned s" "scanned s \<subseteq> scanned t" using 1 2 by (simp_all add: found_def)
  then show "scanned s0 \<subseteq> scanned t" by blast
  fix x
  assume x: "x \<in> scanned t - scanned s0"
  show "(link R)\<^sup>*\<^sup>* b x"
  proof (cases "x \<in> scanned s")
    case True
    then show ?thesis using 1 x by (simp add: found_def)
  next
    case False
    then have "(link R)\<^sup>*\<^sup>* y x" using 2 x by (simp add: found_def)
    with l show ?thesis by (rule converse_rtranclp_into_rtranclp)
  qed
  show "Collect (link R x) \<subseteq> scanned t"
  proof (cases "x \<in> scanned s")
    case True
    then have "Collect (link R x) \<subseteq> scanned s" using 1 x by (simp add: found_def)
    with st(2) show ?thesis by blast
  next
    case False
    then show ?thesis using 2 x by (simp add: found_def)
  qed
next
  fix p
  assume "p \<in> Q"
  then show "case p of (d, f) \<Rightarrow> visible R b d f \<and> is_bridge R b d f \<longrightarrow> behind R b d 0 \<in> scanned t"
    using 1 2 unfolding found_def by fast
next
  have st: "scanned s0 \<subseteq> scanned s" "scanned s \<subseteq> scanned t" using 1 2 by (simp_all add: found_def)
  have "place ` set (devices t) = place ` set (devices s0) \<union>
      {(x, d, f). visible R x d f \<and> (x \<in> scanned s - scanned s0 \<or> x = b \<and> (d, f) \<in> Q)} \<union>
      {(x, d, f). visible R x d f \<and> (x \<in> scanned t - scanned s)}"
    using 1 2 by (simp add: found_def)
  also have "\<dots> = place ` set (devices s0) \<union>
      {(x, d, f). visible R x d f \<and> (x \<in> scanned t - scanned s0 \<or> x = b \<and> (d, f) \<in> Q)}"
    using st unfolding Un_assoc by (intro arg_cong2[where f = "(\<union>)"] refl) auto
  finally show "place ` set (devices t) = \<dots>" .
qed

lemma found_device_added:
  assumes f: "found regs W R b Q s0 s" and v: "visible R b d f" and x: "place x = (b, d, f)" "genuine R x"
    and b: "is_bridge R b d f \<Longrightarrow> behind R b d 0 \<in> scanned s"
    and h: "regs h = quiet W (command_of (b, d, f)) (regs (hw s))"
  shows "found regs W R b (insert (d, f) Q) s0 (s\<lparr>hw := h, devices := devices s @ [x]\<rparr>)"
proof -
  have "{(x, d', f'). visible R x d' f' \<and> (x \<in> scanned s - scanned s0 \<or> x = b \<and> (d', f') \<in> insert (d, f) Q)} =
      insert (b, d, f) {(x, d', f'). visible R x d' f' \<and> (x \<in> scanned s - scanned s0 \<or> x = b \<and> (d', f') \<in> Q)}"
    using v by auto
  then show ?thesis using f x b h unfolding found_def agrees_def
    by (simp add: silenced_insert)
qed

lemma found_nothing:
  "found regs W R b Q s0 s \<Longrightarrow> (\<And>d f. (d, f) \<in> Q' \<Longrightarrow> (d, f) \<notin> Q \<Longrightarrow> \<not> visible R b d f) \<Longrightarrow> Q \<subseteq> Q' \<Longrightarrow> found regs W R b Q' s0 s"
proof -
  assume f: "found regs W R b Q s0 s" and n: "\<And>d f. (d, f) \<in> Q' \<Longrightarrow> (d, f) \<notin> Q \<Longrightarrow> \<not> visible R b d f" and q: "Q \<subseteq> Q'"
  have "{(x, d, f). visible R x d f \<and> (x \<in> scanned s - scanned s0 \<or> x = b \<and> (d, f) \<in> Q')} =
      {(x, d, f). visible R x d f \<and> (x \<in> scanned s - scanned s0 \<or> x = b \<and> (d, f) \<in> Q)}"
    using n q by auto
  moreover have "\<forall>(d, f) \<in> Q'. visible R b d f \<and> is_bridge R b d f \<longrightarrow> behind R b d 0 \<in> scanned s"
    using f n unfolding found_def by fast
  ultimately show ?thesis using f unfolding found_def by simp
qed


section \<open>What a scan finds\<close>

text \<open>The registers offer no function whose last BAR is the lower half of a 64-bit one.\<close>

definition last_bar_narrow :: "(u32 \<Rightarrow> u32) \<Rightarrow> bool" where
  "last_bar_narrow R \<longleftrightarrow> (\<forall>b d f. \<not> wide (R (config_address b d f 0x24)))"

lemma add_device_found:
  assumes cs: "config_space P latch regs W" and nw: "last_bar_narrow R" and f: "found regs W R b Q s0 s"
    and v: "visible R b d fn" and b: "is_bridge R b d fn \<Longrightarrow> behind R b d 0 \<in> scanned s"
    and ic: "i = R (config_address b d fn 0)" "c = R (config_address b d fn 8)"
  shows "\<exists>s'. add_device P i c b d fn s = Done s' \<and> found regs W R b (insert (d, fn) Q) s0 s'"
proof -
  let ?x = "found_device i c b d fn"
  have five: "bar_of x 5 = config_address (on_bus x) (on_slot x) (on_function x) 0x24" for x
    by (simp add: bar_of_def bar_offset_def)
  have "regs (hw s) (bar_of ?x 5) = R (bar_of ?x 5)" using found_agrees[OF f] by (simp add: agrees_def five silenced_other)
  then have "\<not> wide (regs (hw s) (bar_of ?x 5))" using nw by (simp add: last_bar_narrow_def five)
  moreover have "length (bars ?x) = 6" by (simp add: found_device_def)
  ultimately obtain rs h where "probe_bars P ?x 0 (bars ?x) (hw s) = Done (rs, h)"
    and h: "regs h = quiet W (command_of (place ?x)) (regs (hw s))"
    using probe_bars_quiet[OF cs, of "bars ?x" "hw s" ?x 0] by auto
  then have "add_device P i c b d fn s = Done (s\<lparr>hw := h, devices := devices s @ [?x\<lparr>bars := rs\<rparr>]\<rparr>)"
    by (simp add: add_device_def on_hw_def Let_def)
  moreover have "found regs W R b (insert (d, fn) Q) s0 (s\<lparr>hw := h, devices := devices s @ [?x\<lparr>bars := rs\<rparr>]\<rparr>)"
    using f v _ _ b by (rule found_device_added) (use h ic in \<open>simp_all add: place_def genuine_def found_device_def\<close>)
  ultimately show ?thesis by blast
qed

lemma scan_bridge_found:
  assumes cs: "config_space P latch regs W" and f: "found regs W R b Q s0 s"
    and go: "\<And>y t. y \<notin> scanned t \<Longrightarrow> scanned s0 \<subseteq> scanned t \<Longrightarrow> agrees regs W R t \<Longrightarrow>
      \<exists>t'. go y t = Done t' \<and> y \<in> scanned t' \<and> found regs W R y {} t t'"
    and l: "link R b (behind R b d 0)"
  shows "\<exists>s'. scan_bridge P go b d s = Done s' \<and> found regs W R b Q s0 s' \<and> behind R b d 0 \<in> scanned s'"
proof -
  let ?y = "behind R b d 0"
  obtain h where 1: "on_hw (read_config32 P b d 0 0x18) s = Done (R (config_address b d 0 0x18), s\<lparr>hw := h\<rparr>)" "regs h = regs (hw s)"
    using read_register[OF cs found_agrees[OF f], of "0x18" b d 0] by auto
  have s1: "found regs W R b Q s0 (s\<lparr>hw := h\<rparr>)" using found_hw[OF f 1(2)] .
  have run: "scan_bridge P go b d s = (if ?y \<in> scanned s then Done (s\<lparr>hw := h\<rparr>) else go ?y (s\<lparr>hw := h\<rparr>))"
    using scanned_get[of "s\<lparr>hw := h\<rparr>" ?y] by (simp add: scan_bridge_def 1(1) behind_def)
  show ?thesis
  proof (cases "?y \<in> scanned s")
    case True
    then show ?thesis using run s1 by simp
  next
    case False
    have "scanned s0 \<subseteq> scanned (s\<lparr>hw := h\<rparr>)" using f by (simp add: found_def)
    with go[of ?y "s\<lparr>hw := h\<rparr>"] False found_agrees[OF s1]
    obtain t where "go ?y (s\<lparr>hw := h\<rparr>) = Done t" "?y \<in> scanned t" "found regs W R ?y {} (s\<lparr>hw := h\<rparr>) t" by auto
    with found_trans[OF s1 this(3) l] False run show ?thesis by simp
  qed
qed

lemma scan_function_found:
  assumes cs: "config_space P latch regs W" and nw: "last_bar_narrow R" and f: "found regs W R b Q s0 s"
    and go: "\<And>y t. y \<notin> scanned t \<Longrightarrow> scanned s0 \<subseteq> scanned t \<Longrightarrow> agrees regs W R t \<Longrightarrow>
      \<exists>t'. go y t = Done t' \<and> y \<in> scanned t' \<and> found regs W R y {} t t'"
    and slot: "d \<in> set slot_numbers" "present R b d 0" "fn = 0 \<or> multi R b d \<and> fn \<in> set function_numbers"
  shows "\<exists>s'. scan_function P go b d fn s = Done s' \<and> found regs W R b (insert (d, fn) Q) s0 s'"
proof -
  obtain h where 1: "on_hw (read_config32 P b d fn 0) s = Done (R (config_address b d fn 0), s\<lparr>hw := h\<rparr>)" "regs h = regs (hw s)"
    using read_register[OF cs found_agrees[OF f], of 0 b d fn] by auto
  have s1: "found regs W R b Q s0 (s\<lparr>hw := h\<rparr>)" (is "found _ _ _ _ _ _ ?s1") using found_hw[OF f 1(2)] .
  show ?thesis
  proof (cases "present R b d fn")
    case False
    then have "scan_function P go b d fn s = Done ?s1" by (simp add: scan_function_def 1(1) present_def)
    moreover have "found regs W R b (insert (d, fn) Q) s0 ?s1"
      using s1 by (rule found_nothing) (use False in \<open>auto simp: visible_def\<close>)
    ultimately show ?thesis by blast
  next
    case True
    then have v: "visible R b d fn" using slot by (simp add: visible_def)
    obtain h2 where 2: "on_hw (read_config32 P b d fn 8) ?s1 = Done (R (config_address b d fn 8), ?s1\<lparr>hw := h2\<rparr>)" "regs h2 = regs (hw ?s1)"
      using read_register[OF cs found_agrees[OF s1], of 8 b d fn] by auto
    have s2: "found regs W R b Q s0 (?s1\<lparr>hw := h2\<rparr>)" (is "found _ _ _ _ _ _ ?s2") using found_hw[OF s1 2(2)] .
    have "\<exists>t. (if is_bridge R b d fn then scan_bridge P go b d ?s2 else Done ?s2) = Done t \<and> found regs W R b Q s0 t \<and>
        (is_bridge R b d fn \<longrightarrow> behind R b d 0 \<in> scanned t)"
    proof (cases "is_bridge R b d fn")
      case True
      with v have "link R b (behind R b d 0)" unfolding link_def by blast
      with True scan_bridge_found[OF cs s2 go this] show ?thesis by simp
    qed (use s2 in simp)
    then obtain t where 3: "(if is_bridge R b d fn then scan_bridge P go b d ?s2 else Done ?s2) = Done t"
      "found regs W R b Q s0 t" "is_bridge R b d fn \<Longrightarrow> behind R b d 0 \<in> scanned t" by blast
    have "scan_function P go b d fn s = add_device P (R (config_address b d fn 0)) (R (config_address b d fn 8)) b d fn t"
      unfolding scan_function_def 1(1) and_then.simps prod.case if_not_P[OF True[unfolded present_def]] 2(1)
        is_bridge_def[symmetric] 3(1) ..
    with add_device_found[OF cs nw 3(2) v 3(3) refl refl] show ?thesis by simp
  qed
qed


lemma each_found:
  assumes "I [] s" and step: "\<And>as x bs s. xs = as @ x # bs \<Longrightarrow> I as s \<Longrightarrow> \<exists>s'. f x s = Done s' \<and> I (as @ [x]) s'"
  shows "\<exists>s'. each_of f xs s = Done s' \<and> I xs s'"
  using ends_in_each[of I s xs False f] assms by (simp add: ends_in_strict)

lemma scan_slot_found:
  assumes cs: "config_space P latch regs W" and nw: "last_bar_narrow R" and f: "found regs W R b Q s0 s"
    and go: "\<And>y t. y \<notin> scanned t \<Longrightarrow> scanned s0 \<subseteq> scanned t \<Longrightarrow> agrees regs W R t \<Longrightarrow>
      \<exists>t'. go y t = Done t' \<and> y \<in> scanned t' \<and> found regs W R y {} t t'"
    and d: "d \<in> set slot_numbers"
  shows "\<exists>s'. scan_slot P go b d s = Done s' \<and> found regs W R b ({d} \<times> UNIV \<union> Q) s0 s'"
proof -
  obtain h where 1: "on_hw (read_config32 P b d 0 0) s = Done (R (config_address b d 0 0), s\<lparr>hw := h\<rparr>)" "regs h = regs (hw s)"
    using read_register[OF cs found_agrees[OF f], of 0 b d 0] by auto
  have s1: "found regs W R b Q s0 (s\<lparr>hw := h\<rparr>)" (is "found _ _ _ _ _ _ ?s1") using found_hw[OF f 1(2)] .
  show ?thesis
  proof (cases "present R b d 0")
    case False
    then have "scan_slot P go b d s = Done ?s1" by (simp add: scan_slot_def 1(1) present_def)
    moreover have "found regs W R b ({d} \<times> UNIV \<union> Q) s0 ?s1"
      using s1 by (rule found_nothing) (use False in \<open>auto simp: visible_def\<close>)
    ultimately show ?thesis by blast
  next
    case True
    obtain h2 where 2: "on_hw (read_config32 P b d 0 0x0c) ?s1 = Done (R (config_address b d 0 0x0c), ?s1\<lparr>hw := h2\<rparr>)"
      "regs h2 = regs (hw ?s1)"
      using read_register[OF cs found_agrees[OF s1], of "0x0c" b d 0] by auto
    have s2: "found regs W R b Q s0 (?s1\<lparr>hw := h2\<rparr>)" (is "found _ _ _ _ _ _ ?s2") using found_hw[OF s1 2(2)] .
    have run: "scan_slot P go b d s = (if multi R b d then each_of (scan_function P go b d) function_numbers ?s2
        else scan_function P go b d 0 ?s2)"
      unfolding scan_slot_def 1(1) and_then.simps prod.case if_not_P[OF True[unfolded present_def]] 2(1) Let_def
        multi_def ..
    show ?thesis
    proof (cases "multi R b d")
      case True
      have "\<exists>s'. each_of (scan_function P go b d) function_numbers ?s2 = Done s' \<and>
          found regs W R b ({d} \<times> set function_numbers \<union> Q) s0 s'"
      proof (rule each_found[where I = "\<lambda>fs. found regs W R b ({d} \<times> set fs \<union> Q) s0"])
        fix as fn bs u
        assume fn: "function_numbers = as @ fn # bs" and u: "found regs W R b ({d} \<times> set as \<union> Q) s0 u"
        have fn_in: "fn \<in> set function_numbers" unfolding fn by simp
        have "{d} \<times> set (as @ [fn]) \<union> Q = insert (d, fn) ({d} \<times> set as \<union> Q)" by auto
        then show "\<exists>s'. scan_function P go b d fn u = Done s' \<and> found regs W R b ({d} \<times> set (as @ [fn]) \<union> Q) s0 s'"
          using scan_function_found[OF cs nw u go d, of fn] \<open>present R b d 0\<close> True fn_in by simp
      qed (use s2 in simp)
      then obtain t where t: "each_of (scan_function P go b d) function_numbers ?s2 = Done t"
        "found regs W R b ({d} \<times> set function_numbers \<union> Q) s0 t" by blast
      have "(0 :: u8) \<in> set function_numbers" by (simp add: function_numbers_def upt_conv_Cons)
      then have "found regs W R b ({d} \<times> UNIV \<union> Q) s0 t"
        using t(2) by (elim found_nothing) (auto simp: visible_def)
      with t(1) run True show ?thesis by simp
    next
      case False
      obtain t where t: "scan_function P go b d 0 ?s2 = Done t" "found regs W R b (insert (d, 0) Q) s0 t"
        using scan_function_found[OF cs nw s2 go d True, of 0] by auto
      have "found regs W R b ({d} \<times> UNIV \<union> Q) s0 t"
        using t(2) by (rule found_nothing) (use False in \<open>auto simp: visible_def\<close>)
      with t(1) run False show ?thesis by simp
    qed
  qed
qed

lemma found_whole_bus:
  assumes f: "found regs W R b (set slot_numbers \<times> UNIV) s0 t" and s0: "scanned s0 = insert b (scanned s)" "devices s0 = devices s"
    and b: "b \<notin> scanned s"
  shows "b \<in> scanned t \<and> found regs W R b {} s t"
proof -
  have bt: "b \<in> scanned t" and sub: "scanned s \<subseteq> scanned t" using f s0 by (auto simp: found_def)
  have "Collect (link R b) \<subseteq> scanned t"
  proof
    fix y
    assume "y \<in> Collect (link R b)"
    then obtain d fn where v: "visible R b d fn" "is_bridge R b d fn" "y = behind R b d 0" by (auto simp: link_def)
    then have "(d, fn) \<in> set slot_numbers \<times> UNIV" by (simp add: visible_def)
    with found_behind[OF f] v show "y \<in> scanned t" by blast
  qed
  then have "\<forall>x \<in> scanned t - scanned s. (link R)\<^sup>*\<^sup>* b x \<and> Collect (link R x) \<subseteq> scanned t"
    using f s0 unfolding found_def by (metis Diff_iff insert_iff rtranclp.rtrancl_refl)
  moreover have "{(x, d, f). visible R x d f \<and> (x \<in> scanned t - scanned s0 \<or> x = b \<and> (d, f) \<in> set slot_numbers \<times> UNIV)} =
      {(x, d, f). visible R x d f \<and> (x \<in> scanned t - scanned s \<or> x = b \<and> (d, f) \<in> {})}"
    using bt b s0(1) by (auto simp: visible_def)
  ultimately show ?thesis using f s0(2) bt sub unfolding found_def by simp
qed

lemma scan_bus_found:
  assumes cs: "config_space P latch regs W" and nw: "last_bar_narrow R"
  shows "b \<notin> scanned s \<Longrightarrow> card (- scanned s) \<le> n \<Longrightarrow> agrees regs W R s \<Longrightarrow>
    \<exists>t. scan_bus P n b s = Done t \<and> b \<in> scanned t \<and> found regs W R b {} s t"
proof (induction n arbitrary: b s)
  case 0
  then have "- scanned s = {}" by (simp add: card_eq_0_iff)
  with 0 show ?case by auto
next
  case (Suc n)
  obtain m where m: "bm256_set (unat b) True (scannedBusses s) = Some m"
    and s0: "scanned (s\<lparr>scannedBusses := m\<rparr>) = insert b (scanned s)" (is "scanned ?s0 = _") using mark_bus by blast
  have go: "\<exists>t'. scan_bus P n y t = Done t' \<and> y \<in> scanned t' \<and> found regs W R y {} t t'"
    if "y \<notin> scanned t" "scanned ?s0 \<subseteq> scanned t" "agrees regs W R t" for y t
    using Suc.IH[OF that(1) unscanned_less[OF s0 Suc.prems(1,2) that(2)] that(3)] .
  have "\<exists>t. each_of (scan_slot P (scan_bus P n) b) slot_numbers ?s0 = Done t \<and> found regs W R b (set slot_numbers \<times> UNIV) ?s0 t"
  proof (rule each_found[where I = "\<lambda>ds. found regs W R b (set ds \<times> UNIV) ?s0"])
    fix as d bs u
    assume d: "slot_numbers = as @ d # bs" and u: "found regs W R b (set as \<times> UNIV) ?s0 u"
    have "d \<in> set slot_numbers" unfolding d by simp
    moreover have "set (as @ [d]) \<times> (UNIV :: u8 set) = {d} \<times> UNIV \<union> set as \<times> UNIV" by auto
    ultimately show "\<exists>s'. scan_slot P (scan_bus P n) b d u = Done s' \<and> found regs W R b (set (as @ [d]) \<times> UNIV) ?s0 s'"
      using scan_slot_found[OF cs nw u go, of d] by simp
  qed (use Suc.prems(3) in \<open>simp add: found_start agrees_def\<close>)
  then obtain t where t: "each_of (scan_slot P (scan_bus P n) b) slot_numbers ?s0 = Done t"
    "found regs W R b (set slot_numbers \<times> UNIV) ?s0 t" by blast
  with found_whole_bus[OF t(2) s0 _ Suc.prems(1)] m show ?case by simp
qed


text \<open>The buses a scan starts from.\<close>

definition roots :: "(u32 \<Rightarrow> u32) \<Rightarrow> u8 set" where
  "roots R = (if R (config_address 0 0 0 0x0c) AND 0x80 \<noteq> 0 then {g \<in> set function_numbers. present R 0 0 g} else {0})"

definition found_from :: "('h \<Rightarrow> u32 \<Rightarrow> u32) \<Rightarrow> (u32 \<Rightarrow> u32) \<Rightarrow> (u32 \<Rightarrow> u32) \<Rightarrow> u8 set \<Rightarrow> 'h pci \<Rightarrow> bool" where
  "found_from regs W R F s \<longleftrightarrow> agrees regs W R s \<and> F \<subseteq> scanned s \<and>
     (\<forall>x \<in> scanned s. (\<exists>r\<in>F. (link R)\<^sup>*\<^sup>* r x) \<and> Collect (link R x) \<subseteq> scanned s) \<and>
     place ` set (devices s) = {(x, d, f). visible R x d f \<and> x \<in> scanned s}"

lemma found_from_root:
  assumes s: "found_from regs W R F s" and t: "found regs W R y {} s t" "y \<in> scanned t"
  shows "found_from regs W R (insert y F) t"
proof -
  have sub: "scanned s \<subseteq> scanned t" using t(1) by (simp add: found_def)
  have "\<forall>x \<in> scanned t. (\<exists>r\<in>insert y F. (link R)\<^sup>*\<^sup>* r x) \<and> Collect (link R x) \<subseteq> scanned t"
  proof (intro ballI)
    fix x
    assume x: "x \<in> scanned t"
    show "(\<exists>r\<in>insert y F. (link R)\<^sup>*\<^sup>* r x) \<and> Collect (link R x) \<subseteq> scanned t"
    proof (cases "x \<in> scanned s")
      case True
      then have "(\<exists>r\<in>F. (link R)\<^sup>*\<^sup>* r x) \<and> Collect (link R x) \<subseteq> scanned s" using s by (simp add: found_from_def)
      with sub show ?thesis by blast
    next
      case False
      then show ?thesis using t(1) x by (simp add: found_def)
    qed
  qed
  moreover have "place ` set (devices t) = {(x, d, f). visible R x d f \<and> x \<in> scanned t}"
  proof -
    have "place ` set (devices t) = {(x, d, f). visible R x d f \<and> x \<in> scanned s} \<union>
        {(x, d, f). visible R x d f \<and> x \<in> scanned t - scanned s}"
      using s t(1) by (simp add: found_from_def found_def)
    also have "\<dots> = {(x, d, f). visible R x d f \<and> x \<in> scanned t}" using sub by auto
    finally show ?thesis .
  qed
  moreover have "insert y F \<subseteq> scanned t" using s t(2) sub unfolding found_from_def by blast
  ultimately show ?thesis using found_agrees[OF t(1)] by (simp add: found_from_def)
qed

lemma found_from_hw: "found_from regs W R F s \<Longrightarrow> regs h = regs (hw s) \<Longrightarrow> found_from regs W R F (s\<lparr>hw := h\<rparr>)"
  by (simp add: found_from_def agrees_def)

lemma scan_root:
  assumes cs: "config_space P latch regs W" and nw: "last_bar_narrow R" and s: "found_from regs W R F s" and y: "y \<notin> scanned s"
  shows "\<exists>t. scan_bus P 256 y s = Done t \<and> found_from regs W R (insert y F) t"
proof -
  have "card (- scanned s) \<le> card (UNIV :: u8 set)" by (rule card_mono) auto
  then have "card (- scanned s) \<le> 256" by (simp add: card_word)
  with scan_bus_found[OF cs nw y, of 256] s obtain t where "scan_bus P 256 y s = Done t" "y \<in> scanned t" "found regs W R y {} s t"
    by (auto simp: found_from_def)
  with found_from_root[OF s this(3,2)] show ?thesis by blast
qed

lemma scan_host_found:
  assumes cs: "config_space P latch regs W" and nw: "last_bar_narrow R" and s: "found_from regs W R F s"
  shows "\<exists>t. scan_host P f s = Done t \<and> found_from regs W R (if present R 0 0 f then insert f F else F) t"
proof -
  have a: "agrees regs W R s" using s by (simp add: found_from_def)
  obtain h where 1: "on_hw (read_config32 P 0 0 f 0) s = Done (R (config_address 0 0 f 0), s\<lparr>hw := h\<rparr>)" "regs h = regs (hw s)"
    using read_register[OF cs a, of 0 0 0 f] by auto
  have s1: "found_from regs W R F (s\<lparr>hw := h\<rparr>)" using found_from_hw[OF s 1(2)] .
  have run: "scan_host P f s = (if \<not> present R 0 0 f then Done (s\<lparr>hw := h\<rparr>)
      else if f \<in> scanned s then Done (s\<lparr>hw := h\<rparr>) else scan_bus P 256 f (s\<lparr>hw := h\<rparr>))"
    using scanned_get[of "s\<lparr>hw := h\<rparr>" f] by (simp add: scan_host_def 1(1) present_def)
  show ?thesis
  proof (cases "present R 0 0 f \<and> f \<notin> scanned s")
    case True
    with scan_root[OF cs nw s1, of f] run show ?thesis by simp
  next
    case False
    moreover have "found_from regs W R (insert f F) (s\<lparr>hw := h\<rparr>)" if "f \<in> scanned s"
      using s1 that by (auto simp: found_from_def)
    ultimately show ?thesis using run s1 by auto
  qed
qed

lemma link_closed: "(link R)\<^sup>*\<^sup>* r x \<Longrightarrow> r \<in> S \<Longrightarrow> (\<And>y. y \<in> S \<Longrightarrow> Collect (link R y) \<subseteq> S) \<Longrightarrow> x \<in> S"
  by (induction rule: rtranclp_induct) auto

lemma scan_all_found:
  assumes cs: "config_space P latch regs W" and nw: "last_bar_narrow R" and R: "R = regs (hw s)"
  shows "\<exists>t. scan_all P s = Done t \<and> found_from regs W R (roots R) t"
proof -
  let ?s = "s\<lparr>devices := [], scannedBusses := bm256_clear (scannedBusses s)\<rparr>"
  have s: "found_from regs W R {} ?s" using R by (auto simp: found_from_def agrees_def)
  then have a: "agrees regs W R ?s" by (simp add: found_from_def)
  obtain h where 1: "on_hw (read_config32 P 0 0 0 0x0c) ?s = Done (R (config_address 0 0 0 0x0c), ?s\<lparr>hw := h\<rparr>)" "regs h = regs (hw ?s)"
    using read_register[OF cs a, of "0x0c" 0 0 0] by auto
  have s1: "found_from regs W R {} (?s\<lparr>hw := h\<rparr>)" (is "found_from _ _ _ _ ?s1") using found_from_hw[OF s 1(2)] .
  have run: "scan_all P s = (if R (config_address 0 0 0 0x0c) AND 0x80 \<noteq> 0 then each_of (scan_host P) function_numbers ?s1
      else scan_bus P 256 0 ?s1)"
    unfolding scan_all_def 1(1) and_then.simps prod.case ..
  show ?thesis
  proof (cases "R (config_address 0 0 0 0x0c) AND 0x80 \<noteq> 0")
    case True
    have "\<exists>t. each_of (scan_host P) function_numbers ?s1 = Done t \<and> found_from regs W R {g \<in> set function_numbers. present R 0 0 g} t"
    proof (rule each_found[where I = "\<lambda>fs. found_from regs W R {g \<in> set fs. present R 0 0 g}"])
      fix as f bs u
      assume u: "found_from regs W R {g \<in> set as. present R 0 0 g} u"
      have "{g \<in> set (as @ [f]). present R 0 0 g} =
          (if present R 0 0 f then insert f {g \<in> set as. present R 0 0 g} else {g \<in> set as. present R 0 0 g})" by auto
      then show "\<exists>s'. scan_host P f u = Done s' \<and> found_from regs W R {g \<in> set (as @ [f]). present R 0 0 g} s'"
        using scan_host_found[OF cs nw u, of f] by (simp only:)
    qed (use s1 in simp)
    with run True show ?thesis by (simp add: roots_def)
  next
    case False
    with scan_root[OF cs nw s1, of 0] run show ?thesis by (simp add: roots_def)
  qed
qed


text \<open>C27. On documented configuration registers, none of which has a 64-bit BAR in the last place, the scan returns. The
  buses it marks are those reachable from its roots, its devices are the visible functions on them, each once and
  with its own registers, and all that has changed in the registers is that these functions no longer decode
  memory and I/O. Buses are followed as the code does, through the bus number of function 0; where that is the
  bridge's own, the buses are those behind the bridges.\<close>

theorem pci_scan_finds:
  assumes "config_space P latch regs W" and "R = regs (hw s)" and "last_bar_narrow R"
  shows "\<exists>t. scan_all P s = Done t \<and>
    scanned t = {x. \<exists>r\<in>roots R. (link R)\<^sup>*\<^sup>* r x} \<and>
    place ` set (devices t) = {(x, d, f). visible R x d f \<and> x \<in> scanned t} \<and> distinct (map place (devices t)) \<and>
    (\<forall>x \<in> set (devices t). genuine R x) \<and>
    regs (hw t) = silenced W (place ` set (devices t)) R \<and>
    ((\<forall>b d f. visible R b d f \<and> is_bridge R b d f \<longrightarrow> behind R b d f = behind R b d 0) \<longrightarrow> link R = bridged R)"
proof -
  obtain t where t: "scan_all P s = Done t" "found_from regs W R (roots R) t"
    using scan_all_found[OF assms(1,3,2)] by blast
  have closed: "Collect (link R y) \<subseteq> scanned t" if "y \<in> scanned t" for y using t(2) that by (simp add: found_from_def)
  have rt: "roots R \<subseteq> scanned t" using t(2) by (simp add: found_from_def)
  have "scanned t = {x. \<exists>r\<in>roots R. (link R)\<^sup>*\<^sup>* r x}"
  proof
    show "scanned t \<subseteq> {x. \<exists>r\<in>roots R. (link R)\<^sup>*\<^sup>* r x}" using t(2) by (auto simp: found_from_def)
    show "{x. \<exists>r\<in>roots R. (link R)\<^sup>*\<^sup>* r x} \<subseteq> scanned t" using link_closed[OF _ _ closed] rt by blast
  qed
  moreover have "distinct (map place (devices t))" using scan_all_distinct[of P s] t(1) by simp
  moreover have "link R = bridged R" if "\<forall>b d f. visible R b d f \<and> is_bridge R b d f \<longrightarrow> behind R b d f = behind R b d 0"
    using that unfolding link_def bridged_def fun_eq_iff by metis
  ultimately show ?thesis using t by (auto simp: found_from_def agrees_def)
qed

section \<open>Sizes of base address registers\<close>

text \<open>A register of size \<open>2 ^ k\<close>: the low \<open>k\<close> bits are fixed, and hold nothing but the type in the lowest ones.\<close>

definition decodes :: "(u32 \<Rightarrow> u32) \<Rightarrow> (u32 \<Rightarrow> u32) \<Rightarrow> nat \<Rightarrow> nat \<Rightarrow> u32 \<Rightarrow> bool" where
  "decodes W r low k a \<longleftrightarrow> W a = NOT (mask k) \<and> r a AND mask k = r a AND mask low"

lemma trial_decodes: "decodes W r low k a \<Longrightarrow> low \<le> k \<Longrightarrow> trial W r a AND NOT (mask low) = NOT (mask k)"
proof (rule bit_word_eqI)
  fix n
  assume d: "decodes W r low k a" and k: "low \<le> k" and n: "n < LENGTH(32)"
  have "bit (r a AND mask k) n = bit (r a AND mask low) n" using d by (simp add: decodes_def)
  moreover have ones: "(0xffffffff :: u32) = NOT 0" by simp
  ultimately show "bit (trial W r a AND NOT (mask low)) n = bit (NOT (mask k) :: u32) n"
    using d k n unfolding trial_def keep_bits_def decodes_def ones
    by (auto simp: bit_simps)
qed

lemma nibble_mask: "(0xfffffff0 :: u32) = NOT (mask 4)" "(0xfffffffc :: u32) = NOT (mask 2)"
  by (simp_all add: mask_eq_exp_minus_1)

lemma upper_ones: "(0xffffffff00000000 :: u64) = NOT (mask 32)"
  by (simp add: mask_eq_exp_minus_1)

lemma size_of_mask: "k \<le> 32 \<Longrightarrow> NOT (ucast (NOT (mask k) :: u32) OR NOT (mask 32)) + 1 = (2 ^ k :: u64)"
proof -
  assume k: "k \<le> 32"
  have "NOT (ucast (NOT (mask k) :: u32) OR NOT (mask 32)) = (mask k :: u64)"
    by (rule bit_word_eqI) (use k in \<open>auto simp: bit_simps\<close>)
  then show ?thesis by (simp only: mask_eq_exp_minus_1 diff_add_cancel)
qed

lemma wide_size_of_mask:
  assumes "k \<le> 31"
  shows "NOT (ucast (NOT (mask k) :: u32) OR push_bit 32 (ucast (u :: u32))) + 1 = (push_bit 32 (ucast (NOT u)) + 2 ^ k :: u64)"
proof -
  have "NOT (ucast (NOT (mask k) :: u32) OR push_bit 32 (ucast u)) = (push_bit 32 (ucast (NOT u)) OR mask k :: u64)"
    by (rule bit_word_eqI) (use assms in \<open>auto simp: bit_simps\<close>)
  also have "\<dots> = push_bit 32 (ucast (NOT u)) + mask k"
    by (rule disjunctive_add[symmetric]) (use assms in \<open>auto simp: bit_simps\<close>)
  finally show ?thesis by (simp add: mask_eq_exp_minus_1 del: bit.conj_disj_distrib)
qed


lemma probe_start:
  assumes cs: "config_space P latch regs W" and i: "i < 6"
  obtains h1 h2 h3 where "enable_memory_space_at P False x h = Done h1" and "enable_io_space_at P False x h1 = Done h2"
    and "read_bar P x i h2 = Done (regs h (bar_of x i), h3)" and "regs h3 = quiet W (command_of (place x)) (regs h)"
    and "regs h3 (bar_of x i) = regs h (bar_of x i)" and "trial W (regs h3) (bar_of x i) = trial W (regs h) (bar_of x i)"
    and "regs h3 (bar_of x (i + 1)) = regs h (bar_of x (i + 1))"
proof -
  let ?q = "quiet W (command_of (place x)) (regs h)"
  obtain h1 h2 where 1: "enable_memory_space_at P False x h = Done h1" "enable_io_space_at P False x h1 = Done h2" "regs h2 = ?q"
    using decoding_off[OF cs] by blast
  obtain h3 where 2: "read_bar P x i h2 = Done (regs h (bar_of x i), h3)" "regs h3 = ?q"
    using bar_access(1)[OF cs, of i x h2] bar_of_apart(1)[of i x] i 1(3) by auto
  have "regs h3 (bar_of x i) = regs h (bar_of x i)" "regs h3 (bar_of x (i + 1)) = regs h (bar_of x (i + 1))"
    using bar_of_apart(1)[of i x] bar_of_apart(1)[of "i + 1" x] i 2(2) by simp_all
  with that[OF 1(1,2) 2] show thesis by (simp add: trial_def)
qed

text \<open>C35. Sizing a 32-bit memory BAR: with the low \<open>k\<close> bits fixed, the address recorded is the one in the register and
  the size \<open>2 ^ k\<close>, and the register is left as it was. A BAR that is not implemented has all 32 bits fixed at
  zero, so it is recorded with a size of 4 GB.\<close>

theorem memory_bar_size:
  assumes "config_space P latch regs W" and "i < 6" and "length rs = 6"
    and "regs h (bar_of x i) AND 7 = 0" and "decodes W (regs h) 4 k (bar_of x i)" and "4 \<le> k" and "k \<le> 32"
  shows "\<exists>b h'. probe_bar P x i rs h = Done (i + 1, rs[i := b], h') \<and>
    bar_width b = Bar32 \<and> memoryAddress b = ucast (regs h (bar_of x i) AND 0xfffffff0) \<and> memorySize b = 2 ^ k \<and>
    ioPort b = 0 \<and> ioSize b = 0 \<and> regs h' = quiet W (command_of (place x)) (regs h)"
proof -
  let ?a = "regs h (bar_of x i)"
  obtain h1 h2 h3 where s: "enable_memory_space_at P False x h = Done h1" "enable_io_space_at P False x h1 = Done h2"
    "read_bar P x i h2 = Done (?a, h3)" "regs h3 = quiet W (command_of (place x)) (regs h)" "regs h3 (bar_of x i) = ?a"
    "trial W (regs h3) (bar_of x i) = trial W (regs h) (bar_of x i)"
    using probe_start[OF assms(1,2)] by metis
  obtain h4 where 4: "trial_write P x i ?a h3 = Done (trial W (regs h) (bar_of x i), h4)" "regs h4 = regs h3"
    using trial_write[OF assms(1), of i x h3] assms(2) s(5,6) by auto
  have low: "?a AND 1 = (?a AND 7) AND 1" "?a AND 6 = (?a AND 7) AND 6" by (simp_all add: and.assoc)
  have size: "NOT (ucast (trial W (regs h) (bar_of x i) AND 0xfffffff0) OR 0xffffffff00000000) + 1 = (2 ^ k :: u64)"
    unfolding nibble_mask upper_ones trial_decodes[OF assms(5,6)] by (rule size_of_mask[OF assms(7)])
  show ?thesis
    unfolding probe_bar_def s(1-3) and_then.simps prod.case low assms(4) probe_memory32_def 4(1) size
    by (intro exI[of _ "(rs ! i)\<lparr>ioPort := 0, ioSize := 0, bar_width := Bar32,
        memoryAddress := ucast (?a AND 0xfffffff0), memorySize := 2 ^ k\<rparr>"] exI[of _ h4]) (simp add: 4(2) s(4))
qed

lemma ucast_power: "k \<le> 32 \<Longrightarrow> ucast (2 ^ k :: u64) = (2 ^ k :: u16)"
  by (rule bit_word_eqI) (auto simp: bit_exp_iff bit_unsigned_iff)

text \<open>An I/O BAR: the port in the register and the size \<open>2 ^ k\<close>.\<close>

lemma io_bar_size:
  assumes "config_space P latch regs W" and "i < 6"
    and "regs h (bar_of x i) AND 1 = 1" and "decodes W (regs h) 2 k (bar_of x i)" and "2 \<le> k" and "k \<le> 32"
  shows "\<exists>b h'. probe_bar P x i rs h = Done (i + 1, rs[i := b], h') \<and>
    ioPort b = ucast (regs h (bar_of x i) AND 0xfffc) \<and> ioSize b = 2 ^ k \<and> memoryAddress b = 0 \<and> memorySize b = 0 \<and>
    regs h' = quiet W (command_of (place x)) (regs h)"
proof -
  let ?a = "regs h (bar_of x i)"
  obtain h1 h2 h3 where s: "enable_memory_space_at P False x h = Done h1" "enable_io_space_at P False x h1 = Done h2"
    "read_bar P x i h2 = Done (?a, h3)" "regs h3 = quiet W (command_of (place x)) (regs h)" "regs h3 (bar_of x i) = ?a"
    "trial W (regs h3) (bar_of x i) = trial W (regs h) (bar_of x i)"
    using probe_start[OF assms(1,2)] by metis
  obtain h4 where 4: "trial_write P x i ?a h3 = Done (trial W (regs h) (bar_of x i), h4)" "regs h4 = regs h3"
    using trial_write[OF assms(1), of i x h3] assms(2) s(5,6) by auto
  have "NOT (ucast (trial W (regs h) (bar_of x i) AND 0xfffffffc) OR 0xffffffff00000000) + 1 = (2 ^ k :: u64)"
    unfolding nibble_mask upper_ones trial_decodes[OF assms(4,5)] by (rule size_of_mask[OF assms(6)])
  then have size: "ucast (NOT (ucast (trial W (regs h) (bar_of x i) AND 0xfffffffc) OR 0xffffffff00000000) + 1 :: u64) = (2 ^ k :: u16)"
    using ucast_power[OF assms(6)] by simp
  show ?thesis
    unfolding probe_bar_def s(1-3) and_then.simps prod.case assms(3) probe_io_def 4(1) size
    by (intro exI[of _ "(rs ! i)\<lparr>memoryAddress := 0, memorySize := 0, ioPort := ucast (?a AND 0xfffc), ioSize := 2 ^ k\<rparr>"]
        exI[of _ h4]) (simp add: 4(2) s(4))
qed

text \<open>C36. Sizing a 64-bit BAR of size \<open>2 ^ k\<close>, up to 2 GB: the code combines the trial value of the lower half with the old
  value of the upper half instead of its trial value, so the size recorded has the complement of the upper half of
  the address in its upper half. It is right only for a BAR whose upper address bits are all ones.\<close>

theorem wide_bar_size:
  assumes "config_space P latch regs W" and "i < 5" and "length rs = 6"
    and "wide (regs h (bar_of x i))" and "decodes W (regs h) 4 k (bar_of x i)" and "4 \<le> k" and "k \<le> 31"
  shows "\<exists>b c h'. probe_bar P x i rs h = Done (i + 2, rs[i := b, i + 1 := c], h') \<and> bar_width b = Bar64 \<and>
    memorySize b = push_bit 32 (ucast (NOT (regs h (bar_of x (i + 1))))) + 2 ^ k \<and>
    (memorySize b = 2 ^ k \<longleftrightarrow> regs h (bar_of x (i + 1)) = 0xffffffff) \<and>
    regs h' = quiet W (command_of (place x)) (regs h)"
proof -
  let ?a = "regs h (bar_of x i)" and ?u = "regs h (bar_of x (i + 1))"
  have i6: "i < 6" using assms(2) by simp
  obtain h1 h2 h3 where s: "enable_memory_space_at P False x h = Done h1" "enable_io_space_at P False x h1 = Done h2"
    "read_bar P x i h2 = Done (?a, h3)" "regs h3 = quiet W (command_of (place x)) (regs h)" "regs h3 (bar_of x i) = ?a"
    "trial W (regs h3) (bar_of x i) = trial W (regs h) (bar_of x i)" "regs h3 (bar_of x (i + 1)) = ?u"
    by (rule probe_start[OF assms(1) i6])
  define b where "b = (rs ! i)\<lparr>ioPort := 0, ioSize := 0, bar_width := Bar64,
    memoryAddress := ucast (?a AND 0xfffffff0) OR push_bit 32 (ucast ?u),
    memorySize := NOT (ucast (trial W (regs h) (bar_of x i) AND 0xfffffff0) OR push_bit 32 (ucast ?u)) + 1\<rparr>"
  obtain h4 where 4: "probe_memory64 P x i ?a (rs ! i) h3 = Done (b, h4)" "regs h4 = regs h3"
    using probe_memory64[OF assms(1), of i x h3 "rs ! i"] assms(2) unfolding s(5-7) b_def by auto
  have size: "memorySize b = push_bit 32 (ucast (NOT ?u)) + 2 ^ k"
    unfolding b_def using wide_size_of_mask[OF assms(7), of ?u]
    by (simp only: bar.select_convs bar.update_convs nibble_mask trial_decodes[OF assms(5,6)]) simp
  have "push_bit 32 (ucast (NOT ?u)) = (0 :: u64) \<longleftrightarrow> ?u = 0xffffffff"
  proof
    assume z: "push_bit 32 (ucast (NOT ?u)) = (0 :: u64)"
    have "bit (push_bit 32 (ucast (NOT ?u)) :: u64) (n + 32) = bit (NOT ?u) n" if "n < 32" for n
      using that by (simp add: bit_simps)
    with z have "NOT ?u = 0" by (intro bit_word_eqI) simp
    then have "NOT (NOT ?u) = NOT 0" by simp
    then show "?u = 0xffffffff" by simp
  qed simp
  then have right: "memorySize b = 2 ^ k \<longleftrightarrow> ?u = 0xffffffff" unfolding size by simp
  have w: "?a AND 1 = 0" "drop_bit 1 (?a AND 6) = 2" using wide_type[of ?a] assms(4) by simp_all
  have i1: "i + 1 < length rs" using assms(2,3) by simp
  show ?thesis
    unfolding probe_bar_def s(1-3) and_then.simps prod.case 4(1) w
    using size right 4(2) s(4) i1 by (auto simp: b_def)
qed


section \<open>A small machine\<close>

text \<open>Ports as the PCI documents describe them, over the latched address and the registers; and registers with a host
  bridge at 0:0.0, a PCI bridge to bus 5 at 0:1.0 and a display adapter at 5:0.0.\<close>

definition example_ports :: "(u32 \<Rightarrow> u32) \<Rightarrow> (u32 \<times> (u32 \<Rightarrow> u32)) config_ports" where
  "example_ports W =
     \<lparr>port_in8 = \<lambda>p s. (if p = ioData then ucast (snd s (fst s)) else 0, s),
      port_in16 = \<lambda>p s. (if p = ioData then ucast (snd s (fst s)) else 0, s),
      port_in32 = \<lambda>p s. (if p = ioData then snd s (fst s) else 0, s),
      port_out8 = \<lambda>p v s. if p = ioData
        then (fst s, (snd s)(fst s := keep_bits (W (fst s) AND 0xff) (snd s (fst s)) (ucast v))) else s,
      port_out16 = \<lambda>p v s. if p = ioData
        then (fst s, (snd s)(fst s := keep_bits (W (fst s) AND 0xffff) (snd s (fst s)) (ucast v))) else s,
      port_out32 = \<lambda>p v s. if p = ioConfig then (v, snd s) else if p = ioData
        then (fst s, (snd s)(fst s := keep_bits (W (fst s)) (snd s (fst s)) v)) else s\<rparr>"

definition example_registers :: "u32 \<Rightarrow> u32" where
  "example_registers a =
     (if a = 0x80000000 then 0x12378086 else if a = 0x80000008 then 0x06000000 else if a = 0x8000000c then 0
      else if a = 0x80000800 then 0x00011b36 else if a = 0x80000808 then 0x06040000 else if a = 0x8000080c then 0x00010000
      else if a = 0x80000818 then 0x00050500
      else if a = 0x80050000 then 0x11111234 else if a = 0x80050008 then 0x03000000 else if a = 0x8005000c then 0
      else 0xffffffff)"

definition example_pci :: "(u32 \<times> (u32 \<Rightarrow> u32)) pci" where
  "example_pci = \<lparr>hw = (0, example_registers), devices = [], scannedBusses = \<lambda>_. 0\<rparr>"

lemma example_config_space: "config_space (example_ports W) fst snd W"
  by (simp add: config_space_def example_ports_def ioConfig_def ioData_def)

lemma example_narrow: "last_bar_narrow example_registers"
proof -
  have "config_address b d f 0x24 \<noteq> 0x80050000" for b d f
    using low_byte[of "0x24" b d f] by auto
  then show ?thesis by (simp add: last_bar_narrow_def example_registers_def wide_def)
qed

lemma example_bridge: "visible example_registers 0 1 0" "is_bridge example_registers 0 1 0" "behind example_registers 0 1 0 = 5"
  "visible example_registers 5 0 0"
  by (simp_all add: visible_def present_def is_bridge_def behind_def example_registers_def config_address_def slot_numbers_def
      pciToPciBridge_def upt_conv_Cons push_bit_eq_mult drop_bit_eq_div)

theorem pci_scan_finds_witness:
  "\<exists>t. scan_all (example_ports (\<lambda>_. 0xffff0007)) example_pci = Done t \<and> {0, 5} \<subseteq> scanned t \<and>
    (5, 0, 0) \<in> place ` set (devices t) \<and> distinct (map place (devices t))"
proof -
  obtain t where t: "scan_all (example_ports (\<lambda>_. 0xffff0007)) example_pci = Done t"
    "scanned t = {x. \<exists>r\<in>roots example_registers. (link example_registers)\<^sup>*\<^sup>* r x}"
    "place ` set (devices t) = {(x, d, f). visible example_registers x d f \<and> x \<in> scanned t}" "distinct (map place (devices t))"
    using pci_scan_finds[OF example_config_space, of example_registers example_pci "\<lambda>_. 0xffff0007"] example_narrow
    by (auto simp: example_pci_def)
  have "0 \<in> roots example_registers"
    by (simp add: roots_def example_registers_def config_address_def)
  moreover have "link example_registers 0 5" unfolding link_def using example_bridge by metis
  ultimately have "{0, 5} \<subseteq> scanned t" unfolding t(2) by auto
  with t example_bridge(4) show ?thesis by auto
qed

theorem memory_bar_size_witness:
  "\<exists>b h'. probe_bar (example_ports (\<lambda>_. NOT (mask 17))) (found_device 0 0 0 2 0) 0 (replicate 6 no_bar) (0, \<lambda>_. 0xfebc0000) =
      Done (1, (replicate 6 no_bar)[0 := b], h') \<and>
    memoryAddress b = 0xfebc0000 \<and> memorySize b = 0x20000"
  using memory_bar_size[OF example_config_space, of 0 "replicate 6 no_bar" "(0, \<lambda>_. 0xfebc0000)" "found_device 0 0 0 2 0" "\<lambda>_. NOT (mask 17)" 17]
  by (auto simp: decodes_def mask_eq_exp_minus_1)

theorem wide_bar_size_witness:
  "\<exists>b c h'. probe_bar (example_ports (\<lambda>_. NOT (mask 28))) (found_device 0 0 0 2 0) 0 (replicate 6 no_bar)
      (0, \<lambda>a. if a = 0x80001010 then 0xe0000004 else 0) = Done (2, (replicate 6 no_bar)[0 := b, 1 := c], h') \<and>
    memorySize b = 0xffffffff10000000 \<and> memorySize b \<noteq> 2 ^ 28"
proof -
  let ?x = "found_device 0 0 0 2 0"
  have a: "bar_of ?x 0 = 0x80001010" "bar_of ?x (Suc 0) = 0x80001014"
    by (simp_all add: bar_of_def found_device_def bar_offset_def config_address_def push_bit_eq_mult)
  let ?h = "(0, \<lambda>a. if a = 0x80001010 then 0xe0000004 else 0) :: u32 \<times> (u32 \<Rightarrow> u32)"
  have hyps: "wide (snd ?h (bar_of ?x 0))" "decodes (\<lambda>_. NOT (mask 28)) (snd ?h) 4 28 (bar_of ?x 0)"
    by (simp_all add: a wide_def decodes_def mask_eq_exp_minus_1)
  have u: "ucast (NOT (snd ?h (bar_of ?x (0 + 1)))) = (0xffffffff :: u64)" unfolding add_0 One_nat_def a by simp code_simp
  obtain b c h' where "probe_bar (example_ports (\<lambda>_. NOT (mask 28))) ?x 0 (replicate 6 no_bar) ?h =
      Done (0 + 2, (replicate 6 no_bar)[0 := b, 0 + 1 := c], h')"
    "memorySize b = push_bit 32 (ucast (NOT (snd ?h (bar_of ?x (0 + 1))))) + 2 ^ 28"
    using wide_bar_size[OF example_config_space _ _ hyps, of "replicate 6 no_bar"] by auto
  note run = this[unfolded u, unfolded add_0]
  then have "memorySize b = 0xffffffff10000000" by (simp add: push_bit_eq_mult)
  with run(1) show ?thesis by (intro exI conjI) (assumption, simp_all)
qed

end
