(* ===== verification/MpscFifo.thy ===== *)
theory MpscFifo
  imports Prelude
begin

text \<open>
  The queue of \<^verbatim>\<open>common/MpscFifo.hpp\<close>: any number of producers, one consumer, no lock. An item is an address; the store has
  the \<^verbatim>\<open>next\<close> and the data of every item and the set of items allocated. Every access to shared memory is one step,
  and a step that touches an item after its deletion is the outer \<open>None\<close>. The machine below interleaves the steps of
  the producers and the consumer in any order; memory is sequentially consistent in it, whatever ordering the code
  asks for.
\<close>

section \<open>The code\<close>

record 'v fifo =
  out_item :: nat
  in_item :: nat
  nexts :: "nat \<Rightarrow> nat option"
  payload :: "nat \<Rightarrow> 'v"
  live :: "nat set"

definition new_item :: "nat \<Rightarrow> 'v \<Rightarrow> 'v fifo \<Rightarrow> 'v fifo" where
  "new_item x v s = s\<lparr>live := insert x (live s), nexts := (nexts s)(x := None), payload := (payload s)(x := v)\<rparr>"

definition new_fifo :: "nat \<Rightarrow> 'v \<Rightarrow> 'v fifo" where
  "new_fifo x v = \<lparr>out_item = x, in_item = x, nexts = \<lambda>_. None, payload = \<lambda>_. v, live = {x}\<rparr>"

definition exchange_in :: "nat \<Rightarrow> 'v fifo \<Rightarrow> nat \<times> 'v fifo" where
  "exchange_in x s = (in_item s, s\<lparr>in_item := x\<rparr>)"

definition store_next :: "nat \<Rightarrow> nat \<Rightarrow> 'v fifo \<Rightarrow> 'v fifo option" where
  "store_next a x s = (if a \<in> live s then Some (s\<lparr>nexts := (nexts s)(a := Some x)\<rparr>) else None)"

definition load_next :: "'v fifo \<Rightarrow> nat option option" where
  "load_next s = (if out_item s \<in> live s then Some (nexts s (out_item s)) else None)"

definition take_item :: "nat \<Rightarrow> 'v fifo \<Rightarrow> 'v fifo option" where
  "take_item i s = (if out_item s \<in> live s then Some (s\<lparr>live := live s - {out_item s}, out_item := i\<rparr>) else None)"

text \<open>The operations as one thread runs them.\<close>

definition push_item :: "nat \<Rightarrow> 'v fifo \<Rightarrow> 'v fifo option" where
  "push_item x s = (case exchange_in x s of (a, s) \<Rightarrow> store_next a x s)"

definition emplace :: "nat \<Rightarrow> 'v \<Rightarrow> 'v fifo \<Rightarrow> 'v fifo option" where
  "emplace x v s = push_item x (new_item x v s)"

definition pop_unknown :: "'v fifo \<Rightarrow> (nat option \<times> 'v fifo) option" where
  "pop_unknown s =
     (if out_item s = in_item s then Some (None, s)
      else (case load_next s of
              None \<Rightarrow> None
            | Some None \<Rightarrow> Some (None, s)
            | Some (Some i) \<Rightarrow> map_option (Pair (Some i)) (take_item i s)))"

definition pop_known :: "'v fifo \<Rightarrow> (nat \<times> 'v fifo) option" where
  "pop_known s =
     (case load_next s of
        Some (Some i) \<Rightarrow> map_option (Pair i) (take_item i s)
      | _ \<Rightarrow> None)"

partial_function (option) clear_fifo :: "'v fifo \<Rightarrow> 'v fifo option" where
  "clear_fifo s =
     Option.bind (pop_unknown s) (\<lambda>(i, s). if i = None then Some s else clear_fifo s)"

definition delete_fifo :: "'v fifo \<Rightarrow> 'v fifo option" where
  "delete_fifo s =
     Option.bind (clear_fifo s) (\<lambda>s. if out_item s \<in> live s then Some (s\<lparr>live := live s - {out_item s}\<rparr>) else None)"

section \<open>Producers and the consumer together\<close>

text \<open>A producer that has exchanged \<^verbatim>\<open>in_\<close> has still to store \<^verbatim>\<open>next\<close> of the old item; \<open>pushing\<close> has the two items. The
  consumer is idle, has found \<^verbatim>\<open>out_\<close> and \<^verbatim>\<open>in_\<close> to differ, or has loaded an item.\<close>

datatype consumer = Idle | Compared | Loaded nat

record 'v machine =
  fifo :: "'v fifo"
  pushing :: "nat \<Rightarrow> (nat \<times> nat) option"
  consumer :: consumer

datatype 'v action = Emplace nat nat 'v | Store nat | Compare | Load | Load_known | Take

datatype 'v answer = Nothing | Empty | Popped 'v

text \<open>The steps a caller may take: a new item has an address of its own, and the consumer pops without asking only what it
  knows to be there.\<close>

fun enabled :: "'v action \<Rightarrow> 'v machine \<Rightarrow> bool" where
  "enabled (Emplace p x v) m \<longleftrightarrow> pushing m p = None \<and> x \<notin> live (fifo m)"
| "enabled (Store p) m \<longleftrightarrow> pushing m p \<noteq> None"
| "enabled Compare m \<longleftrightarrow> consumer m = Idle"
| "enabled Load m \<longleftrightarrow> consumer m = Compared"
| "enabled Load_known m \<longleftrightarrow> consumer m = Idle \<and> nexts (fifo m) (out_item (fifo m)) \<noteq> None"
| "enabled Take m \<longleftrightarrow> (\<exists>i. consumer m = Loaded i)"

fun perform_action :: "'v action \<Rightarrow> 'v machine \<Rightarrow> ('v answer \<times> 'v machine) option" where
  "perform_action (Emplace p x v) m =
     (case exchange_in x (new_item x v (fifo m)) of
        (a, s) \<Rightarrow> Some (Nothing, m\<lparr>fifo := s, pushing := (pushing m)(p := Some (a, x))\<rparr>))"
| "perform_action (Store p) m =
     (case pushing m p of
        None \<Rightarrow> None
      | Some (a, x) \<Rightarrow> map_option (\<lambda>s. (Nothing, m\<lparr>fifo := s, pushing := (pushing m)(p := None)\<rparr>)) (store_next a x (fifo m)))"
| "perform_action Compare m =
     Some (if out_item (fifo m) = in_item (fifo m) then (Empty, m) else (Nothing, m\<lparr>consumer := Compared\<rparr>))"
| "perform_action Load m =
     map_option (\<lambda>r. case r of None \<Rightarrow> (Empty, m\<lparr>consumer := Idle\<rparr>) | Some i \<Rightarrow> (Nothing, m\<lparr>consumer := Loaded i\<rparr>)) (load_next (fifo m))"
| "perform_action Load_known m =
     (case load_next (fifo m) of Some (Some i) \<Rightarrow> Some (Nothing, m\<lparr>consumer := Loaded i\<rparr>) | _ \<Rightarrow> None)"
| "perform_action Take m =
     (case consumer m of
        Loaded i \<Rightarrow> map_option (\<lambda>s. (Popped (payload s i), m\<lparr>fifo := s, consumer := Idle\<rparr>)) (take_item i (fifo m))
      | _ \<Rightarrow> None)"

inductive mpsc_run :: "'v machine \<Rightarrow> ('v action \<times> 'v answer) list \<Rightarrow> 'v machine \<Rightarrow> bool" for m0 where
  start: "mpsc_run m0 [] m0"
| action: "mpsc_run m0 tr m \<Longrightarrow> enabled a m \<Longrightarrow> perform_action a m = Some (r, m') \<Longrightarrow> mpsc_run m0 (tr @ [(a, r)]) m'"

definition start_machine :: "nat \<Rightarrow> 'v \<Rightarrow> 'v machine" where
  "start_machine x v = \<lparr>fifo = new_fifo x v, pushing = \<lambda>_. None, consumer = Idle\<rparr>"

text \<open>What has been pushed, in the order of the exchanges, and what has been popped.\<close>

fun pushed :: "('v action \<times> 'v answer) list \<Rightarrow> 'v list" where
  "pushed [] = []"
| "pushed ((Emplace p x v, r) # tr) = v # pushed tr"
| "pushed ((a, r) # tr) = pushed tr"

fun popped :: "('v action \<times> 'v answer) list \<Rightarrow> 'v list" where
  "popped [] = []"
| "popped ((a, Popped v) # tr) = v # popped tr"
| "popped ((a, r) # tr) = popped tr"


section \<open>The chain of items\<close>

text \<open>Of two items in a row the first has the second as its \<^verbatim>\<open>next\<close>, or a producer is about to store it there.\<close>

definition linked :: "'v machine \<Rightarrow> nat \<Rightarrow> nat \<Rightarrow> bool" where
  "linked m a b \<longleftrightarrow> nexts (fifo m) a = Some b \<or> nexts (fifo m) a = None \<and> (\<exists>p. pushing m p = Some (a, b))"

definition chain :: "'v machine \<Rightarrow> nat list \<Rightarrow> bool" where
  "chain m ns \<longleftrightarrow>
     ns \<noteq> [] \<and> hd ns = out_item (fifo m) \<and> last ns = in_item (fifo m) \<and> distinct ns \<and> set ns = live (fifo m) \<and>
     successively (linked m) ns \<and> nexts (fifo m) (in_item (fifo m)) = None \<and>
     (\<forall>p a b. pushing m p = Some (a, b) \<longrightarrow> nexts (fifo m) a = None \<and> (\<exists>us vs. ns = us @ a # b # vs)) \<and>
     (\<forall>p q a b c. pushing m p = Some (a, b) \<longrightarrow> pushing m q = Some (a, c) \<longrightarrow> p = q) \<and>
     (case consumer m of Idle \<Rightarrow> True | Compared \<Rightarrow> out_item (fifo m) \<noteq> in_item (fifo m) | Loaded i \<Rightarrow> nexts (fifo m) (out_item (fifo m)) = Some i)"

definition waiting :: "'v machine \<Rightarrow> nat list \<Rightarrow> 'v list" where
  "waiting m ns = map (payload (fifo m)) (tl ns)"

lemma chain_start: "chain (start_machine x v) [x]"
  by (simp add: chain_def start_machine_def new_fifo_def)

lemma successively_weaken: "successively P xs \<Longrightarrow> (\<And>a b. a \<in> set xs \<Longrightarrow> P a b \<Longrightarrow> Q a b) \<Longrightarrow> successively Q xs"
  by (induction xs rule: induct_list012) auto

lemma chainD:
  assumes "chain m ns"
  shows "ns \<noteq> []" "hd ns = out_item (fifo m)" "last ns = in_item (fifo m)" "distinct ns" "set ns = live (fifo m)"
    "successively (linked m) ns" "nexts (fifo m) (in_item (fifo m)) = None"
    "pushing m p = Some (a, b) \<Longrightarrow> nexts (fifo m) a = None"
    "pushing m p = Some (a, b) \<Longrightarrow> \<exists>us vs. ns = us @ a # b # vs"
    "pushing m p = Some (a, b) \<Longrightarrow> pushing m q = Some (a, c) \<Longrightarrow> p = q"
    "consumer m = Compared \<Longrightarrow> out_item (fifo m) \<noteq> in_item (fifo m)"
    "consumer m = Loaded i \<Longrightarrow> nexts (fifo m) (out_item (fifo m)) = Some i"
proof -
  note c = assms[unfolded chain_def]
  from c show "ns \<noteq> []" "hd ns = out_item (fifo m)" "last ns = in_item (fifo m)" "distinct ns" "set ns = live (fifo m)"
    "successively (linked m) ns" "nexts (fifo m) (in_item (fifo m)) = None" by simp_all
  from c show "pushing m p = Some (a, b) \<Longrightarrow> nexts (fifo m) a = None" by blast
  from c show "pushing m p = Some (a, b) \<Longrightarrow> \<exists>us vs. ns = us @ a # b # vs" by blast
  from c show "pushing m p = Some (a, b) \<Longrightarrow> pushing m q = Some (a, c) \<Longrightarrow> p = q" by blast
  from c show "consumer m = Compared \<Longrightarrow> out_item (fifo m) \<noteq> in_item (fifo m)" by simp
  from c show "consumer m = Loaded i \<Longrightarrow> nexts (fifo m) (out_item (fifo m)) = Some i" by simp
qed

lemma chain_ends: "chain m ns \<Longrightarrow> out_item (fifo m) \<in> live (fifo m)" "chain m ns \<Longrightarrow> in_item (fifo m) \<in> live (fifo m)"
  using chainD(1-3,5)[of m ns] hd_in_set[of ns] last_in_set[of ns] by auto

lemma chain_loaded:
  assumes c: "chain m ns" and n: "nexts (fifo m) (out_item (fifo m)) = Some i"
  obtains rest where "ns = out_item (fifo m) # i # rest"
proof -
  obtain bs where ns: "ns = out_item (fifo m) # bs" using chainD(1,2)[OF c] by (cases ns) auto
  then obtain b rest where bs: "bs = b # rest" using chainD(3,7)[OF c] n by (cases bs) auto
  then have "linked m (out_item (fifo m)) b" using chainD(6)[OF c] ns by simp
  with n have "b = i" by (simp add: linked_def)
  with ns bs that show thesis by blast
qed

lemma chain_not_last:
  assumes c: "chain m ns" and q: "pushing m q = Some (a, b)"
  shows "a \<noteq> in_item (fifo m)"
proof
  assume a: "a = in_item (fifo m)"
  obtain us vs where s: "ns = us @ a # b # vs" using chainD(9)[OF c q] by blast
  then have "last (b # vs) = a" using chainD(3)[OF c] a by simp
  then have "a \<in> set (b # vs)" by (metis last_in_set list.distinct(1))
  with s chainD(4)[OF c] show False by auto
qed

lemma emplace_step:
  assumes c: "chain m ns" and e: "pushing m p = None" "x \<notin> live (fifo m)"
  shows "\<exists>m'. perform_action (Emplace p x v) m = Some (Nothing, m') \<and> chain m' (ns @ [x]) \<and>
    waiting m' (ns @ [x]) = waiting m ns @ [v]"
proof -
  let ?a = "in_item (fifo m)"
  let ?m = "m\<lparr>fifo := (new_item x v (fifo m))\<lparr>in_item := x\<rparr>, pushing := (pushing m)(p := Some (?a, x))\<rparr>"
  have x: "x \<notin> set ns" and a: "last ns = ?a" "?a \<in> set ns" "nexts (fifo m) ?a = None" and ne: "ns \<noteq> []" and d: "distinct ns"
    using chainD(1,3-5,7)[OF c] chain_ends(2)[OF c] e(2) by auto
  have last: "ns = butlast ns @ [?a]" using ne a(1) by (metis append_butlast_last_id)
  have not_yet: "pushing m q \<noteq> Some (?a, b)" for q b using chain_not_last[OF c] by blast
  have lk: "linked ?m c b" if "c \<in> set ns" "linked m c b" for c b
  proof -
    have "c \<noteq> x" using that(1) x by blast
    moreover have "q \<noteq> p" if "pushing m q = Some (c, b)" for q using that e(1) by auto
    ultimately show ?thesis using that(2) by (auto simp: linked_def new_item_def)
  qed
  have "successively (linked ?m) ns" by (rule successively_weaken[OF chainD(6)[OF c] lk])
  moreover have "linked ?m ?a x" using a x by (auto simp: linked_def new_item_def)
  ultimately have succ: "successively (linked ?m) (ns @ [x])" using a(1) ne by (simp add: successively_append_iff)
  have pend: "nexts (fifo ?m) c = None \<and> (\<exists>us vs. ns @ [x] = us @ c # b # vs)" if q: "pushing ?m q = Some (c, b)" for q c b
  proof (cases "q = p")
    case True
    then have cb: "c = ?a" "b = x" using q by simp_all
    have "ns @ [x] = butlast ns @ ?a # x # []" by (subst last) simp
    then have "\<exists>us vs. ns @ [x] = us @ ?a # x # vs" by blast
    moreover have "nexts (fifo ?m) ?a = None" using a(3) by (simp add: new_item_def)
    ultimately show ?thesis unfolding cb by blast
  next
    case False
    then have q: "pushing m q = Some (c, b)" using q by simp
    obtain us vs where s: "ns = us @ c # b # vs" using chainD(9)[OF c q] by blast
    then have "ns @ [x] = us @ c # b # (vs @ [x])" by simp
    moreover have "nexts (fifo ?m) c = None" using chainD(8)[OF c q] by (simp add: new_item_def)
    ultimately show ?thesis by blast
  qed
  have inj: "q = r" if "pushing ?m q = Some (d, b)" "pushing ?m r = Some (d, b')" for q r d b b'
    using that not_yet chainD(10)[OF c, of q d b r b'] by (auto split: if_splits)
  have out: "out_item (fifo m) \<noteq> x" using chain_ends(1)[OF c] e(2) by blast
  have "chain ?m (ns @ [x])" unfolding chain_def
  proof (intro conjI allI impI)
    show "case consumer ?m of Idle \<Rightarrow> True | Compared \<Rightarrow> out_item (fifo ?m) \<noteq> in_item (fifo ?m)
        | Loaded i \<Rightarrow> nexts (fifo ?m) (out_item (fifo ?m)) = Some i"
      using out chainD(12)[OF c] by (auto simp: new_item_def split: consumer.split)
    show "set (ns @ [x]) = live (fifo ?m)" using chainD(5)[OF c] by (simp add: new_item_def)
    show "hd (ns @ [x]) = out_item (fifo ?m)" using chainD(2)[OF c] ne by (simp add: new_item_def)
    show "successively (linked ?m) (ns @ [x])" by (rule succ)
    show "distinct (ns @ [x])" using d x by simp
    fix q r a b c
    assume q: "pushing ?m q = Some (a, b)"
    show "nexts (fifo ?m) a = None" "\<exists>us vs. ns @ [x] = us @ a # b # vs" using pend[OF q] by blast+
    assume "pushing ?m r = Some (a, c)"
    with q show "q = r" by (rule inj)
  qed (simp_all add: new_item_def)
  moreover have "waiting ?m (ns @ [x]) = waiting m ns @ [v]"
    using x ne by (cases ns) (auto simp: waiting_def new_item_def)
  ultimately show ?thesis by (simp add: exchange_in_def new_item_def)
qed


lemma store_step:
  assumes c: "chain m ns" and p: "pushing m p = Some (a, b)"
  shows "\<exists>m'. perform_action (Store p) m = Some (Nothing, m') \<and> chain m' ns \<and> waiting m' ns = waiting m ns"
proof -
  let ?m = "m\<lparr>fifo := (fifo m)\<lparr>nexts := (nexts (fifo m))(a := Some b)\<rparr>, pushing := (pushing m)(p := None)\<rparr>"
  obtain us vs where s: "ns = us @ a # b # vs" using chainD(9)[OF c p] by blast
  have a: "nexts (fifo m) a = None" "a \<noteq> in_item (fifo m)" "a \<in> live (fifo m)"
    using chainD(8)[OF c p] chain_not_last[OF c p] chainD(5)[OF c] s by auto
  have q: "q \<noteq> p \<and> pushing m q = Some (d, e) \<and> d \<noteq> a" if "pushing ?m q = Some (d, e)" for q d e
  proof -
    have 1: "q \<noteq> p" "pushing m q = Some (d, e)" using that by (auto split: if_splits)
    then have "d \<noteq> a" using chainD(10)[OF c _ p] by blast
    with 1 show ?thesis by blast
  qed
  have lk: "linked ?m d e" if "d \<in> set ns" "linked m d e" for d e
  proof (cases "d = a")
    case True
    with that(2) a(1) obtain q where q: "pushing m q = Some (a, e)" by (auto simp: linked_def)
    then have "q = p" using chainD(10)[OF c q p] by blast
    with q p True show ?thesis by (simp add: linked_def)
  next
    case False
    have "q \<noteq> p" if "pushing m q = Some (d, e)" for q using that p False by auto
    with that(2) False show ?thesis by (auto simp: linked_def)
  qed
  have "chain ?m ns" unfolding chain_def
  proof (intro conjI allI impI)
    show "successively (linked ?m) ns" by (rule successively_weaken[OF chainD(6)[OF c] lk])
    show "case consumer ?m of Idle \<Rightarrow> True | Compared \<Rightarrow> out_item (fifo ?m) \<noteq> in_item (fifo ?m)
        | Loaded i \<Rightarrow> nexts (fifo ?m) (out_item (fifo ?m)) = Some i"
      using chainD(11,12)[OF c] a(1) by (auto split: consumer.split)
    fix q r d e f
    assume 1: "pushing ?m q = Some (d, e)"
    show "nexts (fifo ?m) d = None" using q[OF 1] chainD(8)[OF c, of q d e] by simp
    show "\<exists>us vs. ns = us @ d # e # vs" using q[OF 1] chainD(9)[OF c] by blast
    assume 2: "pushing ?m r = Some (d, f)"
    show "q = r" using q[OF 1] q[OF 2] chainD(10)[OF c] by blast
  qed (use chainD(1-5,7)[OF c] a(2) in simp_all)
  then show ?thesis using p a(3) by (simp add: store_next_def waiting_def)
qed

lemma take_step:
  assumes c: "chain m ns" and i: "consumer m = Loaded i"
  shows "\<exists>m'. perform_action Take m = Some (Popped (payload (fifo m) i), m') \<and> chain m' (tl ns) \<and>
    waiting m ns = payload (fifo m) i # waiting m' (tl ns)"
proof -
  let ?m = "m\<lparr>fifo := (fifo m)\<lparr>live := live (fifo m) - {out_item (fifo m)}, out_item := i\<rparr>, consumer := Idle\<rparr>"
  have n: "nexts (fifo m) (out_item (fifo m)) = Some i" using chainD(12)[OF c i] .
  obtain rest where ns: "ns = out_item (fifo m) # i # rest" by (rule chain_loaded[OF c n])
  have "chain ?m (i # rest)" unfolding chain_def
  proof (intro conjI allI impI)
    have "successively (linked m) (i # rest)" using chainD(6)[OF c] ns by simp
    then show "successively (linked ?m) (i # rest)" by (rule successively_weaken) (simp add: linked_def)
    show "set (i # rest) = live (fifo ?m)" using chainD(4,5)[OF c] ns by auto
    fix q r d e f
    assume 1: "pushing ?m q = Some (d, e)"
    then have "nexts (fifo m) d = None" using chainD(8)[OF c, of q d e] by simp
    then show "nexts (fifo ?m) d = None" by simp
    have "d \<noteq> out_item (fifo m)" using \<open>nexts (fifo m) d = None\<close> n by auto
    moreover obtain us vs where "ns = us @ d # e # vs" using chainD(9)[OF c, of q d e] 1 by auto
    ultimately obtain us' where "i # rest = us' @ d # e # vs" using ns by (cases us) auto
    then show "\<exists>us vs. i # rest = us @ d # e # vs" by blast
    assume "pushing ?m r = Some (d, f)"
    with 1 show "q = r" using chainD(10)[OF c, of q d e r f] by simp
  qed (use chainD(3,4,7)[OF c] ns in simp_all)
  then show ?thesis using i chain_ends(1)[OF c] ns by (simp add: take_item_def waiting_def)
qed

lemma chain_consumer:
  assumes c: "chain m ns" and k: "k = Compared \<Longrightarrow> out_item (fifo m) \<noteq> in_item (fifo m)"
    "\<And>i. k = Loaded i \<Longrightarrow> nexts (fifo m) (out_item (fifo m)) = Some i"
  shows "chain (m\<lparr>consumer := k\<rparr>) ns" and "waiting (m\<lparr>consumer := k\<rparr>) ns = waiting m ns"
proof -
  have "linked (m\<lparr>consumer := k\<rparr>) = linked m" by (simp add: linked_def fun_eq_iff)
  with c k show "chain (m\<lparr>consumer := k\<rparr>) ns" unfolding chain_def by (simp split: consumer.split)
qed (simp add: waiting_def)

text \<open>Any step that may be taken succeeds and keeps the chain. What waits grows by what is pushed and shrinks by what is
  popped. The consumer is told that the queue is empty only when it is, or when the first item in it is still being
  linked.\<close>

lemma mpsc_step:
  assumes c: "chain m ns" and e: "enabled a m"
  shows "\<exists>r m' ns'. perform_action a m = Some (r, m') \<and> chain m' ns' \<and>
    waiting m ns @ pushed [(a, r)] = popped [(a, r)] @ waiting m' ns' \<and>
    (r = Empty \<longrightarrow> waiting m ns = [] \<or> (\<exists>p x. pushing m p = Some (out_item (fifo m), x)))"
proof (cases a)
  case (Emplace p x v)
  with e emplace_step[OF c, of p x v] show ?thesis by fastforce
next
  case (Store p)
  with e obtain y where "pushing m p = Some y" by auto
  then obtain d b where "pushing m p = Some (d, b)" by (cases y) auto
  from store_step[OF c this] Store show ?thesis by fastforce
next
  case Take
  with e obtain i where "consumer m = Loaded i" by auto
  from take_step[OF c this] Take show ?thesis by fastforce
next
  case Compare
  show ?thesis
  proof (cases "out_item (fifo m) = in_item (fifo m)")
    case True
    have "tl ns = []"
    proof (rule ccontr)
      assume "tl ns \<noteq> []"
      then have "last ns \<in> set (tl ns)" using last_in_set last_tl by metis
      then have "hd ns \<in> set (tl ns)" using chainD(2,3)[OF c] True by simp
      with chainD(1,4)[OF c] show False by (cases ns) auto
    qed
    with True c Compare show ?thesis by (fastforce simp: waiting_def)
  next
    case False
    with chain_consumer[OF c, of Compared] Compare show ?thesis by fastforce
  qed
next
  case Load
  show ?thesis
  proof (cases "nexts (fifo m) (out_item (fifo m))")
    case None
    from Load e have "out_item (fifo m) \<noteq> in_item (fifo m)" using chainD(11)[OF c] by simp
    then obtain b rest where ns: "ns = out_item (fifo m) # b # rest"
      using chainD(1-3)[OF c] by (cases ns; cases "tl ns") auto
    then have "linked m (out_item (fifo m)) b" using chainD(6)[OF c] by simp
    then have "\<exists>p x. pushing m p = Some (out_item (fifo m), x)" using None by (auto simp: linked_def)
    with chain_consumer[OF c, of Idle] Load None chain_ends(1)[OF c] show ?thesis by (fastforce simp: load_next_def)
  next
    case (Some i)
    with chain_consumer[OF c, of "Loaded i"] Load chain_ends(1)[OF c] show ?thesis by (fastforce simp: load_next_def)
  qed
next
  case Load_known
  with e obtain i where "nexts (fifo m) (out_item (fifo m)) = Some i" by auto
  with chain_consumer[OF c, of "Loaded i"] Load_known chain_ends(1)[OF c] show ?thesis by (fastforce simp: load_next_def)
qed


section \<open>All interleavings\<close>

lemma pushed_append: "pushed (tr @ tr') = pushed tr @ pushed tr'"
  by (induction tr rule: pushed.induct) auto

lemma popped_append: "popped (tr @ tr') = popped tr @ popped tr'"
  by (induction tr rule: popped.induct) auto

lemma mpsc_run_chain: "mpsc_run (start_machine x v) tr m \<Longrightarrow> \<exists>ns. chain m ns \<and> pushed tr = popped tr @ waiting m ns"
proof (induction rule: mpsc_run.induct)
  case start
  have "waiting (start_machine x v) [x] = []" by (simp add: waiting_def)
  with chain_start show ?case by fastforce
next
  case (action tr m a r m')
  then obtain ns where c: "chain m ns" "pushed tr = popped tr @ waiting m ns" by blast
  from mpsc_step[OF c(1) action(2)] action(3) obtain ns' where
    "chain m' ns'" "waiting m ns @ pushed [(a, r)] = popped [(a, r)] @ waiting m' ns'" by auto
  with c(2) show ?case by (metis append.assoc popped_append pushed_append)
qed

text \<open>The operations as one thread runs them are runs of these steps.\<close>

lemma emplace_is_steps:
  assumes "pushing m p = None" and "emplace x v (fifo m) = Some s"
  shows "\<exists>m1. perform_action (Emplace p x v) m = Some (Nothing, m1) \<and> perform_action (Store p) m1 = Some (Nothing, m\<lparr>fifo := s\<rparr>)"
  using assms by (auto simp: emplace_def push_item_def exchange_in_def fun_upd_idem)

lemma pop_unknown_is_steps:
  assumes "consumer m = Idle" and "pop_unknown (fifo m) = Some (Some i, s)"
  shows "\<exists>m1 m2. perform_action Compare m = Some (Nothing, m1) \<and> perform_action Load m1 = Some (Nothing, m2) \<and>
    perform_action Take m2 = Some (Popped (payload s i), m\<lparr>fifo := s\<rparr>)"
proof (intro exI conjI)
  show "perform_action Compare m = Some (Nothing, m\<lparr>consumer := Compared\<rparr>)"
    using assms(2) by (simp add: pop_unknown_def split: if_splits)
  show "perform_action Load (m\<lparr>consumer := Compared\<rparr>) = Some (Nothing, m\<lparr>consumer := Loaded i\<rparr>)"
    using assms(2) by (auto simp: pop_unknown_def split: if_splits option.splits)
  show "perform_action Take (m\<lparr>consumer := Loaded i\<rparr>) = Some (Popped (payload s i), m\<lparr>fifo := s\<rparr>)"
    using assms by (auto simp: pop_unknown_def take_item_def split: if_splits option.splits)
qed

lemma pop_known_is_steps:
  assumes "consumer m = Idle" and "pop_known (fifo m) = Some (i, s)"
  shows "\<exists>m1. perform_action Load_known m = Some (Nothing, m1) \<and>
    perform_action Take m1 = Some (Popped (payload s i), m\<lparr>fifo := s\<rparr>)"
  using assms by (auto simp: pop_known_def take_item_def split: option.splits if_splits)

text \<open>With no push under way and the consumer idle the destructor deletes every item there is.\<close>

lemma pop_unknown_chain:
  assumes c: "chain m ns" and q: "pushing m = (\<lambda>_. None)" "consumer m = Idle"
  shows "(tl ns = [] \<and> pop_unknown (fifo m) = Some (None, fifo m)) \<or>
    (\<exists>i s. tl ns \<noteq> [] \<and> pop_unknown (fifo m) = Some (Some i, s) \<and> chain (m\<lparr>fifo := s\<rparr>) (tl ns))"
proof (cases "tl ns")
  case Nil
  then have "out_item (fifo m) = in_item (fifo m)" using chainD(1-3)[OF c] by (cases ns) auto
  with Nil show ?thesis by (simp add: pop_unknown_def)
next
  case (Cons i rest)
  then have ns: "ns = out_item (fifo m) # i # rest" using chainD(1,2)[OF c] by (cases ns) auto
  then have "linked m (out_item (fifo m)) i" using chainD(6)[OF c] by simp
  then have n: "nexts (fifo m) (out_item (fifo m)) = Some i" using q by (simp add: linked_def)
  have "chain (m\<lparr>consumer := Loaded i\<rparr>) ns" using chain_consumer(1)[OF c, of "Loaded i"] n by simp
  from take_step[OF this] obtain m' where "perform_action Take (m\<lparr>consumer := Loaded i\<rparr>) = Some (Popped (payload (fifo m) i), m')"
    and m': "chain m' (tl ns)" by auto
  then obtain s where s: "take_item i (fifo m) = Some s" "m' = m\<lparr>fifo := s\<rparr>" using q by auto
  have "last (i # rest) \<in> set (i # rest)" by (rule last_in_set) simp
  then have "out_item (fifo m) \<noteq> in_item (fifo m)" using chainD(3,4)[OF c] ns by auto
  with n s m' Cons chain_ends(1)[OF c] show ?thesis by (simp add: pop_unknown_def load_next_def)
qed

lemma clear_chain:
  assumes "chain m ns" and "pushing m = (\<lambda>_. None)" "consumer m = Idle"
  shows "\<exists>s. clear_fifo (fifo m) = Some s \<and> live s = {out_item s}"
  using assms
proof (induction ns arbitrary: m)
  case (Cons n ns)
  show ?case
  proof (cases "ns = []")
    case True
    then have "pop_unknown (fifo m) = Some (None, fifo m)" using pop_unknown_chain[OF Cons.prems] by simp
    moreover have "live (fifo m) = {out_item (fifo m)}" using chainD(2,5)[OF Cons.prems(1)] True by simp
    ultimately show ?thesis by (subst clear_fifo.simps) simp
  next
    case False
    then obtain i s where p: "pop_unknown (fifo m) = Some (Some i, s)" "chain (m\<lparr>fifo := s\<rparr>) ns"
      using pop_unknown_chain[OF Cons.prems] by auto
    from Cons.IH[OF p(2)] Cons.prems(2,3) p(1) show ?thesis by (subst clear_fifo.simps) simp
  qed
qed (simp add: chain_def)

lemma delete_frees_all:
  assumes "mpsc_run (start_machine x v) tr m" and "pushing m = (\<lambda>_. None)" "consumer m = Idle"
  shows "\<exists>s. delete_fifo (fifo m) = Some s \<and> live s = {}"
proof -
  obtain ns where "chain m ns" using mpsc_run_chain[OF assms(1)] by blast
  from clear_chain[OF this assms(2,3)] obtain s where "clear_fifo (fifo m) = Some s" "live s = {out_item s}" by blast
  then show ?thesis by (simp add: delete_fifo_def)
qed

text \<open>C40. However the steps of any number of producers and of the consumer interleave: no step touches an item that has been
  deleted; what is popped is what was pushed, in the order of the exchanges, nothing twice and nothing left out; and the
  items allocated are those that wait and the one behind \<^verbatim>\<open>out_\<close>. The consumer finds nothing only when nothing waits, or
  when the producer of the first item that waits has still to link it.\<close>

theorem mpsc_fifo_runs:
  assumes "mpsc_run (start_machine x v) tr m" and "enabled a m"
  shows "\<exists>r m' ns. perform_action a m = Some (r, m') \<and> pushed tr = popped tr @ map (payload (fifo m)) ns \<and>
    distinct (out_item (fifo m) # ns) \<and> live (fifo m) = insert (out_item (fifo m)) (set ns) \<and>
    (r = Empty \<longrightarrow> pushed tr = popped tr \<or> (\<exists>p x. pushing m p = Some (out_item (fifo m), x))) \<and>
    (\<forall>w. r = Popped w \<longrightarrow> pushed tr = popped tr @ w # map (payload (fifo m)) (tl ns))"
proof -
  obtain ns where c: "chain m ns" and t: "pushed tr = popped tr @ waiting m ns" using mpsc_run_chain[OF assms(1)] by blast
  obtain r m' ns' where s: "perform_action a m = Some (r, m')" "waiting m ns @ pushed [(a, r)] = popped [(a, r)] @ waiting m' ns'"
    "r = Empty \<longrightarrow> waiting m ns = [] \<or> (\<exists>p x. pushing m p = Some (out_item (fifo m), x))"
    using mpsc_step[OF c assms(2)] by blast
  have ns: "ns = out_item (fifo m) # tl ns" using chainD(1,2)[OF c] by (cases ns) auto
  have "waiting m ns = w # map (payload (fifo m)) (tl (tl ns))" if w: "r = Popped w" for w
  proof -
    have "\<exists>i. consumer m = Loaded i" using s(1) w by (cases a) (auto simp: exchange_in_def split: option.splits consumer.splits if_splits)
    then obtain i where i: "consumer m = Loaded i" by blast
    have "a = Take" using s(1) w by (cases a) (auto simp: exchange_in_def split: option.splits consumer.splits if_splits)
    with take_step[OF c i] s(1) w have "w = payload (fifo m) i" by auto
    moreover obtain rest where "ns = out_item (fifo m) # i # rest" using chain_loaded[OF c chainD(12)[OF c i]] by blast
    ultimately show ?thesis by (simp add: waiting_def)
  qed
  moreover have "distinct (out_item (fifo m) # tl ns)" "live (fifo m) = insert (out_item (fifo m)) (set (tl ns))"
    using chainD(4,5)[OF c] ns by (metis, metis list.simps(15))
  ultimately show ?thesis using s t by (intro exI[of _ r] exI[of _ m'] exI[of _ "tl ns"]) (auto simp: waiting_def)
qed


text \<open>Two producers, the second of which links its item before the first does: the consumer sees nothing, then both in
  the order of the exchanges.\<close>

definition example_actions :: "nat action list" where
  "example_actions = [Emplace 0 11 70, Emplace 1 12 80, Store 1, Compare, Load, Store 0, Compare, Load, Take, Compare, Load]"

primrec run_actions :: "'v action list \<Rightarrow> 'v machine \<Rightarrow> (('v action \<times> 'v answer) list \<times> 'v machine) option" where
  "run_actions [] m = Some ([], m)"
| "run_actions (a # as) m =
     (if enabled a m
      then Option.bind (perform_action a m) (\<lambda>(r, m). map_option (\<lambda>(tr, m). ((a, r) # tr, m)) (run_actions as m)) else None)"

lemma run_actions_run:
  "mpsc_run m0 tr m \<Longrightarrow> run_actions as m = Some (tr', m') \<Longrightarrow> mpsc_run m0 (tr @ tr') m'"
proof (induction as arbitrary: tr m tr')
  case (Cons a as)
  then obtain r m1 tr1 where 1: "enabled a m" "perform_action a m = Some (r, m1)" "run_actions as m1 = Some (tr1, m')" "tr' = (a, r) # tr1"
    by (auto split: if_splits bind_splits)
  from Cons.IH[OF mpsc_run.action[OF Cons.prems(1) 1(1,2)] 1(3)] 1(4) show ?case by simp
qed simp

theorem mpsc_fifo_runs_witness:
  "\<exists>tr m m'. run_actions example_actions (start_machine 10 0) = Some (tr, m) \<and> pushed tr = [70, 80] \<and> popped tr = [70] \<and>
    perform_action Take m = Some (Popped 80, m')"
proof -
  obtain tr m where r: "run_actions example_actions (start_machine 10 0) = Some (tr, m)" "pushed tr = [70, 80]" "popped tr = [70]"
    "enabled Take m"
    by (simp add: example_actions_def start_machine_def new_fifo_def exchange_in_def new_item_def store_next_def load_next_def take_item_def)
  have "mpsc_run (start_machine 10 0) tr m" using run_actions_run[OF mpsc_run.start r(1)] by simp
  from mpsc_fifo_runs[OF this r(4)] obtain q m' ns where "perform_action Take m = Some (q, m')"
    and "\<forall>w. q = Popped w \<longrightarrow> pushed tr = popped tr @ w # map (payload (fifo m)) (tl ns)" by blast
  moreover have "\<exists>w. q = Popped w" using calculation(1) by (auto split: consumer.splits)
  ultimately have "perform_action Take m = Some (Popped 80, m')" using r(2,3) by auto
  with r show ?thesis by blast
qed

end
