(* ===== verification/CmosRtc.thy ===== *)
theory CmosRtc
  imports Pci
begin

text \<open>
  The real-time clock: \<^verbatim>\<open>drivers/x86/clock/CmosRtc.cpp\<close> with the dates and times of \<^verbatim>\<open>drivers/Clock.hpp\<close> and the switch of
  \<^verbatim>\<open>kernel/arch/x86/nmi.cpp\<close>, which shares its address port. The port operations are a parameter as in theory Pci. The
  theorems are about a chip that answers with the register selected last (\<open>cmos_ports\<close>), for each of the four formats
  it can keep the time in. A register that changes between two reads of one call is outside them.
\<close>

section \<open>Registers\<close>

definition rtcAddress :: u16 where
  "rtcAddress = 0x70"

definition rtcData :: u16 where
  "rtcData = 0x71"

text \<open>The top bit of the address port masks the non-maskable interrupt.\<close>

definition nmi_enable :: "'h config_ports \<Rightarrow> 'h \<Rightarrow> bool \<times> 'h" where
  "nmi_enable P h =
     (let (v, h) = port_in8 P rtcAddress h; h = port_out8 P rtcAddress (v AND 0x7f) h; (_, h) = port_in8 P rtcData h
      in (True, h))"

definition nmi_disable :: "'h config_ports \<Rightarrow> 'h \<Rightarrow> bool \<times> 'h" where
  "nmi_disable P h =
     (let (v, h) = port_in8 P rtcAddress h; h = port_out8 P rtcAddress (v OR 0x80) h; (_, h) = port_in8 P rtcData h
      in (False, h))"

definition read_register :: "'h config_ports \<Rightarrow> bool \<Rightarrow> u8 \<Rightarrow> 'h \<Rightarrow> u8 \<times> 'h" where
  "read_register P nmi r h = port_in8 P rtcData (port_out8 P rtcAddress (r OR (if nmi then 0 else 0x80)) h)"

definition write_register :: "'h config_ports \<Rightarrow> bool \<Rightarrow> u8 \<Rightarrow> u8 \<Rightarrow> 'h \<Rightarrow> 'h" where
  "write_register P nmi r v h = port_out8 P rtcData v (port_out8 P rtcAddress (r OR (if nmi then 0 else 0x80)) h)"

definition parse_bcd :: "u8 \<Rightarrow> u8" where
  "parse_bcd x = (x AND 0xf) + drop_bit 4 x * 10"

definition rtc_start :: "maybe option \<Rightarrow> unit attempt" where
  "rtc_start hasCmosRtc = (if hasCmosRtc = Some No then Inl ''CMOS RTC not available'' else Inr ())"

section \<open>Date and time\<close>

record rtc_date =
  year :: u16
  month :: u8
  date :: u8

record rtc_time =
  hours :: u8
  minutes :: u8
  seconds :: u8

definition get_date :: "'h config_ports \<Rightarrow> bool \<Rightarrow> 'h \<Rightarrow> rtc_date \<times> 'h" where
  "get_date P nmi h =
     (let (statusRegisterB, h) = read_register P nmi 0x0b h;
          isBcd = (statusRegisterB AND push_bit 2 1 = 0);
          (c, h) = read_register P nmi 0x32 h;
          (y, h) = read_register P nmi 0x09 h;
          (m, h) = read_register P nmi 0x08 h;
          (d, h) = read_register P nmi 0x07 h;
          (c, y, m, d) = (if isBcd then (parse_bcd c, parse_bcd y, parse_bcd m, parse_bcd d) else (c, y, m, d));
          yr = (if 19 \<le> c \<and> c \<le> 21 then ucast y + ucast c * 100 else ucast y + 2000)
      in (\<lparr>year = yr, month = m - 1, date = d - 1\<rparr>, h))"

definition read_hours :: "bool \<Rightarrow> bool \<Rightarrow> u8 \<Rightarrow> u8" where
  "read_hours isBcd is12Hr v =
     (if isBcd then
        (if is12Hr then
           let isPm = (v AND 0x80 \<noteq> 0); v = parse_bcd (v AND 0x7f); v = (if v = 12 then 0 else v)
           in if isPm then v + 12 else v
         else parse_bcd v)
      else
        (if is12Hr then
           let isPm = (v AND 0x80 \<noteq> 0); v = v AND 0x7f; v = (if v = 12 then 0 else v)
           in if isPm then v + 12 else v
         else v))"

definition get_time :: "'h config_ports \<Rightarrow> bool \<Rightarrow> 'h \<Rightarrow> rtc_time \<times> 'h" where
  "get_time P nmi h =
     (let (statusRegisterB, h) = read_register P nmi 0x0b h;
          is12Hr = (statusRegisterB AND push_bit 1 1 = 0);
          isBcd = (statusRegisterB AND push_bit 2 1 = 0);
          (hr, h) = read_register P nmi 0x04 h;
          (mi, h) = read_register P nmi 0x02 h;
          (se, h) = read_register P nmi 0x00 h;
          (mi, se) = (if isBcd then (parse_bcd mi, parse_bcd se) else (mi, se))
      in (\<lparr>hours = read_hours isBcd is12Hr hr, minutes = mi, seconds = se\<rparr>, h))"

section \<open>The formats of the chip\<close>

definition cmos_ports :: "'h config_ports \<Rightarrow> ('h \<Rightarrow> u8) \<Rightarrow> ('h \<Rightarrow> u8 \<Rightarrow> u8) \<Rightarrow> bool" where
  "cmos_ports P selected cells \<longleftrightarrow>
     (\<forall>h v. selected (port_out8 P rtcAddress v h) = v AND 0x7f \<and> cells (port_out8 P rtcAddress v h) = cells h) \<and>
     (\<forall>h. port_in8 P rtcData h = (cells h (selected h), h))"

text \<open>How a number and an hour are kept, by bits 2 (binary rather than decimal digits) and 1 (24 rather than 12 hours) of
  status register B. Hours of the afternoon have the top bit, and 12 stands for 0.\<close>

definition bcd :: "nat \<Rightarrow> u8" where
  "bcd n = of_nat (n div 10 * 16 + n mod 10)"

definition kept :: "u8 \<Rightarrow> nat \<Rightarrow> u8" where
  "kept b n = (if b AND 4 = 0 then bcd n else of_nat n)"

definition kept_hour :: "u8 \<Rightarrow> nat \<Rightarrow> u8" where
  "kept_hour b n =
     (if b AND 2 = 0 then kept b (if n mod 12 = 0 then 12 else n mod 12) OR (if 12 \<le> n then 0x80 else 0) else kept b n)"

lemma parse_bcd_bcd: "n < 100 \<Longrightarrow> parse_bcd (bcd n) = of_nat n"
proof -
  have "list_all (\<lambda>n. parse_bcd (bcd n) = of_nat n) [0..<100]" by code_simp
  then show "n < 100 \<Longrightarrow> parse_bcd (bcd n) = of_nat n" by (simp only: list_all_iff set_upt) simp
qed

lemma read_hours_kept: "n < 24 \<Longrightarrow> read_hours (b AND 4 = 0) (b AND 2 = 0) (kept_hour b n) = of_nat n"
proof -
  have "list_all (\<lambda>n. read_hours True True (bcd (if n mod 12 = 0 then 12 else n mod 12) OR (if 12 \<le> n then 0x80 else 0)) = of_nat n \<and>
      read_hours False True (of_nat (if n mod 12 = 0 then 12 else n mod 12) OR (if 12 \<le> n then 0x80 else 0)) = of_nat n \<and>
      read_hours True False (bcd n) = of_nat n \<and> read_hours False False (of_nat n) = of_nat n) [0..<24]" by code_simp
  moreover assume "n < 24"
  ultimately show ?thesis unfolding kept_hour_def kept_def by (simp only: list_all_iff set_upt) simp
qed

lemma read_cell:
  assumes "cmos_ports P selected cells" and "cells g = c" and "r AND 0x7f = r" and "(r OR 0x80) AND 0x7f = r"
  obtains h' where "read_register P nmi r g = (c r, h')" and "cells h' = c"
  using assms by (auto simp: read_register_def cmos_ports_def)

text \<open>The time comes back exactly as it was put into the chip, in each of its four formats.\<close>

lemma get_time_kept:
  assumes cp: "cmos_ports P selected cells" and t: "hr < 24" "mi < 60" "se < 60"
    and cells: "cells h 0x04 = kept_hour (cells h 0x0b) hr" "cells h 0x02 = kept (cells h 0x0b) mi" "cells h 0x00 = kept (cells h 0x0b) se"
  shows "\<exists>h'. get_time P nmi h = (\<lparr>hours = of_nat hr, minutes = of_nat mi, seconds = of_nat se\<rparr>, h') \<and> cells h' = cells h"
proof -
  obtain h1 where 1: "read_register P nmi 0x0b h = (cells h 0x0b, h1)" "cells h1 = cells h" by (rule read_cell[OF cp refl, where g = h and r = "0x0b" and nmi = nmi]) simp_all
  obtain h2 where 2: "read_register P nmi 0x04 h1 = (cells h 0x04, h2)" "cells h2 = cells h" by (rule read_cell[OF cp 1(2), where r = "0x04" and nmi = nmi]) simp_all
  obtain h3 where 3: "read_register P nmi 0x02 h2 = (cells h 0x02, h3)" "cells h3 = cells h" by (rule read_cell[OF cp 2(2), where r = "0x02" and nmi = nmi]) simp_all
  obtain h4 where 4: "read_register P nmi 0x00 h3 = (cells h 0x00, h4)" "cells h4 = cells h" by (rule read_cell[OF cp 3(2), where r = "0x00" and nmi = nmi]) simp_all
  have bits: "push_bit 1 1 = (2 :: u8)" "push_bit 2 1 = (4 :: u8)" by simp_all
  have "get_time P nmi h = (\<lparr>hours = of_nat hr, minutes = of_nat mi, seconds = of_nat se\<rparr>, h4)"
    using read_hours_kept[OF t(1), of "cells h 0x0b"] parse_bcd_bcd[of mi] parse_bcd_bcd[of se] t
    unfolding get_time_def bits 1(1) 2(1) 3(1) 4(1) Let_def prod.case cells by (simp add: kept_def)
  with 4(2) show ?thesis by blast
qed

lemma get_date_kept:
  assumes cp: "cmos_ports P selected cells" and t: "c < 100" "y < 100" "1 \<le> m" "m \<le> 12" "1 \<le> d" "d \<le> 31"
    and cells: "cells h 0x32 = kept (cells h 0x0b) c" "cells h 0x09 = kept (cells h 0x0b) y"
      "cells h 0x08 = kept (cells h 0x0b) m" "cells h 0x07 = kept (cells h 0x0b) d"
  shows "\<exists>h'. get_date P nmi h = (\<lparr>year = of_nat (if 19 \<le> c \<and> c \<le> 21 then c * 100 + y else 2000 + y),
    month = of_nat (m - 1), date = of_nat (d - 1)\<rparr>, h') \<and> cells h' = cells h"
proof -
  obtain h1 where 1: "read_register P nmi 0x0b h = (cells h 0x0b, h1)" "cells h1 = cells h" by (rule read_cell[OF cp refl, where g = h and r = "0x0b" and nmi = nmi]) simp_all
  obtain h2 where 2: "read_register P nmi 0x32 h1 = (cells h 0x32, h2)" "cells h2 = cells h" by (rule read_cell[OF cp 1(2), where r = "0x32" and nmi = nmi]) simp_all
  obtain h3 where 3: "read_register P nmi 0x09 h2 = (cells h 0x09, h3)" "cells h3 = cells h" by (rule read_cell[OF cp 2(2), where r = "0x09" and nmi = nmi]) simp_all
  obtain h4 where 4: "read_register P nmi 0x08 h3 = (cells h 0x08, h4)" "cells h4 = cells h" by (rule read_cell[OF cp 3(2), where r = "0x08" and nmi = nmi]) simp_all
  obtain h5 where 5: "read_register P nmi 0x07 h4 = (cells h 0x07, h5)" "cells h5 = cells h" by (rule read_cell[OF cp 4(2), where r = "0x07" and nmi = nmi]) simp_all
  have bits: "push_bit 2 1 = (4 :: u8)" by simp
  have conv: "(if cells h 0x0b AND 4 = 0 then (parse_bcd (kept (cells h 0x0b) c), parse_bcd (kept (cells h 0x0b) y),
        parse_bcd (kept (cells h 0x0b) m), parse_bcd (kept (cells h 0x0b) d))
      else (kept (cells h 0x0b) c, kept (cells h 0x0b) y, kept (cells h 0x0b) m, kept (cells h 0x0b) d)) =
      (of_nat c, of_nat y, of_nat m, of_nat d)"
    using parse_bcd_bcd[of c] parse_bcd_bcd[of y] parse_bcd_bcd[of m] parse_bcd_bcd[of d] t by (simp add: kept_def)
  have small: "unat (of_nat k :: u8) = k" if "k < 100" for k using that by (simp add: unat_of_nat)
  have u: "ucast (of_nat k :: u8) = (of_nat k :: u16)" if "k < 100" for k
  proof -
    have "list_all (\<lambda>k. ucast (of_nat k :: u8) = (of_nat k :: u16)) [0..<100]" by code_simp
    with that show ?thesis by (simp only: list_all_iff set_upt) simp
  qed
  have century: "19 \<le> (of_nat c :: u8) \<and> (of_nat c :: u8) \<le> 21 \<longleftrightarrow> 19 \<le> c \<and> c \<le> 21"
    using small[OF t(1)] by (simp add: word_le_nat_alt)
  have "get_date P nmi h = (\<lparr>year = of_nat (if 19 \<le> c \<and> c \<le> 21 then c * 100 + y else 2000 + y),
      month = of_nat (m - 1), date = of_nat (d - 1)\<rparr>, h5)"
    unfolding get_date_def bits 1(1) 2(1) 3(1) 4(1) 5(1) Let_def prod.case cells conv century u[OF t(1)] u[OF t(2)]
    using t by (simp add: of_nat_diff)
  with 5(2) show ?thesis by blast
qed


text \<open>What a chip holds that was set to a time of day and a date, in the format its status register B says.\<close>

definition clock_holds :: "(u8 \<Rightarrow> u8) \<Rightarrow> nat \<Rightarrow> nat \<Rightarrow> nat \<Rightarrow> nat \<Rightarrow> nat \<Rightarrow> nat \<Rightarrow> nat \<Rightarrow> bool" where
  "clock_holds r hr mi se c y m d \<longleftrightarrow>
     r 0x04 = kept_hour (r 0x0b) hr \<and> r 0x02 = kept (r 0x0b) mi \<and> r 0x00 = kept (r 0x0b) se \<and>
     r 0x32 = kept (r 0x0b) c \<and> r 0x09 = kept (r 0x0b) y \<and> r 0x08 = kept (r 0x0b) m \<and> r 0x07 = kept (r 0x0b) d"

text \<open>C39. Whatever of its four formats the chip is set to, \<^verbatim>\<open>get_time\<close> gives the time it was set to and \<^verbatim>\<open>get_date\<close> the date, with
  months and days counted from 0; the century counts when it is one of 19 to 21, otherwise the year is taken as one
  of the 2000s. Neither changes the registers, whether the non-maskable interrupt is masked or not.\<close>

theorem clock_reads_back:
  assumes "cmos_ports P selected cells" and "clock_holds (cells h) hr mi se c y m d"
    and "hr < 24" "mi < 60" "se < 60" "c < 100" "y < 100" "1 \<le> m" "m \<le> 12" "1 \<le> d" "d \<le> 31"
  shows "(\<exists>h'. get_time P nmi h = (\<lparr>hours = of_nat hr, minutes = of_nat mi, seconds = of_nat se\<rparr>, h') \<and> cells h' = cells h) \<and>
    (\<exists>h'. get_date P nmi h = (\<lparr>year = of_nat (if 19 \<le> c \<and> c \<le> 21 then c * 100 + y else 2000 + y),
       month = of_nat (m - 1), date = of_nat (d - 1)\<rparr>, h') \<and> cells h' = cells h)"
  using get_time_kept[OF assms(1,3-5)] get_date_kept[OF assms(1,6-11)] assms(2) unfolding clock_holds_def by blast

definition example_chip :: "(u8 \<times> (u8 \<Rightarrow> u8)) config_ports" where
  "example_chip =
     \<lparr>port_in8 = \<lambda>p s. (if p = rtcData then snd s (fst s) else 0, s), port_in16 = \<lambda>p s. (0, s), port_in32 = \<lambda>p s. (0, s),
      port_out8 = \<lambda>p v s. if p = rtcAddress then (v AND 0x7f, snd s) else if p = rtcData then (fst s, (snd s)(fst s := v)) else s,
      port_out16 = \<lambda>p v s. s, port_out32 = \<lambda>p v s. s\<rparr>"

definition example_cells :: "u8 \<Rightarrow> u8" where
  "example_cells r = (if r = 0x04 then 0x92 else if r = 0x02 then 0x45 else if r = 0x00 then 0x07 else if r = 0x32 then 0x20
     else if r = 0x09 then 0x24 else if r = 0x08 then 0x12 else if r = 0x07 then 0x31 else 0)"

theorem clock_reads_back_witness:
  "(\<exists>h'. get_time example_chip False (0, example_cells) = (\<lparr>hours = 12, minutes = 45, seconds = 7\<rparr>, h')) \<and>
   (\<exists>h'. get_date example_chip False (0, example_cells) = (\<lparr>year = 2024, month = 11, date = 30\<rparr>, h'))"
proof -
  have "cmos_ports example_chip fst snd" by (simp add: cmos_ports_def example_chip_def rtcAddress_def rtcData_def)
  moreover have "clock_holds example_cells 12 45 7 20 24 12 31" by code_simp
  ultimately show ?thesis
    using clock_reads_back[of example_chip fst snd "(0, example_cells)" 12 45 7 20 24 12 31 False] by auto
qed

end
