(* ===== verification/Spec2Isabelle.thy ===== *)
theory Spec2Isabelle
  imports CString Digits Bits Maths Memory Events Locks Sched Regions Drivers Timers Keyboard Console Mouse Pic Scenes PciFound MpscFifo CmosRtc
begin

text \<open>
  \<^bold>\<open>Verification development for the uberos kernel.\<close>

  uberos is a small operating system in C++. This library models its 32-bit x86 debug build: the common containers and
  routines under \<^verbatim>\<open>src/common\<close>, the kernel proper under \<^verbatim>\<open>src/kernel\<close> (memory, paging, interrupts, locks, the driver
  registry) and the drivers under \<^verbatim>\<open>src/drivers\<close> whose logic is more than port traffic (scheduler, timers,
  keyboard and mouse, text screen and console, interrupt controller, display manager, PCI).

  \<^bold>\<open>How the program fits together.\<close> The boot code builds a physical page mask and a page table; \<^verbatim>\<open>memory.cpp\<close> claims pages
  from the mask, maps them through the transaction of \<^verbatim>\<open>mmu.cpp\<close> and feeds them to the heap. Arrays and lists of all other
  parts live in that heap. Interrupts come in through the processor vectors, are offered to subscribed drivers, and an
  interrupt controller passes its lines on to the line subscribers. Drivers are kept in an intrusive list, are started
  and stopped through \<^verbatim>\<open>drivers.cpp\<close>, and take and give back memory regions, ports, lines and PCI devices through
  \<^verbatim>\<open>DriverApi.cpp\<close>. The CPU scheduler is such a driver and moves threads between four lists. All of this runs in
  critical sections and under locks.

  \<^bold>\<open>Theories, bottom up.\<close>
  \<^item> Prelude: machine arithmetic of the target, \<open>Try\<close> as a sum, list facts.
  \<^item> LinkedList: \<^verbatim>\<open>common/LList.hpp\<close>. Nodes are a store of previous/next fields, a list is its head and tail; \<open>llist_repr\<close>
    relates them to a HOL list. Every operation refines its list counterpart, runs of operations by induction.
  \<^item> Arrays: \<^verbatim>\<open>common/PodArray.hpp\<close>, \<^verbatim>\<open>Array.hpp\<close>, \<^verbatim>\<open>ListOrdered.hpp\<close>, \<^verbatim>\<open>ListUnordered.hpp\<close>. An array is its allocated cells, its
    length and its base; reading an unset cell or past the allocation is \<open>None\<close>. A locale states the contract of an
    appendable container and is interpreted on the three kinds.
  \<^item> CString and Digits: \<^verbatim>\<open>common/stdlib.cpp\<close> over byte memory; copies with any overlap, comparison, number formatting.
  \<^item> Bits, Maths: \<^verbatim>\<open>common/Bitmask.hpp\<close>, \<^verbatim>\<open>common/maths.hpp\<close>, fixed point, rectangles.
  \<^item> Pool and Heap: \<^verbatim>\<open>common/MemoryPool.hpp\<close>. Pool has the block list and its byte accounting, Heap the allocator: safety of
    all runs, exact effect of \<open>malloc\<close>, round trip with \<open>free\<close>, compaction.
  \<^item> PageMask: \<^verbatim>\<open>common/AllocationMask.hpp\<close>. X86Mmu and PageMapper: page directories and tables as a store of physical words,
    walks, insertion, and \<^verbatim>\<open>map_physical\<close> with its transaction.
  \<^item> Memory: \<^verbatim>\<open>kernel/memory.cpp\<close> and \<^verbatim>\<open>PagedPool.hpp\<close>: the composition of mask, page table and heap. Its invariant says that
    every mapped heap page has a frame of its own.
  \<^item> Locks: critical sections as nested counters; the lock words as step relations over any number of processors, with
    mutual exclusion as an invariant of the reachable states.
  \<^item> Subscriptions and Events: \<^verbatim>\<open>kernel/exceptions.cpp\<close>, \<^verbatim>\<open>kernel/arch/x86/exceptions.cpp\<close>, \<^verbatim>\<open>common/EventEmitter.hpp\<close>.
  \<^item> Sched: \<^verbatim>\<open>drivers/CpuScheduler.cpp\<close> and \<^verbatim>\<open>kernel/Thread.cpp\<close>: four thread lists over one node store, and who is in which.
  \<^item> Regions, References, Drivers: \<^verbatim>\<open>kernel/DriverApi.cpp\<close>, \<^verbatim>\<open>kernel/DriverReference.cpp\<close>, \<^verbatim>\<open>kernel/drivers.cpp\<close>,
    \<^verbatim>\<open>kernel/arch/x86/PciDevice.cpp\<close>: what a driver holds and what starting and stopping it does. The virtual functions of a
    particular driver are the record \<open>hooks\<close>, a parameter.
  \<^item> Timers: \<^verbatim>\<open>drivers/Timer.inl\<close> and the clock of \<^verbatim>\<open>drivers/x86/timer/Hpet.cpp\<close>.
  \<^item> Keyboard: \<^verbatim>\<open>drivers/x86/input/Ps2Keyboard.cpp\<close>, \<^verbatim>\<open>kernel/keyboard.hpp\<close>: the decoder of the byte stream.
  \<^item> Screen, VgaText: the generic half of \<^verbatim>\<open>drivers/Textmode.cpp\<close> and \<^verbatim>\<open>drivers/x86/textmode/VgaTextmode.cpp\<close>. Screen states the
    contract of the virtual functions (\<open>set\<close>, \<open>getCharacter\<close>, \<open>move_to\<close> and their kin) as the locales \<open>text_cells\<close> and
    \<open>text_screen\<close> and proves in them that the scroll loops move a region by whole rows and that \<open>write_text\<close> in its three
    wrap modes is the left fold of a reference terminal \<open>type_char\<close>. VgaText models the character memory of the adapter,
    its palette and its cursor registers, and interprets both locales on them.
  \<^item> Ansi, Console: \<^verbatim>\<open>kernel/ConsoleOut.cpp\<close> with its 64-byte escape buffer (\<open>renditions\<close> ends because each round moves
    towards the end of the buffer), and the routing of \<^verbatim>\<open>drivers/Console.cpp\<close> from colours to the text screen.
  \<^item> Ps2Ports, Mouse: \<^verbatim>\<open>drivers/x86/system/Ps2.cpp\<close>, \<^verbatim>\<open>kernel/arch/x86/ioPort.inl\<close>, \<^verbatim>\<open>drivers/x86/input/Ps2Mouse.cpp\<close>.
    What the n-th read of a port answers is a parameter. The busy loops have no bound in the code and are partial functions:
    they return exactly when the device answers. Mouse assembles packets of three or four bytes and turns them into events.
  \<^item> Pic: \<^verbatim>\<open>drivers/x86/interrupt/Pic8259.cpp\<close>: the masks of the two chips, line allocation and the dispatch of an interrupt.
  \<^item> Displays, Paint, Compositor, Transparency, Picture: the compositing half of \<^verbatim>\<open>drivers/DisplayManager.cpp\<close> over the pixel
    buffers of \<^verbatim>\<open>common/graphics2d\<close>. Displays has the data, the stack over the linked list and hit testing. Paint scans a row
    for the runs between displays; the locale \<open>run_painter\<close> states what drawing a run does to a buffer and is interpreted on
    the background, the copy of solid pixels and the transparent strips. Compositor and Transparency are the two passes of
    \<^verbatim>\<open>_update_area\<close>; a redraw is a relation between old and new pixel at each place (\<open>redraws\<close>), and passes compose as these do.
    Picture has both passes together and the sums of light.
  \<^item> DisplayManager: the operations (create, move, resize, restack, show, hide, delete) and the framebuffers that come and go.
    Showing, DeskRuns and Scenes: the invariant \<open>shown_on\<close>, that every pixel shows what the displays over it make; each operation
    re-establishes it, and runs of operations refine the abstract scene (the displays and their order).
  \<^item> Pci: \<^verbatim>\<open>drivers/x86/system/Pci.cpp\<close>, \<^verbatim>\<open>kernel/arch/x86/PciDevice.hpp\<close>. The two configuration ports are a parameter, and the
    recursion over bridges has 256 levels. PciScan needs nothing of the hardware: the scan ends, since every level marks a
    bus, and finds no function twice. PciFound has the registers as the PCI documents describe them (\<open>config_space\<close>) and
    shows which buses and functions are found, what is left in the registers and what sizes are computed.
  \<^item> MpscFifo: \<^verbatim>\<open>common/MpscFifo.hpp\<close>, the lock-free queue, as a machine of single accesses to shared memory; its invariant is
    the chain of items, in which a link may still be in the hands of a producer.
  \<^item> CmosRtc: \<^verbatim>\<open>drivers/x86/clock/CmosRtc.cpp\<close>, \<^verbatim>\<open>kernel/arch/x86/nmi.cpp\<close>: decoding the four formats of the clock chip.

  \<^bold>\<open>Conventions.\<close> \<open>size_t\<close>, pointers and \<open>unsigned\<close> have 32 bits and a page has 4096 bytes. Integers are words of HOL-Library.Word
  where bits or wrap-around matter and natural numbers with \<open>add32\<close> and its kin elsewhere. Undefined behaviour and a failed
  assertion are the outer \<open>None\<close> (in theory Pci the constructors of \<open>outcome\<close>); a theorem that an operation gives \<open>Some\<close> is a statement that it returns and stays
  defined. Failures the code reports are the left side of a sum.

  \<^bold>\<open>Loops, bounds and fuel.\<close> A walk along pointers is a \<open>partial_function\<close> in the option monad, so that a cyclic list gives
  \<open>None\<close>, and every claim about it proves \<open>Some\<close>. Loops over an index recurse on the remaining count: interrupt vectors on
  256, the decoder of the keyboard on the length of its buffer (each round removes at least one byte), the merging of
  regions on the length of the array (each round removes one region), Newton's square root on a measure, the PCI scan on a depth
  of 256 buses, which \<open>pci_scan_ends\<close> shows to be enough on any hardware. No fuel is left
  over where a claim could depend on it.

  \<^bold>\<open>Kinds of theorem.\<close> Each component has its representation or well-formedness invariant, the preservation of it by every
  operation, and the effect of the operations on the abstract state, error branches included. Where the code departs from
  what its names and comments say, the theorem states what it does, and the text before it says so.

  \<^bold>\<open>Not modelled.\<close> The window system, its layouts, themes and the desktop manager work in floating point over virtual
  drawing calls; of the pixel buffers only the 32-bit format is modelled, not shapes, text and scaling. Screen coordinates are
  mathematical integers, so positions near the limits of 32 bits are outside the model. The ARM, Raspberry Pi, UEFI and hosted targets, the AArch64 disassembler and the vendored
  libraries are not part of the modelled build. Hardware drivers that only exchange values with ports, firmware tables or
  processor registers (descriptor tables, ACPI, SMBIOS, IDE, display adapters), start-up,
  logging, panics and the command line are left out: their effect is input and output. The unused
  \<^verbatim>\<open>kernel/DynamicArray.hpp\<close> includes a header the repository does not have.
\<close>

end
